(* ===== verification/Prelude.thy ===== *)
theory Prelude
  imports Main "HOL-Library.Word"
begin

text \<open>
  Shared vocabulary of the development: the faults a C++ operation of InfOS can end in
  (a failed \<open>assert\<close>, a dereference of a null pointer, an access outside an array,
  an endless loop, an operation the language leaves undefined), the result
  type that carries them, sequencing of operations over that type, and generic facts on lists and words that several components use.
\<close>

section \<open>Faults and results\<close>

datatype fault =
    AssertFail
  | NullDeref
  | OutOfBounds
  | Diverges
  | Undefined

type_synonym 'a result = "fault + 'a"

type_synonym ptr = "nat option"

type_synonym u8 = "8 word"
type_synonym u16 = "16 word"
type_synonym u32 = "32 word"
type_synonym u64 = "64 word"

named_theorems result_simps "unfolding of sequencing and checks over results"

definition andthen :: "'a result \<Rightarrow> ('a \<Rightarrow> 'b result) \<Rightarrow> 'b result" where
  "andthen m f = (case m of Inl e \<Rightarrow> Inl e | Inr x \<Rightarrow> f x)"

definition check :: "bool \<Rightarrow> fault \<Rightarrow> unit result" where
  "check b e = (if b then Inr () else Inl e)"

definition deref :: "'a option \<Rightarrow> 'a result" where
  "deref p = (case p of None \<Rightarrow> Inl NullDeref | Some a \<Rightarrow> Inr a)"

lemma andthen_Inr [simp, result_simps]: "andthen (Inr x) f = f x"
  by (simp add: andthen_def)

lemma andthen_Inl [simp, result_simps]: "andthen (Inl e) f = Inl e"
  by (simp add: andthen_def)

lemma andthen_eq_Inr:
  "andthen m f = Inr y \<longleftrightarrow> (\<exists>x. m = Inr x \<and> f x = Inr y)"
  by (cases m) auto

lemma check_True [simp, result_simps]: "check True e = Inr ()"
  by (simp add: check_def)

lemma check_False [simp, result_simps]: "check False e = Inl e"
  by (simp add: check_def)

lemma check_eq_Inr [simp]: "check b e = Inr u \<longleftrightarrow> b"
  by (simp add: check_def)

lemma deref_Some [simp, result_simps]: "deref (Some a) = Inr a"
  by (simp add: deref_def)

lemma deref_None [simp, result_simps]: "deref None = Inl NullDeref"
  by (simp add: deref_def)

lemma deref_eq_Inr [simp]: "deref p = Inr a \<longleftrightarrow> p = Some a"
  by (cases p) auto

text \<open>A loop that calls a fallible operation on every element of a list.\<close>

primrec fold_result :: "('s \<Rightarrow> 'a \<Rightarrow> 's result) \<Rightarrow> 's \<Rightarrow> 'a list \<Rightarrow> 's result" where
  "fold_result f s [] = Inr s"
| "fold_result f s (x # xs) = andthen (f s x) (\<lambda>s'. fold_result f s' xs)"

section \<open>Chains of pointers\<close>

text \<open>
  \<open>chain nx p as\<close>: following \<open>nx\<close> from the pointer \<open>p\<close> visits the nodes \<open>as\<close>
  and ends in the null pointer. Free lists of the page allocators are read this way.
\<close>

named_theorems chain_simps "updates of a pointer chain"

fun chain :: "(nat \<Rightarrow> ptr) \<Rightarrow> ptr \<Rightarrow> nat list \<Rightarrow> bool" where
  "chain nx p [] \<longleftrightarrow> p = None"
| "chain nx p (a # as) \<longleftrightarrow> p = Some a \<and> chain nx (nx a) as"

lemma chain_None [simp]: "chain nx None as \<longleftrightarrow> as = []"
  by (cases as) auto

lemma chain_Some: "chain nx (Some a) as \<longleftrightarrow> (\<exists>bs. as = a # bs \<and> chain nx (nx a) bs)"
  by (cases as) auto

lemma chain_cong:
  "(\<And>a. a \<in> set as \<Longrightarrow> nx a = nx' a) \<Longrightarrow> chain nx p as \<longleftrightarrow> chain nx' p as"
  by (induction as arbitrary: p) auto

lemma chain_congI:
  "chain nx p as \<Longrightarrow> (\<And>a. a \<in> set as \<Longrightarrow> nx' a = nx a) \<Longrightarrow> chain nx' p as"
  using chain_cong [of as nx nx' p] by metis

lemma chain_upd [simp, chain_simps]:
  "a \<notin> set as \<Longrightarrow> chain (nx(a := q)) p as \<longleftrightarrow> chain nx p as"
  by (rule chain_cong) auto

lemma chain_unique: "chain nx p as \<Longrightarrow> chain nx p bs \<Longrightarrow> as = bs"
  by (induction as arbitrary: p bs) (auto simp: chain_Some)

lemma chain_append:
  "chain nx p (as @ b # bs) \<Longrightarrow> chain nx (Some b) (b # bs)"
  by (induction as arbitrary: p) auto

section \<open>Strictly sorted lists\<close>

lemma sorted_list_of_set_split:
  fixes A :: "nat set"
  assumes "finite A" and "a \<in> A"
  shows "sorted_list_of_set A =
    sorted_list_of_set {x \<in> A. x < a} @ a # sorted_list_of_set {x \<in> A. a < x}"
proof (rule sorted_distinct_set_unique)
  show "sorted (sorted_list_of_set {x \<in> A. x < a} @ a # sorted_list_of_set {x \<in> A. a < x})"
    using assms by (auto simp: sorted_append intro: less_imp_le)
  show "distinct (sorted_list_of_set {x \<in> A. x < a} @ a # sorted_list_of_set {x \<in> A. a < x})"
    using assms by auto
  show "set (sorted_list_of_set A) =
      set (sorted_list_of_set {x \<in> A. x < a} @ a # sorted_list_of_set {x \<in> A. a < x})"
    using assms by auto
qed (use assms in auto)

end
