(* ===== verification/Phys_Mem.thy ===== *)
theory Phys_Mem
  imports Prelude
begin

unbundle bit_operations_syntax

text \<open>
  Physical memory: the address conversions of \<open>infos/include/infos/define.h\<close> and the table of
  physical memory blocks that \<open>MemoryManager\<close> (\<open>infos/mm/mm.cpp\<close>) fills while it reads the
  machine's memory map. Addresses and frame numbers are 64-bit words, page counts are the
  source's \<open>unsigned int\<close>; the product \<open>nr_pages * _page_size\<close> of two \<open>unsigned int\<close>s is computed
  at 32 bits before it is added to an address, as C++ does.
\<close>

section \<open>Address conversions\<close>

definition KERNEL_VMEM_START :: u64 where
  "KERNEL_VMEM_START = 0xFFFFFFFF80000000"

definition KERNEL_VMEM_END :: u64 where
  "KERNEL_VMEM_END = 0xFFFFFFFFFFFFFFFF"

definition KERNEL_VMEM_SIZE :: u64 where
  "KERNEL_VMEM_SIZE = KERNEL_VMEM_END - KERNEL_VMEM_START + 1"

definition PMEM_VA_START :: u64 where
  "PMEM_VA_START = 0xFFFF800000000000"

definition PMEM_VA_END :: u64 where
  "PMEM_VA_END = 0xFFFF800100000000"

definition PMEM_VA_SIZE :: u64 where
  "PMEM_VA_SIZE = PMEM_VA_END - PMEM_VA_START"

definition pa_to_kva :: "u64 \<Rightarrow> u64 result" where
  "pa_to_kva pa = andthen (check (pa < KERNEL_VMEM_SIZE) AssertFail) (\<lambda>_. Inr (KERNEL_VMEM_START + pa))"

definition kva_to_pa :: "u64 \<Rightarrow> u64 result" where
  "kva_to_pa va =
     andthen (check (va \<ge> KERNEL_VMEM_START \<and> va \<le> KERNEL_VMEM_END) AssertFail)
       (\<lambda>_. Inr (va - KERNEL_VMEM_START))"

definition pa_to_vpa :: "u64 \<Rightarrow> u64 result" where
  "pa_to_vpa pa = andthen (check (pa < PMEM_VA_SIZE) AssertFail) (\<lambda>_. Inr (PMEM_VA_START + pa))"

definition vpa_to_pa :: "u64 \<Rightarrow> u64 result" where
  "vpa_to_pa va =
     andthen (check (va \<ge> PMEM_VA_START \<and> va < PMEM_VA_END) AssertFail)
       (\<lambda>_. Inr (va - PMEM_VA_START))"

definition pa_to_pfn :: "u64 \<Rightarrow> u64" where
  "pa_to_pfn pa = drop_bit 12 pa"

definition pfn_to_pa :: "u64 \<Rightarrow> u64" where
  "pfn_to_pa pfn = push_bit 12 pfn"

section \<open>The table of physical memory blocks\<close>

datatype MemoryType = NORMAL | UNUSABLE

record PhysicalMemoryBlock =
  base_address :: u64
  base_pfn :: u64
  nr_pages :: u32
  mem_type :: MemoryType

record MemoryManager =
  last_pfn :: u64
  phys_mem_blocks :: "PhysicalMemoryBlock list"

definition page_size :: u32 where
  "page_size = 0x1000"

definition MemoryManager_init :: MemoryManager where
  "MemoryManager_init = \<lparr>last_pfn = 0, phys_mem_blocks = []\<rparr>"

definition add_physical_memory :: "MemoryManager \<Rightarrow> u64 \<Rightarrow> u32 \<Rightarrow> MemoryType \<Rightarrow> MemoryManager" where
  "add_physical_memory mm addr nr type =
     (if nr = 0 then mm
      else if length (phys_mem_blocks mm) \<ge> 16 then mm
      else
        let mm1 = mm\<lparr>phys_mem_blocks := phys_mem_blocks mm @
              [\<lparr>base_address = addr, base_pfn = drop_bit 12 addr, nr_pages = nr, mem_type = type\<rparr>]\<rparr>
        in if type = NORMAL
           then let lst = drop_bit 12 (addr + ucast (nr * page_size)) - 1
                in if lst > last_pfn mm1 then mm1\<lparr>last_pfn := lst\<rparr> else mm1
           else mm1)"

definition in_block :: "u64 \<Rightarrow> PhysicalMemoryBlock \<Rightarrow> bool" where
  "in_block addr b \<longleftrightarrow>
     addr \<ge> base_address b \<and> addr < base_address b + ucast (nr_pages b * page_size)"

definition lookup_phys_block :: "MemoryManager \<Rightarrow> u64 \<Rightarrow> PhysicalMemoryBlock option" where
  "lookup_phys_block mm addr = find (in_block addr) (phys_mem_blocks mm)"

section \<open>Lemmas\<close>

lemma unat_page_bytes:
  assumes "unat (nr::u32) < 2 ^ 20"
  shows "unat (ucast (nr * page_size) :: u64) = unat nr * 4096"
proof -
  have "unat (nr * page_size) = unat nr * 4096"
    using assms by (simp add: unat_word_ariths(2) page_size_def)
  moreover have "unat nr * 4096 < 2 ^ 64" using assms by simp
  ultimately show ?thesis by (simp add: unsigned_ucast_eq take_bit_nat_eq_self)
qed

lemma unat_drop12: "unat (drop_bit 12 (a :: u64)) = unat a div 4096"
  by (simp add: drop_bit_eq_div unat_div)

lemma unat_add_page_bytes:
  assumes "unat nr < 2 ^ 20" and "unat (addr::u64) + unat nr * 4096 < 2 ^ 64"
  shows "unat (addr + ucast (nr * page_size)) = unat addr + unat nr * 4096"
  using assms unat_page_bytes [OF assms(1)] by (simp add: unat_word_ariths(1))

definition covers :: "MemoryManager \<Rightarrow> bool" where
  "covers mm \<longleftrightarrow> length (phys_mem_blocks mm) \<le> 16 \<and>
     (\<forall>b \<in> set (phys_mem_blocks mm). mem_type b = NORMAL \<longrightarrow>
        unat (base_pfn b) + unat (nr_pages b) \<le> unat (last_pfn mm) + 1)"

lemma covers_init: "covers MemoryManager_init"
  by (simp add: covers_def MemoryManager_init_def)

lemma last_frame:
  assumes "nr \<noteq> 0" and "unat nr < 2 ^ 20" and "unat (addr::u64) + unat nr * 4096 < 2 ^ 64"
  shows "unat (drop_bit 12 (addr + ucast (nr * page_size)) - 1 :: u64) + 1 = unat addr div 4096 + unat nr"
proof -
  have e: "unat (drop_bit 12 (addr + ucast (nr * page_size)) :: u64) = unat addr div 4096 + unat nr"
    using unat_add_page_bytes [OF assms(2,3)] by (simp add: unat_drop12)
  moreover have "0 < unat nr" using assms(1) by (simp add: unat_gt_0)
  ultimately have "1 \<le> drop_bit 12 (addr + ucast (nr * page_size) :: u64)"
    by (simp add: word_le_nat_alt)
  then show ?thesis using e \<open>0 < unat nr\<close> by (simp add: unat_sub)
qed

lemma add_physical_memory_covers:
  assumes "covers mm" and "unat nr < 2 ^ 20" and "unat addr + unat nr * 4096 < 2 ^ 64"
  shows "covers (add_physical_memory mm addr nr type)"
proof (cases "nr = 0 \<or> length (phys_mem_blocks mm) \<ge> 16")
  case True
  with assms(1) show ?thesis by (auto simp: add_physical_memory_def)
next
  case False
  define lst :: u64 where "lst = drop_bit 12 (addr + ucast (nr * page_size)) - 1"
  have l: "unat lst + 1 = unat (drop_bit 12 addr) + unat nr"
    using last_frame [of nr addr] False assms(2,3) by (simp add: lst_def unat_drop12)
  have "covers (if type = NORMAL \<and> lst > last_pfn mm
      then mm\<lparr>phys_mem_blocks := phys_mem_blocks mm @ [b], last_pfn := lst\<rparr>
      else mm\<lparr>phys_mem_blocks := phys_mem_blocks mm @ [b]\<rparr>)"
    if "b = \<lparr>base_address = addr, base_pfn = drop_bit 12 addr, nr_pages = nr, mem_type = type\<rparr>" for b
    using that False l assms(1) unfolding covers_def word_less_nat_alt
    by (fastforce simp: not_less)
  then show ?thesis using False
    by (auto simp: add_physical_memory_def Let_def lst_def [symmetric] split: if_splits)
qed

lemma lookup_phys_block_added:
  assumes "addr \<ge> a" and "addr < a + ucast (nr * page_size)" and "nr \<noteq> 0"
    and "length (phys_mem_blocks mm) < 16"
  shows "\<exists>b. lookup_phys_block (add_physical_memory mm a nr type) addr = Some b \<and> in_block addr b"
proof -
  define new where
    "new = \<lparr>base_address = a, base_pfn = drop_bit 12 a, nr_pages = nr, mem_type = type\<rparr>"
  have "phys_mem_blocks (add_physical_memory mm a nr type) = phys_mem_blocks mm @ [new]"
    using assms(3,4) by (simp add: add_physical_memory_def Let_def new_def)
  moreover have "in_block addr new" using assms(1,2) by (simp add: in_block_def new_def)
  ultimately have "find (in_block addr) (phys_mem_blocks (add_physical_memory mm a nr type)) \<noteq> None"
    by (auto simp: find_None_iff)
  then show ?thesis
    unfolding lookup_phys_block_def by (auto simp: find_Some_iff)
qed

lemma pa_kva_roundtrip:
  assumes "pa < KERNEL_VMEM_SIZE"
  shows "andthen (pa_to_kva pa) kva_to_pa = Inr pa"
proof -
  have "pa < 0x80000000"
    using assms by (simp add: KERNEL_VMEM_SIZE_def KERNEL_VMEM_END_def KERNEL_VMEM_START_def)
  then have "unat (KERNEL_VMEM_START + pa) = unat KERNEL_VMEM_START + unat pa"
    by (simp add: KERNEL_VMEM_START_def unat_word_ariths(1) word_less_nat_alt)
  then have "KERNEL_VMEM_START \<le> KERNEL_VMEM_START + pa" by (simp add: word_le_nat_alt)
  moreover have "KERNEL_VMEM_START + pa \<le> KERNEL_VMEM_END"
    using unsigned_less [of "KERNEL_VMEM_START + pa", where 'a = nat] by (simp add: word_le_nat_alt KERNEL_VMEM_END_def)
  ultimately show ?thesis using assms by (simp add: pa_to_kva_def kva_to_pa_def)
qed

lemma pa_vpa_roundtrip:
  assumes "pa < PMEM_VA_SIZE"
  shows "andthen (pa_to_vpa pa) vpa_to_pa = Inr pa"
proof -
  have "pa < 0x100000000" using assms by (simp add: PMEM_VA_SIZE_def PMEM_VA_END_def PMEM_VA_START_def)
  then have "unat (PMEM_VA_START + pa) = unat PMEM_VA_START + unat pa"
      "unat pa < 0x100000000"
    by (simp_all add: PMEM_VA_START_def unat_word_ariths(1) word_less_nat_alt)
  then have "PMEM_VA_START \<le> PMEM_VA_START + pa" "PMEM_VA_START + pa < PMEM_VA_END"
    by (simp_all add: word_le_nat_alt word_less_nat_alt PMEM_VA_START_def PMEM_VA_END_def)
  then show ?thesis using assms by (simp add: pa_to_vpa_def vpa_to_pa_def)
qed

lemma pfn_pa_roundtrip:
  assumes "unat pfn < 2 ^ 52"
  shows "pa_to_pfn (pfn_to_pa pfn) = pfn"
proof -
  have "unat (pfn * 4096) = unat pfn * 4096"
    using assms by (simp add: unat_word_ariths(2))
  then show ?thesis
    by (simp add: word_unat_eq_iff pa_to_pfn_def pfn_to_pa_def push_bit_eq_mult unat_drop12)
qed

end
