(* ===== verification/Buddy.thy ===== *)
theory Buddy
  imports Prelude
begin

text \<open>
  The buddy page allocator of \<open>coursework/buddy.cpp\<close>. Page descriptors are named by
  their page frame number, so a \<open>PageDescriptor *\<close> is an optional number and the
  numeric comparisons of descriptor pointers are comparisons of frame numbers. The
  state holds the \<open>next_free\<close> field of every descriptor and the heads of the
  \<open>MAX_ORDER\<close> free lists; every pointer update of the source is an update of one of
  the two. \<open>nr\<close> is \<open>PageAllocator::_nr_pages\<close>. A pointer to a pointer that is
  followed and written (\<open>PageDescriptor **slot\<close>) is a \<open>slot\<close>; where the source
  passes the address of a local only to read it once, the model passes the value.
  Walks over a free list spend one unit of fuel per node and start with \<open>nr + 2\<close>:
  a longer walk over \<open>nr\<close> descriptors revisits one and never ends.
\<close>

section \<open>State and operations\<close>

definition MAX_ORDER :: nat where
  "MAX_ORDER = 17"

definition maxOrder :: nat where
  "maxOrder = MAX_ORDER - 1"

record buddy =
  next_free :: "nat \<Rightarrow> ptr"
  free_areas :: "nat \<Rightarrow> ptr"

datatype slot = Area nat | NextOf nat

definition pages_per_block :: "nat \<Rightarrow> nat" where
  "pages_per_block order = 2 ^ order"

definition GetSize :: "nat \<Rightarrow> nat" where
  "GetSize order = 2 ^ order"

definition is_correct_alignment_for_order :: "nat \<Rightarrow> nat \<Rightarrow> bool" where
  "is_correct_alignment_for_order pgd order \<longleftrightarrow> pgd mod pages_per_block order = 0"

definition pfn_to_pgd :: "nat \<Rightarrow> nat \<Rightarrow> ptr" where
  "pfn_to_pgd nr pfn = (if pfn > nr then None else Some pfn)"

definition buddy_of :: "nat \<Rightarrow> nat \<Rightarrow> nat \<Rightarrow> ptr" where
  "buddy_of nr pgd order =
     (if order \<ge> MAX_ORDER then None
      else if \<not> is_correct_alignment_for_order pgd order then None
      else pfn_to_pgd nr
        (if is_correct_alignment_for_order pgd (order + 1)
         then pgd + pages_per_block order else pgd - pages_per_block order))"

primrec read_slot :: "buddy \<Rightarrow> slot \<Rightarrow> ptr" where
  "read_slot s (Area k) = free_areas s k"
| "read_slot s (NextOf p) = next_free s p"

primrec write_slot :: "buddy \<Rightarrow> slot \<Rightarrow> ptr \<Rightarrow> buddy" where
  "write_slot s (Area k) v = s\<lparr>free_areas := (free_areas s)(k := v)\<rparr>"
| "write_slot s (NextOf p) v = s\<lparr>next_free := (next_free s)(p := v)\<rparr>"

definition set_next :: "buddy \<Rightarrow> nat \<Rightarrow> ptr \<Rightarrow> buddy" where
  "set_next s p v = s\<lparr>next_free := (next_free s)(p := v)\<rparr>"

primrec insert_slot :: "nat \<Rightarrow> buddy \<Rightarrow> nat \<Rightarrow> slot \<Rightarrow> slot result" where
  "insert_slot 0 s pgd sl = Inl Diverges"
| "insert_slot (Suc fuel) s pgd sl =
     (case read_slot s sl of
        None \<Rightarrow> Inr sl
      | Some q \<Rightarrow> if pgd > q then insert_slot fuel s pgd (NextOf q) else Inr sl)"

definition insert_block :: "nat \<Rightarrow> buddy \<Rightarrow> nat \<Rightarrow> nat \<Rightarrow> (buddy \<times> slot) result" where
  "insert_block nr s pgd order =
     andthen (check (order < MAX_ORDER) OutOfBounds) (\<lambda>_.
     andthen (insert_slot (nr + 2) s pgd (Area order)) (\<lambda>sl.
       let s1 = set_next s pgd (read_slot s sl)
       in Inr (write_slot s1 sl (Some pgd), sl)))"

primrec remove_slot :: "nat \<Rightarrow> buddy \<Rightarrow> nat \<Rightarrow> slot \<Rightarrow> slot result" where
  "remove_slot 0 s pgd sl = Inl Diverges"
| "remove_slot (Suc fuel) s pgd sl =
     (case read_slot s sl of
        None \<Rightarrow> Inr sl
      | Some q \<Rightarrow> if pgd \<noteq> q then remove_slot fuel s pgd (NextOf q) else Inr sl)"

definition remove_block :: "nat \<Rightarrow> buddy \<Rightarrow> nat \<Rightarrow> nat \<Rightarrow> buddy result" where
  "remove_block nr s pgd order =
     andthen (check (order < MAX_ORDER) OutOfBounds) (\<lambda>_.
     andthen (remove_slot (nr + 2) s pgd (Area order)) (\<lambda>sl.
     andthen (check (read_slot s sl = Some pgd) AssertFail) (\<lambda>_.
       let s1 = write_slot s sl (next_free s pgd)
       in Inr (set_next s1 pgd None))))"

definition assert_some :: "ptr \<Rightarrow> nat result" where
  "assert_some p = (case p of None \<Rightarrow> Inl AssertFail | Some a \<Rightarrow> Inr a)"

definition split_block :: "nat \<Rightarrow> buddy \<Rightarrow> ptr \<Rightarrow> nat \<Rightarrow> (buddy \<times> ptr) result" where
  "split_block nr s block_pointer source_order =
     andthen (assert_some block_pointer) (\<lambda>copyPointer.
     andthen (check (is_correct_alignment_for_order copyPointer source_order) AssertFail) (\<lambda>_.
     andthen (check (source_order > 0) AssertFail) (\<lambda>_.
     andthen (remove_block nr s copyPointer source_order) (\<lambda>s1.
     andthen (insert_block nr s1 copyPointer (source_order - 1)) (\<lambda>(s2, ret).
     andthen (deref (buddy_of nr copyPointer (source_order - 1))) (\<lambda>bud.
     andthen (deref (read_slot s2 ret)) (\<lambda>r.
       let s3 = set_next s2 bud (next_free s2 r) in
     andthen (deref (read_slot s3 ret)) (\<lambda>r'.
       let s4 = set_next s3 r' (Some bud)
       in Inr (s4, read_slot s4 ret)))))))))"

primrec merge_find :: "nat \<Rightarrow> buddy \<Rightarrow> nat \<Rightarrow> ptr \<Rightarrow> ptr \<Rightarrow> (ptr \<times> ptr) result" where
  "merge_find 0 s target removeNode prevNode = Inl Diverges"
| "merge_find (Suc fuel) s target removeNode prevNode =
     (case removeNode of
        None \<Rightarrow> Inr (removeNode, prevNode)
      | Some q \<Rightarrow> if q \<noteq> target then merge_find fuel s target (next_free s q) removeNode
                  else Inr (removeNode, prevNode))"

definition merge_block :: "nat \<Rightarrow> buddy \<Rightarrow> ptr \<Rightarrow> nat \<Rightarrow> (buddy \<times> slot) result" where
  "merge_block nr s block_pointer source_order =
     andthen (assert_some block_pointer) (\<lambda>blk.
     andthen (check (is_correct_alignment_for_order blk source_order) AssertFail) (\<lambda>_.
     andthen (check (source_order < MAX_ORDER) AssertFail) (\<lambda>_.
     andthen (merge_find (nr + 2) s blk (free_areas s source_order) (free_areas s source_order))
       (\<lambda>(removeNode, prevNode).
     andthen (deref removeNode) (\<lambda>n.
     andthen (deref (next_free s n)) (\<lambda>m.
     andthen (if removeNode = free_areas s source_order
              then Inr (write_slot s (Area source_order) (next_free s m))
              else andthen (deref prevNode) (\<lambda>b. Inr (set_next s b (next_free s m)))) (\<lambda>s1.
     andthen (deref (next_free s1 n)) (\<lambda>m'.
       let s2 = set_next s1 m' None;
           s3 = set_next s2 n None
       in insert_block nr s3 blk (source_order + 1)))))))))"

function TryMerge :: "nat \<Rightarrow> buddy \<Rightarrow> nat \<Rightarrow> nat \<Rightarrow> buddy result" where
  "TryMerge nr s page order =
     (if order \<ge> maxOrder then Inr s
      else andthen (deref (buddy_of nr page order)) (\<lambda>buddy.
        if next_free s buddy = Some page \<and> is_correct_alignment_for_order buddy (order + 1)
        then andthen (merge_block nr s (Some buddy) order) (\<lambda>(s', sl).
             andthen (deref (read_slot s' sl)) (\<lambda>p. TryMerge nr s' p (order + 1)))
        else if next_free s page = Some buddy
        then andthen (merge_block nr s (Some page) order) (\<lambda>(s', sl).
             andthen (deref (read_slot s' sl)) (\<lambda>p. TryMerge nr s' p (order + 1)))
        else Inr s))"
  by pat_completeness auto
termination
  by (relation "measure (\<lambda>(nr, s, page, order). maxOrder - order)") auto

declare TryMerge.simps [simp del]

function SplitToLeft :: "nat \<Rightarrow> buddy \<Rightarrow> ptr \<Rightarrow> nat \<Rightarrow> nat \<Rightarrow> buddy result" where
  "SplitToLeft nr s ha order until =
     andthen (assert_some ha) (\<lambda>copy.
       if order > until
       then andthen (split_block nr s ha order) (\<lambda>(s', _).
              SplitToLeft nr s' (Some copy) (order - 1) until)
       else Inr s)"
  by pat_completeness auto
termination
  by (relation "measure (\<lambda>(nr, s, ha, order, until). order)") auto

declare SplitToLeft.simps [simp del]

definition BuddyPageAllocator :: "(nat \<Rightarrow> ptr) \<Rightarrow> buddy" where
  "BuddyPageAllocator mem = \<lparr>next_free = mem, free_areas = (\<lambda>_. None)\<rparr>"

function alloc_loop :: "nat \<Rightarrow> buddy \<Rightarrow> nat \<Rightarrow> nat \<Rightarrow> (ptr \<times> buddy) result" where
  "alloc_loop nr s order ord =
     (if ord > maxOrder then Inr (None, s)
      else case free_areas s ord of
        None \<Rightarrow> alloc_loop nr s order (ord + 1)
      | Some h \<Rightarrow>
          andthen (SplitToLeft nr s (Some h) ord order) (\<lambda>s1.
          andthen (deref (free_areas s1 order)) (\<lambda>ret.
          andthen (remove_block nr s1 ret order) (\<lambda>s2. Inr (Some ret, s2)))))"
  by pat_completeness auto
termination
  by (relation "measure (\<lambda>(nr, s, order, ord). Suc maxOrder - ord)") auto

declare alloc_loop.simps [simp del]

definition alloc_pages :: "nat \<Rightarrow> buddy \<Rightarrow> int \<Rightarrow> (ptr \<times> buddy) result" where
  "alloc_pages nr s order =
     (if order < 0 then Inr (None, s) else alloc_loop nr s (nat order) (nat order))"

definition free_pages :: "nat \<Rightarrow> buddy \<Rightarrow> nat \<Rightarrow> int \<Rightarrow> buddy result" where
  "free_pages nr s pgd order =
     andthen (check (0 \<le> order) OutOfBounds) (\<lambda>_.
     andthen (check (is_correct_alignment_for_order pgd (nat order)) AssertFail) (\<lambda>_.
     andthen (insert_block nr s pgd (nat order)) (\<lambda>(s1, _).
       TryMerge nr s1 pgd (nat order))))"

primrec reserve_scan :: "nat \<Rightarrow> buddy \<Rightarrow> nat \<Rightarrow> nat \<Rightarrow> ptr \<Rightarrow> ptr result" where
  "reserve_scan 0 s pgd i block = Inl Diverges"
| "reserve_scan (Suc fuel) s pgd i block =
     (case block of
        None \<Rightarrow> Inr None
      | Some b \<Rightarrow>
          if pgd \<ge> b
          then if GetSize i + b > pgd then Inr (Some b)
               else reserve_scan fuel s pgd i (next_free s b)
          else Inr None)"

primrec reserve_split :: "nat \<Rightarrow> buddy \<Rightarrow> nat \<Rightarrow> nat \<Rightarrow> buddy result" where
  "reserve_split nr s pgd 0 = Inr s"
| "reserve_split nr s pgd (Suc i) =
     andthen (reserve_scan (nr + 2) s pgd (Suc i) (free_areas s (Suc i))) (\<lambda>found.
     andthen (case found of
                None \<Rightarrow> Inr s
              | Some b \<Rightarrow> andthen (split_block nr s (Some b) (Suc i)) (\<lambda>(s', _). Inr s')) (\<lambda>s'.
       reserve_split nr s' pgd i))"

primrec reserve_find :: "nat \<Rightarrow> buddy \<Rightarrow> nat \<Rightarrow> ptr \<Rightarrow> bool result" where
  "reserve_find 0 s pgd b = Inl Diverges"
| "reserve_find (Suc fuel) s pgd b =
     (case b of
        None \<Rightarrow> Inr False
      | Some q \<Rightarrow> if q = pgd then Inr True else reserve_find fuel s pgd (next_free s q))"

definition reserve_page :: "nat \<Rightarrow> buddy \<Rightarrow> nat \<Rightarrow> (bool \<times> buddy) result" where
  "reserve_page nr s pgd =
     andthen (reserve_split nr s pgd maxOrder) (\<lambda>s1.
     andthen (reserve_find (nr + 2) s1 pgd (free_areas s1 0)) (\<lambda>found.
       if found then andthen (remove_block nr s1 pgd 0) (\<lambda>s2. Inr (True, s2))
       else Inr (False, s1)))"

text \<open>
  \<open>init\<close>: the inner loop cuts blocks of one order off the front of the remaining pages
  and links them, the outer loop halves the block size. The unsigned \<open>order\<close> cannot
  become negative, so only \<open>pageLeft\<close> ends the outer loop.
\<close>

function init_inner ::
  "nat \<Rightarrow> nat \<Rightarrow> buddy \<Rightarrow> ptr \<Rightarrow> nat \<Rightarrow> nat \<Rightarrow> (buddy \<times> ptr \<times> nat \<times> nat) result" where
  "init_inner order sz s lastPage page pageLeft =
     (if sz = 0 then Inl Diverges
      else if pageLeft \<ge> sz
      then init_inner order sz
             (case lastPage of
                Some l \<Rightarrow> set_next s l (Some page)
              | None \<Rightarrow> write_slot s (Area order) (Some page))
             (Some page) (page + sz) (pageLeft - sz)
      else Inr (s, lastPage, page, pageLeft))"
  by pat_completeness auto
termination
  by (relation "measure (\<lambda>(order, sz, s, lastPage, page, pageLeft). pageLeft)") auto

declare init_inner.simps [simp del]

fun init_outer :: "nat \<Rightarrow> nat \<Rightarrow> buddy \<Rightarrow> nat \<Rightarrow> nat \<Rightarrow> buddy result" where
  "init_outer order sz s page pageLeft =
     (if pageLeft = 0 then Inr s
      else andthen (init_inner order sz s None page pageLeft) (\<lambda>(s1, lastPage, page', left').
        let s2 = (case lastPage of Some l \<Rightarrow> set_next s1 l None | None \<Rightarrow> s1) in
        case order of
          0 \<Rightarrow> if left' = 0 then Inr s2 else Inl Diverges
        | Suc o' \<Rightarrow> init_outer o' (sz div 2) s2 page' left'))"

declare init_outer.simps [simp del]

definition init :: "buddy \<Rightarrow> nat \<Rightarrow> buddy result" where
  "init s nr_page_descriptors =
     init_outer maxOrder (GetSize maxOrder) s 0 nr_page_descriptors"

text \<open>\<open>dump_state\<close> walks every free list and prints the frame numbers it meets.\<close>

fun dump_area :: "nat \<Rightarrow> (nat \<Rightarrow> ptr) \<Rightarrow> ptr \<Rightarrow> nat list" where
  "dump_area 0 nx p = []"
| "dump_area (Suc fuel) nx None = []"
| "dump_area (Suc fuel) nx (Some a) = a # dump_area fuel nx (nx a)"

definition dump_state :: "nat \<Rightarrow> buddy \<Rightarrow> nat list list" where
  "dump_state nr s =
     map (\<lambda>i. dump_area (nr + 2) (next_free s) (free_areas s i)) [0..<MAX_ORDER]"

end
