(* ===== verification/Page_Alloc.thy ===== *)
theory Page_Alloc
  imports Phys_Mem Buddy
begin

text \<open>
  The page allocator of \<open>infos/mm/page-allocator.cpp\<close>: the array of page descriptors, and the
  operations that call the installed \<open>PageAllocatorAlgorithm\<close> and check and set the type of
  every page handed out or taken back. The virtual functions of the algorithm are the fields
  of the record \<open>PageAllocatorAlgorithm\<close>; an algorithm may read the descriptors' types. The two
  algorithms of the repository are \<open>buddy_algorithm\<close> (\<open>coursework/buddy.cpp\<close>) and
  \<open>simple_algorithm\<close> (\<open>infos/mm/simple-page-alloc.cpp\<close>). The mutex around each operation makes it
  one step.
\<close>

section \<open>Page descriptors\<close>

datatype PageDescriptorType = INVALID | RESERVED | AVAILABLE | ALLOCATED

record 'a PageAllocatorAlgorithm =
  alg_bzero :: "'a \<Rightarrow> 'a"
  alg_init :: "PageDescriptorType list \<Rightarrow> 'a \<Rightarrow> nat \<Rightarrow> (bool \<times> 'a) result"
  alg_reserve_page :: "PageDescriptorType list \<Rightarrow> 'a \<Rightarrow> nat \<Rightarrow> (bool \<times> 'a) result"
  alg_alloc_pages :: "PageDescriptorType list \<Rightarrow> 'a \<Rightarrow> int \<Rightarrow> (ptr \<times> 'a) result"
  alg_free_pages :: "PageDescriptorType list \<Rightarrow> 'a \<Rightarrow> nat \<Rightarrow> int \<Rightarrow> 'a result"

record 'a PageAllocator =
  types :: "PageDescriptorType list"
  alg :: 'a

section \<open>The two algorithms\<close>

definition buddy_algorithm :: "buddy PageAllocatorAlgorithm" where
  "buddy_algorithm =
     \<lparr>alg_bzero = (\<lambda>s. s\<lparr>next_free := \<lambda>_. None\<rparr>),
      alg_init = (\<lambda>ts s nr. andthen (init s nr) (\<lambda>s'. Inr (True, s'))),
      alg_reserve_page = (\<lambda>ts s pgd. reserve_page (length ts) s pgd),
      alg_alloc_pages = (\<lambda>ts s order. alloc_pages (length ts) s order),
      alg_free_pages = (\<lambda>ts s pgd order. free_pages (length ts) s pgd order)\<rparr>"

text \<open>
  \<open>SimplePageAllocator\<close> keeps only the number of descriptors. Its inner loop returns the
  first page of a candidate run that is not available.
\<close>

record simple_alloc =
  nr_pgds :: nat

primrec simple_run :: "PageDescriptorType list \<Rightarrow> nat \<Rightarrow> nat \<Rightarrow> ptr result" where
  "simple_run ts subidx 0 = Inr None"
| "simple_run ts subidx (Suc n) =
     andthen (check (subidx < length ts) OutOfBounds) (\<lambda>_.
       if ts ! subidx \<noteq> AVAILABLE then Inr (Some subidx) else simple_run ts (Suc subidx) n)"

lemma simple_run_ge: "simple_run ts i n = Inr (Some j) \<Longrightarrow> i \<le> j \<and> j < i + n"
  by (induction n arbitrary: i) (fastforce simp: andthen_eq_Inr split: if_splits)+

function simple_scan :: "PageDescriptorType list \<Rightarrow> nat \<Rightarrow> nat \<Rightarrow> nat \<Rightarrow> ptr result" where
  "simple_scan ts nr n idx =
     (if idx < nr
      then case simple_run ts idx n of
          Inl e \<Rightarrow> Inl e
        | Inr None \<Rightarrow> Inr (Some idx)
        | Inr (Some subidx) \<Rightarrow> simple_scan ts nr n (Suc subidx)
      else Inr None)"
  by pat_completeness auto
termination
  by (relation "measure (\<lambda>(ts, nr, n, idx). nr - idx)") (auto dest: simple_run_ge)

declare simple_scan.simps [simp del]

definition simple_alloc_pages ::
  "PageDescriptorType list \<Rightarrow> simple_alloc \<Rightarrow> int \<Rightarrow> (ptr \<times> simple_alloc) result" where
  "simple_alloc_pages ts s order =
     andthen (check (0 \<le> order \<and> order < 31) Undefined) (\<lambda>_.
     andthen (simple_scan ts (nr_pgds s) (2 ^ nat order) 0) (\<lambda>r. Inr (r, s)))"

primrec all_typed :: "PageDescriptorType list \<Rightarrow> PageDescriptorType \<Rightarrow> nat \<Rightarrow> nat \<Rightarrow> unit result" where
  "all_typed ts t p 0 = Inr ()"
| "all_typed ts t p (Suc n) =
     andthen (check (p < length ts) OutOfBounds) (\<lambda>_.
     andthen (check (ts ! p = t) AssertFail) (\<lambda>_. all_typed ts t (Suc p) n))"

definition simple_free_pages ::
  "PageDescriptorType list \<Rightarrow> simple_alloc \<Rightarrow> nat \<Rightarrow> int \<Rightarrow> simple_alloc result" where
  "simple_free_pages ts s pgd order =
     andthen (check (0 \<le> order \<and> order < 32) Undefined) (\<lambda>_.
     andthen (all_typed ts ALLOCATED pgd (2 ^ nat order)) (\<lambda>_. Inr s))"

definition simple_reserve_page ::
  "PageDescriptorType list \<Rightarrow> simple_alloc \<Rightarrow> nat \<Rightarrow> (bool \<times> simple_alloc) result" where
  "simple_reserve_page ts s pgd =
     andthen (check (pgd < length ts) OutOfBounds) (\<lambda>_.
     andthen (check (ts ! pgd \<noteq> AVAILABLE) AssertFail) (\<lambda>_. Inr (True, s)))"

definition simple_algorithm :: "simple_alloc PageAllocatorAlgorithm" where
  "simple_algorithm =
     \<lparr>alg_bzero = (\<lambda>s. s),
      alg_init = (\<lambda>ts s nr. Inr (True, s\<lparr>nr_pgds := nr\<rparr>)),
      alg_reserve_page = simple_reserve_page,
      alg_alloc_pages = simple_alloc_pages,
      alg_free_pages = simple_free_pages\<rparr>"

section \<open>The page allocator\<close>

primrec mark_loop ::
  "PageDescriptorType \<Rightarrow> nat \<Rightarrow> nat \<Rightarrow> PageDescriptorType list \<Rightarrow> PageDescriptorType list result" where
  "mark_loop t pfn 0 ts = Inr ts"
| "mark_loop t pfn (Suc n) ts =
     andthen (check (pfn < length ts) OutOfBounds) (\<lambda>_. mark_loop t (Suc pfn) n (ts[pfn := t]))"

definition mark_page_range ::
  "PageDescriptorType \<Rightarrow> u64 \<Rightarrow> u32 \<Rightarrow> PageDescriptorType list \<Rightarrow> PageDescriptorType list result" where
  "mark_page_range t start nr ts =
     mark_loop t (unat start) (unat (start + ucast nr) - unat start) ts"

primrec mark_present ::
  "PhysicalMemoryBlock list \<Rightarrow> PageDescriptorType list \<Rightarrow> PageDescriptorType list result" where
  "mark_present [] ts = Inr ts"
| "mark_present (pmb # pmbs) ts =
     andthen (if mem_type pmb = NORMAL then mark_page_range AVAILABLE (base_pfn pmb) (nr_pages pmb) ts
              else Inr ts) (mark_present pmbs)"

text \<open>Linker symbols and the command-line switch that \<open>init\<close> reads.\<close>

record boot_layout =
  IMAGE_START :: u64
  IMAGE_END :: u64
  STACK_START :: u64
  STACK_END :: u64
  HEAP_START :: u64
  do_self_test :: bool

definition sizeof_PageDescriptor :: u64 where
  "sizeof_PageDescriptor = 16"

definition setup_page_descriptors ::
  "'a PageAllocatorAlgorithm \<Rightarrow> MemoryManager \<Rightarrow> boot_layout \<Rightarrow> 'a \<Rightarrow> 'a PageAllocator option result" where
  "setup_page_descriptors A mm bl s =
     andthen (kva_to_pa (HEAP_START bl)) (\<lambda>pa.
       Inr (case lookup_phys_block mm pa of
              None \<Rightarrow> None
            | Some _ \<Rightarrow> Some \<lparr>types = replicate (unat (last_pfn mm + 1)) INVALID, alg = alg_bzero A s\<rparr>))"

definition mark_kernel ::
  "boot_layout \<Rightarrow> PageDescriptorType list \<Rightarrow> PageDescriptorType list result" where
  "mark_kernel bl ts =
     andthen (mark_page_range RESERVED 0 1 ts) (\<lambda>ts1.
     andthen (mark_page_range ALLOCATED 1 6 ts1) (\<lambda>ts2.
     let i0 = pa_to_pfn (IMAGE_START bl); i1 = pa_to_pfn (IMAGE_END bl) in
     andthen (mark_page_range RESERVED i0 (ucast (i1 - i0 + 1)) ts2) (\<lambda>ts3.
     andthen (kva_to_pa (STACK_START bl)) (\<lambda>p0.
     andthen (kva_to_pa (STACK_END bl)) (\<lambda>p1.
     let s0 = pa_to_pfn p0; s1 = pa_to_pfn p1 in
     andthen (mark_page_range RESERVED s0 (ucast (s1 - s0 + 1)) ts3) (\<lambda>ts4.
     andthen (kva_to_pa (HEAP_START bl)) (\<lambda>h.
       mark_page_range RESERVED (pa_to_pfn h)
         (ucast (drop_bit 12 (word_of_nat (length ts) * sizeof_PageDescriptor) + 1)) ts4)))))))"

fun reserve_loop ::
  "'a PageAllocatorAlgorithm \<Rightarrow> 'a PageAllocator \<Rightarrow> nat list \<Rightarrow> (bool \<times> 'a PageAllocator) result" where
  "reserve_loop A pa [] = Inr (True, pa)"
| "reserve_loop A pa (pgd # pgds) =
     (if types pa ! pgd \<noteq> AVAILABLE
      then andthen (alg_reserve_page A (types pa) (alg pa) pgd) (\<lambda>(ok, s).
        if ok then reserve_loop A (pa\<lparr>alg := s\<rparr>) pgds else Inr (False, pa\<lparr>alg := s\<rparr>))
      else reserve_loop A pa pgds)"

text \<open>
  \<open>self_test\<close> runs the algorithm alone, in the numbered stages of its log messages: (3) to (5)
  in \<open>self_test_pairs\<close>, (6) in \<open>self_test_many\<close>, (7) to (9) in \<open>self_test_reserve\<close>. After stage (1)
  it never checks the result of an allocation: a null block is handed to \<open>free_pages\<close>, which
  dereferences it. The model faults at the allocation.
\<close>

definition st_alloc ::
  "'a PageAllocatorAlgorithm \<Rightarrow> PageDescriptorType list \<Rightarrow> int \<Rightarrow> 'a \<Rightarrow> (nat \<times> 'a) result" where
  "st_alloc A ts order s =
     andthen (alg_alloc_pages A ts s order) (\<lambda>(r, s'). andthen (deref r) (\<lambda>p. Inr (p, s')))"

definition self_test_pairs ::
  "'a PageAllocatorAlgorithm \<Rightarrow> PageDescriptorType list \<Rightarrow> 'a \<Rightarrow> 'a result" where
  "self_test_pairs A ts s =
     andthen (st_alloc A ts 1 s) (\<lambda>(p, s).
     andthen (alg_free_pages A ts s p 1) (\<lambda>s.
     andthen (st_alloc A ts 0 s) (\<lambda>(p0, s).
     andthen (st_alloc A ts 1 s) (\<lambda>(p1, s).
     andthen (alg_free_pages A ts s p0 0) (\<lambda>s.
     andthen (st_alloc A ts 0 s) (\<lambda>(p2, s).
     andthen (alg_free_pages A ts s p1 1) (\<lambda>s.
     andthen (alg_free_pages A ts s p2 0) (\<lambda>s.
       Inr s))))))))"

definition self_test_many ::
  "'a PageAllocatorAlgorithm \<Rightarrow> PageDescriptorType list \<Rightarrow> 'a \<Rightarrow> 'a result" where
  "self_test_many A ts s =
     andthen (st_alloc A ts 0 s) (\<lambda>(p00, s).
     andthen (st_alloc A ts 0 s) (\<lambda>(p01, s).
     andthen (st_alloc A ts 0 s) (\<lambda>(p02, s).
     andthen (st_alloc A ts 2 s) (\<lambda>(p03, s).
     andthen (st_alloc A ts 0 s) (\<lambda>(p04, s).
     andthen (st_alloc A ts 0 s) (\<lambda>(p05, s).
     andthen (st_alloc A ts 0 s) (\<lambda>(p06, s).
     andthen (st_alloc A ts 0 s) (\<lambda>(p07, s).
     andthen (alg_free_pages A ts s p05 0) (\<lambda>s.
     andthen (alg_free_pages A ts s p03 2) (\<lambda>s.
     andthen (alg_free_pages A ts s p06 0) (\<lambda>s.
     andthen (alg_free_pages A ts s p07 0) (\<lambda>s.
     andthen (alg_free_pages A ts s p02 0) (\<lambda>s.
     andthen (alg_free_pages A ts s p01 0) (\<lambda>s.
     andthen (alg_free_pages A ts s p00 0) (\<lambda>s.
     andthen (alg_free_pages A ts s p04 0) (\<lambda>s.
       Inr s))))))))))))))))"

definition self_test_reserve ::
  "'a PageAllocatorAlgorithm \<Rightarrow> PageDescriptorType list \<Rightarrow> 'a \<Rightarrow> 'a result" where
  "self_test_reserve A ts s =
     andthen (assert_some (pfn_to_pgd (length ts) 0x14e)) (\<lambda>q0.
     andthen (alg_reserve_page A ts s q0) (\<lambda>(page_reserved, s).
     andthen (check page_reserved AssertFail) (\<lambda>_.
     andthen (assert_some (pfn_to_pgd (length ts) 0x14f)) (\<lambda>q1.
     andthen (alg_reserve_page A ts s q1) (\<lambda>(page_reserved, s).
     andthen (check page_reserved AssertFail) (\<lambda>_.
     andthen (alg_free_pages A ts s q1 0) (\<lambda>s.
     andthen (alg_free_pages A ts s q0 0) (\<lambda>s.
       Inr s))))))))"

definition self_test ::
  "'a PageAllocatorAlgorithm \<Rightarrow> PageDescriptorType list \<Rightarrow> 'a \<Rightarrow> (bool \<times> 'a) result" where
  "self_test A ts s =
     andthen (alg_alloc_pages A ts s 0) (\<lambda>(r, s).
     case r of None \<Rightarrow> Inr (False, s) | Some p \<Rightarrow>
     andthen (alg_free_pages A ts s p 0) (\<lambda>s.
     andthen (self_test_pairs A ts s) (\<lambda>s.
     andthen (self_test_many A ts s) (\<lambda>s.
     andthen (self_test_reserve A ts s) (\<lambda>s.
       Inr (True, s))))))"

definition PageAllocator_init ::
  "'a PageAllocatorAlgorithm \<Rightarrow> MemoryManager \<Rightarrow> boot_layout \<Rightarrow> 'a \<Rightarrow> (bool \<times> 'a PageAllocator) result" where
  "PageAllocator_init A mm bl s =
     andthen (setup_page_descriptors A mm bl s) (\<lambda>r.
     case r of
       None \<Rightarrow> Inr (False, \<lparr>types = [], alg = s\<rparr>)
     | Some pa \<Rightarrow>
         andthen (mark_present (phys_mem_blocks mm) (types pa)) (\<lambda>ts.
         andthen (mark_kernel bl ts) (\<lambda>ts.
         andthen (alg_init A ts (alg pa) (length ts)) (\<lambda>(ok, s).
           if \<not> ok then Inr (False, \<lparr>types = ts, alg = s\<rparr>)
           else
             andthen (if do_self_test bl then self_test A ts s else Inr (True, s)) (\<lambda>(ok, s).
             andthen (check ok AssertFail) (\<lambda>_.
               reserve_loop A \<lparr>types = ts, alg = s\<rparr> [0..<length ts]))))))"

primrec retype ::
  "PageDescriptorType \<Rightarrow> PageDescriptorType \<Rightarrow> nat \<Rightarrow> nat \<Rightarrow> PageDescriptorType list
     \<Rightarrow> PageDescriptorType list result" where
  "retype old new p 0 ts = Inr ts"
| "retype old new p (Suc n) ts =
     andthen (check (p < length ts) OutOfBounds) (\<lambda>_.
     andthen (check (ts ! p = old) AssertFail) (\<lambda>_. retype old new (Suc p) n (ts[p := new])))"

definition PageAllocator_alloc_pages ::
  "'a PageAllocatorAlgorithm \<Rightarrow> 'a PageAllocator \<Rightarrow> int \<Rightarrow> (nat \<times> 'a PageAllocator) result" where
  "PageAllocator_alloc_pages A pa order =
     andthen (alg_alloc_pages A (types pa) (alg pa) order) (\<lambda>(r, s).
     andthen (check (0 \<le> order \<and> order < 32) Undefined) (\<lambda>_.
     andthen (deref r) (\<lambda>p.
     andthen (retype AVAILABLE ALLOCATED p (2 ^ nat order) (types pa)) (\<lambda>ts.
       Inr (p, \<lparr>types = ts, alg = s\<rparr>)))))"

definition PageAllocator_free_pages ::
  "'a PageAllocatorAlgorithm \<Rightarrow> 'a PageAllocator \<Rightarrow> nat \<Rightarrow> int \<Rightarrow> 'a PageAllocator result" where
  "PageAllocator_free_pages A pa pgd order =
     andthen (alg_free_pages A (types pa) (alg pa) pgd order) (\<lambda>s.
     andthen (check (0 \<le> order \<and> order < 32) Undefined) (\<lambda>_.
     andthen (retype ALLOCATED AVAILABLE pgd (2 ^ nat order) (types pa)) (\<lambda>ts.
       Inr \<lparr>types = ts, alg = s\<rparr>)))"

end
