(* ===== verification/Buddy_Lists.thy ===== *)
theory Buddy_Lists
  imports Buddy
begin

text \<open>
  The pointer surgery of the buddy allocator, one lemma per list operation: what
  \<open>insert_block\<close>, \<open>remove_block\<close>, \<open>split_block\<close> and \<open>merge_block\<close> do to the
  chain of the free list they touch, and which fields they leave alone. Each lemma also
  says that the operation returns: no assertion fails, no null pointer is followed and
  the fuel of the walk is enough.
\<close>

lemmas slot_simps = set_next_def

lemma read_set_next [simp]:
  "read_slot (set_next s p v) (Area k) = free_areas s k"
  "read_slot (set_next s p v) (NextOf q) = (if q = p then v else next_free s q)"
  by (simp_all add: set_next_def)

lemma set_next_fields [simp]:
  "next_free (set_next s p v) = (next_free s)(p := v)"
  "free_areas (set_next s p v) = free_areas s"
  by (simp_all add: set_next_def)

lemma assert_some_simps [simp]:
  "assert_some (Some a) = Inr a" "assert_some None = Inl AssertFail"
  by (simp_all add: assert_some_def)

section \<open>Chains under local updates\<close>

lemma chain_insert_after:
  "chain nx x (as @ p # bs) \<Longrightarrow> distinct (as @ p # bs) \<Longrightarrow> b \<notin> set (as @ p # bs) \<Longrightarrow>
   chain (nx(b := nx p, p := Some b)) x (as @ p # b # bs)"
proof (induction as arbitrary: x)
  case Nil
  then show ?case by (auto elim: chain_congI)
next
  case (Cons a as)
  then show ?case by auto
qed

lemma chain_unlink_pair:
  "chain nx x (as @ n # m # bs) \<Longrightarrow> distinct (as @ n # m # bs) \<Longrightarrow> as \<noteq> [] \<Longrightarrow>
   chain (nx(last as := nx m)) x (as @ bs)"
proof (induction as arbitrary: x)
  case Nil
  then show ?case by simp
next
  case (Cons a as)
  show ?case
  proof (cases "as = []")
    case True
    with Cons.prems show ?thesis by (auto elim: chain_congI)
  next
    case False
    have "chain (nx(last as := nx m)) (nx a) (as @ bs)"
      by (rule Cons.IH) (use Cons.prems False in simp_all)
    moreover have "last as \<noteq> a" using Cons.prems False by auto
    ultimately show ?thesis using Cons.prems False by (auto elim: chain_congI)
  qed
qed

section \<open>Inserting and removing one block\<close>

definition insert_at :: "buddy \<Rightarrow> nat \<Rightarrow> slot \<Rightarrow> buddy" where
  "insert_at s p sl = write_slot (set_next s p (read_slot s sl)) sl (Some p)"

lemma insert_at_next:
  "q \<noteq> p \<Longrightarrow> sl \<noteq> NextOf q \<Longrightarrow> next_free (insert_at s p sl) q = next_free s q"
  by (cases sl) (auto simp: insert_at_def)

lemma insert_at_area:
  "sl \<noteq> Area k \<Longrightarrow> free_areas (insert_at s p sl) k = free_areas s k"
  by (cases sl) (auto simp: insert_at_def)

lemma insert_at_read: "read_slot (insert_at s p sl) sl = Some p"
  by (cases sl) (auto simp: insert_at_def)

lemma insert_at_read_other:
  "sl' \<noteq> sl \<Longrightarrow> sl' \<noteq> NextOf p \<Longrightarrow> read_slot (insert_at s p sl) sl' = read_slot s sl'"
  by (cases sl; cases sl') (auto simp: insert_at_def)

lemma insert_at_next_new:
  "sl \<noteq> NextOf p \<Longrightarrow> next_free (insert_at s p sl) p = read_slot s sl"
  by (cases sl) (auto simp: insert_at_def)

lemma chain_insert_at:
  "chain (next_free s) (read_slot s sl) xs \<Longrightarrow> p \<notin> set xs \<Longrightarrow> sl \<noteq> NextOf p \<Longrightarrow>
   \<forall>q\<in>set xs. sl \<noteq> NextOf q \<Longrightarrow>
   chain (next_free (insert_at s p sl)) (read_slot (insert_at s p sl) sl) (p # xs)"
  by (auto simp: insert_at_read insert_at_next_new elim!: chain_congI intro!: insert_at_next)

lemma insert_slot_spec:
  assumes "chain (next_free s) (read_slot s sl) xs"
    and "sorted_wrt (<) xs" and "p \<notin> set xs" and "length xs < fuel"
    and "sl \<noteq> NextOf p" and "\<forall>q\<in>set xs. sl \<noteq> NextOf q"
  shows "\<exists>sl'. insert_slot fuel s p sl = Inr sl'
    \<and> (sl' = sl \<or> (\<exists>q\<in>set xs. sl' = NextOf q))
    \<and> chain (next_free (insert_at s p sl')) (read_slot (insert_at s p sl') sl) (insort p xs)"
  using assms
proof (induction xs arbitrary: sl fuel)
  case Nil
  then obtain f where "fuel = Suc f" by (cases fuel) auto
  with Nil show ?case using chain_insert_at [of s sl "[]" p] by auto
next
  case (Cons q ys)
  then obtain f where f: "fuel = Suc f" by (cases fuel) auto
  from Cons.prems have rd: "read_slot s sl = Some q" and ch: "chain (next_free s) (next_free s q) ys"
    by auto
  show ?case
  proof (cases "q < p")
    case True
    obtain sl' where sl': "insert_slot f s p (NextOf q) = Inr sl'"
      "sl' = NextOf q \<or> (\<exists>r\<in>set ys. sl' = NextOf r)"
      "chain (next_free (insert_at s p sl')) (read_slot (insert_at s p sl') (NextOf q)) (insort p ys)"
      using Cons.IH [of "NextOf q" f] Cons.prems ch f by auto
    have "read_slot (insert_at s p sl') sl = Some q"
      using sl'(2) Cons.prems rd by (subst insert_at_read_other) auto
    with sl' f rd True show ?thesis by auto
  next
    case False
    then have "p < q" using Cons.prems by auto
    with Cons.prems rd f show ?thesis
      using chain_insert_at [of s sl "q # ys" p] by auto
  qed
qed

lemma insert_block_spec:
  assumes "k < MAX_ORDER" and "chain (next_free s) (free_areas s k) xs"
    and "sorted_wrt (<) xs" and "p \<notin> set xs" and "length xs < nr + 2"
  obtains s' sl where "insert_block nr s p k = Inr (s', sl)"
    and "chain (next_free s') (free_areas s' k) (insort p xs)"
    and "\<And>j. j \<noteq> k \<Longrightarrow> free_areas s' j = free_areas s j"
    and "\<And>q. q \<notin> insert p (set xs) \<Longrightarrow> next_free s' q = next_free s q"
    and "read_slot s' sl = Some p"
    and "sl = Area k \<or> (\<exists>q\<in>set xs. sl = NextOf q)"
proof -
  obtain sl where sl: "insert_slot (nr + 2) s p (Area k) = Inr sl"
    "sl = Area k \<or> (\<exists>q\<in>set xs. sl = NextOf q)"
    "chain (next_free (insert_at s p sl)) (read_slot (insert_at s p sl) (Area k)) (insort p xs)"
    using insert_slot_spec [of s "Area k" xs p "nr + 2"] assms by auto
  show thesis
  proof (rule that [of "insert_at s p sl" sl])
    show "insert_block nr s p k = Inr (insert_at s p sl, sl)"
      using assms(1) sl(1) by (simp add: insert_block_def insert_at_def Let_def)
    show "chain (next_free (insert_at s p sl)) (free_areas (insert_at s p sl) k) (insort p xs)"
      using sl(3) by simp
    show "free_areas (insert_at s p sl) j = free_areas s j" if "j \<noteq> k" for j
      using sl(2) that by (intro insert_at_area) auto
    show "next_free (insert_at s p sl) q = next_free s q" if "q \<notin> insert p (set xs)" for q
      using sl(2) that by (intro insert_at_next) auto
  qed (use sl in \<open>auto simp: insert_at_read\<close>)
qed

definition remove_at :: "buddy \<Rightarrow> nat \<Rightarrow> slot \<Rightarrow> buddy" where
  "remove_at s p sl = set_next (write_slot s sl (next_free s p)) p None"

lemma remove_at_next:
  "q \<noteq> p \<Longrightarrow> sl \<noteq> NextOf q \<Longrightarrow> next_free (remove_at s p sl) q = next_free s q"
  by (cases sl) (auto simp: remove_at_def)

lemma remove_at_area:
  "sl \<noteq> Area k \<Longrightarrow> free_areas (remove_at s p sl) k = free_areas s k"
  by (cases sl) (auto simp: remove_at_def)

lemma remove_at_read:
  "sl \<noteq> NextOf p \<Longrightarrow> read_slot (remove_at s p sl) sl = next_free s p"
  by (cases sl) (auto simp: remove_at_def)

lemma remove_at_read_other:
  "sl' \<noteq> sl \<Longrightarrow> sl' \<noteq> NextOf p \<Longrightarrow> read_slot (remove_at s p sl) sl' = read_slot s sl'"
  by (cases sl; cases sl') (auto simp: remove_at_def)

lemma remove_at_self: "next_free (remove_at s p sl) p = None"
  by (simp add: remove_at_def)

lemma remove_slot_spec:
  assumes "chain (next_free s) (read_slot s sl) xs"
    and "distinct xs" and "p \<in> set xs" and "length xs < fuel" and "\<forall>q\<in>set xs. sl \<noteq> NextOf q"
  shows "\<exists>sl'. remove_slot fuel s p sl = Inr sl' \<and> read_slot s sl' = Some p
    \<and> (sl' = sl \<or> (\<exists>q\<in>set xs. sl' = NextOf q)) \<and> sl' \<noteq> NextOf p
    \<and> chain (next_free (remove_at s p sl')) (read_slot (remove_at s p sl') sl) (remove1 p xs)"
  using assms
proof (induction xs arbitrary: sl fuel)
  case Nil
  then show ?case by simp
next
  case (Cons q ys)
  then obtain f where f: "fuel = Suc f" by (cases fuel) auto
  from Cons.prems have rd: "read_slot s sl = Some q" and ch: "chain (next_free s) (next_free s q) ys"
    by auto
  show ?case
  proof (cases "q = p")
    case True
    have "chain (next_free (remove_at s p sl)) (next_free s p) ys"
      using ch True Cons.prems
      by (subst chain_cong [of ys _ "next_free s"]) (auto intro!: remove_at_next)
    with Cons.prems True rd f show ?thesis by (auto simp: remove_at_read)
  next
    case False
    obtain sl' where sl': "remove_slot f s p (NextOf q) = Inr sl'" "read_slot s sl' = Some p"
      "sl' = NextOf q \<or> (\<exists>r\<in>set ys. sl' = NextOf r)" "sl' \<noteq> NextOf p"
      "chain (next_free (remove_at s p sl')) (read_slot (remove_at s p sl') (NextOf q)) (remove1 p ys)"
      using Cons.IH [of "NextOf q" f] Cons.prems ch f False by auto
    have "read_slot (remove_at s p sl') sl = Some q"
      using sl'(3) Cons.prems rd by (subst remove_at_read_other) auto
    with sl' f rd False show ?thesis by auto
  qed
qed

lemma remove_block_spec:
  assumes "k < MAX_ORDER" and "chain (next_free s) (free_areas s k) xs"
    and "distinct xs" and "p \<in> set xs" and "length xs < nr + 2"
  obtains s' where "remove_block nr s p k = Inr s'"
    and "chain (next_free s') (free_areas s' k) (remove1 p xs)"
    and "\<And>j. j \<noteq> k \<Longrightarrow> free_areas s' j = free_areas s j"
    and "\<And>q. q \<notin> set xs \<Longrightarrow> next_free s' q = next_free s q"
    and "next_free s' p = None"
proof -
  obtain sl where sl: "remove_slot (nr + 2) s p (Area k) = Inr sl" "read_slot s sl = Some p"
    "sl = Area k \<or> (\<exists>q\<in>set xs. sl = NextOf q)" "sl \<noteq> NextOf p"
    "chain (next_free (remove_at s p sl)) (read_slot (remove_at s p sl) (Area k)) (remove1 p xs)"
    using remove_slot_spec [of s "Area k" xs p "nr + 2"] assms by auto
  show thesis
  proof (rule that [of "remove_at s p sl"])
    show "remove_block nr s p k = Inr (remove_at s p sl)"
      using assms(1) sl(1,2) by (simp add: remove_block_def remove_at_def Let_def)
    show "chain (next_free (remove_at s p sl)) (free_areas (remove_at s p sl) k) (remove1 p xs)"
      using sl(5) by simp
    show "free_areas (remove_at s p sl) j = free_areas s j" if "j \<noteq> k" for j
      using sl(3) that by (intro remove_at_area) auto
    show "next_free (remove_at s p sl) q = next_free s q" if "q \<notin> set xs" for q
      using sl(3) that assms(4) by (intro remove_at_next) auto
  qed (simp add: remove_at_self)
qed

section \<open>Finding the pair that merges\<close>

lemma merge_find_spec:
  "chain (next_free s) x (as @ n # bs) \<Longrightarrow> n \<notin> set as \<Longrightarrow> length as < fuel \<Longrightarrow>
   merge_find fuel s n x b = Inr (Some n, if as = [] then b else Some (last as))"
proof (induction as arbitrary: x b fuel)
  case Nil
  then show ?case by (cases fuel) auto
next
  case (Cons a as)
  then obtain f where "fuel = Suc f" by (cases fuel) auto
  with Cons show ?case by auto
qed

section \<open>Splitting and merging\<close>

lemma aligned_iff_dvd [simp]: "is_correct_alignment_for_order p k \<longleftrightarrow> 2 ^ k dvd p"
  by (simp add: is_correct_alignment_for_order_def pages_per_block_def dvd_eq_mod_eq_0)

lemma buddy_of_right:
  assumes "k < MAX_ORDER" and "2 ^ Suc k dvd p" and "p + 2 ^ k \<le> nr"
  shows "buddy_of nr p k = Some (p + 2 ^ k)"
proof -
  have "2 ^ k dvd p" using assms(2) power_le_dvd by (metis le_SucI le_refl)
  then show ?thesis
    using assms by (simp add: buddy_of_def pfn_to_pgd_def pages_per_block_def)
qed

lemma insort_split:
  assumes "sorted_wrt (<) ys" and "p \<notin> set ys"
  obtains as bs where "ys = as @ bs" and "insort p ys = as @ p # bs"
    and "\<forall>a\<in>set as. a < p" and "\<forall>b\<in>set bs. p < b"
  using assms
proof (induction ys arbitrary: thesis)
  case Nil
  then show ?case by force
next
  case (Cons y ys)
  show ?case
  proof (cases "y < p")
    case True
    obtain as bs where "ys = as @ bs" "insort p ys = as @ p # bs"
      "\<forall>a\<in>set as. a < p" "\<forall>b\<in>set bs. p < b"
      using Cons by (auto simp: Cons.prems)
    with True show ?thesis by (intro Cons.prems(1) [of "y # as" bs]) auto
  next
    case False
    with Cons.prems have "p < y" by auto
    with False Cons.prems show ?thesis
      by (intro Cons.prems(1) [of "[]" "y # ys"]) (auto intro: less_trans)
  qed
qed

lemma insort_after:
  assumes "\<forall>a\<in>set as. a < p" and "\<forall>c\<in>set bs. b < c" and "(p::nat) < b"
  shows "insort b (as @ p # bs) = as @ p # b # bs"
proof -
  have "insort b bs = b # bs"
    using assms(2) by (cases bs) auto
  with assms show ?thesis by (induction as) auto
qed

lemma split_block_spec:
  fixes nr :: nat
  assumes k: "0 < k" "k < MAX_ORDER" and dv: "2 ^ k dvd p" and b: "b = p + 2 ^ (k - 1)" "b \<le> nr"
    and xs: "chain (next_free s) (free_areas s k) xs" "distinct xs" "p \<in> set xs"
      "length xs < nr + 2" "b \<notin> set xs"
    and ys: "chain (next_free s) (free_areas s (k - 1)) ys" "sorted_wrt (<) ys"
      "length ys < nr + 2" "p \<notin> set ys" "b \<notin> set ys" "\<forall>q\<in>set ys. p < q \<longrightarrow> b < q"
    and dj: "set xs \<inter> set ys = {}"
  obtains s' where "split_block nr s (Some p) k = Inr (s', Some p)"
    and "chain (next_free s') (free_areas s' k) (remove1 p xs)"
    and "chain (next_free s') (free_areas s' (k - 1)) (insort b (insort p ys))"
    and "\<And>j. j \<noteq> k \<Longrightarrow> j \<noteq> k - 1 \<Longrightarrow> free_areas s' j = free_areas s j"
    and "\<And>q. q \<notin> {p, b} \<union> set xs \<union> set ys \<Longrightarrow> next_free s' q = next_free s q"
proof -
  have kk: "k - 1 \<noteq> k" "k - 1 < MAX_ORDER" "Suc (k - 1) = k" and pb: "p < b" using k b by auto
  obtain s1 where s1: "remove_block nr s p k = Inr s1"
    "chain (next_free s1) (free_areas s1 k) (remove1 p xs)"
    "\<And>j. j \<noteq> k \<Longrightarrow> free_areas s1 j = free_areas s j"
    "\<And>q. q \<notin> set xs \<Longrightarrow> next_free s1 q = next_free s q"
    using remove_block_spec [OF k(2) xs(1-4)] by metis
  have "chain (next_free s1) (free_areas s1 (k - 1)) ys"
    using ys(1) dj kk s1(3,4) by (auto elim!: chain_congI)
  then obtain s2 ret where s2: "insert_block nr s1 p (k - 1) = Inr (s2, ret)"
    "chain (next_free s2) (free_areas s2 (k - 1)) (insort p ys)"
    "\<And>j. j \<noteq> k - 1 \<Longrightarrow> free_areas s2 j = free_areas s1 j"
    "\<And>q. q \<notin> insert p (set ys) \<Longrightarrow> next_free s2 q = next_free s1 q"
    "read_slot s2 ret = Some p" "ret = Area (k - 1) \<or> (\<exists>q\<in>set ys. ret = NextOf q)"
    using insert_block_spec [OF kk(2) _ ys(2,4,3)] by metis
  obtain as bs where sp: "ys = as @ bs" "insort p ys = as @ p # bs"
    "\<forall>a\<in>set as. a < p" "\<forall>c\<in>set bs. p < c"
    using insort_split [OF ys(2,4)] by metis
  define s4 where "s4 = set_next (set_next s2 b (next_free s2 p)) p (Some b)"
  have rd: "read_slot (set_next s2 b (next_free s2 p)) ret = Some p" "read_slot s4 ret = Some p"
    using s2(5,6) ys(4,5) by (auto simp: s4_def)
  have "distinct (as @ p # bs)"
    using sp ys(2,4) by (metis distinct_insort strict_sorted_iff)
  then have "chain (next_free s4) (free_areas s4 (k - 1)) (as @ p # b # bs)"
    using chain_insert_after [of "next_free s2" _ as p bs b] s2(2) sp ys(5) pb
    by (auto simp: s4_def)
  moreover have "insort b (insort p ys) = as @ p # b # bs"
    unfolding sp(2) by (rule insort_after) (use sp ys(6) pb in auto)
  moreover have "chain (next_free s4) (free_areas s4 k) (remove1 p xs)"
    using s1(2) s2(3,4) kk dj [unfolded disjoint_iff] xs(2,5)
    by (auto simp: s4_def elim!: chain_congI)
  moreover have "buddy_of nr p (k - 1) = Some b"
    using buddy_of_right [of "k - 1" p nr] kk dv b by simp
  with s1(1) s2(1,5) rd dv k(1) have "split_block nr s (Some p) k = Inr (s4, Some p)"
    by (simp add: split_block_def s4_def Let_def)
  ultimately show thesis
    using s1(3,4) s2(3,4) by (intro that [of s4]) (auto simp: s4_def)
qed

lemma merge_block_spec:
  fixes nr :: nat
  assumes k: "Suc k < MAX_ORDER" and dv: "2 ^ k dvd n"
    and xs: "chain (next_free s) (free_areas s k) (as @ n # m # bs)" "distinct (as @ n # m # bs)"
      "length as < nr + 2"
    and ys: "chain (next_free s) (free_areas s (Suc k)) ys" "sorted_wrt (<) ys" "n \<notin> set ys"
      "length ys < nr + 2"
    and dj: "set (as @ n # m # bs) \<inter> set ys = {}"
  obtains s' sl where "merge_block nr s (Some n) k = Inr (s', sl)" and "read_slot s' sl = Some n"
    and "chain (next_free s') (free_areas s' k) (as @ bs)"
    and "chain (next_free s') (free_areas s' (Suc k)) (insort n ys)"
    and "next_free s' m = None"
    and "\<And>j. j \<noteq> k \<Longrightarrow> j \<noteq> Suc k \<Longrightarrow> free_areas s' j = free_areas s j"
    and "\<And>q. q \<notin> set (as @ n # m # bs) \<union> set ys \<Longrightarrow> next_free s' q = next_free s q"
proof -
  let ?h = "free_areas s k"
  have nm: "next_free s n = Some m" using chain_append [OF xs(1)] by simp
  have hd: "?h = Some n \<longleftrightarrow> as = []" using xs(1,2) by (cases as) auto
  have find: "merge_find (nr + 2) s n ?h ?h = Inr (Some n, if as = [] then ?h else Some (last as))"
    by (rule merge_find_spec [OF xs(1)]) (use xs in auto)
  define s1 where "s1 = (if as = [] then write_slot s (Area k) (next_free s m)
    else set_next s (last as) (next_free s m))"
  define s3 where "s3 = set_next (set_next s1 m None) n None"
  have s1n: "next_free s1 n = Some m" using nm xs(2) by (auto simp: s1_def)
  have ch1: "chain (next_free s1) (free_areas s1 k) (as @ bs)"
  proof (cases "as = []")
    case True
    then show ?thesis using xs(1) by (simp add: s1_def)
  next
    case False
    then show ?thesis using chain_unlink_pair [OF xs(1,2)] by (simp add: s1_def)
  qed
  have ch3: "chain (next_free s3) (free_areas s3 k) (as @ bs)"
    using ch1 xs(2) by (auto simp: s3_def elim!: chain_congI)
  have ch3y: "chain (next_free s3) (free_areas s3 (Suc k)) ys"
    using ys(1) dj [unfolded disjoint_iff] last_in_set [of as]
    by (auto simp: s3_def s1_def elim!: chain_congI)
  obtain s' sl where s': "insert_block nr s3 n (Suc k) = Inr (s', sl)"
    "chain (next_free s') (free_areas s' (Suc k)) (insort n ys)"
    "\<And>j. j \<noteq> Suc k \<Longrightarrow> free_areas s' j = free_areas s3 j"
    "\<And>q. q \<notin> insert n (set ys) \<Longrightarrow> next_free s' q = next_free s3 q" "read_slot s' sl = Some n"
    using insert_block_spec [OF k ch3y ys(2,3,4)] by metis
  have "merge_block nr s (Some n) k = Inr (s', sl)"
  proof (cases "as = []")
    case True
    with find nm dv k hd s1n s'(1) show ?thesis
      by (simp add: merge_block_def Let_def s3_def s1_def)
  next
    case False
    with hd have "Some n \<noteq> ?h" by metis
    with False find nm dv k s1n s'(1) show ?thesis
      by (simp add: merge_block_def Let_def s3_def s1_def del: merge_find.simps)
  qed
  moreover have "chain (next_free s') (free_areas s' k) (as @ bs)"
  proof (rule chain_congI)
    show "chain (next_free s3) (free_areas s' k) (as @ bs)" using ch3 s'(3) by simp
    show "next_free s' q = next_free s3 q" if "q \<in> set (as @ bs)" for q
      by (rule s'(4)) (use that xs(2) dj in auto)
  qed
  moreover have "next_free s' m = None"
    using s'(4) [of m] xs(2) dj by (auto simp: s3_def)
  ultimately show thesis
    using s' last_in_set [of as] by (intro that [of s' sl]) (auto simp: s3_def s1_def split: if_splits)
qed

end
