(* ===== verification/Buddy_Blocks.thy ===== *)
theory Buddy_Blocks
  imports Buddy_Lists
begin

text \<open>
  The free lists of the buddy allocator read as a set of blocks (order, first page), and
  the effect of every list operation on that set. \<open>buddy_rep nr s B\<close> says that the
  pointers of \<open>s\<close> represent exactly the blocks \<open>B\<close>: each free list is the ascending
  chain of the blocks of its order and the descriptors of all other pages have a null
  \<open>next_free\<close>. \<open>blocks_ok\<close> says that the blocks are aligned, in range and disjoint.
\<close>

type_synonym block = "nat \<times> nat"

definition block_pages :: "block \<Rightarrow> nat set" where
  "block_pages b = {snd b ..< snd b + 2 ^ fst b}"

definition pages_of :: "block set \<Rightarrow> nat set" where
  "pages_of B = \<Union> (block_pages ` B)"

definition of_order :: "block set \<Rightarrow> nat \<Rightarrow> nat set" where
  "of_order B k = {p. (k, p) \<in> B}"

definition areas :: "block set \<Rightarrow> nat \<Rightarrow> nat list" where
  "areas B k = sorted_list_of_set (of_order B k)"

definition blocks_ok :: "nat \<Rightarrow> block set \<Rightarrow> bool" where
  "blocks_ok nr B \<longleftrightarrow>
     (\<forall>(k, p)\<in>B. k < MAX_ORDER \<and> 2 ^ k dvd p \<and> p + 2 ^ k \<le> nr) \<and>
     (\<forall>b\<in>B. \<forall>c\<in>B. b \<noteq> c \<longrightarrow> block_pages b \<inter> block_pages c = {})"

definition buddy_rep :: "nat \<Rightarrow> buddy \<Rightarrow> block set \<Rightarrow> bool" where
  "buddy_rep nr s B \<longleftrightarrow>
     (\<forall>k < MAX_ORDER. chain (next_free s) (free_areas s k) (areas B k)) \<and>
     (\<forall>p < nr. p \<notin> snd ` B \<longrightarrow> next_free s p = None)"

section \<open>Geometry of blocks\<close>

lemma block_pages_pair [simp]: "block_pages (k, p) = {p ..< p + 2 ^ k}"
  by (simp add: block_pages_def)

lemma mem_of_order [simp]: "p \<in> of_order B k \<longleftrightarrow> (k, p) \<in> B"
  by (simp add: of_order_def)

lemma blocks_okD:
  assumes "blocks_ok nr B" and "(k, p) \<in> B"
  shows "k < MAX_ORDER" and "2 ^ k dvd p" and "p + 2 ^ k \<le> nr" and "p < nr"
proof -
  show "k < MAX_ORDER" "2 ^ k dvd p" and le: "p + 2 ^ k \<le> nr"
    using assms by (auto simp: blocks_ok_def)
  have "0 < (2::nat) ^ k" by simp
  with le show "p < nr" by linarith
qed

lemma blocks_disjoint:
  "blocks_ok nr B \<Longrightarrow> b \<in> B \<Longrightarrow> c \<in> B \<Longrightarrow> x \<in> block_pages b \<Longrightarrow> x \<in> block_pages c \<Longrightarrow> b = c"
  unfolding blocks_ok_def by blast

lemma same_head:
  "blocks_ok nr B \<Longrightarrow> (k, p) \<in> B \<Longrightarrow> (j, p) \<in> B \<Longrightarrow> k = j"
  using blocks_disjoint [of nr B "(k, p)" "(j, p)" p] by simp

lemma head_outside:
  assumes "blocks_ok nr B" and "(k, p) \<in> B" and "(j, q) \<in> B" and "p \<le> q" and "q < p + 2 ^ k"
  shows "j = k \<and> q = p"
  using blocks_disjoint [of nr B "(k, p)" "(j, q)" q] assms by simp

lemma finite_of_order: "blocks_ok nr B \<Longrightarrow> finite (of_order B k)"
  by (rule finite_subset [of _ "{..<nr}"]) (auto dest: blocks_okD(4))

lemma areas_props:
  assumes "blocks_ok nr B"
  shows "set (areas B k) = of_order B k" and "sorted_wrt (<) (areas B k)"
    and "distinct (areas B k)" and "length (areas B k) < nr + 2"
proof -
  note fin = finite_of_order [OF assms, of k]
  show "set (areas B k) = of_order B k" "sorted_wrt (<) (areas B k)" "distinct (areas B k)"
    using fin by (simp_all add: areas_def)
  have "card (of_order B k) \<le> card {..<nr}"
    by (rule card_mono) (auto dest: blocks_okD(4) [OF assms])
  then show "length (areas B k) < nr + 2"
    using fin by (simp add: areas_def)
qed

lemma areas_cong: "of_order B k = of_order C k \<Longrightarrow> areas B k = areas C k"
  by (simp add: areas_def)

lemma of_order_insert [simp]:
  "of_order (insert (k, p) B) j = (if j = k then insert p (of_order B k) else of_order B j)"
  by auto

lemma of_order_diff [simp]:
  "of_order (B - {(k, p)}) j = (if j = k then of_order B k - {p} else of_order B j)"
  by auto

lemma areas_insert:
  "blocks_ok nr B \<Longrightarrow> (k, p) \<notin> B \<Longrightarrow> areas (insert (k, p) B) k = insort p (areas B k)"
  by (simp add: areas_def finite_of_order)

lemma areas_remove:
  "blocks_ok nr B \<Longrightarrow> areas (B - {(k, p)}) k = remove1 p (areas B k)"
  by (simp add: areas_def finite_of_order sorted_list_of_set_remove)

lemma chain_areas:
  "buddy_rep nr s B \<Longrightarrow> k < MAX_ORDER \<Longrightarrow> chain (next_free s) (free_areas s k) (areas B k)"
  by (simp add: buddy_rep_def)

section \<open>One rule for all updates of the representation\<close>

text \<open>
  An operation that rewrites the lists of the orders \<open>K\<close> and the \<open>next_free\<close> fields of
  the descriptors \<open>T\<close> only takes a representation of \<open>B\<close> to one of \<open>B'\<close>.
\<close>

lemma buddy_rep_update:
  assumes rep: "buddy_rep nr s B" and ok: "blocks_ok nr B"
    and same: "\<And>j. j \<notin> K \<Longrightarrow> of_order B' j = of_order B j"
    and chains: "\<And>j. j \<in> K \<Longrightarrow> j < MAX_ORDER \<Longrightarrow> chain (next_free s') (free_areas s' j) (areas B' j)"
    and heads: "\<And>j. j \<notin> K \<Longrightarrow> free_areas s' j = free_areas s j"
    and frame: "\<And>q. q \<notin> T \<Longrightarrow> next_free s' q = next_free s q"
    and apart: "\<And>j q. j \<notin> K \<Longrightarrow> (j, q) \<in> B \<Longrightarrow> q \<notin> T"
    and nulls: "\<And>q. q \<in> T \<Longrightarrow> q < nr \<Longrightarrow> q \<notin> snd ` B' \<Longrightarrow> next_free s' q = None"
    and keep: "\<And>q. q \<notin> T \<Longrightarrow> q \<in> snd ` B \<Longrightarrow> q \<in> snd ` B'"
  shows "buddy_rep nr s' B'"
  unfolding buddy_rep_def
proof (intro conjI allI impI)
  fix j assume j: "j < MAX_ORDER"
  show "chain (next_free s') (free_areas s' j) (areas B' j)"
  proof (cases "j \<in> K")
    case True
    with chains j show ?thesis by blast
  next
    case False
    have "chain (next_free s') (free_areas s j) (areas B j)"
      using chain_areas [OF rep j] frame apart [OF False] areas_props(1) [OF ok]
      by (auto elim!: chain_congI)
    with False heads areas_cong [OF same [OF False]] show ?thesis by simp
  qed
next
  fix q assume q: "q < nr" "q \<notin> snd ` B'"
  show "next_free s' q = None"
  proof (cases "q \<in> T")
    case True
    with nulls q show ?thesis by blast
  next
    case False
    with keep q have "q \<notin> snd ` B" by blast
    with rep q frame [OF False] show ?thesis by (simp add: buddy_rep_def)
  qed
qed

section \<open>The list operations on sets of blocks\<close>

lemma insert_block_rep:
  assumes rep: "buddy_rep nr s B" and ok: "blocks_ok nr B" and k: "k < MAX_ORDER"
    and p: "p \<notin> snd ` B"
  obtains s' sl where "insert_block nr s p k = Inr (s', sl)"
    and "buddy_rep nr s' (insert (k, p) B)" and "read_slot s' sl = Some p"
proof -
  note ar = areas_props [OF ok, of k]
  from p have p': "p \<notin> set (areas B k)" "(k, p) \<notin> B" using ar(1) by force+
  obtain s' sl where s': "insert_block nr s p k = Inr (s', sl)"
    "chain (next_free s') (free_areas s' k) (insort p (areas B k))"
    "\<And>j. j \<noteq> k \<Longrightarrow> free_areas s' j = free_areas s j"
    "\<And>q. q \<notin> insert p (set (areas B k)) \<Longrightarrow> next_free s' q = next_free s q"
    "read_slot s' sl = Some p"
    using insert_block_spec [OF k chain_areas [OF rep k] ar(2) p'(1) ar(4)] by metis
  have "buddy_rep nr s' (insert (k, p) B)"
  proof (rule buddy_rep_update [OF rep ok, where K = "{k}" and T = "insert p (of_order B k)"])
    show "q \<notin> insert p (of_order B k)" if "j \<notin> {k}" "(j, q) \<in> B" for j q
      using that p same_head [OF ok, of j q k] by force
  qed (use s' ar areas_insert [OF ok p'(2)] in \<open>auto simp: image_iff\<close>)
  with s' that show thesis by metis
qed

lemma remove_block_rep:
  assumes rep: "buddy_rep nr s B" and ok: "blocks_ok nr B" and p: "(k, p) \<in> B"
  obtains s' where "remove_block nr s p k = Inr s'" and "buddy_rep nr s' (B - {(k, p)})"
proof -
  note ar = areas_props [OF ok, of k]
  note k = blocks_okD(1) [OF ok p]
  from p ar(1) have "p \<in> set (areas B k)" by simp
  then obtain s' where s': "remove_block nr s p k = Inr s'"
    "chain (next_free s') (free_areas s' k) (remove1 p (areas B k))"
    "\<And>j. j \<noteq> k \<Longrightarrow> free_areas s' j = free_areas s j"
    "\<And>q. q \<notin> set (areas B k) \<Longrightarrow> next_free s' q = next_free s q" "next_free s' p = None"
    using remove_block_spec [OF k chain_areas [OF rep k] ar(3) _ ar(4)] by metis
  have "buddy_rep nr s' (B - {(k, p)})"
  proof (rule buddy_rep_update [OF rep ok, where K = "{k}" and T = "of_order B k"])
    show "q \<notin> of_order B k" if "j \<notin> {k}" "(j, q) \<in> B" for j q
      using that same_head [OF ok, of j q k] by auto
    show "q \<in> snd ` (B - {(k, p)})" if "q \<notin> of_order B k" "q \<in> snd ` B" for q
      using that p by (force simp: image_iff)
    show "next_free s' q = None" if "q \<in> of_order B k" "q < nr" "q \<notin> snd ` (B - {(k, p)})" for q
      using that s'(5) by (force simp: image_iff)
  qed (use s' ar areas_remove [OF ok, of k p] in auto)
  with s'(1) that show thesis by metis
qed

definition split_set :: "block set \<Rightarrow> nat \<Rightarrow> nat \<Rightarrow> block set" where
  "split_set B k p = insert (k - 1, p + 2 ^ (k - 1)) (insert (k - 1, p) (B - {(k, p)}))"

lemma halves: "0 < k \<Longrightarrow> (2::nat) ^ (k - 1) + 2 ^ (k - 1) = 2 ^ k"
  by (cases k) auto

lemma split_pages:
  assumes "0 < k"
  shows "block_pages (k, p) = block_pages (k - 1, p) \<union> block_pages (k - 1, p + 2 ^ (k - 1))"
    and "block_pages (k - 1, p) \<inter> block_pages (k - 1, p + 2 ^ (k - 1)) = {}"
  using halves [OF assms] by auto

lemma blocks_ok_mono: "blocks_ok nr B \<Longrightarrow> C \<subseteq> B \<Longrightarrow> blocks_ok nr C"
  unfolding blocks_ok_def by blast

lemma blocks_ok_insert:
  "blocks_ok nr B \<Longrightarrow> k < MAX_ORDER \<Longrightarrow> 2 ^ k dvd p \<Longrightarrow> p + 2 ^ k \<le> nr \<Longrightarrow>
   block_pages (k, p) \<inter> pages_of B = {} \<Longrightarrow> blocks_ok nr (insert (k, p) B)"
  unfolding blocks_ok_def pages_of_def by (auto simp: Int_commute)

lemma pages_of_insert [simp]: "pages_of (insert b B) = block_pages b \<union> pages_of B"
  by (simp add: pages_of_def)

lemma block_subset_pages: "b \<in> B \<Longrightarrow> block_pages b \<subseteq> pages_of B"
  by (auto simp: pages_of_def)

lemma pages_of_remove:
  assumes "blocks_ok nr B" and "b \<in> B"
  shows "pages_of (B - {b}) = pages_of B - block_pages b"
  using assms unfolding pages_of_def blocks_ok_def by blast

lemma pages_of_bound: "blocks_ok nr B \<Longrightarrow> pages_of B \<subseteq> {..<nr}"
  unfolding pages_of_def blocks_ok_def by fastforce

lemma split_set_ok:
  assumes ok: "blocks_ok nr B" and kp: "(k, p) \<in> B" and k: "0 < k"
  shows "blocks_ok nr (split_set B k p)" and "pages_of (split_set B k p) = pages_of B"
proof -
  note d = blocks_okD [OF ok kp]
  have sub: "block_pages (k, p) \<subseteq> pages_of B" using kp by (auto simp: pages_of_def)
  have ok1: "blocks_ok nr (B - {(k, p)})" by (rule blocks_ok_mono [OF ok]) auto
  have pg1: "pages_of (B - {(k, p)}) = pages_of B - block_pages (k, p)"
    by (rule pages_of_remove [OF ok kp])
  have dvd: "2 ^ (k - 1) dvd p" "2 ^ (k - 1) dvd p + 2 ^ (k - 1)"
    using d(2) power_le_dvd [of "2::nat" k p "k - 1"] by auto
  have ok2: "blocks_ok nr (insert (k - 1, p) (B - {(k, p)}))"
    by (rule blocks_ok_insert [OF ok1]) (use d dvd halves [OF k] pg1 split_pages [OF k] in auto)
  show "blocks_ok nr (split_set B k p)"
    unfolding split_set_def
    by (rule blocks_ok_insert [OF ok2])
      (use d dvd halves [OF k] pg1 split_pages [OF k] in auto)
  show "pages_of (split_set B k p) = pages_of B"
    unfolding split_set_def using pg1 sub split_pages(1) [OF k, of p] by auto
qed

lemma split_block_rep:
  assumes rep: "buddy_rep nr s B" and ok: "blocks_ok nr B" and kp: "(k, p) \<in> B" and k: "0 < k"
  obtains s' where "split_block nr s (Some p) k = Inr (s', Some p)"
    and "buddy_rep nr s' (split_set B k p)"
proof -
  let ?b = "p + 2 ^ (k - 1)"
  note d = blocks_okD [OF ok kp]
  note xs = areas_props [OF ok, of k] and ys = areas_props [OF ok, of "k - 1"]
  have bin: "p < ?b" "?b < p + 2 ^ k" using halves [OF k] k by auto
  have bfree: "(j, ?b) \<notin> B" for j
    using head_outside [OF ok kp, of j ?b] bin by auto
  have pfree: "(k - 1, p) \<notin> B" using same_head [OF ok kp, of "k - 1"] k by auto
  have after: "\<forall>q\<in>set (areas B (k - 1)). p < q \<longrightarrow> ?b < q"
  proof (intro ballI impI)
    fix q assume q: "q \<in> set (areas B (k - 1))" "p < q"
    then have "\<not> q < p + 2 ^ k" using ys(1) head_outside [OF ok kp, of "k - 1" q] by auto
    with bin show "?b < q" by linarith
  qed
  have disj: "set (areas B k) \<inter> set (areas B (k - 1)) = {}"
    unfolding xs(1) ys(1) disjoint_iff mem_of_order
    using same_head [OF ok, of k _ "k - 1"] k by fastforce
  have k1: "k - 1 < MAX_ORDER" using d(1) by simp
  have bnr: "?b \<le> nr" using bin(2) d(3) by linarith
  obtain s' where s': "split_block nr s (Some p) k = Inr (s', Some p)"
    "chain (next_free s') (free_areas s' k) (remove1 p (areas B k))"
    "chain (next_free s') (free_areas s' (k - 1)) (insort ?b (insort p (areas B (k - 1))))"
    "\<And>j. j \<noteq> k \<Longrightarrow> j \<noteq> k - 1 \<Longrightarrow> free_areas s' j = free_areas s j"
    "\<And>q. q \<notin> {p, ?b} \<union> set (areas B k) \<union> set (areas B (k - 1)) \<Longrightarrow> next_free s' q = next_free s q"
    by (rule split_block_spec [OF k d(1,2) refl bnr chain_areas [OF rep d(1)] xs(3) _ xs(4) _
          chain_areas [OF rep k1] ys(2,4) _ _ after disj])
      (use xs(1) ys(1) kp bfree pfree bin d in auto)
  have ak: "areas (split_set B k p) k = remove1 p (areas B k)"
    using areas_remove [OF ok, of k p] k unfolding areas_def split_set_def by simp
  have ok1: "blocks_ok nr (B - {(k, p)})" by (rule blocks_ok_mono [OF ok]) auto
  have "of_order (split_set B k p) (k - 1) = insert ?b (insert p (of_order B (k - 1)))"
    unfolding split_set_def using k by auto
  then have ak1: "areas (split_set B k p) (k - 1) = insort ?b (insort p (areas B (k - 1)))"
    using pfree bfree bin by (simp add: areas_def finite_of_order [OF ok])
  have "buddy_rep nr s' (split_set B k p)"
  proof (rule buddy_rep_update [OF rep ok, where K = "{k, k - 1}"
        and T = "{p, ?b} \<union> of_order B k \<union> of_order B (k - 1)"])
    show "q \<notin> {p, ?b} \<union> of_order B k \<union> of_order B (k - 1)"
      if "j \<notin> {k, k - 1}" "(j, q) \<in> B" for j q
    proof -
      from that have "j \<noteq> k" "j \<noteq> k - 1" by auto
      then show ?thesis
        using same_head [OF ok that(2), of k] same_head [OF ok that(2), of "k - 1"] kp
          bfree [of j] that(2) by (metis Un_iff insert_iff empty_iff mem_of_order)
    qed
    show "next_free s' q = None"
      if "q \<in> {p, ?b} \<union> of_order B k \<union> of_order B (k - 1)" "q \<notin> snd ` split_set B k p" for q
      using that kp by (force simp: split_set_def image_iff)
    show "chain (next_free s') (free_areas s' j) (areas (split_set B k p) j)"
      if "j \<in> {k, k - 1}" for j
      using that s'(2,3) ak ak1 by auto
    show "q \<in> snd ` split_set B k p"
      if "q \<notin> {p, ?b} \<union> of_order B k \<union> of_order B (k - 1)" "q \<in> snd ` B" for q
      using that by (force simp: split_set_def image_iff)
  qed (use s'(4,5) xs(1) ys(1) in \<open>auto simp: split_set_def\<close>)
  with s'(1) that show thesis by metis
qed

end
