(* ===== verification/Buddy_Correct.thy ===== *)
theory Buddy_Correct
  imports Buddy_Blocks
begin

text \<open>
  Correctness of the buddy allocator: \<open>buddy_inv\<close> is the invariant of its state, every
  public operation returns without a fault from a state that satisfies it, keeps it, and
  changes the set of free pages as its contract says. \<open>coalesced\<close> is the part of the
  invariant that makes the allocator a buddy allocator: below the largest order no block
  and its buddy are both free.
\<close>

definition buddy_pair :: "block set \<Rightarrow> nat \<Rightarrow> nat \<Rightarrow> bool" where
  "buddy_pair B k n \<longleftrightarrow> k < maxOrder \<and> 2 ^ Suc k dvd n \<and> (k, n) \<in> B \<and> (k, n + 2 ^ k) \<in> B"

definition coalesced :: "block set \<Rightarrow> bool" where
  "coalesced B \<longleftrightarrow> (\<forall>k n. \<not> buddy_pair B k n)"

definition free_blocks :: "nat \<Rightarrow> buddy \<Rightarrow> block set" where
  "free_blocks nr s = {(k, p). k < MAX_ORDER \<and> p \<in> set (dump_state nr s ! k)}"

definition free_set :: "nat \<Rightarrow> buddy \<Rightarrow> nat set" where
  "free_set nr s = pages_of (free_blocks nr s)"

definition buddy_inv :: "nat \<Rightarrow> buddy \<Rightarrow> bool" where
  "buddy_inv nr s \<longleftrightarrow> buddy_rep nr s (free_blocks nr s) \<and> blocks_ok nr (free_blocks nr s)
     \<and> coalesced (free_blocks nr s)"

section \<open>The printed free lists determine the blocks\<close>

lemma dump_area_chain: "chain nx p xs \<Longrightarrow> length xs < fuel \<Longrightarrow> dump_area fuel nx p = xs"
proof (induction xs arbitrary: p fuel)
  case Nil
  then show ?case by (cases fuel) auto
next
  case (Cons x xs)
  then obtain f where "fuel = Suc f" by (cases fuel) auto
  with Cons show ?case by auto
qed

lemma free_blocks_rep:
  assumes rep: "buddy_rep nr s B" and ok: "blocks_ok nr B"
  shows "free_blocks nr s = B"
proof -
  have "set (dump_state nr s ! k) = of_order B k" if "k < MAX_ORDER" for k
    using dump_area_chain [OF chain_areas [OF rep that] areas_props(4) [OF ok]] that
      areas_props(1) [OF ok] by (simp add: dump_state_def)
  then show ?thesis
    using blocks_okD(1) [OF ok] by (auto simp: free_blocks_def)
qed

lemma buddy_invI:
  "buddy_rep nr s B \<Longrightarrow> blocks_ok nr B \<Longrightarrow> coalesced B \<Longrightarrow> buddy_inv nr s \<and> free_set nr s = pages_of B"
  by (simp add: buddy_inv_def free_set_def free_blocks_rep)

lemma buddy_invE:
  assumes "buddy_inv nr s"
  obtains B where "buddy_rep nr s B" and "blocks_ok nr B" and "coalesced B"
    and "free_blocks nr s = B" and "free_set nr s = pages_of B"
  using assms by (auto simp: buddy_inv_def free_set_def)

section \<open>Merging\<close>

definition merge_set :: "block set \<Rightarrow> nat \<Rightarrow> nat \<Rightarrow> block set" where
  "merge_set B k n = insert (Suc k, n) (B - {(k, n)} - {(k, n + 2 ^ k)})"

lemma chain_adjacent:
  "chain nx x xs \<Longrightarrow> a \<in> set xs \<Longrightarrow> nx a = Some b \<Longrightarrow> \<exists>as bs. xs = as @ a # b # bs"
proof (induction xs arbitrary: x)
  case Nil
  then show ?case by simp
next
  case (Cons y ys)
  show ?case
  proof (cases "a = y")
    case True
    with Cons.prems obtain bs where "ys = b # bs" by (auto simp: chain_Some)
    with True show ?thesis by (metis append_Nil)
  next
    case False
    with Cons.prems Cons.IH [of "nx y"] obtain as bs where "ys = as @ a # b # bs" by auto
    then show ?thesis by (metis append_Cons)
  qed
qed

lemma pair_adjacent:
  assumes ok: "blocks_ok nr B" and n: "(k, n) \<in> B" and m: "(k, n + 2 ^ k) \<in> B"
  obtains as bs where "areas B k = as @ n # (n + 2 ^ k) # bs"
proof -
  let ?A = "of_order B k" and ?m = "n + 2 ^ k"
  note fin = finite_of_order [OF ok, of k]
  have "areas B k = sorted_list_of_set {x \<in> ?A. x < n} @ n # sorted_list_of_set {x \<in> ?A. n < x}"
    unfolding areas_def by (rule sorted_list_of_set_split [OF fin]) (use n in simp)
  then have split: "areas B k = sorted_list_of_set {x \<in> ?A. x < n} @ n # sorted_list_of_set R"
    if "R = {x \<in> ?A. n < x}" for R using that by simp
  have gap: "x = ?m \<or> ?m < x" if "x \<in> ?A" "n < x" for x
    using head_outside [OF ok n, of k x] that by force
  define R where "R = {x \<in> ?A. n < x}"
  have "{x \<in> R. x < ?m} = {}" using gap by (force simp: R_def)
  moreover have "finite R" unfolding R_def by (rule finite_subset [OF _ fin]) auto
  moreover have "?m \<in> R" using m by (simp add: R_def)
  ultimately have rest: "sorted_list_of_set R = ?m # sorted_list_of_set {x \<in> R. ?m < x}"
    using sorted_list_of_set_split [of R ?m] by simp
  show thesis
    by (rule that) (use split [OF R_def] in \<open>simp add: rest\<close>)
qed

lemma next_free_pair:
  assumes rep: "buddy_rep nr s B" and ok: "blocks_ok nr B" and p: "(k, p) \<in> B" and a: "a < nr"
    and an: "next_free s a = Some p"
  shows "(k, a) \<in> B" and "a < p"
proof -
  from rep a an obtain j where j: "(j, a) \<in> B" by (force simp: buddy_rep_def)
  note jk = blocks_okD(1) [OF ok j]
  obtain as bs where sp: "areas B j = as @ a # p # bs"
    using chain_adjacent [OF chain_areas [OF rep jk] _ an] areas_props(1) [OF ok, of j] j by auto
  then have "p \<in> of_order B j" using areas_props(1) [OF ok, of j] by force
  with same_head [OF ok p] have "j = k" by simp
  with j show "(k, a) \<in> B" by simp
  show "a < p" using areas_props(2) [OF ok, of j] sp by (auto simp: sorted_wrt_append)
qed

lemma next_free_right:
  assumes rep: "buddy_rep nr s B" and ok: "blocks_ok nr B" and n: "(k, n) \<in> B"
    and nx: "next_free s n = Some m"
  shows "(k, m) \<in> B" and "n < m"
proof -
  note kk = blocks_okD(1) [OF ok n]
  obtain as bs where sp: "areas B k = as @ n # m # bs"
    using chain_adjacent [OF chain_areas [OF rep kk] _ nx] areas_props(1) [OF ok, of k] n by auto
  then have "m \<in> of_order B k" using areas_props(1) [OF ok, of k] by force
  then show "(k, m) \<in> B" by simp
  show "n < m" using areas_props(2) [OF ok, of k] sp by (auto simp: sorted_wrt_append)
qed

lemma pair_linked:
  assumes "buddy_rep nr s B" and "blocks_ok nr B" and n: "(k, n) \<in> B" and "(k, n + 2 ^ k) \<in> B"
  shows "next_free s n = Some (n + 2 ^ k)"
proof -
  obtain as bs where "areas B k = as @ n # (n + 2 ^ k) # bs"
    using pair_adjacent [OF assms(2,3,4)] by metis
  with chain_append [of "next_free s" "free_areas s k" as n "(n + 2 ^ k) # bs"]
    chain_areas [OF assms(1) blocks_okD(1) [OF assms(2) n]]
  show ?thesis by simp
qed

lemma merge_set_ok:
  assumes ok: "blocks_ok nr B" and pr: "buddy_pair B k n"
  shows "blocks_ok nr (merge_set B k n)" and "pages_of (merge_set B k n) = pages_of B"
proof -
  let ?C = "B - {(k, n)} - {(k, n + 2 ^ k)}"
  from pr have n: "(k, n) \<in> B" and m: "(k, n + 2 ^ k) \<in> B" and k: "Suc k < MAX_ORDER"
    and dv: "2 ^ Suc k dvd n"
    by (auto simp: buddy_pair_def maxOrder_def)
  have okC: "blocks_ok nr ?C" and ok1: "blocks_ok nr (B - {(k, n)})"
    by (rule blocks_ok_mono [OF ok], blast)+
  have m1: "(k, n + 2 ^ k) \<in> B - {(k, n)}" using m by simp
  have two: "block_pages (Suc k, n) = block_pages (k, n) \<union> block_pages (k, n + 2 ^ k)"
    using split_pages(1) [of "Suc k" n] by simp
  have pgC: "pages_of ?C = pages_of B - block_pages (Suc k, n)"
    using pages_of_remove [OF ok n] pages_of_remove [OF ok1 m1] two by auto
  show "blocks_ok nr (merge_set B k n)"
    unfolding merge_set_def
    by (rule blocks_ok_insert [OF okC k dv]) (use pgC blocks_okD(3) [OF ok m] in auto)
  have "block_pages (Suc k, n) \<subseteq> pages_of B"
    using two n m unfolding pages_of_def by blast
  then show "pages_of (merge_set B k n) = pages_of B"
    unfolding merge_set_def using pgC by auto
qed

lemma remove_pair:
  assumes "distinct (as @ n # m # bs)"
  shows "remove1 m (remove1 n (as @ n # m # bs)) = as @ bs"
  using assms by (simp add: remove1_append)

lemma merge_block_rep:
  assumes rep: "buddy_rep nr s B" and ok: "blocks_ok nr B" and pr: "buddy_pair B k n"
  obtains s' sl where "merge_block nr s (Some n) k = Inr (s', sl)" and "read_slot s' sl = Some n"
    and "buddy_rep nr s' (merge_set B k n)"
proof -
  let ?m = "n + 2 ^ k" and ?B' = "merge_set B k n"
  from pr have n: "(k, n) \<in> B" and m: "(k, ?m) \<in> B" and k: "Suc k < MAX_ORDER" "k < MAX_ORDER"
    by (auto simp: buddy_pair_def maxOrder_def)
  note xs = areas_props [OF ok, of k] and ys = areas_props [OF ok, of "Suc k"]
  obtain as bs where sp: "areas B k = as @ n # ?m # bs" using pair_adjacent [OF ok n m] by metis
  have nn: "n \<notin> set (areas B (Suc k))" using ys(1) same_head [OF ok n, of "Suc k"] by auto
  have disj: "set (as @ n # ?m # bs) \<inter> set (areas B (Suc k)) = {}"
    unfolding sp [symmetric] xs(1) ys(1) disjoint_iff mem_of_order
    using same_head [OF ok, of k _ "Suc k"] by auto
  have len: "length as < nr + 2" using xs(4) sp by simp
  obtain s' sl where s': "merge_block nr s (Some n) k = Inr (s', sl)" "read_slot s' sl = Some n"
    "chain (next_free s') (free_areas s' k) (as @ bs)"
    "chain (next_free s') (free_areas s' (Suc k)) (insort n (areas B (Suc k)))"
    "next_free s' ?m = None"
    "\<And>j. j \<noteq> k \<Longrightarrow> j \<noteq> Suc k \<Longrightarrow> free_areas s' j = free_areas s j"
    "\<And>q. q \<notin> set (as @ n # ?m # bs) \<union> set (areas B (Suc k)) \<Longrightarrow> next_free s' q = next_free s q"
    by (rule merge_block_spec [OF k(1) blocks_okD(2) [OF ok n] _ _ len _ ys(2) nn ys(4) disj])
      (use chain_areas [OF rep k(1)] chain_areas [OF rep k(2)] sp xs(3) in auto)
  have ok1: "blocks_ok nr (B - {(k, n)})" by (rule blocks_ok_mono [OF ok]) auto
  have "areas (B - {(k, n)} - {(k, ?m)}) k = as @ bs"
    using areas_remove [OF ok1, of k ?m] areas_remove [OF ok, of k n] remove_pair [of as n ?m bs]
      sp xs(3) by simp
  then have ak: "areas ?B' k = as @ bs"
    unfolding merge_set_def areas_def by simp
  have "of_order ?B' (Suc k) = insert n (of_order B (Suc k))" unfolding merge_set_def by auto
  then have ak1: "areas ?B' (Suc k) = insort n (areas B (Suc k))"
    using nn ys(1) by (simp add: areas_def finite_of_order [OF ok])
  have "buddy_rep nr s' ?B'"
  proof (rule buddy_rep_update [OF rep ok, where K = "{k, Suc k}"
        and T = "of_order B k \<union> of_order B (Suc k)"])
    show "q \<notin> of_order B k \<union> of_order B (Suc k)" if "j \<notin> {k, Suc k}" "(j, q) \<in> B" for j q
      using that same_head [OF ok that(2), of k] same_head [OF ok that(2), of "Suc k"] by auto
    show "next_free s' q = None"
      if "q \<in> of_order B k \<union> of_order B (Suc k)" "q \<notin> snd ` ?B'" for q
      using that s'(5) by (force simp: merge_set_def image_iff)
    show "chain (next_free s') (free_areas s' j) (areas ?B' j)" if "j \<in> {k, Suc k}" for j
      using that s'(3,4) ak ak1 by auto
    show "q \<in> snd ` ?B'" if "q \<notin> of_order B k \<union> of_order B (Suc k)" "q \<in> snd ` B" for q
      using that by (force simp: merge_set_def image_iff)
    show "of_order ?B' j = of_order B j" if "j \<notin> {k, Suc k}" for j
      using that by (auto simp: merge_set_def)
    show "next_free s' q = next_free s q" if "q \<notin> of_order B k \<union> of_order B (Suc k)" for q
      using that s'(7) sp xs(1) ys(1) by (metis)
  qed (use s'(6) in auto)
  with s'(1,2) that show thesis by metis
qed

lemma buddy_of_left:
  assumes "k < MAX_ORDER" and "2 ^ k dvd p" and "\<not> 2 ^ Suc k dvd p" and "p \<le> nr"
  shows "buddy_of nr p k = Some (p - 2 ^ k)" and "2 ^ Suc k dvd p - 2 ^ k" and "2 ^ k \<le> p"
proof -
  from assms(2) obtain c where c: "p = 2 ^ k * c" by (auto elim: dvdE)
  with assms(3) have "odd c" by (auto elim: evenE)
  then obtain d where "c = 2 * d + 1" by (auto elim: oddE)
  with c have p: "p = 2 ^ Suc k * d + 2 ^ k" by (simp add: algebra_simps)
  then show "2 ^ Suc k dvd p - 2 ^ k" "2 ^ k \<le> p" by simp_all
  show "buddy_of nr p k = Some (p - 2 ^ k)"
    using assms by (simp add: buddy_of_def pfn_to_pgd_def pages_per_block_def)
qed

lemma right_not_aligned: "2 ^ Suc k dvd (p::nat) \<Longrightarrow> \<not> 2 ^ Suc k dvd p + 2 ^ k"
  by (metis dvd_add_right_iff dvd_imp_le lessI not_less power_strict_increasing_iff
      zero_less_numeral zero_less_power one_less_numeral_iff semiring_norm(76))

lemma merge_set_pairs:
  assumes pairs: "\<And>j n. buddy_pair B j n \<Longrightarrow> j = k \<and> (n = p \<or> n + 2 ^ k = p)"
    and np: "p = n \<or> p = n + 2 ^ k" and pr: "buddy_pair (merge_set B k n) j i"
  shows "j = Suc k \<and> (i = n \<or> i + 2 ^ Suc k = n)"
proof (rule ccontr)
  assume new: "\<not> (j = Suc k \<and> (i = n \<or> i + 2 ^ Suc k = n))"
  from pr have mem: "(j, i) \<in> merge_set B k n" "(j, i + 2 ^ j) \<in> merge_set B k n"
    by (simp_all add: buddy_pair_def)
  with new have old: "(j, i) \<in> B - {(k, n)} - {(k, n + 2 ^ k)}"
    "(j, i + 2 ^ j) \<in> B - {(k, n)} - {(k, n + 2 ^ k)}"
    unfolding merge_set_def by (metis insert_iff prod.inject)+
  with pr have "buddy_pair B j i" by (simp add: buddy_pair_def)
  from pairs [OF this] have jk: "j = k" and ip: "i = p \<or> i + 2 ^ k = p" by simp_all
  from old jk have "i \<noteq> n" "i \<noteq> n + 2 ^ k" "i + 2 ^ k \<noteq> n" by simp_all
  with ip np show False by (metis add_right_cancel)
qed

text \<open>
  \<open>TryMerge\<close> merges the block it is given with its buddy exactly when both are free, and
  climbs until no pair is left.
\<close>

lemma TryMerge_rep:
  assumes "buddy_rep nr s B" and "blocks_ok nr B" and "(k, p) \<in> B"
    and "\<And>j n. buddy_pair B j n \<Longrightarrow> j = k \<and> (n = p \<or> n + 2 ^ k = p)"
  shows "\<exists>s' B'. TryMerge nr s p k = Inr s' \<and> buddy_rep nr s' B' \<and> blocks_ok nr B'
    \<and> coalesced B' \<and> pages_of B' = pages_of B"
  using assms
proof (induction "maxOrder - k" arbitrary: s B k p)
  case 0
  then have "\<not> buddy_pair B j n" for j n by (force simp: buddy_pair_def)
  moreover have "TryMerge nr s p k = Inr s" using 0 by (simp add: TryMerge.simps)
  ultimately show ?case using 0 unfolding coalesced_def by blast
next
  case (Suc d)
  note rep = Suc.prems(1) and ok = Suc.prems(2) and kp = Suc.prems(3) and pairs = Suc.prems(4)
  note b = blocks_okD [OF ok kp]
  have k: "k < maxOrder" "\<not> maxOrder \<le> k" using Suc.hyps(2) by simp_all
  have climb: ?case if pr: "buddy_pair B k n" and np: "n = p \<or> n + 2 ^ k = p"
    and tm: "\<And>s' sl. merge_block nr s (Some n) k = Inr (s', sl) \<Longrightarrow> read_slot s' sl = Some n \<Longrightarrow>
      TryMerge nr s p k = TryMerge nr s' n (Suc k)" for n
  proof -
    obtain s' sl where s': "merge_block nr s (Some n) k = Inr (s', sl)" "read_slot s' sl = Some n"
      "buddy_rep nr s' (merge_set B k n)"
      using merge_block_rep [OF rep ok pr] by metis
    note ok' = merge_set_ok [OF ok pr]
    from np have np': "p = n \<or> p = n + 2 ^ k" by metis
    have "\<exists>s'' B''. TryMerge nr s' n (Suc k) = Inr s'' \<and> buddy_rep nr s'' B'' \<and> blocks_ok nr B''
        \<and> coalesced B'' \<and> pages_of B'' = pages_of (merge_set B k n)"
    proof (rule Suc.hyps(1))
      show "d = maxOrder - Suc k" using Suc.hyps(2) by simp
      show "buddy_pair (merge_set B k n) j i \<Longrightarrow> j = Suc k \<and> (i = n \<or> i + 2 ^ Suc k = n)" for j i
        by (rule merge_set_pairs [OF pairs np'])
    qed (use s'(3) ok'(1) in \<open>simp_all add: merge_set_def\<close>)
    with tm [OF s'(1,2)] ok'(2) show ?thesis by simp
  qed
  have stop: ?case if none: "\<And>n. n = p \<or> n + 2 ^ k = p \<Longrightarrow> \<not> buddy_pair B k n"
    and tm: "TryMerge nr s p k = Inr s"
  proof -
    have "coalesced B" using pairs none unfolding coalesced_def by blast
    with rep ok tm show ?thesis by blast
  qed
  show ?case
  proof (cases "2 ^ Suc k dvd p")
    case True
    let ?m = "p + 2 ^ k"
    have bo: "buddy_of nr p k = Some ?m" using buddy_of_right [OF b(1) True b(3)] .
    have na: "\<not> 2 ^ Suc k dvd ?m" by (rule right_not_aligned [OF True])
    have tm: "TryMerge nr s p k = (if next_free s p = Some ?m
      then andthen (merge_block nr s (Some p) k) (\<lambda>(s', sl).
        andthen (deref (read_slot s' sl)) (\<lambda>p. TryMerge nr s' p (Suc k))) else Inr s)"
      using bo na k by (subst TryMerge.simps) simp
    show ?thesis
    proof (cases "next_free s p = Some ?m")
      case True
      then have "buddy_pair B k p"
        using next_free_right [OF rep ok kp] kp k \<open>2 ^ Suc k dvd p\<close> by (auto simp: buddy_pair_def)
      then show ?thesis by (rule climb) (use tm True in simp_all)
    next
      case False
      have "\<not> buddy_pair B k n" if "n = p \<or> n + 2 ^ k = p" for n
        using that False pair_linked [OF rep ok kp] right_not_aligned [of k n] \<open>2 ^ Suc k dvd p\<close>
        by (auto simp: buddy_pair_def)
      then show ?thesis by (rule stop) (use tm False in simp_all)
    qed
  next
    case False
    let ?m = "p - 2 ^ k"
    note left = buddy_of_left [OF b(1,2) False less_imp_le [OF b(4)]]
    have pm: "?m + 2 ^ k = p" "?m < nr" using left(3) b(4) by auto
    have notr: "next_free s p \<noteq> Some ?m" using next_free_right(2) [OF rep ok kp, of ?m] by auto
    have tm: "TryMerge nr s p k = (if next_free s ?m = Some p
      then andthen (merge_block nr s (Some ?m) k) (\<lambda>(s', sl).
        andthen (deref (read_slot s' sl)) (\<lambda>p. TryMerge nr s' p (Suc k))) else Inr s)"
      using left notr k by (subst TryMerge.simps) simp
    show ?thesis
    proof (cases "next_free s ?m = Some p")
      case True
      then have "buddy_pair B k ?m"
        using next_free_pair(1) [OF rep ok kp pm(2)] kp k left(2) pm by (auto simp: buddy_pair_def)
      then show ?thesis by (rule climb) (use tm True pm in simp_all)
    next
      case nolink: False
      have "\<not> buddy_pair B k n" if "n = p \<or> n + 2 ^ k = p" for n
        using that nolink pair_linked [OF rep ok, of k n] False by (auto simp: buddy_pair_def)
      then show ?thesis by (rule stop) (use tm nolink in simp_all)
    qed
  qed
qed

section \<open>Allocation\<close>

definition left_split :: "block set \<Rightarrow> nat \<Rightarrow> nat \<Rightarrow> nat \<Rightarrow> block set" where
  "left_split B p u ord = insert (u, p) (B - {(ord, p)}) \<union> {(j, p + 2 ^ j) | j. u \<le> j \<and> j < ord}"

lemma left_split_step:
  assumes ok: "blocks_ok nr B" and op: "(Suc ord, p) \<in> B" and u: "u \<le> ord"
  shows "left_split (split_set B (Suc ord) p) p u ord = left_split B p u (Suc ord)"
proof -
  have "(ord, p) \<notin> B" using same_head [OF ok op, of ord] by auto
  moreover have "{(j, p + 2 ^ j) | j. u \<le> j \<and> j < Suc ord} =
      insert (ord, p + 2 ^ ord) {(j, p + 2 ^ j) | j. u \<le> j \<and> j < ord}"
    using u by (auto simp: less_Suc_eq)
  ultimately show ?thesis
    unfolding left_split_def split_set_def by auto
qed

lemma SplitToLeft_rep:
  assumes "buddy_rep nr s B" and "blocks_ok nr B" and "(ord, p) \<in> B" and "u \<le> ord"
  shows "\<exists>s'. SplitToLeft nr s (Some p) ord u = Inr s' \<and> buddy_rep nr s' (left_split B p u ord)
    \<and> blocks_ok nr (left_split B p u ord) \<and> pages_of (left_split B p u ord) = pages_of B
    \<and> (u = ord \<longrightarrow> s' = s)"
  using assms
proof (induction ord arbitrary: s B)
  case 0
  then have "left_split B p u 0 = B" by (auto simp: left_split_def)
  with 0 show ?case by (simp add: SplitToLeft.simps)
next
  case (Suc ord)
  note rep = Suc.prems(1) and ok = Suc.prems(2) and op = Suc.prems(3)
  show ?case
  proof (cases "u = Suc ord")
    case True
    then have "left_split B p u (Suc ord) = B" using op by (auto simp: left_split_def)
    with True Suc.prems show ?thesis by (simp add: SplitToLeft.simps)
  next
    case False
    with Suc.prems have u: "u \<le> ord" by simp
    let ?C = "split_set B (Suc ord) p"
    obtain s1 where s1: "split_block nr s (Some p) (Suc ord) = Inr (s1, Some p)" "buddy_rep nr s1 ?C"
      using split_block_rep [OF rep ok op] by auto
    note C = split_set_ok [OF ok op]
    have "(ord, p) \<in> ?C" by (simp add: split_set_def)
    from Suc.IH [OF s1(2) C(1) this u] C(2) left_split_step [OF ok op u] s1(1) u
    show ?thesis by (subst SplitToLeft.simps) auto
  qed
qed

lemma area_empty:
  assumes "buddy_rep nr s B" and "blocks_ok nr B" and "k < MAX_ORDER"
  shows "free_areas s k = None \<longleftrightarrow> of_order B k = {}"
  using chain_areas [OF assms(1,3)] areas_props(1) [OF assms(2), of k]
  by (cases "areas B k") auto

lemma area_head:
  assumes "buddy_rep nr s B" and "blocks_ok nr B" and "k < MAX_ORDER" and "free_areas s k = Some h"
  shows "(k, h) \<in> B"
  using chain_areas [OF assms(1,3)] areas_props(1) [OF assms(2), of k] assms(4)
  by (cases "areas B k") auto

lemma area_least:
  assumes rep: "buddy_rep nr s B" and ok: "blocks_ok nr B" and kp: "(k, p) \<in> B"
    and least: "\<And>q. (k, q) \<in> B \<Longrightarrow> p \<le> q"
  shows "free_areas s k = Some p"
proof -
  note k = blocks_okD(1) [OF ok kp]
  note ar = areas_props [OF ok, of k]
  obtain h rest where sp: "areas B k = h # rest" using kp ar(1) by (cases "areas B k") auto
  with ar(1) have "(k, h) \<in> B" by (metis list.set_intros(1) mem_of_order)
  moreover have "h \<le> p" using sp ar(1,2) kp by (metis less_imp_le mem_of_order order_refl
      set_ConsD sorted_wrt.simps(2))
  ultimately have "h = p" using least [of h] by simp
  with chain_areas [OF rep k] sp show ?thesis by simp
qed

lemma coalesced_left_split:
  assumes ok: "blocks_ok nr B" and co: "coalesced B" and op: "(ord, p) \<in> B"
  shows "coalesced (left_split B p u ord - {(u, p)})"
  unfolding coalesced_def
proof (intro allI notI)
  fix k n assume pr: "buddy_pair (left_split B p u ord - {(u, p)}) k n"
  let ?new = "{(j, p + 2 ^ j) | j. u \<le> j \<and> j < ord}"
  have sub: "left_split B p u ord - {(u, p)} \<subseteq> B \<union> ?new" by (auto simp: left_split_def)
  from pr sub have mem: "(k, n) \<in> B \<union> ?new" "(k, n + 2 ^ k) \<in> B \<union> ?new" and al: "2 ^ Suc k dvd n"
    by (auto simp: buddy_pair_def)
  have dvd: "2 ^ Suc j dvd p" if "j < ord" for j
    using blocks_okD(2) [OF ok op] power_le_dvd [of "2::nat" ord p "Suc j"] that by simp
  have "(k, n) \<notin> ?new" using al right_not_aligned [OF dvd, of k] by auto
  with mem have n: "(k, n) \<in> B" by blast
  have "(k, n + 2 ^ k) \<notin> ?new"
  proof
    assume "(k, n + 2 ^ k) \<in> ?new"
    then have "n = p" "k < ord" by auto
    with n same_head [OF ok op, of k] show False by auto
  qed
  with mem n al pr co show False by (auto simp: buddy_pair_def coalesced_def)
qed

definition alloc_spec :: "nat \<Rightarrow> buddy \<Rightarrow> block set \<Rightarrow> nat \<Rightarrow> (ptr \<times> buddy) \<Rightarrow> bool" where
  "alloc_spec nr s B k r = (case r of
      (None, s') \<Rightarrow> s' = s \<and> (\<forall>(j, q)\<in>B. j < k)
    | (Some p, s') \<Rightarrow> k < MAX_ORDER \<and> 2 ^ k dvd p \<and> block_pages (k, p) \<subseteq> pages_of B \<and>
        (\<exists>B'. buddy_rep nr s' B' \<and> blocks_ok nr B' \<and> coalesced B' \<and>
           pages_of B' = pages_of B - block_pages (k, p)))"

lemma alloc_found:
  assumes rep: "buddy_rep nr s B" and ok: "blocks_ok nr B" and co: "coalesced B"
    and op: "free_areas s ord = Some p" and ord: "ord < MAX_ORDER" and k: "k \<le> ord"
    and none: "\<And>j. k \<le> j \<Longrightarrow> j < ord \<Longrightarrow> of_order B j = {}"
  obtains s1 s2 where "SplitToLeft nr s (Some p) ord k = Inr s1" and "free_areas s1 k = Some p"
    and "remove_block nr s1 p k = Inr s2" and "alloc_spec nr s B k (Some p, s2)"
proof -
  let ?C = "left_split B p k ord"
  note opB = area_head [OF rep ok ord op]
  obtain s1 where s1: "SplitToLeft nr s (Some p) ord k = Inr s1" "buddy_rep nr s1 ?C"
    "blocks_ok nr ?C" "pages_of ?C = pages_of B" "k = ord \<longrightarrow> s1 = s"
    using SplitToLeft_rep [OF rep ok opB k] by blast
  have kp: "(k, p) \<in> ?C" by (simp add: left_split_def)
  have head: "free_areas s1 k = Some p"
  proof (cases "k = ord")
    case True
    with s1(5) op show ?thesis by simp
  next
    case False
    with k none [of k] have "of_order B k = {}" by simp
    then have "q = p \<or> q = p + 2 ^ k" if "(k, q) \<in> ?C" for q
      using that by (auto simp: left_split_def of_order_def)
    then have "p \<le> q" if "(k, q) \<in> ?C" for q using that by fastforce
    then show ?thesis by (rule area_least [OF s1(2,3) kp])
  qed
  obtain s2 where s2: "remove_block nr s1 p k = Inr s2" "buddy_rep nr s2 (?C - {(k, p)})"
    using remove_block_rep [OF s1(2,3) kp] by metis
  have "block_pages (k, p) \<subseteq> pages_of B" using block_subset_pages [OF kp] s1(4) by simp
  then have "alloc_spec nr s B k (Some p, s2)"
    unfolding alloc_spec_def
    using blocks_okD(1,2) [OF s1(3) kp] pages_of_remove [OF s1(3) kp] s2(2) s1(4) kp
      blocks_ok_mono [OF s1(3), of "?C - {(k, p)}"] coalesced_left_split [OF ok co opB, of k]
    by auto
  with s1(1) head s2(1) that show thesis by metis
qed

lemma alloc_loop_rep:
  assumes rep: "buddy_rep nr s B" and ok: "blocks_ok nr B" and co: "coalesced B" and "k \<le> ord"
    and "\<And>j. k \<le> j \<Longrightarrow> j < ord \<Longrightarrow> of_order B j = {}"
  shows "\<exists>r. alloc_loop nr s k ord = Inr r \<and> alloc_spec nr s B k r"
  using assms(4,5)
proof (induction "Suc maxOrder - ord" arbitrary: ord)
  case 0
  have "\<not> k \<le> j" if "(j, q) \<in> B" for j q
  proof
    assume "k \<le> j"
    with 0 blocks_okD(1) [OF ok that] have "of_order B j = {}" by (simp add: maxOrder_def)
    with that show False by (auto simp: of_order_def)
  qed
  then have "\<forall>(j, q)\<in>B. j < k" by force
  with 0 show ?case by (simp add: alloc_loop.simps alloc_spec_def)
next
  case (Suc d)
  from Suc.hyps(2) have ord: "ord < MAX_ORDER" "\<not> maxOrder < ord"
    by (simp_all add: maxOrder_def MAX_ORDER_def)
  show ?case
  proof (cases "free_areas s ord")
    case None
    with area_empty [OF rep ok ord(1)] have "of_order B ord = {}" by simp
    with Suc.prems have "of_order B j = {}" if "k \<le> j" "j < Suc ord" for j
      using that by (cases "j = ord") auto
    with Suc.hyps Suc.prems(1) None ord(2) show ?thesis
      by (subst alloc_loop.simps) simp
  next
    case (Some p)
    obtain s1 s2 where "SplitToLeft nr s (Some p) ord k = Inr s1" "free_areas s1 k = Some p"
      "remove_block nr s1 p k = Inr s2" "alloc_spec nr s B k (Some p, s2)"
      using alloc_found [OF rep ok co Some ord(1) Suc.prems] by metis
    with Some ord(2) show ?thesis by (subst alloc_loop.simps) simp
  qed
qed

section \<open>Freeing and reserving\<close>

lemma free_pages_rep:
  assumes rep: "buddy_rep nr s B" and ok: "blocks_ok nr B" and co: "coalesced B"
    and k: "k < MAX_ORDER" and dv: "2 ^ k dvd p" and le: "p + 2 ^ k \<le> nr"
    and dj: "block_pages (k, p) \<inter> pages_of B = {}"
  shows "\<exists>s' B'. free_pages nr s p (int k) = Inr s' \<and> buddy_rep nr s' B' \<and> blocks_ok nr B'
    \<and> coalesced B' \<and> pages_of B' = pages_of B \<union> block_pages (k, p)"
proof -
  have pin: "p \<in> block_pages (k, p)" by simp
  have "p \<notin> snd ` B"
  proof
    assume "p \<in> snd ` B"
    then obtain j where "(j, p) \<in> B" by auto
    then have "p \<in> pages_of B" unfolding pages_of_def by (intro UN_I [of "(j, p)"]) simp_all
    with dj pin show False by blast
  qed
  then obtain s1 sl where s1: "insert_block nr s p k = Inr (s1, sl)"
    "buddy_rep nr s1 (insert (k, p) B)"
    using insert_block_rep [OF rep ok k] by metis
  have ok1: "blocks_ok nr (insert (k, p) B)" by (rule blocks_ok_insert [OF ok k dv le dj])
  have "j = k \<and> (n = p \<or> n + 2 ^ k = p)" if "buddy_pair (insert (k, p) B) j n" for j n
    using that co by (auto simp: buddy_pair_def coalesced_def)
  from TryMerge_rep [OF s1(2) ok1 _ this] s1(1) dv show ?thesis
    by (auto simp: free_pages_def)
qed

lemma reserve_scan_spec:
  "chain (next_free s) b xs \<Longrightarrow> sorted_wrt (<) xs \<Longrightarrow> length xs < fuel \<Longrightarrow>
   (\<exists>q\<in>set xs. pg \<in> block_pages (i, q) \<and> reserve_scan fuel s pg i b = Inr (Some q)) \<or>
   ((\<forall>q\<in>set xs. pg \<notin> block_pages (i, q)) \<and> reserve_scan fuel s pg i b = Inr None)"
proof (induction xs arbitrary: b fuel)
  case Nil
  then show ?case by (cases fuel) auto
next
  case (Cons x xs)
  then obtain f where f: "fuel = Suc f" by (cases fuel) auto
  from Cons.prems have b: "b = Some x" and ch: "chain (next_free s) (next_free s x) xs" by auto
  consider "pg < x" | "x \<le> pg" "pg < x + 2 ^ i" | "x + 2 ^ i \<le> pg" by linarith
  then show ?case
  proof cases
    case 1
    with Cons.prems f b show ?thesis by (auto dest: less_trans)
  next
    case 2
    with f b show ?thesis by (simp add: GetSize_def add.commute)
  next
    case 3
    then have "\<not> pg < 2 ^ i + x" "x \<le> pg" by auto
    then have "reserve_scan fuel s pg i b = reserve_scan f s pg i (next_free s x)"
      using f b by (simp add: GetSize_def)
    with Cons.IH [OF ch, of f] Cons.prems f 3 show ?thesis by auto
  qed
qed

lemma reserve_find_spec:
  "chain (next_free s) b xs \<Longrightarrow> length xs < fuel \<Longrightarrow> reserve_find fuel s pg b = Inr (pg \<in> set xs)"
proof (induction xs arbitrary: b fuel)
  case Nil
  then show ?case by (cases fuel) auto
next
  case (Cons x xs)
  then obtain f where "fuel = Suc f" by (cases fuel) auto
  with Cons show ?case by auto
qed

lemma scan_area:
  assumes rep: "buddy_rep nr s B" and ok: "blocks_ok nr B" and i: "i < MAX_ORDER"
  shows "(\<exists>q. (i, q) \<in> B \<and> pg \<in> block_pages (i, q) \<and>
      reserve_scan (nr + 2) s pg i (free_areas s i) = Inr (Some q)) \<or>
    ((\<forall>q. (i, q) \<in> B \<longrightarrow> pg \<notin> block_pages (i, q)) \<and>
      reserve_scan (nr + 2) s pg i (free_areas s i) = Inr None)"
proof -
  note ar = areas_props [OF ok, of i]
  from reserve_scan_spec [OF chain_areas [OF rep i] ar(2,4), of pg i] ar(1)
  show ?thesis by (simp only: mem_of_order Ball_def Bex_def)
qed

text \<open>While \<open>reserve_page\<close> splits, only pairs around the reserved page may be uncoalesced.\<close>

definition coalesced_but :: "block set \<Rightarrow> nat \<Rightarrow> bool" where
  "coalesced_but B pg \<longleftrightarrow>
     (\<forall>k n. buddy_pair B k n \<longrightarrow> pg \<in> block_pages (k, n) \<union> block_pages (k, n + 2 ^ k))"

lemma coalesced_but_split:
  assumes ok: "blocks_ok nr B" and co: "coalesced_but B pg" and b: "(Suc i, b) \<in> B"
    and pg: "pg \<in> block_pages (Suc i, b)"
  shows "coalesced_but (split_set B (Suc i) b) pg"
  unfolding coalesced_but_def
proof (intro allI impI)
  fix k n assume pr: "buddy_pair (split_set B (Suc i) b) k n"
  note al = blocks_okD(2) [OF ok b]
  show "pg \<in> block_pages (k, n) \<union> block_pages (k, n + 2 ^ k)"
  proof (cases "k = i \<and> n = b")
    case True
    with pg split_pages(1) [of "Suc i" b] show ?thesis by (simp del: block_pages_pair)
  next
    case False
    have n: "(k, n) \<noteq> (i, b + 2 ^ i)" "(k, n) \<noteq> (i, b)"
      using pr right_not_aligned [OF al] False by (auto simp: buddy_pair_def)
    have m: "(k, n + 2 ^ k) \<noteq> (i, b)" "(k, n + 2 ^ k) \<noteq> (i, b + 2 ^ i)"
      using pr right_not_aligned [of k n] al False by (auto simp: buddy_pair_def)
    from pr n m have "buddy_pair B k n" by (auto simp: buddy_pair_def split_set_def)
    with co show ?thesis by (simp add: coalesced_but_def)
  qed
qed

lemma reserve_split_rep:
  assumes "buddy_rep nr s B" and "blocks_ok nr B" and "coalesced_but B pg" and "i < MAX_ORDER"
    and "\<And>k q. (k, q) \<in> B \<Longrightarrow> pg \<in> block_pages (k, q) \<Longrightarrow> k \<le> i"
  shows "\<exists>s' B'. reserve_split nr s pg i = Inr s' \<and> buddy_rep nr s' B' \<and> blocks_ok nr B'
    \<and> coalesced_but B' pg \<and> pages_of B' = pages_of B
    \<and> (\<forall>k q. (k, q) \<in> B' \<longrightarrow> pg \<in> block_pages (k, q) \<longrightarrow> k = 0)
    \<and> (pg \<notin> pages_of B \<longrightarrow> s' = s)"
  using assms
proof (induction i arbitrary: s B)
  case 0
  then show ?case by fastforce
next
  case (Suc i)
  note rep = Suc.prems(1) and ok = Suc.prems(2) and co = Suc.prems(3)
  from scan_area [OF rep ok Suc.prems(4), of pg]
  consider (found) b where "(Suc i, b) \<in> B" "pg \<in> block_pages (Suc i, b)"
      "reserve_scan (nr + 2) s pg (Suc i) (free_areas s (Suc i)) = Inr (Some b)"
    | (none) "\<forall>q. (Suc i, q) \<in> B \<longrightarrow> pg \<notin> block_pages (Suc i, q)"
      "reserve_scan (nr + 2) s pg (Suc i) (free_areas s (Suc i)) = Inr None"
    by blast
  then show ?case
  proof cases
    case none
    have le: "k \<le> i" if "(k, q) \<in> B" "pg \<in> block_pages (k, q)" for k q
      using Suc.prems(5) [OF that] none(1) that by (cases "k = Suc i") auto
    from Suc.IH [OF rep ok co _ le] Suc.prems(4) none(2) show ?thesis
      by (simp del: reserve_scan.simps)
  next
    case found
    let ?C = "split_set B (Suc i) b"
    obtain s1 where s1: "split_block nr s (Some b) (Suc i) = Inr (s1, Some b)" "buddy_rep nr s1 ?C"
      using split_block_rep [OF rep ok found(1)] by auto
    note C = split_set_ok [OF ok found(1)]
    have le: "k \<le> i" if "(k, q) \<in> ?C" "pg \<in> block_pages (k, q)" for k q
    proof -
      have "(k, q) \<in> B - {(Suc i, b)} \<Longrightarrow> False"
        using blocks_disjoint [OF ok found(1) _ found(2), of "(k, q)"] that(2) by auto
      with that(1) show ?thesis by (auto simp: split_set_def)
    qed
    have "pg \<in> pages_of B" using block_subset_pages [OF found(1)] found(2) by blast
    with Suc.IH [OF s1(2) C(1) coalesced_but_split [OF ok co found(1,2)] _ le] Suc.prems(4)
      found(3) s1(1) C(2) show ?thesis
      by (simp del: reserve_scan.simps)
  qed
qed

lemma reserve_page_rep:
  assumes rep: "buddy_rep nr s B" and ok: "blocks_ok nr B" and co: "coalesced B"
  shows "\<exists>s' B'. reserve_page nr s pg = Inr (pg \<in> pages_of B, s') \<and> buddy_rep nr s' B'
    \<and> blocks_ok nr B' \<and> coalesced B' \<and> pages_of B' = pages_of B - {pg}
    \<and> (pg \<notin> pages_of B \<longrightarrow> s' = s)"
proof -
  have le: "k \<le> maxOrder" if "(k, q) \<in> B" "pg \<in> block_pages (k, q)" for k q
    using blocks_okD(1) [OF ok that(1)] by (simp add: maxOrder_def)
  have cb: "coalesced_but B pg" using co by (simp add: coalesced_def coalesced_but_def)
  have mo: "maxOrder < MAX_ORDER" "0 < MAX_ORDER" by (simp_all add: maxOrder_def MAX_ORDER_def)
  obtain s1 C where s1: "reserve_split nr s pg maxOrder = Inr s1" "buddy_rep nr s1 C"
    "blocks_ok nr C" "coalesced_but C pg" "pages_of C = pages_of B"
    "\<And>k q. (k, q) \<in> C \<Longrightarrow> pg \<in> block_pages (k, q) \<Longrightarrow> k = 0" "pg \<notin> pages_of B \<longrightarrow> s1 = s"
    using reserve_split_rep [OF rep ok cb mo(1)] le by blast
  have iff: "(0, pg) \<in> C \<longleftrightarrow> pg \<in> pages_of B"
  proof
    assume "pg \<in> pages_of B"
    then obtain k q where kq: "(k, q) \<in> C" "pg \<in> block_pages (k, q)"
      using s1(5) unfolding pages_of_def by fastforce
    with s1(6) [OF kq] show "(0, pg) \<in> C" by simp
  next
    assume "(0, pg) \<in> C"
    then have "pg \<in> pages_of C" unfolding pages_of_def by (intro UN_I [of "(0, pg)"]) simp_all
    with s1(5) show "pg \<in> pages_of B" by simp
  qed
  note ar = areas_props [OF s1(3), of 0]
  have fnd: "reserve_find (nr + 2) s1 pg (free_areas s1 0) = Inr (pg \<in> pages_of B)"
    using reserve_find_spec [OF chain_areas [OF s1(2) mo(2)] ar(4), of pg] ar(1) iff by simp
  have co': "coalesced (C - {(0, pg)})"
    unfolding coalesced_def
  proof (intro allI notI)
    fix k n assume pr: "buddy_pair (C - {(0, pg)}) k n"
    then have "buddy_pair C k n" by (simp add: buddy_pair_def)
    with s1(4) have "pg \<in> block_pages (k, n) \<or> pg \<in> block_pages (k, n + 2 ^ k)"
      unfolding coalesced_but_def by blast
    with pr s1(6) [of k n] s1(6) [of k "n + 2 ^ k"] show False by (auto simp: buddy_pair_def)
  qed
  show ?thesis
  proof (cases "pg \<in> pages_of B")
    case True
    with iff have in0: "(0, pg) \<in> C" by simp
    obtain s2 where s2: "remove_block nr s1 pg 0 = Inr s2" "buddy_rep nr s2 (C - {(0, pg)})"
      using remove_block_rep [OF s1(2,3) in0] by metis
    have "pages_of (C - {(0, pg)}) = pages_of B - {pg}"
      using pages_of_remove [OF s1(3) in0] s1(5) by (simp add: block_pages_def)
    moreover have "blocks_ok nr (C - {(0, pg)})" by (rule blocks_ok_mono [OF s1(3)]) auto
    ultimately show ?thesis
      using s1(1) fnd s2 co' True by (auto simp: reserve_page_def simp del: reserve_find.simps)
  next
    case False
    with iff co' have "coalesced C" by simp
    with False s1 fnd show ?thesis
      by (auto simp: reserve_page_def simp del: reserve_find.simps)
  qed
qed

end
