(* ===== verification/Buddy_Contract.thy ===== *)
theory Buddy_Contract
  imports Buddy_Correct
begin

text \<open>
  The initialisation of the buddy allocator and the contract of its public operations:
  the properties a client of \<open>BuddyPageAllocator\<close> may rely on.
\<close>

section \<open>Initialisation\<close>

definition last_block :: "block set \<Rightarrow> nat \<Rightarrow> ptr" where
  "last_block B k = (if areas B k = [] then None else Some (last (areas B k)))"

definition one_per_order :: "block set \<Rightarrow> bool" where
  "one_per_order B \<longleftrightarrow> (\<forall>j q r. j < maxOrder \<longrightarrow> (j, q) \<in> B \<longrightarrow> (j, r) \<in> B \<longrightarrow> q = r)"

definition prefix_blocks :: "nat \<Rightarrow> nat \<Rightarrow> buddy \<Rightarrow> block set \<Rightarrow> nat \<Rightarrow> nat \<Rightarrow> bool" where
  "prefix_blocks nr k s B page left \<longleftrightarrow> buddy_rep nr s B \<and> blocks_ok nr B \<and>
     pages_of B = {..<page} \<and> page + left = nr \<and> 2 ^ k dvd page \<and>
     (\<forall>(j, q)\<in>B. k \<le> j) \<and> one_per_order B"

lemma chain_snoc:
  assumes "chain nx x (as @ [l])" and "distinct (as @ [l])" and "b \<notin> set (as @ [l])" and "nx b = None"
  shows "chain (nx(l := Some b)) x (as @ [l, b])"
proof -
  have "nx l = None" using chain_append [of nx x as l "[]"] assms(1) by simp
  then have "nx(b := nx l, l := Some b) = nx(l := Some b)" using assms(4) by (auto simp: fun_eq_iff)
  with chain_insert_after [of nx x as l "[]" b] assms show ?thesis by simp
qed

lemma sorted_list_of_set_snoc:
  fixes p :: nat
  assumes "finite A" and "\<And>a. a \<in> A \<Longrightarrow> a < p"
  shows "sorted_list_of_set (insert p A) = sorted_list_of_set A @ [p]"
proof -
  from assms(2) have "{x \<in> insert p A. x < p} = A" "{x \<in> insert p A. p < x} = {}" "p \<notin> A"
    by force+
  with sorted_list_of_set_split [of "insert p A" p] assms(1) show ?thesis by simp
qed

definition link_block :: "nat \<Rightarrow> buddy \<Rightarrow> ptr \<Rightarrow> nat \<Rightarrow> buddy" where
  "link_block k s lastPage page = (case lastPage of
       Some l \<Rightarrow> set_next s l (Some page) | None \<Rightarrow> write_slot s (Area k) (Some page))"

lemma link_block_rep:
  assumes rep: "buddy_rep nr s B" and ok: "blocks_ok nr B" and pg: "pages_of B = {..<page}"
    and le: "page < nr" and k: "k < MAX_ORDER"
  shows "buddy_rep nr (link_block k s (last_block B k) page) (insert (k, page) B)"
    and "last_block (insert (k, page) B) k = Some page"
proof -
  let ?s = "link_block k s (last_block B k) page"
  note ar = areas_props [OF ok, of k]
  have below: "q < page" if "(j, q) \<in> B" for j q
  proof -
    have "q \<in> block_pages (j, q)" by simp
    with block_subset_pages [OF that] pg show ?thesis by blast
  qed
  have arn: "areas (insert (k, page) B) k = areas B k @ [page]"
    using sorted_list_of_set_snoc [OF finite_of_order [OF ok, of k], of page] below
    by (simp add: areas_def)
  then show "last_block (insert (k, page) B) k = Some page" by (simp add: last_block_def)
  have fresh: "page \<notin> snd ` B" using below by fastforce
  with rep le have nul: "next_free s page = None" by (simp add: buddy_rep_def)
  have ch: "chain (next_free ?s) (free_areas ?s k) (areas B k @ [page])"
  proof (cases "areas B k = []")
    case True
    with nul show ?thesis by (simp add: link_block_def last_block_def)
  next
    case False
    then obtain as l where sp: "areas B k = as @ [l]" by (metis append_butlast_last_id)
    have "page \<notin> set (areas B k)" using ar(1) below by fastforce
    with chain_snoc [of "next_free s" "free_areas s k" as l page] chain_areas [OF rep k] nul ar(3) sp
    show ?thesis by (simp add: link_block_def last_block_def)
  qed
  show "buddy_rep nr ?s (insert (k, page) B)"
  proof (rule buddy_rep_update [OF rep ok, where K = "{k}" and T = "insert page (of_order B k)"])
    show "chain (next_free ?s) (free_areas ?s j) (areas (insert (k, page) B) j)" if "j \<in> {k}" for j
      using that ch arn by simp
    show "q \<notin> insert page (of_order B k)" if "j \<notin> {k}" "(j, q) \<in> B" for j q
      using that below [OF that(2)] same_head [OF ok that(2), of k] by auto
    show "next_free ?s q = next_free s q" if "q \<notin> insert page (of_order B k)" for q
    proof (cases "areas B k = []")
      case False
      then have "last (areas B k) \<in> of_order B k" using ar(1) last_in_set by blast
      with that show ?thesis by (auto simp: link_block_def last_block_def)
    qed (simp add: link_block_def last_block_def)
    show "free_areas ?s j = free_areas s j" if "j \<notin> {k}" for j
      using that by (simp add: link_block_def split: option.split)
    show "next_free ?s q = None"
      if "q \<in> insert page (of_order B k)" "q \<notin> snd ` insert (k, page) B" for q
      using that by (force simp: image_iff)
  qed (auto simp: image_iff)
qed

lemma prefix_blocks_step:
  assumes pre: "prefix_blocks nr k s B page left" and k: "k < MAX_ORDER" and le: "2 ^ k \<le> left"
    and one: "k < maxOrder \<Longrightarrow> of_order B k = {}"
  shows "prefix_blocks nr k (link_block k s (last_block B k) page) (insert (k, page) B)
    (page + 2 ^ k) (left - 2 ^ k)"
proof -
  from pre have rep: "buddy_rep nr s B" and ok: "blocks_ok nr B" and pg: "pages_of B = {..<page}"
    and nr: "page + left = nr" and dv: "2 ^ k dvd page" and ge: "\<forall>(j, q)\<in>B. k \<le> j"
    and op: "one_per_order B"
    by (simp_all add: prefix_blocks_def)
  have pos: "0 < (2::nat) ^ k" by simp
  have lt: "page < nr" using pos le nr by linarith
  have le': "page + 2 ^ k \<le> nr" using le nr by linarith
  have "block_pages (k, page) \<inter> pages_of B = {}" unfolding pg by auto
  then have ok1: "blocks_ok nr (insert (k, page) B)" by (rule blocks_ok_insert [OF ok k dv le'])
  have pg1: "pages_of (insert (k, page) B) = {..<page + 2 ^ k}"
    using ivl_disj_un_one(2) [of page "page + 2 ^ k"] by (simp add: pg Un_commute)
  have "one_per_order (insert (k, page) B)"
    using op one by (auto simp: one_per_order_def of_order_def)
  with link_block_rep(1) [OF rep ok pg lt k] ok1 pg1 le nr dv ge show ?thesis
    unfolding prefix_blocks_def by simp
qed

lemma init_inner_rep:
  assumes "prefix_blocks nr k s B page left" and "k < MAX_ORDER"
    and "k < maxOrder \<Longrightarrow> left < 2 ^ Suc k \<and> (of_order B k = {} \<or> left < 2 ^ k)"
  shows "\<exists>s' B' page'. init_inner k (2 ^ k) s (last_block B k) page left
      = Inr (s', last_block B' k, page', left mod 2 ^ k) \<and> prefix_blocks nr k s' B' page' (left mod 2 ^ k)"
  using assms
proof (induction left arbitrary: s B page rule: less_induct)
  case (less left)
  show ?case
  proof (cases "2 ^ k \<le> left")
    case False
    then show ?thesis using less.prems(1)
      by (subst init_inner.simps) (auto simp: mod_less)
  next
    case True
    let ?s = "link_block k s (last_block B k) page" and ?B = "insert (k, page) B"
    have pos: "0 < (2::nat) ^ k" by simp
    have lt: "left - 2 ^ k < left" using True pos by linarith
    have one: "of_order B k = {}" if "k < maxOrder" using less.prems(3) [OF that] True by auto
    note step = prefix_blocks_step [OF less.prems(1,2) True one]
    have rp: "buddy_rep nr s B" "blocks_ok nr B" "pages_of B = {..<page}" and "page + left = nr"
      using less.prems(1) by (simp_all add: prefix_blocks_def)
    then have pn: "page < nr" using True pos by linarith
    have small: "left - 2 ^ k < 2 ^ Suc k \<and> (of_order ?B k = {} \<or> left - 2 ^ k < 2 ^ k)"
      if "k < maxOrder" using less.prems(3) [OF that] True by auto
    have "init_inner k (2 ^ k) s (last_block B k) page left =
        init_inner k (2 ^ k) ?s (last_block ?B k) (page + 2 ^ k) (left - 2 ^ k)"
      using True link_block_rep(2) [OF rp pn less.prems(2)]
      by (subst init_inner.simps) (simp add: link_block_def)
    with less.IH [OF lt step less.prems(2) small] True show ?thesis
      by (simp add: le_mod_geq)
  qed
qed

lemma last_link_null:
  assumes "prefix_blocks nr k s B page left" and "k < MAX_ORDER"
  shows "(case last_block B k of Some l \<Rightarrow> set_next s l None | None \<Rightarrow> s) = s"
proof (cases "areas B k = []")
  case False
  then obtain as l where "areas B k = as @ [l]" by (metis append_butlast_last_id)
  moreover have "chain (next_free s) (free_areas s k) (areas B k)"
    using assms by (simp add: prefix_blocks_def buddy_rep_def)
  ultimately have "next_free s l = None" "last_block B k = Some l"
    using chain_append [of "next_free s" "free_areas s k" as l "[]"] by (simp_all add: last_block_def)
  then show ?thesis by (simp add: set_next_def fun_upd_idem)
qed (simp add: last_block_def)

lemma init_outer_rep:
  assumes "prefix_blocks nr k s B page left" and "k < MAX_ORDER" and "of_order B k = {}"
    and "k < maxOrder \<Longrightarrow> left < 2 ^ Suc k"
  shows "\<exists>s' B'. init_outer k (2 ^ k) s page left = Inr s' \<and> buddy_rep nr s' B' \<and> blocks_ok nr B'
    \<and> pages_of B' = {..<nr} \<and> one_per_order B'"
  using assms
proof (induction k arbitrary: s B page left)
  case 0
  have l0: "last_block B 0 = None"
    using 0 by (simp add: last_block_def areas_def)
  obtain s' B' page' where in0: "init_inner 0 1 s None page left = Inr (s', last_block B' 0, page', 0)"
    "prefix_blocks nr 0 s' B' page' 0"
    using init_inner_rep [OF 0(1,2)] 0(3,4) l0 by auto
  show ?case
  proof (cases "left = 0")
    case True
    with 0(1) show ?thesis by (subst init_outer.simps) (auto simp: prefix_blocks_def)
  next
    case False
    with in0 last_link_null [OF in0(2) 0(2)] show ?thesis
      by (subst init_outer.simps) (auto simp: prefix_blocks_def Let_def)
  qed
next
  case (Suc k)
  have l0: "last_block B (Suc k) = None"
    using Suc.prems(3) by (simp add: last_block_def areas_def)
  obtain s' B' page' where inn: "init_inner (Suc k) (2 ^ Suc k) s None page left
      = Inr (s', last_block B' (Suc k), page', left mod 2 ^ Suc k)"
    "prefix_blocks nr (Suc k) s' B' page' (left mod 2 ^ Suc k)"
    using init_inner_rep [OF Suc.prems(1,2)] Suc.prems(3,4) l0 by auto
  have nxt: "prefix_blocks nr k s' B' page' (left mod 2 ^ Suc k)"
    using inn(2) power_le_dvd [of "2::nat" "Suc k" page' k]
    by (auto simp: prefix_blocks_def Suc_le_eq dest: less_imp_le)
  have emp: "of_order B' k = {}" using inn(2) by (fastforce simp: prefix_blocks_def)
  have lt: "left mod 2 ^ Suc k < 2 ^ Suc k" by (rule mod_less_divisor) simp
  show ?case
  proof (cases "left = 0")
    case True
    with Suc.prems(1) show ?thesis by (subst init_outer.simps) (auto simp: prefix_blocks_def)
  next
    case False
    have "init_outer (Suc k) (2 ^ Suc k) s page left = init_outer k (2 ^ k) s' page' (left mod 2 ^ Suc k)"
      using False inn(1) last_link_null [OF inn(2) Suc.prems(2)]
      by (subst init_outer.simps) (simp add: Let_def)
    with Suc.IH [OF nxt _ emp lt] Suc.prems(2) show ?thesis by simp
  qed
qed

lemma init_rep:
  assumes "\<And>p. p < nr \<Longrightarrow> mem p = None"
  shows "\<exists>s. init (BuddyPageAllocator mem) nr = Inr s \<and> buddy_inv nr s \<and> free_set nr s = {..<nr}"
proof -
  have pre: "prefix_blocks nr maxOrder (BuddyPageAllocator mem) {} 0 nr"
    using assms by (auto simp: prefix_blocks_def buddy_rep_def blocks_ok_def pages_of_def
        one_per_order_def BuddyPageAllocator_def areas_def of_order_def)
  obtain s B where s: "init (BuddyPageAllocator mem) nr = Inr s" "buddy_rep nr s B"
    "blocks_ok nr B" "pages_of B = {..<nr}" "one_per_order B"
    using init_outer_rep [OF pre] by (auto simp: init_def GetSize_def maxOrder_def MAX_ORDER_def of_order_def)
  have "coalesced B"
    using s(5) unfolding coalesced_def buddy_pair_def one_per_order_def
    by (metis add_cancel_right_right power_not_zero zero_neq_numeral)
  with buddy_invI [OF s(2,3)] s show ?thesis by auto
qed

section \<open>The free lists are the coarsest decomposition of the free pages\<close>

lemma aligned_inside:
  fixes p q :: nat
  assumes "2 ^ j dvd q" and "2 ^ k dvd p" and "k \<le> j" and "q \<le> p" and "p < q + 2 ^ j"
  shows "p + 2 ^ k \<le> q + 2 ^ j"
proof -
  have "2 ^ k dvd q + 2 ^ j" using assms(1,3) power_le_dvd [of "2::nat" j q k]
    by (simp add: le_imp_power_dvd)
  then obtain a b where ab: "q + 2 ^ j = 2 ^ k * a" "p = 2 ^ k * b"
    using assms(2) by (auto elim!: dvdE)
  with assms(5) have "Suc b \<le> a" by (simp add: Suc_le_eq)
  then have "2 ^ k * Suc b \<le> 2 ^ k * a" by (rule mult_le_mono2)
  with ab show ?thesis by simp
qed

lemma block_contains_aligned:
  assumes "2 ^ j dvd q" and "2 ^ k dvd p" and "k \<le> j" and "x \<in> block_pages (j, q)"
    and "x \<in> block_pages (k, p)"
  shows "block_pages (k, p) \<subseteq> block_pages (j, q)"
proof -
  have "q \<le> p"
  proof (rule ccontr)
    assume "\<not> q \<le> p"
    with assms(4,5) aligned_inside [of k p k q] power_le_dvd [OF assms(1,3)] assms(2)
    show False by auto
  qed
  with assms aligned_inside [of j q k p] show ?thesis by auto
qed

lemma small_block_too_small:
  assumes "block_pages (k, p) \<subseteq> block_pages (j, q)"
  shows "k \<le> j"
proof -
  have "card (block_pages (k, p)) \<le> card (block_pages (j, q))"
    by (rule card_mono [OF _ assms]) simp
  then show ?thesis by simp
qed

lemma aligned_run_in_block:
  assumes ok: "blocks_ok nr B" and co: "coalesced B" and "k < MAX_ORDER" and "2 ^ k dvd p"
    and "block_pages (k, p) \<subseteq> pages_of B"
  shows "\<exists>j q. (j, q) \<in> B \<and> block_pages (k, p) \<subseteq> block_pages (j, q)"
  using assms(3-5)
proof (induction k arbitrary: p)
  case 0
  then have "p \<in> pages_of B" by simp
  then obtain j q where "(j, q) \<in> B" "p \<in> block_pages (j, q)" unfolding pages_of_def by fastforce
  then show ?case by force
next
  case (Suc k)
  let ?m = "p + 2 ^ k"
  have two: "block_pages (Suc k, p) = block_pages (k, p) \<union> block_pages (k, ?m)"
    using split_pages(1) [of "Suc k" p] by simp
  have dv: "2 ^ k dvd p" "2 ^ k dvd ?m" using Suc.prems(2) power_le_dvd [of "2::nat" "Suc k" p k] by auto
  obtain j q where jq: "(j, q) \<in> B" "block_pages (k, p) \<subseteq> block_pages (j, q)"
    using Suc.IH [OF _ dv(1)] Suc.prems two by auto
  obtain i r where ir: "(i, r) \<in> B" "block_pages (k, ?m) \<subseteq> block_pages (i, r)"
    using Suc.IH [OF _ dv(2)] Suc.prems two by auto
  note bj = blocks_okD [OF ok jq(1)] and bi = blocks_okD [OF ok ir(1)]
  have in1: "p \<in> block_pages (k, p)" "p \<in> block_pages (Suc k, p)" by simp_all
  have in2: "?m \<in> block_pages (k, ?m)" "?m \<in> block_pages (Suc k, p)" by simp_all
  consider "Suc k \<le> j" | "Suc k \<le> i" | "j = k" "i = k"
    using small_block_too_small [OF jq(2)] small_block_too_small [OF ir(2)] by linarith
  then show ?case
  proof cases
    case 1
    with block_contains_aligned [OF bj(2) Suc.prems(2) 1] jq in1 show ?thesis by blast
  next
    case 2
    with block_contains_aligned [OF bi(2) Suc.prems(2) 2] ir in2 show ?thesis by blast
  next
    case 3
    have "block_pages (k, q) \<subseteq> block_pages (k, p)" "block_pages (k, r) \<subseteq> block_pages (k, ?m)"
      using block_contains_aligned [OF dv(1), of k q p] block_contains_aligned [OF dv(2), of k r ?m]
        3 bj(2) bi(2) jq(2) ir(2) in1 in2 by blast+
    with jq(2) ir(2) 3 have "q = p" "r = ?m" by auto
    with jq(1) ir(1) 3 Suc.prems co show ?thesis
      by (auto simp: coalesced_def buddy_pair_def maxOrder_def)
  qed
qed

lemma decomposition_unique:
  assumes ok: "blocks_ok nr B" "blocks_ok nr C" and co: "coalesced B" "coalesced C"
    and eq: "pages_of B = pages_of C"
  shows "B \<subseteq> C"
proof
  fix b assume "b \<in> B"
  moreover obtain k p where b: "b = (k, p)" by (cases b)
  ultimately have kp: "(k, p) \<in> B" by simp
  note bk = blocks_okD [OF ok(1) kp]
  obtain j q where jq: "(j, q) \<in> C" "block_pages (k, p) \<subseteq> block_pages (j, q)"
    using aligned_run_in_block [OF ok(2) co(2) bk(1,2)] block_subset_pages [OF kp] eq by auto
  note bj = blocks_okD [OF ok(2) jq(1)]
  obtain i r where ir: "(i, r) \<in> B" "block_pages (j, q) \<subseteq> block_pages (i, r)"
    using aligned_run_in_block [OF ok(1) co(1) bj(1,2)] block_subset_pages [OF jq(1)] eq by auto
  have "p \<in> block_pages (k, p)" by simp
  with blocks_disjoint [OF ok(1) kp ir(1), of p] jq(2) ir(2) have "(i, r) = (k, p)" by blast
  with jq(2) ir(2) have same: "block_pages (j, q) = block_pages (k, p)" by blast
  then have "j = k" using small_block_too_small [of j q k p] small_block_too_small [of k p j q] by simp
  with same have "q = p" using atLeastLessThan_inj(1) [of q "q + 2 ^ k" p "p + 2 ^ k"] by simp
  with \<open>j = k\<close> jq(1) b show "b \<in> C" by simp
qed

lemma alloc_pages_rep:
  assumes inv: "buddy_inv nr s"
  shows "\<exists>r s'. alloc_pages nr s (int k) = Inr (r, s') \<and> buddy_inv nr s' \<and>
    (case r of
       None \<Rightarrow> s' = s \<and> (\<forall>(j, q)\<in>free_blocks nr s. j < k)
     | Some p \<Rightarrow> k < MAX_ORDER \<and> 2 ^ k dvd p \<and> block_pages (k, p) \<subseteq> free_set nr s \<and>
         free_set nr s' = free_set nr s - block_pages (k, p))"
proof -
  obtain B where B: "buddy_rep nr s B" "blocks_ok nr B" "coalesced B" "free_blocks nr s = B"
    "free_set nr s = pages_of B"
    using buddy_invE [OF inv] by metis
  obtain r s' where r: "alloc_loop nr s k k = Inr (r, s')" "alloc_spec nr s B k (r, s')"
    using alloc_loop_rep [OF B(1-3), of k k] by auto
  show ?thesis
  proof (cases r)
    case None
    with r B inv show ?thesis by (auto simp: alloc_pages_def alloc_spec_def)
  next
    case (Some p)
    with r B(5) buddy_invI show ?thesis
      by (fastforce simp: alloc_pages_def alloc_spec_def simp del: block_pages_pair)
  qed
qed

lemma free_pages_inv:
  assumes inv: "buddy_inv nr s" and "k < MAX_ORDER" and "2 ^ k dvd p" and "p + 2 ^ k \<le> nr"
    and "block_pages (k, p) \<inter> free_set nr s = {}"
  shows "\<exists>s'. free_pages nr s p (int k) = Inr s' \<and> buddy_inv nr s' \<and>
    free_set nr s' = free_set nr s \<union> block_pages (k, p)"
proof -
  obtain B where B: "buddy_rep nr s B" "blocks_ok nr B" "coalesced B" "free_set nr s = pages_of B"
    using buddy_invE [OF inv] by metis
  have "block_pages (k, p) \<inter> pages_of B = {}" using assms(5) B(4) by simp
  with free_pages_rep [OF B(1-3) assms(2-4)] obtain s' B' where
    "free_pages nr s p (int k) = Inr s'" "buddy_rep nr s' B'" "blocks_ok nr B'" "coalesced B'"
    "pages_of B' = pages_of B \<union> block_pages (k, p)" by blast
  with B(4) buddy_invI [of nr s' B'] show ?thesis by auto
qed

lemma reserve_page_inv:
  assumes inv: "buddy_inv nr s"
  shows "\<exists>s'. reserve_page nr s pg = Inr (pg \<in> free_set nr s, s') \<and> buddy_inv nr s' \<and>
    free_set nr s' = free_set nr s - {pg} \<and> (pg \<notin> free_set nr s \<longrightarrow> s' = s)"
proof -
  obtain B where B: "buddy_rep nr s B" "blocks_ok nr B" "coalesced B" "free_set nr s = pages_of B"
    using buddy_invE [OF inv] by metis
  from reserve_page_rep [OF B(1-3), of pg] obtain s' B' where
    "reserve_page nr s pg = Inr (pg \<in> pages_of B, s')" "buddy_rep nr s' B'" "blocks_ok nr B'"
    "coalesced B'" "pages_of B' = pages_of B - {pg}" "pg \<notin> pages_of B \<longrightarrow> s' = s" by blast
  with B(4) buddy_invI [of nr s' B'] show ?thesis by auto
qed

lemma same_pages_same_lists:
  assumes "buddy_inv nr s" and "buddy_inv nr t" and "free_set nr s = free_set nr t"
  shows "dump_state nr s = dump_state nr t"
proof -
  obtain B where B: "buddy_rep nr s B" "blocks_ok nr B" "coalesced B" "free_set nr s = pages_of B"
    using buddy_invE [OF assms(1)] by metis
  obtain C where C: "buddy_rep nr t C" "blocks_ok nr C" "coalesced C" "free_set nr t = pages_of C"
    using buddy_invE [OF assms(2)] by metis
  have pg: "pages_of B = pages_of C" using B(4) C(4) assms(3) by simp
  have "B = C"
    using decomposition_unique [OF B(2) C(2) B(3) C(3) pg]
      decomposition_unique [OF C(2) B(2) C(3) B(3) pg [symmetric]] by blast
  moreover have "dump_area (nr + 2) (next_free u) (free_areas u k) = areas D k"
    if "buddy_rep nr u D" "blocks_ok nr D" "k < MAX_ORDER" for u D k
    by (rule dump_area_chain [OF chain_areas [OF that(1,3)] areas_props(4) [OF that(2)]])
  ultimately show ?thesis
    using B(1,2) C(1,2) by (simp add: dump_state_def)
qed

lemma init_zeroed:
  "\<exists>s. init (BuddyPageAllocator (\<lambda>_. None)) nr = Inr s \<and> buddy_inv nr s \<and> free_set nr s = {..<nr}"
  using init_rep [of nr "\<lambda>_. None"] by simp

lemma buddy_alloc_complete:
  assumes "buddy_inv nr s" and "k < MAX_ORDER" and "2 ^ k dvd p"
    and "{p ..< p + 2 ^ k} \<subseteq> free_set nr s"
  shows "\<exists>q s'. alloc_pages nr s (int k) = Inr (Some q, s')"
proof -
  obtain B where B: "blocks_ok nr B" "coalesced B" "free_blocks nr s = B" "free_set nr s = pages_of B"
    using buddy_invE [OF assms(1)] by metis
  have "block_pages (k, p) \<subseteq> pages_of B" using assms(4) B(4) by simp
  then obtain j q where jq: "(j, q) \<in> B" "block_pages (k, p) \<subseteq> block_pages (j, q)"
    using aligned_run_in_block [OF B(1,2) assms(2), of p] assms(3) by blast
  with small_block_too_small [OF jq(2)] have "\<not> (\<forall>(j, q)\<in>B. j < k)" by fastforce
  with alloc_pages_rep [OF assms(1), of k] B(3) show ?thesis
    by (auto split: option.splits)
qed

lemma range_bound:
  fixes p :: nat
  assumes "{p ..< p + 2 ^ k} \<subseteq> F" and "F \<subseteq> {..<nr}"
  shows "p + 2 ^ k \<le> nr"
proof -
  have "p + 2 ^ k - 1 \<in> {p ..< p + 2 ^ k}"
    unfolding atLeastLessThan_iff using zero_less_power [of "2::nat" k] by linarith
  then have "p + 2 ^ k - 1 < nr" using assms by blast
  then show ?thesis by linarith
qed

section \<open>Properties\<close>

text \<open>
  C1 (\<open>buddy.cpp\<close>, \<open>alloc_pages\<close>). From a state that satisfies the allocator's invariant,
  \<open>alloc_pages\<close> never asserts, never follows a null pointer and returns. When it returns a
  block, the block is aligned to its size, consisted of free pages only, and exactly its
  pages have left the free set; when it returns null the state is unchanged. The
  invariant holds afterwards in both cases.
\<close>
theorem buddy_alloc_pages_correct:
  assumes "buddy_inv nr s"
  shows "\<exists>r s'. alloc_pages nr s order = Inr (r, s') \<and> buddy_inv nr s' \<and>
    (case r of
       None \<Rightarrow> s' = s
     | Some p \<Rightarrow> 0 \<le> order \<and> nat order < MAX_ORDER \<and>
         is_correct_alignment_for_order p (nat order) \<and>
         {p ..< p + pages_per_block (nat order)} \<subseteq> free_set nr s \<and>
         free_set nr s' = free_set nr s - {p ..< p + pages_per_block (nat order)})"
proof (cases "order < 0")
  case True
  with assms show ?thesis by (simp add: alloc_pages_def)
next
  case False
  then obtain k where "order = int k" by (metis nonneg_int_cases not_less)
  with alloc_pages_rep [OF assms, of k] show ?thesis
    by (fastforce simp: pages_per_block_def split: option.splits)
qed

theorem buddy_alloc_pages_correct_witness:
  "\<exists>s r s'. init (BuddyPageAllocator (\<lambda>_. None)) 11 = Inr s \<and> alloc_pages 11 s 1 = Inr (r, s')
     \<and> buddy_inv 11 s'"
proof -
  obtain s where s: "init (BuddyPageAllocator (\<lambda>_. None)) 11 = Inr s" "buddy_inv 11 s"
    using init_zeroed [of 11] by blast
  with buddy_alloc_pages_correct [OF s(2), of 1] show ?thesis by blast
qed

text \<open>
  C2 (\<open>buddy.cpp\<close>, \<open>alloc_pages\<close>). Allocation is complete: it returns null only when no
  aligned run of \<open>2 ^ order\<close> free pages exists at all, not merely when the free lists of
  that order and above happen to be empty. This rests on the free lists being coalesced.
\<close>
theorem buddy_alloc_pages_complete:
  assumes "buddy_inv nr s" and "k < MAX_ORDER" and "is_correct_alignment_for_order p k"
    and "{p ..< p + pages_per_block k} \<subseteq> free_set nr s"
  shows "\<exists>q s'. alloc_pages nr s (int k) = Inr (Some q, s')"
  using buddy_alloc_complete [OF assms(1,2), of p] assms(3,4) by (simp add: pages_per_block_def)

theorem buddy_alloc_pages_complete_witness:
  "\<exists>s q s'. init (BuddyPageAllocator (\<lambda>_. None)) 11 = Inr s \<and> alloc_pages 11 s (int 3) = Inr (Some q, s')"
proof -
  obtain s where s: "init (BuddyPageAllocator (\<lambda>_. None)) 11 = Inr s" "buddy_inv 11 s"
    "free_set 11 s = {..<11}"
    using init_zeroed [of 11] by blast
  have "{0 ..< 0 + pages_per_block 3} \<subseteq> free_set 11 s"
    unfolding s(3) pages_per_block_def by fastforce
  moreover have "3 < MAX_ORDER" "is_correct_alignment_for_order 0 3" by (simp_all add: MAX_ORDER_def)
  ultimately show ?thesis using buddy_alloc_pages_complete [OF s(2), of 3 0] s(1) by blast
qed

text \<open>
  C3 (\<open>buddy.cpp\<close>, \<open>free_pages\<close>, \<open>TryMerge\<close>). Freeing an aligned block inside the managed
  range whose pages are not already free returns without a fault, adds exactly its pages
  to the free set and keeps the invariant; in particular all merging that the new block
  makes possible, at every order, has been done.
\<close>
theorem buddy_free_pages_correct:
  assumes "buddy_inv nr s" and "k < MAX_ORDER" and "is_correct_alignment_for_order p k"
    and "p + pages_per_block k \<le> nr" and "{p ..< p + pages_per_block k} \<inter> free_set nr s = {}"
  shows "\<exists>s'. free_pages nr s p (int k) = Inr s' \<and> buddy_inv nr s' \<and> coalesced (free_blocks nr s') \<and>
    free_set nr s' = free_set nr s \<union> {p ..< p + pages_per_block k}"
proof -
  have "2 ^ k dvd p" "p + 2 ^ k \<le> nr" "block_pages (k, p) \<inter> free_set nr s = {}"
    using assms(3-5) by (simp_all add: pages_per_block_def)
  from free_pages_inv [OF assms(1,2) this] obtain s' where
    "free_pages nr s p (int k) = Inr s'" "buddy_inv nr s'"
    "free_set nr s' = free_set nr s \<union> block_pages (k, p)"
    by blast
  then show ?thesis by (simp add: buddy_inv_def pages_per_block_def)
qed

theorem buddy_free_pages_correct_witness:
  "\<exists>s s' s''. init (BuddyPageAllocator (\<lambda>_. None)) 11 = Inr s \<and> reserve_page 11 s 5 = Inr (True, s')
     \<and> free_pages 11 s' 5 (int 0) = Inr s'' \<and> free_set 11 s'' = {..<11}"
proof -
  obtain s where s: "init (BuddyPageAllocator (\<lambda>_. None)) 11 = Inr s" "buddy_inv 11 s"
    "free_set 11 s = {..<11}"
    using init_zeroed [of 11] by blast
  obtain s' where s': "reserve_page 11 s 5 = Inr (True, s')" "buddy_inv 11 s'"
    "free_set 11 s' = {..<11} - {5}"
    using reserve_page_inv [OF s(2), of 5] s(3) by auto
  have "{5 ..< 5 + pages_per_block 0} \<inter> free_set 11 s' = {}"
    unfolding s'(3) pages_per_block_def by fastforce
  moreover have "0 < MAX_ORDER" "is_correct_alignment_for_order 5 0" "5 + pages_per_block 0 \<le> 11"
    by (simp_all add: MAX_ORDER_def pages_per_block_def)
  ultimately obtain s'' where s'': "free_pages 11 s' 5 (int 0) = Inr s''"
    "free_set 11 s'' = free_set 11 s' \<union> {5 ..< 5 + pages_per_block 0}"
    using buddy_free_pages_correct [OF s'(2)] by blast
  then have "free_set 11 s'' = {..<11}" unfolding s'(3) pages_per_block_def by fastforce
  with s s' s'' show ?thesis by blast
qed

text \<open>
  C4 (\<open>buddy.cpp\<close>, \<open>alloc_pages\<close> and \<open>free_pages\<close>). Freeing a block right after its
  allocation restores the free lists: every list, printed by \<open>dump_state\<close>, holds the same
  blocks in the same order as before the allocation.
\<close>
theorem buddy_alloc_free_roundtrip:
  assumes "buddy_inv nr s" and "alloc_pages nr s (int k) = Inr (Some p, s')"
  shows "\<exists>s''. free_pages nr s' p (int k) = Inr s'' \<and> dump_state nr s'' = dump_state nr s"
proof -
  from alloc_pages_rep [OF assms(1), of k] assms(2)
  have s': "buddy_inv nr s'" "k < MAX_ORDER" "2 ^ k dvd p" "block_pages (k, p) \<subseteq> free_set nr s"
    "free_set nr s' = free_set nr s - block_pages (k, p)"
    by (simp_all del: block_pages_pair)
  have "free_set nr s \<subseteq> {..<nr}"
    using assms(1) pages_of_bound by (metis buddy_inv_def free_set_def)
  then have le: "p + 2 ^ k \<le> nr" using range_bound [of p k "free_set nr s" nr] s'(4) by simp
  have dj: "block_pages (k, p) \<inter> free_set nr s' = {}" using s'(5) by blast
  from free_pages_inv [OF s'(1-3) le dj] s'(5) obtain s'' where s'':
    "free_pages nr s' p (int k) = Inr s''" "buddy_inv nr s''"
    "free_set nr s'' = free_set nr s - block_pages (k, p) \<union> block_pages (k, p)"
    by metis
  then have "free_set nr s'' = free_set nr s" using s'(4) by blast
  with same_pages_same_lists [OF s''(2) assms(1)] s''(1) show ?thesis by blast
qed

theorem buddy_alloc_free_roundtrip_witness:
  "\<exists>s p s' s''. init (BuddyPageAllocator (\<lambda>_. None)) 4 = Inr s \<and> alloc_pages 4 s (int 0) = Inr (Some p, s')
     \<and> free_pages 4 s' p (int 0) = Inr s'' \<and> dump_state 4 s'' = dump_state 4 s"
proof -
  obtain s where s: "init (BuddyPageAllocator (\<lambda>_. None)) 4 = Inr s" "buddy_inv 4 s"
    "free_set 4 s = {..<4}"
    using init_zeroed [of 4] by blast
  obtain B where B: "blocks_ok 4 B" "free_blocks 4 s = B" "free_set 4 s = pages_of B"
    using buddy_invE [OF s(2)] by metis
  have "0 \<in> pages_of B" using B(3) s(3) by (metis lessThan_iff zero_less_numeral)
  then have "B \<noteq> {}" by (auto simp: pages_of_def)
  with alloc_pages_rep [OF s(2), of 0] B(2) obtain p s' where "alloc_pages 4 s (int 0) = Inr (Some p, s')"
    by (auto split: option.splits)
  with buddy_alloc_free_roundtrip [OF s(2) this] s(1) show ?thesis by blast
qed

text \<open>
  C5 (\<open>buddy.cpp\<close>, \<open>reserve_page\<close>). Reserving a page returns true exactly when the page was
  free, removes exactly that page from the free set, leaves the allocator untouched
  otherwise, and keeps the invariant: the splits it makes on the way leave no buddy pair.
\<close>
theorem buddy_reserve_page_correct:
  assumes "buddy_inv nr s"
  shows "\<exists>s'. reserve_page nr s pgd = Inr (pgd \<in> free_set nr s, s') \<and> buddy_inv nr s' \<and>
    free_set nr s' = free_set nr s - {pgd} \<and> (pgd \<notin> free_set nr s \<longrightarrow> s' = s)"
  using reserve_page_inv [OF assms] .

theorem buddy_reserve_page_correct_witness:
  "\<exists>s s'. init (BuddyPageAllocator (\<lambda>_. None)) 11 = Inr s \<and> reserve_page 11 s 5 = Inr (True, s')
     \<and> free_set 11 s' = {..<11} - {5}"
proof -
  obtain s where s: "init (BuddyPageAllocator (\<lambda>_. None)) 11 = Inr s" "buddy_inv 11 s"
    "free_set 11 s = {..<11}"
    using init_zeroed [of 11] by blast
  with buddy_reserve_page_correct [OF s(2), of 5] show ?thesis by auto
qed

text \<open>
  C6 (\<open>buddy.cpp\<close>, constructor and \<open>init\<close>). On zeroed page descriptors, \<open>init\<close> returns for
  every number of pages, establishes the invariant, and makes every page free.
\<close>
theorem buddy_init_correct:
  assumes "\<forall>p < nr. mem p = None"
  shows "\<exists>s. init (BuddyPageAllocator mem) nr = Inr s \<and> buddy_inv nr s \<and> free_set nr s = {..<nr}"
  using init_rep [of nr mem] assms by blast

theorem buddy_init_correct_witness:
  "\<exists>s. init (BuddyPageAllocator (\<lambda>_. None)) 11 = Inr s \<and> buddy_inv 11 s \<and> free_set 11 s = {..<11}"
  using buddy_init_correct [of 11 "\<lambda>_. None"] by simp

text \<open>
  (\<open>buddy.cpp\<close>, \<open>buddy_of\<close>; \<open>page-allocator.h\<close>, \<open>pfn_to_pgd\<close>). The bound check of
  \<open>pfn_to_pgd\<close> admits the number of pages itself: for the last block of the managed
  range, when it is a left half, \<open>buddy_of\<close> returns the descriptor one past the end of the
  array, and \<open>TryMerge\<close> reads its \<open>next_free\<close>.
\<close>
theorem buddy_of_past_end:
  assumes "k < MAX_ORDER" and "is_correct_alignment_for_order p (Suc k)" and "p + pages_per_block k = nr"
  shows "buddy_of nr p k = Some nr"
  using buddy_of_right [of k p nr] assms by (simp add: pages_per_block_def)

theorem buddy_of_past_end_witness: "buddy_of 11 10 0 = Some 11"
  using buddy_of_past_end [of 0 10 11] by (simp add: MAX_ORDER_def pages_per_block_def)

end
