(* ===== verification/Page_Alloc_Correct.thy ===== *)
theory Page_Alloc_Correct
  imports Page_Alloc Buddy_Contract
begin

text \<open>
  Correctness of the page allocator. The locale \<open>page_algorithm\<close> states what \<open>PageAllocator\<close>
  relies on in a \<open>PageAllocatorAlgorithm\<close>: its free pages are the ones whose descriptor is
  \<open>AVAILABLE\<close>. The client's lemmas are proved once from these laws; the buddy allocator and the
  simple allocator are its two interpretations. \<open>pa_step\<close> is the step relation of a kernel that
  allocates and frees pages.
\<close>

section \<open>Ranges of descriptors\<close>

definition avail :: "PageDescriptorType list \<Rightarrow> nat set" where
  "avail ts = {p. p < length ts \<and> ts ! p = AVAILABLE}"

definition typed :: "PageDescriptorType list \<Rightarrow> PageDescriptorType \<Rightarrow> nat \<Rightarrow> nat \<Rightarrow> bool" where
  "typed ts t p n \<longleftrightarrow> (\<forall>i \<in> {p ..< p + n}. i < length ts \<and> ts ! i = t)"

definition mark :: "PageDescriptorType \<Rightarrow> nat \<Rightarrow> nat \<Rightarrow> PageDescriptorType list \<Rightarrow> PageDescriptorType list" where
  "mark t p n ts = map (\<lambda>i. if i \<in> {p ..< p + n} then t else ts ! i) [0..<length ts]"

lemma length_mark [simp]: "length (mark t p n ts) = length ts"
  by (simp add: mark_def)

lemma nth_mark [simp]: "i < length ts \<Longrightarrow> mark t p n ts ! i = (if i \<in> {p ..< p + n} then t else ts ! i)"
  by (simp add: mark_def)

lemma mark_0 [simp]: "mark t p 0 ts = ts"
  by (rule nth_equalityI) auto

lemma mark_Suc: "mark t (Suc p) n (ts[p := t]) = mark t p (Suc n) ts"
  by (rule nth_equalityI) (auto simp: nth_list_update)

lemma typed_Suc: "typed ts t p (Suc n) \<longleftrightarrow> p < length ts \<and> ts ! p = t \<and> typed ts t (Suc p) n"
proof -
  have "{p ..< p + Suc n} = insert p {Suc p ..< Suc p + n}" by auto
  then show ?thesis by (simp add: typed_def)
qed

lemma typed_update: "p < i \<Longrightarrow> typed (ts[p := t']) t i n \<longleftrightarrow> typed ts t i n"
  by (auto simp: typed_def)

lemma retype_typed: "typed ts old p n \<Longrightarrow> retype old new p n ts = Inr (mark new p n ts)"
  by (induction n arbitrary: p ts) (auto simp: typed_Suc typed_update mark_Suc)

lemma all_typed_iff: "all_typed ts t p n = Inr () \<longleftrightarrow> typed ts t p n"
  by (induction n arbitrary: p) (auto simp: typed_Suc andthen_eq_Inr, simp add: typed_def)

lemma mark_loop_eq: "p + n \<le> length ts \<Longrightarrow> mark_loop t p n ts = Inr (mark t p n ts)"
  by (induction n arbitrary: p ts) (auto simp: mark_Suc)

lemma mark_loop_length: "mark_loop t p n ts = Inr ts' \<Longrightarrow> length ts' = length ts"
  by (induction n arbitrary: p ts) (auto simp: andthen_eq_Inr)

lemma avail_mark_ALLOCATED: "avail (mark ALLOCATED p n ts) = avail ts - {p ..< p + n}"
  by (auto simp: avail_def split: if_splits)

lemma avail_mark_AVAILABLE:
  "p + n \<le> length ts \<Longrightarrow> avail (mark AVAILABLE p n ts) = avail ts \<union> {p ..< p + n}"
  by (auto simp: avail_def split: if_splits)

lemma typed_avail: "typed ts AVAILABLE p n \<longleftrightarrow> {p ..< p + n} \<subseteq> avail ts"
  by (auto simp: typed_def avail_def)

lemma typed_bound: "typed ts t p n \<Longrightarrow> 0 < n \<Longrightarrow> p + n \<le> length ts"
  unfolding typed_def by (drule bspec [of _ _ "p + n - 1"]) auto

lemma reserve_loop_types: "reserve_loop A pa l = Inr (b, pa') \<Longrightarrow> types pa' = types pa"
  by (induction A pa l rule: reserve_loop.induct) (auto simp: andthen_eq_Inr split: if_splits)

section \<open>What an algorithm promises\<close>

locale page_algorithm =
  fixes A :: "'a PageAllocatorAlgorithm"
    and cinv :: "PageDescriptorType list \<Rightarrow> 'a \<Rightarrow> bool"
    and rinv :: "PageDescriptorType list \<Rightarrow> nat \<Rightarrow> 'a \<Rightarrow> bool"
    and fits :: "PageDescriptorType list \<Rightarrow> bool"
    and shape :: "nat \<Rightarrow> nat \<Rightarrow> bool"
    and start :: 'a
  assumes init_law: "fits ts \<Longrightarrow>
      \<exists>s. alg_init A ts (alg_bzero A start) (length ts) = Inr (True, s) \<and> rinv ts 0 s"
    and reserve_law: "rinv ts i s \<Longrightarrow> i < length ts \<Longrightarrow> ts ! i \<noteq> AVAILABLE \<Longrightarrow>
      \<exists>s'. alg_reserve_page A ts s i = Inr (True, s') \<and> rinv ts (Suc i) s'"
    and skip_law: "rinv ts i s \<Longrightarrow> i < length ts \<Longrightarrow> ts ! i = AVAILABLE \<Longrightarrow> rinv ts (Suc i) s"
    and ready_law: "rinv ts (length ts) s \<Longrightarrow> cinv ts s"
    and shape_law: "shape p k \<Longrightarrow> k < 31"
    and alloc_law: "cinv ts s \<Longrightarrow> k < 31 \<Longrightarrow>
      \<exists>r s'. alg_alloc_pages A ts s (int k) = Inr (r, s') \<and>
        (case r of None \<Rightarrow> cinv ts s'
         | Some p \<Rightarrow> shape p k \<and> typed ts AVAILABLE p (2 ^ k) \<and> cinv (mark ALLOCATED p (2 ^ k) ts) s')"
    and free_law: "cinv ts s \<Longrightarrow> shape p k \<Longrightarrow> typed ts ALLOCATED p (2 ^ k) \<Longrightarrow>
      \<exists>s'. alg_free_pages A ts s p (int k) = Inr s' \<and> cinv (mark AVAILABLE p (2 ^ k) ts) s'"
begin

lemma alloc_pages_cases:
  assumes "cinv (types pa) (alg pa)" and "k < 31"
  shows "PageAllocator_alloc_pages A pa (int k) = Inl NullDeref \<or>
    (\<exists>p s'. PageAllocator_alloc_pages A pa (int k) =
          Inr (p, \<lparr>types = mark ALLOCATED p (2 ^ k) (types pa), alg = s'\<rparr>) \<and>
        shape p k \<and> typed (types pa) AVAILABLE p (2 ^ k) \<and>
        cinv (mark ALLOCATED p (2 ^ k) (types pa)) s')"
proof -
  obtain r s' where rs: "alg_alloc_pages A (types pa) (alg pa) (int k) = Inr (r, s')"
    and c: "case r of None \<Rightarrow> cinv (types pa) s'
         | Some p \<Rightarrow> shape p k \<and> typed (types pa) AVAILABLE p (2 ^ k) \<and>
             cinv (mark ALLOCATED p (2 ^ k) (types pa)) s'"
    using alloc_law [OF assms] by blast
  then show ?thesis
    using assms(2) by (cases r) (auto simp: PageAllocator_alloc_pages_def retype_typed)
qed

lemma free_pages_ok:
  assumes "cinv (types pa) (alg pa)" and "shape p k" and "typed (types pa) ALLOCATED p (2 ^ k)"
  shows "\<exists>s'. PageAllocator_free_pages A pa p (int k) =
      Inr \<lparr>types = mark AVAILABLE p (2 ^ k) (types pa), alg = s'\<rparr> \<and>
    cinv (mark AVAILABLE p (2 ^ k) (types pa)) s'"
  using free_law [OF assms] shape_law [OF assms(2)] retype_typed [OF assms(3)]
  by (auto simp: PageAllocator_free_pages_def)

lemma reserve_loop_ok:
  assumes "rinv (types pa) i (alg pa)" and "i \<le> length (types pa)"
  shows "\<exists>pa'. reserve_loop A pa [i..<length (types pa)] = Inr (True, pa') \<and>
    types pa' = types pa \<and> cinv (types pa) (alg pa')"
  using assms
proof (induction "length (types pa) - i" arbitrary: i pa)
  case 0
  then show ?case using ready_law [of "types pa" "alg pa"] by auto
next
  case (Suc n)
  have i: "i < length (types pa)" "n = length (types pa) - Suc i" using Suc.hyps(2) by auto
  have up: "[i..<length (types pa)] = i # [Suc i..<length (types pa)]" using i(1) by (simp add: upt_conv_Cons)
  show ?case
  proof (cases "types pa ! i = AVAILABLE")
    case True
    with Suc.hyps(1) [OF i(2) skip_law [OF Suc.prems(1) i(1) True]] i(1) up show ?thesis by simp
  next
    case False
    from reserve_law [OF Suc.prems(1) i(1) False] obtain s' where
      s': "alg_reserve_page A (types pa) (alg pa) i = Inr (True, s')" "rinv (types pa) (Suc i) s'" by blast
    with Suc.hyps(1) [of "pa\<lparr>alg := s'\<rparr>" "Suc i"] i up False show ?thesis by simp
  qed
qed

lemma init_ok:
  assumes "setup_page_descriptors A mm bl start = Inr (Some pa0)"
    and "andthen (mark_present (phys_mem_blocks mm) (types pa0)) (mark_kernel bl) = Inr ts"
    and "\<not> do_self_test bl" and "fits ts"
  shows "\<exists>s. PageAllocator_init A mm bl start = Inr (True, \<lparr>types = ts, alg = s\<rparr>) \<and> cinv ts s"
proof -
  have a: "alg pa0 = alg_bzero A start"
    using assms(1) by (auto simp: setup_page_descriptors_def andthen_eq_Inr split: option.splits)
  obtain ts0 where ts0: "mark_present (phys_mem_blocks mm) (types pa0) = Inr ts0" "mark_kernel bl ts0 = Inr ts"
    using assms(2) by (auto simp: andthen_eq_Inr)
  obtain s where s: "alg_init A ts (alg_bzero A start) (length ts) = Inr (True, s)" "rinv ts 0 s"
    using init_law [OF assms(4)] by blast
  obtain pa' where "reserve_loop A \<lparr>types = ts, alg = s\<rparr> [0..<length ts] = Inr (True, pa')"
    "types pa' = ts" "cinv ts (alg pa')"
    using reserve_loop_ok [of "\<lparr>types = ts, alg = s\<rparr>" 0] s(2) by auto
  with assms(1,3) a ts0 s(1) show ?thesis by (cases pa') (auto simp: PageAllocator_init_def)
qed

end

section \<open>A kernel that allocates and frees\<close>

definition live_pages :: "(nat \<times> nat) list \<Rightarrow> nat set" where
  "live_pages live = (\<Union>(p, k) \<in> set live. {p ..< p + 2 ^ k})"

definition apart :: "nat \<times> nat \<Rightarrow> nat \<times> nat \<Rightarrow> bool" where
  "apart b c \<longleftrightarrow> {fst b ..< fst b + 2 ^ snd b} \<inter> {fst c ..< fst c + 2 ^ snd c} = {}"

inductive pa_step ::
  "'a PageAllocatorAlgorithm \<Rightarrow> 'a PageAllocator \<times> (nat \<times> nat) list
     \<Rightarrow> 'a PageAllocator \<times> (nat \<times> nat) list \<Rightarrow> bool" for A where
  pa_alloc: "k < 31 \<Longrightarrow> PageAllocator_alloc_pages A pa (int k) = Inr (p, pa') \<Longrightarrow>
     pa_step A (pa, live) (pa', (p, k) # live)"
| pa_free: "PageAllocator_free_pages A pa p (int k) = Inr pa' \<Longrightarrow>
     pa_step A (pa, xs @ (p, k) # ys) (pa', xs @ ys)"

inductive_cases pa_stepE: "pa_step A (pa, live) (pa', live')"

lemma live_pages_Cons [simp]: "live_pages ((p, k) # live) = {p ..< p + 2 ^ k} \<union> live_pages live"
  by (simp add: live_pages_def)

lemma live_pages_append [simp]: "live_pages (xs @ ys) = live_pages xs \<union> live_pages ys"
  by (auto simp: live_pages_def)

lemma live_pages_Nil [simp]: "live_pages [] = {}"
  by (simp add: live_pages_def)

lemma apart_all: "(\<forall>c \<in> set live. apart (p, k) c) \<longleftrightarrow> {p ..< p + 2 ^ k} \<inter> live_pages live = {}"
  unfolding apart_def live_pages_def by (fastforce simp: disjoint_iff)

lemma apart_commute: "apart b c \<longleftrightarrow> apart c b"
  by (auto simp: apart_def)

context page_algorithm
begin

definition "live_inv F pl \<longleftrightarrow> (case pl of (pa, live) \<Rightarrow>
   cinv (types pa) (alg pa) \<and> sorted_wrt apart live \<and>
   (\<forall>(p, k) \<in> set live. shape p k \<and> typed (types pa) ALLOCATED p (2 ^ k)) \<and>
   avail (types pa) \<inter> live_pages live = {} \<and> avail (types pa) \<union> live_pages live = F)"

lemma typed_mark_other:
  assumes "typed ts t q m" and "{q ..< q + m} \<inter> {p ..< p + n} = {}"
  shows "typed (mark t' p n ts) t q m"
  using assms by (fastforce simp: typed_def disjoint_iff)

lemma live_inv_alloc:
  assumes inv: "live_inv F (pa, live)" and k: "k < 31"
    and al: "PageAllocator_alloc_pages A pa (int k) = Inr (p, pa')"
  shows "live_inv F (pa', (p, k) # live)"
proof -
  have c: "cinv (types pa) (alg pa)" using inv by (simp add: live_inv_def)
  obtain s' where s': "pa' = \<lparr>types = mark ALLOCATED p (2 ^ k) (types pa), alg = s'\<rparr>" "shape p k"
    "typed (types pa) AVAILABLE p (2 ^ k)" "cinv (mark ALLOCATED p (2 ^ k) (types pa)) s'"
    using alloc_pages_cases [OF c k] al by auto
  have sub: "{p ..< p + 2 ^ k} \<subseteq> avail (types pa)" using s'(3) typed_avail by blast
  have dj: "{p ..< p + 2 ^ k} \<inter> live_pages live = {}" using sub inv by (auto simp: live_inv_def)
  have new: "typed (mark ALLOCATED p (2 ^ k) (types pa)) ALLOCATED p (2 ^ k)"
    using s'(3) by (auto simp: typed_def)
  have "typed (mark ALLOCATED p (2 ^ k) (types pa)) ALLOCATED q (2 ^ j)" if "(q, j) \<in> set live" for q j
  proof (rule typed_mark_other)
    show "typed (types pa) ALLOCATED q (2 ^ j)" using inv that by (auto simp: live_inv_def)
    show "{q ..< q + 2 ^ j} \<inter> {p ..< p + 2 ^ k} = {}"
      using dj that unfolding live_pages_def by fastforce
  qed
  moreover have "avail (types pa) - {p ..< p + 2 ^ k} \<union> ({p ..< p + 2 ^ k} \<union> live_pages live) = F"
    using inv sub by (auto simp: live_inv_def)
  ultimately show ?thesis
    using inv s' new dj by (auto simp: live_inv_def apart_all avail_mark_ALLOCATED)
qed

lemma live_inv_free:
  assumes inv: "live_inv F (pa, xs @ (p, k) # ys)"
  shows "\<exists>pa'. PageAllocator_free_pages A pa p (int k) = Inr pa' \<and> live_inv F (pa', xs @ ys)"
proof -
  have c: "cinv (types pa) (alg pa)" "shape p k" "typed (types pa) ALLOCATED p (2 ^ k)"
    using inv by (auto simp: live_inv_def)
  obtain s' where s': "PageAllocator_free_pages A pa p (int k) =
      Inr \<lparr>types = mark AVAILABLE p (2 ^ k) (types pa), alg = s'\<rparr>"
    "cinv (mark AVAILABLE p (2 ^ k) (types pa)) s'"
    using free_pages_ok [OF c] by blast
  have so: "sorted_wrt apart (xs @ ys)" "\<forall>c \<in> set (xs @ ys). apart (p, k) c"
    using inv by (auto simp: live_inv_def sorted_wrt_append apart_commute [of "(p, k)"])
  have dj: "{p ..< p + 2 ^ k} \<inter> live_pages (xs @ ys) = {}" using so(2) apart_all by blast
  have sh: "shape q j" if "(q, j) \<in> set (xs @ ys)" for q j
    using inv that by (auto simp: live_inv_def)
  have "typed (mark AVAILABLE p (2 ^ k) (types pa)) ALLOCATED q (2 ^ j)" if "(q, j) \<in> set (xs @ ys)" for q j
  proof (rule typed_mark_other)
    show "typed (types pa) ALLOCATED q (2 ^ j)" using inv that by (auto simp: live_inv_def)
    show "{q ..< q + 2 ^ j} \<inter> {p ..< p + 2 ^ k} = {}"
      using dj that unfolding live_pages_def by fastforce
  qed
  moreover have "avail (mark AVAILABLE p (2 ^ k) (types pa)) = avail (types pa) \<union> {p ..< p + 2 ^ k}"
    by (rule avail_mark_AVAILABLE [OF typed_bound [OF c(3)]]) simp
  moreover have "(avail (types pa) \<union> {p ..< p + 2 ^ k}) \<inter> live_pages (xs @ ys) = {}"
    "avail (types pa) \<union> {p ..< p + 2 ^ k} \<union> live_pages (xs @ ys) = F"
    using inv dj by (auto simp: live_inv_def)
  ultimately show ?thesis
    using s' so(1) sh unfolding live_inv_def by (auto simp del: live_pages_append)
qed

lemma live_inv_step: "pa_step A x y \<Longrightarrow> live_inv F x \<Longrightarrow> live_inv F y"
  by (induction rule: pa_step.induct) (use live_inv_alloc live_inv_free in fastforce)+

lemma live_inv_reach:
  assumes "(pa_step A)\<^sup>*\<^sup>* (pa, []) y" and "cinv (types pa) (alg pa)"
  shows "live_inv (avail (types pa)) y"
  using assms(1)
proof (induction rule: rtranclp_induct)
  case base
  then show ?case using assms(2) by (simp add: live_inv_def)
next
  case (step y z)
  then show ?case using live_inv_step by blast
qed

end

section \<open>The buddy allocator as page algorithm\<close>

definition buddy_cinv :: "PageDescriptorType list \<Rightarrow> buddy \<Rightarrow> bool" where
  "buddy_cinv ts s \<longleftrightarrow> buddy_inv (length ts) s \<and> free_set (length ts) s = avail ts"

definition buddy_rinv :: "PageDescriptorType list \<Rightarrow> nat \<Rightarrow> buddy \<Rightarrow> bool" where
  "buddy_rinv ts i s \<longleftrightarrow> buddy_inv (length ts) s \<and>
     free_set (length ts) s = {p. p < length ts \<and> (i \<le> p \<or> ts ! p = AVAILABLE)}"

definition buddy_shape :: "nat \<Rightarrow> nat \<Rightarrow> bool" where
  "buddy_shape p k \<longleftrightarrow> k < MAX_ORDER \<and> is_correct_alignment_for_order p k"

lemma buddy_alg_simps [simp]:
  "alg_bzero buddy_algorithm (BuddyPageAllocator mem) = BuddyPageAllocator (\<lambda>_. None)"
  "alg_init buddy_algorithm ts s nr = andthen (init s nr) (\<lambda>s'. Inr (True, s'))"
  "alg_reserve_page buddy_algorithm ts s p = reserve_page (length ts) s p"
  "alg_alloc_pages buddy_algorithm ts s i = alloc_pages (length ts) s i"
  "alg_free_pages buddy_algorithm ts s p i = free_pages (length ts) s p i"
  by (simp_all add: buddy_algorithm_def BuddyPageAllocator_def)

lemma buddy_init_law:
  "\<exists>s. andthen (init (BuddyPageAllocator (\<lambda>_. None)) (length ts)) (\<lambda>s'. Inr (True, s')) = Inr (True, s)
     \<and> buddy_rinv ts 0 s"
proof -
  obtain s where s: "init (BuddyPageAllocator (\<lambda>_. None)) (length ts) = Inr s" "buddy_inv (length ts) s"
    "free_set (length ts) s = {..<length ts}"
    using init_zeroed [of "length ts"] by blast
  have "buddy_rinv ts 0 s" unfolding buddy_rinv_def s(3) using s(2) by auto
  with s(1) show ?thesis by simp
qed

lemma buddy_reserve_law:
  assumes "buddy_rinv ts i s" and "i < length ts" and "ts ! i \<noteq> AVAILABLE"
  shows "\<exists>s'. reserve_page (length ts) s i = Inr (True, s') \<and> buddy_rinv ts (Suc i) s'"
proof -
  have inv: "buddy_inv (length ts) s" and fs: "free_set (length ts) s = {p. p < length ts \<and> (i \<le> p \<or> ts ! p = AVAILABLE)}"
    using assms(1) by (simp_all add: buddy_rinv_def)
  have "i \<in> free_set (length ts) s" using fs assms(2) by simp
  then obtain s' where s': "reserve_page (length ts) s i = Inr (True, s')" "buddy_inv (length ts) s'"
    "free_set (length ts) s' = free_set (length ts) s - {i}"
    using reserve_page_inv [OF inv, of i] by (metis (full_types))
  have "free_set (length ts) s' = {p. p < length ts \<and> (Suc i \<le> p \<or> ts ! p = AVAILABLE)}"
    unfolding s'(3) fs using assms(3) by (auto simp: Suc_le_eq le_less)
  with s' show ?thesis by (simp add: buddy_rinv_def)
qed

lemma buddy_alloc_law:
  assumes "buddy_cinv ts s"
  shows "\<exists>r s'. alloc_pages (length ts) s (int k) = Inr (r, s') \<and>
    (case r of None \<Rightarrow> buddy_cinv ts s'
     | Some p \<Rightarrow> buddy_shape p k \<and> typed ts AVAILABLE p (2 ^ k) \<and> buddy_cinv (mark ALLOCATED p (2 ^ k) ts) s')"
proof -
  have inv: "buddy_inv (length ts) s" "free_set (length ts) s = avail ts"
    using assms by (simp_all add: buddy_cinv_def)
  obtain r s' where "alloc_pages (length ts) s (int k) = Inr (r, s')" "buddy_inv (length ts) s'"
    "case r of None \<Rightarrow> s' = s \<and> (\<forall>(j, q)\<in>free_blocks (length ts) s. j < k)
     | Some p \<Rightarrow> k < MAX_ORDER \<and> 2 ^ k dvd p \<and> block_pages (k, p) \<subseteq> free_set (length ts) s \<and>
         free_set (length ts) s' = free_set (length ts) s - block_pages (k, p)"
    using alloc_pages_rep [OF inv(1), of k] by blast
  then show ?thesis using assms inv(2)
    by (cases r) (simp_all add: buddy_cinv_def buddy_shape_def typed_avail avail_mark_ALLOCATED)
qed

lemma buddy_free_law:
  assumes "buddy_cinv ts s" and "buddy_shape p k" and "typed ts ALLOCATED p (2 ^ k)"
  shows "\<exists>s'. free_pages (length ts) s p (int k) = Inr s' \<and> buddy_cinv (mark AVAILABLE p (2 ^ k) ts) s'"
proof -
  have inv: "buddy_inv (length ts) s" "free_set (length ts) s = avail ts"
    using assms(1) by (simp_all add: buddy_cinv_def)
  have le: "p + 2 ^ k \<le> length ts" by (rule typed_bound [OF assms(3)]) simp
  have dj: "block_pages (k, p) \<inter> free_set (length ts) s = {}"
    unfolding inv(2) block_pages_pair avail_def using assms(3) by (fastforce simp: typed_def)
  have "k < MAX_ORDER" "2 ^ k dvd p" using assms(2) by (simp_all add: buddy_shape_def)
  from free_pages_inv [OF inv(1) this le dj] show ?thesis
    using inv(2) le by (fastforce simp: buddy_cinv_def avail_mark_AVAILABLE)
qed

interpretation bp: page_algorithm buddy_algorithm buddy_cinv buddy_rinv "\<lambda>_. True" buddy_shape
  "BuddyPageAllocator mem" for mem
proof unfold_locales
  show "\<exists>s. alg_init buddy_algorithm ts (alg_bzero buddy_algorithm (BuddyPageAllocator mem)) (length ts) =
      Inr (True, s) \<and> buddy_rinv ts 0 s" for ts
    using buddy_init_law by simp
  show "\<exists>s'. alg_reserve_page buddy_algorithm ts s i = Inr (True, s') \<and> buddy_rinv ts (Suc i) s'"
    if "buddy_rinv ts i s" "i < length ts" "ts ! i \<noteq> AVAILABLE" for ts i s
    using buddy_reserve_law [OF that] by simp
  show "buddy_rinv ts (Suc i) s" if "buddy_rinv ts i s" "i < length ts" "ts ! i = AVAILABLE" for ts i s
  proof -
    have "{p. p < length ts \<and> (Suc i \<le> p \<or> ts ! p = AVAILABLE)} =
        {p. p < length ts \<and> (i \<le> p \<or> ts ! p = AVAILABLE)}"
      using that(3) by (auto simp: Suc_le_eq le_less)
    with that(1) show ?thesis by (simp add: buddy_rinv_def)
  qed
  show "buddy_cinv ts s" if "buddy_rinv ts (length ts) s" for ts s
  proof -
    have "{p. p < length ts \<and> (length ts \<le> p \<or> ts ! p = AVAILABLE)} = avail ts" by (auto simp: avail_def)
    with that show ?thesis by (simp add: buddy_rinv_def buddy_cinv_def)
  qed
  show "k < 31" if "buddy_shape p k" for p k using that by (simp add: buddy_shape_def MAX_ORDER_def)
qed (use buddy_alloc_law buddy_free_law in auto)

section \<open>The simple allocator as page algorithm\<close>

definition guarded :: "PageDescriptorType list \<Rightarrow> bool" where
  "guarded ts \<longleftrightarrow> ts \<noteq> [] \<and> ts ! (length ts - 1) \<noteq> AVAILABLE \<and> ts ! (length ts - 1) \<noteq> ALLOCATED"

definition simple_cinv :: "PageDescriptorType list \<Rightarrow> simple_alloc \<Rightarrow> bool" where
  "simple_cinv ts s \<longleftrightarrow> nr_pgds s = length ts \<and> guarded ts"

lemma simple_alg_simps [simp]:
  "alg_init simple_algorithm ts s nr = Inr (True, s\<lparr>nr_pgds := nr\<rparr>)"
  "alg_bzero simple_algorithm s = s"
  "alg_reserve_page simple_algorithm = simple_reserve_page"
  "alg_alloc_pages simple_algorithm = simple_alloc_pages"
  "alg_free_pages simple_algorithm = simple_free_pages"
  by (simp_all add: simple_algorithm_def)

lemma simple_run_guarded:
  assumes "guarded ts" and "i < length ts"
  shows "(\<exists>j. simple_run ts i n = Inr (Some j) \<and> i \<le> j \<and> j < length ts \<and> j < i + n \<and> ts ! j \<noteq> AVAILABLE)
    \<or> (simple_run ts i n = Inr None \<and> typed ts AVAILABLE i n)"
  using assms(2)
proof (induction n arbitrary: i)
  case 0
  then show ?case by (simp add: typed_def)
next
  case (Suc n)
  show ?case
  proof (cases "ts ! i = AVAILABLE")
    case True
    then have "i \<noteq> length ts - 1" using assms(1) by (auto simp: guarded_def)
    then have "Suc i < length ts" using Suc.prems by linarith
    with Suc.IH [of "Suc i"] True Suc.prems show ?thesis by (fastforce simp: typed_Suc)
  qed (use Suc.prems in auto)
qed

lemma simple_scan_guarded:
  assumes "guarded ts"
  shows "\<exists>r. simple_scan ts (length ts) n idx = Inr r \<and>
    (case r of
       Some p \<Rightarrow> typed ts AVAILABLE p n \<and> p < length ts
     | None \<Rightarrow> 0 < n \<longrightarrow> (\<forall>p \<ge> idx. \<not> typed ts AVAILABLE p n))"
proof (induction "length ts - idx" arbitrary: idx rule: less_induct)
  case less
  show ?case
  proof (cases "idx < length ts")
    case False
    then have "\<not> typed ts AVAILABLE p n" if "p \<ge> idx" "0 < n" for p
      using that typed_bound [of ts AVAILABLE p n] by linarith
    with False show ?thesis by (auto simp: simple_scan.simps)
  next
    case True
    from simple_run_guarded [OF assms True, of n] show ?thesis
    proof (elim disjE exE conjE)
      fix j assume j: "simple_run ts idx n = Inr (Some j)" "idx \<le> j" "j < length ts" "j < idx + n"
        "ts ! j \<noteq> AVAILABLE"
      then have "length ts - Suc j < length ts - idx" by linarith
      from less [OF this] obtain r where r: "simple_scan ts (length ts) n (Suc j) = Inr r"
        "case r of Some p \<Rightarrow> typed ts AVAILABLE p n \<and> p < length ts
         | None \<Rightarrow> 0 < n \<longrightarrow> (\<forall>p \<ge> Suc j. \<not> typed ts AVAILABLE p n)" by blast
      have "\<not> typed ts AVAILABLE p n" if "idx \<le> p" "p \<le> j" for p
        using that j(4,5) by (fastforce simp: typed_def)
      then have "\<forall>p \<ge> idx. \<not> typed ts AVAILABLE p n" if "\<forall>p \<ge> Suc j. \<not> typed ts AVAILABLE p n"
        using that not_less_eq_eq by blast
      with r j(1) True show ?thesis
        by (cases r) (simp_all add: simple_scan.simps [of ts _ n idx])
    next
      assume "simple_run ts idx n = Inr None" "typed ts AVAILABLE idx n"
      with True show ?thesis by (auto simp: simple_scan.simps [of ts _ n idx])
    qed
  qed
qed

lemma guarded_mark:
  assumes "guarded ts" and "typed ts t p n" and "t = AVAILABLE \<or> t = ALLOCATED"
  shows "guarded (mark t' p n ts)"
proof -
  have "length ts - 1 \<notin> {p ..< p + n}" using assms by (auto simp: guarded_def typed_def)
  moreover have "length ts - 1 < length ts" using assms(1) by (cases ts) (auto simp: guarded_def)
  ultimately show ?thesis using assms(1) by (auto simp: guarded_def mark_def)
qed

lemma simple_alloc_law:
  assumes "simple_cinv ts s" and "k < 31"
  shows "\<exists>r s'. simple_alloc_pages ts s (int k) = Inr (r, s') \<and>
    (case r of None \<Rightarrow> simple_cinv ts s' \<and> (\<forall>p. \<not> typed ts AVAILABLE p (2 ^ k))
     | Some p \<Rightarrow> typed ts AVAILABLE p (2 ^ k) \<and> simple_cinv (mark ALLOCATED p (2 ^ k) ts) s')"
proof -
  have c: "nr_pgds s = length ts" "guarded ts" using assms(1) by (simp_all add: simple_cinv_def)
  obtain r where r: "simple_scan ts (length ts) (2 ^ k) 0 = Inr r"
    "case r of Some p \<Rightarrow> typed ts AVAILABLE p (2 ^ k) \<and> p < length ts
       | None \<Rightarrow> 0 < (2::nat) ^ k \<longrightarrow> (\<forall>p \<ge> 0. \<not> typed ts AVAILABLE p (2 ^ k))"
    using simple_scan_guarded [OF c(2), of "2 ^ k" 0] by blast
  with c assms show ?thesis
    by (cases r) (auto simp: simple_alloc_pages_def simple_cinv_def guarded_mark)
qed

interpretation sp: page_algorithm simple_algorithm simple_cinv "\<lambda>ts i. simple_cinv ts" guarded "\<lambda>p k. k < 31" s0
  for s0
proof unfold_locales
  show "\<exists>r s'. alg_alloc_pages simple_algorithm ts s (int k) = Inr (r, s') \<and>
      (case r of None \<Rightarrow> simple_cinv ts s'
       | Some p \<Rightarrow> k < 31 \<and> typed ts AVAILABLE p (2 ^ k) \<and> simple_cinv (mark ALLOCATED p (2 ^ k) ts) s')"
    if "simple_cinv ts s" "k < 31" for ts s k
    using simple_alloc_law [OF that] that(2) by (fastforce split: option.splits)
  show "\<exists>s'. alg_free_pages simple_algorithm ts s p (int k) = Inr s' \<and> simple_cinv (mark AVAILABLE p (2 ^ k) ts) s'"
    if "simple_cinv ts s" "k < 31" "typed ts ALLOCATED p (2 ^ k)" for ts s p k
    using that all_typed_iff [of ts ALLOCATED p "2 ^ k"]
    by (auto simp: simple_free_pages_def simple_cinv_def guarded_mark)
qed (auto simp: simple_cinv_def simple_reserve_page_def)

end
