(* ===== verification/Page_Selftest.thy ===== *)
theory Page_Selftest
  imports Page_Alloc_Correct
begin

text \<open>
  \<open>PageAllocator::self_test\<close> run on the buddy allocator. \<open>holds nr s L\<close> says that exactly the
  blocks \<open>L\<close> are out of the free set. An allocation of order \<open>k\<close> succeeds as long as fewer
  pages are out than there are aligned blocks of that order, so every allocation of the test
  succeeds on a machine large enough for the pages it reserves.
\<close>

definition holds :: "nat \<Rightarrow> buddy \<Rightarrow> (nat \<times> nat) list \<Rightarrow> bool" where
  "holds nr s L \<longleftrightarrow> buddy_inv nr s \<and> sorted_wrt apart L \<and>
     (\<forall>(p, k) \<in> set L. k < MAX_ORDER \<and> 2 ^ k dvd p \<and> p + 2 ^ k \<le> nr) \<and>
     free_set nr s = {..<nr} - live_pages L"

lemma finite_live_pages [simp]: "finite (live_pages L)"
  by (auto simp: live_pages_def)

lemma card_live_pages: "card (live_pages L) \<le> (\<Sum>(p, k) \<leftarrow> L. 2 ^ k)"
proof (induction L)
  case (Cons b L)
  obtain p k where b: "b = (p, k)" by fastforce
  have "card (live_pages (b # L)) \<le> card {p ..< p + 2 ^ k} + card (live_pages L)"
    unfolding b live_pages_Cons by (rule card_Un_le)
  with Cons.IH b show ?case by simp
qed simp

lemma free_block_exists:
  assumes "finite R" and "card R < nr div 2 ^ k"
  shows "\<exists>p. 2 ^ k dvd p \<and> {p ..< p + 2 ^ k} \<subseteq> {..<nr} - R"
proof -
  have "card ((\<lambda>x. x div 2 ^ k) ` R) \<le> card R" using assms(1) by (rule card_image_le)
  then have "card ((\<lambda>x. x div 2 ^ k) ` R) < card {..<nr div 2 ^ k}" using assms(2) by simp
  then have "\<not> {..<nr div 2 ^ k} \<subseteq> (\<lambda>x. x div 2 ^ k) ` R"
    using assms(1) card_mono [of "(\<lambda>x. x div 2 ^ k) ` R" "{..<nr div 2 ^ k}"] by fastforce
  then obtain i where i: "i < nr div 2 ^ k" "i \<notin> (\<lambda>x. x div 2 ^ k) ` R" by blast
  have "{2 ^ k * i ..< 2 ^ k * i + 2 ^ k} \<subseteq> {..<nr} - R"
  proof
    fix x assume x: "x \<in> {2 ^ k * i ..< 2 ^ k * i + 2 ^ k}"
    have "x div 2 ^ k = i" by (rule div_nat_eqI) (use x in \<open>auto simp: mult.commute\<close>)
    with i(2) have "x \<notin> R" by blast
    have "Suc i * 2 ^ k \<le> nr div 2 ^ k * 2 ^ k" using i(1) by (intro mult_right_mono) auto
    also have "\<dots> \<le> nr" by simp
    finally have "x < nr" using x by (auto simp: algebra_simps)
    with \<open>x \<notin> R\<close> show "x \<in> {..<nr} - R" by simp
  qed
  then show ?thesis by (metis dvd_triv_left)
qed

lemma holds_alloc:
  assumes h: "holds (length ts) s L" and k: "k < MAX_ORDER"
    and room: "(\<Sum>(p, k) \<leftarrow> L. 2 ^ k) < length ts div 2 ^ k"
  shows "\<exists>p s'. st_alloc buddy_algorithm ts (int k) s = Inr (p, s') \<and> holds (length ts) s' ((p, k) # L)"
proof -
  let ?nr = "length ts"
  have inv: "buddy_inv ?nr s" and fs: "free_set ?nr s = {..<?nr} - live_pages L"
    using h by (simp_all add: holds_def)
  obtain q where q: "2 ^ k dvd q" "{q ..< q + 2 ^ k} \<subseteq> free_set ?nr s"
    using free_block_exists [of "live_pages L" ?nr k] card_live_pages [of L] room fs by fastforce
  obtain p s' where al: "alloc_pages ?nr s (int k) = Inr (Some p, s')"
    using buddy_alloc_complete [OF inv k q(1)] q(2) by blast
  then have s': "buddy_inv ?nr s'" "2 ^ k dvd p" "{p ..< p + 2 ^ k} \<subseteq> free_set ?nr s"
    "free_set ?nr s' = free_set ?nr s - {p ..< p + 2 ^ k}"
    using alloc_pages_rep [OF inv, of k] by auto
  have "{p ..< p + 2 ^ k} \<inter> live_pages L = {}" using s'(3) fs by blast
  moreover have "p + 2 ^ k \<le> ?nr" by (rule range_bound [OF s'(3)]) (use fs in auto)
  ultimately have "holds ?nr s' ((p, k) # L)"
    using h k s' fs apart_all [of L p k] unfolding holds_def by auto
  with al show ?thesis by (simp add: st_alloc_def)
qed

lemma holds_free:
  assumes h: "holds (length ts) s (xs @ (p, k) # ys)"
  shows "\<exists>s'. alg_free_pages buddy_algorithm ts s p (int k) = Inr s' \<and> holds (length ts) s' (xs @ ys)"
proof -
  let ?nr = "length ts"
  have inv: "buddy_inv ?nr s" and fs: "free_set ?nr s = {..<?nr} - live_pages (xs @ (p, k) # ys)"
    and b: "k < MAX_ORDER" "2 ^ k dvd p" "p + 2 ^ k \<le> ?nr"
    and so: "sorted_wrt apart (xs @ ys)" "\<forall>c \<in> set (xs @ ys). apart (p, k) c"
    using h by (auto simp: holds_def sorted_wrt_append apart_commute [of "(p, k)"])
  have dj: "block_pages (k, p) \<inter> free_set ?nr s = {}" unfolding fs by auto
  obtain s' where s': "free_pages ?nr s p (int k) = Inr s'" "buddy_inv ?nr s'"
    "free_set ?nr s' = free_set ?nr s \<union> {p ..< p + 2 ^ k}"
    using free_pages_inv [OF inv b dj] by auto
  have "{p ..< p + 2 ^ k} \<inter> live_pages (xs @ ys) = {}" using so(2) apart_all by blast
  then have "free_set ?nr s' = {..<?nr} - live_pages (xs @ ys)" using s'(3) fs b(3) by auto
  with s' so h show ?thesis by (auto simp: holds_def)
qed

lemma holds_reserve:
  assumes h: "holds (length ts) s L" and p: "p < length ts" "p \<notin> live_pages L"
  shows "\<exists>s'. alg_reserve_page buddy_algorithm ts s p = Inr (True, s') \<and> holds (length ts) s' ((p, 0) # L)"
proof -
  have inv: "buddy_inv (length ts) s" and fs: "free_set (length ts) s = {..<length ts} - live_pages L"
    using h by (simp_all add: holds_def)
  have "p \<in> free_set (length ts) s" using fs p by blast
  then obtain s' where s': "reserve_page (length ts) s p = Inr (True, s')" "buddy_inv (length ts) s'"
    "free_set (length ts) s' = free_set (length ts) s - {p}"
    using reserve_page_inv [OF inv, of p] by (metis (full_types))
  then have "holds (length ts) s' ((p, 0) # L)"
    using h p fs apart_all [of L p 0] by (auto simp: holds_def MAX_ORDER_def)
  with s'(1) show ?thesis by simp
qed

section \<open>The run of the test\<close>

definition run_ok :: "'a result \<Rightarrow> ('a \<Rightarrow> bool) \<Rightarrow> bool" where
  "run_ok m P \<longleftrightarrow> (\<exists>x. m = Inr x \<and> P x)"

lemma run_ok_alloc:
  assumes "holds (length ts) s L" and "order = int k" and "k < MAX_ORDER"
    and "(\<Sum>(p, k) \<leftarrow> L. 2 ^ k) < length ts div 2 ^ k"
    and "\<And>p s'. holds (length ts) s' ((p, k) # L) \<Longrightarrow> run_ok (f (p, s')) P"
  shows "run_ok (andthen (st_alloc buddy_algorithm ts order s) f) P"
  using holds_alloc [OF assms(1,3,4)] assms(2,5) by (auto simp: run_ok_def)

lemma run_ok_free:
  assumes "holds (length ts) s L" and "order = int k" and "i < length L" and "L ! i = (p, k)"
    and "\<And>s'. holds (length ts) s' (take i L @ drop (Suc i) L) \<Longrightarrow> run_ok (f s') P"
  shows "run_ok (andthen (alg_free_pages buddy_algorithm ts s p order) f) P"
proof -
  have "L = take i L @ (p, k) # drop (Suc i) L" using assms(3,4) by (metis id_take_nth_drop)
  then have "holds (length ts) s (take i L @ (p, k) # drop (Suc i) L)" using assms(1) by metis
  from holds_free [OF this] assms(2,5) show ?thesis by (auto simp: run_ok_def)
qed

lemma run_ok_reserve:
  assumes "holds (length ts) s L" and "p < length ts" and "p \<notin> live_pages L"
    and "\<And>s'. holds (length ts) s' ((p, 0) # L) \<Longrightarrow> run_ok (f (True, s')) P"
  shows "run_ok (andthen (alg_reserve_page buddy_algorithm ts s p) f) P"
  using holds_reserve [OF assms(1-3)] assms(4) by (auto simp: run_ok_def)

lemma run_ok_Inr: "P x \<Longrightarrow> run_ok (Inr x) P"
  by (simp add: run_ok_def)

lemma run_ok_andthen:
  assumes "run_ok m Q" and "\<And>x. Q x \<Longrightarrow> run_ok (f x) P"
  shows "run_ok (andthen m f) P"
  using assms by (auto simp: run_ok_def)

lemma enough_room:
  fixes nr n :: nat
  assumes "0x150 \<le> nr" and "k \<le> 2" and "n < 0x54"
  shows "n < nr div 2 ^ k"
proof -
  have "(2::nat) ^ k \<le> 4" using assms(2) power_increasing [of k 2 "2::nat"] by simp
  then have "nr div 4 \<le> nr div 2 ^ k" by (intro div_le_mono2) auto
  moreover have "0x150 div 4 \<le> nr div 4" using assms(1) by (rule div_le_mono)
  ultimately show ?thesis using assms(3) by simp
qed

lemma run_ok_alloc_room:
  assumes "holds (length ts) s L" and "order = int k" and "k \<le> 2" and "0x150 \<le> length ts"
    and "(\<Sum>(p, k) \<leftarrow> L. 2 ^ k) < (0x54 :: nat)"
    and "\<And>p s'. holds (length ts) s' ((p, k) # L) \<Longrightarrow> run_ok (f (p, s')) P"
  shows "run_ok (andthen (st_alloc buddy_algorithm ts order s) f) P"
proof (rule run_ok_alloc [OF assms(1,2) _ enough_room [OF assms(4,3,5)]])
  show "k < MAX_ORDER" using assms(3) by (simp add: MAX_ORDER_def)
qed (rule assms(6))

lemma self_test_pairs_ok:
  assumes "holds (length ts) s []" and len: "0x150 \<le> length ts"
  shows "run_ok (self_test_pairs buddy_algorithm ts s) (\<lambda>s'. holds (length ts) s' [])"
  supply buddy_alg_simps [simp del]
  unfolding self_test_pairs_def
  apply (rule run_ok_alloc_room [OF assms(1), where k = 1]; (simp add: len)?)
  apply (rule run_ok_free [where k = 1 and i = 0], assumption; simp)
  apply (rule run_ok_alloc_room [where k = 0], assumption; (simp add: len)?)
  apply (rule run_ok_alloc_room [where k = 1], assumption; (simp add: len)?)
  apply (rule run_ok_free [where k = 0 and i = 1], assumption; simp)
  apply (rule run_ok_alloc_room [where k = 0], assumption; (simp add: len)?)
  apply (rule run_ok_free [where k = 1 and i = 1], assumption; simp)
  apply (rule run_ok_free [where k = 0 and i = 0], assumption; simp add: run_ok_def)
  done

lemma self_test_many_ok:
  assumes "holds (length ts) s []" and len: "0x150 \<le> length ts"
  shows "run_ok (self_test_many buddy_algorithm ts s) (\<lambda>s'. holds (length ts) s' [])"
  supply buddy_alg_simps [simp del]
  unfolding self_test_many_def
  apply (rule run_ok_alloc_room [OF assms(1), where k = 0]; (simp add: len)?)
  apply (rule run_ok_alloc_room [where k = 0], assumption; (simp add: len)?)
  apply (rule run_ok_alloc_room [where k = 0], assumption; (simp add: len)?)
  apply (rule run_ok_alloc_room [where k = 2], assumption; (simp add: len)?)
  apply (rule run_ok_alloc_room [where k = 0], assumption; (simp add: len)?)
  apply (rule run_ok_alloc_room [where k = 0], assumption; (simp add: len)?)
  apply (rule run_ok_alloc_room [where k = 0], assumption; (simp add: len)?)
  apply (rule run_ok_alloc_room [where k = 0], assumption; (simp add: len)?)
  apply (rule run_ok_free [where k = 0 and i = 2], assumption; simp)
  apply (rule run_ok_free [where k = 2 and i = 3], assumption; simp)
  apply (rule run_ok_free [where k = 0 and i = 1], assumption; simp)
  apply (rule run_ok_free [where k = 0 and i = 0], assumption; simp)
  apply (rule run_ok_free [where k = 0 and i = 1], assumption; simp)
  apply (rule run_ok_free [where k = 0 and i = 1], assumption; simp)
  apply (rule run_ok_free [where k = 0 and i = 1], assumption; simp)
  apply (rule run_ok_free [where k = 0 and i = 0], assumption; simp add: run_ok_def)
  done

lemma self_test_reserve_ok:
  assumes "holds (length ts) s []" and len: "0x150 \<le> length ts"
  shows "run_ok (self_test_reserve buddy_algorithm ts s) (\<lambda>s'. holds (length ts) s' [])"
proof -
  have a: "assert_some (pfn_to_pgd (length ts) 0x14e) = Inr 0x14e"
    "assert_some (pfn_to_pgd (length ts) 0x14f) = Inr 0x14f"
    using len by (simp_all add: assert_some_def pfn_to_pgd_def)
  show ?thesis
    supply buddy_alg_simps [simp del]
    unfolding self_test_reserve_def a andthen_Inr
    apply (rule run_ok_reserve [OF assms(1)]; (use len in simp)?)
    apply (rule run_ok_reserve, assumption; (simp add: a)?)
    apply (rule run_ok_free [where k = 0 and i = 0], assumption; simp)
    apply (rule run_ok_free [where k = 0 and i = 0], assumption; simp add: run_ok_def)
    done
qed

lemma self_test_ok:
  assumes "holds (length ts) s []" and len: "0x150 \<le> length ts"
  shows "run_ok (self_test buddy_algorithm ts s) (\<lambda>(ok, s'). ok \<and> holds (length ts) s' [])"
proof -
  have "ts \<noteq> []" using len by auto
  then have "\<exists>p s'. alg_alloc_pages buddy_algorithm ts s 0 = Inr (Some p, s') \<and> holds (length ts) s' [(p, 0)]"
    using holds_alloc [OF assms(1), of 0] \<open>ts \<noteq> []\<close>
    by (auto simp: st_alloc_def andthen_eq_Inr MAX_ORDER_def)
  then obtain p s1 where s1: "alg_alloc_pages buddy_algorithm ts s 0 = Inr (Some p, s1)"
    "holds (length ts) s1 [(p, 0)]" by blast
  then obtain s2 where s2: "alg_free_pages buddy_algorithm ts s1 p 0 = Inr s2" "holds (length ts) s2 []"
    using holds_free [of ts s1 "[]" p 0 "[]"] by auto
  have "run_ok (andthen (self_test_pairs buddy_algorithm ts s2) (\<lambda>s.
      andthen (self_test_many buddy_algorithm ts s) (\<lambda>s.
      andthen (self_test_reserve buddy_algorithm ts s) (\<lambda>s. Inr (True, s)))))
      (\<lambda>(ok, s'). ok \<and> holds (length ts) s' [])"
    by (intro run_ok_andthen [OF self_test_pairs_ok] run_ok_andthen [OF self_test_many_ok]
        run_ok_andthen [OF self_test_reserve_ok] run_ok_Inr len) (use s2(2) in auto)
  then show ?thesis using s1(1) s2(1) by (simp add: self_test_def)
qed

end
