(* ===== verification/Page_Props.thy ===== *)
theory Page_Props
  imports Page_Selftest
begin

text \<open>
  Properties of physical memory and of the page allocator, for both allocation algorithms.
\<close>

section \<open>Initialisation\<close>

lemma mark_page_range_length: "mark_page_range t a n ts = Inr ts' \<Longrightarrow> length ts' = length ts"
  by (auto simp: mark_page_range_def dest: mark_loop_length)

lemma mark_present_length: "mark_present bs ts = Inr ts' \<Longrightarrow> length ts' = length ts"
  by (induction bs arbitrary: ts)
    (auto simp: andthen_eq_Inr dest: mark_page_range_length split: if_splits)

lemma mark_kernel_length: "mark_kernel bl ts = Inr ts' \<Longrightarrow> length ts' = length ts"
  by (auto simp: mark_kernel_def Let_def andthen_eq_Inr dest!: mark_page_range_length)

lemma buddy_rinv_0: "buddy_rinv ts 0 s \<longleftrightarrow> holds (length ts) s []"
proof -
  have "{p. p < length ts \<and> (0 \<le> p \<or> ts ! p = AVAILABLE)} = {..<length ts} - live_pages []" by auto
  then show ?thesis by (simp add: buddy_rinv_def holds_def)
qed

lemma buddy_init_returns:
  assumes "PageAllocator_init buddy_algorithm mm bl (BuddyPageAllocator mem) = Inr (True, pa)"
    and "do_self_test bl \<Longrightarrow> 0x150 \<le> length (types pa)"
  shows "buddy_cinv (types pa) (alg pa)"
proof -
  obtain ts s s1 where s: "init (BuddyPageAllocator (\<lambda>_. None)) (length ts) = Inr s"
    and s1: "reserve_loop buddy_algorithm \<lparr>types = ts, alg = s1\<rparr> [0..<length ts] = Inr (True, pa)"
    and st: "do_self_test bl \<Longrightarrow> self_test buddy_algorithm ts s = Inr (True, s1)" "\<not> do_self_test bl \<Longrightarrow> s1 = s"
    using assms(1)
    by (cases "do_self_test bl") (auto simp: PageAllocator_init_def setup_page_descriptors_def
        andthen_eq_Inr split: option.splits if_splits)
  have s0: "holds (length ts) s []"
    using buddy_init_law [of ts] s buddy_rinv_0 by auto
  have ty: "types pa = ts" using reserve_loop_types [OF s1] by simp
  have "holds (length ts) s1 []"
    using self_test_ok [OF s0] st s0 assms(2) ty by (cases "do_self_test bl") (auto simp: run_ok_def)
  then have "buddy_rinv ts 0 s1" using buddy_rinv_0 by blast
  with bp.reserve_loop_ok [of "\<lparr>types = ts, alg = s1\<rparr>" 0] s1 show ?thesis by auto
qed


lemma mark_page_range_ok:
  assumes "unat a + unat n \<le> length ts" and "length ts < 2 ^ 64"
  shows "mark_page_range t a n ts = Inr (mark t (unat a) (unat n) ts)"
proof -
  have u: "unat (ucast n :: u64) = unat n"
    using unsigned_less [of n, where 'a = nat] by (simp add: unsigned_ucast_eq take_bit_nat_eq_self)
  have "unat (a + ucast n) = unat a + unat n" using assms u by (simp add: unat_word_ariths(1))
  with assms(1) mark_loop_eq [of "unat a" "unat n" ts t] show ?thesis by (simp add: mark_page_range_def)
qed

definition in_normal_block :: "PhysicalMemoryBlock list \<Rightarrow> nat \<Rightarrow> bool" where
  "in_normal_block bs p \<longleftrightarrow>
     (\<exists>b \<in> set bs. mem_type b = NORMAL \<and> unat (base_pfn b) \<le> p \<and> p < unat (base_pfn b) + unat (nr_pages b))"

lemma mark_present_ok:
  assumes "\<forall>b \<in> set bs. mem_type b = NORMAL \<longrightarrow> unat (base_pfn b) + unat (nr_pages b) \<le> length ts"
    and "length ts < 2 ^ 64"
  shows "\<exists>ts'. mark_present bs ts = Inr ts' \<and> length ts' = length ts \<and>
    (\<forall>p < length ts. ts' ! p = (if in_normal_block bs p then AVAILABLE else ts ! p))"
  using assms
proof (induction bs arbitrary: ts)
  case Nil
  then show ?case by (simp add: in_normal_block_def)
next
  case (Cons b bs)
  define ts1 where "ts1 = (if mem_type b = NORMAL
    then mark AVAILABLE (unat (base_pfn b)) (unat (nr_pages b)) ts else ts)"
  have l: "length ts1 = length ts" by (simp add: ts1_def)
  have one: "mark_present (b # bs) ts = mark_present bs ts1"
    using Cons.prems mark_page_range_ok [of "base_pfn b" "nr_pages b" ts AVAILABLE] by (simp add: ts1_def)
  have "\<forall>b \<in> set bs. mem_type b = NORMAL \<longrightarrow> unat (base_pfn b) + unat (nr_pages b) \<le> length ts1"
    "length ts1 < 2 ^ 64" using Cons.prems l by auto
  from Cons.IH [OF this] obtain ts' where ts': "mark_present bs ts1 = Inr ts'" "length ts' = length ts"
    "\<forall>p < length ts. ts' ! p = (if in_normal_block bs p then AVAILABLE else ts1 ! p)"
    using l by metis
  have "ts' ! p = (if in_normal_block (b # bs) p then AVAILABLE else ts ! p)" if "p < length ts" for p
    using ts'(3) that by (auto simp: in_normal_block_def ts1_def)
  with one ts' show ?case by auto
qed

lemma covers_fold:
  assumes "\<forall>(a, n, t) \<in> set regions. unat n < 2 ^ 20 \<and> unat a + unat n * 4096 < 2 ^ 64" and "covers mm"
  shows "covers (foldl (\<lambda>mm (a, n, t). add_physical_memory mm a n t) mm regions)"
  using assms by (induction regions arbitrary: mm) (auto simp: add_physical_memory_covers)

lemma covers_mark_present:
  assumes "covers mm" and "last_pfn mm \<noteq> - 1"
  shows "\<exists>ts. mark_present (phys_mem_blocks mm) (replicate (unat (last_pfn mm + 1)) INVALID) = Inr ts \<and>
    length ts = unat (last_pfn mm) + 1 \<and>
    (\<forall>p < length ts. ts ! p = (if in_normal_block (phys_mem_blocks mm) p then AVAILABLE else INVALID))"
proof -
  have n: "unat (last_pfn mm + 1) = unat (last_pfn mm) + 1"
    using assms(2) unatSuc [of "last_pfn mm"] by (simp add: add.commute eq_neg_iff_add_eq_0)
  define m where "m = unat (last_pfn mm + 1)"
  have "m < 2 ^ 64" unfolding m_def using unsigned_less [of "last_pfn mm + 1", where 'a = nat] by simp
  moreover have "\<forall>b \<in> set (phys_mem_blocks mm). mem_type b = NORMAL \<longrightarrow>
      unat (base_pfn b) + unat (nr_pages b) \<le> length (replicate m INVALID)"
    using assms(1) n by (simp add: covers_def m_def)
  ultimately obtain ts where "mark_present (phys_mem_blocks mm) (replicate m INVALID) = Inr ts" "length ts = m"
    "\<forall>p < m. ts ! p = (if in_normal_block (phys_mem_blocks mm) p then AVAILABLE else INVALID)"
    using mark_present_ok [of "phys_mem_blocks mm" "replicate m INVALID"] by auto
  then show ?thesis using n unfolding m_def by auto
qed

lemma mark_loop_overrun: "length ts \<le> p \<Longrightarrow> 0 < n \<Longrightarrow> mark_loop t p n ts = Inl OutOfBounds"
  by (cases n) auto

text \<open>A machine of sixteen pages on which \<open>init\<close> succeeds with either algorithm.\<close>

definition small_machine :: MemoryManager where
  "small_machine = add_physical_memory MemoryManager_init 0 16 NORMAL"

definition small_layout :: boot_layout where
  "small_layout = \<lparr>IMAGE_START = 0x7000, IMAGE_END = 0x7fff,
     STACK_START = 0xFFFFFFFF80008000, STACK_END = 0xFFFFFFFF80008fff,
     HEAP_START = 0xFFFFFFFF8000F000, do_self_test = False\<rparr>"

lemma small_setup:
  "setup_page_descriptors A small_machine small_layout s =
     Inr (Some \<lparr>types = replicate 16 INVALID, alg = alg_bzero A s\<rparr>)"
proof -
  have "kva_to_pa (HEAP_START small_layout) = Inr 0xF000" by code_simp
  moreover have "lookup_phys_block small_machine 0xF000 =
    Some \<lparr>base_address = 0, base_pfn = 0, nr_pages = 16, mem_type = NORMAL\<rparr>" by code_simp
  moreover have "unat (last_pfn small_machine + 1) = 16" by code_simp
  ultimately show ?thesis by (simp add: setup_page_descriptors_def)
qed

lemma small_marked:
  "andthen (mark_present (phys_mem_blocks small_machine) (replicate 16 INVALID)) (mark_kernel small_layout) =
     Inr (RESERVED # replicate 6 ALLOCATED @ replicate 2 RESERVED @ replicate 6 AVAILABLE @ [RESERVED])"
  by code_simp

lemma small_init_types:
  "\<exists>pa. PageAllocator_init buddy_algorithm small_machine small_layout (BuddyPageAllocator mem) = Inr (True, pa) \<and>
     buddy_cinv (types pa) (alg pa) \<and> avail (types pa) = {9..14} \<and> length (types pa) = 16 \<and> types pa ! 0 = RESERVED"
proof -
  let ?ts = "RESERVED # replicate 6 ALLOCATED @ replicate 2 RESERVED @ replicate 6 AVAILABLE @ [RESERVED]"
  have "avail ?ts = set (filter (\<lambda>p. ?ts ! p = AVAILABLE) [0..<16])" by (auto simp: avail_def)
  also have "\<dots> = set [9, 10, 11, 12, 13, 14]" by (rule arg_cong [where f = set]) code_simp
  also have "\<dots> = {9..14::nat}" by auto
  finally have "avail ?ts = {9..14}" .
  moreover have "length ?ts = 16" "?ts ! 0 = RESERVED" by simp_all
  moreover have "\<not> do_self_test small_layout" by (simp add: small_layout_def)
  ultimately show ?thesis
    using bp.init_ok [OF small_setup] small_marked by fastforce
qed

lemma small_init:
  "\<exists>pa. PageAllocator_init buddy_algorithm small_machine small_layout (BuddyPageAllocator mem) = Inr (True, pa) \<and>
     buddy_cinv (types pa) (alg pa) \<and> avail (types pa) = {9..14}"
  using small_init_types by blast

section \<open>Properties\<close>



text \<open>
  (\<open>mm.cpp\<close>, \<open>add_physical_memory\<close>). The byte size of a region is computed in 32 bits: a normal
  region of exactly 4 GiB contributes nothing to \<open>_last_pfn\<close>, so that the descriptor array does
  not cover its last page, and marking the present pages leaves the array.
\<close>
theorem four_gib_region_overruns:
  fixes addr :: u64
  assumes "mm = add_physical_memory MemoryManager_init addr 0x100000 NORMAL" and "0x1000 \<le> addr"
  shows "last_pfn mm = drop_bit 12 addr - 1 \<and>
    mark_present (phys_mem_blocks mm) (replicate (unat (last_pfn mm + 1)) INVALID) = Inl OutOfBounds"
proof -
  let ?p = "drop_bit 12 addr"
  have z: "(0x100000 :: u32) * page_size = 0" by (simp add: page_size_def)
  have "unat addr < 2 ^ 64" using unsigned_less [of addr, where 'a = nat] by simp
  then have b: "unat ?p < 2 ^ 52" by (simp add: unat_drop12 less_mult_imp_div_less)
  have "0 < unat ?p" using assms(2) by (simp add: unat_drop12 word_le_nat_alt)
  then have "0 < ?p" by (simp add: word_less_nat_alt)
  then have lp: "last_pfn mm = ?p - 1"
    unfolding assms(1) add_physical_memory_def MemoryManager_init_def z
    by (auto simp: Let_def word_gt_0)
  have bs: "phys_mem_blocks mm = [\<lparr>base_address = addr, base_pfn = ?p, nr_pages = 0x100000, mem_type = NORMAL\<rparr>]"
    unfolding assms(1) by (simp add: add_physical_memory_def MemoryManager_init_def Let_def)
  have "unat (?p + 0x100000) - unat ?p = Suc 0xFFFFF" using b by (simp add: unat_word_ariths(1))
  then have "mark_page_range AVAILABLE ?p 0x100000 (replicate (unat ?p) INVALID) = Inl OutOfBounds"
    unfolding mark_page_range_def by (simp add: mark_loop_overrun)
  then show ?thesis using lp bs by simp
qed

theorem four_gib_region_overruns_witness:
  "last_pfn (add_physical_memory MemoryManager_init 0x100000000 0x100000 NORMAL) = 0xFFFFF"
proof -
  have "drop_bit 12 (0x100000000 :: u64) - 1 = 0xFFFFF" by code_simp
  with four_gib_region_overruns [of _ "0x100000000"] show ?thesis by simp
qed

text \<open>
  C8 (\<open>page-allocator.cpp\<close> with \<open>buddy.cpp\<close>). After \<open>init\<close> has succeeded with the buddy
  allocator, every sequence of allocations and frees of live blocks hands out pairwise
  disjoint blocks, takes them only from the pages that were available after \<open>init\<close>, loses no
  page, and leaves every live block freeable without a fault.
\<close>
theorem buddy_kernel_allocations_disjoint:
  assumes "PageAllocator_init buddy_algorithm mm bl (BuddyPageAllocator mem) = Inr (True, pa)"
    and "do_self_test bl \<longrightarrow> 0x150 \<le> length (types pa)"
    and "(pa_step buddy_algorithm)\<^sup>*\<^sup>* (pa, []) (pa', live)"
  shows "sorted_wrt apart live \<and> avail (types pa') \<inter> live_pages live = {} \<and>
    avail (types pa') \<union> live_pages live = avail (types pa) \<and>
    (\<forall>(p, k) \<in> set live. \<exists>pa''. PageAllocator_free_pages buddy_algorithm pa' p (int k) = Inr pa'')"
proof -
  have "buddy_cinv (types pa) (alg pa)" using buddy_init_returns [OF assms(1)] assms(2) by blast
  from bp.live_inv_reach [OF assms(3) this] have inv: "bp.live_inv (avail (types pa)) (pa', live)" .
  have "\<exists>pa''. PageAllocator_free_pages buddy_algorithm pa' p (int k) = Inr pa''"
    if pk: "(p, k) \<in> set live" for p k
  proof -
    obtain xs ys where "live = xs @ (p, k) # ys" using pk by (meson split_list)
    with inv bp.live_inv_free show ?thesis by blast
  qed
  with inv show ?thesis by (auto simp: bp.live_inv_def)
qed

theorem buddy_kernel_allocations_disjoint_witness:
  "\<exists>pa. PageAllocator_init buddy_algorithm small_machine small_layout (BuddyPageAllocator (\<lambda>_. None)) = Inr (True, pa)
     \<and> avail (types pa) \<union> live_pages [] = {9..14}"
proof -
  obtain pa where pa: "PageAllocator_init buddy_algorithm small_machine small_layout (BuddyPageAllocator (\<lambda>_. None)) =
      Inr (True, pa)" "avail (types pa) = {9..14}"
    using small_init [of "\<lambda>_. None"] by blast
  have "\<not> do_self_test small_layout" by (simp add: small_layout_def)
  with buddy_kernel_allocations_disjoint [OF pa(1), of pa "[]"] pa show ?thesis by auto
qed

text \<open>
  (\<open>page-allocator.cpp\<close>, \<open>alloc_pages\<close>, with \<open>buddy.cpp\<close>). An allocation either succeeds, and
  then all its pages change from available to allocated and no other page changes its type,
  or the machine faults on a null descriptor. It faults exactly when no aligned run of
  \<open>2 ^ order\<close> available pages exists: exhaustion is never reported as a null result.
\<close>
theorem page_alloc_pages_outcome:
  assumes "buddy_cinv (types pa) (alg pa)" and "k < MAX_ORDER"
  shows "if \<exists>p. is_correct_alignment_for_order p k \<and> {p ..< p + pages_per_block k} \<subseteq> avail (types pa)
    then \<exists>p pa'. PageAllocator_alloc_pages buddy_algorithm pa (int k) = Inr (p, pa') \<and>
      {p ..< p + pages_per_block k} \<subseteq> avail (types pa) \<and>
      types pa' = mark ALLOCATED p (pages_per_block k) (types pa) \<and> buddy_cinv (types pa') (alg pa')
    else PageAllocator_alloc_pages buddy_algorithm pa (int k) = Inl NullDeref"
proof (cases "\<exists>p. is_correct_alignment_for_order p k \<and> {p ..< p + pages_per_block k} \<subseteq> avail (types pa)")
  case True
  then obtain p where p: "2 ^ k dvd p" "{p ..< p + 2 ^ k} \<subseteq> avail (types pa)" by (auto simp: pages_per_block_def)
  have inv: "buddy_inv (length (types pa)) (alg pa)" "free_set (length (types pa)) (alg pa) = avail (types pa)"
    using assms(1) by (simp_all add: buddy_cinv_def)
  obtain q s' where "alloc_pages (length (types pa)) (alg pa) (int k) = Inr (Some q, s')"
    using buddy_alloc_complete [OF inv(1) assms(2) p(1)] p(2) inv(2) by auto
  then have "PageAllocator_alloc_pages buddy_algorithm pa (int k) \<noteq> Inl NullDeref"
    using bp.alloc_pages_cases [OF assms(1), of k] buddy_alloc_law [OF assms(1), of k] assms(2)
    by (auto simp: PageAllocator_alloc_pages_def MAX_ORDER_def retype_typed)
  then show ?thesis
    using bp.alloc_pages_cases [OF assms(1), of k] True assms(2)
    by (auto simp: MAX_ORDER_def pages_per_block_def typed_avail)
next
  case False
  have "\<not> buddy_shape p k \<or> \<not> typed (types pa) AVAILABLE p (2 ^ k)" for p
    using False by (auto simp: buddy_shape_def typed_avail pages_per_block_def)
  with bp.alloc_pages_cases [OF assms(1), of k] assms(2) have
    "PageAllocator_alloc_pages buddy_algorithm pa (int k) = Inl NullDeref"
    by (auto simp: MAX_ORDER_def)
  with False show ?thesis by simp
qed

theorem page_alloc_pages_outcome_witness:
  "\<exists>pa. PageAllocator_init buddy_algorithm small_machine small_layout (BuddyPageAllocator (\<lambda>_. None)) = Inr (True, pa)
     \<and> PageAllocator_alloc_pages buddy_algorithm pa (int 3) = Inl NullDeref"
proof -
  obtain pa where pa: "PageAllocator_init buddy_algorithm small_machine small_layout (BuddyPageAllocator (\<lambda>_. None)) =
      Inr (True, pa)" "buddy_cinv (types pa) (alg pa)" "avail (types pa) = {9..14}"
    using small_init [of "\<lambda>_. None"] by blast
  have "\<not> {p ..< p + pages_per_block 3} \<subseteq> avail (types pa)" for p
  proof
    assume "{p ..< p + pages_per_block 3} \<subseteq> avail (types pa)"
    then have "card {p ..< p + pages_per_block 3} \<le> card {9..14::nat}" unfolding pa(3) by (intro card_mono) auto
    then show False by (simp add: pages_per_block_def)
  qed
  moreover have "3 < MAX_ORDER" by (simp add: MAX_ORDER_def)
  ultimately show ?thesis using page_alloc_pages_outcome [OF pa(2), of 3] pa(1) by auto
qed

text \<open>
  (\<open>page-allocator.cpp\<close>, \<open>self_test\<close>, with \<open>buddy.cpp\<close>). On a machine of at least 0x150 pages the
  self test, run right after the buddy allocator's \<open>init\<close>, passes, and afterwards every free
  list prints as it did before the test.
\<close>
theorem buddy_self_test_passes:
  assumes "0x150 \<le> length ts" and "init (BuddyPageAllocator (\<lambda>_. None)) (length ts) = Inr s"
  shows "\<exists>s'. self_test buddy_algorithm ts s = Inr (True, s') \<and>
    dump_state (length ts) s' = dump_state (length ts) s"
proof -
  have h: "holds (length ts) s []" using buddy_init_law [of ts] assms(2) buddy_rinv_0 by auto
  then obtain s' where s': "self_test buddy_algorithm ts s = Inr (True, s')" "holds (length ts) s' []"
    using self_test_ok [OF h assms(1)] by (auto simp: run_ok_def)
  with h have "dump_state (length ts) s' = dump_state (length ts) s"
    by (intro same_pages_same_lists) (simp_all add: holds_def)
  with s'(1) show ?thesis by blast
qed

theorem buddy_self_test_passes_witness:
  "\<exists>s s'. init (BuddyPageAllocator (\<lambda>_. None)) 0x150 = Inr s \<and>
     self_test buddy_algorithm (replicate 0x150 AVAILABLE) s = Inr (True, s')"
proof -
  obtain s where s: "init (BuddyPageAllocator (\<lambda>_. None)) 0x150 = Inr s" using init_zeroed by blast
  then have "init (BuddyPageAllocator (\<lambda>_. None)) (length (replicate 0x150 AVAILABLE)) = Inr s"
    by (simp only: length_replicate)
  from buddy_self_test_passes [OF _ this] s show ?thesis by (metis length_replicate order_refl)
qed

text \<open>
  (\<open>simple-page-alloc.cpp\<close>, \<open>alloc_pages\<close>). When the last descriptor is neither available nor
  allocated, the simple allocator's scan stays inside the descriptor array, returns a run of
  available pages, and returns null only when there is no such run, aligned or not.
\<close>
theorem simple_alloc_pages_correct:
  assumes "nr_pgds s = length ts" and "guarded ts" and "k < 31"
  shows "\<exists>r. simple_alloc_pages ts s (int k) = Inr (r, s) \<and>
    (case r of None \<Rightarrow> \<forall>p. \<not> {p ..< p + 2 ^ k} \<subseteq> avail ts
     | Some p \<Rightarrow> {p ..< p + 2 ^ k} \<subseteq> avail ts)"
proof -
  obtain r where "simple_scan ts (length ts) (2 ^ k) 0 = Inr r"
    "case r of Some p \<Rightarrow> typed ts AVAILABLE p (2 ^ k) \<and> p < length ts
       | None \<Rightarrow> 0 < (2::nat) ^ k \<longrightarrow> (\<forall>p \<ge> 0. \<not> typed ts AVAILABLE p (2 ^ k))"
    using simple_scan_guarded [OF assms(2), of "2 ^ k" 0] by blast
  with assms(1,3) show ?thesis
    by (cases r) (auto simp: simple_alloc_pages_def typed_avail)
qed

theorem simple_alloc_pages_correct_witness:
  "\<exists>r. simple_alloc_pages [AVAILABLE, AVAILABLE, RESERVED] \<lparr>nr_pgds = 3\<rparr> (int 1) = Inr (r, \<lparr>nr_pgds = 3\<rparr>)"
  using simple_alloc_pages_correct [of "\<lparr>nr_pgds = 3\<rparr>" "[AVAILABLE, AVAILABLE, RESERVED]" 1]
  by (auto simp: guarded_def)

text \<open>
  (\<open>simple-page-alloc.cpp\<close>, \<open>alloc_pages\<close>). The scan has no other bound: with only available pages
  left, a request for more pages than the array holds reads descriptors past its end.
\<close>
theorem simple_alloc_pages_overrun:
  assumes "0 < n" and "n < 2 ^ k" and "k < 31"
  shows "simple_alloc_pages (replicate n AVAILABLE) \<lparr>nr_pgds = n\<rparr> (int k) = Inl OutOfBounds"
proof -
  have "simple_run (replicate n AVAILABLE) i m = Inl OutOfBounds" if "i \<le> n" "n < i + m" for i m
    using that
  proof (induction m arbitrary: i)
    case (Suc m)
    then show ?case by (cases "i < n") auto
  qed simp
  with assms show ?thesis
    by (simp add: simple_alloc_pages_def simple_scan.simps [of _ n])
qed

theorem simple_alloc_pages_overrun_witness:
  "simple_alloc_pages (replicate 3 AVAILABLE) \<lparr>nr_pgds = 3\<rparr> (int 2) = Inl OutOfBounds"
  using simple_alloc_pages_overrun [of 3 2] by simp

end
