(* ===== verification/Util_Map.thy ===== *)
theory Util_Map
  imports Prelude "HOL-Library.Multiset"
begin

text \<open>
  \<open>infos::util::Map\<close> (\<open>infos/include/infos/util/map.h\<close>), a red-black tree with parent pointers.
  A node together with its chain of \<open>Parent\<close> pointers is a zipper: the subtree at the node, and
  one frame per ancestor that says on which side the child hangs and holds the ancestor's
  colour, key, value and other subtree. \<open>x->parent()\<close> is the first frame, \<open>x->grandparent()\<close> the
  second, \<open>i_am_left\<close> the side of a frame; a null \<open>Parent\<close> is the empty path. The rotations and
  the rebalancing loop move this zipper as the source moves its pointers. Lookup and
  iteration walk the tree from the root.
\<close>

section \<open>Nodes and zippers\<close>

datatype Colour = RED | BLACK

datatype ('k, 'v) MapNode = Null | MapNode Colour 'k 'v "('k, 'v) MapNode" "('k, 'v) MapNode"

datatype side = LeftOf | RightOf

datatype ('k, 'v) frame = Frame side Colour 'k 'v "('k, 'v) MapNode"

type_synonym ('k, 'v) zipper = "('k, 'v) MapNode \<times> ('k, 'v) frame list"

record ('k, 'v) Map =
  map_root :: "('k, 'v) MapNode"
  map_count :: u32

fun node_red :: "('k, 'v) MapNode \<Rightarrow> bool" where
  "node_red (MapNode RED k v l r) \<longleftrightarrow> True"
| "node_red _ \<longleftrightarrow> False"

fun plug :: "('k, 'v) frame \<Rightarrow> ('k, 'v) MapNode \<Rightarrow> ('k, 'v) MapNode" where
  "plug (Frame LeftOf c k v s) t = MapNode c k v t s"
| "plug (Frame RightOf c k v s) t = MapNode c k v s t"

fun set_colour :: "Colour \<Rightarrow> ('k, 'v) MapNode \<Rightarrow> ('k, 'v) MapNode result" where
  "set_colour c (MapNode _ k v l r) = Inr (MapNode c k v l r)"
| "set_colour c Null = Inl NullDeref"

fun up :: "('k, 'v) zipper \<Rightarrow> ('k, 'v) zipper result" where
  "up (t, f # p) = Inr (plug f t, p)"
| "up (t, []) = Inl NullDeref"

fun down_left :: "('k, 'v) zipper \<Rightarrow> ('k, 'v) zipper result" where
  "down_left (MapNode c k v l r, p) = Inr (l, Frame LeftOf c k v r # p)"
| "down_left (Null, p) = Inl NullDeref"

fun down_right :: "('k, 'v) zipper \<Rightarrow> ('k, 'v) zipper result" where
  "down_right (MapNode c k v l r, p) = Inr (r, Frame RightOf c k v l # p)"
| "down_right (Null, p) = Inl NullDeref"

primrec frame_colour :: "Colour \<Rightarrow> ('k, 'v) frame \<Rightarrow> ('k, 'v) frame" where
  "frame_colour c (Frame d _ k v s) = Frame d c k v s"

fun set_parent_colour :: "Colour \<Rightarrow> ('k, 'v) zipper \<Rightarrow> ('k, 'v) zipper result" where
  "set_parent_colour c (t, f # p) = Inr (t, frame_colour c f # p)"
| "set_parent_colour c (t, []) = Inl NullDeref"

fun set_grandparent_colour :: "Colour \<Rightarrow> ('k, 'v) zipper \<Rightarrow> ('k, 'v) zipper result" where
  "set_grandparent_colour c (t, f # g # p) = Inr (t, f # frame_colour c g # p)"
| "set_grandparent_colour c (t, _) = Inl NullDeref"

primrec zip_up :: "('k, 'v) MapNode \<Rightarrow> ('k, 'v) frame list \<Rightarrow> ('k, 'v) MapNode" where
  "zip_up t [] = t"
| "zip_up t (f # p) = zip_up (plug f t) p"

section \<open>Rotations and rebalancing\<close>

text \<open>Both rotations leave the zipper on the node \<open>n\<close> they were called with.\<close>

fun rotate_right :: "('k, 'v) zipper \<Rightarrow> ('k, 'v) zipper result" where
  "rotate_right (MapNode c k v (MapNode pc pk pv pl pr) r, p) =
     Inr (MapNode c k v pr r, Frame RightOf pc pk pv pl # p)"
| "rotate_right _ = Inl AssertFail"

fun rotate_left :: "('k, 'v) zipper \<Rightarrow> ('k, 'v) zipper result" where
  "rotate_left (MapNode c k v l (MapNode pc pk pv pl pr), p) =
     Inr (MapNode c k v l pl, Frame LeftOf pc pk pv pr # p)"
| "rotate_left _ = Inl AssertFail"

fun parent_red :: "('k, 'v) zipper \<Rightarrow> bool" where
  "parent_red (x, Frame d RED k v s # p) \<longleftrightarrow> True"
| "parent_red _ \<longleftrightarrow> False"

text \<open>
  One iteration of the loop of \<open>rebalance_insert\<close>. The last step of a rotation case moves the
  zipper back from the rotated grandparent to \<open>x\<close>.
\<close>

fun rebalance_step :: "('k, 'v) zipper \<Rightarrow> ('k, 'v) zipper result" where
  "rebalance_step (x, f # Frame LeftOf gc gk gv y # p) =
     (if node_red y
      then andthen (set_colour BLACK y) (\<lambda>y'.
             Inr (MapNode RED gk gv (plug (frame_colour BLACK f) x) y', p))
      else andthen (case f of
                      Frame RightOf _ _ _ _ \<Rightarrow>
                        andthen (up (x, f # Frame LeftOf gc gk gv y # p)) rotate_left
                    | Frame LeftOf _ _ _ _ \<Rightarrow> Inr (x, f # Frame LeftOf gc gk gv y # p)) (\<lambda>z.
           andthen (set_parent_colour BLACK z) (\<lambda>z.
           andthen (set_grandparent_colour RED z) (\<lambda>z.
           andthen (up z) (\<lambda>z. andthen (up z) (\<lambda>z.
           andthen (rotate_right z) (\<lambda>z. andthen (up z) down_left)))))))"
| "rebalance_step (x, f # Frame RightOf gc gk gv y # p) =
     (if node_red y
      then andthen (set_colour BLACK y) (\<lambda>y'.
             Inr (MapNode RED gk gv y' (plug (frame_colour BLACK f) x), p))
      else andthen (case f of
                      Frame LeftOf _ _ _ _ \<Rightarrow>
                        andthen (up (x, f # Frame RightOf gc gk gv y # p)) rotate_right
                    | Frame RightOf _ _ _ _ \<Rightarrow> Inr (x, f # Frame RightOf gc gk gv y # p)) (\<lambda>z.
           andthen (set_parent_colour BLACK z) (\<lambda>z.
           andthen (set_grandparent_colour RED z) (\<lambda>z.
           andthen (up z) (\<lambda>z. andthen (up z) (\<lambda>z.
           andthen (rotate_left z) (\<lambda>z. andthen (up z) down_right)))))))"
| "rebalance_step (x, _) = Inl NullDeref"

lemma rotate_left_shape: "rotate_left z = Inr z' \<Longrightarrow> length (snd z') = Suc (length (snd z))"
  by (cases z rule: rotate_left.cases) auto

lemma rotate_right_shape: "rotate_right z = Inr z' \<Longrightarrow> length (snd z') = Suc (length (snd z))"
  by (cases z rule: rotate_right.cases) auto

lemma up_shape: "up z = Inr z' \<Longrightarrow> length (snd z) = Suc (length (snd z'))"
  by (cases z rule: up.cases) auto

lemma down_left_shape: "down_left z = Inr z' \<Longrightarrow> length (snd z') = Suc (length (snd z))"
  by (cases z rule: down_left.cases) auto

lemma down_right_shape: "down_right z = Inr z' \<Longrightarrow> length (snd z') = Suc (length (snd z))"
  by (cases z rule: down_right.cases) auto

lemma set_parent_colour_shape: "set_parent_colour c z = Inr z' \<Longrightarrow> length (snd z') = length (snd z)"
  by (cases "(c, z)" rule: set_parent_colour.cases) auto

lemma set_grandparent_colour_shape:
  "set_grandparent_colour c z = Inr z' \<Longrightarrow> length (snd z') = length (snd z)"
  by (cases "(c, z)" rule: set_grandparent_colour.cases) auto

lemmas zipper_shapes = rotate_left_shape rotate_right_shape up_shape down_left_shape down_right_shape
  set_parent_colour_shape set_grandparent_colour_shape

lemma rebalance_step_shorter: "rebalance_step z = Inr z' \<Longrightarrow> length (snd z') < length (snd z)"
  by (cases z rule: rebalance_step.cases)
    (auto simp: andthen_eq_Inr split: if_splits frame.splits side.splits
      dest!: zipper_shapes)

function rebalance_loop :: "('k, 'v) zipper \<Rightarrow> ('k, 'v) zipper result" where
  "rebalance_loop x =
     (if parent_red x
      then case rebalance_step x of Inl e \<Rightarrow> Inl e | Inr x' \<Rightarrow> rebalance_loop x'
      else Inr x)"
  by pat_completeness auto
termination
  by (relation "measure (\<lambda>z. length (snd z))") (auto dest: rebalance_step_shorter)

declare rebalance_loop.simps [simp del]

definition rebalance_insert :: "('k, 'v) zipper \<Rightarrow> ('k, 'v) MapNode result" where
  "rebalance_insert nw =
     andthen (set_colour RED (fst nw)) (\<lambda>t.
     andthen (rebalance_loop (t, snd nw)) (\<lambda>(x, p). set_colour BLACK (zip_up x p)))"

section \<open>Operations\<close>

text \<open>The descent of \<open>add\<close> stops at the node with the key, or at the would-be parent.\<close>

fun find_owner :: "'k::linorder \<Rightarrow> ('k, 'v) MapNode \<Rightarrow> ('k, 'v) frame list \<Rightarrow> ('k, 'v) zipper" where
  "find_owner key (MapNode c k v l r) p =
     (if key < k then (if l = Null then (MapNode c k v l r, p) else find_owner key l (Frame LeftOf c k v r # p))
      else if key > k then (if r = Null then (MapNode c k v l r, p) else find_owner key r (Frame RightOf c k v l # p))
      else (MapNode c k v l r, p))"
| "find_owner key Null p = (Null, p)"

definition Map_add :: "('k::linorder, 'v) Map \<Rightarrow> 'k \<Rightarrow> 'v \<Rightarrow> ('k, 'v) Map result" where
  "Map_add m key val =
     (case find_owner key (map_root m) [] of
        (MapNode c k v l r, p) \<Rightarrow>
          if key = k then Inr (m\<lparr>map_root := zip_up (MapNode c k val l r) p\<rparr>)
          else let nw = MapNode RED key val Null Null in
            andthen (rebalance_insert
                (if key < k then (nw, Frame LeftOf c k v r # p) else (nw, Frame RightOf c k v l # p)))
              (\<lambda>t. Inr \<lparr>map_root = t, map_count = map_count m + 1\<rparr>)
      | (Null, p) \<Rightarrow> Inr \<lparr>map_root = MapNode BLACK key val Null Null, map_count = map_count m + 1\<rparr>)"

definition map_empty :: "('k, 'v) Map" where
  "map_empty = \<lparr>map_root = Null, map_count = 0\<rparr>"

definition map_remove :: "('k, 'v) Map \<Rightarrow> 'k \<Rightarrow> ('k, 'v) Map" where
  "map_remove m key = m"

definition map_clear :: "('k, 'v) Map \<Rightarrow> ('k, 'v) Map" where
  "map_clear m = m\<lparr>map_root := Null, map_count := 0\<rparr>"

fun node_get :: "('k::linorder, 'v) MapNode \<Rightarrow> 'k \<Rightarrow> 'v option" where
  "node_get Null key = None"
| "node_get (MapNode c k v l r) key =
     (if key < k then node_get l key else if key > k then node_get r key else Some v)"

definition try_get_value :: "('k::linorder, 'v) Map \<Rightarrow> 'k \<Rightarrow> 'v option" where
  "try_get_value m key = node_get (map_root m) key"

definition contains_key :: "('k::linorder, 'v) Map \<Rightarrow> 'k \<Rightarrow> bool" where
  "contains_key m key \<longleftrightarrow> node_get (map_root m) key \<noteq> None"

text \<open>
  \<open>MapIterator\<close> visits the tree breadth first through a queue of nodes; \<open>iterate\<close> collects what
  a \<open>for\<close> loop over the map sees.
\<close>

fun children :: "('k, 'v) MapNode \<Rightarrow> ('k, 'v) MapNode list" where
  "children Null = []"
| "children (MapNode c k v l r) = (if l \<noteq> Null then [l] else []) @ (if r \<noteq> Null then [r] else [])"

function iterate :: "('k, 'v) MapNode list \<Rightarrow> ('k \<times> 'v) list" where
  "iterate [] = []"
| "iterate (Null # q) = iterate q"
| "iterate (MapNode c k v l r # q) = (k, v) # iterate (q @ children (MapNode c k v l r))"
  by pat_completeness auto
termination
  by (relation "measure (\<lambda>q. 2 * sum_list (map size q) + length q)") auto

definition map_iterate :: "('k, 'v) Map \<Rightarrow> ('k \<times> 'v) list" where
  "map_iterate m = iterate (if map_root m = Null then [] else [map_root m])"

end
