(* ===== verification/Util_Map_Correct.thy ===== *)
theory Util_Map_Correct
  imports Util_Map
begin

text \<open>
  Correctness of \<open>infos::util::Map\<close>: the tree stays a binary search tree and a red-black tree,
  lookup after insertion behaves like a finite map, insertion never meets a null
  grandparent, and iteration visits every entry once. The interface the rest of the kernel
  uses is the locale \<open>keyed_map\<close>.
\<close>

section \<open>Abstraction: the entries in key order\<close>

primrec inorder :: "('k, 'v) MapNode \<Rightarrow> ('k \<times> 'v) list" where
  "inorder Null = []"
| "inorder (MapNode c k v l r) = inorder l @ (k, v) # inorder r"

fun lctx :: "('k, 'v) frame list \<Rightarrow> ('k \<times> 'v) list" where
  "lctx [] = []"
| "lctx (Frame LeftOf c k v s # p) = lctx p"
| "lctx (Frame RightOf c k v s # p) = lctx p @ inorder s @ [(k, v)]"

fun rctx :: "('k, 'v) frame list \<Rightarrow> ('k \<times> 'v) list" where
  "rctx [] = []"
| "rctx (Frame LeftOf c k v s # p) = (k, v) # inorder s @ rctx p"
| "rctx (Frame RightOf c k v s # p) = rctx p"

definition keys_sorted :: "('k::linorder \<times> 'v) list \<Rightarrow> bool" where
  "keys_sorted xs \<longleftrightarrow> sorted_wrt (<) (map fst xs)"

definition zinorder :: "('k, 'v) zipper \<Rightarrow> ('k \<times> 'v) list" where
  "zinorder z = lctx (snd z) @ inorder (fst z) @ rctx (snd z)"

lemma inorder_zip_up: "inorder (zip_up t p) = zinorder (t, p)"
proof (induction p arbitrary: t)
  case (Cons f p)
  then show ?case by (cases f; cases "case f of Frame d c k v s \<Rightarrow> d") (auto simp: zinorder_def)
qed (simp add: zinorder_def)

lemma rebalance_step_recolour:
  "rebalance_step (x, f # Frame LeftOf gc gk gv (MapNode RED yk yv yl yr) # p) =
     Inr (MapNode RED gk gv (plug (frame_colour BLACK f) x) (MapNode BLACK yk yv yl yr), p)"
  "rebalance_step (x, f # Frame RightOf gc gk gv (MapNode RED yk yv yl yr) # p) =
     Inr (MapNode RED gk gv (MapNode BLACK yk yv yl yr) (plug (frame_colour BLACK f) x), p)"
  by simp_all

lemma rebalance_step_outer:
  "\<not> node_red y \<Longrightarrow> rebalance_step (x, Frame LeftOf fc fk fv fs # Frame LeftOf gc gk gv y # p) =
     Inr (x, Frame LeftOf BLACK fk fv (MapNode RED gk gv fs y) # p)"
  "\<not> node_red y \<Longrightarrow> rebalance_step (x, Frame RightOf fc fk fv fs # Frame RightOf gc gk gv y # p) =
     Inr (x, Frame RightOf BLACK fk fv (MapNode RED gk gv y fs) # p)"
  by simp_all

lemma rebalance_step_inner:
  "\<not> node_red y \<Longrightarrow> rebalance_step
       (MapNode xc xk xv xl xr, Frame RightOf fc fk fv fs # Frame LeftOf gc gk gv y # p) =
     Inr (MapNode fc fk fv fs xl, Frame LeftOf BLACK xk xv (MapNode RED gk gv xr y) # p)"
  "\<not> node_red y \<Longrightarrow> rebalance_step
       (MapNode xc xk xv xl xr, Frame LeftOf fc fk fv fs # Frame RightOf gc gk gv y # p) =
     Inr (MapNode fc fk fv xr fs, Frame RightOf BLACK xk xv (MapNode RED gk gv y xl) # p)"
  by simp_all

lemmas rebalance_step_eqs = rebalance_step_recolour rebalance_step_outer rebalance_step_inner

lemma node_red_iff: "node_red y \<longleftrightarrow> (\<exists>k v l r. y = MapNode RED k v l r)"
  by (cases y rule: node_red.cases) auto

lemma rebalance_step_inorder:
  assumes "x \<noteq> Null" and "rebalance_step (x, f # g # p) = Inr z'"
  shows "zinorder z' = zinorder (x, f # g # p)"
proof -
  obtain fd fc fk fv fs where f: "f = Frame fd fc fk fv fs" by (cases f)
  obtain gd gc gk gv y where g: "g = Frame gd gc gk gv y" by (cases g)
  obtain xc xk xv xl xr where x: "x = MapNode xc xk xv xl xr" using assms(1) by (cases x) auto
  show ?thesis
    using assms(2) unfolding f g x
    by (cases fd; cases gd; cases "node_red y")
      (auto simp: node_red_iff rebalance_step_eqs zinorder_def simp del: rebalance_step.simps)
qed

section \<open>The red-black invariant\<close>

primrec bheight :: "('k, 'v) MapNode \<Rightarrow> nat" where
  "bheight Null = 0"
| "bheight (MapNode c k v l r) = bheight l + (if c = BLACK then 1 else 0)"

primrec invh :: "('k, 'v) MapNode \<Rightarrow> bool" where
  "invh Null = True"
| "invh (MapNode c k v l r) = (bheight l = bheight r \<and> invh l \<and> invh r)"

primrec invc :: "('k, 'v) MapNode \<Rightarrow> bool" where
  "invc Null = True"
| "invc (MapNode c k v l r) = ((c = RED \<longrightarrow> \<not> node_red l \<and> \<not> node_red r) \<and> invc l \<and> invc r)"

text \<open>
  The same invariant for the path of a zipper: \<open>hpath n p\<close> for a subtree of black height \<open>n\<close>;
  \<open>cpath p\<close> says that a red ancestor has a black parent, so the root is black.
\<close>

fun hpath :: "nat \<Rightarrow> ('k, 'v) frame list \<Rightarrow> bool" where
  "hpath n [] = True"
| "hpath n (Frame d c k v s # p) =
     (bheight s = n \<and> invh s \<and> hpath (if c = BLACK then n + 1 else n) p)"

fun red_path :: "('k, 'v) frame list \<Rightarrow> bool" where
  "red_path (Frame d RED k v s # p) = True"
| "red_path _ = False"

fun cpath :: "('k, 'v) frame list \<Rightarrow> bool" where
  "cpath [] = True"
| "cpath (Frame d c k v s # p) =
     (invc s \<and> (c = RED \<longrightarrow> \<not> node_red s \<and> p \<noteq> [] \<and> \<not> red_path p) \<and> cpath p)"

lemma parent_red_path [simp]: "parent_red (x, p) = red_path p"
  by (cases p rule: red_path.cases) auto

lemma red_path_Frame [simp]: "red_path (Frame d c k v s # p) \<longleftrightarrow> c = RED"
  by (cases c) auto

lemma node_red_node [simp]: "node_red (MapNode c k v l r) \<longleftrightarrow> c = RED"
  by (cases c) auto

declare red_path.simps(1) [simp del] node_red.simps(1) [simp del]

definition zinv :: "('k, 'v) zipper \<Rightarrow> bool" where
  "zinv z \<longleftrightarrow> node_red (fst z) \<and> invc (fst z) \<and> invh (fst z) \<and>
     hpath (bheight (fst z)) (snd z) \<and> cpath (snd z)"

lemma red_path_parents:
  assumes "cpath p" and "red_path p"
  obtains fd fk fv fs gd gk gv y q where
    "p = Frame fd RED fk fv fs # Frame gd BLACK gk gv y # q"
proof -
  from assms(2) obtain fd fk fv fs p' where p: "p = Frame fd RED fk fv fs # p'"
    by (cases p rule: red_path.cases) auto
  with assms(1) obtain g q where "p' = g # q" "\<not> red_path p'" by (cases p') auto
  then obtain gd gc gk gv y where "p' = Frame gd gc gk gv y # q" "gc \<noteq> RED" by (cases g) auto
  then have "p' = Frame gd BLACK gk gv y # q" by (cases gc) auto
  with p that show thesis by blast
qed

lemma Colour_not_RED: "c \<noteq> RED \<longleftrightarrow> c = BLACK"
  by (cases c) auto

lemma rebalance_step_inv:
  assumes z: "zinv (x, p)" and red: "red_path p"
  shows "\<exists>z'. rebalance_step (x, p) = Inr z' \<and> zinv z' \<and> zinorder z' = zinorder (x, p)"
proof -
  obtain fd fk fv fs gd gk gv y q where p: "p = Frame fd RED fk fv fs # Frame gd BLACK gk gv y # q"
    using red_path_parents z red by (metis snd_conv zinv_def)
  obtain xk xv xl xr where x: "x = MapNode RED xk xv xl xr"
    using z by (auto simp: zinv_def node_red_iff)
  obtain z' where z': "rebalance_step (x, p) = Inr z'" "zinv z'"
  proof (cases "node_red y")
    case True
    then obtain yk yv yl yr where "y = MapNode RED yk yv yl yr" by (auto simp: node_red_iff)
    with z p x that show thesis
      by (cases fd; cases gd) (auto simp: rebalance_step_eqs zinv_def simp del: rebalance_step.simps)
  next
    case False
    with z p x that show thesis
      by (cases fd; cases gd) (auto simp: rebalance_step_eqs zinv_def simp del: rebalance_step.simps)
  qed
  moreover have "zinorder z' = zinorder (x, p)"
    using rebalance_step_inorder z'(1) unfolding p x by blast
  ultimately show ?thesis by blast
qed

lemma rebalance_loop_inv:
  assumes "zinv z"
  shows "\<exists>x p. rebalance_loop z = Inr (x, p) \<and> zinv (x, p) \<and> \<not> red_path p \<and> zinorder (x, p) = zinorder z"
  using assms
proof (induction z rule: rebalance_loop.induct)
  case (1 z)
  show ?case
  proof (cases "red_path (snd z)")
    case True
    obtain z' where z': "rebalance_step z = Inr z'" "zinv z'" "zinorder z' = zinorder z"
      using rebalance_step_inv [of "fst z" "snd z"] 1(2) True by auto
    have "parent_red z" using True parent_red_path [of "fst z" "snd z"] by simp
    with 1(1) [OF this z'(1,2)] z' show ?thesis by (subst rebalance_loop.simps) auto
  next
    case False
    then have "\<not> parent_red z" using parent_red_path [of "fst z" "snd z"] by simp
    with False 1(2) show ?thesis by (subst rebalance_loop.simps) (auto simp: prod_eq_iff)
  qed
qed

lemma invc_zip_up:
  assumes "cpath p" and "invc x" and "red_path p \<longrightarrow> \<not> node_red x"
  shows "invc (zip_up x p)"
  using assms
proof (induction p arbitrary: x)
  case (Cons f p)
  obtain d c k v s where f: "f = Frame d c k v s" by (cases f)
  with Cons.prems have "invc (plug f x)" "node_red (plug f x) \<longleftrightarrow> c = RED" by (cases d; auto)+
  with Cons f show ?case by auto
qed simp

lemma invh_zip_up: "hpath (bheight x) p \<Longrightarrow> invh x \<Longrightarrow> invh (zip_up x p)"
proof (induction p arbitrary: x)
  case (Cons f p)
  obtain d c k v s where f: "f = Frame d c k v s" by (cases f)
  with Cons show ?case by (cases d; cases c) auto
qed simp

lemma zip_up_black: "cpath p \<Longrightarrow> (p = [] \<Longrightarrow> \<not> node_red x) \<Longrightarrow> \<not> node_red (zip_up x p)"
proof (induction p arbitrary: x)
  case (Cons f p)
  obtain d c k v s where f: "f = Frame d c k v s" by (cases f)
  with Cons show ?case by (cases d; cases p) auto
qed simp

definition rbt :: "('k, 'v) MapNode \<Rightarrow> bool" where
  "rbt t \<longleftrightarrow> invc t \<and> invh t \<and> \<not> node_red t"

lemma rebalance_insert_inv:
  assumes "zinv (x, p)"
  shows "\<exists>t. rebalance_insert (x, p) = Inr t \<and> rbt t \<and> inorder t = zinorder (x, p)"
proof -
  obtain k v l r where x: "x = MapNode RED k v l r" using assms by (auto simp: zinv_def node_red_iff)
  obtain y q where y: "rebalance_loop (x, p) = Inr (y, q)" "zinv (y, q)" "\<not> red_path q"
    "zinorder (y, q) = zinorder (x, p)" using rebalance_loop_inv [OF assms] by blast
  have inv: "invc (zip_up y q)" "invh (zip_up y q)"
    using y(2,3) by (auto simp: zinv_def intro: invc_zip_up invh_zip_up)
  have in_eq: "inorder (zip_up y q) = zinorder (x, p)" using y(4) by (simp add: inorder_zip_up)
  obtain c k' v' l' r' where t: "zip_up y q = MapNode c k' v' l' r'"
    using in_eq x by (cases "zip_up y q") (auto simp: zinorder_def)
  with inv in_eq y(1) x show ?thesis
    by (auto simp: rebalance_insert_def rbt_def)
qed

section \<open>The descent of add\<close>

definition between :: "'k::linorder \<Rightarrow> ('k, 'v) frame list \<Rightarrow> bool" where
  "between key p \<longleftrightarrow> (\<forall>(k, v) \<in> set (lctx p). k < key) \<and> (\<forall>(k, v) \<in> set (rctx p). key < k)"

lemma keys_sorted_append:
  "keys_sorted (xs @ ys) \<longleftrightarrow> keys_sorted xs \<and> keys_sorted ys \<and>
     (\<forall>(a, b) \<in> set xs. \<forall>(c, d) \<in> set ys. a < c)"
  unfolding keys_sorted_def by (auto simp: sorted_wrt_append split_def)

lemma keys_sorted_Cons:
  "keys_sorted ((k, v) # xs) \<longleftrightarrow> keys_sorted xs \<and> (\<forall>(a, b) \<in> set xs. k < a)"
  unfolding keys_sorted_def by (auto simp: split_def)

lemma keys_sorted_Nil [simp]: "keys_sorted []"
  by (simp add: keys_sorted_def)

lemma keys_sorted_appendD:
  "keys_sorted (xs @ ys) \<Longrightarrow> keys_sorted xs" "keys_sorted (xs @ ys) \<Longrightarrow> keys_sorted ys"
  by (simp_all add: keys_sorted_append)

lemma keys_sorted_below:
  assumes "keys_sorted ((k, v) # ys)" and "key < k"
  shows "\<forall>(a, b) \<in> set ((k, v) # ys). key < a"
proof -
  have "\<forall>(a, b) \<in> set ys. k < a" using assms(1) by (simp add: keys_sorted_Cons)
  with assms(2) less_trans [OF assms(2)] show ?thesis by (simp add: split_def)
qed

lemma keys_sorted_insert:
  assumes "keys_sorted (xs @ ys)" and "\<forall>(a, b) \<in> set xs. a < key" and "\<forall>(a, b) \<in> set ys. key < a"
  shows "keys_sorted (xs @ (key, val) # ys)"
  using assms by (auto simp: keys_sorted_append keys_sorted_Cons)

definition zpre :: "('k::linorder, 'v) zipper \<Rightarrow> bool" where
  "zpre z \<longleftrightarrow> invc (fst z) \<and> invh (fst z) \<and> hpath (bheight (fst z)) (snd z) \<and> cpath (snd z) \<and>
     (node_red (fst z) \<longrightarrow> snd z \<noteq> [] \<and> \<not> red_path (snd z)) \<and> keys_sorted (zinorder z)"

lemma find_owner_spec:
  assumes "zpre (t, p)" and "between key p" and "t \<noteq> Null" and "find_owner key t p = (o', q)"
  shows "\<exists>c k v l r. o' = MapNode c k v l r \<and> zpre (o', q) \<and> between key q \<and>
    zinorder (o', q) = zinorder (t, p) \<and>
    (key = k \<or> key < k \<and> l = Null \<or> k < key \<and> r = Null)"
  using assms
proof (induction key t p rule: find_owner.induct)
  case (1 key c k v l r p)
  have "keys_sorted (zinorder (MapNode c k v l r, p))" using 1(3) by (simp add: zpre_def)
  then have "keys_sorted (inorder l @ (k, v) # inorder r)"
    unfolding zinorder_def fst_conv snd_conv inorder.simps by (rule keys_sorted_appendD(1) [OF keys_sorted_appendD(2)])
  then have side: "\<forall>(a, b) \<in> set (inorder l). a < k" "\<forall>(a, b) \<in> set (inorder r). k < a"
    by (auto simp: keys_sorted_append keys_sorted_Cons)
  consider "key < k" "l \<noteq> Null" | "k < key" "r \<noteq> Null" |
    "key = k \<or> key < k \<and> l = Null \<or> k < key \<and> r = Null"
    using less_linear [of key k] by blast
  then show ?case
  proof cases
    case a: 1
    have z: "zinorder (l, Frame LeftOf c k v r # p) = zinorder (MapNode c k v l r, p)" by (simp add: zinorder_def)
    have "zpre (l, Frame LeftOf c k v r # p)" using 1(3) z by (auto simp: zpre_def Colour_not_RED)
    moreover have "between key (Frame LeftOf c k v r # p)"
      using 1(4) a(1) side(2) less_trans [OF a(1)] by (auto simp: between_def)
    ultimately show ?thesis using 1(1) [OF a(1,2)] a 1(6) z by auto
  next
    case b: 2
    then have nk: "\<not> key < k" by simp
    have z: "zinorder (r, Frame RightOf c k v l # p) = zinorder (MapNode c k v l r, p)" by (simp add: zinorder_def)
    have "zpre (r, Frame RightOf c k v l # p)" using 1(3) z by (auto simp: zpre_def Colour_not_RED)
    moreover have "between key (Frame RightOf c k v l # p)"
      using 1(4) b(1) side(1) less_trans [OF _ b(1)] by (auto simp: between_def)
    ultimately show ?thesis using 1(2) [OF nk b] b nk 1(6) z by auto
  next
    case 3
    then have "find_owner key (MapNode c k v l r) p = (MapNode c k v l r, p)"
      using less_not_sym [of key k] by auto
    with 3 1(3,4,6) show ?thesis by auto
  qed
qed auto

section \<open>Operations on well-formed maps\<close>

definition map_ok :: "('k::linorder, 'v) Map \<Rightarrow> bool" where
  "map_ok m \<longleftrightarrow> keys_sorted (inorder (map_root m)) \<and> rbt (map_root m) \<and>
     map_count m = word_of_nat (length (inorder (map_root m)))"

lemma map_of_sorted_insert:
  assumes "\<forall>(a, b) \<in> set xs. a \<noteq> k"
  shows "map_of (xs @ (k, v) # ys) = (map_of (xs @ ys))(k \<mapsto> v)"
  using assms by (induction xs) (auto simp: fun_upd_twist)

lemma map_of_sorted_update:
  assumes "\<forall>(a, b) \<in> set xs. a \<noteq> k"
  shows "map_of (xs @ (k, v) # ys) = (map_of (xs @ (k, u) # ys))(k \<mapsto> v)"
  using assms by (induction xs) (auto simp: fun_upd_twist)

lemma node_get_map_of: "keys_sorted (inorder t) \<Longrightarrow> node_get t key = map_of (inorder t) key"
proof (induction t)
  case (MapNode c k v l r)
  have s: "keys_sorted (inorder l)" "keys_sorted (inorder r)"
    "\<forall>(a, b) \<in> set (inorder l). a < k" "\<forall>(a, b) \<in> set (inorder r). k < a"
    using MapNode.prems by (auto simp: keys_sorted_append keys_sorted_Cons)
  have l: "map_of (inorder l) key = None" if "\<not> key < k"
    using s(3) that by (auto simp: map_of_eq_None_iff)
  have r: "map_of (inorder r) key = None" if "key < k"
    using s(4) that by (auto simp: map_of_eq_None_iff)
  show ?case
    using MapNode.IH s(1,2) l r by (auto simp: map_add_def fun_upd_apply split: option.splits)
qed simp

lemma new_leaf_zinv:
  assumes "zpre (MapNode c k v l r, q)"
  shows "l = Null \<Longrightarrow> zinv (MapNode RED key val Null Null, Frame LeftOf c k v r # q)"
    and "r = Null \<Longrightarrow> zinv (MapNode RED key val Null Null, Frame RightOf c k v l # q)"
  using assms by (auto simp: zpre_def zinv_def Colour_not_RED)

lemma Map_add_new:
  assumes ok: "map_ok m" and fo: "find_owner key (map_root m) [] = (MapNode c k v l r, q)"
    and ne: "key \<noteq> k" and zi: "zinv z"
    and z: "z = (if key < k then (MapNode RED key val Null Null, Frame LeftOf c k v r # q)
      else (MapNode RED key val Null Null, Frame RightOf c k v l # q))"
    and srt: "keys_sorted (zinorder z)" and mo: "map_of (zinorder z) = (map_of (inorder (map_root m)))(key \<mapsto> val)"
    and len: "length (zinorder z) = Suc (length (inorder (map_root m)))"
  shows "\<exists>m'. Map_add m key val = Inr m' \<and> map_ok m' \<and>
    (\<forall>k'. try_get_value m' k' = (if k' = key then Some val else try_get_value m k'))"
proof -
  obtain t where t: "rebalance_insert z = Inr t" "rbt t" "inorder t = zinorder z"
    using rebalance_insert_inv [of "fst z" "snd z"] zi by auto
  have ks: "keys_sorted (inorder t)" "keys_sorted (inorder (map_root m))"
    using t(3) srt ok by (simp_all add: map_ok_def)
  have "Map_add m key val = Inr \<lparr>map_root = t, map_count = map_count m + 1\<rparr>"
    using t(1) fo ne z by (simp add: Map_add_def)
  moreover have "map_ok \<lparr>map_root = t, map_count = map_count m + 1\<rparr>"
    using ok t ks(1) len by (simp add: map_ok_def)
  ultimately show ?thesis
    using ks t(3) mo by (simp add: try_get_value_def node_get_map_of)
qed

lemma Map_add_law:
  assumes ok: "map_ok m"
  shows "\<exists>m'. Map_add m key val = Inr m' \<and> map_ok m' \<and>
    (\<forall>k'. try_get_value m' k' = (if k' = key then Some val else try_get_value m k'))"
proof (cases "map_root m = Null")
  case True
  with ok show ?thesis
    by (auto simp: Map_add_def map_ok_def rbt_def try_get_value_def keys_sorted_def)
next
  case False
  obtain o' q where fo: "find_owner key (map_root m) [] = (o', q)" by fastforce
  have zp: "zpre (map_root m, [])" "between key []"
    using ok by (auto simp: map_ok_def zpre_def rbt_def zinorder_def between_def)
  have "zinorder (map_root m, []) = inorder (map_root m)" by (simp add: zinorder_def)
  with find_owner_spec [OF zp False fo] obtain c k v l r where o': "o' = MapNode c k v l r" "zpre (o', q)" "between key q"
    "zinorder (o', q) = inorder (map_root m)" "key = k \<or> key < k \<and> l = Null \<or> k < key \<and> r = Null"
    by metis
  let ?n = "MapNode RED key val Null Null"
  have srt: "keys_sorted (zinorder (o', q))" using o'(2) by (simp add: zpre_def)
  consider "key = k" | "key < k" "l = Null" | "k < key" "r = Null" using o'(5) by blast
  then show ?thesis
  proof cases
    case 1
    let ?t = "zip_up (MapNode c k val l r) q"
    have "rbt ?t" unfolding rbt_def
      using o'(1,2) by (intro conjI invc_zip_up invh_zip_up zip_up_black) (auto simp: zpre_def)
    moreover have io: "inorder ?t = (lctx q @ inorder l) @ (k, val) # inorder r @ rctx q"
      "inorder (map_root m) = (lctx q @ inorder l) @ (k, v) # inorder r @ rctx q"
      using o'(1,4) by (simp_all add: inorder_zip_up zinorder_def)
    moreover have ks: "keys_sorted (inorder ?t)"
      using srt o'(1,4) unfolding io by (simp add: zinorder_def keys_sorted_def)
    moreover have "map_of (inorder ?t) = (map_of (inorder (map_root m)))(k \<mapsto> val)"
      unfolding io by (rule map_of_sorted_update) (use ks in \<open>auto simp: io keys_sorted_append\<close>)
    ultimately show ?thesis
      using ok 1 fo o'(1) by (auto simp: Map_add_def map_ok_def try_get_value_def node_get_map_of)
  next
    case 2
    have zo: "zinorder (?n, Frame LeftOf c k v r # q) = lctx q @ (key, val) # (k, v) # inorder r @ rctx q"
      "inorder (map_root m) = lctx q @ (k, v) # inorder r @ rctx q"
      using o'(1,4) 2 by (simp_all add: zinorder_def)
    have ks: "keys_sorted (zinorder (?n, Frame LeftOf c k v r # q))"
      unfolding zo(1)
    proof (rule keys_sorted_insert)
      show "keys_sorted (lctx q @ (k, v) # inorder r @ rctx q)" using srt o'(4) zo(2) by simp
      then have "keys_sorted ((k, v) # inorder r @ rctx q)" by (rule keys_sorted_appendD(2))
      then show "\<forall>(a, b) \<in> set ((k, v) # inorder r @ rctx q). key < a"
        by (rule keys_sorted_below [OF _ 2(1)])
    qed (use o'(3) in \<open>simp add: between_def\<close>)
    have "map_of (zinorder (?n, Frame LeftOf c k v r # q)) = (map_of (inorder (map_root m)))(key \<mapsto> val)"
      unfolding zo by (rule map_of_sorted_insert) (use o'(3) in \<open>auto simp: between_def\<close>)
    then show ?thesis
      using Map_add_new [OF ok fo [unfolded o'(1)] _ new_leaf_zinv(1) [of c k v l r q key val], of val] 2 o'(1,2) ks zo by simp
  next
    case 3
    have zo: "zinorder (?n, Frame RightOf c k v l # q) = (lctx q @ inorder l @ [(k, v)]) @ (key, val) # rctx q"
      "inorder (map_root m) = (lctx q @ inorder l @ [(k, v)]) @ rctx q"
      using o'(1,4) 3 by (simp_all add: zinorder_def)
    have ks: "keys_sorted (zinorder (?n, Frame RightOf c k v l # q))"
      unfolding zo(1)
    proof (rule keys_sorted_insert)
      show "keys_sorted ((lctx q @ inorder l @ [(k, v)]) @ rctx q)" using srt o'(4) zo(2) by simp
      then have "keys_sorted (lctx q @ inorder l @ [(k, v)])" by (rule keys_sorted_appendD(1))
      then show "\<forall>(a, b) \<in> set (lctx q @ inorder l @ [(k, v)]). a < key"
        using 3(1) less_trans [OF _ 3(1)] by (auto simp: keys_sorted_append)
    qed (use o'(3) in \<open>simp add: between_def\<close>)
    have "map_of (zinorder (?n, Frame RightOf c k v l # q)) = (map_of (inorder (map_root m)))(key \<mapsto> val)"
      unfolding zo by (rule map_of_sorted_insert) (use ks 3(1) in \<open>auto simp: zo keys_sorted_append\<close>)
    then show ?thesis
      using Map_add_new [OF ok fo [unfolded o'(1)] _ new_leaf_zinv(2) [of c k v l r q key val], of val] 3 o'(1,2) ks zo by simp
  qed
qed

section \<open>Height and iteration\<close>

primrec height :: "('k, 'v) MapNode \<Rightarrow> nat" where
  "height Null = 0"
| "height (MapNode c k v l r) = Suc (max (height l) (height r))"

lemma bheight_size: "invh t \<Longrightarrow> 2 ^ bheight t \<le> Suc (length (inorder t))"
proof (induction t)
  case (MapNode c k v l r)
  then have "2 ^ bheight l \<le> Suc (length (inorder l))" "2 ^ bheight l \<le> Suc (length (inorder r))" by auto
  then show ?case by simp
qed simp

lemma height_bheight: "invc t \<Longrightarrow> invh t \<Longrightarrow> height t \<le> 2 * bheight t + (if node_red t then 1 else 0)"
proof (induction t)
  case (MapNode c k v l r)
  then have "height l \<le> 2 * bheight l + (if node_red l then 1 else 0)"
    "height r \<le> 2 * bheight l + (if node_red r then 1 else 0)" by auto
  then show ?case using MapNode.prems(1) by (cases c) (auto split: if_splits)
qed simp

lemma rbt_height: "rbt t \<Longrightarrow> 2 ^ (height t div 2) \<le> Suc (length (inorder t))"
proof -
  assume t: "rbt t"
  then have "height t \<le> 2 * bheight t" using height_bheight [of t] by (simp add: rbt_def)
  then have "height t div 2 \<le> bheight t" by linarith
  then have "(2::nat) ^ (height t div 2) \<le> 2 ^ bheight t" by (simp add: power_increasing)
  also have "\<dots> \<le> Suc (length (inorder t))" using t by (simp add: rbt_def bheight_size)
  finally show ?thesis .
qed

lemma mset_iterate: "mset (iterate q) = sum_list (map (mset \<circ> inorder) q)"
  by (induction q rule: iterate.induct) (auto simp: add.assoc)

lemma mset_map_iterate: "mset (map_iterate m) = mset (inorder (map_root m))"
  by (simp add: map_iterate_def mset_iterate)

lemma map_iterate_lookup:
  assumes "map_ok m"
  shows "distinct (map fst (map_iterate m)) \<and> (\<forall>k v. (k, v) \<in> set (map_iterate m) \<longleftrightarrow> try_get_value m k = Some v)"
proof -
  have ks: "keys_sorted (inorder (map_root m))" using assms by (simp add: map_ok_def)
  have d: "distinct (map fst (inorder (map_root m)))"
    using ks unfolding keys_sorted_def by (simp add: strict_sorted_iff)
  have "mset (map fst (map_iterate m)) = mset (map fst (inorder (map_root m)))"
    using mset_map_iterate [of m] by simp
  then have "distinct (map fst (map_iterate m))" using d by (metis mset_eq_imp_distinct_iff)
  moreover have "set (map_iterate m) = set (inorder (map_root m))"
    using mset_map_iterate [of m] by (metis set_mset_mset)
  ultimately show ?thesis
    using d ks by (simp add: try_get_value_def node_get_map_of)
qed

section \<open>The interface other components use\<close>

locale keyed_map =
  fixes empty :: 'm
    and add :: "'m \<Rightarrow> 'k \<Rightarrow> 'v \<Rightarrow> 'm result"
    and get :: "'m \<Rightarrow> 'k \<Rightarrow> 'v option"
    and ok :: "'m \<Rightarrow> bool"
  assumes ok_empty: "ok empty"
    and get_empty: "get empty k = None"
    and add_law: "ok m \<Longrightarrow> \<exists>m'. add m k v = Inr m' \<and> ok m' \<and>
      (\<forall>k'. get m' k' = (if k' = k then Some v else get m k'))"
begin

lemma add_all_get:
  assumes "ok m"
  shows "\<exists>m'. fold_result (\<lambda>m (k, v). add m k v) m es = Inr m' \<and> ok m' \<and>
    (\<forall>k. get m' k = (case map_of (rev es) k of None \<Rightarrow> get m k | Some v \<Rightarrow> Some v))"
  using assms
proof (induction es arbitrary: m)
  case (Cons e es)
  obtain m1 where m1: "add m (fst e) (snd e) = Inr m1" "ok m1"
    "\<forall>k'. get m1 k' = (if k' = fst e then Some (snd e) else get m k')"
    using add_law [OF Cons.prems] by blast
  obtain m' where m': "fold_result (\<lambda>m (k, v). add m k v) m1 es = Inr m'" "ok m'"
    "\<forall>k. get m' k = (case map_of (rev es) k of None \<Rightarrow> get m1 k | Some v \<Rightarrow> Some v)"
    using Cons.IH [OF m1(2)] by blast
  with m1 show ?case by (cases e) (auto simp: map_add_def split: option.splits)
qed simp

end

interpretation rb: keyed_map map_empty Map_add try_get_value map_ok
proof unfold_locales
  show "map_ok (map_empty :: ('k::linorder, 'v) Map)"
    by (simp add: map_empty_def map_ok_def rbt_def)
  show "try_get_value (map_empty :: ('k::linorder, 'v) Map) k = None" for k
    by (simp add: map_empty_def try_get_value_def)
qed (rule Map_add_law)

section \<open>Properties\<close>

text \<open>
  C9 (\<open>map.h\<close>, \<open>Map::add\<close>). On a well-formed map, \<open>add\<close> returns without dereferencing a null
  parent or grandparent and without a failed assertion, the result is again a red-black
  search tree with the right count, and lookups see exactly the new binding.
\<close>
theorem map_add_correct:
  fixes m :: "('k::linorder, 'v) Map"
  assumes "map_ok m"
  shows "\<exists>m'. Map_add m key val = Inr m' \<and> map_ok m' \<and>
    (\<forall>k. try_get_value m' k = (if k = key then Some val else try_get_value m k))"
  by (rule Map_add_law [OF assms])

theorem map_add_correct_witness:
  "\<exists>m'. Map_add (map_empty :: (nat, nat) Map) 3 7 = Inr m' \<and> try_get_value m' 3 = Some 7"
  using map_add_correct [OF rb.ok_empty, of "3::nat" "7::nat"] by auto

text \<open>
  (\<open>map.h\<close>, \<open>Map\<close>). Building a map by insertions from the empty map always succeeds; a
  lookup returns the value of the last insertion of the key, the number of steps of a
  lookup is at most twice the logarithm of the number of entries, and iterating over the
  map visits every key once, with the value a lookup returns.
\<close>
theorem map_build_correct:
  fixes es :: "('k::linorder \<times> 'v) list"
  shows "\<exists>m. fold_result (\<lambda>m (k, v). Map_add m k v) map_empty es = Inr m \<and> (\<forall>k. try_get_value m k = map_of (rev es) k) \<and>
    2 ^ (height (map_root m) div 2) \<le> length (map_iterate m) + 1 \<and>
    distinct (map fst (map_iterate m)) \<and>
    (\<forall>k v. (k, v) \<in> set (map_iterate m) \<longleftrightarrow> try_get_value m k = Some v)"
proof -
  obtain m where m: "fold_result (\<lambda>m (k, v). Map_add m k v) map_empty es = Inr m" "map_ok m"
    "\<forall>k. try_get_value m k = (case map_of (rev es) k of None \<Rightarrow> try_get_value map_empty k | Some v \<Rightarrow> Some v)"
    using rb.add_all_get [OF rb.ok_empty] by blast
  have "length (map_iterate m) = length (inorder (map_root m))"
    using mset_map_iterate [of m] by (metis size_mset)
  with m(2) rbt_height [of "map_root m"] have "2 ^ (height (map_root m) div 2) \<le> length (map_iterate m) + 1"
    by (simp add: map_ok_def)
  with m map_iterate_lookup [OF m(2)] show ?thesis
    by (auto simp: rb.get_empty split: option.splits)
qed

end
