(* ===== verification/Util_List.thy ===== *)
theory Util_List
  imports Prelude
begin

text \<open>
  \<open>infos::util::List\<close> (\<open>infos/include/infos/util/list.h\<close>), the kernel's singly linked list. Every
  node belongs to one list, so the chain of \<open>Next\<close> pointers is a HOL list; the separate
  \<open>unsigned int\<close> counter is kept, with its wrap-around.
\<close>

record 'a List =
  elems :: "'a list"
  lcount :: u32

definition List_new :: "'a List" where
  "List_new = \<lparr>elems = [], lcount = 0\<rparr>"

definition list_append :: "'a List \<Rightarrow> 'a \<Rightarrow> 'a List" where
  "list_append l x = \<lparr>elems = elems l @ [x], lcount = lcount l + 1\<rparr>"

text \<open>The walk of \<open>remove\<close> to the first node with the element; \<open>None\<close> when there is none.\<close>

fun remove_walk :: "'a \<Rightarrow> 'a list \<Rightarrow> 'a list option" where
  "remove_walk x [] = None"
| "remove_walk x (y # ys) =
     (if y \<noteq> x then (case remove_walk x ys of None \<Rightarrow> None | Some zs \<Rightarrow> Some (y # zs)) else Some ys)"

definition list_remove :: "'a List \<Rightarrow> 'a \<Rightarrow> 'a List" where
  "list_remove l x =
     (case remove_walk x (elems l) of
        None \<Rightarrow> l
      | Some zs \<Rightarrow> \<lparr>elems = zs, lcount = lcount l - 1\<rparr>)"

definition dequeue :: "'a List \<Rightarrow> ('a \<times> 'a List) result" where
  "dequeue l =
     (case elems l of
        [] \<Rightarrow> Inl AssertFail
      | x # xs \<Rightarrow> Inr (x, \<lparr>elems = xs, lcount = lcount l - 1\<rparr>))"

definition enqueue :: "'a List \<Rightarrow> 'a \<Rightarrow> 'a List" where
  "enqueue l x = list_append l x"

definition push :: "'a List \<Rightarrow> 'a \<Rightarrow> 'a List" where
  "push l x = \<lparr>elems = x # elems l, lcount = lcount l + 1\<rparr>"

definition pop :: "'a List \<Rightarrow> ('a \<times> 'a List) result" where
  "pop l = dequeue l"

definition list_first :: "'a List \<Rightarrow> 'a result" where
  "list_first l = (case elems l of [] \<Rightarrow> Inl AssertFail | x # xs \<Rightarrow> Inr x)"

fun last_walk :: "'a \<Rightarrow> 'a list \<Rightarrow> 'a" where
  "last_walk x [] = x"
| "last_walk x (y # ys) = last_walk y ys"

definition list_last :: "'a List \<Rightarrow> 'a result" where
  "list_last l = (case elems l of [] \<Rightarrow> Inl AssertFail | x # xs \<Rightarrow> Inr (last_walk x xs))"

text \<open>\<open>at\<close> counts up from 0 until the index or the end of the list; a negative index is never met.\<close>

fun at_walk :: "int \<Rightarrow> int \<Rightarrow> 'a list \<Rightarrow> 'a result" where
  "at_walk ctr index [] = Inl AssertFail"
| "at_walk ctr index (x # xs) = (if ctr \<noteq> index then at_walk (ctr + 1) index xs else Inr x)"

definition list_at :: "'a List \<Rightarrow> int \<Rightarrow> 'a result" where
  "list_at l index = at_walk 0 index (elems l)"

definition list_empty :: "'a List \<Rightarrow> bool" where
  "list_empty l \<longleftrightarrow> lcount l = 0"

definition list_clear :: "'a List \<Rightarrow> 'a List" where
  "list_clear l = \<lparr>elems = [], lcount = 0\<rparr>"

definition list_copy :: "'a List \<Rightarrow> 'a List" where
  "list_copy r = foldl list_append List_new (elems r)"

definition list_move :: "'a List \<Rightarrow> 'a List \<times> 'a List" where
  "list_move r = (\<lparr>elems = elems r, lcount = lcount r\<rparr>, \<lparr>elems = [], lcount = 0\<rparr>)"

section \<open>The counter and the elements agree\<close>

definition list_ok :: "'a List \<Rightarrow> bool" where
  "list_ok l \<longleftrightarrow> lcount l = word_of_nat (length (elems l))"

lemma remove_walk_eq: "remove_walk x xs = (if x \<in> set xs then Some (remove1 x xs) else None)"
  by (induction xs) auto

lemma elems_simps [simp]:
  "elems (list_append l x) = elems l @ [x]" "elems (enqueue l x) = elems l @ [x]"
  "elems (list_remove l x) = remove1 x (elems l)" "elems (push l x) = x # elems l"
  "elems List_new = []" "elems (list_clear l) = []"
  by (simp_all add: list_append_def enqueue_def list_remove_def push_def List_new_def list_clear_def
      remove_walk_eq remove1_idem)

lemma list_ok_intros [intro, simp]:
  "list_ok List_new"
  "list_ok l \<Longrightarrow> list_ok (list_append l x)"
  "list_ok l \<Longrightarrow> list_ok (enqueue l x)"
  "list_ok l \<Longrightarrow> list_ok (push l x)"
  "list_ok (list_clear l)"
  by (simp_all add: list_ok_def List_new_def list_append_def enqueue_def push_def list_clear_def)

lemma list_ok_remove [intro, simp]:
  assumes "list_ok l"
  shows "list_ok (list_remove l x)"
proof (cases "x \<in> set (elems l)")
  case True
  then have "length (elems l) = Suc (length (remove1 x (elems l)))"
    by (metis One_nat_def Suc_pred length_pos_if_in_set length_remove1)
  with assms True show ?thesis by (simp add: list_ok_def list_remove_def remove_walk_eq)
next
  case False
  with assms show ?thesis by (simp add: list_ok_def list_remove_def remove_walk_eq)
qed

lemma dequeue_cons: "elems l = x # xs \<Longrightarrow> list_ok l \<Longrightarrow> \<exists>l'. dequeue l = Inr (x, l') \<and> elems l' = xs \<and> list_ok l'"
  by (simp add: dequeue_def list_ok_def)

lemma list_empty_iff:
  assumes "list_ok l" and "length (elems l) < 2 ^ 32"
  shows "list_empty l \<longleftrightarrow> elems l = []"
proof -
  have "unat (word_of_nat (length (elems l)) :: u32) = length (elems l)"
    using assms(2) by (simp add: unsigned_of_nat take_bit_nat_eq_self)
  then have "unat (lcount l) = length (elems l)" using assms(1) by (simp add: list_ok_def)
  moreover have "lcount l = 0 \<longleftrightarrow> unat (lcount l) = 0" by (simp add: unat_eq_zero)
  ultimately show ?thesis by (simp add: list_empty_def)
qed

lemma list_at_nth:
  fixes l :: "'a List"
  shows "list_at l i = (if 0 \<le> i \<and> i < int (length (elems l)) then Inr (elems l ! nat i) else Inl AssertFail)"
proof -
  have "at_walk c i xs = (if c \<le> i \<and> i < c + int (length xs) then Inr (xs ! nat (i - c)) else Inl AssertFail)" for c and xs :: "'a list"
  proof (induction xs arbitrary: c)
    case (Cons x xs)
    show ?case
    proof (cases "c = i")
      case False
      have "nat (i - c) = Suc (nat (i - (c + 1)))" if "c + 1 \<le> i" using that by simp
      with False Cons.IH show ?thesis by auto
    qed simp
  qed simp
  then show ?thesis by (simp add: list_at_def)
qed

lemma last_walk_last: "last_walk x xs = last (x # xs)"
  by (induction xs arbitrary: x) auto

lemma list_copy_elems: "elems (list_copy r) = elems r \<and> list_ok (list_copy r)"
proof -
  have "elems (foldl list_append l xs) = elems l @ xs \<and> (list_ok l \<longrightarrow> list_ok (foldl list_append l xs))" for l :: "'a List" and xs
    by (induction xs arbitrary: l) auto
  then show ?thesis by (simp add: list_copy_def)
qed

section \<open>Properties\<close>

text \<open>
  (\<open>list.h\<close>). The queue operations keep the counter equal to the number of elements and
  refine the list functions: \<open>enqueue\<close> appends, \<open>remove\<close> takes out the first occurrence and
  nothing else, \<open>dequeue\<close> and \<open>pop\<close> return the oldest element and assert on an empty list, \<open>at\<close>
  is indexing and asserts outside the list (a negative index included).
\<close>
theorem list_operations_correct:
  assumes "list_ok l"
  shows "list_ok (enqueue l x) \<and> elems (enqueue l x) = elems l @ [x] \<and>
    list_ok (push l x) \<and> elems (push l x) = x # elems l \<and>
    list_ok (list_remove l x) \<and> elems (list_remove l x) = remove1 x (elems l) \<and>
    (case elems l of
       [] \<Rightarrow> dequeue l = Inl AssertFail \<and> list_first l = Inl AssertFail \<and> list_last l = Inl AssertFail
     | y # ys \<Rightarrow> \<exists>l'. dequeue l = Inr (y, l') \<and> elems l' = ys \<and> list_ok l' \<and>
         list_first l = Inr y \<and> list_last l = Inr (last (y # ys))) \<and>
    list_at l i = (if 0 \<le> i \<and> i < int (length (elems l)) then Inr (elems l ! nat i) else Inl AssertFail)"
  using assms dequeue_cons [of l]
  by (auto simp: list_at_nth dequeue_def list_first_def list_last_def last_walk_last split: list.splits)

theorem list_operations_correct_witness:
  "list_ok (list_remove (enqueue (enqueue List_new (1::nat)) 2) 1) \<and>
   elems (list_remove (enqueue (enqueue List_new (1::nat)) 2) 1) = [2]"
  using list_operations_correct [of "enqueue (enqueue List_new (1::nat)) 2" 1] by simp

end
