(* ===== verification/Core_List.thy ===== *)
theory Core_List
  imports Prelude
begin

text \<open>
  \<open>Commons::Collections::List\<close>, the circular doubly linked list the two coursework schedulers
  keep their run queue in (\<open>coursework/sched-rr.cpp\<close>; \<open>coursework/sched-fifo.cpp\<close> holds a copy of
  the same text). Nodes are numbers; the state holds the \<open>_data\<close>, \<open>_next\<close> and \<open>_prev\<close> fields of every
  node, the root, the count and the next unused node. Reference counting only decides when
  memory is reclaimed: a reachable node is never freed, and the model keeps the others.
  Loops over the ring spend one unit of fuel per node visited and start with the number
  of allocated nodes plus one.
\<close>

section \<open>State and operations\<close>

record 'a clist =
  data :: "nat \<Rightarrow> 'a"
  nextp :: "nat \<Rightarrow> ptr"
  prevp :: "nat \<Rightarrow> ptr"
  croot :: ptr
  ccount :: int
  fresh :: nat

definition ListNode :: "'a clist \<Rightarrow> 'a \<Rightarrow> nat \<times> 'a clist" where
  "ListNode L x = (fresh L, L\<lparr>data := (data L)(fresh L := x), nextp := (nextp L)(fresh L := None),
     prevp := (prevp L)(fresh L := None), fresh := Suc (fresh L)\<rparr>)"

definition AddAfter :: "'a clist \<Rightarrow> nat \<Rightarrow> nat \<Rightarrow> 'a clist result" where
  "AddAfter L newNode oldNode =
     (let L1 = L\<lparr>nextp := (nextp L)(newNode := nextp L oldNode)\<rparr>;
          L2 = L1\<lparr>prevp := (prevp L1)(newNode := Some oldNode)\<rparr> in
      andthen (deref (nextp L2 oldNode)) (\<lambda>n.
        let L3 = L2\<lparr>prevp := (prevp L2)(n := Some newNode)\<rparr>;
            L4 = L3\<lparr>nextp := (nextp L3)(oldNode := Some newNode)\<rparr>
        in Inr (L4\<lparr>ccount := ccount L4 + 1\<rparr>)))"

definition RemoveNode :: "'a clist \<Rightarrow> nat \<Rightarrow> 'a clist result" where
  "RemoveNode L node =
     andthen (deref (nextp L node)) (\<lambda>n.
     let L1 = L\<lparr>prevp := (prevp L)(n := prevp L node)\<rparr> in
     andthen (deref (prevp L1 node)) (\<lambda>p.
     let L2 = L1\<lparr>nextp := (nextp L1)(p := nextp L1 node)\<rparr>;
         L3 = (if croot L2 = Some node
               then if ccount L2 = 1 then L2\<lparr>croot := None\<rparr> else L2\<lparr>croot := nextp L2 node\<rparr>
               else L2)
     in Inr (L3\<lparr>ccount := ccount L3 - 1\<rparr>)))"

definition Insert :: "'a clist \<Rightarrow> 'a \<Rightarrow> ptr \<Rightarrow> (ptr \<times> 'a clist) result" where
  "Insert L elem node =
     (case node of
        None \<Rightarrow> Inr (None, L)
      | Some a \<Rightarrow> let (newNode, L1) = ListNode L elem
          in andthen (AddAfter L1 newNode a) (\<lambda>L2. Inr (Some newNode, L2)))"

definition singleton_ring :: "'a clist \<Rightarrow> nat \<Rightarrow> 'a clist" where
  "singleton_ring L n = L\<lparr>nextp := (nextp L)(n := Some n), prevp := (prevp L)(n := Some n), ccount := ccount L + 1\<rparr>"

definition AddToHead :: "'a clist \<Rightarrow> 'a \<Rightarrow> (nat \<times> 'a clist) result" where
  "AddToHead L elem =
     (let (newNode, L1) = ListNode L elem in
      andthen (case croot L1 of
                 Some r \<Rightarrow> andthen (deref (prevp L1 r)) (AddAfter L1 newNode)
               | None \<Rightarrow> Inr (singleton_ring L1 newNode)) (\<lambda>L2.
        Inr (newNode, L2\<lparr>croot := Some newNode\<rparr>)))"

definition AddToTail :: "'a clist \<Rightarrow> 'a \<Rightarrow> (nat \<times> 'a clist) result" where
  "AddToTail L elem =
     (let (newNode, L1) = ListNode L elem in
      andthen (case croot L1 of
                 Some r \<Rightarrow> andthen (deref (prevp L1 r)) (AddAfter L1 newNode)
               | None \<Rightarrow> Inr ((singleton_ring L1 newNode)\<lparr>croot := Some newNode\<rparr>)) (\<lambda>L2.
        Inr (newNode, L2)))"

text \<open>\<open>do { ... } while (node != end)\<close> over the ring, collecting the nodes that hold \<open>elem\<close>.\<close>

primrec collect :: "nat \<Rightarrow> 'a clist \<Rightarrow> 'a \<Rightarrow> ptr \<Rightarrow> nat \<Rightarrow> nat list result" where
  "collect 0 L elem end' node = Inl Diverges"
| "collect (Suc fuel) L elem end' node =
     (let hit = (if data L node = elem then [node] else []) in
      if nextp L node = end' then Inr hit
      else andthen (deref (nextp L node)) (\<lambda>n.
        andthen (collect fuel L elem end' n) (\<lambda>rest. Inr (hit @ rest))))"

primrec find_loop :: "nat \<Rightarrow> 'a clist \<Rightarrow> 'a \<Rightarrow> ptr \<Rightarrow> nat \<Rightarrow> ptr result" where
  "find_loop 0 L elem end' node = Inl Diverges"
| "find_loop (Suc fuel) L elem end' node =
     (if data L node = elem then Inr (Some node)
      else if nextp L node = end' then Inr None
      else andthen (deref (nextp L node)) (find_loop fuel L elem end'))"

definition Find :: "'a clist \<Rightarrow> 'a \<Rightarrow> ptr result" where
  "Find L elem =
     (case croot L of
        None \<Rightarrow> Inr None
      | Some r \<Rightarrow> find_loop (Suc (fresh L)) L elem (nextp L r) r)"

definition Contains :: "'a clist \<Rightarrow> 'a \<Rightarrow> bool result" where
  "Contains L elem = andthen (Find L elem) (\<lambda>r. Inr (r \<noteq> None))"

definition Remove :: "'a clist \<Rightarrow> 'a \<Rightarrow> 'a clist result" where
  "Remove L elem =
     (case croot L of
        None \<Rightarrow> Inr L
      | Some r \<Rightarrow>
          andthen (collect (Suc (fresh L)) L elem (croot L) r) (\<lambda>deleteList.
          andthen (check (int (length deleteList) \<le> ccount L) OutOfBounds) (\<lambda>_.
            fold_result RemoveNode L deleteList)))"

definition Clear :: "'a clist \<Rightarrow> 'a clist" where
  "Clear L =
     (let L1 = (case croot L of Some r \<Rightarrow> L\<lparr>nextp := (nextp L)(r := None)\<rparr> | None \<Rightarrow> L)
      in L1\<lparr>croot := None, ccount := 0\<rparr>)"

definition GetHead :: "'a clist \<Rightarrow> ptr" where
  "GetHead L = croot L"

definition GetTail :: "'a clist \<Rightarrow> ptr" where
  "GetTail L = (case croot L of Some r \<Rightarrow> prevp L r | None \<Rightarrow> None)"

primrec walk :: "(nat \<Rightarrow> ptr) \<Rightarrow> nat \<Rightarrow> ptr \<Rightarrow> ptr result" where
  "walk step 0 p = Inr p"
| "walk step (Suc n) p = andthen (deref p) (\<lambda>a. walk step n (step a))"

definition Get :: "'a clist \<Rightarrow> int \<Rightarrow> 'a result" where
  "Get L index =
     (if 0 \<le> index \<and> index < ccount L
      then andthen (walk (nextp L) (nat index) (croot L)) (\<lambda>p. andthen (deref p) (\<lambda>n. Inr (data L n)))
      else if index < 0 \<and> - index \<ge> - ccount L
      then andthen (walk (prevp L) (nat (- index)) (croot L)) (\<lambda>p. andthen (deref p) (\<lambda>n. Inr (data L n)))
      else Inl OutOfBounds)"

text \<open>
  \<open>Set\<close>: the test \<open>prev == node->Prev()\<close> compares the removed node's unchanged field with its
  own value, so the branch that would call \<open>AddAfter\<close> is dead.
\<close>

definition set_at :: "'a clist \<Rightarrow> 'a \<Rightarrow> ptr \<Rightarrow> 'a clist result" where
  "set_at L item p =
     andthen (deref p) (\<lambda>node.
     let prev = prevp L node in
     andthen (RemoveNode L node) (\<lambda>L1.
       if prev = prevp L1 node then andthen (AddToTail L1 item) (\<lambda>(_, L2). Inr L2)
       else let (n, L2) = ListNode L1 item in andthen (deref prev) (\<lambda>a. AddAfter L2 a n)))"

definition Set :: "'a clist \<Rightarrow> int \<Rightarrow> 'a \<Rightarrow> 'a clist result" where
  "Set L index item =
     (if 0 \<le> index \<and> index < ccount L
      then andthen (walk (nextp L) (nat index) (croot L)) (set_at L item)
      else if index < 0 \<and> - index \<ge> - ccount L
      then andthen (walk (prevp L) (nat (- index)) (croot L)) (set_at L item)
      else Inl OutOfBounds)"

definition Enqueue :: "'a clist \<Rightarrow> 'a \<Rightarrow> 'a clist result" where
  "Enqueue L elem = andthen (AddToTail L elem) (\<lambda>(_, L'). Inr L')"

definition Front :: "'a clist \<Rightarrow> 'a result" where
  "Front L = andthen (deref (croot L)) (\<lambda>r. Inr (data L r))"

definition Dequeue :: "'a clist \<Rightarrow> ('a \<times> 'a clist) result" where
  "Dequeue L = andthen (deref (croot L)) (\<lambda>r.
     andthen (RemoveNode L r) (\<lambda>L'. Inr (data L r, L')))"

definition Skew :: "'a clist \<Rightarrow> ('a \<times> 'a clist) result" where
  "Skew L = andthen (deref (croot L)) (\<lambda>r. Inr (data L r, L\<lparr>croot := nextp L r\<rparr>))"

text \<open>\<open>ListIterator\<close>: the values a loop over the list sees.\<close>

primrec enumerate_from :: "nat \<Rightarrow> 'a clist \<Rightarrow> nat \<Rightarrow> 'a list result" where
  "enumerate_from 0 L node = Inl Diverges"
| "enumerate_from (Suc fuel) L node =
     (if nextp L node = croot L then Inr [data L node]
      else andthen (deref (nextp L node)) (\<lambda>n.
        andthen (enumerate_from fuel L n) (\<lambda>rest. Inr (data L node # rest))))"

definition Enumerate :: "'a clist \<Rightarrow> 'a list result" where
  "Enumerate L = (case croot L of None \<Rightarrow> Inr [] | Some r \<Rightarrow> enumerate_from (Suc (fresh L)) L r)"

definition List_empty :: "(nat \<Rightarrow> 'a) \<Rightarrow> 'a clist" where
  "List_empty mem = \<lparr>data = mem, nextp = (\<lambda>_. None), prevp = (\<lambda>_. None), croot = None, ccount = 0, fresh = 0\<rparr>"

section \<open>Rings\<close>

fun seg :: "(nat \<Rightarrow> ptr) \<Rightarrow> (nat \<Rightarrow> ptr) \<Rightarrow> nat list \<Rightarrow> bool" where
  "seg nx pv (x # y # xs) \<longleftrightarrow> nx x = Some y \<and> pv y = Some x \<and> seg nx pv (y # xs)"
| "seg nx pv _ \<longleftrightarrow> True"

definition ring :: "(nat \<Rightarrow> ptr) \<Rightarrow> (nat \<Rightarrow> ptr) \<Rightarrow> nat list \<Rightarrow> bool" where
  "ring nx pv xs \<longleftrightarrow> distinct xs \<and> (xs \<noteq> [] \<longrightarrow> seg nx pv (xs @ [hd xs]))"

lemma seg_append: "seg nx pv (xs @ x # ys) \<longleftrightarrow> seg nx pv (xs @ [x]) \<and> seg nx pv (x # ys)"
proof (induction xs)
  case (Cons a xs)
  then show ?case by (cases xs) auto
qed simp

lemma seg_appendI: "seg nx pv (xs @ [x]) \<Longrightarrow> seg nx pv (x # ys) \<Longrightarrow> seg nx pv (xs @ x # ys)"
  using seg_append by blast

lemma seg_cong:
  assumes "\<And>x. x \<in> set (butlast xs) \<Longrightarrow> nx x = nx' x" and "\<And>x. x \<in> set (tl xs) \<Longrightarrow> pv x = pv' x"
  shows "seg nx pv xs \<longleftrightarrow> seg nx' pv' xs"
  using assms by (induction nx pv xs rule: seg.induct) auto

lemma ring_rotate: "ring nx pv (xs @ ys) \<Longrightarrow> ring nx pv (ys @ xs)"
proof (cases xs; cases ys)
  fix x xs' y ys' assume a: "ring nx pv (xs @ ys)" and xs: "xs = x # xs'" and ys: "ys = y # ys'"
  then have "seg nx pv (xs @ y # ys' @ [x])" by (simp add: ring_def)
  then have "seg nx pv (xs @ [y])" "seg nx pv (ys @ [x])"
    unfolding seg_append [of _ _ xs y "ys' @ [x]"] using ys by auto
  then have "seg nx pv (ys @ x # xs' @ [y])"
    unfolding seg_append [of _ _ ys x "xs' @ [y]"] using xs by simp
  with a xs ys show ?thesis by (auto simp: ring_def)
qed auto

lemma ring_ends:
  assumes "ring nx pv (x # xs)"
  shows "pv x = Some (last (x # xs)) \<and> nx (last (x # xs)) = Some x"
proof (cases xs rule: rev_cases)
  case Nil
  with assms show ?thesis by (simp add: ring_def)
next
  case (snoc ys y)
  with assms have "seg nx pv ((x # ys) @ y # [x])" by (simp add: ring_def)
  then have "seg nx pv (y # [x])" using seg_append by blast
  with snoc show ?thesis by simp
qed

lemma ring_next: "ring nx pv (x # y # xs) \<Longrightarrow> nx x = Some y"
  by (simp add: ring_def)

lemma ring_insert_last:
  assumes r: "ring nx pv (x # xs)" and n: "n \<notin> set (x # xs)"
  shows "ring ((nx(n := nx (last (x # xs))))(last (x # xs) := Some n))
    ((pv(n := Some (last (x # xs))))(x := Some n)) ((x # xs) @ [n])"
    (is "ring ?nx ?pv _")
proof -
  obtain as l where al: "x # xs = as @ [l]" using append_butlast_last_id [of "x # xs"] by (metis list.distinct(1))
  have d: "distinct (as @ [l])" "n \<notin> set (as @ [l])" using r n al by (auto simp: ring_def)
  have hd: "hd (as @ [l]) = x" using al by (metis list.sel(1))
  have "seg nx pv (as @ [l])" using r al hd by (simp add: ring_def) (metis append.assoc append_Cons append_Nil seg_append)
  then have s1: "seg ?nx ?pv (as @ [l])"
  proof (subst seg_cong)
    show "?nx y = nx y" if "y \<in> set (butlast (as @ [l]))" for y using that d al by auto
    show "?pv y = pv y" if "y \<in> set (tl (as @ [l]))" for y
      using that d al hd by (metis distinct.simps(2) fun_upd_other list.sel(1,3) list.set_intros(2) list.collapse append_is_Nil_conv not_Cons_self2)
  qed
  have lst: "last (x # xs) = l" using al by simp
  have "nx l = Some x" using ring_ends [OF r] lst by simp
  moreover have "n \<noteq> x" "n \<noteq> l" using n d(2) by auto
  ultimately have "seg ?nx ?pv (l # [n, x])" unfolding lst by simp
  with s1 have "seg ?nx ?pv (as @ l # [n, x])" by (rule seg_appendI)
  moreover have "((x # xs) @ [n]) @ [hd ((x # xs) @ [n])] = as @ l # [n, x]"
    unfolding al using hd al by (cases as) auto
  moreover have "distinct ((x # xs) @ [n])" using r n by (simp add: ring_def)
  ultimately show ?thesis unfolding ring_def by metis
qed

lemma ring_delete_first:
  assumes r: "ring nx pv (n # y # ys)"
  shows "ring (nx(last (y # ys) := nx n)) (pv(y := pv n)) (y # ys)" (is "ring ?nx ?pv _")
proof -
  obtain as l where al: "y # ys = as @ [l]" using append_butlast_last_id [of "y # ys"] by (metis list.distinct(1))
  have d: "distinct (n # as @ [l])" using r al by (auto simp: ring_def)
  have hd: "hd (as @ [l]) = y" using al by (metis list.sel(1))
  have "seg nx pv (y # ys @ [n])" using r by (simp add: ring_def)
  then have "seg nx pv ((y # ys) @ [n])" by simp
  then have "seg nx pv (as @ l # [n])" unfolding al by simp
  then have s: "seg nx pv (as @ [l])" using seg_append by blast
  have s1: "seg ?nx ?pv (as @ [l])"
  proof (subst seg_cong)
    show "?nx z = nx z" if "z \<in> set (butlast (as @ [l]))" for z using that d al by auto
    show "?pv z = pv z" if "z \<in> set (tl (as @ [l]))" for z
      using that d al hd by (metis distinct.simps(2) fun_upd_other list.sel(1,3) list.collapse append_is_Nil_conv not_Cons_self2)
    show "seg nx pv (as @ [l])" by (rule s)
  qed
  have lst: "last (y # ys) = l" using al by simp
  have "nx n = Some y" "pv n = Some l" using ring_next [OF r] ring_ends [OF r] lst by auto
  then have "seg ?nx ?pv (l # [y])" unfolding lst by simp
  with s1 have "seg ?nx ?pv (as @ l # [y])" by (rule seg_appendI)
  moreover have "(y # ys) @ [hd (y # ys)] = as @ l # [y]" unfolding al using hd al by simp
  moreover have "distinct (y # ys)" using r by (simp add: ring_def)
  ultimately show ?thesis unfolding ring_def by metis
qed

end
