(* ===== verification/Sched.thy ===== *)
theory Sched
  imports Util_List Core_List
begin

text \<open>
  The scheduler core: \<open>infos/kernel/sched.cpp\<close> with the thread and process operations that drive
  it (\<open>kernel/thread.cpp\<close>, \<open>kernel/process.cpp\<close>), wake queues and events (\<open>util/wakequeue.cpp\<close>,
  \<open>util/event.cpp\<close>), the time arithmetic it accounts with (\<open>util/time.h\<close>), and the three
  scheduling algorithms (\<open>kernel/sched-cfs.cpp\<close>, \<open>coursework/sched-rr.cpp\<close>,
  \<open>coursework/sched-fifo.cpp\<close>). Entities (all of them threads) are numbers into a table. An
  event is named by the entity, process or device that owns it. Interrupts are off in all these
  operations, so each runs to its end, except where a thread yields.
\<close>

section \<open>Time\<close>

type_synonym Duration = u64
type_synonym Timepoint = u64

definition duration_plus :: "Duration \<Rightarrow> Duration \<Rightarrow> Duration" where
  "duration_plus l r = l + r"

definition duration_minus :: "Duration \<Rightarrow> Duration \<Rightarrow> Duration" where
  "duration_minus l r = r - l"

definition timepoint_minus :: "Timepoint \<Rightarrow> Timepoint \<Rightarrow> Duration" where
  "timepoint_minus lhs rhs = duration_minus rhs lhs"

section \<open>State\<close>

datatype SchedulingEntityState = STOPPED | SLEEPING | RUNNABLE | RUNNING

record entity =
  ent_state :: SchedulingEntityState
  cpu_runtime :: Duration
  exec_start_time :: Timepoint

datatype event = EntityEvent nat | ProcessEvent nat | DeviceEvent nat

record Process =
  terminated :: bool
  kernel_process :: bool
  threads :: "nat List"
  main_thread :: nat

record 'a SchedulingAlgorithm =
  add_to_runqueue :: "'a \<Rightarrow> nat \<Rightarrow> 'a result"
  remove_from_runqueue :: "'a \<Rightarrow> nat \<Rightarrow> 'a result"
  pick_next_entity :: "(nat \<Rightarrow> Duration) \<Rightarrow> 'a \<Rightarrow> (ptr \<times> 'a) result"

record 'a kernel =
  active :: bool
  algo :: 'a
  current :: ptr
  idle_entity :: nat
  arch_current :: ptr
  entities :: "entity list"
  waiters :: "event \<Rightarrow> nat List"
  procs :: "Process list"
  runtime :: Timepoint

definition get_entity :: "'a kernel \<Rightarrow> nat \<Rightarrow> entity result" where
  "get_entity k e = (if e < length (entities k) then Inr (entities k ! e) else Inl OutOfBounds)"

definition upd_entity :: "nat \<Rightarrow> (entity \<Rightarrow> entity) \<Rightarrow> 'a kernel \<Rightarrow> 'a kernel" where
  "upd_entity e f k = k\<lparr>entities := (entities k)[e := f (entities k ! e)]\<rparr>"

section \<open>State changes and wake-ups\<close>

text \<open>
  \<open>WakeQueue::wake\<close> runs over the list of waiters and clears it at the end. Waking a waiter
  triggers the waiter's own event; if that clears the list that is being iterated, the loop
  goes on in freed nodes, which the model reports as \<open>Undefined\<close>.
\<close>

primrec wake_iter ::
  "('a kernel \<Rightarrow> nat \<Rightarrow> 'a kernel result) \<Rightarrow> event \<Rightarrow> 'a kernel \<Rightarrow> nat list \<Rightarrow> 'a kernel result" where
  "wake_iter wake_up ev k [] = Inr k"
| "wake_iter wake_up ev k (w # ws) =
     andthen (wake_up k w) (\<lambda>k'.
     andthen (check (elems (waiters k' ev) \<noteq> []) Undefined) (\<lambda>_. wake_iter wake_up ev k' ws))"

definition wake ::
  "('a kernel \<Rightarrow> nat \<Rightarrow> 'a kernel result) \<Rightarrow> 'a kernel \<Rightarrow> event \<Rightarrow> 'a kernel result" where
  "wake wake_up k ev =
     andthen (wake_iter wake_up ev k (elems (waiters k ev))) (\<lambda>k'.
       Inr (k'\<lparr>waiters := (waiters k')(ev := list_clear (waiters k' ev))\<rparr>))"

definition runqueue_change ::
  "'a SchedulingAlgorithm \<Rightarrow> 'a \<Rightarrow> nat \<Rightarrow> SchedulingEntityState \<Rightarrow> SchedulingEntityState \<Rightarrow> 'a result" where
  "runqueue_change A a e old state =
     (case state of
        RUNNABLE \<Rightarrow> if old = STOPPED \<or> old = SLEEPING then add_to_runqueue A a e else Inr a
      | RUNNING \<Rightarrow> andthen (check (old = RUNNABLE) AssertFail) (\<lambda>_. Inr a)
      | _ \<Rightarrow> if old = RUNNABLE \<or> old = RUNNING then remove_from_runqueue A a e else Inr a)"

text \<open>The fuel bounds the nesting of wake-ups.\<close>

primrec set_state ::
  "nat \<Rightarrow> 'a SchedulingAlgorithm \<Rightarrow> 'a kernel \<Rightarrow> nat \<Rightarrow> SchedulingEntityState \<Rightarrow> 'a kernel result" where
  "set_state 0 A k e state = Inl Diverges"
| "set_state (Suc fuel) A k e state =
     andthen (get_entity k e) (\<lambda>ent.
       if ent_state ent = state then Inr k
       else andthen (runqueue_change A (algo k) e (ent_state ent) state) (\<lambda>a.
         wake (\<lambda>k w. set_state fuel A k w RUNNABLE)
           (upd_entity e (\<lambda>x. x\<lparr>ent_state := state\<rparr>) (k\<lparr>algo := a\<rparr>)) (EntityEvent e)))"

definition nesting :: "'a kernel \<Rightarrow> nat" where
  "nesting k = length (entities k) + 2"

definition set_entity_state ::
  "'a SchedulingAlgorithm \<Rightarrow> 'a kernel \<Rightarrow> nat \<Rightarrow> SchedulingEntityState \<Rightarrow> 'a kernel result" where
  "set_entity_state A k e state = set_state (nesting k) A k e state"

definition Event_trigger :: "'a SchedulingAlgorithm \<Rightarrow> 'a kernel \<Rightarrow> event \<Rightarrow> 'a kernel result" where
  "Event_trigger A k ev = wake (\<lambda>k' w. set_state (nesting k) A k' w RUNNABLE) k ev"

section \<open>Scheduling\<close>

definition activate :: "'a kernel \<Rightarrow> nat \<Rightarrow> ptr \<Rightarrow> (bool \<times> 'a kernel) result" where
  "activate k e prev =
     andthen (get_entity k e) (\<lambda>ent.
     andthen (check (ent_state ent = RUNNABLE) AssertFail) (\<lambda>_.
       if prev = Some e then Inr (True, k) else Inr (True, k\<lparr>arch_current := Some e\<rparr>)))"

definition switch_to :: "'a kernel \<Rightarrow> nat \<Rightarrow> 'a kernel result" where
  "switch_to k next =
     (if Some next \<noteq> current k
      then andthen (activate k next (current k)) (\<lambda>(ok, k').
        if ok then Inr (k'\<lparr>current := Some next\<rparr>)
        else andthen (activate k' (idle_entity k') (current k')) (\<lambda>(ok', k'').
          andthen (check ok' AssertFail) (\<lambda>_. Inr (k''\<lparr>current := Some (idle_entity k'')\<rparr>))))
      else Inr k)"

definition schedule :: "'a SchedulingAlgorithm \<Rightarrow> 'a kernel \<Rightarrow> 'a kernel result" where
  "schedule A k =
     (if \<not> active k then Inr k
      else andthen (pick_next_entity A (\<lambda>e. cpu_runtime (entities k ! e)) (algo k)) (\<lambda>(p, a).
        let next = (case p of None \<Rightarrow> idle_entity k | Some e \<Rightarrow> e) in
        andthen (switch_to (k\<lparr>algo := a\<rparr>) next) (\<lambda>k.
        andthen (deref (current k)) (\<lambda>c.
        andthen (get_entity k c) (\<lambda>_.
          Inr (upd_entity c (\<lambda>x. x\<lparr>exec_start_time := runtime k\<rparr>) k))))))"

definition update_accounting :: "'a kernel \<Rightarrow> 'a kernel result" where
  "update_accounting k =
     (case current k of
        None \<Rightarrow> Inr k
      | Some c \<Rightarrow> andthen (get_entity k c) (\<lambda>ent.
          let delta = timepoint_minus (runtime k) (exec_start_time ent)
          in Inr (upd_entity c (\<lambda>x. x\<lparr>cpu_runtime := cpu_runtime x + delta, exec_start_time := runtime k\<rparr>) k)))"

text \<open>The timer interrupt: the clock advances, the running entity is charged, the next one is chosen.\<close>

definition timer_tick :: "'a SchedulingAlgorithm \<Rightarrow> 'a kernel \<Rightarrow> 'a kernel result" where
  "timer_tick A k =
     andthen (update_accounting (k\<lparr>runtime := runtime k + 10000000\<rparr>)) (schedule A)"

section \<open>Threads, wake queues and processes\<close>

text \<open>
  A thread that stops itself yields through kernel system call 1. The result's flag says
  whether control comes back to the caller: it does not when another entity runs now.
\<close>

definition thread_yield :: "'a SchedulingAlgorithm \<Rightarrow> 'a kernel \<Rightarrow> nat \<Rightarrow> (bool \<times> 'a kernel) result" where
  "thread_yield A k t = andthen (schedule A k) (\<lambda>k'. Inr (arch_current k' = Some t, k'))"

definition thread_start :: "'a SchedulingAlgorithm \<Rightarrow> 'a kernel \<Rightarrow> nat \<Rightarrow> 'a kernel result" where
  "thread_start A k t = set_entity_state A k t RUNNABLE"

definition thread_stop :: "'a SchedulingAlgorithm \<Rightarrow> 'a kernel \<Rightarrow> nat \<Rightarrow> (bool \<times> 'a kernel) result" where
  "thread_stop A k t =
     andthen (set_entity_state A k t STOPPED) (\<lambda>k'.
       if arch_current k' = Some t then thread_yield A k' t else Inr (True, k'))"

definition thread_sleep :: "'a SchedulingAlgorithm \<Rightarrow> 'a kernel \<Rightarrow> nat \<Rightarrow> (bool \<times> 'a kernel) result" where
  "thread_sleep A k t =
     andthen (set_entity_state A k t SLEEPING) (\<lambda>k'.
       if arch_current k' = Some t then thread_yield A k' t else Inr (True, k'))"

definition thread_wake_up :: "'a SchedulingAlgorithm \<Rightarrow> 'a kernel \<Rightarrow> nat \<Rightarrow> 'a kernel result" where
  "thread_wake_up A k t = set_entity_state A k t RUNNABLE"

definition WakeQueue_sleep ::
  "'a SchedulingAlgorithm \<Rightarrow> 'a kernel \<Rightarrow> event \<Rightarrow> nat \<Rightarrow> (bool \<times> 'a kernel) result" where
  "WakeQueue_sleep A k ev t =
     thread_sleep A (k\<lparr>waiters := (waiters k)(ev := list_append (waiters k ev) t)\<rparr>) t"

definition Event_wait :: "'a SchedulingAlgorithm \<Rightarrow> 'a kernel \<Rightarrow> event \<Rightarrow> (bool \<times> 'a kernel) result" where
  "Event_wait A k ev = andthen (deref (arch_current k)) (\<lambda>t. WakeQueue_sleep A k ev t)"

definition create_thread :: "'a kernel \<Rightarrow> nat \<Rightarrow> bool \<Rightarrow> (nat \<times> 'a kernel) result" where
  "create_thread k p kernel_privilege =
     andthen (check (p < length (procs k)) OutOfBounds) (\<lambda>_.
     andthen (check (\<not> (kernel_process (procs k ! p) \<and> \<not> kernel_privilege)) AssertFail) (\<lambda>_.
       let t = length (entities k) in
       Inr (t, k\<lparr>entities := entities k @ [\<lparr>ent_state = STOPPED, cpu_runtime = 0, exec_start_time = 0\<rparr>],
          waiters := (waiters k)(EntityEvent t := List_new),
          procs := (procs k)[p := (procs k ! p)\<lparr>threads := list_append (threads (procs k ! p)) t\<rparr>]\<rparr>)))"

definition create_process :: "'a kernel \<Rightarrow> bool \<Rightarrow> (nat \<times> 'a kernel) result" where
  "create_process k kproc =
     (let p = length (procs k);
          k1 = k\<lparr>procs := procs k @ [\<lparr>terminated = False, kernel_process = kproc, threads = List_new, main_thread = 0\<rparr>],
            waiters := (waiters k)(ProcessEvent p := List_new)\<rparr> in
      andthen (create_thread k1 p kproc) (\<lambda>(t, k2).
        Inr (p, k2\<lparr>procs := (procs k2)[p := (procs k2 ! p)\<lparr>main_thread := t\<rparr>]\<rparr>)))"

text \<open>\<open>Thread::owner\<close>: the process that created the thread, the only one with the thread in its list.\<close>

definition owner_of :: "'a kernel \<Rightarrow> nat \<Rightarrow> nat result" where
  "owner_of k t =
    (case find (\<lambda>p. t \<in> set (elems (threads (procs k ! p)))) [0..<length (procs k)] of
       None \<Rightarrow> Inl Undefined
     | Some p \<Rightarrow> Inr p)"

definition process_start :: "'a SchedulingAlgorithm \<Rightarrow> 'a kernel \<Rightarrow> nat \<Rightarrow> 'a kernel result" where
  "process_start A k p =
     andthen (check (p < length (procs k)) OutOfBounds) (\<lambda>_. thread_start A k (main_thread (procs k ! p)))"

text \<open>The loop of \<open>terminate\<close> ends early when a \<open>stop\<close> does not return.\<close>

primrec stop_all :: "'a SchedulingAlgorithm \<Rightarrow> 'a kernel \<Rightarrow> nat list \<Rightarrow> (bool \<times> 'a kernel) result" where
  "stop_all A k [] = Inr (True, k)"
| "stop_all A k (t # ts) =
     andthen (thread_stop A k t) (\<lambda>(returned, k'). if returned then stop_all A k' ts else Inr (False, k'))"

definition terminate :: "'a SchedulingAlgorithm \<Rightarrow> 'a kernel \<Rightarrow> nat \<Rightarrow> (bool \<times> 'a kernel) result" where
  "terminate A k p =
     andthen (check (p < length (procs k)) OutOfBounds) (\<lambda>_.
     andthen (Event_trigger A (k\<lparr>procs := (procs k)[p := (procs k ! p)\<lparr>terminated := True\<rparr>]\<rparr>) (ProcessEvent p)) (\<lambda>k'.
       stop_all A k' (elems (threads (procs k' ! p)))))"

definition Scheduler_init :: "'a SchedulingAlgorithm \<Rightarrow> 'a \<Rightarrow> 'a kernel result" where
  "Scheduler_init A a =
     andthen (create_process \<lparr>active = False, algo = a, current = None, idle_entity = 0, arch_current = None,
         entities = [], waiters = (\<lambda>_. List_new), procs = [], runtime = 0\<rparr> True) (\<lambda>(p, k).
     andthen (process_start A (k\<lparr>idle_entity := main_thread (procs k ! p)\<rparr>) p) (\<lambda>k.
     andthen (activate k (idle_entity k) None) (\<lambda>(_, k).
     andthen (remove_from_runqueue A (algo k) (idle_entity k)) (\<lambda>a. Inr (k\<lparr>algo := a\<rparr>)))))"

definition Scheduler_run :: "'a kernel \<Rightarrow> 'a kernel" where
  "Scheduler_run k = k\<lparr>active := True\<rparr>"

section \<open>The scheduling algorithms\<close>

fun cfs_min :: "(nat \<Rightarrow> Duration) \<Rightarrow> nat list \<Rightarrow> ptr \<Rightarrow> Duration \<Rightarrow> ptr" where
  "cfs_min rt [] min_entity min_runtime = min_entity"
| "cfs_min rt (e # es) min_entity min_runtime =
     (if min_entity = None \<or> rt e < min_runtime then cfs_min rt es (Some e) (rt e)
      else cfs_min rt es min_entity min_runtime)"

definition cfs_pick :: "(nat \<Rightarrow> Duration) \<Rightarrow> nat List \<Rightarrow> (ptr \<times> nat List) result" where
  "cfs_pick rt runqueue =
     (if lcount runqueue = 0 then Inr (None, runqueue)
      else if lcount runqueue = 1 then andthen (list_first runqueue) (\<lambda>e. Inr (Some e, runqueue))
      else Inr (cfs_min rt (elems runqueue) None 0, runqueue))"

definition CompletelyFairScheduler :: "nat List SchedulingAlgorithm" where
  "CompletelyFairScheduler =
     \<lparr>add_to_runqueue = (\<lambda>q e. Inr (enqueue q e)),
      remove_from_runqueue = (\<lambda>q e. Inr (list_remove q e)),
      pick_next_entity = cfs_pick\<rparr>"

definition rr_pick :: "(nat \<Rightarrow> Duration) \<Rightarrow> nat clist \<Rightarrow> (ptr \<times> nat clist) result" where
  "rr_pick rt queue =
     (if ccount queue = 0 then Inr (None, queue)
      else andthen (Skew queue) (\<lambda>(e, q). Inr (Some e, q)))"

definition RoundRobinScheduler :: "nat clist SchedulingAlgorithm" where
  "RoundRobinScheduler =
     \<lparr>add_to_runqueue = Enqueue, remove_from_runqueue = Remove, pick_next_entity = rr_pick\<rparr>"

definition fifo_pick :: "(nat \<Rightarrow> Duration) \<Rightarrow> nat clist \<Rightarrow> (ptr \<times> nat clist) result" where
  "fifo_pick rt queue =
     (if ccount queue = 0 then Inr (None, queue)
      else andthen (Get queue 0) (\<lambda>e. Inr (Some e, queue)))"

definition FIFOScheduler :: "nat clist SchedulingAlgorithm" where
  "FIFOScheduler =
     \<lparr>add_to_runqueue = (\<lambda>q e. andthen (AddToTail q e) (\<lambda>(_, q'). Inr q')),
      remove_from_runqueue = Remove, pick_next_entity = fifo_pick\<rparr>"

end
