(* ===== verification/Core_List_Correct.thy ===== *)
theory Core_List_Correct
  imports Core_List
begin

text \<open>
  Refinement of the circular list to a list of values: \<open>clist_rep L ns\<close> says that the ring of
  \<open>L\<close> consists of the nodes \<open>ns\<close>, starting at the root; \<open>holds_list L xs\<close> that the values in this
  order are \<open>xs\<close>. Each operation of \<open>Core_List\<close> is shown to compute a list function.
\<close>

definition clist_rep :: "'a clist \<Rightarrow> nat list \<Rightarrow> bool" where
  "clist_rep L ns \<longleftrightarrow> ring (nextp L) (prevp L) ns \<and>
     croot L = (case ns of [] \<Rightarrow> None | n # _ \<Rightarrow> Some n) \<and> ccount L = int (length ns) \<and>
     (\<forall>n \<in> set ns. n < fresh L)"

definition holds_list :: "'a clist \<Rightarrow> 'a list \<Rightarrow> bool" where
  "holds_list L xs \<longleftrightarrow> (\<exists>ns. clist_rep L ns \<and> xs = map (data L) ns)"

lemma clist_repD:
  assumes "clist_rep L ns"
  shows "distinct ns" "ring (nextp L) (prevp L) ns" "ccount L = int (length ns)" "fresh L \<notin> set ns"
  using assms by (auto simp: clist_rep_def ring_def)

section \<open>Adding nodes\<close>

definition added :: "'a clist \<Rightarrow> 'a \<Rightarrow> 'a clist \<Rightarrow> bool" where
  "added L x L' \<longleftrightarrow> data L' = (data L)(fresh L := x) \<and> fresh L' = Suc (fresh L)"

lemma ring_fresh:
  assumes "ring nx pv ns" and "n \<notin> set ns"
  shows "ring (nx(n := a)) (pv(n := b)) ns"
proof (cases "ns = []")
  case False
  have "seg (nx(n := a)) (pv(n := b)) (ns @ [hd ns])"
  proof (subst seg_cong)
    show "(nx(n := a)) x = nx x" if "x \<in> set (butlast (ns @ [hd ns]))" for x
      using that assms(2) by auto
    show "(pv(n := b)) x = pv x" if "x \<in> set (tl (ns @ [hd ns]))" for x
      using that assms(2) False by (cases ns) auto
    show "seg nx pv (ns @ [hd ns])" using assms(1) False by (simp add: ring_def)
  qed
  with assms(1) show ?thesis by (simp add: ring_def)
qed (simp add: ring_def)

lemma AddAfter_last:
  assumes rep: "clist_rep L (r # ns)"
  shows "\<exists>L'. AddAfter (snd (ListNode L x)) (fresh L) (last (r # ns)) = Inr L' \<and>
    ring (nextp L') (prevp L') ((r # ns) @ [fresh L]) \<and> added L x L' \<and>
    croot L' = croot L \<and> ccount L' = ccount L + 1"
proof -
  let ?f = "fresh L" and ?l = "last (r # ns)"
  let ?nx = "(nextp L)(?f := None)" and ?pv = "(prevp L)(?f := None)"
  have f: "?f \<notin> set (r # ns)" using clist_repD(4) [OF rep] .
  then have fl: "?f \<noteq> ?l" using last_in_set [of "r # ns"] by (metis list.distinct(1))
  have fr: "?f \<noteq> r" using f by auto
  have rg: "ring ?nx ?pv (r # ns)" using ring_fresh [OF clist_repD(2) [OF rep] f] .
  have nl: "nextp L ?l = Some r" using ring_ends [OF clist_repD(2) [OF rep]] by blast
  have "ring ((?nx(?f := ?nx ?l))(?l := Some ?f)) ((?pv(?f := Some ?l))(r := Some ?f)) ((r # ns) @ [?f])"
    by (rule ring_insert_last [OF rg f])
  moreover obtain l where l: "?l = l" by blast
  ultimately show ?thesis
    using nl fl fr unfolding l by (simp add: AddAfter_def ListNode_def Let_def added_def)
qed

lemma ring_single: "ring nx pv [n] \<longleftrightarrow> nx n = Some n \<and> pv n = Some n"
  by (auto simp: ring_def)

lemma fst_ListNode [simp]: "fst (ListNode L x) = fresh L"
  by (simp add: ListNode_def)

lemma snd_ListNode [simp]:
  "croot (snd (ListNode L x)) = croot L" "ccount (snd (ListNode L x)) = ccount L"
  "fresh (snd (ListNode L x)) = Suc (fresh L)" "data (snd (ListNode L x)) = (data L)(fresh L := x)"
  "prevp (snd (ListNode L x)) = (prevp L)(fresh L := None)"
  by (simp_all add: ListNode_def)

lemma prev_root:
  assumes "clist_rep L (r # ns)"
  shows "prevp (snd (ListNode L x)) r = Some (last (r # ns))"
  using ring_ends [OF clist_repD(2) [OF assms]] clist_repD(4) [OF assms] by auto

lemma AddToTail_rep:
  assumes rep: "clist_rep L ns"
  shows "\<exists>L'. AddToTail L x = Inr (fresh L, L') \<and> clist_rep L' (ns @ [fresh L]) \<and> added L x L'"
proof (cases ns)
  case Nil
  with rep show ?thesis
    by (auto simp: AddToTail_def clist_rep_def ListNode_def singleton_ring_def ring_single added_def)
next
  case (Cons r ms)
  have root: "croot L = Some r" using rep Cons by (simp add: clist_rep_def)
  obtain L' where L': "AddAfter (snd (ListNode L x)) (fresh L) (last (r # ms)) = Inr L'"
    "ring (nextp L') (prevp L') ((r # ms) @ [fresh L])" "added L x L'" "croot L' = croot L" "ccount L' = ccount L + 1"
    using AddAfter_last [OF rep [unfolded Cons]] by blast
  then have "AddToTail L x = Inr (fresh L, L')"
    using root prev_root [OF rep [unfolded Cons], of x] by (simp add: AddToTail_def split_beta)
  moreover have "clist_rep L' (ns @ [fresh L])"
    using L' rep Cons by (auto simp: clist_rep_def added_def)
  ultimately show ?thesis using L'(3) by blast
qed

lemma AddToHead_rep:
  assumes rep: "clist_rep L ns"
  shows "\<exists>L'. AddToHead L x = Inr (fresh L, L') \<and> clist_rep L' (fresh L # ns) \<and> added L x L'"
proof (cases ns)
  case Nil
  with rep show ?thesis
    by (auto simp: AddToHead_def clist_rep_def ListNode_def singleton_ring_def ring_single added_def)
next
  case (Cons r ms)
  have root: "croot L = Some r" using rep Cons by (simp add: clist_rep_def)
  obtain L' where L': "AddAfter (snd (ListNode L x)) (fresh L) (last (r # ms)) = Inr L'"
    "ring (nextp L') (prevp L') ((r # ms) @ [fresh L])" "added L x L'" "croot L' = croot L" "ccount L' = ccount L + 1"
    using AddAfter_last [OF rep [unfolded Cons]] by blast
  then have "AddToHead L x = Inr (fresh L, L'\<lparr>croot := Some (fresh L)\<rparr>)"
    using root prev_root [OF rep [unfolded Cons], of x] by (simp add: AddToHead_def split_beta)
  moreover have "clist_rep (L'\<lparr>croot := Some (fresh L)\<rparr>) (fresh L # ns)"
    using L' rep Cons ring_rotate [OF L'(2)] by (auto simp: clist_rep_def added_def)
  moreover have "added L x (L'\<lparr>croot := Some (fresh L)\<rparr>)" using L'(3) by (simp add: added_def)
  ultimately show ?thesis by blast
qed

lemma added_values: "added L x L' \<Longrightarrow> clist_rep L ns \<Longrightarrow> map (data L') ns = map (data L) ns"
  using clist_repD(4) [of L ns] by (auto simp: added_def)

lemma AddToTail_list:
  assumes "holds_list L xs"
  shows "\<exists>n L'. AddToTail L x = Inr (n, L') \<and> holds_list L' (xs @ [x])"
proof -
  obtain ns where ns: "clist_rep L ns" "xs = map (data L) ns" using assms by (auto simp: holds_list_def)
  obtain L' where L': "AddToTail L x = Inr (fresh L, L')" "clist_rep L' (ns @ [fresh L])" "added L x L'"
    using AddToTail_rep [OF ns(1)] by blast
  have "xs @ [x] = map (data L') (ns @ [fresh L])"
    using added_values [OF L'(3) ns(1)] ns(2) L'(3) by (simp add: added_def)
  with L' show ?thesis unfolding holds_list_def by blast
qed

lemma AddToHead_list:
  assumes "holds_list L xs"
  shows "\<exists>n L'. AddToHead L x = Inr (n, L') \<and> holds_list L' (x # xs)"
proof -
  obtain ns where ns: "clist_rep L ns" "xs = map (data L) ns" using assms by (auto simp: holds_list_def)
  obtain L' where L': "AddToHead L x = Inr (fresh L, L')" "clist_rep L' (fresh L # ns)" "added L x L'"
    using AddToHead_rep [OF ns(1)] by blast
  have "x # xs = map (data L') (fresh L # ns)"
    using added_values [OF L'(3) ns(1)] ns(2) L'(3) by (simp add: added_def)
  then have "holds_list L' (x # xs)"
    using L'(2) unfolding holds_list_def by (intro exI [of _ "fresh L # ns"] conjI)
  with L'(1) show ?thesis by blast
qed

section \<open>Removing nodes\<close>

lemma RemoveNode_rep:
  assumes rep: "clist_rep L (as @ n # bs)"
  shows "\<exists>L'. RemoveNode L n = Inr L' \<and> clist_rep L' (as @ bs) \<and> data L' = data L \<and> fresh L' = fresh L"
proof (cases "bs @ as")
  case Nil
  with rep show ?thesis by (auto simp: RemoveNode_def clist_rep_def ring_single Let_def ring_def)
next
  case (Cons y ys)
  have rg: "ring (nextp L) (prevp L) (n # y # ys)"
    using ring_rotate [OF clist_repD(2) [OF rep]] Cons by simp
  obtain l where l: "last (y # ys) = l" by blast
  let ?nx = "(nextp L)(l := nextp L n)" and ?pv = "(prevp L)(y := prevp L n)"
  have rg': "ring ?nx ?pv (as @ bs)"
    using ring_delete_first [OF rg, unfolded l] ring_rotate [of ?nx ?pv bs as] Cons by simp
  have d: "n \<notin> set (y # ys)" using rg by (auto simp: ring_def)
  have nl: "n \<noteq> l" "n \<noteq> y" using d l last_in_set [of "y # ys"] by auto
  have nn: "nextp L n = Some y" using ring_next [OF rg] .
  have pn: "prevp L n = Some l" using ring_ends [OF rg] l by simp
  let ?L3 = "L\<lparr>prevp := ?pv, nextp := ?nx, croot := (if croot L = Some n then Some y else croot L)\<rparr>"
  have c: "ccount L \<noteq> 1" using rep Cons by (cases as; cases bs) (auto simp: clist_rep_def)
  have "RemoveNode L n = Inr (?L3\<lparr>ccount := ccount L - 1\<rparr>)"
    using nn pn nl c by (simp add: RemoveNode_def Let_def)
  moreover have "clist_rep (?L3\<lparr>ccount := ccount L - 1\<rparr>) (as @ bs)"
    using rg' rep Cons clist_repD(1) [OF rep] by (cases as) (auto simp: clist_rep_def)
  ultimately show ?thesis by auto
qed

lemma RemoveNode_prev: "RemoveNode L n = Inr L' \<Longrightarrow> prevp L' n = prevp L n"
  by (auto simp: RemoveNode_def andthen_eq_Inr Let_def split: if_splits)

lemma RemoveNodes_rep:
  assumes "clist_rep L ns" and "distinct ds" and "set ds \<subseteq> set ns"
  shows "\<exists>L'. fold_result RemoveNode L ds = Inr L' \<and> clist_rep L' (filter (\<lambda>n. n \<notin> set ds) ns) \<and>
    data L' = data L"
  using assms
proof (induction ds arbitrary: L ns)
  case (Cons d ds)
  obtain as bs where ns: "ns = as @ d # bs" using Cons.prems(3) by (meson list.set_intros(1) split_list subsetD)
  obtain L1 where L1: "RemoveNode L d = Inr L1" "clist_rep L1 (as @ bs)" "data L1 = data L"
    using RemoveNode_rep Cons.prems(1) ns by blast
  have dn: "d \<notin> set as" "d \<notin> set bs" using clist_repD(1) [OF Cons.prems(1)] ns by auto
  have "set ds \<subseteq> set (as @ bs)" using Cons.prems(2,3) ns by auto
  with Cons.IH [OF L1(2)] Cons.prems(2) obtain L' where L': "fold_result RemoveNode L1 ds = Inr L'"
    "clist_rep L' (filter (\<lambda>n. n \<notin> set ds) (as @ bs))" "data L' = data L1" by auto
  moreover have "filter (\<lambda>n. n \<noteq> d \<and> n \<notin> set ds) zs = filter (\<lambda>n. n \<notin> set ds) zs" if "d \<notin> set zs" for zs
    by (rule filter_cong) (use that in auto)
  then have "filter (\<lambda>n. n \<notin> set (d # ds)) ns = filter (\<lambda>n. n \<notin> set ds) (as @ bs)"
    using dn ns by simp
  ultimately show ?case using L1 by auto
qed (auto simp: fold_result_def)

lemma collect_ring:
  assumes "seg (nextp L) pv (node # ns @ [e])" and "e \<notin> set ns" and "length ns < fuel"
  shows "collect fuel L x (Some e) node = Inr (filter (\<lambda>n. data L n = x) (node # ns))"
  using assms
proof (induction ns arbitrary: node fuel)
  case Nil
  then show ?case by (cases fuel) auto
next
  case (Cons n ns)
  then obtain k where "fuel = Suc k" by (cases fuel) auto
  with Cons show ?case by auto
qed

lemma length_le_fresh:
  assumes "clist_rep L ns"
  shows "length ns \<le> fresh L"
proof -
  have "set ns \<subseteq> {..<fresh L}" using assms by (auto simp: clist_rep_def)
  then have "card (set ns) \<le> fresh L" by (metis card_lessThan card_mono finite_lessThan)
  then show ?thesis using distinct_card [OF clist_repD(1) [OF assms]] by simp
qed

lemma Remove_list:
  assumes "holds_list L xs"
  shows "\<exists>L'. Remove L x = Inr L' \<and> holds_list L' (filter (\<lambda>y. y \<noteq> x) xs)"
proof -
  obtain ns where ns: "clist_rep L ns" "xs = map (data L) ns" using assms by (auto simp: holds_list_def)
  show ?thesis
  proof (cases ns)
    case Nil
    with ns assms show ?thesis by (auto simp: Remove_def clist_rep_def)
  next
    case (Cons r ms)
    let ?ds = "filter (\<lambda>n. data L n = x) ns"
    have root: "croot L = Some r" using ns(1) Cons by (simp add: clist_rep_def)
    have "seg (nextp L) (prevp L) (r # ms @ [r])" "r \<notin> set ms"
      using clist_repD(1,2) [OF ns(1)] Cons by (auto simp: ring_def)
    moreover have "length ms < Suc (fresh L)" using length_le_fresh [OF ns(1)] Cons by simp
    ultimately have "collect (Suc (fresh L)) L x (Some r) r = Inr ?ds"
      unfolding Cons by (rule collect_ring)
    moreover have "int (length ?ds) \<le> ccount L" using clist_repD(3) [OF ns(1)] by simp
    moreover obtain L' where L': "fold_result RemoveNode L ?ds = Inr L'"
      "clist_rep L' (filter (\<lambda>n. n \<notin> set ?ds) ns)" "data L' = data L"
      using RemoveNodes_rep [OF ns(1), of ?ds] clist_repD(1) [OF ns(1)] by auto
    moreover have "map (data L') (filter (\<lambda>n. n \<notin> set ?ds) ns) = filter (\<lambda>y. y \<noteq> x) xs"
    proof -
      have "filter (\<lambda>n. n \<notin> set ?ds) ns = filter (\<lambda>n. data L n \<noteq> x) ns" by (rule filter_cong) auto
      then show ?thesis unfolding ns(2) L'(3) by (simp add: filter_map comp_def)
    qed
    ultimately have "Remove L x = Inr L'" "holds_list L' (filter (\<lambda>y. y \<noteq> x) xs)"
      using root unfolding holds_list_def Remove_def by (simp, metis)
    then show ?thesis by blast
  qed
qed

section \<open>Reading\<close>

lemma Find_list:
  assumes "holds_list L xs"
  shows "\<exists>r. Find L x = Inr r \<and> (r \<noteq> None \<longleftrightarrow> (\<exists>ys. xs = x # ys))"
proof -
  obtain ns where ns: "clist_rep L ns" "xs = map (data L) ns" using assms by (auto simp: holds_list_def)
  show ?thesis
  proof (cases ns)
    case Nil
    with ns show ?thesis by (simp add: Find_def clist_rep_def)
  next
    case (Cons r ms)
    then have "croot L = Some r" using ns(1) by (simp add: clist_rep_def)
    with ns(2) Cons show ?thesis by (auto simp: Find_def)
  qed
qed

lemma seg_next: "seg nx pv xs \<Longrightarrow> Suc i < length xs \<Longrightarrow> nx (xs ! i) = Some (xs ! Suc i) \<and> pv (xs ! Suc i) = Some (xs ! i)"
proof (induction nx pv xs arbitrary: i rule: seg.induct)
  case (1 nx pv x y xs)
  then show ?case by (cases i) auto
qed auto

lemma walk_append: "walk f (m + n) p = andthen (walk f m p) (walk f n)"
  by (induction m arbitrary: p) (auto simp: andthen_def split: sum.splits)

lemma walk_Suc_end: "walk f (Suc n) p = andthen (walk f n p) (\<lambda>q. andthen (deref q) (\<lambda>a. Inr (f a)))"
  using walk_append [of f n 1 p] by (simp add: andthen_def split: sum.splits)

lemma walk_next:
  assumes "clist_rep L ns" and "i < length ns"
  shows "walk (nextp L) i (croot L) = Inr (Some (ns ! i))"
  using assms(2)
proof (induction i)
  case 0
  with assms(1) show ?case by (cases ns) (auto simp: clist_rep_def)
next
  case (Suc i)
  have "seg (nextp L) (prevp L) (ns @ [hd ns])" using clist_repD(2) [OF assms(1)] Suc.prems by (auto simp: ring_def)
  from seg_next [OF this, of i] Suc show ?case by (simp add: walk_Suc_end nth_append del: walk.simps(2))
qed

lemma walk_prev:
  assumes "clist_rep L ns" and "0 < j" and "j \<le> length ns"
  shows "walk (prevp L) j (croot L) = Inr (Some (ns ! (length ns - j)))"
  using assms(2,3)
proof (induction j)
  case (Suc j)
  have s: "seg (nextp L) (prevp L) (ns @ [hd ns])" using clist_repD(2) [OF assms(1)] Suc.prems by (auto simp: ring_def)
  show ?case
  proof (cases "j = 0")
    case True
    obtain r ms where ns: "ns = r # ms" using Suc.prems by (cases ns) auto
    then have "croot L = Some r" "prevp L r = Some (last ns)"
      using assms(1) ring_ends [OF clist_repD(2) [OF assms(1), unfolded ns]] by (auto simp: clist_rep_def)
    moreover have "last ns = ns ! (length ns - 1)" using ns by (metis last_conv_nth list.distinct(1))
    ultimately show ?thesis using True by simp
  next
    case False
    with Suc have w: "walk (prevp L) j (croot L) = Inr (Some (ns ! (length ns - j)))" by simp
    have "Suc (length ns - Suc j) = length ns - j" using Suc.prems by linarith
    moreover have "length ns - j < length ns" using False Suc.prems by linarith
    ultimately have "prevp L (ns ! (length ns - j)) = Some (ns ! (length ns - Suc j))"
      using seg_next [OF s, of "length ns - Suc j"] by (auto simp: nth_append)
    with w show ?thesis by (simp add: walk_Suc_end del: walk.simps(2))
  qed
qed simp

lemma Get_list:
  assumes "holds_list L xs"
  shows "0 \<le> i \<Longrightarrow> i < int (length xs) \<Longrightarrow> Get L i = Inr (xs ! nat i)"
    and "i < 0 \<Longrightarrow> - int (length xs) \<le> i \<Longrightarrow> Get L i = Inr (xs ! nat (int (length xs) + i))"
    and "int (length xs) \<le> i \<Longrightarrow> Get L i = Inl OutOfBounds"
proof -
  obtain ns where ns: "clist_rep L ns" "xs = map (data L) ns" using assms by (auto simp: holds_list_def)
  note c = clist_repD(3) [OF ns(1)]
  show "Get L i = Inr (xs ! nat i)" if "0 \<le> i" "i < int (length xs)"
    using that walk_next [OF ns(1), of "nat i"] ns(2) c by (simp add: Get_def)
  show "Get L i = Inl OutOfBounds" if "int (length xs) \<le> i" using that ns(2) c by (simp add: Get_def)
  show "Get L i = Inr (xs ! nat (int (length xs) + i))" if i: "i < 0" "- int (length xs) \<le> i"
  proof -
    have l: "length xs = length ns" using ns(2) by simp
    have "nat (- i) \<le> length ns" "0 < nat (- i)" using i l by auto
    moreover have "length ns - nat (- i) = nat (int (length ns) + i)" using i by linarith
    moreover have "nat (int (length ns) + i) < length ns" using i l by linarith
    ultimately show ?thesis
      using walk_prev [OF ns(1), of "nat (- i)"] i c ns(2) by (simp add: Get_def)
  qed
qed

lemma Skew_list:
  assumes "holds_list L (x # xs)"
  shows "\<exists>L'. Skew L = Inr (x, L') \<and> holds_list L' (xs @ [x])"
proof -
  obtain ns where ns: "clist_rep L ns" "x # xs = map (data L) ns" using assms by (auto simp: holds_list_def)
  then obtain r ms where rm: "ns = r # ms" "x = data L r" "xs = map (data L) ms" by (cases ns) auto
  have root: "croot L = Some r" using ns(1) rm by (simp add: clist_rep_def)
  have rg: "ring (nextp L) (prevp L) (ms @ [r])" using ring_rotate [of _ _ "[r]" ms] clist_repD(2) [OF ns(1)] rm by simp
  have "nextp L r = (case ms @ [r] of [] \<Rightarrow> None | n # _ \<Rightarrow> Some n)"
    using clist_repD(2) [OF ns(1)] rm by (cases ms) (auto simp: ring_single ring_next)
  then have "clist_rep (L\<lparr>croot := nextp L r\<rparr>) (ms @ [r])"
    using ns(1) rm rg by (simp add: clist_rep_def)
  with root rm show ?thesis unfolding holds_list_def Skew_def by auto
qed

lemma Front_list: "holds_list L (x # xs) \<Longrightarrow> Front L = Inr x"
proof -
  assume "holds_list L (x # xs)"
  then obtain ns where "clist_rep L ns" "x # xs = map (data L) ns" by (auto simp: holds_list_def)
  then show ?thesis by (cases ns) (auto simp: clist_rep_def Front_def)
qed

lemma Dequeue_list:
  assumes "holds_list L (x # xs)"
  shows "\<exists>L'. Dequeue L = Inr (x, L') \<and> holds_list L' xs"
proof -
  obtain ns where ns: "clist_rep L ns" "x # xs = map (data L) ns" using assms by (auto simp: holds_list_def)
  then obtain r ms where rm: "ns = [] @ r # ms" "x = data L r" "xs = map (data L) ms" by (cases ns) auto
  have root: "croot L = Some r" using ns(1) rm by (simp add: clist_rep_def)
  obtain L' where "RemoveNode L r = Inr L'" "clist_rep L' ms" "data L' = data L"
    using RemoveNode_rep [of L "[]" r ms] ns(1) rm by auto
  with root rm show ?thesis unfolding holds_list_def Dequeue_def by auto
qed

lemma Set_list:
  assumes "holds_list L xs" and "i < length xs"
  shows "\<exists>L'. Set L (int i) x = Inr L' \<and> holds_list L' (take i xs @ drop (Suc i) xs @ [x])"
proof -
  obtain ns where ns: "clist_rep L ns" "xs = map (data L) ns" using assms by (auto simp: holds_list_def)
  have i: "i < length ns" using assms(2) ns(2) by simp
  have sp: "ns = take i ns @ ns ! i # drop (Suc i) ns" using i by (rule id_take_nth_drop)
  obtain L1 where L1: "RemoveNode L (ns ! i) = Inr L1" "clist_rep L1 (take i ns @ drop (Suc i) ns)" "data L1 = data L"
    using RemoveNode_rep [of L "take i ns" "ns ! i" "drop (Suc i) ns"] ns(1) sp by metis
  have "holds_list L1 (take i xs @ drop (Suc i) xs)"
    using L1(2,3) ns(2) unfolding holds_list_def
    by (intro exI [of _ "take i ns @ drop (Suc i) ns"]) (simp add: drop_map take_map)
  then obtain n L2 where L2: "AddToTail L1 x = Inr (n, L2)" "holds_list L2 (take i xs @ drop (Suc i) xs @ [x])"
    using AddToTail_list by fastforce
  have "prevp L1 (ns ! i) = prevp L (ns ! i)" by (rule RemoveNode_prev [OF L1(1)])
  then have "set_at L x (Some (ns ! i)) = Inr L2" using L1(1) L2(1) by (simp add: set_at_def)
  then have "Set L (int i) x = Inr L2"
    using walk_next [OF ns(1) i] i clist_repD(3) [OF ns(1)] by (simp add: Set_def)
  with L2(2) show ?thesis by blast
qed

lemma enumerate_ring:
  assumes "seg (nextp L) pv (node # ns @ [e])" and "croot L = Some e" and "e \<notin> set ns" and "length ns < fuel"
  shows "enumerate_from fuel L node = Inr (map (data L) (node # ns))"
  using assms
proof (induction ns arbitrary: node fuel)
  case Nil
  then show ?case by (cases fuel) auto
next
  case (Cons n ns)
  then obtain k where "fuel = Suc k" by (cases fuel) auto
  with Cons show ?case by auto
qed

lemma Enumerate_list:
  assumes "holds_list L xs"
  shows "Enumerate L = Inr xs"
proof -
  obtain ns where ns: "clist_rep L ns" "xs = map (data L) ns" using assms by (auto simp: holds_list_def)
  show ?thesis
  proof (cases ns)
    case Nil
    with ns show ?thesis by (simp add: Enumerate_def clist_rep_def)
  next
    case (Cons r ms)
    have root: "croot L = Some r" using ns(1) Cons by (simp add: clist_rep_def)
    have s: "seg (nextp L) (prevp L) (r # ms @ [r])" "r \<notin> set ms"
      using clist_repD(1,2) [OF ns(1)] Cons by (auto simp: ring_def)
    have "length ms < Suc (fresh L)" using length_le_fresh [OF ns(1)] Cons by simp
    from enumerate_ring [OF s(1) root s(2) this] root show ?thesis
      unfolding Enumerate_def ns(2) Cons by simp
  qed
qed

lemma holds_list_count: "holds_list L xs \<Longrightarrow> ccount L = int (length xs)"
  by (auto simp: holds_list_def clist_rep_def)

lemma holds_list_empty: "holds_list (List_empty mem) []"
  by (auto simp: holds_list_def clist_rep_def List_empty_def ring_def)

section \<open>Properties\<close>

text \<open>
  C10 (coursework \<open>List\<close>). On a well-formed ring that holds the values \<open>xs\<close>, the list operations
  neither follow a null pointer nor loop, keep the ring well formed, and compute the list
  functions: append, cons, removal of every equal element, indexing from either end,
  and the queue operations.
\<close>
theorem core_list_operations_correct:
  assumes "holds_list L xs"
  shows "(\<exists>n L'. AddToTail L x = Inr (n, L') \<and> holds_list L' (xs @ [x])) \<and>
    (\<exists>n L'. AddToHead L x = Inr (n, L') \<and> holds_list L' (x # xs)) \<and>
    (\<exists>L'. Remove L x = Inr L' \<and> holds_list L' (filter (\<lambda>y. y \<noteq> x) xs)) \<and>
    Enumerate L = Inr xs \<and> ccount L = int (length xs) \<and>
    (0 \<le> i \<and> i < int (length xs) \<longrightarrow> Get L i = Inr (xs ! nat i)) \<and>
    (i < 0 \<and> - int (length xs) \<le> i \<longrightarrow> Get L i = Inr (xs ! nat (int (length xs) + i))) \<and>
    (case xs of [] \<Rightarrow> True | y # ys \<Rightarrow> Front L = Inr y \<and>
       (\<exists>L'. Dequeue L = Inr (y, L') \<and> holds_list L' ys) \<and> (\<exists>L'. Skew L = Inr (y, L') \<and> holds_list L' (rotate1 xs)))"
proof (intro conjI impI)
  show "case xs of [] \<Rightarrow> True | y # ys \<Rightarrow> Front L = Inr y \<and>
       (\<exists>L'. Dequeue L = Inr (y, L') \<and> holds_list L' ys) \<and> (\<exists>L'. Skew L = Inr (y, L') \<and> holds_list L' (rotate1 xs))"
    using Front_list [of L] Dequeue_list [of L] Skew_list [of L] assms by (cases xs) simp_all
qed (use AddToTail_list [OF assms, of x] AddToHead_list [OF assms, of x] Remove_list [OF assms, of x]
    Enumerate_list [OF assms] holds_list_count [OF assms] Get_list(1,2) [OF assms, of i] in blast)+

theorem core_list_operations_correct_witness:
  "\<exists>n L. AddToTail (List_empty (\<lambda>_. 0)) (5::nat) = Inr (n, L) \<and> holds_list L [5]"
  using core_list_operations_correct [OF holds_list_empty, of "\<lambda>_. 0" "5::nat" 0] by simp

text \<open>
  (coursework \<open>List::Find\<close>). The search takes the successor of the root as its end, so it
  compares the root's value only: it finds an element exactly when it is the first one.
\<close>
theorem core_list_find_root_only:
  assumes "holds_list L xs"
  shows "Contains L x = Inr (case xs of [] \<Rightarrow> False | y # ys \<Rightarrow> y = x)"
  using Find_list [OF assms, of x] by (cases xs) (auto simp: Contains_def)

theorem core_list_find_root_only_witness:
  "\<exists>L. holds_list L [1, 2 :: nat] \<and> Contains L 2 = Inr False"
proof -
  obtain n L1 where L1: "AddToTail (List_empty (\<lambda>_. 0)) (1::nat) = Inr (n, L1)" "holds_list L1 [1]"
    using AddToTail_list [OF holds_list_empty, of "\<lambda>_. 0" "1::nat"] by auto
  obtain m L2 where "AddToTail L1 (2::nat) = Inr (m, L2)" "holds_list L2 [1, 2]"
    using AddToTail_list [OF L1(2), of "2::nat"] by auto
  with core_list_find_root_only [of L2 "[1, 2]" 2] show ?thesis by auto
qed

text \<open>
  (coursework \<open>List::Set\<close>). Assigning to an index does not replace the element: it removes
  the element at the index and appends the new value at the end.
\<close>
theorem core_list_set_appends:
  assumes "holds_list L xs" and "i < length xs"
  shows "\<exists>L'. Set L (int i) x = Inr L' \<and> holds_list L' (take i xs @ drop (Suc i) xs @ [x])"
  by (rule Set_list [OF assms])

theorem core_list_set_appends_witness:
  "\<exists>L L'. holds_list L [1, 2 :: nat] \<and> Set L (int 0) 7 = Inr L' \<and> holds_list L' [2, 7]"
proof -
  obtain n L1 where L1: "AddToTail (List_empty (\<lambda>_. 0)) (1::nat) = Inr (n, L1)" "holds_list L1 [1]"
    using AddToTail_list [OF holds_list_empty, of "\<lambda>_. 0" "1::nat"] by auto
  obtain m L2 where "AddToTail L1 (2::nat) = Inr (m, L2)" "holds_list L2 [1, 2]"
    using AddToTail_list [OF L1(2), of "2::nat"] by auto
  with core_list_set_appends [of L2 "[1, 2]" 0 7] show ?thesis by auto
qed

end
