(* ===== verification/Sched_Correct.thy ===== *)
theory Sched_Correct
  imports Sched Core_List_Correct
begin

text \<open>
  Correctness of the scheduler core. The locale \<open>sched_algorithm\<close> states what the kernel relies
  on in a scheduling algorithm: its run queue is a set of entities that \<open>add_to_runqueue\<close> and
  \<open>remove_from_runqueue\<close> maintain and \<open>pick_next_entity\<close> chooses from. From it follows the
  kernel's invariant \<open>sched_inv\<close>: a thread other than the idle thread is in the run queue, once,
  exactly when it is runnable. The three algorithms are the interpretations.
\<close>

section \<open>The invariant\<close>

definition st :: "'a kernel \<Rightarrow> nat \<Rightarrow> SchedulingEntityState" where
  "st k e = ent_state (entities k ! e)"

definition sched_inv :: "('a \<Rightarrow> nat list) \<Rightarrow> ('a \<Rightarrow> bool) \<Rightarrow> 'a kernel \<Rightarrow> bool" where
  "sched_inv rq aok k \<longleftrightarrow>
     aok (algo k) \<and> distinct (rq (algo k)) \<and> length (entities k) < 2 ^ 31 \<and>
     idle_entity k < length (entities k) \<and> st k (idle_entity k) = RUNNABLE \<and>
     (\<forall>e. e \<in> set (rq (algo k)) \<longleftrightarrow> e < length (entities k) \<and> e \<noteq> idle_entity k \<and> st k e = RUNNABLE) \<and>
     (\<forall>e < length (entities k). st k e \<noteq> RUNNING)"

lemma sched_inv_cong:
  assumes "algo k' = algo k" and "entities k' = entities k" and "idle_entity k' = idle_entity k"
  shows "sched_inv rq aok k' \<longleftrightarrow> sched_inv rq aok k"
  using assms by (simp add: sched_inv_def st_def)

lemma sched_inv_upd_time:
  assumes "\<And>x. ent_state (f x) = ent_state x"
  shows "sched_inv rq aok (upd_entity c f k) \<longleftrightarrow> sched_inv rq aok k"
proof -
  have "ent_state ((entities k)[c := f (entities k ! c)] ! e) = ent_state (entities k ! e)" for e
    using assms by (cases "c < length (entities k)"; cases "e = c") (auto simp: not_less list_update_beyond)
  then show ?thesis by (simp add: sched_inv_def st_def upd_entity_def)
qed

lemma queue_short:
  assumes "sched_inv rq aok k"
  shows "length (rq (algo k)) < 2 ^ 31"
proof -
  have "set (rq (algo k)) \<subseteq> {..<length (entities k)}" using assms by (auto simp: sched_inv_def)
  then have "card (set (rq (algo k))) \<le> length (entities k)" by (metis card_lessThan card_mono finite_lessThan)
  then show ?thesis using assms by (simp add: sched_inv_def distinct_card)
qed

section \<open>The contract of a scheduling algorithm\<close>

locale sched_algorithm =
  fixes A :: "'a SchedulingAlgorithm"
    and rq :: "'a \<Rightarrow> nat list"
    and aok :: "'a \<Rightarrow> bool"
    and start :: 'a
  assumes start_law: "aok start \<and> rq start = []"
    and add_law: "aok a \<Longrightarrow> length (rq a) < 2 ^ 31 \<Longrightarrow>
      \<exists>a'. add_to_runqueue A a e = Inr a' \<and> aok a' \<and> rq a' = rq a @ [e]"
    and remove_law: "aok a \<Longrightarrow> distinct (rq a) \<Longrightarrow>
      \<exists>a'. remove_from_runqueue A a e = Inr a' \<and> aok a' \<and> rq a' = remove1 e (rq a)"
    and pick_law: "aok a \<Longrightarrow> length (rq a) < 2 ^ 31 \<Longrightarrow>
      \<exists>r a'. pick_next_entity A rt a = Inr (r, a') \<and> aok a' \<and>
        set (rq a') = set (rq a) \<and> (distinct (rq a) \<longrightarrow> distinct (rq a')) \<and>
        (case r of None \<Rightarrow> rq a = [] | Some e \<Rightarrow> e \<in> set (rq a))"
begin

lemma runqueue_change_ok:
  assumes inv: "sched_inv rq aok k" and e: "e < length (entities k)" and ne: "st k e \<noteq> state"
    and nr: "state \<noteq> RUNNING" and idle: "e \<noteq> idle_entity k"
  shows "\<exists>a. runqueue_change A (algo k) e (st k e) state = Inr a \<and>
    sched_inv rq aok (upd_entity e (\<lambda>x. x\<lparr>ent_state := state\<rparr>) (k\<lparr>algo := a\<rparr>))"
proof -
  have old: "st k e \<noteq> RUNNING" and ok: "aok (algo k)" "distinct (rq (algo k))"
    and mem: "e \<in> set (rq (algo k)) \<longleftrightarrow> st k e = RUNNABLE"
    using inv e idle by (auto simp: sched_inv_def)
  let ?k = "\<lambda>a. upd_entity e (\<lambda>x. x\<lparr>ent_state := state\<rparr>) (k\<lparr>algo := a\<rparr>)"
  have stk: "st (?k a) x = (if x = e then state else st k x)" if "x < length (entities k)" for a x
    using that by (simp add: st_def upd_entity_def nth_list_update)
  have inv': "sched_inv rq aok (?k a)" if a: "aok a" "distinct (rq a)"
    "set (rq a) = (if state = RUNNABLE then insert e (set (rq (algo k))) else set (rq (algo k)) - {e})" for a
    unfolding sched_inv_def
  proof (intro conjI allI)
    show "x \<in> set (rq (algo (?k a))) \<longleftrightarrow> x < length (entities (?k a)) \<and> x \<noteq> idle_entity (?k a) \<and> st (?k a) x = RUNNABLE" for x
    proof -
      have f: "algo (?k a) = a" "length (entities (?k a)) = length (entities k)" "idle_entity (?k a) = idle_entity k"
        by (simp_all add: upd_entity_def)
      have "x \<in> set (rq (algo k)) \<longleftrightarrow> x < length (entities k) \<and> x \<noteq> idle_entity k \<and> st k x = RUNNABLE"
        using inv by (simp add: sched_inv_def)
      then show ?thesis unfolding f a(3) using e idle stk [of x a] by (cases "x = e") auto
    qed
    show "x < length (entities (?k a)) \<longrightarrow> st (?k a) x \<noteq> RUNNING" for x
      using inv nr stk [of x a] by (cases "x = e") (simp_all add: sched_inv_def upd_entity_def)
    have "idle_entity k < length (entities k)" using inv by (simp add: sched_inv_def)
    then show "st (?k a) (idle_entity (?k a)) = RUNNABLE"
      using inv idle stk [of "idle_entity k" a] by (simp add: sched_inv_def upd_entity_def)
  qed (use inv a in \<open>simp_all add: sched_inv_def upd_entity_def\<close>)
  show ?thesis
  proof (cases "state = RUNNABLE")
    case True
    then have "st k e = STOPPED \<or> st k e = SLEEPING" using ne old by (cases "st k e") auto
    moreover obtain a where "add_to_runqueue A (algo k) e = Inr a" "aok a" "rq a = rq (algo k) @ [e]"
      using add_law [OF ok(1) queue_short [OF inv]] by blast
    moreover have "e \<notin> set (rq (algo k))" using mem ne True by simp
    ultimately show ?thesis using inv' [of a] True ok(2) by (auto simp: runqueue_change_def)
  next
    case False
    show ?thesis
    proof (cases "st k e = RUNNABLE")
      case True
      obtain a where a: "remove_from_runqueue A (algo k) e = Inr a" "aok a" "rq a = remove1 e (rq (algo k))"
        using remove_law [OF ok] by blast
      then have "sched_inv rq aok (?k a)" using inv' [of a] False ok(2) by (simp add: distinct_remove1)
      with a True False nr show ?thesis by (cases state) (auto simp: runqueue_change_def)
    next
      case stopped: False
      then have "sched_inv rq aok (?k (algo k))" using inv' [of "algo k"] False ok mem by auto
      with stopped False old nr show ?thesis by (cases state) (auto simp: runqueue_change_def)
    qed
  qed
qed

lemma wake_iter_inv:
  assumes "\<And>k e k'. f k e = Inr k' \<Longrightarrow> sched_inv rq aok k \<Longrightarrow> sched_inv rq aok k' \<and>
      idle_entity k' = idle_entity k \<and> length (entities k') = length (entities k) \<and> procs k' = procs k"
    and "wake_iter f ev k ws = Inr k'" and "sched_inv rq aok k"
  shows "sched_inv rq aok k' \<and> idle_entity k' = idle_entity k \<and>
    length (entities k') = length (entities k) \<and> procs k' = procs k"
  using assms(2,3)
proof (induction ws arbitrary: k)
  case (Cons w ws)
  then show ?case using assms(1) by (auto simp: andthen_eq_Inr)
qed simp

lemma wake_inv:
  assumes "\<And>k e k'. f k e = Inr k' \<Longrightarrow> sched_inv rq aok k \<Longrightarrow> sched_inv rq aok k' \<and>
      idle_entity k' = idle_entity k \<and> length (entities k') = length (entities k) \<and> procs k' = procs k"
    and "wake f k ev = Inr k'" and "sched_inv rq aok k"
  shows "sched_inv rq aok k' \<and> idle_entity k' = idle_entity k \<and>
    length (entities k') = length (entities k) \<and> procs k' = procs k"
proof -
  obtain k1 where k1: "wake_iter f ev k (elems (waiters k ev)) = Inr k1"
    "k' = k1\<lparr>waiters := (waiters k1)(ev := list_clear (waiters k1 ev))\<rparr>"
    using assms(2) by (auto simp: wake_def andthen_eq_Inr)
  have "sched_inv rq aok k' = sched_inv rq aok k1" unfolding k1(2) by (rule sched_inv_cong) simp_all
  with wake_iter_inv [OF assms(1) k1(1) assms(3)] k1(2) show ?thesis by simp
qed

lemma set_state_inv:
  assumes "set_state fuel A k e state = Inr k'" and "sched_inv rq aok k" and "state \<noteq> RUNNING"
    and "state \<noteq> RUNNABLE \<longrightarrow> e \<noteq> idle_entity k"
  shows "sched_inv rq aok k' \<and> idle_entity k' = idle_entity k \<and>
    length (entities k') = length (entities k) \<and> procs k' = procs k"
  using assms
proof (induction fuel arbitrary: k e state k')
  case (Suc fuel)
  have e: "e < length (entities k)"
    using Suc.prems(1) by (auto simp: get_entity_def andthen_eq_Inr split: if_splits)
  show ?case
  proof (cases "st k e = state")
    case True
    with e Suc.prems show ?thesis by (simp add: get_entity_def st_def)
  next
    case False
    have idle: "e \<noteq> idle_entity k"
      using Suc.prems(2,4) False by (auto simp: sched_inv_def)
    obtain a where a: "runqueue_change A (algo k) e (st k e) state = Inr a"
      "sched_inv rq aok (upd_entity e (\<lambda>x. x\<lparr>ent_state := state\<rparr>) (k\<lparr>algo := a\<rparr>))" (is "sched_inv _ _ ?k1")
      using runqueue_change_ok [OF Suc.prems(2) e False Suc.prems(3) idle] by blast
    have w: "wake (\<lambda>k w. set_state fuel A k w RUNNABLE) ?k1 (EntityEvent e) = Inr k'"
      using Suc.prems(1) e False a(1) by (simp add: get_entity_def st_def)
    have "sched_inv rq aok k' \<and> idle_entity k' = idle_entity ?k1 \<and>
        length (entities k') = length (entities ?k1) \<and> procs k' = procs ?k1"
      by (rule wake_inv [OF _ w a(2)]) (erule (1) Suc.IH; simp)
    then show ?thesis by (simp add: upd_entity_def)
  qed
qed simp

section \<open>Scheduling never fails\<close>

lemma activate_ok:
  assumes "e < length (entities k)" and "st k e = RUNNABLE"
  shows "\<exists>k'. activate k e p = Inr (True, k') \<and> k' = k\<lparr>arch_current := arch_current k'\<rparr> \<and>
    (p \<noteq> Some e \<longrightarrow> arch_current k' = Some e)"
  using assms by (auto simp: activate_def get_entity_def st_def)

lemma schedule_ok:
  assumes inv: "sched_inv rq aok k" and act: "active k"
  shows "\<exists>c k'. schedule A k = Inr k' \<and> sched_inv rq aok k' \<and> current k' = Some c \<and>
    idle_entity k' = idle_entity k \<and> length (entities k') = length (entities k) \<and> procs k' = procs k \<and>
    (\<forall>e. st k' e = st k e) \<and> set (rq (algo k')) = set (rq (algo k)) \<and>
    (if rq (algo k) = [] then c = idle_entity k else c \<in> set (rq (algo k))) \<and>
    (current k \<noteq> Some c \<longrightarrow> arch_current k' = Some c)"
proof -
  let ?rt = "\<lambda>e. cpu_runtime (entities k ! e)"
  obtain r a where ra: "pick_next_entity A ?rt (algo k) = Inr (r, a)" "aok a" "set (rq a) = set (rq (algo k))"
    "distinct (rq a)" "case r of None \<Rightarrow> rq (algo k) = [] | Some e \<Rightarrow> e \<in> set (rq (algo k))"
    using pick_law [of "algo k" ?rt] queue_short [OF inv] inv by (force simp: sched_inv_def)
  define c where "c = (case r of None \<Rightarrow> idle_entity k | Some e \<Rightarrow> e)"
  let ?k = "k\<lparr>algo := a\<rparr>"
  have inv1: "sched_inv rq aok ?k" using inv ra(2-4) by (simp add: sched_inv_def st_def)
  have c: "c < length (entities ?k)" "st ?k c = RUNNABLE"
    using inv ra(5) by (auto simp: c_def sched_inv_def st_def split: option.splits)
  obtain k2 where k2: "switch_to ?k c = Inr k2" "k2 = ?k\<lparr>current := Some c, arch_current := arch_current k2\<rparr>"
    "current k \<noteq> Some c \<longrightarrow> arch_current k2 = Some c"
    using activate_ok [OF c, of "current ?k"] by (cases "Some c = current ?k") (auto simp: switch_to_def)
  have e2: "entities k2 = entities k" "idle_entity k2 = idle_entity k" "algo k2 = a" "procs k2 = procs k"
    "current k2 = Some c" using k2(2) by (metis kernel.select_convs kernel.surjective kernel.update_convs)+
  let ?k' = "upd_entity c (\<lambda>x. x\<lparr>exec_start_time := runtime k2\<rparr>) k2"
  have "schedule A k = Inr ?k'"
    unfolding schedule_def using act ra(1) c k2(1) e2
    by (simp add: Let_def c_def [symmetric] get_entity_def)
  moreover have "sched_inv rq aok k2" using inv1 sched_inv_cong [of k2 ?k] e2 by simp
  then have "sched_inv rq aok ?k'" by (simp add: sched_inv_upd_time)
  moreover have "st ?k' e = st k e" for e
    using e2(1) by (cases "e = c"; cases "c < length (entities k)") (auto simp: st_def upd_entity_def not_less list_update_beyond)
  moreover have "if rq (algo k) = [] then c = idle_entity k else c \<in> set (rq (algo k))"
    using ra(5) by (auto simp: c_def split: option.splits)
  ultimately show ?thesis using e2 ra(3) k2(3) by (simp add: upd_entity_def)
qed

lemma schedule_inv:
  assumes "schedule A k = Inr k'" and "sched_inv rq aok k"
  shows "sched_inv rq aok k' \<and> idle_entity k' = idle_entity k \<and>
    length (entities k') = length (entities k) \<and> procs k' = procs k"
proof (cases "active k")
  case True
  with schedule_ok [OF assms(2)] assms(1) show ?thesis by auto
next
  case False
  with assms show ?thesis by (simp add: schedule_def)
qed

end

section \<open>Wake-ups always return\<close>

definition waiters_ok :: "'a kernel \<Rightarrow> bool" where
  "waiters_ok k \<longleftrightarrow> (\<forall>ev. set (elems (waiters k ev)) \<subseteq> {..<length (entities k)})"

definition woken :: "'a kernel \<Rightarrow> 'a kernel \<Rightarrow> bool" where
  "woken k k' \<longleftrightarrow> length (entities k') = length (entities k) \<and>
     (\<forall>x < length (entities k). st k' x = st k x \<or> st k' x = RUNNABLE) \<and>
     (\<forall>x < length (entities k). st k x = RUNNABLE \<longrightarrow> waiters k' (EntityEvent x) = waiters k (EntityEvent x)) \<and>
     (\<forall>p. waiters k' (ProcessEvent p) = waiters k (ProcessEvent p)) \<and>
     (\<forall>d. waiters k' (DeviceEvent d) = waiters k (DeviceEvent d))"

definition asleep :: "'a kernel \<Rightarrow> nat set" where
  "asleep k = {x. x < length (entities k) \<and> st k x \<noteq> RUNNABLE}"

definition steady :: "'a kernel \<Rightarrow> event \<Rightarrow> bool" where
  "steady k ev \<longleftrightarrow> (case ev of EntityEvent x \<Rightarrow> x < length (entities k) \<and> st k x = RUNNABLE
    | ProcessEvent p \<Rightarrow> True | DeviceEvent d \<Rightarrow> True)"

lemma woken_refl: "woken k k"
  by (simp add: woken_def)

lemma woken_trans: "woken k k' \<Longrightarrow> woken k' k'' \<Longrightarrow> woken k k''"
  unfolding woken_def by (metis (no_types, lifting))

lemma woken_steady: "woken k k' \<Longrightarrow> steady k ev \<Longrightarrow> steady k' ev \<and> waiters k' ev = waiters k ev"
  by (auto simp: woken_def steady_def split: event.splits)

lemma finite_asleep [simp]: "finite (asleep k)"
  by (simp add: asleep_def)

lemma woken_asleep: "woken k k' \<Longrightarrow> card (asleep k') \<le> card (asleep k)"
  by (rule card_mono) (auto simp: asleep_def woken_def)

context sched_algorithm
begin

definition "runs fuel \<longleftrightarrow> (\<forall>k e. sched_inv rq aok k \<longrightarrow> waiters_ok k \<longrightarrow> e < length (entities k) \<longrightarrow>
   card (asleep k) < fuel \<longrightarrow> (\<exists>k'. set_state fuel A k e RUNNABLE = Inr k' \<and> sched_inv rq aok k' \<and>
     waiters_ok k' \<and> woken k k' \<and> st k' e = RUNNABLE))"

lemma wake_iter_runs:
  assumes f: "runs fuel" and "sched_inv rq aok k" and "waiters_ok k" and "card (asleep k) < fuel"
    and "steady k ev" and "elems (waiters k ev) \<noteq> []" and "set ws \<subseteq> {..<length (entities k)}"
  shows "\<exists>k'. wake_iter (\<lambda>k w. set_state fuel A k w RUNNABLE) ev k ws = Inr k' \<and>
    sched_inv rq aok k' \<and> waiters_ok k' \<and> woken k k' \<and> (\<forall>w \<in> set ws. st k' w = RUNNABLE)"
  using assms(2-)
proof (induction ws arbitrary: k)
  case Nil
  then show ?case by (simp add: woken_refl)
next
  case (Cons w ws)
  have "w < length (entities k)" using Cons.prems(6) by simp
  with f Cons.prems obtain k1 where k1: "set_state fuel A k w RUNNABLE = Inr k1" "sched_inv rq aok k1"
    "waiters_ok k1" "woken k k1" "st k1 w = RUNNABLE" unfolding runs_def by blast
  have s: "steady k1 ev" "waiters k1 ev = waiters k ev" using woken_steady [OF k1(4) Cons.prems(4)] by auto
  have c: "card (asleep k1) < fuel" using woken_asleep [OF k1(4)] Cons.prems(3) by linarith
  have l: "length (entities k1) = length (entities k)" using k1(4) by (simp add: woken_def)
  obtain k2 where k2: "wake_iter (\<lambda>k w. set_state fuel A k w RUNNABLE) ev k1 ws = Inr k2"
    "sched_inv rq aok k2" "waiters_ok k2" "woken k1 k2" "\<forall>w \<in> set ws. st k2 w = RUNNABLE"
    using Cons.IH [OF k1(2,3) c s(1)] s(2) Cons.prems(5,6) l by auto
  have "st k2 w = RUNNABLE" using k2(4) k1(5) l \<open>w < _\<close> by (auto simp: woken_def)
  with k1 k2 s(2) Cons.prems(5) woken_trans [OF k1(4) k2(4)] show ?case by auto
qed

lemma wake_runs:
  assumes f: "runs fuel" and "sched_inv rq aok k" and "waiters_ok k" and "card (asleep k) < fuel" and "steady k ev"
  shows "\<exists>k'. wake (\<lambda>k w. set_state fuel A k w RUNNABLE) k ev = Inr k' \<and> sched_inv rq aok k' \<and> waiters_ok k' \<and>
    woken (k\<lparr>waiters := (waiters k)(ev := list_clear (waiters k ev))\<rparr>) k' \<and>
    (\<forall>w \<in> set (elems (waiters k ev)). st k' w = RUNNABLE) \<and> elems (waiters k' ev) = []"
proof -
  let ?c = "\<lambda>k. k\<lparr>waiters := (waiters k)(ev := list_clear (waiters k ev))\<rparr>"
  obtain k1 where k1: "wake_iter (\<lambda>k w. set_state fuel A k w RUNNABLE) ev k (elems (waiters k ev)) = Inr k1"
    "sched_inv rq aok k1" "waiters_ok k1" "woken k k1" "\<forall>w \<in> set (elems (waiters k ev)). st k1 w = RUNNABLE"
  proof (cases "elems (waiters k ev) = []")
    case True
    with assms that show thesis by (simp add: woken_refl)
  next
    case False
    have "set (elems (waiters k ev)) \<subseteq> {..<length (entities k)}" using assms(3) by (simp add: waiters_ok_def)
    from wake_iter_runs [OF assms False this] that show thesis by blast
  qed
  have "sched_inv rq aok (?c k1) = sched_inv rq aok k1" by (rule sched_inv_cong) simp_all
  moreover have "waiters_ok (?c k1)" using k1(3) by (simp add: waiters_ok_def)
  moreover have "woken (?c k) (?c k1)"
    using k1(4) by (auto simp: woken_def st_def list_clear_def)
  ultimately show ?thesis using k1 by (auto simp: wake_def st_def)
qed

lemma runs_all: "runs fuel"
proof (induction fuel)
  case 0
  then show ?case by (simp add: runs_def)
next
  case (Suc fuel)
  show ?case unfolding runs_def
  proof (intro allI impI)
    fix k e assume inv: "sched_inv rq aok k" and w: "waiters_ok k" and e: "e < length (entities k)"
      and c: "card (asleep k) < Suc fuel"
    show "\<exists>k'. set_state (Suc fuel) A k e RUNNABLE = Inr k' \<and> sched_inv rq aok k' \<and>
      waiters_ok k' \<and> woken k k' \<and> st k' e = RUNNABLE"
    proof (cases "st k e = RUNNABLE")
      case True
      with e inv w show ?thesis by (simp add: get_entity_def st_def woken_refl)
    next
      case False
      then have idle: "e \<noteq> idle_entity k" using inv by (auto simp: sched_inv_def)
      obtain a where a: "runqueue_change A (algo k) e (st k e) RUNNABLE = Inr a"
        "sched_inv rq aok (upd_entity e (\<lambda>x. x\<lparr>ent_state := RUNNABLE\<rparr>) (k\<lparr>algo := a\<rparr>))" (is "sched_inv _ _ ?k1")
        using runqueue_change_ok [OF inv e False _ idle] by auto
      have stk: "st ?k1 x = (if x = e then RUNNABLE else st k x)" if "x < length (entities k)" for x
        using that by (simp add: st_def upd_entity_def nth_list_update)
      have "asleep ?k1 = asleep k - {e}" using stk e by (auto simp: asleep_def upd_entity_def split: if_splits)
      moreover have "e \<in> asleep k" using e False by (simp add: asleep_def)
      ultimately have "card (asleep ?k1) < card (asleep k)" using card_Diff1_less [OF finite_asleep, of e k] by simp
      then have c1: "card (asleep ?k1) < fuel" using c by linarith
      have w1: "waiters_ok ?k1" using w by (simp add: waiters_ok_def upd_entity_def)
      have s1: "steady ?k1 (EntityEvent e)" using e stk by (simp add: steady_def upd_entity_def)
      obtain k' where k': "wake (\<lambda>k w. set_state fuel A k w RUNNABLE) ?k1 (EntityEvent e) = Inr k'"
        "sched_inv rq aok k'" "waiters_ok k'"
        "woken (?k1\<lparr>waiters := (waiters ?k1)(EntityEvent e := list_clear (waiters ?k1 (EntityEvent e)))\<rparr>) k'" (is "woken ?k2 k'")
        using wake_runs [OF Suc a(2) w1 c1 s1] by blast
      have st2: "st ?k2 x = st ?k1 x" for x by (simp add: st_def)
      have "st k' e = RUNNABLE" using k'(4) e stk st2 by (auto simp: woken_def upd_entity_def)
      moreover have "woken k ?k2"
        using stk st2 False by (auto simp: woken_def upd_entity_def)
      then have "woken k k'" using k'(4) woken_trans by blast
      ultimately show ?thesis using e False a(1) k' by (auto simp: get_entity_def st_def)
    qed
  qed
qed

lemma asleep_nesting: "card (asleep k) < nesting k"
proof -
  have "card (asleep k) \<le> card {..<length (entities k)}" by (rule card_mono) (auto simp: asleep_def)
  then show ?thesis by (simp add: nesting_def)
qed

lemma make_runnable_ok:
  assumes "sched_inv rq aok k" and "waiters_ok k" and "e < length (entities k)"
  shows "\<exists>k'. set_entity_state A k e RUNNABLE = Inr k' \<and> sched_inv rq aok k' \<and>
     waiters_ok k' \<and> woken k k' \<and> st k' e = RUNNABLE"
  using runs_all [of "nesting k"] assms asleep_nesting [of k]
  unfolding runs_def set_entity_state_def by blast

lemma Event_trigger_ok:
  assumes "sched_inv rq aok k" and "waiters_ok k" and "steady k ev"
  shows "\<exists>k'. Event_trigger A k ev = Inr k' \<and> sched_inv rq aok k' \<and> waiters_ok k' \<and>
    (\<forall>w \<in> set (elems (waiters k ev)). st k' w = RUNNABLE) \<and> elems (waiters k' ev) = []"
  unfolding Event_trigger_def
  using wake_runs [OF runs_all assms(1,2) asleep_nesting assms(3)]
  by (elim exE conjE) (intro exI conjI; assumption)

lemma Event_trigger_inv:
  assumes "Event_trigger A k ev = Inr k'" and "sched_inv rq aok k"
  shows "sched_inv rq aok k' \<and> idle_entity k' = idle_entity k \<and>
    length (entities k') = length (entities k) \<and> procs k' = procs k"
  by (rule wake_inv [OF _ assms(1) [unfolded Event_trigger_def] assms(2)]) (erule (1) set_state_inv; simp)

lemma thread_stop_inv:
  assumes "thread_stop A k t = Inr (b, k')" and "sched_inv rq aok k" and "t \<noteq> idle_entity k"
  shows "sched_inv rq aok k' \<and> idle_entity k' = idle_entity k \<and>
    length (entities k') = length (entities k) \<and> procs k' = procs k"
proof -
  obtain k1 where k1: "set_entity_state A k t STOPPED = Inr k1"
    "(if arch_current k1 = Some t then thread_yield A k1 t else Inr (True, k1)) = Inr (b, k')"
    using assms(1) by (auto simp: thread_stop_def andthen_eq_Inr)
  have "sched_inv rq aok k1 \<and> idle_entity k1 = idle_entity k \<and>
      length (entities k1) = length (entities k) \<and> procs k1 = procs k"
    using set_state_inv [OF k1(1) [unfolded set_entity_state_def] assms(2)] assms(3) by simp
  with k1(2) schedule_inv [of k1 k'] show ?thesis
    by (auto simp: thread_yield_def andthen_eq_Inr split: if_splits)
qed

lemma thread_sleep_inv:
  assumes "thread_sleep A k t = Inr (b, k')" and "sched_inv rq aok k" and "t \<noteq> idle_entity k"
  shows "sched_inv rq aok k'"
proof -
  obtain k1 where k1: "set_entity_state A k t SLEEPING = Inr k1"
    "(if arch_current k1 = Some t then thread_yield A k1 t else Inr (True, k1)) = Inr (b, k')"
    using assms(1) by (auto simp: thread_sleep_def andthen_eq_Inr)
  have "sched_inv rq aok k1"
    using set_state_inv [OF k1(1) [unfolded set_entity_state_def] assms(2)] assms(3) by simp
  with k1(2) schedule_inv [of k1 k'] show ?thesis
    by (auto simp: thread_yield_def andthen_eq_Inr split: if_splits)
qed

lemma stop_all_inv:
  assumes "stop_all A k ts = Inr (b, k')" and "sched_inv rq aok k" and "idle_entity k \<notin> set ts"
  shows "sched_inv rq aok k'"
  using assms
proof (induction ts arbitrary: k)
  case (Cons t ts)
  then obtain r k1 where "thread_stop A k t = Inr (r, k1)" "(if r then stop_all A k1 ts else Inr (False, k1)) = Inr (b, k')"
    by (auto simp: andthen_eq_Inr)
  with Cons thread_stop_inv [of k t r k1] show ?case by (auto split: if_splits)
qed simp

lemma terminate_inv:
  assumes "terminate A k p = Inr (b, k')" and "sched_inv rq aok k"
    and "idle_entity k \<notin> set (elems (threads (procs k ! p)))"
  shows "sched_inv rq aok k'"
proof -
  let ?k = "k\<lparr>procs := (procs k)[p := (procs k ! p)\<lparr>terminated := True\<rparr>]\<rparr>"
  obtain k1 where k1: "p < length (procs k)" "Event_trigger A ?k (ProcessEvent p) = Inr k1"
    "stop_all A k1 (elems (threads (procs k1 ! p))) = Inr (b, k')"
    using assms(1) by (auto simp: terminate_def andthen_eq_Inr)
  have "sched_inv rq aok ?k = sched_inv rq aok k" by (rule sched_inv_cong) simp_all
  with Event_trigger_inv [OF k1(2)] assms(2) have
    "sched_inv rq aok k1" "idle_entity k1 = idle_entity k" "procs k1 = procs ?k" by auto
  with stop_all_inv [OF k1(3)] assms(3) k1(1) show ?thesis by simp
qed

lemma create_thread_inv:
  assumes "create_thread k p b = Inr (t, k')" and "sched_inv rq aok k" and "length (entities k) + 1 < 2 ^ 31"
  shows "sched_inv rq aok k'"
proof -
  have e: "entities k' = entities k @ [\<lparr>ent_state = STOPPED, cpu_runtime = 0, exec_start_time = 0\<rparr>]"
    "algo k' = algo k" "idle_entity k' = idle_entity k"
    using assms(1) by (auto simp: create_thread_def andthen_eq_Inr Let_def)
  have s: "st k' x = (if x < length (entities k) then st k x else STOPPED)" if "x < Suc (length (entities k))" for x
    using that e(1) by (auto simp: st_def nth_append less_Suc_eq)
  show ?thesis
    using assms(2,3) s e unfolding sched_inv_def by (auto simp: less_Suc_eq)
qed

lemma update_accounting_inv:
  assumes "update_accounting k = Inr k'" and "sched_inv rq aok k"
  shows "sched_inv rq aok k'"
  using assms by (auto simp: update_accounting_def andthen_eq_Inr Let_def sched_inv_upd_time split: option.splits)

lemma timer_tick_inv:
  assumes "timer_tick A k = Inr k'" and "sched_inv rq aok k"
  shows "sched_inv rq aok k'"
proof -
  obtain k1 where k1: "update_accounting (k\<lparr>runtime := runtime k + 10000000\<rparr>) = Inr k1" "schedule A k1 = Inr k'"
    using assms(1) by (auto simp: timer_tick_def andthen_eq_Inr)
  have "sched_inv rq aok (k\<lparr>runtime := runtime k + 10000000\<rparr>) = sched_inv rq aok k" by (rule sched_inv_cong) simp_all
  with update_accounting_inv [OF k1(1)] schedule_inv [OF k1(2)] assms(2) show ?thesis by blast
qed

lemma Scheduler_init_ok:
  "\<exists>k. Scheduler_init A start = Inr k \<and> sched_inv rq aok k \<and> waiters_ok k \<and> current k = None \<and>
     length (entities k) = 1 \<and> length (procs k) = 1"
proof -
  obtain a where a: "add_to_runqueue A start 0 = Inr a" "aok a" "rq a = [0]"
    using add_law [of start 0] start_law by auto
  obtain b where b: "remove_from_runqueue A a 0 = Inr b" "aok b" "rq b = []"
    using remove_law [of a 0] a by auto
  show ?thesis
    using a b by (auto simp: Scheduler_init_def create_process_def create_thread_def process_start_def
        thread_start_def set_entity_state_def nesting_def get_entity_def runqueue_change_def wake_def
        upd_entity_def activate_def Let_def list_append_def List_new_def list_clear_def
        sched_inv_def waiters_ok_def st_def numeral_3_eq_3)
qed

end

lemma switch_to_result:
  assumes "switch_to k n = Inr k'"
  shows "current k' = Some n \<and> algo k' = algo k \<and> entities k' = entities k \<and> runtime k' = runtime k"
  using assms by (auto simp: switch_to_def activate_def andthen_eq_Inr split: if_splits)

lemma schedule_result:
  assumes "schedule A k = Inr k'" and "active k"
    and "pick_next_entity A (\<lambda>e. cpu_runtime (entities k ! e)) (algo k) = Inr (p, a)"
  shows "current k' = Some (case p of None \<Rightarrow> idle_entity k | Some e \<Rightarrow> e) \<and> algo k' = a"
  using assms by (auto simp: schedule_def Let_def andthen_eq_Inr upd_entity_def dest!: switch_to_result)

lemma schedule_times:
  assumes "schedule A k = Inr k'" and "active k" and "current k' = Some c" and "c < length (entities k)"
  shows "cpu_runtime (entities k' ! e) = cpu_runtime (entities k ! e) \<and>
    exec_start_time (entities k' ! c) = runtime k \<and> runtime k' = runtime k"
proof -
  obtain a n k1 where "switch_to (k\<lparr>algo := a\<rparr>) n = Inr k1"
    and k': "k' = upd_entity c (\<lambda>x. x\<lparr>exec_start_time := runtime k1\<rparr>) k1"
    using assms(1-3) by (auto simp: schedule_def Let_def andthen_eq_Inr upd_entity_def dest: switch_to_result)
  then have "entities k1 = entities k" "runtime k1 = runtime k" using switch_to_result by fastforce+
  with k' assms(4) show ?thesis
    by (cases "e = c") (auto simp: upd_entity_def)
qed

context sched_algorithm
begin

lemma timer_tick_ok:
  assumes inv: "sched_inv rq aok k" and act: "active k" and cur: "current k = Some c" "c < length (entities k)"
    and fresh: "exec_start_time (entities k ! c) = runtime k"
  shows "\<exists>k' c'. timer_tick A k = Inr k' \<and> current k' = Some c' \<and>
    (\<forall>e. cpu_runtime (entities k' ! e) = cpu_runtime (entities k ! e) + (if e = c then 10000000 else 0)) \<and>
    exec_start_time (entities k' ! c') = runtime k' \<and> runtime k' = runtime k + 10000000"
proof -
  let ?k1 = "k\<lparr>runtime := runtime k + 10000000\<rparr>"
  let ?f = "\<lambda>x. x\<lparr>cpu_runtime := cpu_runtime x + 10000000, exec_start_time := runtime k + 10000000\<rparr>"
  have u: "update_accounting ?k1 = Inr (upd_entity c ?f ?k1)" (is "_ = Inr ?k2")
    using cur fresh by (simp add: update_accounting_def get_entity_def timepoint_minus_def duration_minus_def)
  have "sched_inv rq aok ?k1 = sched_inv rq aok k" by (rule sched_inv_cong) simp_all
  with update_accounting_inv [OF u] inv have inv2: "sched_inv rq aok ?k2" by blast
  have "active ?k2" using act by (simp add: upd_entity_def)
  from schedule_ok [OF inv2 this] obtain c' k' where k': "schedule A ?k2 = Inr k'" "current k' = Some c'"
    "if rq (algo ?k2) = [] then c' = idle_entity ?k2 else c' \<in> set (rq (algo ?k2))" by blast
  have "c' < length (entities ?k2)" using k'(3) inv2 unfolding sched_inv_def by (auto split: if_splits)
  from schedule_times [OF k'(1) \<open>active ?k2\<close> k'(2) this]
  have t: "\<forall>e. cpu_runtime (entities k' ! e) = cpu_runtime (entities ?k2 ! e)"
    "exec_start_time (entities k' ! c') = runtime ?k2" "runtime k' = runtime ?k2" by blast+
  have "cpu_runtime (entities ?k2 ! e) = cpu_runtime (entities k ! e) + (if e = c then 10000000 else 0)" for e
    using cur(2) by (cases "e = c") (auto simp: upd_entity_def)
  with u k' t show ?thesis by (auto simp: timer_tick_def upd_entity_def)
qed

lemma self_termination:
  assumes inv: "sched_inv rq aok k" and act: "active k" and p: "p < length (procs k)"
    and ts: "elems (threads (procs k ! p)) = t # ts" and cur: "current k = Some t" "arch_current k = Some t"
    and t: "t < length (entities k)" "t \<noteq> idle_entity k" "st k t \<noteq> STOPPED"
    and w: "elems (waiters k (ProcessEvent p)) = []" "elems (waiters k (EntityEvent t)) = []"
  shows "\<exists>k'. terminate A k p = Inr (False, k') \<and> terminated (procs k' ! p) \<and>
    (\<forall>u < length (entities k). u \<noteq> t \<longrightarrow> st k' u = st k u)"
proof -
  let ?k0 = "k\<lparr>procs := (procs k)[p := (procs k ! p)\<lparr>terminated := True\<rparr>]\<rparr>"
  let ?k1 = "?k0\<lparr>waiters := (waiters k)(ProcessEvent p := list_clear (waiters k (ProcessEvent p)))\<rparr>"
  have tr: "Event_trigger A ?k0 (ProcessEvent p) = Inr ?k1" using w(1) by (simp add: Event_trigger_def wake_def)
  have i1: "sched_inv rq aok ?k1" using inv sched_inv_cong [of ?k1 k rq aok] by simp
  have "st ?k1 t \<noteq> STOPPED" "t < length (entities ?k1)" "t \<noteq> idle_entity ?k1" using t by (simp_all add: st_def)
  from runqueue_change_ok [OF i1 this(2,1) _ this(3)] obtain a where
    a: "runqueue_change A (algo ?k1) t (st ?k1 t) STOPPED = Inr a"
    "sched_inv rq aok (upd_entity t (\<lambda>x. x\<lparr>ent_state := STOPPED\<rparr>) (?k1\<lparr>algo := a\<rparr>))" (is "sched_inv _ _ ?k2") by auto
  let ?k3 = "?k2\<lparr>waiters := (waiters ?k2)(EntityEvent t := list_clear (waiters ?k2 (EntityEvent t)))\<rparr>"
  have s3: "set_entity_state A ?k1 t STOPPED = Inr ?k3"
    using a(1) t w(2) by (simp add: set_entity_state_def nesting_def get_entity_def st_def wake_def upd_entity_def)
  have i3: "sched_inv rq aok ?k3" using a(2) sched_inv_cong [of ?k3 ?k2 rq aok] by simp
  have stk: "st ?k3 u = (if u = t then STOPPED else st k u)" if "u < length (entities k)" for u
    using that by (simp add: st_def upd_entity_def nth_list_update)
  have c3: "current ?k3 = Some t" "arch_current ?k3 = Some t" "active ?k3" "procs ?k3 = procs ?k0"
    "length (entities ?k3) = length (entities k)" "idle_entity ?k3 = idle_entity k"
    using cur act by (simp_all add: upd_entity_def)
  obtain c k' where k': "schedule A ?k3 = Inr k'" "procs k' = procs ?k3" "\<forall>e. st k' e = st ?k3 e"
    "if rq (algo ?k3) = [] then c = idle_entity ?k3 else c \<in> set (rq (algo ?k3))"
    "current ?k3 \<noteq> Some c \<longrightarrow> arch_current k' = Some c"
    using schedule_ok [OF i3 c3(3)] by blast
  have "st ?k3 c = RUNNABLE \<and> c < length (entities ?k3)"
    using k'(4) i3 unfolding sched_inv_def by (auto split: if_splits)
  then have "c \<noteq> t" using stk [of t] t(1) by auto
  then have "arch_current k' \<noteq> Some t" using k'(5) c3(1) by auto
  then have "thread_stop A ?k1 t = Inr (False, k')"
    using s3 c3(2) k'(1) by (simp add: thread_stop_def thread_yield_def)
  then have "terminate A k p = Inr (False, k')" using p tr ts by (simp add: terminate_def)
  moreover have "terminated (procs k' ! p)" using k'(2) c3(4) p by simp
  moreover have "\<forall>u < length (entities k). u \<noteq> t \<longrightarrow> st k' u = st k u" using k'(3) stk by simp
  ultimately show ?thesis by blast
qed

end

section \<open>A running kernel\<close>

text \<open>The operations the rest of the kernel performs, each on a state in which it is called.\<close>

inductive kern_step :: "'a SchedulingAlgorithm \<Rightarrow> 'a kernel \<Rightarrow> 'a kernel \<Rightarrow> bool" for A where
  step_run: "kern_step A k (Scheduler_run k)"
| step_tick: "timer_tick A k = Inr k' \<Longrightarrow> kern_step A k k'"
| step_start: "thread_start A k t = Inr k' \<Longrightarrow> kern_step A k k'"
| step_stop: "t \<noteq> idle_entity k \<Longrightarrow> thread_stop A k t = Inr (b, k') \<Longrightarrow> kern_step A k k'"
| step_wait: "arch_current k \<noteq> Some (idle_entity k) \<Longrightarrow> Event_wait A k ev = Inr (b, k') \<Longrightarrow> kern_step A k k'"
| step_trigger: "Event_trigger A k ev = Inr k' \<Longrightarrow> kern_step A k k'"
| step_create: "length (entities k) + 1 < 2 ^ 31 \<Longrightarrow> create_thread k p b = Inr (t, k') \<Longrightarrow> kern_step A k k'"
| step_terminate: "idle_entity k \<notin> set (elems (threads (procs k ! p))) \<Longrightarrow>
    terminate A k p = Inr (b, k') \<Longrightarrow> kern_step A k k'"

context sched_algorithm
begin

lemma kern_step_inv: "kern_step A k k' \<Longrightarrow> sched_inv rq aok k \<Longrightarrow> sched_inv rq aok k'"
proof (induction rule: kern_step.induct)
  case (step_run k)
  have "sched_inv rq aok (Scheduler_run k) = sched_inv rq aok k"
    by (rule sched_inv_cong) (simp_all add: Scheduler_run_def)
  with step_run show ?case by simp
next
  case (step_start k t k')
  then show ?case using set_state_inv [of _ k t RUNNABLE k'] by (simp add: thread_start_def set_entity_state_def)
next
  case (step_wait k ev b k')
  then obtain t where t: "arch_current k = Some t" "t \<noteq> idle_entity k"
    "thread_sleep A (k\<lparr>waiters := (waiters k)(ev := list_append (waiters k ev) t)\<rparr>) t = Inr (b, k')"
    by (auto simp: Event_wait_def WakeQueue_sleep_def andthen_eq_Inr)
  have "sched_inv rq aok (k\<lparr>waiters := (waiters k)(ev := list_append (waiters k ev) t)\<rparr>) = sched_inv rq aok k"
    by (rule sched_inv_cong) simp_all
  with thread_sleep_inv [OF t(3)] t(2) step_wait show ?case by simp
qed (use timer_tick_inv thread_stop_inv Event_trigger_inv create_thread_inv terminate_inv in blast)+

lemma reachable_inv:
  assumes "Scheduler_init A start = Inr k0" and "(kern_step A)\<^sup>*\<^sup>* k0 k"
  shows "sched_inv rq aok k"
  using assms(2)
proof (induction rule: rtranclp_induct)
  case base
  then show ?case using Scheduler_init_ok assms(1) by auto
next
  case (step y z)
  then show ?case using kern_step_inv by blast
qed

lemma reachable_schedule:
  assumes "Scheduler_init A start = Inr k0" and "(kern_step A)\<^sup>*\<^sup>* k0 k"
  shows "distinct (rq (algo k)) \<and>
    (\<forall>e. e \<in> set (rq (algo k)) \<longleftrightarrow>
       e < length (entities k) \<and> e \<noteq> idle_entity k \<and> ent_state (entities k ! e) = RUNNABLE) \<and>
    (active k \<longrightarrow> (\<exists>c k'. schedule A k = Inr k' \<and> current k' = Some c \<and>
       ent_state (entities k' ! c) = RUNNABLE \<and>
       (c = idle_entity k \<longleftrightarrow> (\<forall>e < length (entities k). ent_state (entities k ! e) = RUNNABLE \<longrightarrow> e = idle_entity k))))"
proof -
  have inv: "sched_inv rq aok k" by (rule reachable_inv [OF assms])
  then have mem: "\<forall>e. e \<in> set (rq (algo k)) \<longleftrightarrow> e < length (entities k) \<and> e \<noteq> idle_entity k \<and> st k e = RUNNABLE"
    and d: "distinct (rq (algo k))" and ir: "st k (idle_entity k) = RUNNABLE" by (simp_all add: sched_inv_def)
  have "\<exists>c k'. schedule A k = Inr k' \<and> current k' = Some c \<and> st k' c = RUNNABLE \<and>
      (c = idle_entity k \<longleftrightarrow> (\<forall>e < length (entities k). st k e = RUNNABLE \<longrightarrow> e = idle_entity k))" if act: "active k"
  proof -
    obtain c k' where k': "schedule A k = Inr k'" "current k' = Some c" "\<forall>e. st k' e = st k e"
      "if rq (algo k) = [] then c = idle_entity k else c \<in> set (rq (algo k))"
      using schedule_ok [OF inv act] by blast
    show ?thesis
    proof (cases "rq (algo k) = []")
      case True
      with k' ir mem show ?thesis by auto
    next
      case False
      with k'(4) have "c \<in> set (rq (algo k))" by simp
      with k' mem show ?thesis by metis
    qed
  qed
  with mem d show ?thesis by (simp add: st_def)
qed

end

section \<open>The three algorithms\<close>

definition run_queue :: "nat clist \<Rightarrow> nat list" where
  "run_queue q = (case Enumerate q of Inr xs \<Rightarrow> xs | Inl e \<Rightarrow> [])"

definition ring_ok :: "nat clist \<Rightarrow> bool" where
  "ring_ok q \<longleftrightarrow> holds_list q (run_queue q)"

lemma holds_run_queue: "holds_list q xs \<Longrightarrow> run_queue q = xs \<and> ring_ok q"
  by (simp add: run_queue_def ring_ok_def Enumerate_list)

lemma filter_neq_distinct: "distinct xs \<Longrightarrow> filter (\<lambda>y. y \<noteq> x) xs = remove1 x xs"
  by (simp add: distinct_remove1_removeAll removeAll_filter_not_eq) (metis)

lemma cfs_min_mem:
  "cfs_min rt es m r = m \<or> (\<exists>e \<in> set es. cfs_min rt es m r = Some e)"
  by (induction es arbitrary: m r) auto

lemma cfs_min_least:
  assumes "case m of None \<Rightarrow> True | Some x \<Rightarrow> rt x = r"
  shows "case cfs_min rt es m r of
      None \<Rightarrow> m = None \<and> es = []
    | Some y \<Rightarrow> (case m of None \<Rightarrow> True | Some x \<Rightarrow> rt y \<le> rt x) \<and> (\<forall>e \<in> set es. rt y \<le> rt e)"
  using assms
proof (induction es arbitrary: m r)
  case (Cons e es)
  show ?case
  proof (cases "m = None \<or> rt e < r")
    case True
    then have eq: "cfs_min rt (e # es) m r = cfs_min rt es (Some e) (rt e)" by simp
    from Cons.IH [of "rt e" "Some e"] Cons.prems True show ?thesis
      unfolding eq by (auto split: option.splits)
  next
    case False
    then have eq: "cfs_min rt (e # es) m r = cfs_min rt es m r" by auto
    from Cons.IH [of r m] Cons.prems False show ?thesis
      unfolding eq by (force split: option.splits)
  qed
qed (auto split: option.splits)

end
