(* ===== verification/Sched_Props.thy ===== *)
theory Sched_Props
  imports Sched_Correct
begin

text \<open>
  The three scheduling algorithms as interpretations of \<open>sched_algorithm\<close>, and the properties
  of the scheduler.
\<close>

section \<open>Interpretations\<close>

lemma lcount_length:
  assumes "list_ok q" and "length (elems q) < 2 ^ 31"
  shows "unat (lcount q) = length (elems q)"
  using assms by (simp add: list_ok_def unsigned_of_nat take_bit_nat_eq_self)

lemma cfs_pick_spec:
  assumes "list_ok q" and "length (elems q) < 2 ^ 31"
  shows "\<exists>r. cfs_pick rt q = Inr (r, q) \<and>
    (case r of None \<Rightarrow> elems q = []
     | Some e \<Rightarrow> e \<in> set (elems q) \<and> (\<forall>x \<in> set (elems q). rt e \<le> rt x))"
proof -
  have u: "unat (lcount q) = length (elems q)" by (rule lcount_length [OF assms])
  consider "elems q = []" | e where "elems q = [e]" | e f es where "elems q = e # f # es"
    by (metis list.exhaust)
  then show ?thesis
  proof cases
    case 1
    then have "lcount q = 0" using u by (simp add: unat_eq_zero)
    with 1 show ?thesis by (simp add: cfs_pick_def)
  next
    case 2
    then have "lcount q = 1" using u by (simp add: word_unat_eq_iff)
    with 2 show ?thesis by (simp add: cfs_pick_def list_first_def)
  next
    case 3
    then have "lcount q \<noteq> 0" "lcount q \<noteq> 1" using u by auto
    moreover have "case cfs_min rt (elems q) None 0 of None \<Rightarrow> elems q = []
        | Some e \<Rightarrow> e \<in> set (elems q) \<and> (\<forall>x \<in> set (elems q). rt e \<le> rt x)"
      using cfs_min_least [where m = None and rt = rt and r = 0 and es = "elems q"] cfs_min_mem [of rt "elems q" None 0]
      by (auto split: option.splits)
    ultimately show ?thesis by (simp add: cfs_pick_def)
  qed
qed

interpretation cfs: sched_algorithm CompletelyFairScheduler elems list_ok List_new
proof unfold_locales
  show "\<exists>r a'. pick_next_entity CompletelyFairScheduler rt a = Inr (r, a') \<and> list_ok a' \<and>
      set (elems a') = set (elems a) \<and> (distinct (elems a) \<longrightarrow> distinct (elems a')) \<and>
      (case r of None \<Rightarrow> elems a = [] | Some e \<Rightarrow> e \<in> set (elems a))"
    if "list_ok a" "length (elems a) < 2 ^ 31" for a rt
    using cfs_pick_spec [OF that, of rt] that(1) by (fastforce simp: CompletelyFairScheduler_def split: option.splits)
qed (auto simp: CompletelyFairScheduler_def)

lemma Enqueue_list:
  assumes "holds_list q xs"
  shows "\<exists>q'. Enqueue q x = Inr q' \<and> holds_list q' (xs @ [x])"
  using AddToTail_list [OF assms, of x] by (auto simp: Enqueue_def)

lemma rr_pick_list:
  assumes "holds_list q xs"
  shows "\<exists>q'. rr_pick rt q = Inr (case xs of [] \<Rightarrow> None | x # _ \<Rightarrow> Some x, q') \<and> holds_list q' (rotate1 xs)"
proof (cases xs)
  case Nil
  with holds_list_count [OF assms] assms show ?thesis by (simp add: rr_pick_def)
next
  case (Cons x ys)
  then obtain q' where "Skew q = Inr (x, q')" "holds_list q' (ys @ [x])" using Skew_list [of q x ys] assms by auto
  with Cons holds_list_count [OF assms] show ?thesis by (simp add: rr_pick_def)
qed

lemma fifo_pick_list:
  assumes "holds_list q xs"
  shows "fifo_pick rt q = Inr (case xs of [] \<Rightarrow> None | x # _ \<Rightarrow> Some x, q)"
proof (cases xs)
  case Nil
  with holds_list_count [OF assms] show ?thesis by (simp add: fifo_pick_def)
next
  case (Cons x ys)
  have "ccount q = 1 + int (length ys)" using holds_list_count [OF assms] Cons by simp
  moreover have "Get q 0 = Inr x" using Get_list(1) [OF assms, of 0] Cons by simp
  ultimately show ?thesis unfolding fifo_pick_def using Cons by simp
qed

lemma Remove_run_queue:
  assumes "ring_ok q" and "distinct (run_queue q)"
  shows "\<exists>q'. Remove q e = Inr q' \<and> ring_ok q' \<and> run_queue q' = remove1 e (run_queue q)"
proof -
  obtain q' where "Remove q e = Inr q'" "holds_list q' (remove1 e (run_queue q))"
    using Remove_list [OF assms(1) [unfolded ring_ok_def], of e] filter_neq_distinct [OF assms(2), of e] by metis
  with holds_run_queue show ?thesis by blast
qed

interpretation rr: sched_algorithm RoundRobinScheduler run_queue ring_ok "List_empty mem" for mem
proof unfold_locales
  show "ring_ok (List_empty mem) \<and> run_queue (List_empty mem) = []"
    using holds_run_queue [OF holds_list_empty] by blast
  show "\<exists>a'. add_to_runqueue RoundRobinScheduler a e = Inr a' \<and> ring_ok a' \<and> run_queue a' = run_queue a @ [e]"
    if a: "ring_ok a" "length (run_queue a) < 2 ^ 31" for a e
  proof -
    obtain q' where "Enqueue a e = Inr q'" "holds_list q' (run_queue a @ [e])"
      using Enqueue_list [OF a(1) [unfolded ring_ok_def], of e] by blast
    with holds_run_queue [of q'] show ?thesis by (simp add: RoundRobinScheduler_def)
  qed
  show "\<exists>a'. remove_from_runqueue RoundRobinScheduler a e = Inr a' \<and> ring_ok a' \<and> run_queue a' = remove1 e (run_queue a)"
    if a: "ring_ok a" "distinct (run_queue a)" for a e
    using Remove_run_queue [OF a] by (simp add: RoundRobinScheduler_def)
  show "\<exists>r a'. pick_next_entity RoundRobinScheduler rt a = Inr (r, a') \<and> ring_ok a' \<and>
      set (run_queue a') = set (run_queue a) \<and> (distinct (run_queue a) \<longrightarrow> distinct (run_queue a')) \<and>
      (case r of None \<Rightarrow> run_queue a = [] | Some e \<Rightarrow> e \<in> set (run_queue a))"
    if a: "ring_ok a" "length (run_queue a) < 2 ^ 31" for a rt
  proof -
    obtain q' where q': "rr_pick rt a = Inr (case run_queue a of [] \<Rightarrow> None | x # _ \<Rightarrow> Some x, q')"
      "holds_list q' (rotate1 (run_queue a))"
      using rr_pick_list [OF a(1) [unfolded ring_ok_def]] by blast
    have "run_queue q' = rotate1 (run_queue a)" "ring_ok q'" using holds_run_queue [OF q'(2)] by auto
    with q'(1) show ?thesis by (simp add: RoundRobinScheduler_def split: list.splits)
  qed
qed

interpretation fifo: sched_algorithm FIFOScheduler run_queue ring_ok "List_empty mem" for mem
proof unfold_locales
  show "ring_ok (List_empty mem) \<and> run_queue (List_empty mem) = []"
    using holds_run_queue [OF holds_list_empty] by blast
  show "\<exists>a'. add_to_runqueue FIFOScheduler a e = Inr a' \<and> ring_ok a' \<and> run_queue a' = run_queue a @ [e]"
    if a: "ring_ok a" "length (run_queue a) < 2 ^ 31" for a e
  proof -
    obtain n q' where "AddToTail a e = Inr (n, q')" "holds_list q' (run_queue a @ [e])"
      using AddToTail_list [OF a(1) [unfolded ring_ok_def], of e] by blast
    with holds_run_queue [of q'] show ?thesis by (simp add: FIFOScheduler_def)
  qed
  show "\<exists>a'. remove_from_runqueue FIFOScheduler a e = Inr a' \<and> ring_ok a' \<and> run_queue a' = remove1 e (run_queue a)"
    if a: "ring_ok a" "distinct (run_queue a)" for a e
    using Remove_run_queue [OF a] by (simp add: FIFOScheduler_def)
  show "\<exists>r a'. pick_next_entity FIFOScheduler rt a = Inr (r, a') \<and> ring_ok a' \<and>
      set (run_queue a') = set (run_queue a) \<and> (distinct (run_queue a) \<longrightarrow> distinct (run_queue a')) \<and>
      (case r of None \<Rightarrow> run_queue a = [] | Some e \<Rightarrow> e \<in> set (run_queue a))"
    if a: "ring_ok a" "length (run_queue a) < 2 ^ 31" for a rt
  proof -
    have "fifo_pick rt a = Inr (case run_queue a of [] \<Rightarrow> None | x # _ \<Rightarrow> Some x, a)"
      by (rule fifo_pick_list [OF a(1) [unfolded ring_ok_def]])
    with a(1) show ?thesis by (simp add: FIFOScheduler_def split: list.splits)
  qed
qed

text \<open>A kernel with the idle thread 0 and two runnable threads of one process, the first running.\<close>

definition two_threads :: "nat clist \<Rightarrow> nat clist kernel" where
  "two_threads q = \<lparr>active = True, algo = q, current = Some 1, idle_entity = 0, arch_current = Some 1,
     entities = replicate 3 \<lparr>ent_state = RUNNABLE, cpu_runtime = 0, exec_start_time = 0\<rparr>,
     waiters = (\<lambda>_. List_new),
     procs = [\<lparr>terminated = False, kernel_process = False, threads = \<lparr>elems = [1, 2], lcount = 2\<rparr>, main_thread = 1\<rparr>],
     runtime = 0\<rparr>"

lemma two_threads_inv: "\<exists>q. sched_inv run_queue ring_ok (two_threads q)"
proof -
  obtain n q1 where q1: "AddToTail (List_empty (\<lambda>_. 0)) (1::nat) = Inr (n, q1)" "holds_list q1 [1]"
    using AddToTail_list [OF holds_list_empty, of "\<lambda>_. 0" "1::nat"] by auto
  obtain m q where q: "AddToTail q1 2 = Inr (m, q)" "holds_list q [1, 2]"
    using AddToTail_list [OF q1(2), of 2] by auto
  have "run_queue q = [1, 2]" "ring_ok q" using holds_run_queue [OF q(2)] by auto
  then have "sched_inv run_queue ring_ok (two_threads q)"
    by (auto simp: sched_inv_def two_threads_def st_def)
  then show ?thesis by blast
qed

section \<open>Properties\<close>



text \<open>
  (\<open>sched.cpp\<close>, \<open>thread.cpp\<close>, \<open>process.cpp\<close> with \<open>sched-cfs.cpp\<close>). The same for the completely
  fair scheduler.
\<close>
theorem cfs_kernel_scheduling:
  assumes "Scheduler_init CompletelyFairScheduler List_new = Inr k0"
    and "(kern_step CompletelyFairScheduler)\<^sup>*\<^sup>* k0 k"
  shows "distinct (elems (algo k)) \<and>
    (\<forall>e. e \<in> set (elems (algo k)) \<longleftrightarrow>
       e < length (entities k) \<and> e \<noteq> idle_entity k \<and> ent_state (entities k ! e) = RUNNABLE) \<and>
    (active k \<longrightarrow> (\<exists>c k'. schedule CompletelyFairScheduler k = Inr k' \<and> current k' = Some c \<and>
       ent_state (entities k' ! c) = RUNNABLE \<and>
       (c = idle_entity k \<longleftrightarrow> (\<forall>e < length (entities k). ent_state (entities k ! e) = RUNNABLE \<longrightarrow> e = idle_entity k))))"
  by (rule cfs.reachable_schedule [OF assms])

theorem cfs_kernel_scheduling_witness:
  "\<exists>k0. Scheduler_init CompletelyFairScheduler List_new = Inr k0 \<and>
     (\<exists>k'. schedule CompletelyFairScheduler (Scheduler_run k0) = Inr k')"
proof -
  obtain k0 where k0: "Scheduler_init CompletelyFairScheduler List_new = Inr k0"
    using cfs.Scheduler_init_ok by blast
  have "(kern_step CompletelyFairScheduler)\<^sup>*\<^sup>* k0 (Scheduler_run k0)" using kern_step.step_run by blast
  moreover have "active (Scheduler_run k0)" by (simp add: Scheduler_run_def)
  ultimately show ?thesis using cfs_kernel_scheduling [OF k0, of "Scheduler_run k0"] k0 by blast
qed

text \<open>
  C12 (\<open>sched-cfs.cpp\<close>, \<open>pick_next_entity\<close>). The chosen entity is in the run queue and no entity of the
  queue has used less processor time; null is returned only for an empty queue.
\<close>
theorem cfs_picks_least_runtime:
  assumes "list_ok q" and "length (elems q) < 2 ^ 31"
  shows "\<exists>r. cfs_pick rt q = Inr (r, q) \<and>
    (case r of None \<Rightarrow> elems q = []
     | Some e \<Rightarrow> e \<in> set (elems q) \<and> (\<forall>x \<in> set (elems q). rt e \<le> rt x))"
  by (rule cfs_pick_spec [OF assms])

theorem cfs_picks_least_runtime_witness:
  "\<exists>r. cfs_pick (\<lambda>e. word_of_nat e) (enqueue (enqueue List_new 3) 2) = Inr (r, enqueue (enqueue List_new 3) 2)"
  using cfs_picks_least_runtime [of "enqueue (enqueue List_new 3) 2" "\<lambda>e. word_of_nat e"] by auto

primrec rr_picks :: "nat \<Rightarrow> (nat \<Rightarrow> Duration) \<Rightarrow> nat clist \<Rightarrow> (ptr list \<times> nat clist) result" where
  "rr_picks 0 rt q = Inr ([], q)"
| "rr_picks (Suc m) rt q =
     andthen (pick_next_entity RoundRobinScheduler rt q) (\<lambda>(p, q').
     andthen (rr_picks m rt q') (\<lambda>(ps, q''). Inr (p # ps, q'')))"

lemma rr_picks_list:
  assumes "holds_list q xs" and "xs \<noteq> []"
  shows "\<exists>q'. rr_picks m rt q = Inr (map (\<lambda>i. Some (xs ! (i mod length xs))) [0..<m], q')"
  using assms
proof (induction m arbitrary: q xs)
  case (Suc m)
  obtain x ys where xs: "xs = x # ys" using Suc.prems(2) by (cases xs) auto
  obtain q1 where q1: "rr_pick rt q = Inr (Some x, q1)" "holds_list q1 (ys @ [x])"
    using rr_pick_list [OF Suc.prems(1), of rt] xs by auto
  obtain q' where q': "rr_picks m rt q1 = Inr (map (\<lambda>i. Some ((ys @ [x]) ! (i mod length (ys @ [x])))) [0..<m], q')"
    using Suc.IH [OF q1(2)] by auto
  have "(ys @ [x]) ! (i mod length (ys @ [x])) = xs ! (Suc i mod length xs)" for i
    using xs nth_rotate1 [of "i mod length xs" xs] by (simp add: mod_Suc_eq)
  then have "map (\<lambda>i. Some ((ys @ [x]) ! (i mod length (ys @ [x])))) [0..<m] =
      map (\<lambda>i. Some (xs ! (i mod length xs))) [1..<Suc m]"
    by (simp add: map_Suc_upt [symmetric] comp_def del: upt_Suc)
  moreover have "[0..<Suc m] = 0 # [1..<Suc m]" by (simp add: upt_conv_Cons del: upt_Suc)
  ultimately show ?case using q1(1) q' xs by (simp add: RoundRobinScheduler_def del: upt_Suc)
qed simp

text \<open>
  C13 (\<open>sched-rr.cpp\<close>, \<open>pick_next_entity\<close>). Round-robin fairness: while nothing joins or leaves a run
  queue of \<open>n\<close> threads, the \<open>i\<close>-th scheduling event chooses the thread at position \<open>i mod n\<close>, so any
  \<open>n\<close> consecutive events run every thread exactly once.
\<close>
theorem rr_fair:
  assumes "holds_list q xs" and "xs \<noteq> []"
  shows "\<exists>q'. rr_picks m rt q = Inr (map (\<lambda>i. Some (xs ! (i mod length xs))) [0..<m], q')"
  by (rule rr_picks_list [OF assms])

theorem rr_fair_witness:
  "\<exists>q q'. holds_list q [4] \<and> rr_picks 2 (\<lambda>_. 0) q = Inr ([Some 4, Some 4], q')"
proof -
  obtain n q where q: "AddToTail (List_empty (\<lambda>_. 0)) (4::nat) = Inr (n, q)" "holds_list q [4]"
    using AddToTail_list [OF holds_list_empty, of "\<lambda>_. 0" "4::nat"] by auto
  with rr_fair [OF q(2), of 2 "\<lambda>_. 0"] show ?thesis by (auto simp: upt_rec)
qed

text \<open>
  (\<open>sched-fifo.cpp\<close>, \<open>pick_next_entity\<close>, with \<open>sched.cpp\<close>). The FIFO scheduler never preempts: a
  scheduling event makes the oldest runnable thread current and leaves the run queue as it
  is, so the same thread stays current until it stops or sleeps.
\<close>
theorem fifo_runs_oldest:
  assumes "Scheduler_init FIFOScheduler (List_empty mem) = Inr k0"
    and "(kern_step FIFOScheduler)\<^sup>*\<^sup>* k0 k" and "active k"
  shows "\<exists>k'. schedule FIFOScheduler k = Inr k' \<and> algo k' = algo k \<and>
    current k' = Some (case run_queue (algo k) of [] \<Rightarrow> idle_entity k | e # _ \<Rightarrow> e)"
proof -
  have inv: "sched_inv run_queue ring_ok k" by (rule fifo.reachable_inv [OF assms(1,2)])
  obtain k' where k': "schedule FIFOScheduler k = Inr k'" using fifo.schedule_ok [OF inv assms(3)] by blast
  have "holds_list (algo k) (run_queue (algo k))" using inv by (simp add: sched_inv_def ring_ok_def)
  then have "pick_next_entity FIFOScheduler (\<lambda>e. cpu_runtime (entities k ! e)) (algo k) =
      Inr (case run_queue (algo k) of [] \<Rightarrow> None | x # _ \<Rightarrow> Some x, algo k)"
    using fifo_pick_list by (simp add: FIFOScheduler_def)
  with schedule_result [OF k' assms(3) this] k' show ?thesis by (simp split: list.splits)
qed

theorem fifo_runs_oldest_witness:
  "\<exists>k0 k'. Scheduler_init FIFOScheduler (List_empty (\<lambda>_. 0)) = Inr k0 \<and>
     schedule FIFOScheduler (Scheduler_run k0) = Inr k'"
proof -
  obtain k0 where k0: "Scheduler_init FIFOScheduler (List_empty (\<lambda>_. 0)) = Inr k0"
    using fifo.Scheduler_init_ok [of "\<lambda>_. 0"] by blast
  have "(kern_step FIFOScheduler)\<^sup>*\<^sup>* k0 (Scheduler_run k0)" using kern_step.step_run by blast
  moreover have "active (Scheduler_run k0)" by (simp add: Scheduler_run_def)
  ultimately show ?thesis using fifo_runs_oldest [OF k0, of "Scheduler_run k0"] k0 by blast
qed



text \<open>
  (\<open>process.cpp\<close>, \<open>terminate\<close>; \<open>thread.cpp\<close>, \<open>stop\<close>). When a process's first thread terminates its own
  process, the loop over the threads never comes back from stopping that thread: the
  process is marked terminated, but its other threads keep their state and go on running.
\<close>
theorem self_termination_leaves_threads:
  assumes "sched_inv run_queue ring_ok k" and "active k" and "p < length (procs k)"
    and "elems (threads (procs k ! p)) = t # ts" and "current k = Some t" and "arch_current k = Some t"
    and "t < length (entities k)" and "t \<noteq> idle_entity k" and "ent_state (entities k ! t) = RUNNABLE"
    and "elems (waiters k (ProcessEvent p)) = []" and "elems (waiters k (EntityEvent t)) = []"
  shows "\<exists>k'. terminate RoundRobinScheduler k p = Inr (False, k') \<and> terminated (procs k' ! p) \<and>
    (\<forall>u < length (entities k). u \<noteq> t \<longrightarrow> ent_state (entities k' ! u) = ent_state (entities k ! u))"
  using rr.self_termination [OF assms(1-8)] assms(9-11) by (simp add: st_def)

theorem self_termination_leaves_threads_witness:
  "\<exists>q k'. terminate RoundRobinScheduler (two_threads q) 0 = Inr (False, k') \<and>
     ent_state (entities k' ! 2) = RUNNABLE"
proof -
  obtain q where q: "sched_inv run_queue ring_ok (two_threads q)" using two_threads_inv by blast
  have s: "active (two_threads q)" "0 < length (procs (two_threads q))"
    "elems (threads (procs (two_threads q) ! 0)) = 1 # [2]" "current (two_threads q) = Some 1"
    "arch_current (two_threads q) = Some 1" "1 < length (entities (two_threads q))"
    "1 \<noteq> idle_entity (two_threads q)" "ent_state (entities (two_threads q) ! 1) = RUNNABLE"
    "elems (waiters (two_threads q) (ProcessEvent 0)) = []" "elems (waiters (two_threads q) (EntityEvent 1)) = []"
    "2 < length (entities (two_threads q))" "ent_state (entities (two_threads q) ! 2) = RUNNABLE"
    by (simp_all add: two_threads_def)
  from self_termination_leaves_threads [OF q s(1-10)] obtain k' where
    "terminate RoundRobinScheduler (two_threads q) 0 = Inr (False, k')"
    "\<forall>u < length (entities (two_threads q)). u \<noteq> 1 \<longrightarrow> ent_state (entities k' ! u) = ent_state (entities (two_threads q) ! u)"
    by blast
  with s(11,12) show ?thesis by (metis numeral_eq_one_iff semiring_norm(85))
qed

text \<open>
  (\<open>lapic-timer.cpp\<close>, \<open>sched.cpp\<close>, \<open>update_accounting\<close>; \<open>time.h\<close>). A timer tick charges its ten
  milliseconds to the thread that was running and to no other, and leaves the thread that
  runs next with its start time at the new time, so ticks account for all processor time.
\<close>
theorem tick_charges_running_thread:
  assumes "sched_inv run_queue ring_ok k" and "active k" and "current k = Some c"
    and "c < length (entities k)" and "exec_start_time (entities k ! c) = runtime k"
  shows "\<exists>k' c'. timer_tick RoundRobinScheduler k = Inr k' \<and> current k' = Some c' \<and>
    (\<forall>e. cpu_runtime (entities k' ! e) = cpu_runtime (entities k ! e) + (if e = c then 10000000 else 0)) \<and>
    exec_start_time (entities k' ! c') = runtime k' \<and> runtime k' = runtime k + 10000000"
  by (rule rr.timer_tick_ok [OF assms])

theorem tick_charges_running_thread_witness:
  "\<exists>q k'. timer_tick RoundRobinScheduler (two_threads q) = Inr k' \<and> cpu_runtime (entities k' ! 1) = 10000000"
proof -
  obtain q where q: "sched_inv run_queue ring_ok (two_threads q)" using two_threads_inv by blast
  have s: "active (two_threads q)" "current (two_threads q) = Some 1" "1 < length (entities (two_threads q))"
    "exec_start_time (entities (two_threads q) ! 1) = runtime (two_threads q)"
    "cpu_runtime (entities (two_threads q) ! 1) = 0"
    by (simp_all add: two_threads_def)
  from tick_charges_running_thread [OF q s(1-4)] obtain k' where
    k': "timer_tick RoundRobinScheduler (two_threads q) = Inr k'"
    and rt: "\<forall>e. cpu_runtime (entities k' ! e) = cpu_runtime (entities (two_threads q) ! e) + (if e = 1 then 10000000 else 0)"
    by blast
  have "cpu_runtime (entities k' ! 1) = 10000000" using spec [OF rt, of 1] s(5) by simp
  with k' show ?thesis by blast
qed

end
