(* ===== verification/Cmos_Rtc.thy ===== *)
theory Cmos_Rtc
  imports Prelude
begin

text \<open>
  The CMOS real-time clock driver (\<open>coursework/cmos-rtc.cpp\<close>), the file the RTC is
  opened as (\<open>infos/drivers/timer/rtc.cpp\<close>) and the kernel's time of day
  (\<open>infos/kernel/kernel.cpp\<close>, \<open>infos/include/infos/util/time.h\<close>).
  The chip is a parameter: what the data port returns on the n-th read for the
  selected register, and what the address port returns when read. The driver's
  state is the selected register, the number of data reads done, the cached
  status register B and the interrupt flag.
\<close>

unbundle bit_operations_syntax

section \<open>Port access\<close>

record cmos_chip =
  data_port :: "nat \<Rightarrow> u8 \<Rightarrow> u8"
  address_port :: u8

record CMOSRTC =
  selected :: u8
  reads :: nat
  registerB :: u16
  interrupts :: bool

definition CMOSRTC_new :: "u8 \<Rightarrow> bool \<Rightarrow> CMOSRTC" where
  "CMOSRTC_new sel irq = \<lparr>selected = sel, reads = 0, registerB = - 1, interrupts = irq\<rparr>"

datatype Port = Second | Minute | Hour | Day | Month | Year | Century | BCD

fun port_number :: "Port \<Rightarrow> u8" where
  "port_number Second = 0"
| "port_number Minute = 0x02"
| "port_number Hour = 0x04"
| "port_number Day = 0x07"
| "port_number Month = 0x08"
| "port_number Year = 0x09"
| "port_number Century = 0x32"
| "port_number BCD = 0x0B"

definition outb_address :: "u8 \<Rightarrow> CMOSRTC \<Rightarrow> CMOSRTC" where
  "outb_address v d = d\<lparr>selected := v\<rparr>"

definition inb_data :: "cmos_chip \<Rightarrow> CMOSRTC \<Rightarrow> u8 \<times> CMOSRTC" where
  "inb_data hw d = (data_port hw (reads d) (selected d), d\<lparr>reads := Suc (reads d)\<rparr>)"

definition IsUpdateInProgress :: "cmos_chip \<Rightarrow> CMOSRTC \<Rightarrow> bool \<times> CMOSRTC" where
  "IsUpdateInProgress hw d =
    (let d' = outb_address 0x0A d in (address_port hw AND 0x80 \<noteq> 0, d'))"

section \<open>The driver\<close>

text \<open>
  \<open>unsigned short\<close> operands are promoted to \<open>int\<close> and the result is converted back;
  none of the intermediate values leaves 16 bits, so words of 16 bits give the same value.
\<close>

definition GetOriginal :: "cmos_chip \<Rightarrow> Port \<Rightarrow> CMOSRTC \<Rightarrow> u16 \<times> CMOSRTC" where
  "GetOriginal hw p d =
    (let (v, d') = inb_data hw (outb_address (port_number p) d) in (ucast v, d'))"

definition ReadRegisterB :: "cmos_chip \<Rightarrow> CMOSRTC \<Rightarrow> CMOSRTC" where
  "ReadRegisterB hw d = (let (v, d') = GetOriginal hw BCD d in d'\<lparr>registerB := v\<rparr>)"

definition IsBinaryCodedDecimal :: "CMOSRTC \<Rightarrow> bool" where
  "IsBinaryCodedDecimal d \<longleftrightarrow> registerB d AND 0x04 = 0"

definition Is12Hour :: "CMOSRTC \<Rightarrow> bool" where
  "Is12Hour d \<longleftrightarrow> registerB d AND 0x02 = 0"

definition ConvertToBinary :: "u16 \<Rightarrow> u16" where
  "ConvertToBinary v = (v AND 0xf) + v div 16 * 10"

definition GetRtcValue :: "cmos_chip \<Rightarrow> Port \<Rightarrow> CMOSRTC \<Rightarrow> u16 \<times> CMOSRTC" where
  "GetRtcValue hw p d =
    (let (f, d') = GetOriginal hw p d
     in (if IsBinaryCodedDecimal d' then ConvertToBinary f else f, d'))"

definition convert_hour :: "CMOSRTC \<Rightarrow> u16 \<Rightarrow> u16" where
  "convert_hour d h0 =
    (let h = (if IsBinaryCodedDecimal d
              then ((h0 AND 0xf) + (h0 AND 0x70) div 16 * 10) OR (h0 AND 0x80)
              else h0)
     in if Is12Hour d \<and> h AND 0x80 \<noteq> 0 then ((h AND 0x7f) + 12) mod 24 else h)"

definition GetRtcHourValue :: "cmos_chip \<Rightarrow> CMOSRTC \<Rightarrow> u16 \<times> CMOSRTC" where
  "GetRtcHourValue hw d = (let (h, d') = GetOriginal hw Hour d in (convert_hour d' h, d'))"

definition ThisCentury :: u16 where
  "ThisCentury = 20"

definition GetRtcYearValue :: "cmos_chip \<Rightarrow> CMOSRTC \<Rightarrow> u16 \<times> CMOSRTC" where
  "GetRtcYearValue hw d =
    (let (year, d1) = GetRtcValue hw Year d;
         (century, d2) = GetRtcValue hw Century d1;
         century = (if century = 0 then ThisCentury else century)
     in (year + century * 100, d2))"

record RTCTimePoint =
  seconds :: u16
  minutes :: u16
  hours :: u16
  day_of_month :: u16
  month :: u16
  year :: u16

definition read_timepoint :: "cmos_chip \<Rightarrow> CMOSRTC \<Rightarrow> RTCTimePoint \<times> CMOSRTC" where
  "read_timepoint hw d =
    (let d0 = ReadRegisterB hw (d\<lparr>interrupts := False\<rparr>);
         (s, d1) = GetRtcValue hw Second d0;
         (mi, d2) = GetRtcValue hw Minute d1;
         (h, d3) = GetRtcHourValue hw d2;
         (da, d4) = GetRtcValue hw Day d3;
         (mo, d5) = GetRtcValue hw Month d4;
         (y, d6) = GetRtcYearValue hw d5
     in (\<lparr>seconds = s, minutes = mi, hours = h, day_of_month = da, month = mo, year = y\<rparr>,
         d6\<lparr>interrupts := True\<rparr>))"

section \<open>The RTC opened as a file\<close>

text \<open>
  The caller's buffer is the time point written into it, or untouched (\<open>None\<close>).
\<close>

definition sizeof_tod_buffer :: nat where
  "sizeof_tod_buffer = 12"

definition RTCFile_read ::
    "cmos_chip \<Rightarrow> nat \<Rightarrow> CMOSRTC \<Rightarrow> nat \<times> RTCTimePoint option \<times> CMOSRTC" where
  "RTCFile_read hw len d =
    (if len < sizeof_tod_buffer then (0, None, d)
     else let (tp, d') = read_timepoint hw d in (sizeof_tod_buffer, Some tp, d'))"

definition RTCFile_pread ::
    "cmos_chip \<Rightarrow> nat \<Rightarrow> int \<Rightarrow> CMOSRTC \<Rightarrow> nat \<times> RTCTimePoint option \<times> CMOSRTC" where
  "RTCFile_pread hw len off d =
    (if len < sizeof_tod_buffer then (0, None, d)
     else if off \<noteq> 0 then (0, None, d)
     else let (tp, d') = read_timepoint hw d in (sizeof_tod_buffer, Some tp, d'))"

definition RTCFile_write :: "nat \<Rightarrow> int" where
  "RTCFile_write len = 0"

section \<open>The kernel's time of day\<close>

record TimeOfDay =
  tod_hours :: u16
  tod_minutes :: u16
  tod_seconds :: u16
  tod_day :: u16
  tod_month :: u16
  tod_year :: u16

record kernel_clock =
  runtime :: u64
  ticks_since_last_tod_update :: u64
  tod :: TimeOfDay

definition resync_tod ::
    "cmos_chip \<Rightarrow> CMOSRTC option \<Rightarrow> kernel_clock \<Rightarrow> kernel_clock \<times> CMOSRTC option" where
  "resync_tod hw rtc k =
    (let k = k\<lparr>ticks_since_last_tod_update := 0\<rparr>
     in case rtc of
          None \<Rightarrow> (k, None)
        | Some d \<Rightarrow>
            let (tp, d') = read_timepoint hw d
            in (k\<lparr>tod := \<lparr>tod_hours = hours tp, tod_minutes = minutes tp, tod_seconds = seconds tp,
                  tod_day = day_of_month tp, tod_month = month tp, tod_year = year tp\<rparr>\<rparr>, Some d'))"

definition initialise_tod ::
    "cmos_chip \<Rightarrow> CMOSRTC option \<Rightarrow> kernel_clock \<Rightarrow> kernel_clock \<times> CMOSRTC option" where
  "initialise_tod hw rtc k =
    resync_tod hw rtc (k\<lparr>tod := \<lparr>tod_hours = 0, tod_minutes = 0, tod_seconds = 0,
      tod_day = 1, tod_month = 1, tod_year = 1970\<rparr>\<rparr>)"

definition increment_tod :: "TimeOfDay \<Rightarrow> TimeOfDay" where
  "increment_tod t =
    (let t = t\<lparr>tod_seconds := tod_seconds t + 1\<rparr>
     in if tod_seconds t > 59 then
          let t = t\<lparr>tod_seconds := 0, tod_minutes := tod_minutes t + 1\<rparr>
          in if tod_minutes t > 59 then
               let t = t\<lparr>tod_minutes := 0, tod_hours := tod_hours t + 1\<rparr>
               in if tod_hours t > 23 then t\<lparr>tod_hours := 0\<rparr> else t
             else t
        else t)"

function tod_loop :: "u64 \<Rightarrow> TimeOfDay \<Rightarrow> u64 \<times> TimeOfDay" where
  "tod_loop ticks t =
    (if ticks > 1000000000 then tod_loop (ticks - 1000000000) (increment_tod t) else (ticks, t))"
  by auto
termination
  by (relation "measure (\<lambda>(ticks, t). unat ticks)")
    (auto simp: unat_sub word_less_nat_alt word_le_nat_alt)

declare tod_loop.simps [simp del]

definition update_runtime :: "u64 \<Rightarrow> kernel_clock \<Rightarrow> kernel_clock" where
  "update_runtime ticks k =
    (let (left, t) = tod_loop (ticks_since_last_tod_update k + ticks) (tod k)
     in k\<lparr>runtime := runtime k + ticks, ticks_since_last_tod_update := left, tod := t\<rparr>)"

end
