(* ===== verification/Cmos_Rtc_Props.thy ===== *)
theory Cmos_Rtc_Props
  imports Cmos_Rtc
begin

text \<open>
  What a reading of the RTC means: the registers of a chip that shows a given
  time in each of its four data modes, the round trip through the driver, the
  reading across an update of the chip, and the arithmetic of the kernel's
  time of day.
\<close>

unbundle bit_operations_syntax

section \<open>How the chip shows a time\<close>

record rtc_time =
  t_second :: nat
  t_minute :: nat
  t_hour :: nat
  t_day :: nat
  t_month :: nat
  t_year :: nat
  t_century :: nat

definition valid_time :: "rtc_time \<Rightarrow> bool" where
  "valid_time t \<longleftrightarrow> t_second t < 60 \<and> t_minute t < 60 \<and> t_hour t < 24 \<and>
    t_day t < 100 \<and> t_month t < 100 \<and> t_year t < 100 \<and> t_century t < 100"

definition encode_byte :: "bool \<Rightarrow> nat \<Rightarrow> u8" where
  "encode_byte bcd n = of_nat (if bcd then n div 10 * 16 + n mod 10 else n)"

definition encode_hour :: "bool \<Rightarrow> bool \<Rightarrow> nat \<Rightarrow> u8" where
  "encode_hour bcd h24 h =
    (if h24 then encode_byte bcd h
     else encode_byte bcd (if h mod 12 = 0 then 12 else h mod 12) OR (if 12 \<le> h then 0x80 else 0))"

definition encode_status :: "bool \<Rightarrow> bool \<Rightarrow> u8" where
  "encode_status bcd h24 = (if bcd then 0 else 4) OR (if h24 then 2 else 0)"

definition displays :: "bool \<Rightarrow> bool \<Rightarrow> rtc_time \<Rightarrow> u8 \<Rightarrow> u8" where
  "displays bcd h24 t r =
    (if r = port_number Second then encode_byte bcd (t_second t)
     else if r = port_number Minute then encode_byte bcd (t_minute t)
     else if r = port_number Hour then encode_hour bcd h24 (t_hour t)
     else if r = port_number Day then encode_byte bcd (t_day t)
     else if r = port_number Month then encode_byte bcd (t_month t)
     else if r = port_number Year then encode_byte bcd (t_year t)
     else if r = port_number Century then encode_byte bcd (t_century t)
     else if r = port_number BCD then encode_status bcd h24
     else 0)"

section \<open>Decoding one register\<close>

lemma ucast_small_nat: "k < 256 \<Longrightarrow> (ucast (of_nat k :: u8) :: u16) = of_nat k"
  by (simp add: unsigned_of_nat take_bit_nat_eq_self)

lemma unat_low_nibble: "unat (v AND 0xf :: u16) = unat v mod 16"
proof -
  have "v AND 0xf = take_bit 4 v"
    by (simp add: take_bit_eq_mask mask_eq_exp_minus_1)
  then show ?thesis
    by (simp add: unsigned_take_bit_eq take_bit_eq_mod [where 'a = nat])
qed

lemma ConvertToBinary_bcd:
  assumes "n < 100"
  shows "ConvertToBinary (of_nat (n div 10 * 16 + n mod 10)) = of_nat n"
proof -
  let ?k = "n div 10 * 16 + n mod 10"
  have k: "?k < 65536"
    using assms by simp
  have u: "unat (of_nat ?k :: u16) = ?k"
    using k by (simp add: unat_of_nat del: of_nat_add of_nat_mult)
  have r: "?k mod 16 = n mod 10"
    by (simp add: mod_mult_self3)
  have q: "?k div 16 = n div 10"
    by simp
  have lo: "(of_nat ?k :: u16) AND 0xf = of_nat (n mod 10)"
    unfolding word_unat_eq_iff unat_low_nibble u r by (simp add: unat_of_nat)
  have hi: "(of_nat ?k :: u16) div 16 = of_nat (n div 10)"
  proof -
    have "unat ((of_nat ?k :: u16) div 16) = ?k div 16"
      by (simp only: unat_div u) simp
    then show ?thesis
      unfolding word_unat_eq_iff using assms q by (simp add: unat_of_nat)
  qed
  have "ConvertToBinary (of_nat ?k) = of_nat (n mod 10) + of_nat (n div 10) * 10"
    unfolding ConvertToBinary_def lo hi ..
  also have "\<dots> = of_nat (n mod 10 + n div 10 * 10)"
    by (simp only: of_nat_add of_nat_mult of_nat_numeral)
  also have "n mod 10 + n div 10 * 10 = n"
    by simp
  finally show ?thesis .
qed

lemma status_modes:
  "(ucast (encode_status b h) :: u16) AND 0x04 = 0 \<longleftrightarrow> b"
  "(ucast (encode_status b h) :: u16) AND 0x02 = 0 \<longleftrightarrow> \<not> h"
  by (cases b; cases h; simp add: encode_status_def)+

lemma decode_byte:
  assumes "n < 100"
  shows "(if bcd then ConvertToBinary (ucast (encode_byte bcd n)) else ucast (encode_byte bcd n)) = of_nat n"
proof -
  have "n div 10 * 16 + n mod 10 < 256"
    using assms by simp
  then show ?thesis
    using assms ConvertToBinary_bcd [OF assms]
    by (simp add: encode_byte_def ucast_small_nat del: of_nat_add of_nat_mult)
qed

lemma less_24_cases:
  "h < 24 \<Longrightarrow> h \<in> set [0,1,2,3,4,5,6,7,8,9,10,11,12,13,14,15,16,17,18,19,20,21,22,23 :: nat]"
proof -
  assume "h < 24"
  then have "h \<in> set [0..<24]"
    by simp
  also have "[0..<24] = [0,1,2,3,4,5,6,7,8,9,10,11,12,13,14,15,16,17,18,19,20,21,22,23]"
    by (simp add: upt_rec)
  finally show ?thesis .
qed

lemma decode_hour_24:
  assumes "h < 24"
  shows "(ucast (encode_byte True h) AND 0xf) + (ucast (encode_byte True h) AND 0x70) div 16 * 10 OR
      (ucast (encode_byte True h) AND 0x80) = (of_nat h :: u16)"
    "(ucast (encode_byte False h) :: u16) = of_nat h"
  using less_24_cases [OF assms] unfolding list.set
  by (elim insertE emptyE; simp add: encode_byte_def)+

lemma decode_hour_12:
  assumes "h < 24"
  defines "r \<equiv> \<lambda>b. (ucast (encode_hour b False h) :: u16)"
  shows "(r True AND 0xf) + (r True AND 0x70) div 16 * 10 OR (r True AND 0x80) = r False"
    "(if r False AND 0x80 \<noteq> 0 then ((r False AND 0x7f) + 12) mod 24 else r False) =
      of_nat (if h mod 12 = 0 then 12 - h else h)"
  using less_24_cases [OF assms(1)] unfolding list.set r_def
  by (elim insertE emptyE; simp add: encode_hour_def encode_byte_def)+

lemma decode_hour:
  assumes "h < 24" and "registerB d AND 0x04 = 0 \<longleftrightarrow> bcd" and "registerB d AND 0x02 = 0 \<longleftrightarrow> \<not> h24"
  shows "convert_hour d (ucast (encode_hour bcd h24 h)) =
    of_nat (if \<not> h24 \<and> h mod 12 = 0 then 12 - h else h)"
proof (cases h24)
  case True
  then have "encode_hour bcd h24 h = encode_byte bcd h"
    by (simp add: encode_hour_def)
  then show ?thesis
    using True assms(2,3) decode_hour_24 [OF assms(1)]
    unfolding convert_hour_def IsBinaryCodedDecimal_def Is12Hour_def Let_def by (cases bcd) simp_all
next
  case False
  let ?v = "ucast (encode_hour bcd h24 h) :: u16"
  have e: "(if IsBinaryCodedDecimal d then (?v AND 0xf) + (?v AND 0x70) div 16 * 10 OR (?v AND 0x80) else ?v) =
      ucast (encode_hour False False h)"
    using False assms(2) decode_hour_12(1) [OF assms(1)]
    by (cases bcd) (simp_all add: IsBinaryCodedDecimal_def)
  show ?thesis
    using False assms(3) decode_hour_12(2) [OF assms(1)]
    unfolding convert_hour_def Let_def e by (simp add: Is12Hour_def split del: if_split)
qed

section \<open>A whole reading\<close>

lemma GetRtcValue_displays:
  assumes "data_port hw (reads d) (port_number p) = encode_byte bcd n" and "n < 100"
    and "registerB d AND 0x04 = 0 \<longleftrightarrow> bcd"
  shows "GetRtcValue hw p d = (of_nat n, d\<lparr>selected := port_number p, reads := Suc (reads d)\<rparr>)"
  using assms decode_byte [of n bcd]
  by (auto simp: GetRtcValue_def GetOriginal_def inb_data_def outb_address_def IsBinaryCodedDecimal_def Let_def
      split: if_splits)

lemma read_timepoint_across:
  assumes "valid_time t" and "valid_time t'"
    and "\<And>n r. data_port hw n r = displays bcd h24 (if n < c then t else t') r"
    and "reads d = 0"
  defines "at \<equiv> \<lambda>n. if n < c then t else t'"
  shows "fst (read_timepoint hw d) =
    \<lparr>seconds = of_nat (t_second (at 1)), minutes = of_nat (t_minute (at 2)),
     hours = of_nat (let h = t_hour (at 3) in if \<not> h24 \<and> h mod 12 = 0 then 12 - h else h),
     day_of_month = of_nat (t_day (at 4)), month = of_nat (t_month (at 5)),
     year = of_nat (t_year (at 6) +
       (if t_century (at 7) = 0 then 20 else t_century (at 7)) * 100)\<rparr>"
    (is "?f = ?g")
proof -
  have v: "valid_time (at n)" for n
    using assms(1,2) by (simp add: at_def)
  have hw: "data_port hw n r = displays bcd h24 (at n) r" for n r
    by (simp add: assms(3) at_def)
  define d0 where "d0 = ReadRegisterB hw (d\<lparr>interrupts := False\<rparr>)"
  have d0: "reads d0 = 1" "registerB d0 = ucast (encode_status bcd h24)"
    using \<open>reads d = 0\<close>
    by (simp_all add: d0_def ReadRegisterB_def GetOriginal_def inb_data_def outb_address_def hw displays_def)
  note bits = status_modes [of bcd h24]
  have rb: "GetRtcValue hw p e = (of_nat n, e\<lparr>selected := port_number p, reads := Suc (reads e)\<rparr>)"
    if "registerB e = ucast (encode_status bcd h24)"
      "displays bcd h24 (at (reads e)) (port_number p) = encode_byte bcd n" "n < 100" for p e n
    by (rule GetRtcValue_displays) (use that bits in \<open>simp_all add: hw\<close>)
  have hr: "GetRtcHourValue hw e =
      (of_nat (let h = t_hour (at (reads e)) in if \<not> h24 \<and> h mod 12 = 0 then 12 - h else h),
       e\<lparr>selected := port_number Hour, reads := Suc (reads e)\<rparr>)"
    if "registerB e = ucast (encode_status bcd h24)" for e
    using decode_hour [of "t_hour (at (reads e))" "e\<lparr>selected := port_number Hour, reads := Suc (reads e)\<rparr>" bcd h24]
      v [of "reads e"] that bits
    by (simp add: GetRtcHourValue_def GetOriginal_def inb_data_def outb_address_def hw displays_def valid_time_def Let_def)
  have lt: "t_second (at n) < 100" "t_minute (at n) < 100" "t_day (at n) < 100" "t_month (at n) < 100"
      "t_year (at n) < 100" "t_century (at n) < 100" for n
    using v [of n] by (simp_all add: valid_time_def)
  have c0: "(of_nat (t_century (at 7)) :: u16) = 0 \<longleftrightarrow> t_century (at 7) = 0"
    using lt(6) [of 7] by (auto simp: word_of_nat_eq_0_iff dest: dvd_imp_le)
  obtain d1 where s1: "GetRtcValue hw Second d0 = (of_nat (t_second (at 1)), d1)"
    "reads d1 = 2" "registerB d1 = ucast (encode_status bcd h24)"
    using rb [OF d0(2), of Second "t_second (at 1)"] d0 lt by (simp add: displays_def)
  obtain d2 where s2: "GetRtcValue hw Minute d1 = (of_nat (t_minute (at 2)), d2)"
    "reads d2 = 3" "registerB d2 = ucast (encode_status bcd h24)"
    using rb [OF s1(3), of Minute "t_minute (at 2)"] s1 lt by (simp add: displays_def)
  obtain d3 where s3: "GetRtcHourValue hw d2 =
      (of_nat (let h = t_hour (at 3) in if \<not> h24 \<and> h mod 12 = 0 then 12 - h else h), d3)"
    "reads d3 = 4" "registerB d3 = ucast (encode_status bcd h24)"
    using hr [OF s2(3)] s2 by simp
  obtain d4 where s4: "GetRtcValue hw Day d3 = (of_nat (t_day (at 4)), d4)"
    "reads d4 = 5" "registerB d4 = ucast (encode_status bcd h24)"
    using rb [OF s3(3), of Day "t_day (at 4)"] s3 lt by (simp add: displays_def)
  obtain d5 where s5: "GetRtcValue hw Month d4 = (of_nat (t_month (at 5)), d5)"
    "reads d5 = 6" "registerB d5 = ucast (encode_status bcd h24)"
    using rb [OF s4(3), of Month "t_month (at 5)"] s4 lt by (simp add: displays_def)
  obtain d6 where s6: "GetRtcValue hw Year d5 = (of_nat (t_year (at 6)), d6)"
    "reads d6 = 7" "registerB d6 = ucast (encode_status bcd h24)"
    using rb [OF s5(3), of Year "t_year (at 6)"] s5 lt by (simp add: displays_def)
  obtain d7 where s7: "GetRtcValue hw Century d6 = (of_nat (t_century (at 7)), d7)"
    using rb [OF s6(3), of Century "t_century (at 7)"] s6 lt by (simp add: displays_def)
  have y: "GetRtcYearValue hw d5 =
      (of_nat (t_year (at 6) + (if t_century (at 7) = 0 then 20 else t_century (at 7)) * 100), d7)"
    using s6(1) s7 c0 by (simp add: GetRtcYearValue_def ThisCentury_def)
  show ?thesis
    unfolding read_timepoint_def d0_def [symmetric] Let_def s1(1) s2(1) s3(1) s4(1) s5(1) y prod.case
    by simp
qed


section \<open>Properties of a reading\<close>

lemma twelve_hour_eq: "(h :: nat) < 24 \<Longrightarrow> h mod 12 = 0 \<longleftrightarrow> h = 0 \<or> h = 12"
  by presburger

text \<open>
  C15 (\<open>cmos-rtc.cpp\<close>). When the chip shows one valid time t throughout a reading, in binary or BCD
  mode and in 24-hour or 12-hour mode, read_timepoint returns the fields of t,
  the year being century * 100 + year with century 20 for a chip without a century register, and
  leaves interrupts enabled. The one exception is the hour in 12-hour
  mode when it is shown as twelve: midnight is read as 12 and noon as 0.
\<close>

theorem rtc_reading_correct:
  assumes "valid_time t" and "\<And>n r. data_port hw n r = displays bcd h24 t r" and "reads d = 0"
  shows "read_timepoint hw d = (tp, d') \<Longrightarrow>
    seconds tp = of_nat (t_second t) \<and> minutes tp = of_nat (t_minute t) \<and>
    hours tp = of_nat (if \<not> h24 \<and> t_hour t = 0 then 12
                       else if \<not> h24 \<and> t_hour t = 12 then 0 else t_hour t) \<and>
    day_of_month tp = of_nat (t_day t) \<and> month tp = of_nat (t_month t) \<and>
    year tp = of_nat ((if t_century t = 0 then 20 else t_century t) * 100 + t_year t) \<and>
    interrupts d'"
proof -
  assume r: "read_timepoint hw d = (tp, d')"
  have h: "(let h = t_hour t in if \<not> h24 \<and> h mod 12 = 0 then 12 - h else h) =
      (if \<not> h24 \<and> t_hour t = 0 then 12 else if \<not> h24 \<and> t_hour t = 12 then 0 else t_hour t)"
    using twelve_hour_eq [of "t_hour t"] assms(1) by (auto simp: valid_time_def)
  have "interrupts (snd (read_timepoint hw d))"
    by (simp add: read_timepoint_def Let_def split_beta)
  moreover have "fst (read_timepoint hw d) =
    \<lparr>seconds = of_nat (t_second t), minutes = of_nat (t_minute t),
     hours = of_nat (let h = t_hour t in if \<not> h24 \<and> h mod 12 = 0 then 12 - h else h),
     day_of_month = of_nat (t_day t), month = of_nat (t_month t),
     year = of_nat (t_year t + (if t_century t = 0 then 20 else t_century t) * 100)\<rparr>"
    using read_timepoint_across [of t t hw bcd h24 0 d] assms by simp
  ultimately show ?thesis
    unfolding h r by (simp add: add.commute)
qed

definition new_year_eve :: rtc_time where
  "new_year_eve = \<lparr>t_second = 59, t_minute = 59, t_hour = 23, t_day = 31, t_month = 12, t_year = 24,
    t_century = 20\<rparr>"

definition new_year :: rtc_time where
  "new_year = \<lparr>t_second = 0, t_minute = 0, t_hour = 0, t_day = 1, t_month = 1, t_year = 25,
    t_century = 20\<rparr>"

theorem rtc_reading_correct_witness:
  "hours (fst (read_timepoint \<lparr>data_port = \<lambda>n. displays True False new_year, address_port = 0\<rparr>
     (CMOSRTC_new 0 True))) = 12"
  using rtc_reading_correct [of new_year "\<lparr>data_port = \<lambda>n. displays True False new_year, address_port = 0\<rparr>"
      True False "CMOSRTC_new 0 True"]
  by (cases "read_timepoint \<lparr>data_port = \<lambda>n. displays True False new_year, address_port = 0\<rparr>
     (CMOSRTC_new 0 True)") (simp add: new_year_def valid_time_def CMOSRTC_new_def)

text \<open>
  (\<open>cmos-rtc.cpp\<close>). The driver never waits for the chip's update flag, so a reading that an update
  falls into mixes two times: with an update from 23:59:59 on 31 December 2024 to midnight after k data
  reads (1 < k < 7, the read of status register B included), the result is the first k - 1 fields of the old time followed by the fields of the new one, e.g. for k = 2 the
  second 59 with the minute, hour and date of the new year.
\<close>

theorem rtc_reading_torn:
  assumes "\<And>n r. data_port hw n r = displays bcd True (if n < k then new_year_eve else new_year) r"
    and "reads d = 0" and "1 < k" and "k < 7"
  shows "fst (read_timepoint hw d) =
    \<lparr>seconds = 59, minutes = (if 2 < k then 59 else 0), hours = (if 3 < k then 23 else 0),
     day_of_month = (if 4 < k then 31 else 1), month = (if 5 < k then 12 else 1),
     year = (if 6 < k then 2024 else 2025)\<rparr>"
proof -
  have "valid_time new_year_eve" "valid_time new_year"
    by (simp_all add: valid_time_def new_year_eve_def new_year_def)
  from read_timepoint_across [OF this, of hw bcd True k d]
  show ?thesis
    using assms by (simp add: new_year_eve_def new_year_def)
qed

theorem rtc_reading_torn_witness:
  "fst (read_timepoint \<lparr>data_port = \<lambda>n. displays True True (if n < 2 then new_year_eve else new_year),
      address_port = 0\<rparr> (CMOSRTC_new 0 True)) =
   \<lparr>seconds = 59, minutes = 0, hours = 0, day_of_month = 1, month = 1, year = 2025\<rparr>"
  using rtc_reading_torn [of "\<lparr>data_port = \<lambda>n. displays True True (if n < 2 then new_year_eve else new_year),
      address_port = 0\<rparr>" True 2 "CMOSRTC_new 0 True"]
  by (simp add: CMOSRTC_new_def)

section \<open>The time of day\<close>

definition valid_tod :: "TimeOfDay \<Rightarrow> bool" where
  "valid_tod t \<longleftrightarrow> tod_seconds t < 60 \<and> tod_minutes t < 60 \<and> tod_hours t < 24"

definition second_of_day :: "TimeOfDay \<Rightarrow> nat" where
  "second_of_day t = unat (tod_hours t) * 3600 + unat (tod_minutes t) * 60 + unat (tod_seconds t)"

definition date_of :: "TimeOfDay \<Rightarrow> u16 \<times> u16 \<times> u16" where
  "date_of t = (tod_day t, tod_month t, tod_year t)"

lemma u16_Suc: "x < 60 \<Longrightarrow> unat (x + 1 :: u16) = Suc (unat x)"
  by (simp add: unat_word_ariths word_less_nat_alt)

lemma u16_gt: "(n < (x :: u16)) \<longleftrightarrow> unat n < unat x"
  by (simp add: word_less_nat_alt)

lemma day_carry:
  "22 < h \<Longrightarrow> 58 < m \<Longrightarrow> 58 < s \<Longrightarrow> h < 24 \<Longrightarrow> m < 60 \<Longrightarrow> s < 60 \<Longrightarrow>
    Suc (h * 3600 + m * 60 + s) mod 86400 = 0"
proof -
  assume "22 < h" "58 < m" "58 < s" "h < 24" "m < 60" "s < 60"
  then have "h = 23" "m = 59" "s = 59"
    by simp_all
  then show ?thesis
    by simp
qed

lemma increment_tod_correct:
  assumes "valid_tod t"
  shows "valid_tod (increment_tod t)"
    "second_of_day (increment_tod t) = (second_of_day t + 1) mod 86400"
    "date_of (increment_tod t) = date_of t"
proof -
  have b: "unat (tod_seconds t) < 60" "unat (tod_minutes t) < 60" "unat (tod_hours t) < 24"
    using assms by (simp_all add: valid_tod_def word_less_nat_alt)
  have s: "unat (tod_seconds t + 1) = Suc (unat (tod_seconds t))"
    "unat (tod_minutes t + 1) = Suc (unat (tod_minutes t))"
    "unat (tod_hours t + 1) = Suc (unat (tod_hours t))"
    using b by (simp_all add: u16_Suc word_less_nat_alt)
  note defs = increment_tod_def valid_tod_def second_of_day_def date_of_def Let_def word_less_nat_alt
  show "valid_tod (increment_tod t)"
    using b s by (simp add: defs)
  show "date_of (increment_tod t) = date_of t"
    by (simp add: defs)
  show "second_of_day (increment_tod t) = (second_of_day t + 1) mod 86400"
    using b s day_carry [of "unat (tod_hours t)" "unat (tod_minutes t)" "unat (tod_seconds t)"]
    by (simp add: defs)
qed

lemma tod_loop_correct:
  assumes "valid_tod t" and "tod_loop ticks t = (left, t')"
  shows "valid_tod t' \<and> date_of t' = date_of t \<and> left \<le> 1000000000 \<and>
    (\<exists>k. unat ticks = k * 1000000000 + unat left \<and> second_of_day t' = (second_of_day t + k) mod 86400)"
  using assms
proof (induction ticks t rule: tod_loop.induct)
  case (1 ticks t)
  show ?case
  proof (cases "ticks > 1000000000")
    case True
    have u: "unat (ticks - 1000000000) = unat ticks - 1000000000" "1000000000 \<le> unat ticks"
      using True by (simp_all add: unat_sub word_less_nat_alt word_le_nat_alt)
    have "tod_loop (ticks - 1000000000) (increment_tod t) = (left, t')"
      using 1(3) True by (simp add: tod_loop.simps [of ticks])
    with 1(1) [OF True increment_tod_correct(1) [OF 1(2)]]
    obtain k where k: "valid_tod t'" "date_of t' = date_of t" "left \<le> 1000000000"
      "unat ticks - 1000000000 = k * 1000000000 + unat left"
      "second_of_day t' = (second_of_day (increment_tod t) + k) mod 86400"
      using increment_tod_correct(3) [OF 1(2)] u by auto
    have "second_of_day t' = (second_of_day t + Suc k) mod 86400"
      unfolding k(5) increment_tod_correct(2) [OF 1(2)] by (simp add: mod_simps)
    moreover have "unat ticks = Suc k * 1000000000 + unat left"
      using k(4) u(2) by simp
    ultimately show ?thesis
      using k by blast
  next
    case False
    have "second_of_day t < 86400"
      using 1(2) by (simp add: valid_tod_def second_of_day_def word_less_nat_alt)
    then show ?thesis
      using False 1(2,3) by (auto simp: tod_loop.simps [of ticks] intro: exI [of _ 0])
  qed
qed

text \<open>
  C16 (\<open>kernel.cpp\<close>). update_runtime keeps the time of day in step with the ticks: when the pending and new nanoseconds do not
  overflow 64 bits, the seconds of the day advance modulo a day by as many whole seconds as leave at most one second pending, no
  nanosecond is lost, the clock fields stay in range, and the date is not changed,
  at midnight either.
\<close>

theorem time_of_day_advances:
  assumes "valid_tod (tod k)" and "update_runtime ticks k = k'"
    and "unat (ticks_since_last_tod_update k) + unat ticks < 2 ^ 64"
  shows "valid_tod (tod k') \<and> date_of (tod k') = date_of (tod k) \<and>
    ticks_since_last_tod_update k' \<le> 1000000000 \<and> runtime k' = runtime k + ticks \<and>
    (\<exists>s. unat (ticks_since_last_tod_update k) + unat ticks =
           s * 1000000000 + unat (ticks_since_last_tod_update k') \<and>
         second_of_day (tod k') = (second_of_day (tod k) + s) mod 86400)"
proof -
  obtain left t where l: "tod_loop (ticks_since_last_tod_update k + ticks) (tod k) = (left, t)"
    by fastforce
  have u: "unat (ticks_since_last_tod_update k + ticks) = unat (ticks_since_last_tod_update k) + unat ticks"
    using assms(3) by (simp add: unat_word_ariths)
  show ?thesis
    using tod_loop_correct [OF assms(1) l] assms(2) l unfolding u by (auto simp: update_runtime_def)
qed

theorem time_of_day_advances_witness:
  "tod_day (tod (update_runtime 10 \<lparr>runtime = 0, ticks_since_last_tod_update = 999999995,
     tod = \<lparr>tod_hours = 23, tod_minutes = 59, tod_seconds = 59, tod_day = 31, tod_month = 12, tod_year = 2024\<rparr>\<rparr>)) = 31"
  using time_of_day_advances [of "\<lparr>runtime = 0, ticks_since_last_tod_update = 999999995,
     tod = \<lparr>tod_hours = 23, tod_minutes = 59, tod_seconds = 59, tod_day = 31, tod_month = 12, tod_year = 2024\<rparr>\<rparr>" 10]
  by (simp add: valid_tod_def date_of_def)

end
