(* ===== verification/Util_String.thy ===== *)
theory Util_String
  imports Util_List
begin

text \<open>
  C strings and \<open>infos::util::String\<close> (\<open>infos/util/string.cpp\<close>,
  \<open>infos/include/infos/util/string.h\<close>). A \<open>const char *\<close> is the rest of the array it points
  into, a list of bytes, or \<open>None\<close> for the null pointer; reading past the array is
  \<open>OutOfBounds\<close>. A \<open>String\<close> is its size, its array of size + 1 bytes (\<open>None\<close> after a
  move assignment took it), and the cached hash. \<open>char\<close> is signed on the target, so the
  hash sign-extends every byte.
\<close>

unbundle bit_operations_syntax

type_synonym bytes = "u8 list"
type_synonym cstr = "bytes option"

named_theorems string_simps "C strings and the fields of a String"

section \<open>C strings\<close>

fun strlen_walk :: "bytes \<Rightarrow> nat result" where
  "strlen_walk [] = Inl OutOfBounds"
| "strlen_walk (c # cs) = (if c = 0 then Inr 0 else andthen (strlen_walk cs) (\<lambda>n. Inr (Suc n)))"

definition strlen :: "cstr \<Rightarrow> nat result" where
  "strlen p = (case p of None \<Rightarrow> Inr 0 | Some s \<Rightarrow> strlen_walk s)"

text \<open>
  The loop condition reads \<open>*str1\<close>, then \<open>*str2\<close>, then tests and decrements \<open>n\<close>.
\<close>

fun strncmp_walk :: "bytes \<Rightarrow> bytes \<Rightarrow> nat \<Rightarrow> int result" where
  "strncmp_walk [] _ _ = Inl OutOfBounds"
| "strncmp_walk (a # as) ys n =
    (if a = 0 then Inr 0
     else case ys of
       [] \<Rightarrow> Inl OutOfBounds
     | b # bs \<Rightarrow>
         if b = 0 then Inr 0
         else if n = 0 then Inr 0
         else if a \<noteq> b then Inr (- 1)
         else strncmp_walk as bs (n - 1))"

definition strncmp :: "cstr \<Rightarrow> cstr \<Rightarrow> nat \<Rightarrow> int result" where
  "strncmp p q n =
    andthen (strlen p) (\<lambda>l1. andthen (strlen q) (\<lambda>l2.
      if l1 \<noteq> l2 then Inr (- 1)
      else andthen (deref p) (\<lambda>xs. andthen (deref q) (\<lambda>ys. strncmp_walk xs ys n))))"

text \<open>
  \<open>strncpy\<close> fills \<open>dest\<close> from position \<open>i\<close> and returns the array and the position of the terminator
  it wrote. \<open>--n\<close> is on an unsigned 64-bit count.
\<close>

definition put :: "bytes \<Rightarrow> nat \<Rightarrow> u8 \<Rightarrow> bytes result" where
  "put d i c = (if i < length d then Inr (d[i := c]) else Inl OutOfBounds)"

fun strncpy_walk :: "bytes \<Rightarrow> nat \<Rightarrow> bytes \<Rightarrow> u64 \<Rightarrow> (bytes \<times> nat) result" where
  "strncpy_walk d i src n =
    (let n = n - 1
     in if n = 0 then andthen (put d i 0) (\<lambda>d. Inr (d, i))
        else case src of
          [] \<Rightarrow> Inl OutOfBounds
        | c # cs \<Rightarrow>
            if c = 0 then andthen (put d i 0) (\<lambda>d. Inr (d, i))
            else andthen (put d i c) (\<lambda>d. strncpy_walk d (Suc i) cs n))"

declare strncpy_walk.simps [simp del]

definition strncpy :: "bytes \<Rightarrow> cstr \<Rightarrow> u64 \<Rightarrow> (bytes \<times> nat) result" where
  "strncpy d p n = (case p of
      None \<Rightarrow> if n = 1 then strncpy_walk d 0 [] n else Inl NullDeref
    | Some s \<Rightarrow> strncpy_walk d 0 s n)"

section \<open>Strings\<close>

record String =
  str_size :: nat
  str_data :: "bytes option"
  has_hash :: bool
  hash :: u64

definition chars :: "String \<Rightarrow> bytes" where
  "chars s = (case str_data s of None \<Rightarrow> [] | Some d \<Rightarrow> take (str_size s) d)"

definition string_of :: "bytes \<Rightarrow> String" where
  "string_of cs = \<lparr>str_size = length cs, str_data = Some (cs @ [0]), has_hash = False, hash = 0\<rparr>"

definition String_empty :: String where
  "String_empty = \<lparr>str_size = 0, str_data = Some [0], has_hash = False, hash = 0\<rparr>"

definition String_cstr :: "cstr \<Rightarrow> String result" where
  "String_cstr p = andthen (strlen p) (\<lambda>n.
    Inr \<lparr>str_size = n, str_data = Some ((case p of None \<Rightarrow> [] | Some s \<Rightarrow> take n s) @ [0]),
         has_hash = False, hash = 0\<rparr>)"

definition String_copy :: "String \<Rightarrow> String" where
  "String_copy s = \<lparr>str_size = str_size s, str_data = Some (chars s @ [0]),
    has_hash = has_hash s, hash = hash s\<rparr>"

definition String_move :: "String \<Rightarrow> String" where
  "String_move s = \<lparr>str_size = str_size s, str_data = str_data s,
    has_hash = has_hash s, hash = (if has_hash s then 1 else 0)\<rparr>"

definition string_length :: "String \<Rightarrow> nat" where
  "string_length s = str_size s"

definition string_is_empty :: "String \<Rightarrow> bool" where
  "string_is_empty s \<longleftrightarrow> str_size s = 0"

definition c_str :: "String \<Rightarrow> cstr" where
  "c_str s = str_data s"

text \<open>\<open>hash ^= _data[i]\<close> promotes the signed \<open>char\<close>, so the byte is sign-extended to 64 bits.\<close>

definition hash_byte :: "u64 \<Rightarrow> u8 \<Rightarrow> u64" where
  "hash_byte h c = (h XOR scast c) * 1099511628211"

definition compute_hash :: "String \<Rightarrow> u64" where
  "compute_hash s = foldl hash_byte 14695981039346656037 (chars s)"

definition get_hash :: "String \<Rightarrow> u64 \<times> String" where
  "get_hash s =
    (if has_hash s then (hash s, s)
     else let s' = s\<lparr>hash := compute_hash s, has_hash := True\<rparr> in (hash s', s'))"

definition string_append :: "String \<Rightarrow> String \<Rightarrow> String" where
  "string_append l r = \<lparr>str_size = str_size l + str_size r, str_data = Some (chars l @ chars r @ [0]),
    has_hash = False, hash = 0\<rparr>"

definition string_append_char :: "String \<Rightarrow> u8 \<Rightarrow> String" where
  "string_append_char l c = \<lparr>str_size = str_size l + 1, str_data = Some (chars l @ [c, 0]),
    has_hash = False, hash = 0\<rparr>"

text \<open>
  Assignment between two different objects: the target's old value is dropped, but a copy assignment
  leaves the stale hash value behind its cleared flag. \<open>string_move_assign\<close> returns the new
  target and the emptied source.
\<close>

definition string_assign :: "String \<Rightarrow> String \<Rightarrow> String" where
  "string_assign this s = this\<lparr>str_size := str_size s, str_data := Some (chars s @ [0]), has_hash := False\<rparr>"

definition string_move_assign :: "String \<Rightarrow> String \<times> String" where
  "string_move_assign s =
    (\<lparr>str_size = str_size s, str_data = str_data s, has_hash = has_hash s, hash = hash s\<rparr>,
     s\<lparr>str_data := None, str_size := 0\<rparr>)"

definition string_index :: "String \<Rightarrow> nat \<Rightarrow> u8 result" where
  "string_index s i =
    (if i \<ge> str_size s then Inr 0
     else andthen (deref (str_data s)) (\<lambda>d. if i < length d then Inr (d ! i) else Inl OutOfBounds))"

definition string_eq :: "String \<Rightarrow> String \<Rightarrow> bool" where
  "string_eq l r \<longleftrightarrow> str_size l = str_size r \<and> chars l = chars r"

section \<open>Splitting\<close>

text \<open>
  The loop of \<open>split\<close> over the bytes from \<open>start\<close> on, with the current part and the parts found so
  far. An empty part before a delimiter with \<open>remove_empty\<close> takes the \<open>continue\<close>, which leaves
  \<open>start\<close> where it is; the fuel bounds the number of iterations, and running out of it is \<open>Diverges\<close>.
\<close>

fun split_loop :: "nat \<Rightarrow> u8 \<Rightarrow> bool \<Rightarrow> bytes \<Rightarrow> String \<Rightarrow> String List \<Rightarrow> (String \<times> String List) result" where
  "split_loop 0 delim remove_empty start current_part r = Inl Diverges"
| "split_loop (Suc fuel) delim remove_empty start current_part r =
    (case start of
       [] \<Rightarrow> Inr (current_part, r)
     | c # cs \<Rightarrow>
         if c = delim then
           if string_length current_part = 0 \<and> remove_empty
           then split_loop fuel delim remove_empty start current_part r
           else split_loop fuel delim remove_empty cs (fst (string_move_assign (string_of [])))
                  (list_append r (String_copy current_part))
         else split_loop fuel delim remove_empty cs
                (fst (string_move_assign (string_append_char current_part c))) r)"

definition split :: "nat \<Rightarrow> String \<Rightarrow> u8 \<Rightarrow> bool \<Rightarrow> String List result" where
  "split fuel s delim remove_empty =
    andthen (split_loop fuel delim remove_empty (chars s) String_empty List_new) (\<lambda>(current_part, r).
      Inr (if string_length current_part > 0 \<or> \<not> remove_empty
           then list_append r (String_copy current_part) else r))"

section \<open>Numbers\<close>

text \<open>\<open>buffer[--i]\<close> with \<open>i\<close> = 0 writes before the array.\<close>

function ToString_loop :: "bytes \<Rightarrow> nat \<Rightarrow> u32 \<Rightarrow> (bytes \<times> nat) result" where
  "ToString_loop buffer i v =
    (if v > 0 then
       if i = 0 then Inl OutOfBounds
       else andthen (put buffer (i - 1) (48 + ucast (v mod 10)))
              (\<lambda>buffer. ToString_loop buffer (i - 1) (v div 10))
     else Inr (buffer, i))"
  by pat_completeness auto
termination
  by (relation "measure (\<lambda>(buffer, i, v). i)") auto

declare ToString_loop.simps [simp del]

definition ToString :: "bytes \<Rightarrow> u32 \<Rightarrow> String result" where
  "ToString garbage v =
    (let buffer = (take 16 garbage @ [0])
     in andthen (if v = 0 then andthen (put buffer 15 48) (\<lambda>buffer. Inr (buffer, 15 :: nat))
                 else ToString_loop buffer 16 v)
          (\<lambda>(buffer, i). String_cstr (Some (drop i buffer))))"

end
