(* ===== verification/Util_String_Correct.thy ===== *)
theory Util_String_Correct
  imports Util_String
begin

text \<open>
  What the C string routines and the operations of \<open>String\<close> compute: lengths, comparison and copy
  of NUL-terminated arrays, the pieces \<open>split\<close> produces and when it returns, the hash and
  its cache, and decimal numerals.
\<close>

unbundle bit_operations_syntax

section \<open>NUL-terminated arrays\<close>

lemma strlen_walk_nul [simp]: "0 \<notin> set xs \<Longrightarrow> strlen_walk (xs @ 0 # r) = Inr (length xs)"
  by (induction xs) auto

lemma strlen_nul [simp]: "0 \<notin> set xs \<Longrightarrow> strlen (Some (xs @ 0 # r)) = Inr (length xs)"
  by (simp add: strlen_def)

lemma strncmp_walk_nul:
  assumes "0 \<notin> set xs" and "0 \<notin> set ys" and "length xs = length ys"
  shows "strncmp_walk (xs @ 0 # r) (ys @ 0 # r') n = Inr (if take n xs = take n ys then 0 else - 1)"
  using assms
proof (induction xs arbitrary: ys n)
  case (Cons x xs)
  then obtain y zs where "ys = y # zs"
    by (cases ys) auto
  then show ?case
    using Cons by (cases n) auto
qed simp

lemma put_append:
  "put (d1 @ d2) (length d1) c = (if d2 = [] then Inl OutOfBounds else Inr (d1 @ c # tl d2))"
  by (cases d2) (auto simp: put_def)

lemma put_end [simp]: "put d (length d) c = Inl OutOfBounds"
  by (simp add: put_def)

lemma strncpy_walk_nul:
  assumes "0 \<notin> set xs" and "k = min (unat (n - 1)) (length xs)"
  shows "strncpy_walk (d1 @ d2) (length d1) (xs @ 0 # r) n =
    (if k < length d2 then Inr (d1 @ take k xs @ 0 # drop (Suc k) d2, length d1 + k)
     else Inl OutOfBounds)"
  using assms
proof (induction xs arbitrary: d1 d2 n k)
  case Nil
  then show ?case
    by (subst strncpy_walk.simps) (auto simp: put_append Let_def drop_Suc)
next
  case (Cons x xs)
  show ?case
  proof (cases "n - 1 = 0")
    case True
    then show ?thesis
      using Cons.prems by (subst strncpy_walk.simps) (auto simp: put_append Let_def drop_Suc)
  next
    case False
    have u: "unat (n - 1) = Suc (unat (n - 1 - 1))"
    proof -
      have "unat (n - 1) \<noteq> 0"
        using False by (simp add: unat_eq_0)
      then show ?thesis
        using unat_minus_one [OF False] by simp
    qed
    obtain k' where k: "k = Suc k'" "k' = min (unat (n - 1 - 1)) (length xs)"
      using Cons.prems(2) u by simp
    have x: "x \<noteq> 0" "0 \<notin> set xs"
      using Cons.prems(1) by auto
    have step: "strncpy_walk (d1 @ d2) (length d1) ((x # xs) @ 0 # r) n =
        andthen (put (d1 @ d2) (length d1) x) (\<lambda>d. strncpy_walk d (Suc (length d1)) (xs @ 0 # r) (n - 1))"
      using False x by (subst strncpy_walk.simps) (simp add: Let_def)
    show ?thesis
    proof (cases d2)
      case Nil
      then show ?thesis
        unfolding step put_append by simp
    next
      case d2: (Cons e es)
      have "strncpy_walk ((d1 @ [x]) @ es) (length (d1 @ [x])) (xs @ 0 # r) (n - 1) =
          (if k' < length es then Inr ((d1 @ [x]) @ take k' xs @ 0 # drop (Suc k') es, length (d1 @ [x]) + k')
           else Inl OutOfBounds)"
        by (rule Cons.IH [OF x(2) k(2)])
      then show ?thesis
        unfolding step unfolding put_append d2 k(1) by simp
    qed
  qed
qed

text \<open>
  (\<open>string.cpp\<close>, \<open>strncmp\<close>, \<open>strncpy\<close>). On NUL-terminated arguments, strncmp
  returns 0 when the lengths are equal and the first n characters agree, and -1 otherwise, so strings of different length
  always compare unequal; strncpy copies at most n - 1 characters (2^64 - 1 when n is 0)
  and a terminator, leaves the rest of the destination alone and returns the place of the
  terminator, or runs past the destination when it is too small.
\<close>

theorem c_string_routines_correct:
  assumes "0 \<notin> set xs" and "0 \<notin> set ys"
  shows "strncmp (Some (xs @ 0 # r)) (Some (ys @ 0 # r')) n =
      Inr (if length xs = length ys \<and> take n xs = take n ys then 0 else - 1) \<and>
    strncpy d (Some (xs @ 0 # r)) m =
      (let k = min (unat (m - 1)) (length xs)
       in if k < length d then Inr (take k xs @ 0 # drop (Suc k) d, k) else Inl OutOfBounds)"
proof
  show "strncmp (Some (xs @ 0 # r)) (Some (ys @ 0 # r')) n =
      Inr (if length xs = length ys \<and> take n xs = take n ys then 0 else - 1)"
    using assms strncmp_walk_nul [OF assms] by (simp add: strncmp_def)
  show "strncpy d (Some (xs @ 0 # r)) m =
      (let k = min (unat (m - 1)) (length xs)
       in if k < length d then Inr (take k xs @ 0 # drop (Suc k) d, k) else Inl OutOfBounds)"
    using strncpy_walk_nul [OF assms(1) refl, of "[]" d r m] by (simp add: strncpy_def Let_def)
qed

theorem c_string_routines_correct_witness:
  "strncmp (Some [115, 114, 0]) (Some [115, 0]) 1 = Inr (- 1) \<and>
   strncpy [7, 7, 7, 7] (Some [114, 114, 0]) 2 = Inr ([114, 0, 7, 7], 1)"
  using c_string_routines_correct [of "[115, 114]" "[115]" "[]" "[]" 1 "[]" 1]
    c_string_routines_correct [of "[114, 114]" "[]" "[]" "[]" 0 "[7, 7, 7, 7]" 2]
  by (simp add: Let_def)

section \<open>Well-formed strings\<close>

definition string_ok :: "String \<Rightarrow> bool" where
  "string_ok s \<longleftrightarrow> length (chars s) = str_size s \<and>
    (\<forall>d. str_data s = Some d \<longrightarrow> d = chars s @ [0]) \<and>
    (has_hash s \<longrightarrow> hash s = compute_hash s)"

lemma chars_string_of [simp, string_simps]: "chars (string_of cs) = cs"
  by (simp add: string_of_def chars_def)

lemma chars_append [simp, string_simps]:
  "string_ok l \<Longrightarrow> string_ok r \<Longrightarrow> chars (string_append l r) = chars l @ chars r"
  "string_ok l \<Longrightarrow> chars (string_append_char l c) = chars l @ [c]"
  by (auto simp: string_append_def string_append_char_def string_ok_def chars_def split: option.splits)

lemma chars_copy [simp, string_simps]:
  "string_ok s \<Longrightarrow> chars (String_copy s) = chars s"
  "string_ok s \<Longrightarrow> chars (string_assign t s) = chars s"
  "chars (snd (get_hash s)) = chars s"
  by (auto simp: String_copy_def string_assign_def string_move_assign_def get_hash_def string_ok_def Let_def
      chars_def split: option.splits)

lemma string_ok_of [simp]: "string_ok (string_of cs)"
  by (simp add: string_ok_def string_of_def chars_def)

lemma String_empty_of: "String_empty = string_of []"
  by (simp add: String_empty_def string_of_def)

lemma string_eq_chars: "string_ok l \<Longrightarrow> string_ok r \<Longrightarrow> string_eq l r \<longleftrightarrow> chars l = chars r"
  by (auto simp: string_eq_def string_ok_def)

lemma move_assign_same [simp, string_simps]: "fst (string_move_assign s) = s"
  by (cases s) (simp add: string_move_assign_def)

lemma string_ok_closed:
  assumes "string_ok l" and "string_ok r"
  shows "string_ok (string_append l r)" "string_ok (string_append_char l c)" "string_ok (String_copy l)"
    "string_ok (string_assign l r)" "string_ok (fst (string_move_assign l))"
    "string_ok (snd (get_hash l))"
proof -
  note ok = assms [unfolded string_ok_def]
  show "string_ok (string_append l r)" "string_ok (string_append_char l c)"
    using ok chars_append(1) [OF assms] chars_append(2) [OF assms(1)] by (auto simp: string_ok_def string_append_def string_append_char_def)
  show "string_ok (String_copy l)"
    using ok chars_copy(1) [OF assms(1)]
    by (auto simp: string_ok_def String_copy_def compute_hash_def)
  show "string_ok (string_assign l r)"
    using ok chars_copy(2) [OF assms(2), of l] by (auto simp: string_ok_def string_assign_def)
  show "string_ok (fst (string_move_assign l))"
    using assms(1) by (simp add: move_assign_same)
  show "string_ok (snd (get_hash l))"
    using ok chars_copy(3) [of l] by (auto simp: string_ok_def get_hash_def Let_def compute_hash_def)
qed


section \<open>Splitting\<close>

text \<open>The pieces of a text at a delimiter, the first one prefixed by what was read before.\<close>

fun pieces :: "u8 \<Rightarrow> bytes \<Rightarrow> bytes \<Rightarrow> bytes list" where
  "pieces d cur [] = [cur]"
| "pieces d cur (c # cs) = (if c = d then cur # pieces d [] cs else pieces d (cur @ [c]) cs)"

fun join :: "u8 \<Rightarrow> bytes list \<Rightarrow> bytes" where
  "join d [] = []"
| "join d [p] = p"
| "join d (p # q # ps) = p @ d # join d (q # ps)"

text \<open>A delimiter is met while the current piece is empty (\<open>b\<close> says whether it is at the start).\<close>

fun empty_piece :: "u8 \<Rightarrow> bool \<Rightarrow> bytes \<Rightarrow> bool" where
  "empty_piece d b [] = False"
| "empty_piece d b (c # cs) = (if c = d then b \<or> empty_piece d True cs else empty_piece d False cs)"

lemma pieces_not_Nil [simp]: "pieces d cur cs \<noteq> []"
  by (induction d cur cs rule: pieces.induct) auto

lemma join_Cons: "ps \<noteq> [] \<Longrightarrow> join d (p # ps) = p @ d # join d ps"
  by (cases ps) auto

lemma join_pieces: "join d (pieces d cur cs) = cur @ cs"
  by (induction d cur cs rule: pieces.induct) (auto simp: join_Cons)

lemma pieces_no_delim: "d \<notin> set cur \<Longrightarrow> p \<in> set (pieces d cur cs) \<Longrightarrow> d \<notin> set p"
  by (induction d cur cs rule: pieces.induct) (auto split: if_splits)

lemma empty_piece_iff:
  "empty_piece d b cs \<longleftrightarrow> (b \<and> (\<exists>zs. cs = d # zs)) \<or> (\<exists>ys zs. cs = ys @ [d, d] @ zs)"
proof (induction d b cs rule: empty_piece.induct)
  case (2 d b c cs)
  have later: "(\<exists>ys zs. c # cs = ys @ [d, d] @ zs) \<longleftrightarrow>
      (c = d \<and> (\<exists>zs. cs = d # zs)) \<or> (\<exists>ys zs. cs = ys @ [d, d] @ zs)"
    by (metis (no_types, lifting) append_Cons append_Nil append_eq_Cons_conv list.inject)
  show ?case
    using 2 unfolding later by (cases "c = d") auto
qed simp

lemma pieces_nonempty:
  "\<not> empty_piece d (cur = []) cs \<Longrightarrow>
    filter (\<lambda>p. p \<noteq> []) (butlast (pieces d cur cs)) = butlast (pieces d cur cs)"
  by (induction d cur cs rule: pieces.induct) (auto split: if_splits)

lemma split_loop_returns:
  assumes "length cs < fuel" and "\<not> (re \<and> empty_piece d (cur = []) cs)"
  shows "\<exists>r'. split_loop fuel d re cs (string_of cur) r = Inr (string_of (last (pieces d cur cs)), r') \<and>
    elems r' = elems r @ map string_of (butlast (pieces d cur cs))"
  using assms
proof (induction d cur cs arbitrary: fuel r rule: pieces.induct)
  case (1 d cur)
  then show ?case
    by (cases fuel) auto
next
  case (2 d cur c cs)
  then obtain n where n: "fuel = Suc n" "length cs < n"
    by (cases fuel) auto
  show ?case
  proof (cases "c = d")
    case True
    have s: "split_loop fuel d re (c # cs) (string_of cur) r =
        split_loop n d re cs (string_of []) (list_append r (string_of cur))"
      using 2(4) True by (auto simp: n string_length_def string_of_def String_copy_def chars_def)
    have "\<not> (re \<and> empty_piece d ([] = ([] :: bytes)) cs)"
      using 2(4) True by auto
    from 2(1) [OF True n(2) this, of "list_append r (string_of cur)"] show ?thesis
      unfolding s using True by auto
  next
    case False
    have s: "split_loop fuel d re (c # cs) (string_of cur) r =
        split_loop n d re cs (string_of (cur @ [c])) r"
      using False by (simp add: n string_append_char_def string_of_def chars_def)
    from 2(2) [OF False n(2), of r] 2(4) False show ?thesis
      unfolding s by simp
  qed
qed

lemma split_loop_diverges:
  "empty_piece d (cur = []) cs \<Longrightarrow> split_loop fuel d True cs (string_of cur) r = Inl Diverges"
proof (induction fuel arbitrary: cs cur r)
  case (Suc n)
  then obtain c cs' where cs: "cs = c # cs'"
    by (cases cs) auto
  have [simp]: "string_append_char (string_of cur) c = string_of (cur @ [c])"
    by (simp add: string_append_char_def string_of_def chars_def)
  have [simp]: "string_length (string_of p) = length p" for p
    by (simp add: string_length_def string_of_def)
  show ?case
  proof (cases "c = d")
    case True
    show ?thesis
    proof (cases "cur = []")
      case True
      then show ?thesis
        using Suc.IH [OF Suc.prems, of r] cs \<open>c = d\<close> by simp
    next
      case False
      then have "empty_piece d ([] = ([] :: bytes)) cs'"
        using Suc.prems \<open>c = d\<close> cs by simp
      from Suc.IH [OF this] show ?thesis
        using False \<open>c = d\<close> cs by simp
    qed
  next
    case False
    then have "empty_piece d (cur @ [c] = []) cs'"
      using Suc.prems cs by simp
    from Suc.IH [OF this] show ?thesis
      using False cs by simp
  qed
qed simp

lemma split_elems:
  assumes "length cs < fuel"
  shows "\<exists>r. split fuel (string_of cs) d False = Inr r \<and> elems r = map string_of (pieces d [] cs)"
proof -
  obtain r where r: "split_loop fuel d False cs (string_of []) List_new =
      Inr (string_of (last (pieces d [] cs)), r)" "elems r = map string_of (butlast (pieces d [] cs))"
    using split_loop_returns [OF assms, of False d "[]" List_new] by (auto simp: List_new_def)
  let ?r = "list_append r (String_copy (string_of (last (pieces d [] cs))))"
  have copy: "String_copy (string_of p) = string_of p" for p
    by (simp add: String_copy_def string_of_def chars_def)
  have e: "elems ?r = map string_of (pieces d [] cs)"
    using r(2) append_butlast_last_id [OF pieces_not_Nil, of d "[]" cs]
    by (simp add: copy flip: map_append) (metis append_butlast_last_id list.simps(8,9) map_append pieces_not_Nil)
  have "split fuel (string_of cs) d False = Inr ?r"
    using r(1) by (simp add: split_def String_empty_of)
  then show ?thesis
    using e by blast
qed

text \<open>
  C17 (\<open>string.cpp\<close>, \<open>split\<close> with \<open>remove_empty\<close> false). With one iteration per character and one more, split
  returns, and its parts are the pieces of the string at the delimiter: none contains the
  delimiter, and joining them with it gives the string back.
\<close>

theorem split_inverse:
  assumes "length cs < fuel"
  shows "\<exists>r. split fuel (string_of cs) d False = Inr r \<and>
    join d (map chars (elems r)) = cs \<and> (\<forall>p \<in> set (elems r). d \<notin> set (chars p))"
proof -
  obtain r where r: "split fuel (string_of cs) d False = Inr r" "elems r = map string_of (pieces d [] cs)"
    using split_elems [OF assms] by blast
  have "map chars (elems r) = pieces d [] cs"
    unfolding r(2) by (simp add: comp_def)
  moreover have "\<forall>p \<in> set (elems r). d \<notin> set (chars p)"
    unfolding r(2) using pieces_no_delim [of d "[]" _ cs] by auto
  ultimately show ?thesis
    using join_pieces [of d "[]" cs] r(1) by auto
qed

theorem split_inverse_witness:
  "\<exists>r. split 4 (string_of [97, 47, 98]) 47 False = Inr r \<and>
    join 47 (map chars (elems r)) = [97, 47, 98] \<and> (\<forall>p \<in> set (elems r). 47 \<notin> set (chars p))"
  using split_inverse [of "[97, 47, 98]" 4 47] by simp

text \<open>
  (\<open>string.cpp\<close>, \<open>split\<close> with \<open>remove_empty\<close> true). Removing empty parts does not work: split runs for ever exactly when the string
  starts with the delimiter or has two of them in a row; otherwise one iteration per
  character and one more are enough.
\<close>

theorem split_remove_empty_diverges:
  "(\<forall>fuel. split fuel (string_of cs) d True = Inl Diverges) \<longleftrightarrow>
     (\<exists>zs. cs = d # zs) \<or> (\<exists>ys zs. cs = ys @ [d, d] @ zs)"
proof
  assume "(\<exists>zs. cs = d # zs) \<or> (\<exists>ys zs. cs = ys @ [d, d] @ zs)"
  then have "empty_piece d ([] = ([] :: bytes)) cs"
    by (simp add: empty_piece_iff)
  then show "\<forall>fuel. split fuel (string_of cs) d True = Inl Diverges"
    using split_loop_diverges by (simp add: split_def String_empty_of)
next
  assume a: "\<forall>fuel. split fuel (string_of cs) d True = Inl Diverges"
  show "(\<exists>zs. cs = d # zs) \<or> (\<exists>ys zs. cs = ys @ [d, d] @ zs)"
  proof (rule ccontr)
    assume "\<not> ((\<exists>zs. cs = d # zs) \<or> (\<exists>ys zs. cs = ys @ [d, d] @ zs))"
    then have "\<not> empty_piece d ([] = ([] :: bytes)) cs"
      by (simp add: empty_piece_iff)
    then obtain r where "split_loop (Suc (length cs)) d True cs (string_of []) List_new =
        Inr (string_of (last (pieces d [] cs)), r)"
      using split_loop_returns [of cs "Suc (length cs)" True d "[]" List_new] by auto
    then show False
      using a [rule_format, of "Suc (length cs)"] by (simp add: split_def String_empty_of split: if_splits)
  qed
qed

section \<open>Hashes\<close>

text \<open>FNV-1a works on bytes, without a sign.\<close>

definition fnv1a :: "bytes \<Rightarrow> u64" where
  "fnv1a cs = foldl (\<lambda>h c. (h XOR ucast c) * 1099511628211) 14695981039346656037 cs"

lemma scast_ascii: "c < 0x80 \<Longrightarrow> (scast (c :: u8) :: u64) = ucast c"
proof -
  assume c: "c < 0x80"
  then have "uint c < 128"
    by (simp add: word_less_def)
  then have "sint c = uint c"
    using signed_take_bit_int_eq_self [of 7 "uint c"] uint_nonnegative [of c] by (simp add: sint_uint)
  then show ?thesis
    by (metis scast_eq ucast_eq)
qed

lemma hash_fold_ascii:
  "\<forall>c \<in> set cs. c < 0x80 \<Longrightarrow> foldl hash_byte h cs = foldl (\<lambda>h c. (h XOR ucast c) * 1099511628211) h cs"
  by (induction cs arbitrary: h) (auto simp: hash_byte_def scast_ascii)

text \<open>
  (\<open>string.h\<close>, \<open>get_hash\<close>, \<open>compute_hash\<close>, the constructors and assignments). The cached hash is
  always the hash of the current characters: every constructor, concatenation and assignment from well-formed
  strings gives a well-formed string, and get_hash returns the hash of the characters and keeps the
  string well-formed, so equal strings have equal hashes. It is the FNV-1a hash on 7-bit characters.
\<close>

theorem string_hash_correct:
  assumes "string_ok l" and "string_ok r"
  shows "string_ok (string_append l r) \<and> string_ok (string_append_char l c) \<and>
    string_ok (String_copy l) \<and> string_ok (string_assign l r) \<and>
    string_ok (fst (string_move_assign l)) \<and> string_ok (snd (get_hash l)) \<and>
    fst (get_hash l) = compute_hash l \<and>
    (string_eq l r \<longrightarrow> fst (get_hash l) = fst (get_hash r)) \<and>
    ((\<forall>c \<in> set (chars l). c < 0x80) \<longrightarrow> fst (get_hash l) = fnv1a (chars l))"
proof -
  have g: "fst (get_hash s) = compute_hash s" if "string_ok s" for s
    using that by (simp add: get_hash_def string_ok_def Let_def)
  show ?thesis
    using string_ok_closed [OF assms] g [OF assms(1)] g [OF assms(2)] string_eq_chars [OF assms]
      hash_fold_ascii [of "chars l"]
    by (simp add: compute_hash_def fnv1a_def)
qed

theorem string_hash_correct_witness:
  "fst (get_hash (string_of [97])) = fnv1a [97]"
proof -
  have "\<forall>c \<in> set (chars (string_of [97])). c < 0x80"
    by simp
  with string_hash_correct [of "string_of [97]" "string_of []" 0]
  have "fst (get_hash (string_of [97])) = fnv1a (chars (string_of [97]))"
    using string_ok_of by blast
  then show ?thesis
    by simp
qed

text \<open>
  (\<open>string.h\<close>, move constructor, \<open>compute_hash\<close>). Two departures: a string moved from one whose hash was already computed
  reports 1 as its hash, and characters from 0x80 on are sign-extended, so the hash is not FNV-1a there.
\<close>

theorem string_hash_departures:
  "fst (get_hash (String_move (snd (get_hash (string_of cs))))) = 1 \<and>
   compute_hash (string_of [0x80]) \<noteq> fnv1a [0x80]"
proof
  show "fst (get_hash (String_move (snd (get_hash (string_of cs))))) = 1"
    by (simp add: get_hash_def String_move_def string_of_def Let_def)
  show "compute_hash (string_of [0x80]) \<noteq> fnv1a [0x80]"
    by (simp add: compute_hash_def fnv1a_def hash_byte_def)
qed

section \<open>Decimal numerals\<close>

definition numeral_value :: "bytes \<Rightarrow> nat" where
  "numeral_value ds = foldl (\<lambda>a c. a * 10 + (unat c - 48)) 0 ds"

lemma digit_unat: "n < 10 \<Longrightarrow> unat (48 + ucast (n :: u32) :: u8) = 48 + unat n"
proof -
  assume "n < 10"
  then have "unat n < 10"
    by (simp add: word_less_nat_alt)
  then show ?thesis
    by (simp add: unat_word_ariths unsigned_ucast_eq take_bit_nat_eq_self)
qed

lemma ToString_loop_digits:
  assumes "length b = 17" and "i \<le> 16" and "unat v < 10 ^ i"
  shows "\<exists>b' i' ds. ToString_loop b i v = Inr (b', i') \<and> drop i' b' = ds @ drop i b \<and>
    numeral_value ds = unat v \<and> (\<forall>c \<in> set ds. 48 \<le> unat c \<and> unat c < 58) \<and>
    (ds = [] \<longleftrightarrow> v = 0) \<and> (ds \<noteq> [] \<longrightarrow> hd ds \<noteq> 48)"
  using assms
proof (induction i arbitrary: b v)
  case 0
  then have "v = 0"
    by (simp add: unat_eq_0)
  then show ?case
    by (subst ToString_loop.simps) (simp add: numeral_value_def)
next
  case (Suc i)
  show ?case
  proof (cases "v = 0")
    case True
    then show ?thesis
      by (subst ToString_loop.simps) (simp add: numeral_value_def)
  next
    case False
    let ?c = "48 + ucast (v mod 10) :: u8"
    have m: "unat (v mod 10) = unat v mod 10" "unat (v div 10) = unat v div 10"
      by (simp_all add: unat_mod unat_div)
    have c: "unat ?c = 48 + unat v mod 10"
      using digit_unat [of "v mod 10"] m by (simp add: word_less_nat_alt)
    have step: "ToString_loop b (Suc i) v = ToString_loop (b[i := ?c]) i (v div 10)"
      using False Suc.prems by (simp add: ToString_loop.simps [of b "Suc i" v] put_def word_gt_0)
    have "unat (v div 10) < 10 ^ i"
      using Suc.prems(3) m by (simp add: less_mult_imp_div_less mult.commute)
    with Suc.IH [of "b[i := ?c]" "v div 10"] Suc.prems obtain b' i' ds where
      ih: "ToString_loop (b[i := ?c]) i (v div 10) = Inr (b', i')" "drop i' b' = ds @ drop i (b[i := ?c])"
        "numeral_value ds = unat v div 10" "\<forall>c \<in> set ds. 48 \<le> unat c \<and> unat c < 58"
        "ds = [] \<longleftrightarrow> v div 10 = 0" "ds \<noteq> [] \<longrightarrow> hd ds \<noteq> 48"
      unfolding m by auto
    have d: "drop i (b[i := ?c]) = ?c # drop (Suc i) b"
      using Suc.prems by (simp add: drop_update_swap Cons_nth_drop_Suc [symmetric])
    have "numeral_value (ds @ [?c]) = unat v"
      using ih(3) c unfolding numeral_value_def by simp
    moreover have "\<forall>c \<in> set (ds @ [?c]). 48 \<le> unat c \<and> unat c < 58"
      using ih(4) c by auto
    moreover have "hd (ds @ [?c]) \<noteq> 48"
    proof (cases "ds = []")
      case True
      then have "unat v div 10 = 0"
        using ih(5) m(2) by (metis unat_eq_0)
      moreover have "unat v \<noteq> 0"
        using False by (simp add: unat_eq_0)
      ultimately have "unat ?c \<noteq> 48"
        unfolding c by simp
      then show ?thesis
        using True by auto
    qed (use ih(6) in simp)
    moreover have "drop i' b' = (ds @ [?c]) @ drop (Suc i) b"
      using ih(2) d by simp
    ultimately show ?thesis
      unfolding step ih(1) using False by blast
  qed
qed

lemma ToString_digits:
  assumes "length garbage = 16"
  shows "\<exists>ds. ToString garbage v = Inr (string_of ds) \<and> numeral_value ds = unat v \<and>
    (\<forall>c \<in> set ds. 48 \<le> unat c \<and> unat c < 58) \<and> ds \<noteq> [] \<and> (hd ds = 48 \<longrightarrow> ds = [48])"
proof -
  define b where "b = garbage @ [0]"
  have b: "length b = 17"
    using assms by (simp add: b_def)
  have cs: "String_cstr (Some (ds @ [0])) = Inr (string_of ds)"
    if "\<forall>c \<in> set ds. 48 \<le> unat c \<and> unat c < 58" for ds
  proof -
    have "0 \<notin> set ds"
      using that by auto
    then show ?thesis
      by (simp add: String_cstr_def string_of_def)
  qed
  show ?thesis
  proof (cases "v = 0")
    case True
    have "drop 15 b = [b ! 15, 0]"
      using assms by (simp add: b_def nth_append flip: Cons_nth_drop_Suc)
    then have "drop 15 (b[15 := 48]) = [48, 0]"
      by (simp add: drop_update_swap)
    then have "ToString garbage v = Inr (string_of [48])"
      using True assms b cs [of "[48]"] by (simp add: ToString_def Let_def put_def b_def [symmetric])
    then show ?thesis
      using True by (intro exI [of _ "[48]"]) (simp add: numeral_value_def)
  next
    case False
    have "unat v < 10 ^ 16"
      using unsigned_less [of v, where 'a = nat] by simp
    then obtain b' i' ds where l: "ToString_loop b 16 v = Inr (b', i')" "drop i' b' = ds @ drop 16 b"
        "numeral_value ds = unat v" "\<forall>c \<in> set ds. 48 \<le> unat c \<and> unat c < 58"
        "ds = [] \<longleftrightarrow> v = 0" "ds \<noteq> [] \<longrightarrow> hd ds \<noteq> 48"
      using ToString_loop_digits [of b 16 v] assms by (auto simp: b_def)
    have "drop 16 b = [0]"
      using assms by (simp add: b_def)
    then have "ToString garbage v = Inr (string_of ds)"
      using False assms l(1,2) cs [OF l(4)] by (simp add: ToString_def Let_def b_def [symmetric])
    then show ?thesis
      using l(3-6) False by auto
  qed
qed

text \<open>
  (\<open>string.cpp\<close>, \<open>ToString\<close>). Whatever the uninitialised buffer holds, ToString stays inside
  it and returns the decimal numeral of its argument, without leading zeros.
\<close>

theorem ToString_decimal:
  assumes "length garbage = 16"
  shows "\<exists>ds. ToString garbage v = Inr (string_of ds) \<and> numeral_value ds = unat v \<and>
    (\<forall>c \<in> set ds. 48 \<le> unat c \<and> unat c < 58) \<and> ds \<noteq> [] \<and> (hd ds = 48 \<longrightarrow> ds = [48])"
  by (rule ToString_digits [OF assms])

theorem ToString_decimal_witness:
  "\<exists>ds. ToString (replicate 16 7) 42 = Inr (string_of ds) \<and> numeral_value ds = 42"
  using ToString_decimal [of "replicate 16 7" 42] by auto

end
