(* ===== verification/Vma.thy ===== *)
theory Vma
  imports Phys_Mem Page_Alloc
begin

text \<open>
  Virtual memory areas (\<open>infos/mm/vma.cpp\<close>, \<open>infos/include/infos/mm/vma.h\<close>): the four-level page
  table a VMA builds in physical memory, over the page allocator of \<open>Page_Alloc\<close>. Physical memory
  is a function from the address of an aligned 8-byte word to its value; the code reaches it through the
  direct map at \<open>PMEM_VA_START\<close>. The allocator is a parameter of type \<open>PageAllocatorAlgorithm\<close>,
  as for \<open>Page_Alloc\<close>.
\<close>

unbundle bit_operations_syntax

section \<open>Table entries\<close>

definition PRESENT :: nat where "PRESENT = 0"
definition WRITABLE :: nat where "WRITABLE = 1"
definition ALLOW_USER :: nat where "ALLOW_USER = 2"
definition HUGE :: nat where "HUGE = 7"

definition get_base :: "u64 \<Rightarrow> u64" where
  "get_base bits = bits AND NOT 0xfff"

definition set_base :: "u64 \<Rightarrow> u64 \<Rightarrow> u64" where
  "set_base bits addr = (bits AND 0xfff) OR (addr AND NOT 0xfff)"

definition get_flags :: "u64 \<Rightarrow> u16" where
  "get_flags bits = ucast (bits AND 0xfff)"

definition set_flags :: "u64 \<Rightarrow> u16 \<Rightarrow> u64" where
  "set_flags bits flags = (bits AND NOT 0xfff) OR ucast (flags AND 0xfff)"

definition get_flag :: "u64 \<Rightarrow> nat \<Rightarrow> bool" where
  "get_flag bits idx \<longleftrightarrow> get_flags bits AND push_bit idx 1 \<noteq> 0"

definition set_flag :: "u64 \<Rightarrow> nat \<Rightarrow> bool \<Rightarrow> u64" where
  "set_flag bits idx v =
    (if \<not> v then set_flags bits (get_flags bits AND NOT (push_bit idx 1))
     else set_flags bits (get_flags bits OR push_bit idx 1))"

section \<open>State\<close>

record 'a vma =
  pgalloc :: "'a PageAllocator"
  mem :: "nat \<Rightarrow> u64"
  page_allocations :: "(nat \<times> int) list"
  pgt_phys_base :: u64
  pgt_virt_base :: u64

text \<open>The physical address of the word at index \<open>i\<close> of a table that starts at a direct-map address.\<close>

definition entry_at :: "u64 \<Rightarrow> nat \<Rightarrow> nat" where
  "entry_at va i = unat (va - PMEM_VA_START) + 8 * i"

definition pgd_to_pa :: "nat \<Rightarrow> u64" where
  "pgd_to_pa pgd = pfn_to_pa (of_nat pgd)"

definition pgd_to_vpa :: "nat \<Rightarrow> u64 result" where
  "pgd_to_vpa pgd = pa_to_vpa (pgd_to_pa pgd)"

definition pnzero :: "u64 \<Rightarrow> nat \<Rightarrow> (nat \<Rightarrow> u64) \<Rightarrow> nat \<Rightarrow> u64" where
  "pnzero va n m = (\<lambda>a. if entry_at va 0 \<le> a \<and> a < entry_at va (512 * n) then 0 else m a)"

definition BITS :: "u64 \<Rightarrow> nat \<Rightarrow> nat \<Rightarrow> u16" where
  "BITS val start end' = ucast (drop_bit start val AND (push_bit (end' - start + 1) 1 - 1))"

definition va_table_indicies :: "u64 \<Rightarrow> nat \<times> nat \<times> nat \<times> nat" where
  "va_table_indicies va =
    (unat (BITS va 39 47), unat (BITS va 30 38), unat (BITS va 21 29), unat (BITS va 12 20))"

section \<open>Operations\<close>

definition allocate_phys ::
    "'a PageAllocatorAlgorithm \<Rightarrow> 'a vma \<Rightarrow> int \<Rightarrow> (nat \<times> 'a vma) result" where
  "allocate_phys A vm order =
    andthen (PageAllocator_alloc_pages A (pgalloc vm) order) (\<lambda>(pgd, pa).
    andthen (pgd_to_vpa pgd) (\<lambda>va.
      Inr (pgd, vm\<lparr>pgalloc := pa, page_allocations := page_allocations vm @ [(pgd, order)],
                   mem := pnzero va (2 ^ nat order) (mem vm)\<rparr>)))"

definition VMA_new ::
    "'a PageAllocatorAlgorithm \<Rightarrow> 'a PageAllocator \<Rightarrow> (nat \<Rightarrow> u64) \<Rightarrow> 'a vma result" where
  "VMA_new A pa m =
    andthen (allocate_phys A
        \<lparr>pgalloc = pa, mem = m, page_allocations = [], pgt_phys_base = 0, pgt_virt_base = 0\<rparr> 0) (\<lambda>(pgd, vm).
    andthen (pgd_to_vpa pgd) (\<lambda>va.
      Inr (vm\<lparr>pgt_phys_base := pgd_to_pa pgd, pgt_virt_base := va\<rparr>)))"

text \<open>\<open>template\<close> is \<open>__template_pml4\<close>, a table outside the VMA; \<open>None\<close> is the null pointer.\<close>

definition install_default_kernel_mapping ::
    "(nat \<Rightarrow> u64) option \<Rightarrow> 'a vma \<Rightarrow> 'a vma result" where
  "install_default_kernel_mapping template vm =
    (case template of
       None \<Rightarrow> Inl AssertFail
     | Some t \<Rightarrow>
         let m = (mem vm)(entry_at (pgt_virt_base vm) 0x1ff := t 0x1ff)
         in Inr (vm\<lparr>mem := m(entry_at (pgt_virt_base vm) 0x100 := t 0x100)\<rparr>))"

text \<open>
  The block that \<open>insert_mapping\<close> repeats at each of the three upper levels: give the entry at
  address \<open>a\<close> a zeroed table if it has no base address, and return the direct-map address of its table.
\<close>

definition ensure_table ::
    "'a PageAllocatorAlgorithm \<Rightarrow> 'a vma \<Rightarrow> nat \<Rightarrow> (u64 \<times> 'a vma) result" where
  "ensure_table A vm a =
    andthen
      (if get_base (mem vm a) = 0
       then andthen (allocate_phys A vm 0) (\<lambda>(t, vm).
              Inr (vm\<lparr>mem := (mem vm)(a :=
                set_flag (set_flag (set_flag (set_base (mem vm a) (pgd_to_pa t))
                  PRESENT True) WRITABLE True) ALLOW_USER True)\<rparr>))
       else Inr vm)
      (\<lambda>vm. andthen (pa_to_vpa (get_base (mem vm a))) (\<lambda>va. Inr (va, vm)))"

definition MapPresent :: u64 where "MapPresent = 1"
definition MapUser :: u64 where "MapUser = 2"
definition MapWritable :: u64 where "MapWritable = 4"

definition leaf_entry :: "u64 \<Rightarrow> u64 \<Rightarrow> u64 \<Rightarrow> u64" where
  "leaf_entry w pa flags =
    (let w = set_base w pa;
         w = (if flags AND MapPresent \<noteq> 0 then set_flag w PRESENT True else w);
         w = (if flags AND MapWritable \<noteq> 0 then set_flag w WRITABLE True else w)
     in if flags AND MapUser \<noteq> 0 then set_flag w ALLOW_USER True else w)"

definition insert_mapping ::
    "'a PageAllocatorAlgorithm \<Rightarrow> 'a vma \<Rightarrow> u64 \<Rightarrow> u64 \<Rightarrow> u64 \<Rightarrow> 'a vma result" where
  "insert_mapping A vm va pa flags =
    (case va_table_indicies va of (pml4_idx, pdp_idx, pd_idx, pt_idx) \<Rightarrow>
      andthen (ensure_table A vm (entry_at (pgt_virt_base vm) pml4_idx)) (\<lambda>(pdp, vm).
      andthen (ensure_table A vm (entry_at pdp pdp_idx)) (\<lambda>(pd, vm).
      andthen (ensure_table A vm (entry_at pd pd_idx)) (\<lambda>(pt, vm).
        let a = entry_at pt pt_idx
        in Inr (vm\<lparr>mem := (mem vm)(a := leaf_entry (mem vm a) pa flags)\<rparr>)))))"

definition page_offset :: "u64 \<Rightarrow> u64" where
  "page_offset a = a AND (0x1000 - 1)"

definition get_mapping :: "'a vma \<Rightarrow> u64 \<Rightarrow> u64 option result" where
  "get_mapping vm va =
    (if pgt_virt_base vm = 0 then Inr None
     else case va_table_indicies va of (pml4_idx, pdp_idx, pd_idx, pt_idx) \<Rightarrow>
       let pml4 = mem vm (entry_at (pgt_virt_base vm) pml4_idx)
       in if \<not> get_flag pml4 PRESENT then Inr None
          else andthen (pa_to_vpa (get_base pml4)) (\<lambda>t.
       let pdp = mem vm (entry_at t pdp_idx)
       in if \<not> get_flag pdp PRESENT then Inr None
          else andthen (pa_to_vpa (get_base pdp)) (\<lambda>t.
       let pd = mem vm (entry_at t pd_idx)
       in if \<not> get_flag pd PRESENT then Inr None
          else andthen (pa_to_vpa (get_base pd)) (\<lambda>t.
       let pt = mem vm (entry_at t pt_idx)
       in if \<not> get_flag pt PRESENT then Inr None
          else Inr (Some (get_base pt OR page_offset va))))))"

definition is_mapped :: "'a vma \<Rightarrow> u64 \<Rightarrow> bool result" where
  "is_mapped vm va = andthen (get_mapping vm va) (\<lambda>r. Inr (r \<noteq> None))"

text \<open>\<open>63 - __builtin_clzll(x)\<close> is the number of the highest bit set.\<close>

fun highest_bit :: "nat \<Rightarrow> nat" where
  "highest_bit n = (if n < 2 then 0 else Suc (highest_bit (n div 2)))"

declare highest_bit.simps [simp del]

definition log2ceil :: "u64 \<Rightarrow> nat" where
  "log2ceil x = (if x = 0 then 0
    else highest_bit (unat x) + (if x AND (x - 1) \<noteq> 0 then 1 else 0))"

primrec map_pages ::
    "'a PageAllocatorAlgorithm \<Rightarrow> nat \<Rightarrow> 'a vma \<Rightarrow> u64 \<Rightarrow> u64 \<Rightarrow> 'a vma result" where
  "map_pages A 0 vm vbase pbase = Inr vm"
| "map_pages A (Suc n) vm vbase pbase =
    andthen (insert_mapping A vm vbase pbase (MapPresent OR MapUser OR MapWritable)) (\<lambda>vm.
      map_pages A n vm (vbase + 0x1000) (pbase + 0x1000))"

definition allocate_virt ::
    "'a PageAllocatorAlgorithm \<Rightarrow> 'a vma \<Rightarrow> u64 \<Rightarrow> int \<Rightarrow> (bool \<times> 'a vma) result" where
  "allocate_virt A vm va nr =
    (if nr = 0 then Inr (False, vm)
     else let order = log2ceil (of_int nr)
          in andthen (allocate_phys A vm (int order)) (\<lambda>(pgd, vm).
             andthen (map_pages A (2 ^ order) vm va (pgd_to_pa pgd)) (\<lambda>vm. Inr (True, vm))))"

definition allocate_virt_any :: "'a vma \<Rightarrow> int \<Rightarrow> bool" where
  "allocate_virt_any vm nr = False"

text \<open>\<open>memcpy\<close> to a direct-map address, byte by byte; a word holds its bytes in little-endian order.\<close>

definition get_byte :: "u64 \<Rightarrow> nat \<Rightarrow> u8" where
  "get_byte w i = ucast (drop_bit (8 * i) w)"

definition set_byte :: "u64 \<Rightarrow> nat \<Rightarrow> u8 \<Rightarrow> u64" where
  "set_byte w i b = (w AND NOT (push_bit (8 * i) 0xff)) OR push_bit (8 * i) (ucast b)"

definition load_byte :: "(nat \<Rightarrow> u64) \<Rightarrow> nat \<Rightarrow> u8" where
  "load_byte m a = get_byte (m (8 * (a div 8))) (a mod 8)"

definition store_byte :: "(nat \<Rightarrow> u64) \<Rightarrow> nat \<Rightarrow> u8 \<Rightarrow> nat \<Rightarrow> u64" where
  "store_byte m a b = m(8 * (a div 8) := set_byte (m (8 * (a div 8))) (a mod 8) b)"

primrec memcpy_to :: "(nat \<Rightarrow> u64) \<Rightarrow> nat \<Rightarrow> u8 list \<Rightarrow> nat \<Rightarrow> u64" where
  "memcpy_to m a [] = m"
| "memcpy_to m a (b # bs) = memcpy_to (store_byte m a b) (Suc a) bs"

definition copy_to :: "'a vma \<Rightarrow> u64 \<Rightarrow> u8 list \<Rightarrow> (bool \<times> 'a vma) result" where
  "copy_to vm dest_va src =
    andthen (get_mapping vm dest_va) (\<lambda>r. case r of
        None \<Rightarrow> Inr (False, vm)
      | Some pa \<Rightarrow> andthen (pa_to_vpa pa) (\<lambda>dest.
          Inr (True, vm\<lparr>mem := memcpy_to (mem vm) (unat (dest - PMEM_VA_START)) src\<rparr>)))"

section \<open>Dumping the tables\<close>

text \<open>The messages of \<open>dump\<close>, as pairs of the virtual and the physical address they report.\<close>

definition dump_pt :: "(nat \<Rightarrow> u64) \<Rightarrow> nat \<Rightarrow> nat \<Rightarrow> nat \<Rightarrow> u64 \<Rightarrow> (u64 \<times> u64) list" where
  "dump_pt m pml4 pdp pd pt_va =
    concat (map (\<lambda>i. let te = m (entry_at pt_va i)
      in if \<not> get_flag te PRESENT then []
         else [(push_bit 36 (of_nat pml4) OR push_bit 28 (of_nat pdp) OR push_bit 20 (of_nat pd) OR
                push_bit 12 (of_nat i), get_base te)]) [0..<0x200])"

fun dump_table ::
    "(nat \<Rightarrow> u64) \<Rightarrow> (nat \<Rightarrow> u64) \<Rightarrow> (nat \<Rightarrow> u64 \<Rightarrow> (u64 \<times> u64) list result) \<Rightarrow> u64 \<Rightarrow> nat list \<Rightarrow>
      (u64 \<times> u64) list result" where
  "dump_table m report below va [] = Inr []"
| "dump_table m report below va (i # is) =
    (let te = m (entry_at va i)
     in if \<not> get_flag te PRESENT then dump_table m report below va is
        else andthen
          (if get_flag te HUGE then Inr [(report i, get_base te)]
           else andthen (pa_to_vpa (get_base te)) (below i))
          (\<lambda>l. andthen (dump_table m report below va is) (\<lambda>r. Inr (l @ r))))"

definition dump_pd :: "(nat \<Rightarrow> u64) \<Rightarrow> nat \<Rightarrow> nat \<Rightarrow> u64 \<Rightarrow> (u64 \<times> u64) list result" where
  "dump_pd m pml4 pdp pd_va =
    dump_table m (\<lambda>i. push_bit 36 (of_nat pml4) OR push_bit 28 (of_nat pdp) OR push_bit 20 (of_nat i))
      (\<lambda>i t. Inr (dump_pt m pml4 pdp i t)) pd_va [0..<0x200]"

definition dump_pdp :: "(nat \<Rightarrow> u64) \<Rightarrow> nat \<Rightarrow> u64 \<Rightarrow> (u64 \<times> u64) list result" where
  "dump_pdp m pml4 pdp_va =
    dump_table m (\<lambda>i. push_bit 36 (of_nat pml4) OR push_bit 28 (of_nat i))
      (\<lambda>i t. dump_pd m pml4 i t) pdp_va [0..<0x200]"

definition vma_dump :: "'a vma \<Rightarrow> (u64 \<times> u64) list result" where
  "vma_dump vm =
    dump_table (mem vm) (\<lambda>i. push_bit 36 (of_nat i)) (\<lambda>i t. dump_pdp (mem vm) i t)
      (pgt_virt_base vm) [0..<0x200]"

end
