(* ===== verification/Vma_Correct.thy ===== *)
theory Vma_Correct
  imports Vma Page_Alloc_Correct
begin

text \<open>
  Correctness of the page tables of \<open>Vma\<close> for any allocator that keeps the contract
  \<open>page_algorithm\<close>. A page table is read as a tree: \<open>tab m r p\<close> is the frame of the table
  reached from the root frame \<open>r\<close> along the indices \<open>p\<close>, and \<open>leaf m r p l\<close> the last-level
  entry. The invariant says that every table of the VMA's own part is an allocated frame reached by one
  path only.
\<close>

unbundle bit_operations_syntax

section \<open>Bits of table entries\<close>

lemma mask12 [simp]:
  "bit (0xfff :: u64) n \<longleftrightarrow> n < 12"
  "bit (0xfff :: u16) n \<longleftrightarrow> n < 12"
proof -
  have "(0xfff :: u64) = mask 12" "(0xfff :: u16) = mask 12"
    by (simp_all add: mask_eq_exp_minus_1)
  then show "bit (0xfff :: u64) n \<longleftrightarrow> n < 12" "bit (0xfff :: u16) n \<longleftrightarrow> n < 12"
    by (auto simp only: bit_mask_iff possible_bit_word) simp_all
qed

lemma mask12_int [simp]: "bit (0xfff :: int) n \<longleftrightarrow> n < 12"
proof -
  have "(0xfff :: int) = mask 12"
    by (simp add: mask_eq_exp_minus_1)
  then show ?thesis
    by (simp only: bit_mask_iff) simp
qed

lemma bit_get_flags: "bit (get_flags w) n \<longleftrightarrow> n < 12 \<and> bit w n"
  by (auto simp: get_flags_def bit_simps)

lemma get_flag_bit: "i < 16 \<Longrightarrow> get_flag w i \<longleftrightarrow> i < 12 \<and> bit w i"
proof -
  assume i: "i < 16"
  have "get_flags w AND push_bit i 1 \<noteq> 0 \<longleftrightarrow> bit (get_flags w) i"
    using i by (auto simp: and_exp_eq_0_iff_not_bit push_bit_eq_mult)
  then show ?thesis
    by (simp add: get_flag_def bit_get_flags)
qed

lemma bit_set_flag: "i < 12 \<Longrightarrow> bit (set_flag w i v) n \<longleftrightarrow> (if n = i then v else bit w n)"
  by (auto simp: set_flag_def set_flags_def get_flags_def bit_simps dest: bit_imp_le_length)

lemma bit_set_base: "bit (set_base w a) n \<longleftrightarrow> (if n < 12 then bit w n else bit a n)"
  by (auto simp: set_base_def bit_simps dest: bit_imp_le_length)

lemma bit_get_base: "bit (get_base w) n \<longleftrightarrow> 12 \<le> n \<and> bit w n"
  by (auto simp: get_base_def bit_simps dest: bit_imp_le_length)

lemma entry_flag_consts [simp]: "PRESENT = 0" "WRITABLE = 1" "ALLOW_USER = 2" "HUGE = 7"
  by (simp_all add: PRESENT_def WRITABLE_def ALLOW_USER_def HUGE_def)

lemma get_base_set_flag [simp]: "i < 12 \<Longrightarrow> get_base (set_flag w i v) = get_base w"
  by (rule bit_eqI) (auto simp: bit_get_base bit_set_flag)

lemma get_base_set_base [simp]: "get_base (set_base w a) = get_base a"
  by (rule bit_eqI) (auto simp: bit_get_base bit_set_base)

lemma get_flag_set_flag [simp]:
  "i < 12 \<Longrightarrow> j < 12 \<Longrightarrow> get_flag (set_flag w i v) j \<longleftrightarrow> (if j = i then v else get_flag w j)"
  by (simp add: get_flag_bit bit_set_flag)

lemma get_flag_set_base [simp]: "j < 12 \<Longrightarrow> get_flag (set_base w a) j \<longleftrightarrow> get_flag w j"
  by (simp add: get_flag_bit bit_set_base)

lemma get_flag_zero [simp]: "\<not> get_flag 0 i"
  by (simp add: get_flag_def get_flags_def)

lemma get_base_zero [simp]: "get_base 0 = 0"
  by (simp add: get_base_def)

section \<open>Frames and their addresses\<close>

definition frame_va :: "nat \<Rightarrow> u64" where
  "frame_va f = PMEM_VA_START + pgd_to_pa f"

lemma pgd_to_pa_nat: "f < 2 ^ 20 \<Longrightarrow> unat (pgd_to_pa f) = 4096 * f"
  by (simp add: pgd_to_pa_def pfn_to_pa_def push_bit_eq_mult unat_word_ariths(2) unsigned_of_nat
      take_bit_nat_eq_self)

lemma pa_to_vpa_frame: "f < 2 ^ 20 \<Longrightarrow> pa_to_vpa (pgd_to_pa f) = Inr (frame_va f)"
  using pgd_to_pa_nat [of f]
  by (simp add: pa_to_vpa_def PMEM_VA_SIZE_def PMEM_VA_END_def PMEM_VA_START_def word_less_nat_alt
      frame_va_def)

lemma frame_va_nonzero: "f < 2 ^ 20 \<Longrightarrow> frame_va f \<noteq> 0"
proof -
  assume f: "f < 2 ^ 20"
  then have "unat (frame_va f) = unat PMEM_VA_START + 4096 * f"
    unfolding frame_va_def using pgd_to_pa_nat [OF f] by (simp add: unat_word_ariths(1) PMEM_VA_START_def)
  then show ?thesis
    by (auto simp: PMEM_VA_START_def)
qed

lemma entry_at_frame: "f < 2 ^ 20 \<Longrightarrow> entry_at (frame_va f) i = 4096 * f + 8 * i"
  using pgd_to_pa_nat [of f] by (simp add: entry_at_def frame_va_def)

lemma get_base_frame: "get_base (pgd_to_pa f) = pgd_to_pa f"
proof (rule bit_eqI)
  fix n
  show "bit (get_base (pgd_to_pa f)) n = bit (pgd_to_pa f) n"
    by (auto simp: bit_get_base pgd_to_pa_def pfn_to_pa_def bit_push_bit_iff)
qed

lemma base_of_frame:
  assumes "unat (get_base w) div 4096 = f"
  shows "get_base w = pgd_to_pa f"
proof -
  have "of_nat f = drop_bit 12 (get_base w)"
  proof -
    have "of_nat f = (of_nat (unat (drop_bit 12 (get_base w))) :: u64)"
      using assms by (simp add: unat_drop12)
    then show ?thesis
      by simp
  qed
  then have "pgd_to_pa f = push_bit 12 (drop_bit 12 (get_base w))"
    by (simp add: pgd_to_pa_def pfn_to_pa_def)
  also have "\<dots> = get_base w"
    by (rule bit_eqI) (auto simp: bit_push_bit_iff bit_drop_bit_eq bit_get_base dest: bit_imp_le_length)
  finally show ?thesis
    by simp
qed


section \<open>The tree of tables\<close>

type_synonym memory = "nat \<Rightarrow> u64"

definition entry :: "memory \<Rightarrow> nat \<Rightarrow> nat \<Rightarrow> u64" where
  "entry m f i = m (4096 * f + 8 * i)"

definition child :: "memory \<Rightarrow> nat \<Rightarrow> nat \<Rightarrow> nat option" where
  "child m f i = (if get_base (entry m f i) = 0 then None else Some (unat (get_base (entry m f i)) div 4096))"

fun tab :: "memory \<Rightarrow> nat \<Rightarrow> nat list \<Rightarrow> nat option" where
  "tab m r [] = Some r"
| "tab m r (i # p) = (case child m r i of None \<Rightarrow> None | Some f \<Rightarrow> tab m f p)"

definition leaf :: "memory \<Rightarrow> nat \<Rightarrow> nat list \<Rightarrow> nat \<Rightarrow> u64" where
  "leaf m r p l = (case tab m r p of None \<Rightarrow> 0 | Some f \<Rightarrow> entry m f l)"

text \<open>The two top-level entries that \<open>install_default_kernel_mapping\<close> shares are not the VMA's own.\<close>

definition owned :: "nat list \<Rightarrow> bool" where
  "owned p \<longleftrightarrow> length p \<le> 3 \<and> (\<forall>i \<in> set p. i < 512) \<and> (p \<noteq> [] \<longrightarrow> hd p \<notin> {0x100, 0x1ff})"

definition tables_ok :: "PageDescriptorType list \<Rightarrow> memory \<Rightarrow> nat \<Rightarrow> bool" where
  "tables_ok ts m r \<longleftrightarrow>
    (\<forall>p q f. owned p \<longrightarrow> owned q \<longrightarrow> tab m r p = Some f \<longrightarrow> tab m r q = Some f \<longrightarrow> p = q) \<and>
    (\<forall>p f. owned p \<longrightarrow> tab m r p = Some f \<longrightarrow> f < length ts \<and> ts ! f = ALLOCATED) \<and>
    (\<forall>p f i. owned (p @ [i]) \<longrightarrow> tab m r p = Some f \<longrightarrow>
       (get_flag (entry m f i) PRESENT \<longleftrightarrow> child m f i \<noteq> None))"

lemma tables_okD:
  assumes "tables_ok ts m r"
  shows "owned p \<Longrightarrow> owned q \<Longrightarrow> tab m r p = Some f \<Longrightarrow> tab m r q = Some f \<Longrightarrow> p = q"
    "owned p \<Longrightarrow> tab m r p = Some f \<Longrightarrow> f < length ts \<and> ts ! f = ALLOCATED"
    "owned (p @ [i]) \<Longrightarrow> tab m r p = Some f \<Longrightarrow> get_flag (entry m f i) PRESENT \<longleftrightarrow> child m f i \<noteq> None"
  using assms unfolding tables_ok_def by blast+

lemma tab_snoc: "tab m r (p @ [i]) = (case tab m r p of None \<Rightarrow> None | Some f \<Rightarrow> child m f i)"
  by (induction m r p rule: tab.induct) (auto split: option.splits)

lemma owned_snoc: "owned (p @ [i]) \<Longrightarrow> owned p \<and> i < 512 \<and> length p < 3"
  by (cases p) (auto simp: owned_def)

lemma owned_Nil [simp]: "owned []"
  by (simp add: owned_def)

lemma entry_upd:
  "i < 512 \<Longrightarrow> j < 512 \<Longrightarrow> entry (m(4096 * f + 8 * i := w)) g j = (if g = f \<and> j = i then w else entry m g j)"
proof -
  assume ij: "i < 512" "j < 512"
  have "4096 * g + 8 * j = 4096 * f + 8 * i \<longleftrightarrow> g = f \<and> j = i"
  proof (cases g f rule: linorder_cases)
    case less
    then show ?thesis
      using ij by linarith
  next
    case greater
    then show ?thesis
      using ij by linarith
  qed simp
  then show ?thesis
    by (auto simp: entry_def)
qed

lemma entry_pnzero:
  assumes "f < 2 ^ 20" and "i < 512"
  shows "entry (pnzero (frame_va f) n m) g i = (if f \<le> g \<and> g < f + n then 0 else entry m g i)"
proof -
  have "4096 * f \<le> 4096 * g + 8 * i \<longleftrightarrow> f \<le> g" "4096 * g + 8 * i < 4096 * f + 4096 * n \<longleftrightarrow> g < f + n"
    using assms(2) by linarith+
  then show ?thesis
    using assms(1) by (simp add: pnzero_def entry_at_frame entry_def)
qed

lemma child_cong: "entry m' f i = entry m f i \<Longrightarrow> child m' f i = child m f i"
  by (simp add: child_def)

text \<open>The tables above level \<open>n\<close> have the same entries; the tables of level 3 hold the mappings.\<close>

definition same_tables :: "nat \<Rightarrow> memory \<Rightarrow> memory \<Rightarrow> nat \<Rightarrow> bool" where
  "same_tables n m m' r \<longleftrightarrow>
    (\<forall>p f i. owned p \<longrightarrow> length p < n \<longrightarrow> tab m r p = Some f \<longrightarrow> i < 512 \<longrightarrow> entry m' f i = entry m f i)"

lemma same_tablesD:
  "same_tables n m m' r \<Longrightarrow> owned p \<Longrightarrow> length p < n \<Longrightarrow> tab m r p = Some f \<Longrightarrow> i < 512 \<Longrightarrow>
    entry m' f i = entry m f i"
  by (simp add: same_tables_def)

lemma same_tables_weaken: "same_tables 4 m m' r \<Longrightarrow> same_tables 3 m m' r"
  by (auto simp: same_tables_def)

lemma tab_cong:
  assumes "same_tables 3 m m' r"
  shows "owned p \<Longrightarrow> tab m' r p = tab m r p"
proof (induction p rule: rev_induct)
  case (snoc i p)
  have o: "owned p" "i < 512" "length p < 3"
    using owned_snoc [OF snoc.prems] by simp_all
  show ?case
  proof (cases "tab m r p")
    case (Some f)
    then show ?thesis
      using snoc.IH [OF o(1)] child_cong [OF same_tablesD [OF assms o(1,3) Some o(2)]] by (simp add: tab_snoc)
  qed (use snoc.IH [OF o(1)] in \<open>simp add: tab_snoc\<close>)
qed simp

lemma tables_ok_cong:
  assumes ok: "tables_ok ts m r" and e: "same_tables 3 m m' r"
    and t: "\<forall>p f. owned p \<longrightarrow> tab m r p = Some f \<longrightarrow> f < length ts' \<and> ts' ! f = ALLOCATED"
  shows "tables_ok ts' m' r"
  unfolding tables_ok_def
proof (intro conjI allI impI)
  fix p q f
  assume "owned p" "owned q" "tab m' r p = Some f" "tab m' r q = Some f"
  then show "p = q"
    using tables_okD(1) [OF ok, of p q f] tab_cong [OF e] by simp
next
  fix p f
  assume o: "owned p" and "tab m' r p = Some f"
  then have f: "tab m r p = Some f"
    using tab_cong [OF e o] by simp
  show "f < length ts'" "ts' ! f = ALLOCATED"
    using t o f by blast+
next
  fix p f i
  assume o: "owned (p @ [i])" and "tab m' r p = Some f"
  moreover have o': "owned p" "i < 512" "length p < 3"
    using owned_snoc [OF o] by simp_all
  ultimately have f: "tab m r p = Some f"
    using tab_cong [OF e o'(1)] by simp
  show "get_flag (entry m' f i) PRESENT \<longleftrightarrow> child m' f i \<noteq> None"
    using tables_okD(3) [OF ok o f] same_tablesD [OF e o'(1,3) f o'(2)] child_cong [of m' f i m] by simp
qed

lemma leaf_cong:
  assumes "same_tables 4 m m' r" and "owned p" and "l < 512"
  shows "leaf m' r p l = leaf m r p l"
proof -
  have "tab m' r p = tab m r p"
    by (rule tab_cong [OF same_tables_weaken [OF assms(1)] assms(2)])
  moreover have "length p < 4"
    using assms(2) by (simp add: owned_def)
  ultimately show ?thesis
    using same_tablesD [OF assms(1,2)] assms(3) by (simp add: leaf_def split: option.splits)
qed

text \<open>Hanging a fresh, zeroed table below an empty entry.\<close>

lemma link_table:
  assumes ok: "tables_ok ts m r" and p: "owned (p @ [i])" "tab m r p = Some f" "child m f i = None"
    and g: "g < length ts" "ts ! g = ALLOCATED" "\<And>q. owned q \<Longrightarrow> tab m r q \<noteq> Some g"
      "\<And>j. j < 512 \<Longrightarrow> entry m g j = 0"
    and w: "get_base w \<noteq> 0" "unat (get_base w) div 4096 = g" "get_flag w PRESENT"
  defines "m' \<equiv> m(4096 * f + 8 * i := w)"
  shows "\<And>q. owned q \<Longrightarrow> tab m' r q = (if q = p @ [i] then Some g else tab m r q)"
    and "tables_ok ts m' r"
    and "\<And>q l. owned q \<Longrightarrow> length q = 3 \<Longrightarrow> l < 512 \<Longrightarrow> leaf m' r q l = leaf m r q l"
proof -
  have i: "i < 512" "owned p" "length p < 3"
    using owned_snoc [OF p(1)] by simp_all
  have fg: "f \<noteq> g"
    using g(3) [OF i(2)] p(2) by auto
  have e: "entry m' h j = (if h = f \<and> j = i then w else entry m h j)" if "j < 512" for h j
    using entry_upd [OF i(1) that] by (simp add: m'_def)
  have ch: "child m' h j = (if h = f \<and> j = i then Some g else child m h j)" if "j < 512" for h j
    unfolding child_def e [OF that] using w by simp
  have chg: "child m g j = None" if "j < 512" for j
    using g(4) [OF that] by (simp add: child_def)
  have none: "tab m r (p @ [i]) = None"
    by (simp add: tab_snoc p)
  show tab: "tab m' r q = (if q = p @ [i] then Some g else tab m r q)" if "owned q" for q
    using that
  proof (induction q rule: rev_induct)
    case (snoc j q)
    have j: "j < 512" "owned q" "length q < 3"
      using owned_snoc [OF snoc.prems] by simp_all
    note IH = snoc.IH [OF j(2)]
    show ?case
    proof (cases "q = p @ [i]")
      case True
      then have "tab m' r q = Some g"
        using IH by simp
      then have "tab m' r (q @ [j]) = child m' g j"
        by (simp add: tab_snoc [of m' r q])
      moreover have "tab m r (q @ [j]) = None"
        unfolding tab_snoc [of m r q] using none True by simp
      moreover have "q @ [j] \<noteq> p @ [i]"
        using True by simp
      ultimately show ?thesis
        using ch [OF j(1), of g] chg [OF j(1)] fg by simp
    next
      case False
      show ?thesis
      proof (cases "tab m r q")
        case None
        then show ?thesis
          using IH False p(2) by (auto simp: tab_snoc)
      next
        case (Some h)
        have "h = f \<longleftrightarrow> q = p"
          using tables_okD(1) [OF ok j(2) i(2)] Some p(2) by auto
        then show ?thesis
          using IH False Some ch [OF j(1), of h] by (simp add: tab_snoc)
      qed
    qed
  qed simp
  show "tables_ok ts m' r"
  proof -
    have "get_flag (entry m' h j) PRESENT \<longleftrightarrow> child m' h j \<noteq> None"
      if o: "owned (q @ [j])" and t: "tab m' r q = Some h" for q h j
    proof -
      have j: "j < 512" "owned q"
        using owned_snoc [OF o] by simp_all
      show ?thesis
      proof (cases "q = p @ [i]")
        case True
        then have "h = g"
          using t tab [OF j(2)] by simp
        then show ?thesis
          using e [OF j(1), of g] ch [OF j(1), of g] chg [OF j(1)] fg g(4) [OF j(1)] by simp
      next
        case False
        then have "tab m r q = Some h"
          using t tab [OF j(2)] by simp
        then show ?thesis
          using tables_okD(3) [OF ok o] e [OF j(1), of h] ch [OF j(1), of h] w(3) by simp
      qed
    qed
    moreover have "q1 = q2" if "owned q1" "owned q2" "tab m' r q1 = Some h" "tab m' r q2 = Some h" for q1 q2 h
      using that tab [OF that(1)] tab [OF that(2)] g(3) tables_okD(1) [OF ok that(1,2)]
      by (auto split: if_splits)
    moreover have "h < length ts \<and> ts ! h = ALLOCATED" if "owned q" "tab m' r q = Some h" for q h
      using that tab [OF that(1)] g(1,2) tables_okD(2) [OF ok that(1)] by (auto split: if_splits)
    ultimately show ?thesis
      unfolding tables_ok_def by blast
  qed
  show "leaf m' r q l = leaf m r q l" if o: "owned q" "length q = 3" "l < 512" for q l
  proof (cases "q = p @ [i]")
    case True
    then show ?thesis
      using tab [OF o(1)] none e [OF o(3), of g] fg g(4) [OF o(3)] by (simp add: leaf_def)
  next
    case False
    have "h \<noteq> f" if "tab m r q = Some h" for h
      using tables_okD(1) [OF ok o(1) i(2) that] p(2) i(3) o(2) by auto
    then show ?thesis
      using tab [OF o(1)] False e [OF o(3)] by (auto simp: leaf_def split: option.splits)
  qed
qed


section \<open>Operations under the allocator's contract\<close>

lemma alloc_frames_bound: "typed ts t p n \<Longrightarrow> 0 < n \<Longrightarrow> length ts \<le> 2 ^ 20 \<Longrightarrow> p + n \<le> 2 ^ 20"
  using typed_bound by fastforce

lemma three_flags:
  "get_base (set_flag (set_flag (set_flag (set_base w (pgd_to_pa g)) PRESENT True) WRITABLE True) ALLOW_USER True) =
     pgd_to_pa g"
  "get_flag (set_flag (set_flag (set_flag (set_base w (pgd_to_pa g)) PRESENT True) WRITABLE True) ALLOW_USER True)
     PRESENT"
  by (simp_all add: get_base_frame)

lemma pgd_to_pa_frame:
  "g < 2 ^ 20 \<Longrightarrow> unat (pgd_to_pa g) div 4096 = g"
  "0 < g \<Longrightarrow> g < 2 ^ 20 \<Longrightarrow> pgd_to_pa g \<noteq> 0"
  using pgd_to_pa_nat [of g] by auto

text \<open>
  Frames that hold data: allocated, and not one of the VMA's own tables. Mapping more pages leaves their contents alone.
\<close>

definition data_frame :: "PageDescriptorType list \<Rightarrow> memory \<Rightarrow> nat \<Rightarrow> nat \<Rightarrow> bool" where
  "data_frame ts m r f \<longleftrightarrow> f < length ts \<and> ts ! f = ALLOCATED \<and> (\<forall>p. owned p \<longrightarrow> tab m r p \<noteq> Some f)"

definition keeps_data :: "'a vma \<Rightarrow> 'a vma \<Rightarrow> nat \<Rightarrow> bool" where
  "keeps_data vm vm' r \<longleftrightarrow>
    (\<forall>f. data_frame (types (pgalloc vm)) (mem vm) r f \<longrightarrow>
       data_frame (types (pgalloc vm')) (mem vm') r f \<and> (\<forall>i < 512. entry (mem vm') f i = entry (mem vm) f i))"

lemma keeps_data_refl [simp]: "keeps_data vm vm r"
  by (simp add: keeps_data_def)

lemma keeps_data_trans: "keeps_data vm vm' r \<Longrightarrow> keeps_data vm' vm'' r \<Longrightarrow> keeps_data vm vm'' r"
  by (simp add: keeps_data_def)

context page_algorithm
begin

definition "vm_inv (vm :: 'a vma) r \<longleftrightarrow>
   cinv (types (pgalloc vm)) (alg (pgalloc vm)) \<and>
   0 < length (types (pgalloc vm)) \<and> length (types (pgalloc vm)) \<le> 2 ^ 20 \<and>
   types (pgalloc vm) ! 0 \<noteq> AVAILABLE \<and>
   pgt_virt_base vm = frame_va r \<and> pgt_phys_base vm = pgd_to_pa r \<and>
   tables_ok (types (pgalloc vm)) (mem vm) r"

lemma vm_inv_frame:
  assumes "vm_inv vm r" and "owned p" and "tab (mem vm) r p = Some f"
  shows "f < 2 ^ 20" "f < length (types (pgalloc vm))" "types (pgalloc vm) ! f = ALLOCATED"
  using assms tables_okD(2) [of "types (pgalloc vm)" "mem vm" r p f] unfolding vm_inv_def by auto

lemma allocate_phys_ok:
  assumes inv: "vm_inv vm r" and k: "k < 31"
  shows "allocate_phys A vm (int k) = Inl NullDeref \<or>
    (\<exists>g vm'. allocate_phys A vm (int k) = Inr (g, vm') \<and> vm_inv vm' r \<and>
       same_tables 4 (mem vm) (mem vm') r \<and> 0 < g \<and> g + 2 ^ k \<le> 2 ^ 20 \<and>
       typed (types (pgalloc vm)) AVAILABLE g (2 ^ k) \<and> typed (types (pgalloc vm')) ALLOCATED g (2 ^ k) \<and>
       avail (types (pgalloc vm')) = avail (types (pgalloc vm)) - {g ..< g + 2 ^ k} \<and>
       (\<forall>f i. i < 512 \<longrightarrow> g \<le> f \<longrightarrow> f < g + 2 ^ k \<longrightarrow> entry (mem vm') f i = 0) \<and> keeps_data vm vm' r \<and>
       (\<forall>f. g \<le> f \<longrightarrow> f < g + 2 ^ k \<longrightarrow> data_frame (types (pgalloc vm')) (mem vm') r f))"
proof (cases "PageAllocator_alloc_pages A (pgalloc vm) (int k) = Inl NullDeref")
  case True
  then show ?thesis
    by (simp add: allocate_phys_def)
next
  case False
  note I = inv [unfolded vm_inv_def]
  have c: "cinv (types (pgalloc vm)) (alg (pgalloc vm))"
    using I by blast
  obtain g s' where al: "PageAllocator_alloc_pages A (pgalloc vm) (int k) =
      Inr (g, \<lparr>types = mark ALLOCATED g (2 ^ k) (types (pgalloc vm)), alg = s'\<rparr>)"
    and ty: "typed (types (pgalloc vm)) AVAILABLE g (2 ^ k)"
    and ci: "cinv (mark ALLOCATED g (2 ^ k) (types (pgalloc vm))) s'"
    using alloc_pages_cases [OF c k] False by blast
  have b: "g + 2 ^ k \<le> 2 ^ 20" "g + 2 ^ k \<le> length (types (pgalloc vm))"
    using alloc_frames_bound [OF ty] typed_bound [OF ty] I by auto
  have g20: "g < 2 ^ 20"
    by (rule less_le_trans [OF _ b(1)]) simp
  have "0 < g"
    using ty I by (cases g) (auto simp: typed_def)
  define vm' where "vm' = vm\<lparr>pgalloc := \<lparr>types = mark ALLOCATED g (2 ^ k) (types (pgalloc vm)), alg = s'\<rparr>,
      page_allocations := page_allocations vm @ [(g, int k)], mem := pnzero (frame_va g) (2 ^ k) (mem vm)\<rparr>"
  have r: "allocate_phys A vm (int k) = Inr (g, vm')"
    using al pa_to_vpa_frame [OF g20] by (simp add: allocate_phys_def pgd_to_vpa_def vm'_def)
  have out: "f \<notin> {g ..< g + 2 ^ k}" if "owned p" "tab (mem vm) r p = Some f" for p f
    using vm_inv_frame [OF inv that] ty by (auto simp: typed_def)
  have st: "same_tables 4 (mem vm) (mem vm') r"
    unfolding same_tables_def vm'_def using out g20 by (auto simp: entry_pnzero)
  have "tables_ok (types (pgalloc vm')) (mem vm') r"
  proof (rule tables_ok_cong [OF _ same_tables_weaken [OF st]])
    show "tables_ok (types (pgalloc vm)) (mem vm) r"
      using I by blast
    show "\<forall>p f. owned p \<longrightarrow> tab (mem vm) r p = Some f \<longrightarrow>
        f < length (types (pgalloc vm')) \<and> types (pgalloc vm') ! f = ALLOCATED"
      using vm_inv_frame(2,3) [OF inv] by (simp add: vm'_def)
  qed
  then have "vm_inv vm' r"
    using I ci \<open>0 < g\<close> unfolding vm_inv_def by (simp add: vm'_def)
  moreover have "typed (types (pgalloc vm')) ALLOCATED g (2 ^ k)"
    using b(2) by (simp add: vm'_def typed_def)
  moreover have "\<forall>f i. i < 512 \<longrightarrow> g \<le> f \<longrightarrow> f < g + 2 ^ k \<longrightarrow> entry (mem vm') f i = 0"
    using g20 by (simp add: vm'_def entry_pnzero)
  moreover have "avail (types (pgalloc vm')) = avail (types (pgalloc vm)) - {g ..< g + 2 ^ k}"
    by (simp add: vm'_def avail_mark_ALLOCATED)
  moreover have tab': "tab (mem vm') r p = tab (mem vm) r p" if "owned p" for p
    by (rule tab_cong [OF same_tables_weaken [OF st] that])
  have "keeps_data vm vm' r"
    unfolding keeps_data_def
  proof (intro allI impI)
    fix f
    assume f: "data_frame (types (pgalloc vm)) (mem vm) r f"
    then have "f \<notin> {g ..< g + 2 ^ k}"
      using ty by (auto simp: data_frame_def typed_def)
    then show "data_frame (types (pgalloc vm')) (mem vm') r f \<and> (\<forall>i < 512. entry (mem vm') f i = entry (mem vm) f i)"
      using f tab' g20 by (auto simp: data_frame_def vm'_def entry_pnzero)
  qed
  moreover have "\<forall>f. g \<le> f \<longrightarrow> f < g + 2 ^ k \<longrightarrow> data_frame (types (pgalloc vm')) (mem vm') r f"
  proof (intro allI impI)
    fix f
    assume "g \<le> f" and "f < g + 2 ^ k"
    moreover have "tab (mem vm') r p \<noteq> Some f" if "owned p" for p
      using tab' [OF that] out [OF that, of f] \<open>g \<le> f\<close> \<open>f < g + 2 ^ k\<close> by auto
    ultimately show "data_frame (types (pgalloc vm')) (mem vm') r f"
      using b(2) by (simp add: data_frame_def vm'_def)
  qed
  ultimately show ?thesis
    using r st ty \<open>0 < g\<close> b(1) by blast
qed

lemma ensure_table_ok:
  assumes inv: "vm_inv vm r" and p: "owned (p @ [i])" "tab (mem vm) r p = Some f"
  shows "ensure_table A vm (entry_at (frame_va f) i) = Inl NullDeref \<or>
    (\<exists>g vm'. ensure_table A vm (entry_at (frame_va f) i) = Inr (frame_va g, vm') \<and> vm_inv vm' r \<and>
       tab (mem vm') r (p @ [i]) = Some g \<and>
       (\<forall>q l. owned q \<longrightarrow> length q = 3 \<longrightarrow> l < 512 \<longrightarrow> leaf (mem vm') r q l = leaf (mem vm) r q l) \<and>
       card (avail (types (pgalloc vm))) \<le> Suc (card (avail (types (pgalloc vm')))) \<and> keeps_data vm vm' r)"
proof -
  have i: "owned p" "i < 512"
    using owned_snoc [OF p(1)] by simp_all
  have p4: "length p < 4"
    using owned_snoc [OF p(1)] by simp
  have f20: "f < 2 ^ 20"
    by (rule vm_inv_frame(1) [OF inv i(1) p(2)])
  let ?a = "4096 * f + 8 * i"
  have a: "entry_at (frame_va f) i = ?a" "mem v ?a = entry (mem v) f i" for v :: "'a vma"
    using f20 by (simp_all add: entry_at_frame entry_def)
  show ?thesis
  proof (cases "child (mem vm) f i")
    case (Some g)
    then have g: "get_base (mem vm ?a) \<noteq> 0" "unat (get_base (mem vm ?a)) div 4096 = g"
      by (auto simp: child_def a(2) split: if_splits)
    have t: "tab (mem vm) r (p @ [i]) = Some g"
      using p(2) Some by (simp add: tab_snoc)
    have "pa_to_vpa (get_base (mem vm ?a)) = Inr (frame_va g)"
      using base_of_frame [OF g(2)] pa_to_vpa_frame [OF vm_inv_frame(1) [OF inv p(1) t]] by simp
    then have "ensure_table A vm (entry_at (frame_va f) i) = Inr (frame_va g, vm)"
      using g(1) by (simp add: ensure_table_def a(1))
    then show ?thesis
      using inv t by (intro disjI2 exI [of _ g] exI [of _ vm]) simp
  next
    case None
    then have z: "get_base (mem vm ?a) = 0"
      by (auto simp: child_def a(2) split: if_splits)
    have "(0 :: nat) < 31"
      by simp
    from allocate_phys_ok [OF inv this] show ?thesis
    proof (elim disjE exE conjE)
      assume "allocate_phys A vm (int 0) = Inl NullDeref"
      then show ?thesis
        by (simp add: ensure_table_def a(1) z)
    next
      fix g vm1
      assume al: "allocate_phys A vm (int 0) = Inr (g, vm1)" and inv1: "vm_inv vm1 r"
        and st: "same_tables 4 (mem vm) (mem vm1) r" and g0: "0 < g" and gb: "g + 2 ^ 0 \<le> 2 ^ 20"
        and ty: "typed (types (pgalloc vm)) AVAILABLE g (2 ^ 0)" "typed (types (pgalloc vm1)) ALLOCATED g (2 ^ 0)"
        and av: "avail (types (pgalloc vm1)) = avail (types (pgalloc vm)) - {g ..< g + 2 ^ 0}"
        and ze: "\<forall>f i. i < 512 \<longrightarrow> g \<le> f \<longrightarrow> f < g + 2 ^ 0 \<longrightarrow> entry (mem vm1) f i = 0" and kd: "keeps_data vm vm1 r"
      have g20: "g < 2 ^ 20"
        using gb by simp
      define w where "w = set_flag (set_flag (set_flag (set_base (mem vm1 ?a) (pgd_to_pa g))
          PRESENT True) WRITABLE True) ALLOW_USER True"
      define vm2 where "vm2 = vm1\<lparr>mem := (mem vm1)(?a := w)\<rparr>"
      have w: "get_base w = pgd_to_pa g" "get_flag w PRESENT"
        unfolding w_def by (rule three_flags)+
      have e: "ensure_table A vm (entry_at (frame_va f) i) = Inr (frame_va g, vm2)"
        using al z w(1) pa_to_vpa_frame [OF g20] by (simp add: ensure_table_def a(1) vm2_def w_def)
      have ok1: "tables_ok (types (pgalloc vm1)) (mem vm1) r"
        using inv1 by (simp add: vm_inv_def)
      have p1: "tab (mem vm1) r p = Some f"
        using tab_cong [OF same_tables_weaken [OF st] i(1)] p(2) by simp
      have c1: "child (mem vm1) f i = None"
        using None child_cong [OF same_tablesD [OF st i(1) p4 p(2) i(2)]] by simp
      have fresh: "tab (mem vm1) r q \<noteq> Some g" if "owned q" for q
        using tab_cong [OF same_tables_weaken [OF st] that] vm_inv_frame(3) [OF inv that, of g] ty(1) by (auto simp: typed_def)
      have gt: "g < length (types (pgalloc vm1))" "types (pgalloc vm1) ! g = ALLOCATED"
        using ty(2) by (simp_all add: typed_def)
      have zg: "entry (mem vm1) g j = 0" if "j < 512" for j
        using ze that by simp
      have wn: "get_base w \<noteq> 0" "unat (get_base w) div 4096 = g"
        using w(1) pgd_to_pa_frame g0 g20 by simp_all
      have m2: "mem vm2 = (mem vm1)(?a := w)" and t2: "types (pgalloc vm2) = types (pgalloc vm1)"
        by (simp_all add: vm2_def)
      have ok2: "tables_ok (types (pgalloc vm2)) (mem vm2) r"
        unfolding m2 t2 by (rule link_table(2) [OF ok1 p(1) p1 c1 gt fresh zg wn w(2)])
      have tab2: "tab (mem vm2) r (p @ [i]) = Some g"
        unfolding m2 using link_table(1) [OF ok1 p(1) p1 c1 gt fresh zg wn w(2) p(1)] by simp
      have lf: "leaf (mem vm2) r q l = leaf (mem vm) r q l" if "owned q" "length q = 3" "l < 512" for q l
        unfolding m2 using link_table(3) [OF ok1 p(1) p1 c1 gt fresh zg wn w(2) that] leaf_cong [OF st that(1,3)] by simp
      have "vm_inv vm2 r"
        using inv1 ok2 unfolding vm_inv_def by (simp add: vm2_def)
      moreover have "card (avail (types (pgalloc vm))) \<le> Suc (card (avail (types (pgalloc vm2))))"
        unfolding t2 av by (auto simp: card_Diff_singleton_if)
      moreover have "keeps_data vm vm2 r"
        unfolding keeps_data_def
      proof (intro allI impI)
        fix h
        assume h: "data_frame (types (pgalloc vm)) (mem vm) r h"
        then have h1: "data_frame (types (pgalloc vm1)) (mem vm1) r h" "\<forall>j < 512. entry (mem vm1) h j = entry (mem vm) h j"
          using kd by (simp_all add: keeps_data_def)
        have "h \<noteq> f" "h \<noteq> g"
          using h i(1) p(2) ty(1) by (auto simp: data_frame_def typed_def)
        have "tab (mem vm2) r q \<noteq> Some h" if "owned q" for q
          using link_table(1) [OF ok1 p(1) p1 c1 gt fresh zg wn w(2) that] h1(1) that \<open>h \<noteq> g\<close>
          by (simp add: data_frame_def m2)
        moreover have "entry (mem vm2) h j = entry (mem vm) h j" if "j < 512" for j
          unfolding m2 entry_upd [OF i(2) that] using h1(2) that \<open>h \<noteq> f\<close> by simp
        ultimately show "data_frame (types (pgalloc vm2)) (mem vm2) r h \<and>
            (\<forall>j < 512. entry (mem vm2) h j = entry (mem vm) h j)"
          using h1(1) by (simp add: data_frame_def t2)
      qed
      ultimately show ?thesis
        using e tab2 lf by blast
    qed
  qed
qed

lemma walk_step:
  assumes inv: "vm_inv vm r" and p: "owned (p @ [i])" "tab (mem vm) r p = Some f"
  shows "get_flag (mem vm (entry_at (frame_va f) i)) PRESENT \<longleftrightarrow> tab (mem vm) r (p @ [i]) \<noteq> None"
    "tab (mem vm) r (p @ [i]) = Some g \<Longrightarrow>
      pa_to_vpa (get_base (mem vm (entry_at (frame_va f) i))) = Inr (frame_va g)"
proof -
  have i: "owned p"
    using owned_snoc [OF p(1)] by simp
  have a: "mem vm (entry_at (frame_va f) i) = entry (mem vm) f i"
    using vm_inv_frame(1) [OF inv i p(2)] by (simp add: entry_at_frame entry_def)
  have ok: "tables_ok (types (pgalloc vm)) (mem vm) r"
    using inv by (simp add: vm_inv_def)
  show "get_flag (mem vm (entry_at (frame_va f) i)) PRESENT \<longleftrightarrow> tab (mem vm) r (p @ [i]) \<noteq> None"
    unfolding a using tables_okD(3) [OF ok p] p(2) by (simp add: tab_snoc)
  assume t: "tab (mem vm) r (p @ [i]) = Some g"
  then have "unat (get_base (entry (mem vm) f i)) div 4096 = g"
    using p(2) by (auto simp: tab_snoc child_def split: if_splits)
  then show "pa_to_vpa (get_base (mem vm (entry_at (frame_va f) i))) = Inr (frame_va g)"
    unfolding a using base_of_frame [of "entry (mem vm) f i" g] pa_to_vpa_frame [OF vm_inv_frame(1) [OF inv p(1) t]]
    by simp
qed

lemma get_mapping_leaf:
  assumes inv: "vm_inv vm r" and ix: "va_table_indicies va = (i, j, k, l)" and o: "owned [i, j, k]"
  shows "get_mapping vm va = Inr (let w = leaf (mem vm) r [i, j, k] l
    in if get_flag w PRESENT then Some (get_base w OR page_offset va) else None)"
proof -
  have r20: "r < 2 ^ 20"
    using vm_inv_frame(1) [OF inv owned_Nil] by simp
  have base: "pgt_virt_base vm = frame_va r" "frame_va r \<noteq> 0"
    using inv frame_va_nonzero [OF r20] by (simp_all add: vm_inv_def)
  have o1: "owned ([] @ [i])" "owned ([i] @ [j])" "owned ([i, j] @ [k])"
    using o by (simp_all add: owned_def)
  have r: "tab (mem vm) r [] = Some r"
    by simp
  note w1 = walk_step [OF inv o1(1) r]
  show ?thesis
  proof (cases "tab (mem vm) r [i]")
    case None
    moreover have "leaf (mem vm) r [i, j, k] l = 0"
      using None by (simp add: leaf_def split: option.splits)
    ultimately show ?thesis
      using w1(1) by (simp add: get_mapping_def ix base)
  next
    case f: (Some f)
    note w2 = walk_step [OF inv o1(2) f]
    show ?thesis
    proof (cases "tab (mem vm) r [i, j]")
      case None
      moreover have "leaf (mem vm) r [i, j, k] l = 0"
        using None tab_snoc [of "mem vm" r "[i, j]" k] by (simp add: leaf_def)
      ultimately show ?thesis
        using w1(1) w1(2) [of f] f w2(1) by (simp add: get_mapping_def ix base)
    next
      case g: (Some g)
      note w3 = walk_step [OF inv o1(3) g]
      show ?thesis
      proof (cases "tab (mem vm) r [i, j, k]")
        case None
        then have "leaf (mem vm) r [i, j, k] l = 0"
          by (simp only: leaf_def option.case)
        then show ?thesis
          using None w1(1) w1(2) [of f] f w2(1) w2(2) [of g] g w3(1) by (simp add: get_mapping_def ix base)
      next
        case h: (Some h)
        have "leaf (mem vm) r [i, j, k] l = mem vm (entry_at (frame_va h) l)"
          unfolding leaf_def h using vm_inv_frame(1) [OF inv o h] by (simp add: entry_at_frame entry_def)
        then show ?thesis
          using w1(1) w1(2) [of f] f w2(1) w2(2) [of g] g w3(1) w3(2) [of h] h
          by (simp add: get_mapping_def ix base Let_def)
      qed
    qed
  qed
qed

lemma write_leaf:
  assumes inv: "vm_inv vm r" and o: "owned p" and p: "length p = 3" and h: "tab (mem vm) r p = Some h"
    and l: "l < 512" and vm': "vm' = vm\<lparr>mem := (mem vm)(4096 * h + 8 * l := w)\<rparr>"
  shows "vm_inv vm' r"
    "owned q \<Longrightarrow> length q = 3 \<Longrightarrow> n < 512 \<Longrightarrow>
      leaf (mem vm') r q n = (if q = p \<and> n = l then w else leaf (mem vm) r q n)"
    "keeps_data vm vm' r"
proof -
  have en: "entry (mem vm') f n = (if f = h \<and> n = l then w else entry (mem vm) f n)" if "n < 512" for f n
    using entry_upd [OF l that] by (simp add: vm')
  have ok: "tables_ok (types (pgalloc vm)) (mem vm) r"
    using inv by (simp add: vm_inv_def)
  have other: "f = h \<longleftrightarrow> q = p" if "owned q" "tab (mem vm) r q = Some f" for q f
    using tables_okD(1) [OF ok that(1) o that(2)] h that(2) by auto
  have st: "same_tables 3 (mem vm) (mem vm') r"
    unfolding same_tables_def
  proof (intro allI impI)
    fix q f and n :: nat
    assume q: "owned q" "length q < 3" "tab (mem vm) r q = Some f" "n < 512"
    then have "f \<noteq> h"
      using other [OF q(1,3)] p by auto
    then show "entry (mem vm') f n = entry (mem vm) f n"
      using en [OF q(4)] by simp
  qed
  have p4: "pgalloc vm' = pgalloc vm"
    by (simp add: vm')
  have "tables_ok (types (pgalloc vm')) (mem vm') r"
    unfolding p4 using tables_ok_cong [OF ok st] vm_inv_frame(2,3) [OF inv] by blast
  then show "vm_inv vm' r"
    using inv unfolding vm_inv_def p4 by (simp add: vm')
  show "keeps_data vm vm' r"
    unfolding keeps_data_def p4
  proof (intro allI impI)
    fix f
    assume f: "data_frame (types (pgalloc vm)) (mem vm) r f"
    then have "f \<noteq> h"
      using o h by (auto simp: data_frame_def)
    then show "data_frame (types (pgalloc vm)) (mem vm') r f \<and> (\<forall>n < 512. entry (mem vm') f n = entry (mem vm) f n)"
      using f en tab_cong [OF st] by (simp add: data_frame_def)
  qed
  assume q: "owned q" "length q = 3" "n < 512"
  show "leaf (mem vm') r q n = (if q = p \<and> n = l then w else leaf (mem vm) r q n)"
  proof (cases "tab (mem vm) r q")
    case None
    then show ?thesis
      using h tab_cong [OF st q(1)] by (auto simp: leaf_def)
  next
    case (Some f)
    then have "leaf (mem vm') r q n = entry (mem vm') f n" "leaf (mem vm) r q n = entry (mem vm) f n"
      using tab_cong [OF st q(1)] by (simp_all add: leaf_def)
    then show ?thesis
      using en [OF q(3), of f] other [OF q(1) Some] by auto
  qed
qed

lemma insert_mapping_ok:
  assumes inv: "vm_inv vm r" and ix: "va_table_indicies va = (i, j, k, l)" and o: "owned [i, j, k]" and l: "l < 512"
  shows "insert_mapping A vm va pa fl = Inl NullDeref \<or>
    (\<exists>vm'. insert_mapping A vm va pa fl = Inr vm' \<and> vm_inv vm' r \<and>
      (\<forall>q n. owned q \<longrightarrow> length q = 3 \<longrightarrow> n < 512 \<longrightarrow>
        leaf (mem vm') r q n = (if q = [i, j, k] \<and> n = l then leaf_entry (leaf (mem vm) r q n) pa fl
                                else leaf (mem vm) r q n)) \<and> keeps_data vm vm' r)"
proof -
  have base: "pgt_virt_base vm = frame_va r"
    using inv by (simp add: vm_inv_def)
  have o1: "owned ([] @ [i])" "owned ([i] @ [j])" "owned ([i, j] @ [k])"
    using o by (simp_all add: owned_def)
  have r: "tab (mem vm) r [] = Some r"
    by simp
  let ?lf = "\<lambda>vm vm'. \<forall>q l. owned q \<longrightarrow> length q = 3 \<longrightarrow> l < 512 \<longrightarrow> leaf (mem vm') r q l = leaf (mem vm) r q l"
  let ?e1 = "ensure_table A vm (entry_at (frame_va r) i)"
  show ?thesis
    using ensure_table_ok [OF inv o1(1) r]
  proof (elim disjE exE conjE)
    assume "?e1 = Inl NullDeref"
    then show ?thesis
      by (simp add: insert_mapping_def ix base)
  next
    fix f vm1
    assume e1: "?e1 = Inr (frame_va f, vm1)" and inv1: "vm_inv vm1 r" and t1: "tab (mem vm1) r ([] @ [i]) = Some f"
      and lf1: "?lf vm vm1" and "card (avail (types (pgalloc vm))) \<le> Suc (card (avail (types (pgalloc vm1))))" and kd1: "keeps_data vm vm1 r"
    let ?e2 = "ensure_table A vm1 (entry_at (frame_va f) j)"
    have t1': "tab (mem vm1) r [i] = Some f"
      using t1 by simp
    show ?thesis
      using ensure_table_ok [OF inv1 o1(2) t1']
    proof (elim disjE exE conjE)
      assume "?e2 = Inl NullDeref"
      then show ?thesis
        using e1 by (simp add: insert_mapping_def ix base)
    next
      fix g vm2
      assume e2: "?e2 = Inr (frame_va g, vm2)" and inv2: "vm_inv vm2 r" and t2: "tab (mem vm2) r ([i] @ [j]) = Some g"
        and lf2: "?lf vm1 vm2" and "card (avail (types (pgalloc vm1))) \<le> Suc (card (avail (types (pgalloc vm2))))" and kd2: "keeps_data vm1 vm2 r"
      let ?e3 = "ensure_table A vm2 (entry_at (frame_va g) k)"
      have t2': "tab (mem vm2) r [i, j] = Some g"
        using t2 by simp
      show ?thesis
        using ensure_table_ok [OF inv2 o1(3) t2']
      proof (elim disjE exE conjE)
        assume "?e3 = Inl NullDeref"
        then show ?thesis
          using e1 e2 by (simp add: insert_mapping_def ix base)
      next
        fix h vm3
        assume e3: "?e3 = Inr (frame_va h, vm3)" and inv3: "vm_inv vm3 r"
          and t3: "tab (mem vm3) r ([i, j] @ [k]) = Some h" and lf3: "?lf vm2 vm3"
          and "card (avail (types (pgalloc vm2))) \<le> Suc (card (avail (types (pgalloc vm3))))" and kd3: "keeps_data vm2 vm3 r"
        have t3': "tab (mem vm3) r [i, j, k] = Some h"
          using t3 by simp
        have a: "entry_at (frame_va h) l = 4096 * h + 8 * l"
          using vm_inv_frame(1) [OF inv3 o t3'] by (simp add: entry_at_frame)
        define vm4 where "vm4 = vm3\<lparr>mem := (mem vm3)(4096 * h + 8 * l := leaf_entry (entry (mem vm3) h l) pa fl)\<rparr>"
        have res: "insert_mapping A vm va pa fl = Inr vm4"
          using e1 e2 e3 a by (simp add: insert_mapping_def ix base vm4_def Let_def entry_def)
        have l3: "leaf (mem vm3) r q n = leaf (mem vm) r q n" if "owned q" "length q = 3" "n < 512" for q n
          using lf1 lf2 lf3 that by simp
        have w: "entry (mem vm3) h l = leaf (mem vm) r [i, j, k] l"
          using l3 [OF o _ l] t3' by (simp add: leaf_def)
        note wl = write_leaf [OF inv3 o _ t3' l vm4_def]
        have "leaf (mem vm4) r q n = (if q = [i, j, k] \<and> n = l then leaf_entry (leaf (mem vm) r q n) pa fl
            else leaf (mem vm) r q n)" if q: "owned q" "length q = 3" "n < 512" for q n
          using wl(2) [OF _ q] l3 [OF q] w by auto
        moreover have "vm_inv vm4 r"
          using wl(1) by simp
        moreover have "keeps_data vm vm4 r"
        proof (rule keeps_data_trans [OF keeps_data_trans [OF keeps_data_trans [OF kd1 kd2] kd3]])
          show "keeps_data vm3 vm4 r"
            using wl(3) by simp
        qed
        ultimately show ?thesis
          using res by blast
      qed
    qed
  qed
qed

end

section \<open>Allocators that find a free page\<close>

locale complete_page_algorithm = page_algorithm +
  assumes find_free: "cinv ts s \<Longrightarrow> avail ts \<noteq> {} \<Longrightarrow> \<exists>p s'. alg_alloc_pages A ts s 0 = Inr (Some p, s')"
begin

lemma allocate_phys_fails:
  assumes "vm_inv vm r" and "allocate_phys A vm (int 0) = Inl NullDeref"
  shows "avail (types (pgalloc vm)) = {}"
proof (rule ccontr)
  assume ne: "avail (types (pgalloc vm)) \<noteq> {}"
  have c: "cinv (types (pgalloc vm)) (alg (pgalloc vm))"
    using assms(1) by (simp add: vm_inv_def)
  have "PageAllocator_alloc_pages A (pgalloc vm) (int 0) \<noteq> Inl NullDeref"
    using find_free [OF c ne] by (auto simp: PageAllocator_alloc_pages_def check_def andthen_def split: if_splits)
  then obtain g pa where al: "PageAllocator_alloc_pages A (pgalloc vm) (int 0) = Inr (g, pa)"
    using alloc_pages_cases [OF c, of 0] by auto
  show False
    using assms(2) al by (simp add: allocate_phys_def pgd_to_vpa_def pa_to_vpa_def check_def split: if_splits)
qed

lemma ensure_table_fails:
  assumes "vm_inv vm r" and "ensure_table A vm a = Inl NullDeref"
  shows "avail (types (pgalloc vm)) = {}"
proof -
  have "allocate_phys A vm (int 0) = Inl NullDeref"
    using assms(2) by (auto simp: ensure_table_def andthen_def pa_to_vpa_def check_def split: if_splits sum.splits)
  then show ?thesis
    by (rule allocate_phys_fails [OF assms(1)])
qed

text \<open>Three free pages are always enough for a mapping.\<close>

lemma insert_mapping_fails:
  assumes inv: "vm_inv vm r" and ix: "va_table_indicies va = (i, j, k, l)" and o: "owned [i, j, k]"
    and f: "insert_mapping A vm va pa fl = Inl NullDeref"
  shows "card (avail (types (pgalloc vm))) < 3"
proof -
  have base: "pgt_virt_base vm = frame_va r"
    using inv by (simp add: vm_inv_def)
  have o1: "owned ([] @ [i])" "owned ([i] @ [j])" "owned ([i, j] @ [k])"
    using o by (simp_all add: owned_def)
  have r: "tab (mem vm) r [] = Some r"
    by simp
  let ?c = "\<lambda>vm :: 'a vma. card (avail (types (pgalloc vm)))"
  show ?thesis
  proof (cases "ensure_table A vm (entry_at (frame_va r) i)")
    case (Inl e)
    then show ?thesis
      using ensure_table_ok [OF inv o1(1) r] ensure_table_fails [OF inv] by auto
  next
    case e1: (Inr x)
    obtain f vm1 where 1: "x = (frame_va f, vm1)" "vm_inv vm1 r" "tab (mem vm1) r [i] = Some f" "?c vm \<le> Suc (?c vm1)"
      using ensure_table_ok [OF inv o1(1) r] e1 by auto
    show ?thesis
    proof (cases "ensure_table A vm1 (entry_at (frame_va f) j)")
      case (Inl e)
      then show ?thesis
        using ensure_table_ok [OF 1(2) o1(2) 1(3)] ensure_table_fails [OF 1(2)] 1(4) by auto
    next
      case e2: (Inr y)
      obtain g vm2 where 2: "y = (frame_va g, vm2)" "vm_inv vm2 r" "tab (mem vm2) r [i, j] = Some g"
          "?c vm1 \<le> Suc (?c vm2)"
        using ensure_table_ok [OF 1(2) o1(2) 1(3)] e2 by auto
      have "ensure_table A vm2 (entry_at (frame_va g) k) = Inl NullDeref"
        using f e1 e2 1(1) 2(1) ensure_table_ok [OF 2(2) o1(3) 2(3)]
        by (auto simp: insert_mapping_def ix base Let_def)
      then have "?c vm2 = 0"
        using ensure_table_fails [OF 2(2)] by simp
      then show ?thesis
        using 1(4) 2(4) by simp
    qed
  qed
qed

text \<open>The constructor.\<close>

lemma VMA_new_ok:
  assumes c: "cinv (types pa) (alg pa)" and n: "0 < length (types pa)" "length (types pa) \<le> 2 ^ 20"
    and z: "types pa ! 0 \<noteq> AVAILABLE" and av: "avail (types pa) \<noteq> {}"
  shows "\<exists>r vm. VMA_new A pa m = Inr vm \<and> vm_inv vm r \<and> r \<in> avail (types pa) \<and>
    avail (types (pgalloc vm)) = avail (types pa) - {r} \<and>
    (\<forall>q l. owned q \<longrightarrow> length q = 3 \<longrightarrow> leaf (mem vm) r q l = 0)"
proof -
  have "PageAllocator_alloc_pages A pa (int 0) \<noteq> Inl NullDeref"
    using find_free [OF c av] by (auto simp: PageAllocator_alloc_pages_def check_def andthen_def split: if_splits)
  then obtain g s' where al: "PageAllocator_alloc_pages A pa 0 = Inr (g, \<lparr>types = mark ALLOCATED g 1 (types pa), alg = s'\<rparr>)"
    and ty: "typed (types pa) AVAILABLE g 1" and ci: "cinv (mark ALLOCATED g 1 (types pa)) s'"
    using alloc_pages_cases [OF c, of 0] by auto
  have g: "g < length (types pa)" "types pa ! g = AVAILABLE"
    using ty by (simp_all add: typed_def)
  then have g20: "g < 2 ^ 20"
    using n by simp
  have g0: "g \<noteq> 0"
    using g z by (cases g) auto
  define vm where "vm = \<lparr>pgalloc = \<lparr>types = mark ALLOCATED g 1 (types pa), alg = s'\<rparr>, mem = pnzero (frame_va g) 1 m,
      page_allocations = [(g, 0)], pgt_phys_base = pgd_to_pa g, pgt_virt_base = frame_va g\<rparr>"
  have r: "VMA_new A pa m = Inr vm"
    using al pa_to_vpa_frame [OF g20] by (simp add: VMA_new_def allocate_phys_def pgd_to_vpa_def vm_def)
  have "entry (mem vm) g i = 0" if "i < 512" for i
    using entry_pnzero [OF g20 that] by (simp add: vm_def)
  then have ch: "child (mem vm) g i = None" "\<not> get_flag (entry (mem vm) g i) 0" if "i < 512" for i
    using that by (simp_all add: child_def)
  have tab: "tab (mem vm) g q = (if q = [] then Some g else None)" if "owned q" for q
    using that ch(1) by (cases q) (auto simp: owned_def)
  have "tables_ok (types (pgalloc vm)) (mem vm) g"
    unfolding tables_ok_def
  proof (intro conjI allI impI)
    fix p f i
    assume o: "owned (p @ [i])" and t: "tab (mem vm) g p = Some f"
    then have "f = g" "i < 512"
      using tab [of p] owned_snoc [OF o] by (auto split: if_splits)
    then show "get_flag (entry (mem vm) f i) PRESENT \<longleftrightarrow> child (mem vm) f i \<noteq> None"
      using ch by simp
  qed (use tab g in \<open>auto simp: vm_def split: if_splits\<close>)
  then have "vm_inv vm g"
    using n z ci g0 by (simp add: vm_inv_def vm_def)
  moreover have "leaf (mem vm) g q l = 0" if "owned q" "length q = 3" for q l
    using tab [OF that(1)] that(2) by (auto simp: leaf_def)
  moreover have "avail (types (pgalloc vm)) = avail (types pa) - {g}"
    by (simp add: vm_def avail_mark_ALLOCATED)
  moreover have "g \<in> avail (types pa)"
    using g by (simp add: avail_def)
  ultimately show ?thesis
    using r by blast
qed

end

end
