(* ===== verification/Vma_Props.thy ===== *)
theory Vma_Props
  imports Vma_Correct Page_Props
begin

text \<open>
  What a VMA on the buddy allocator promises: lookup after mapping, mapping of a fresh block
  of pages, the bytes \<open>copy_to\<close> writes, and the addresses \<open>dump\<close> prints. The contract lemmas of
  \<open>Vma_Correct\<close> are used at the interpretation \<open>bp\<close> of the buddy allocator.
\<close>

unbundle bit_operations_syntax

section \<open>Virtual page numbers\<close>

definition vpn :: "u64 \<Rightarrow> nat" where
  "vpn va = unat va div 4096 mod 2 ^ 36"

lemma unat_BITS: "e = s + 8 \<Longrightarrow> unat (BITS va s e) = unat va div 2 ^ s mod 512"
proof -
  assume e: "e = s + 8"
  have m: "push_bit 9 1 - 1 = (mask 9 :: u64)"
    by (simp add: mask_eq_exp_minus_1)
  have "e - s + 1 = 9"
    using e by simp
  then have "BITS va s e = ucast (take_bit 9 (drop_bit s va))"
    unfolding BITS_def take_bit_eq_mask m [symmetric] by simp
  then have "unat (BITS va s e) = take_bit 16 (unat (take_bit 9 (drop_bit s va)))"
    by (simp add: unsigned_ucast_eq del: take_bit_take_bit)
  also have "\<dots> = take_bit 9 (unat (drop_bit s va))"
    by (simp only: unsigned_take_bit_eq take_bit_take_bit)
  also have "unat (drop_bit s va) = unat va div 2 ^ s"
  proof -
    have "unat (drop_bit s va) = drop_bit s (unat va)"
      using unsigned_less [of va, where 'a = nat] by (simp add: unsigned_drop_bit_eq take_bit_nat_eq_self)
    then show ?thesis
      by (simp add: drop_bit_eq_div)
  qed
  finally show ?thesis
    by (simp add: take_bit_eq_mod)
qed

lemma nat_bits: "take_bit 9 (drop_bit (12 + n) x) = take_bit 9 (drop_bit n (take_bit 36 (drop_bit 12 (x :: nat))))"
  if "n + 9 \<le> 36"
  using that by (intro bit_eqI) (auto simp: bit_simps ac_simps)

lemma unat_field: "n + 9 \<le> 36 \<Longrightarrow> unat va div 2 ^ (12 + n) mod 512 = vpn va div 2 ^ n mod 512"
  using nat_bits [of n "unat va"] by (simp add: vpn_def take_bit_eq_mod drop_bit_eq_div)

lemma indices_vpn:
  "va_table_indicies va = (vpn va div 2 ^ 27, vpn va div 2 ^ 18 mod 512, vpn va div 2 ^ 9 mod 512, vpn va mod 512)"
proof -
  have "vpn va < 2 ^ 36"
    by (simp add: vpn_def)
  then have top: "vpn va div 2 ^ 27 mod 512 = vpn va div 2 ^ 27"
    by (simp add: less_mult_imp_div_less)
  show ?thesis
    using unat_field [of 27 va] unat_field [of 18 va] unat_field [of 9 va] unat_field [of 0 va] top
    by (simp add: va_table_indicies_def unat_BITS)
qed

lemma indices_eq_iff: "va_table_indicies va = va_table_indicies va' \<longleftrightarrow> vpn va = vpn va'"
proof
  assume "va_table_indicies va = va_table_indicies va'"
  then have e: "vpn va div 2 ^ 27 = vpn va' div 2 ^ 27" "vpn va div 2 ^ 18 mod 512 = vpn va' div 2 ^ 18 mod 512"
      "vpn va div 2 ^ 9 mod 512 = vpn va' div 2 ^ 9 mod 512" "vpn va mod 512 = vpn va' mod 512"
    by (simp_all add: indices_vpn)
  have d: "x = x div 2 ^ 27 * 2 ^ 27 + x div 2 ^ 18 mod 512 * 2 ^ 18 + x div 2 ^ 9 mod 512 * 2 ^ 9 + x mod 512"
    for x :: nat
  proof -
    define a b c where abc: "a = x div 512" "b = a div 512" "c = b div 512"
    have "x div 2 ^ 27 = c" "x div 2 ^ 18 = b" "x div 2 ^ 9 = a"
      by (simp_all add: abc flip: div_mult2_eq)
    moreover have e: "x = a * 512 + x mod 512" "a = b * 512 + a mod 512" "b = c * 512 + b mod 512"
      by (simp_all add: abc)
    have "x = c * 134217728 + b mod 512 * 262144 + a mod 512 * 512 + x mod 512"
      using e by linarith
    ultimately show ?thesis
      by simp
  qed
  show "vpn va = vpn va'"
    by (subst d [of "vpn va"], subst d [of "vpn va'"]) (simp only: e)
next
  assume "vpn va = vpn va'"
  then show "va_table_indicies va = va_table_indicies va'"
    by (simp add: indices_vpn)
qed

lemma vpn_add: "vpn (va + of_nat i * 0x1000) = (vpn va + i) mod 2 ^ 36"
proof -
  have "unat (va + of_nat i * 0x1000) = (unat va + i * 4096) mod 2 ^ 64"
    by (simp add: unat_word_ariths unsigned_of_nat take_bit_eq_mod mod_simps)
  also have "\<dots> div 4096 mod 2 ^ 36 = (unat va div 4096 + i) mod 2 ^ 36"
  proof -
    have "(x mod 2 ^ 64) div 4096 mod 2 ^ 36 = x div 4096 mod 2 ^ 36" for x :: nat
    proof -
      have "take_bit 36 (drop_bit 12 (take_bit 64 x)) = take_bit 36 (drop_bit 12 x)"
        by (intro bit_eqI) (auto simp: bit_simps)
      then show ?thesis
        by (simp add: take_bit_eq_mod drop_bit_eq_div)
    qed
    then show ?thesis
      by (simp add: add.commute)
  qed
  finally show ?thesis
    by (simp add: vpn_def mod_simps add.commute)
qed

text \<open>
  Addresses whose top-level entry is the VMA's own: all but the two entries of the shared kernel
  mapping.
\<close>

definition vma_owned :: "u64 \<Rightarrow> bool" where
  "vma_owned va \<longleftrightarrow> fst (va_table_indicies va) \<notin> {0x100, 0x1ff}"

lemma vma_owned_path:
  assumes "vma_owned va" and "va_table_indicies va = (i, j, k, l)"
  shows "owned [i, j, k]" "l < 512"
proof -
  have "vpn va < 2 ^ 36"
    by (simp add: vpn_def)
  then have "vpn va div 2 ^ 27 < 512"
    by (simp add: less_mult_imp_div_less)
  moreover have ix: "i = vpn va div 2 ^ 27" "j = vpn va div 2 ^ 18 mod 512" "k = vpn va div 2 ^ 9 mod 512"
      "l = vpn va mod 512"
    using assms(2) by (simp_all add: indices_vpn)
  ultimately show "owned [i, j, k]" "l < 512"
    using assms by (simp_all add: owned_def vma_owned_def)
qed

section \<open>Lookup after mapping\<close>

lemma leaf_entry_bits:
  "get_flag (leaf_entry w pa fl) 0 \<longleftrightarrow> fl AND MapPresent \<noteq> 0 \<or> get_flag w 0"
  "get_base (leaf_entry w pa fl) = get_base pa"
  by (simp_all add: leaf_entry_def Let_def)

lemma insert_then_get:
  assumes inv: "bp.vm_inv vm r" and o: "vma_owned va" and ins: "insert_mapping buddy_algorithm vm va pa fl = Inr vm'"
  shows "bp.vm_inv vm' r"
    "vma_owned va' \<Longrightarrow> get_mapping vm' va' =
      (if vpn va' = vpn va
       then Inr (if fl AND MapPresent \<noteq> 0 \<or> get_mapping vm va' \<noteq> Inr None
                 then Some (get_base pa OR page_offset va') else None)
       else get_mapping vm va')"
    "keeps_data vm vm' r"
proof -
  obtain i j k l where ix: "va_table_indicies va = (i, j, k, l)"
    by (metis prod.collapse)
  note p = vma_owned_path [OF o ix]
  have r: "bp.vm_inv vm' r \<and> (\<forall>q n. owned q \<longrightarrow> length q = 3 \<longrightarrow> n < 512 \<longrightarrow>
        leaf (mem vm') r q n = (if q = [i, j, k] \<and> n = l then leaf_entry (leaf (mem vm) r q n) pa fl
                                else leaf (mem vm) r q n)) \<and> keeps_data vm vm' r"
    using bp.insert_mapping_ok [OF inv ix p, of pa fl] ins by auto
  then show inv': "bp.vm_inv vm' r"
    by blast
  show "keeps_data vm vm' r"
    using r by blast
  assume o': "vma_owned va'"
  obtain i' j' k' l' where ix': "va_table_indicies va' = (i', j', k', l')"
    by (metis prod.collapse)
  note p' = vma_owned_path [OF o' ix']
  have lf: "leaf (mem vm') r [i', j', k'] l' =
      (if vpn va' = vpn va then leaf_entry (leaf (mem vm) r [i', j', k'] l') pa fl else leaf (mem vm) r [i', j', k'] l')"
    using r p' ix ix' by (auto simp flip: indices_eq_iff)
  show "get_mapping vm' va' =
      (if vpn va' = vpn va
       then Inr (if fl AND MapPresent \<noteq> 0 \<or> get_mapping vm va' \<noteq> Inr None
                 then Some (get_base pa OR page_offset va') else None)
       else get_mapping vm va')"
    unfolding bp.get_mapping_leaf [OF inv' ix' p'(1)] bp.get_mapping_leaf [OF inv ix' p'(1)] lf
    by (simp add: Let_def leaf_entry_bits)
qed

lemma insert_or_full:
  assumes "bp.vm_inv vm r" and "vma_owned va"
  shows "insert_mapping buddy_algorithm vm va pa fl = Inl NullDeref \<or>
    (\<exists>vm'. insert_mapping buddy_algorithm vm va pa fl = Inr vm')"
proof -
  obtain i j k l where ix: "va_table_indicies va = (i, j, k, l)"
    by (metis prod.collapse)
  show ?thesis
    using bp.insert_mapping_ok [OF assms(1) ix vma_owned_path [OF assms(2) ix], of pa fl] by blast
qed

interpretation bpc: complete_page_algorithm buddy_algorithm buddy_cinv buddy_rinv "\<lambda>_. True" buddy_shape
  "BuddyPageAllocator mem" for mem
proof unfold_locales
  show "\<exists>p s'. alg_alloc_pages buddy_algorithm ts s 0 = Inr (Some p, s')"
    if inv: "buddy_cinv ts s" and ne: "avail ts \<noteq> {}" for ts s
  proof -
    have b: "buddy_inv (length ts) s" "free_set (length ts) s = avail ts"
      using inv by (simp_all add: buddy_cinv_def)
    obtain p where "p \<in> avail ts"
      using ne by blast
    then have "\<exists>q s'. alloc_pages (length ts) s (int 0) = Inr (Some q, s')"
      using buddy_alloc_complete [OF b(1), of 0 p] b(2) by (simp add: MAX_ORDER_def)
    then show ?thesis
      by simp
  qed
qed

text \<open>
  C18 (\<open>vma.cpp\<close>, \<open>insert_mapping\<close>, \<open>get_mapping\<close>, with \<open>page-allocator.cpp\<close> and \<open>buddy.cpp\<close>). Mapping a page of the VMA's own part
  keeps the page tables well formed, and fails only when fewer than three pages are free. Afterwards every address of the page reads the new frame with its offset in the page, if the mapping
  or the one it replaces was present, and every address of another page reads what it read before.
\<close>

theorem vma_lookup_after_map:
  assumes "bp.vm_inv vm r" and "vma_owned va" and "vma_owned va'"
  shows "(insert_mapping buddy_algorithm vm va pa fl = Inl NullDeref \<and> card (avail (types (pgalloc vm))) < 3) \<or>
    (\<exists>vm'. insert_mapping buddy_algorithm vm va pa fl = Inr vm' \<and> bp.vm_inv vm' r \<and>
      get_mapping vm' va' =
        (if vpn va' = vpn va
         then Inr (if fl AND MapPresent \<noteq> 0 \<or> get_mapping vm va' \<noteq> Inr None
                   then Some (get_base pa OR page_offset va') else None)
         else get_mapping vm va'))"
proof -
  obtain i j k l where ix: "va_table_indicies va = (i, j, k, l)"
    by (metis prod.collapse)
  note f = bpc.insert_mapping_fails [OF assms(1) ix vma_owned_path(1) [OF assms(2) ix], of pa fl]
  show ?thesis
    using f insert_or_full [OF assms(1,2), of pa fl] insert_then_get [OF assms(1,2)] assms(3) by blast
qed

text \<open>A VMA on the small machine of \<open>Page_Props\<close>.\<close>

lemma small_vma:
  "\<exists>pa vm r. PageAllocator_init buddy_algorithm small_machine small_layout (BuddyPageAllocator (\<lambda>_. None)) = Inr (True, pa) \<and>
    VMA_new buddy_algorithm pa (\<lambda>_. 0) = Inr vm \<and> bp.vm_inv vm r \<and> card (avail (types (pgalloc vm))) = 5 \<and>
    (\<forall>q l. owned q \<longrightarrow> length q = 3 \<longrightarrow> leaf (mem vm) r q l = 0)"
proof -
  obtain pa where pa: "PageAllocator_init buddy_algorithm small_machine small_layout (BuddyPageAllocator (\<lambda>_. None)) =
      Inr (True, pa)" "avail (types pa) = {9..14}" "length (types pa) = 16" "types pa ! 0 \<noteq> AVAILABLE"
      "buddy_cinv (types pa) (alg pa)"
    using small_init_types [of "\<lambda>_. None"] by auto
  have "avail (types pa) \<noteq> {}"
    unfolding pa(2) by simp
  then obtain r vm where vm: "VMA_new buddy_algorithm pa (\<lambda>_. 0) = Inr vm" "bp.vm_inv vm r" "r \<in> avail (types pa)"
      "avail (types (pgalloc vm)) = avail (types pa) - {r}"
      "\<forall>q l. owned q \<longrightarrow> length q = 3 \<longrightarrow> leaf (mem vm) r q l = 0"
  proof -
    have "0 < length (types pa)" "length (types pa) \<le> 2 ^ 20"
      using pa(3) by simp_all
    from bpc.VMA_new_ok [OF pa(5) this pa(4) \<open>avail (types pa) \<noteq> {}\<close>, of "\<lambda>_. 0"] show ?thesis
      using that by blast
  qed
  have "card (avail (types (pgalloc vm))) = 5"
    unfolding vm(4) using vm(3) by (simp add: pa(2))
  then show ?thesis
    using pa(1) vm by blast
qed

lemma vma_owned_example: "vma_owned 0x400000" "vma_owned 0x400123" "vpn 0x400123 = vpn 0x400000"
  by (simp_all add: vma_owned_def indices_vpn vpn_def)

theorem vma_lookup_after_map_witness:
  "\<exists>pa vm vm'. PageAllocator_init buddy_algorithm small_machine small_layout (BuddyPageAllocator (\<lambda>_. None)) = Inr (True, pa) \<and>
    VMA_new buddy_algorithm pa (\<lambda>_. 0) = Inr vm \<and>
    insert_mapping buddy_algorithm vm 0x400000 0x5000 MapPresent = Inr vm' \<and>
    get_mapping vm' 0x400123 = Inr (Some 0x5123)"
proof -
  obtain pa vm r where vm: "PageAllocator_init buddy_algorithm small_machine small_layout (BuddyPageAllocator (\<lambda>_. None)) = Inr (True, pa)"
      "VMA_new buddy_algorithm pa (\<lambda>_. 0) = Inr vm" "bp.vm_inv vm r" "card (avail (types (pgalloc vm))) = 5"
    using small_vma by blast
  have "get_base 0x5000 OR page_offset 0x400123 = (0x5123 :: u64)"
    by (simp add: get_base_def page_offset_def)
  then show ?thesis
    using vma_lookup_after_map [OF vm(3) vma_owned_example(1,2), of "0x5000" MapPresent] vm vma_owned_example(3)
    by (auto simp: MapPresent_def)
qed

section \<open>Mapping a block of pages\<close>

lemma allocation_flags: "(MapPresent OR MapUser OR MapWritable) AND MapPresent \<noteq> 0"
  by (simp add: MapPresent_def MapUser_def MapWritable_def)

definition page_at :: "u64 \<Rightarrow> nat \<Rightarrow> u64" where
  "page_at a i = a + of_nat i * 0x1000"

lemma page_at_0 [simp]: "page_at a 0 = a"
  by (simp add: page_at_def)

lemma page_at_Suc: "page_at (a + 0x1000) i = page_at a (Suc i)"
  by (simp add: page_at_def algebra_simps)

lemma vpn_page_at: "vpn (page_at va i) = (vpn va + i) mod 2 ^ 36"
  by (simp add: page_at_def vpn_add)

lemma page_at_distinct: "0 < i \<Longrightarrow> i < 2 ^ 36 \<Longrightarrow> vpn (page_at va i) \<noteq> vpn va"
proof -
  assume i: "0 < i" "i < 2 ^ 36"
  have v: "vpn va < 2 ^ 36"
    by (simp add: vpn_def)
  show "vpn (page_at va i) \<noteq> vpn va"
  proof (cases "vpn va + i < 2 ^ 36")
    case False
    then have "(vpn va + i) mod 2 ^ 36 = vpn va + i - 2 ^ 36"
      using v i by (subst mod_if) simp
    then show ?thesis
      using False v i by (simp add: vpn_page_at)
  qed (use i in \<open>simp add: vpn_page_at\<close>)
qed

text \<open>What a run of \<open>n\<close> pages mapped from \<open>va\<close> to the frames from \<open>pa\<close> does to the lookups.\<close>

definition maps_run :: "'a vma \<Rightarrow> 'a vma \<Rightarrow> nat \<Rightarrow> u64 \<Rightarrow> u64 \<Rightarrow> bool" where
  "maps_run vm vm' n va pa \<longleftrightarrow> (\<forall>va'. vma_owned va' \<longrightarrow>
     (\<forall>i < n. vpn va' = vpn (page_at va i) \<longrightarrow>
        get_mapping vm' va' = Inr (Some (get_base (page_at pa i) OR page_offset va'))) \<and>
     ((\<forall>i < n. vpn va' \<noteq> vpn (page_at va i)) \<longrightarrow> get_mapping vm' va' = get_mapping vm va'))"

lemma maps_run_Suc:
  assumes n: "Suc n \<le> 2 ^ 36" and run: "maps_run vm1 vm' n (va + 0x1000) (pa + 0x1000)"
    and first: "\<And>va'. vma_owned va' \<Longrightarrow> get_mapping vm1 va' =
      (if vpn va' = vpn va then Inr (Some (get_base pa OR page_offset va')) else get_mapping vm va')"
  shows "maps_run vm vm' (Suc n) va pa"
  unfolding maps_run_def
proof (intro allI impI conjI)
  fix va' i
  assume o: "vma_owned va'" and i: "i < Suc n" and e: "vpn va' = vpn (page_at va i)"
  show "get_mapping vm' va' = Inr (Some (get_base (page_at pa i) OR page_offset va'))"
  proof (cases i)
    case 0
    have "vpn va' \<noteq> vpn (page_at (va + 0x1000) j)" if "j < n" for j
      using page_at_distinct [of "Suc j" va] that n e 0 by (simp add: page_at_Suc)
    then have "get_mapping vm' va' = get_mapping vm1 va'"
      using run o unfolding maps_run_def by blast
    then show ?thesis
      using first [OF o] e 0 by simp
  next
    case (Suc j)
    then show ?thesis
      using run o i e unfolding maps_run_def page_at_Suc by auto
  qed
next
  fix va'
  assume o: "vma_owned va'" and ne: "\<forall>i < Suc n. vpn va' \<noteq> vpn (page_at va i)"
  have "\<forall>j < n. vpn va' \<noteq> vpn (page_at (va + 0x1000) j)"
    unfolding page_at_Suc using ne by simp
  then have "get_mapping vm' va' = get_mapping vm1 va'"
    using run o unfolding maps_run_def by blast
  moreover have "vpn va' \<noteq> vpn va"
    using ne [rule_format, of 0] by simp
  ultimately show "get_mapping vm' va' = get_mapping vm va'"
    using first [OF o] by simp
qed

lemma map_pages_ok:
  assumes "bp.vm_inv vm r" and "n \<le> 2 ^ 36" and "\<forall>i < n. vma_owned (page_at va i)"
  shows "map_pages buddy_algorithm n vm va pa = Inl NullDeref \<or>
    (\<exists>vm'. map_pages buddy_algorithm n vm va pa = Inr vm' \<and> bp.vm_inv vm' r \<and> maps_run vm vm' n va pa \<and>
      keeps_data vm vm' r)"
  using assms
proof (induction n arbitrary: vm va pa)
  case 0
  then show ?case
    by (simp add: maps_run_def)
next
  case (Suc n)
  have o: "vma_owned va"
    using Suc.prems(3) [rule_format, of 0] by simp
  have o': "\<forall>i < n. vma_owned (page_at (va + 0x1000) i)"
    unfolding page_at_Suc using Suc.prems(3) by simp
  show ?case
  proof (cases "insert_mapping buddy_algorithm vm va pa (MapPresent OR MapUser OR MapWritable)")
    case (Inl e)
    then have "e = NullDeref"
      using insert_or_full [OF Suc.prems(1) o, of pa "MapPresent OR MapUser OR MapWritable"] by auto
    then show ?thesis
      using Inl by simp
  next
    case (Inr vm1)
    note ins = insert_then_get [OF Suc.prems(1) o Inr]
    have f: "get_mapping vm1 va' = (if vpn va' = vpn va then Inr (Some (get_base pa OR page_offset va'))
        else get_mapping vm va')" if "vma_owned va'" for va'
      using ins(2) [OF that] allocation_flags by simp
    have n: "n \<le> 2 ^ 36"
      using Suc.prems(2) by simp
    show ?thesis
      using Suc.IH [OF ins(1) n o', of "pa + 0x1000"]
    proof (elim disjE exE conjE)
      fix vm'
      assume m: "map_pages buddy_algorithm n vm1 (va + 0x1000) (pa + 0x1000) = Inr vm'" "bp.vm_inv vm' r"
        and run: "maps_run vm1 vm' n (va + 0x1000) (pa + 0x1000)" and kd: "keeps_data vm1 vm' r"
      have "maps_run vm vm' (Suc n) va pa"
        by (rule maps_run_Suc [OF Suc.prems(2) run f])
      then show ?thesis
        using m Inr keeps_data_trans [OF ins(3) kd] by simp
    qed (use Inr in simp)
  qed
qed

text \<open>\<open>__log2ceil\<close> rounds up to a power of two.\<close>

lemma highest_bit_bounds: "0 < n \<Longrightarrow> 2 ^ highest_bit n \<le> n \<and> n < 2 ^ Suc (highest_bit n)"
proof (induction n rule: highest_bit.induct)
  case (1 n)
  show ?case
  proof (cases "n < 2")
    case True
    then show ?thesis
      using 1(2) by (simp add: highest_bit.simps [of n])
  next
    case False
    then have "2 ^ highest_bit (n div 2) \<le> n div 2" "n div 2 < 2 ^ Suc (highest_bit (n div 2))"
      using 1(1) by auto
    then have "2 * 2 ^ highest_bit (n div 2) \<le> n" "n < 4 * 2 ^ highest_bit (n div 2)"
      unfolding power_Suc by linarith+
    then show ?thesis
      using False by (simp add: highest_bit.simps [of n])
  qed
qed

lemma and_pred_power:
  assumes "(x :: u64) \<noteq> 0"
  shows "x AND (x - 1) = 0 \<longleftrightarrow> unat x = 2 ^ highest_bit (unat x)"
proof -
  let ?n = "unat x" and ?h = "highest_bit (unat x)"
  have n: "0 < ?n"
    using assms by (simp add: unat_gt_0)
  note b = highest_bit_bounds [OF n]
  have u: "unat (x AND (x - 1)) = ?n AND (?n - 1)"
    using unat_minus_one [OF assms] by (simp add: unsigned_and_eq)
  have z: "x AND (x - 1) = 0 \<longleftrightarrow> ?n AND (?n - 1) = 0"
    unfolding u [symmetric] by (simp add: unsigned_eq_0_iff)
  show ?thesis
    unfolding z
  proof
    assume e: "?n = 2 ^ ?h"
    have "2 ^ ?h AND (2 ^ ?h - 1) = (0 :: nat)"
      using take_bit_eq_mask [of ?h "2 ^ ?h :: nat"] by (simp add: mask_eq_exp_minus_1 take_bit_eq_mod)
    then show "?n AND (?n - 1) = 0"
      using e by metis
  next
    assume a: "?n AND (?n - 1) = 0"
    show "?n = 2 ^ ?h"
    proof (rule ccontr)
      assume ne: "?n \<noteq> 2 ^ ?h"
      have "bit m ?h" if "2 ^ ?h \<le> m" "m < 2 ^ Suc ?h" for m :: nat
      proof -
        have "m div 2 ^ ?h = 1"
          using that by (simp add: div_nat_eqI)
        then show ?thesis
          by (simp add: bit_iff_odd)
      qed
      then have "bit ?n ?h" "bit (?n - 1) ?h"
        using b ne by auto
      then have "bit (?n AND (?n - 1)) ?h"
        by (simp add: bit_and_iff)
      then show False
        using a by simp
    qed
  qed
qed

lemma log2ceil_bounds:
  assumes "0 < n" and "n \<le> 2 ^ 30"
  shows "n \<le> 2 ^ log2ceil (of_nat n) \<and> 2 ^ log2ceil (of_nat n) < 2 * n \<and> log2ceil (of_nat n) < 31"
proof -
  have u: "unat (of_nat n :: u64) = n"
    using assms(2) by (simp add: unsigned_of_nat take_bit_nat_eq_self)
  have nz: "(of_nat n :: u64) \<noteq> 0"
    using u assms(1) by (metis unsigned_0 less_irrefl)
  have p: "of_nat n AND (of_nat n - 1) = (0 :: u64) \<longleftrightarrow> n = 2 ^ highest_bit n"
    using and_pred_power [OF nz] by (simp add: u)
  note b = highest_bit_bounds [OF assms(1)]
  have h: "2 ^ highest_bit n \<le> (2 :: nat) ^ 30"
    using b assms(2) by linarith
  show ?thesis
  proof (cases "n = 2 ^ highest_bit n")
    case True
    then have l: "log2ceil (of_nat n) = highest_bit n"
      using nz p by (simp add: log2ceil_def u)
    have "highest_bit n \<le> 30"
      using h by (rule power_le_imp_le_exp [rotated]) simp
    then show ?thesis
      unfolding l using b True by simp
  next
    case False
    then have l: "log2ceil (of_nat n) = Suc (highest_bit n)"
      using nz p by (simp add: log2ceil_def u)
    have "(2 :: nat) ^ highest_bit n < 2 ^ 30"
      using b False assms(2) by linarith
    then have "highest_bit n < 30"
      by (rule power_less_imp_less_exp [rotated]) simp
    then show ?thesis
      unfolding l using b False by simp
  qed
qed

text \<open>What \<open>allocate_virt\<close> does to the frames: the new ones are zeroed data, the data of the others stays.\<close>

lemma allocate_virt_ok:
  assumes "bp.vm_inv vm r" and "0 < n" and "n \<le> 2 ^ 30"
    and "\<forall>i < 2 ^ log2ceil (of_nat n). vma_owned (page_at va i)" and k: "k = log2ceil (of_nat n)"
  shows "allocate_virt buddy_algorithm vm va (int n) = Inl NullDeref \<or>
     (\<exists>g vm'. allocate_virt buddy_algorithm vm va (int n) = Inr (True, vm') \<and> bp.vm_inv vm' r \<and>
        typed (types (pgalloc vm)) AVAILABLE g (2 ^ k) \<and> maps_run vm vm' (2 ^ k) va (pgd_to_pa g) \<and>
        g + 2 ^ k \<le> 2 ^ 20 \<and> keeps_data vm vm' r \<and>
        (\<forall>f. g \<le> f \<longrightarrow> f < g + 2 ^ k \<longrightarrow>
          data_frame (types (pgalloc vm')) (mem vm') r f \<and> (\<forall>i < 512. entry (mem vm') f i = 0)))"
proof -
  have k31: "k < 31"
    using log2ceil_bounds [OF assms(2,3)] k by blast
  have n36: "(2 :: nat) ^ k \<le> 2 ^ 36"
    using k31 by (intro power_increasing) simp_all
  show ?thesis
    using bp.allocate_phys_ok [OF assms(1) k31]
  proof (elim disjE exE conjE)
    assume "allocate_phys buddy_algorithm vm (int k) = Inl NullDeref"
    then show ?thesis
      using assms(2) k by (simp add: allocate_virt_def Let_def)
  next
    fix g vm1
    assume al: "allocate_phys buddy_algorithm vm (int k) = Inr (g, vm1)" and inv1: "bp.vm_inv vm1 r"
      and st: "same_tables 4 (mem vm) (mem vm1) r"
      and ty: "typed (types (pgalloc vm)) AVAILABLE g (2 ^ k)" and gb: "g + 2 ^ k \<le> 2 ^ 20"
      and kd: "keeps_data vm vm1 r" and ze: "\<forall>f i. i < 512 \<longrightarrow> g \<le> f \<longrightarrow> f < g + 2 ^ k \<longrightarrow> entry (mem vm1) f i = 0"
      and df: "\<forall>f. g \<le> f \<longrightarrow> f < g + 2 ^ k \<longrightarrow> data_frame (types (pgalloc vm1)) (mem vm1) r f"
    have same: "get_mapping vm1 va' = get_mapping vm va'" if o: "vma_owned va'" for va'
    proof -
      obtain i j k l where ix: "va_table_indicies va' = (i, j, k, l)"
        by (metis prod.collapse)
      note p = vma_owned_path [OF o ix]
      show ?thesis
        unfolding bp.get_mapping_leaf [OF inv1 ix p(1)] bp.get_mapping_leaf [OF assms(1) ix p(1)]
          leaf_cong [OF st p] ..
    qed
    have runs: "maps_run vm vm' m a c \<longleftrightarrow> maps_run vm1 vm' m a c" for vm' m a c
      using same by (auto simp: maps_run_def)
    show ?thesis
      using map_pages_ok [OF inv1 n36 assms(4) [folded k], of "pgd_to_pa g"]
    proof (elim disjE exE conjE)
      assume "map_pages buddy_algorithm (2 ^ k) vm1 va (pgd_to_pa g) = Inl NullDeref"
      then show ?thesis
        using al assms(2) k by (simp add: allocate_virt_def Let_def)
    next
      fix vm'
      assume m: "map_pages buddy_algorithm (2 ^ k) vm1 va (pgd_to_pa g) = Inr vm'" "bp.vm_inv vm' r"
        and run: "maps_run vm1 vm' (2 ^ k) va (pgd_to_pa g)" and kd': "keeps_data vm1 vm' r"
      have "data_frame (types (pgalloc vm')) (mem vm') r f \<and> (\<forall>i < 512. entry (mem vm') f i = 0)"
        if "g \<le> f" "f < g + 2 ^ k" for f
        using kd' df ze that by (simp add: keeps_data_def)
      then show ?thesis
        using al m run runs ty gb keeps_data_trans [OF kd kd'] assms(2) k by (auto simp: allocate_virt_def Let_def)
    qed
  qed
qed



section \<open>Copying to a mapped address\<close>

lemma bit_ff: "bit (0xff :: u64) n \<longleftrightarrow> n < 8"
proof -
  have "(0xff :: u64) = mask 8"
    by (simp add: mask_eq_exp_minus_1)
  then show ?thesis
    by (auto simp only: bit_mask_iff possible_bit_word) simp_all
qed

lemma bit_ff_int: "bit (0xff :: int) n \<longleftrightarrow> n < 8"
proof -
  have "(0xff :: int) = mask 8"
    by (simp add: mask_eq_exp_minus_1)
  then show ?thesis
    by (simp only: bit_mask_iff) simp
qed

lemma get_set_byte:
  assumes "i < 8" and "j < 8"
  shows "get_byte (set_byte w i b) j = (if j = i then b else get_byte w j)"
proof (rule bit_eqI)
  fix n
  assume "possible_bit TYPE(u8) n"
  then have n: "n < 8"
    by simp
  have "bit (set_byte w i b) (n + 8 * j) \<longleftrightarrow>
      (if 8 * i \<le> n + 8 * j \<and> n + 8 * j < 8 * i + 8 then bit b (n + 8 * j - 8 * i) else bit w (n + 8 * j))"
    using n assms by (auto simp: set_byte_def bit_or_iff bit_and_iff bit_not_iff bit_push_bit_iff bit_ff bit_ff_int bit_ucast_iff
        dest: bit_imp_le_length)
  moreover have "8 * i \<le> n + 8 * j \<and> n + 8 * j < 8 * i + 8 \<longleftrightarrow> j = i"
    using n by auto
  ultimately show "bit (get_byte (set_byte w i b) j) n = bit (if j = i then b else get_byte w j) n"
    using n by (auto simp: get_byte_def bit_ucast_iff bit_drop_bit_eq add.commute)
qed

lemma load_store_byte: "load_byte (store_byte m a b) x = (if x = a then b else load_byte m x)"
proof (cases "x div 8 = a div 8")
  case True
  then have "x = a \<longleftrightarrow> x mod 8 = a mod 8"
    by (metis mult_div_mod_eq)
  then show ?thesis
    using True get_set_byte [of "a mod 8" "x mod 8"] by (simp add: load_byte_def store_byte_def)
next
  case False
  then have "x \<noteq> a" "8 * (x div 8) \<noteq> 8 * (a div 8)"
    by auto
  then show ?thesis
    by (simp add: load_byte_def store_byte_def)
qed

lemma load_memcpy:
  "load_byte (memcpy_to m a bs) x = (if a \<le> x \<and> x < a + length bs then bs ! (x - a) else load_byte m x)"
  by (induction bs arbitrary: m a) (auto simp: load_store_byte nth_Cons')

text \<open>
  (\<open>vma.cpp\<close>, \<open>copy_to\<close>). copy_to writes the source bytes to consecutive physical addresses from the one its
  first address is mapped to, whatever the source's length: past the end of the page the bytes go to the next physical frame, and not to where the next virtual page is
  mapped. It returns false, and writes nothing, exactly when the first address is not mapped.
\<close>

theorem vma_copy_to_contiguous:
  assumes "copy_to vm va src = Inr (ok, vm')"
  shows "\<exists>m. get_mapping vm va = Inr m \<and> (ok \<longleftrightarrow> m \<noteq> None) \<and>
    (case m of
       None \<Rightarrow> vm' = vm
     | Some pa \<Rightarrow> (\<forall>x. load_byte (mem vm') x =
         (if unat pa \<le> x \<and> x < unat pa + length src then src ! (x - unat pa) else load_byte (mem vm) x)))"
proof (cases "get_mapping vm va")
  case (Inr m)
  show ?thesis
  proof (cases m)
    case None
    then show ?thesis
      using assms Inr by (simp add: copy_to_def)
  next
    case (Some pa)
    then obtain dest where d: "pa_to_vpa pa = Inr dest" "ok"
        "vm' = vm\<lparr>mem := memcpy_to (mem vm) (unat (dest - PMEM_VA_START)) src\<rparr>"
      using assms Inr by (auto simp: copy_to_def andthen_eq_Inr)
    have "dest - PMEM_VA_START = pa"
      using d(1) by (auto simp: pa_to_vpa_def andthen_eq_Inr)
    then show ?thesis
      using Inr Some d(2,3) by (simp add: load_memcpy)
  qed
qed (use assms in \<open>simp add: copy_to_def\<close>)

theorem vma_copy_to_contiguous_witness:
  "\<exists>vm r vm'. bp.vm_inv vm r \<and> copy_to vm 0x400000 [1, 2] = Inr (False, vm') \<and> vm' = vm"
proof -
  obtain vm r where vm: "bp.vm_inv vm r" "\<forall>q l. owned q \<longrightarrow> length q = 3 \<longrightarrow> leaf (mem vm) r q l = 0"
    using small_vma by blast
  have ix: "va_table_indicies 0x400000 = (0, 0, 2, 0)"
    by (simp add: indices_vpn vpn_def)
  note p = vma_owned_path [OF vma_owned_example(1) ix]
  have "get_mapping vm 0x400000 = Inr None"
    unfolding bp.get_mapping_leaf [OF vm(1) ix p(1)] using vm(2) p(1) by simp
  then have c: "copy_to vm 0x400000 [1, 2] = Inr (False, vm)"
    by (simp add: copy_to_def)
  show ?thesis
    using vma_copy_to_contiguous [OF c] vm(1) c by blast
qed

section \<open>The printed tables\<close>

lemma dump_pt_entry:
  "i < 512 \<Longrightarrow> get_flag (m (entry_at t i)) 0 \<Longrightarrow>
    (push_bit 36 (of_nat pml4) OR push_bit 28 (of_nat pdp) OR push_bit 20 (of_nat pd) OR push_bit 12 (of_nat i),
     get_base (m (entry_at t i))) \<in> set (dump_pt m pml4 pdp pd t)"
  by (auto simp: dump_pt_def Let_def intro!: bexI [of _ i])

text \<open>
  (\<open>vma.cpp\<close>, \<open>dump_pt\<close>). The addresses dump prints are built with shifts of 36, 28 and 20 instead of 39, 30
  and 21, so they are not the mapped addresses: the page at index 0 of the second page table, which is mapped at 0x200000, is printed
  as 0x100000, the address of another page, at index 256 of the first.
\<close>

theorem vma_dump_wrong_address:
  assumes "get_flag (m (entry_at t 0)) PRESENT"
  shows "(0x100000, get_base (m (entry_at t 0))) \<in> set (dump_pt m 0 0 1 t) \<and>
    va_table_indicies 0x200000 = (0, 0, 1, 0) \<and> va_table_indicies 0x100000 = (0, 0, 0, 256)"
proof -
  have "(push_bit 20 1 :: u64) = 0x100000"
    by (simp add: push_bit_eq_mult)
  then have "(0x100000, get_base (m (entry_at t 0))) \<in> set (dump_pt m 0 0 1 t)"
    using dump_pt_entry [of 0 m t 0 0 1] assms by simp
  then show ?thesis
    by (simp add: indices_vpn vpn_def)
qed

theorem vma_dump_wrong_address_witness:
  "(0x100000, 0x7000) \<in> set (dump_pt (\<lambda>_. 0x7001) 0 0 1 PMEM_VA_START)"
proof -
  have "get_flag 0x7001 PRESENT" "get_base 0x7001 = 0x7000"
    by (simp_all add: get_flag_def get_flags_def get_base_def)
  then show ?thesis
    using vma_dump_wrong_address [of "\<lambda>_. 0x7001" PMEM_VA_START] by simp
qed

end
