(* ===== verification/Devices.thy ===== *)
theory Devices
  imports Util_String Util_Map
begin

text \<open>
  Device classes and the device manager (\<open>infos/include/infos/drivers/device.h\<close>,
  \<open>infos/kernel/device-manager.cpp\<close>) and partitions of a block device
  (\<open>infos/drivers/block/block-device-partition.cpp\<close>). Classes and devices live in two lists and pointers to
  them are positions. A driver's \<open>init\<close>, which may register further devices, is a parameter.
\<close>

section \<open>Device classes\<close>

record DeviceClass =
  dc_parent :: ptr
  dc_name :: bytes
  dc_instance :: u64

definition class_at :: "DeviceClass list \<Rightarrow> nat \<Rightarrow> DeviceClass result" where
  "class_at cs c = (if c < length cs then Inr (cs ! c) else Inl Undefined)"

text \<open>The recursion follows the parent pointers; the fuel bounds its depth.\<close>

fun class_is :: "nat \<Rightarrow> DeviceClass list \<Rightarrow> nat \<Rightarrow> nat \<Rightarrow> bool result" where
  "class_is 0 cs this type = Inl Diverges"
| "class_is (Suc fuel) cs this type =
    (if this = type then Inr True
     else andthen (class_at cs this) (\<lambda>c. case dc_parent c of
         Some p \<Rightarrow> class_is fuel cs p type
       | None \<Rightarrow> Inr False))"

definition acquire_instance :: "DeviceClass list \<Rightarrow> nat \<Rightarrow> (u64 \<times> DeviceClass list) result" where
  "acquire_instance cs c =
    andthen (class_at cs c) (\<lambda>d.
      Inr (dc_instance d, cs[c := d\<lparr>dc_instance := dc_instance d + 1\<rparr>]))"

section \<open>The device manager\<close>

record Device =
  dev_name :: String
  dev_class :: nat

record DeviceManager =
  classes :: "DeviceClass list"
  device_heap :: "Device list"
  devices :: "(u64, nat) Map"

definition device_at :: "DeviceManager \<Rightarrow> nat \<Rightarrow> Device result" where
  "device_at dm d = (if d < length (device_heap dm) then Inr (device_heap dm ! d) else Inl Undefined)"

definition assign_name :: "DeviceManager \<Rightarrow> nat \<Rightarrow> String \<Rightarrow> DeviceManager result" where
  "assign_name dm d name =
    andthen (device_at dm d) (\<lambda>dev.
      Inr (dm\<lparr>device_heap := (device_heap dm)[d := dev\<lparr>dev_name := string_assign (dev_name dev) name\<rparr>]\<rparr>))"

definition get_name :: "DeviceManager \<Rightarrow> nat \<Rightarrow> String result" where
  "get_name dm d = andthen (device_at dm d) (\<lambda>dev. Inr (dev_name dev))"

text \<open>\<open>ToString\<close> takes an \<open>unsigned int\<close>, so the 64-bit instance number is cut to 32 bits.\<close>

definition register_device ::
    "(nat \<Rightarrow> DeviceManager \<Rightarrow> (bool \<times> DeviceManager) result) \<Rightarrow> bytes \<Rightarrow> DeviceManager \<Rightarrow> nat \<Rightarrow>
      (bool \<times> DeviceManager) result" where
  "register_device init garbage dm d =
    andthen (device_at dm d) (\<lambda>dev.
    andthen (acquire_instance (classes dm) (dev_class dev)) (\<lambda>(instance, cs).
    andthen (class_at cs (dev_class dev)) (\<lambda>c.
    andthen (String_cstr (Some (dc_name c))) (\<lambda>cname.
    andthen (ToString garbage (ucast instance)) (\<lambda>num.
    andthen (assign_name (dm\<lparr>classes := cs\<rparr>) d (string_append cname num)) (\<lambda>dm.
    andthen (get_name dm d) (\<lambda>name.
    andthen (Map_add (devices dm) (fst (get_hash name)) d) (\<lambda>ds.
    andthen (init d (dm\<lparr>devices := ds\<rparr>)) (\<lambda>(ok, dm).
      if \<not> ok then Inr (False, dm) else Inr (True, dm))))))))))"

definition add_device_alias :: "DeviceManager \<Rightarrow> String \<Rightarrow> nat \<Rightarrow> (bool \<times> DeviceManager) result" where
  "add_device_alias dm name d =
    andthen (Map_add (devices dm) (fst (get_hash name)) d) (\<lambda>ds. Inr (True, dm\<lparr>devices := ds\<rparr>))"

definition try_get_device_by_name :: "DeviceManager \<Rightarrow> String \<Rightarrow> ptr" where
  "try_get_device_by_name dm name = try_get_value (devices dm) (fst (get_hash name))"

primrec first_of_class :: "DeviceManager \<Rightarrow> nat \<Rightarrow> (u64 \<times> nat) list \<Rightarrow> ptr result" where
  "first_of_class dm type [] = Inr None"
| "first_of_class dm type (e # es) =
    andthen (device_at dm (snd e)) (\<lambda>dev.
    andthen (class_is (Suc (length (classes dm))) (classes dm) (dev_class dev) type) (\<lambda>b.
      if b then Inr (Some (snd e)) else first_of_class dm type es))"

definition try_get_device_by_class :: "DeviceManager \<Rightarrow> nat \<Rightarrow> ptr result" where
  "try_get_device_by_class dm type = first_of_class dm type (map_iterate (devices dm))"

section \<open>Partitions\<close>

text \<open>
  A block device is what its methods do to a device state \<open>'s\<close>: reading yields the blocks' bytes or fails,
  writing yields the new state or fails.
\<close>

record 's BlockDevice =
  bd_read :: "'s \<Rightarrow> u64 \<Rightarrow> u64 \<Rightarrow> bytes option"
  bd_write :: "'s \<Rightarrow> bytes \<Rightarrow> u64 \<Rightarrow> u64 \<Rightarrow> 's option"
  bd_block_size :: u64
  bd_block_count :: u64

definition BlockDevicePartition :: "'s BlockDevice \<Rightarrow> u64 \<Rightarrow> u64 \<Rightarrow> 's BlockDevice" where
  "BlockDevicePartition underlying block_offset block_count =
    \<lparr>bd_read = (\<lambda>s offset count. bd_read underlying s (block_offset + offset) count),
     bd_write = (\<lambda>s buffer offset count. bd_write underlying s buffer (block_offset + offset) count),
     bd_block_size = bd_block_size underlying,
     bd_block_count = block_count\<rparr>"

end
