(* ===== verification/Tarfs.thy ===== *)
theory Tarfs
  imports Util_String Util_Map
begin

text \<open>
  The TAR file system (\<open>coursework/tarfs.cpp\<close>, \<open>coursework/tarfs.h\<close>). The block device is a
  parameter: its block size and count and what reading a block yields (\<open>None\<close> when the read fails). The nodes of the tree are
  records in a list that stands for the heap, with pointers as positions; a
  node's children are a \<open>Map\<close> from name hashes to nodes, as in the source. Uninitialised arrays are parameters.
\<close>

section \<open>Octal numbers\<close>

text \<open>
  \<open>factor\<close> is an \<open>int\<close>: a shift or product that leaves its range is undefined. \<open>char\<close> is signed.
\<close>

definition int_in_range :: "int \<Rightarrow> bool" where
  "int_in_range x \<longleftrightarrow> - (2 ^ 31) \<le> x \<and> x < 2 ^ 31"

function octal_loop :: "bytes \<Rightarrow> nat \<Rightarrow> nat \<Rightarrow> u32 \<Rightarrow> int \<Rightarrow> u32 result" where
  "octal_loop data len i value factor =
    (if i < len then
       let ch = sint (data ! (len - i)); t = factor * (ch - 48)
       in andthen (check (int_in_range t) Undefined) (\<lambda>_.
          andthen (check (int_in_range (factor * 8)) Undefined) (\<lambda>_.
            octal_loop data len (Suc i) (value + of_int t) (factor * 8)))
     else Inr value)"
  by pat_completeness auto
termination
  by (relation "measure (\<lambda>(data, len, i, value, factor). len - i)") auto

declare octal_loop.simps [simp del]

definition octal2ui :: "bytes \<Rightarrow> u32 result" where
  "octal2ui data = andthen (strlen (Some data)) (\<lambda>len. octal_loop data len 1 0 1)"

section \<open>Header blocks\<close>

text \<open>A field of the header is read from its offset on; a string in it may run on to the end of the block.\<close>

definition hdr_name :: "bytes \<Rightarrow> bytes" where
  "hdr_name block = block"

definition hdr_size :: "bytes \<Rightarrow> bytes" where
  "hdr_size block = drop 124 block"

definition hdr_typeflag :: "bytes \<Rightarrow> u8 result" where
  "hdr_typeflag block = (if 156 < length block then Inr (block ! 156) else Inl OutOfBounds)"

definition is_zero_block :: "bytes \<Rightarrow> nat \<Rightarrow> bool result" where
  "is_zero_block buffer n =
    (if n \<le> length buffer then Inr (list_all (\<lambda>b. b = 0) (take n buffer)) else Inl OutOfBounds)"

record block_device =
  block_size :: nat
  block_count :: nat
  read_block :: "nat \<Rightarrow> bytes option"

text \<open>\<open>read_blocks(buffer, n, 1)\<close>: writes one block into the buffer, which must hold it.\<close>

definition read_blocks :: "block_device \<Rightarrow> bytes \<Rightarrow> nat \<Rightarrow> (bool \<times> bytes) result" where
  "read_blocks dev buffer n =
    (case read_block dev n of
       None \<Rightarrow> Inr (False, buffer)
     | Some data \<Rightarrow>
         if length data \<le> length buffer then Inr (True, data @ drop (length data) buffer)
         else Inl OutOfBounds)"

section \<open>Nodes\<close>

record TarFSNode =
  tn_parent :: ptr
  tn_children :: "(u64, nat) Map"
  tn_name :: String
  tn_size :: u32
  tn_has_block_offset :: bool
  tn_block_offset :: u32

type_synonym tarfs_heap = "TarFSNode list"

definition node_at :: "tarfs_heap \<Rightarrow> nat \<Rightarrow> TarFSNode result" where
  "node_at fs p = (if p < length fs then Inr (fs ! p) else Inl Undefined)"

definition TarFSNode_new :: "tarfs_heap \<Rightarrow> ptr \<Rightarrow> String \<Rightarrow> nat \<times> tarfs_heap" where
  "TarFSNode_new fs parent name =
    (length fs, fs @ [\<lparr>tn_parent = parent, tn_children = map_empty, tn_name = String_copy name, tn_size = 0,
       tn_has_block_offset = False, tn_block_offset = 0\<rparr>])"

definition get_child :: "tarfs_heap \<Rightarrow> nat \<Rightarrow> String \<Rightarrow> ptr result" where
  "get_child fs p name =
    andthen (node_at fs p) (\<lambda>n. Inr (try_get_value (tn_children n) (fst (get_hash name))))"

definition add_child :: "tarfs_heap \<Rightarrow> nat \<Rightarrow> String \<Rightarrow> nat \<Rightarrow> tarfs_heap result" where
  "add_child fs p name c =
    andthen (node_at fs p) (\<lambda>n. andthen (Map_add (tn_children n) (fst (get_hash name)) c) (\<lambda>m.
      Inr (fs[p := n\<lparr>tn_children := m\<rparr>])))"

definition set_block_offset :: "tarfs_heap \<Rightarrow> nat \<Rightarrow> u32 \<Rightarrow> tarfs_heap result" where
  "set_block_offset fs p offset =
    andthen (node_at fs p) (\<lambda>n.
      Inr (fs[p := n\<lparr>tn_has_block_offset := True, tn_block_offset := offset\<rparr>]))"

definition set_size :: "tarfs_heap \<Rightarrow> nat \<Rightarrow> u32 \<Rightarrow> tarfs_heap result" where
  "set_size fs p sz = andthen (node_at fs p) (\<lambda>n. Inr (fs[p := n\<lparr>tn_size := sz\<rparr>]))"

definition tarfs_mkdir :: "tarfs_heap \<Rightarrow> nat \<Rightarrow> String \<Rightarrow> ptr" where
  "tarfs_mkdir fs p name = None"

section \<open>Building the tree\<close>

primrec descend :: "String list \<Rightarrow> tarfs_heap \<Rightarrow> nat \<Rightarrow> (nat \<times> tarfs_heap) result" where
  "descend [] fs prevRoot = Inr (prevRoot, fs)"
| "descend (folderName # path) fs prevRoot =
    andthen (get_child fs prevRoot folderName) (\<lambda>r. case r of
        Some node \<Rightarrow> descend path fs node
      | None \<Rightarrow>
          (case TarFSNode_new fs (Some prevRoot) folderName of (node, fs) \<Rightarrow>
             andthen (add_child fs prevRoot folderName node) (\<lambda>fs. descend path fs node)))"

definition slash :: u8 where "slash = 47"

definition BuildTreeRecursive :: "nat \<Rightarrow> tarfs_heap \<Rightarrow> nat \<Rightarrow> bytes \<Rightarrow> u32 \<Rightarrow> tarfs_heap result" where
  "BuildTreeRecursive fuel fs root header blockno =
    andthen (String_cstr (Some (hdr_name header))) (\<lambda>name.
    andthen (split fuel name slash False) (\<lambda>path.
    andthen (descend (elems path) fs root) (\<lambda>(prevRoot, fs).
    andthen (set_block_offset fs prevRoot blockno) (\<lambda>fs.
    andthen (octal2ui (hdr_size header)) (\<lambda>sz. set_size fs prevRoot sz)))))"

text \<open>
  \<open>blockCount\<close> is 32 bits wide. The fuel bounds the iterations; a name has at most 512 characters, so 513
  iterations of \<open>split\<close> are enough for it.
\<close>

fun build_loop :: "nat \<Rightarrow> block_device \<Rightarrow> nat \<Rightarrow> u32 \<Rightarrow> bytes \<Rightarrow> tarfs_heap \<Rightarrow> (ptr \<times> tarfs_heap) result" where
  "build_loop 0 dev root blockCount buffer fs = Inl Diverges"
| "build_loop (Suc fuel) dev root blockCount buffer fs =
    (if \<not> unat blockCount < block_count dev then Inr (Some root, fs)
     else andthen (read_blocks dev buffer (unat blockCount)) (\<lambda>(ok, buffer).
       if \<not> ok then Inr (None, fs)
       else andthen (is_zero_block buffer 512) (\<lambda>z.
         if z then Inr (Some root, fs)
         else andthen (octal2ui (hdr_size buffer)) (\<lambda>blockToRead.
              andthen (hdr_typeflag buffer) (\<lambda>typeflag.
              andthen (if typeflag = 48 then BuildTreeRecursive 513 fs root buffer blockCount else Inr fs) (\<lambda>fs.
                build_loop fuel dev root
                  (blockCount + (blockToRead div 512 + (if blockToRead mod 512 \<noteq> 0 then 1 else 0)) + 1)
                  buffer fs))))))"

definition build_tree :: "nat \<Rightarrow> block_device \<Rightarrow> bytes \<Rightarrow> tarfs_heap \<Rightarrow> (ptr \<times> tarfs_heap) result" where
  "build_tree fuel dev garbage fs =
    (case TarFSNode_new fs None (string_of []) of (root, fs) \<Rightarrow>
       build_loop fuel dev root 0 (take 512 garbage) fs)"

record TarFS =
  root_node :: ptr
  nodes :: tarfs_heap

definition TarFS_new :: TarFS where
  "TarFS_new = \<lparr>root_node = None, nodes = []\<rparr>"

definition tarfs_mount :: "nat \<Rightarrow> block_device \<Rightarrow> bytes \<Rightarrow> TarFS \<Rightarrow> (ptr \<times> TarFS) result" where
  "tarfs_mount fuel dev garbage t =
    (case root_node t of
       None \<Rightarrow> andthen (build_tree fuel dev garbage (nodes t)) (\<lambda>(r, fs).
         Inr (r, t\<lparr>root_node := r, nodes := fs\<rparr>))
     | Some r \<Rightarrow> Inr (Some r, t))"

section \<open>Files\<close>

record TarFSFile =
  hdr :: bytes
  file_start_block :: u32
  cur_pos :: u32

definition TarFSFile_new :: "block_device \<Rightarrow> bytes \<Rightarrow> u32 \<Rightarrow> TarFSFile result" where
  "TarFSFile_new dev garbage file_header_block =
    andthen (read_blocks dev (take (block_size dev) garbage) (unat file_header_block)) (\<lambda>(ok, h).
      Inr \<lparr>hdr = h, file_start_block = file_header_block + 1, cur_pos = 0\<rparr>)"

definition file_size :: "TarFSFile \<Rightarrow> u32 result" where
  "file_size f = octal2ui (hdr_size (hdr f))"

text \<open>\<open>memcpy(to + i, from + j, n)\<close>.\<close>

definition memcpy_at :: "bytes \<Rightarrow> nat \<Rightarrow> bytes \<Rightarrow> nat \<Rightarrow> nat \<Rightarrow> bytes result" where
  "memcpy_at to i from j n =
    (if i + n \<le> length to \<and> j + n \<le> length from
     then Inr (take i to @ take n (drop j from) @ drop (i + n) to) else Inl OutOfBounds)"

definition min64 :: "u64 \<Rightarrow> u64 \<Rightarrow> u64" where
  "min64 x y = (if x < y then x else y)"

fun pread_loop ::
    "nat \<Rightarrow> block_device \<Rightarrow> u32 \<Rightarrow> bytes \<Rightarrow> bytes \<Rightarrow> u64 \<Rightarrow> u64 \<Rightarrow> u32 \<Rightarrow> (u32 \<times> bytes) result" where
  "pread_loop 0 dev start buffer fromBuffer sz off readNum = Inl Diverges"
| "pread_loop (Suc fuel) dev start buffer fromBuffer sz off readNum =
    (if \<not> ucast readNum < sz then Inr (readNum, buffer)
     else
       let bufferSize = of_nat (block_size dev) :: u64;
           discardedContents = ucast (off div bufferSize) :: u32;
           actualReadContents = ucast (off mod bufferSize) :: u32
       in andthen (check (bufferSize \<noteq> 0) Undefined) (\<lambda>_.
          andthen (read_blocks dev buffer (unat (start + discardedContents))) (\<lambda>(ok, buffer).
            if \<not> ok then Inr (readNum, buffer)
            else
              let filePage = min64 (ucast (512 - actualReadContents)) (sz - ucast readNum)
              in andthen (memcpy_at buffer (unat readNum) fromBuffer (unat actualReadContents) (unat filePage))
                   (\<lambda>buffer. pread_loop fuel dev start buffer fromBuffer sz (off + filePage)
                      (readNum + ucast filePage)))))"

definition pread ::
    "nat \<Rightarrow> block_device \<Rightarrow> TarFSFile \<Rightarrow> bytes \<Rightarrow> bytes \<Rightarrow> u64 \<Rightarrow> u64 \<Rightarrow> (u32 \<times> bytes) result" where
  "pread fuel dev f buffer garbage sz off =
    andthen (file_size f) (\<lambda>fsz.
      if off \<ge> ucast fsz then Inr (0, buffer)
      else pread_loop fuel dev (file_start_block f) buffer (take (block_size dev) garbage) sz off 0)"

definition tarfs_read ::
    "nat \<Rightarrow> block_device \<Rightarrow> TarFSFile \<Rightarrow> bytes \<Rightarrow> bytes \<Rightarrow> u64 \<Rightarrow> (u32 \<times> bytes \<times> TarFSFile) result" where
  "tarfs_read fuel dev f buffer garbage sz =
    andthen (pread fuel dev f buffer garbage sz (ucast (cur_pos f))) (\<lambda>(rc, buffer).
      Inr (rc, buffer, f\<lparr>cur_pos := cur_pos f + rc\<rparr>))"

datatype SeekType = SeekAbsolute | SeekRelative

definition seek :: "TarFSFile \<Rightarrow> u64 \<Rightarrow> SeekType \<Rightarrow> TarFSFile result" where
  "seek f offset type =
    (let f = (case type of
           SeekAbsolute \<Rightarrow> f\<lparr>cur_pos := ucast offset\<rparr>
         | SeekRelative \<Rightarrow> f\<lparr>cur_pos := cur_pos f + ucast offset\<rparr>)
     in andthen (file_size f) (\<lambda>fsz.
          Inr (if cur_pos f \<ge> fsz then f\<lparr>cur_pos := fsz - 1\<rparr> else f)))"

definition tarfs_open :: "block_device \<Rightarrow> bytes \<Rightarrow> tarfs_heap \<Rightarrow> nat \<Rightarrow> TarFSFile option result" where
  "tarfs_open dev garbage fs p =
    andthen (node_at fs p) (\<lambda>n.
      if \<not> tn_has_block_offset n then Inr None
      else andthen (TarFSFile_new dev garbage (tn_block_offset n)) (\<lambda>f. Inr (Some f)))"

section \<open>Directories\<close>

record TarFSDirectory =
  entries :: "(String \<times> u32) list"
  nr_entries :: u32
  cur_entry :: u32

primrec fill_entries ::
    "tarfs_heap \<Rightarrow> (u64 \<times> nat) list \<Rightarrow> nat \<Rightarrow> (String \<times> u32) list \<Rightarrow> (String \<times> u32) list result" where
  "fill_entries fs [] i es = Inr es"
| "fill_entries fs (c # cs) i es =
    andthen (node_at fs (snd c)) (\<lambda>n.
      if i < length es
      then fill_entries fs cs (Suc i) (es[i := (string_assign (fst (es ! i)) (tn_name n), tn_size n)])
      else Inl OutOfBounds)"

definition TarFSDirectory_new :: "tarfs_heap \<Rightarrow> nat \<Rightarrow> u32 \<Rightarrow> TarFSDirectory result" where
  "TarFSDirectory_new fs p garbage =
    andthen (node_at fs p) (\<lambda>n.
    andthen (fill_entries fs (map_iterate (tn_children n)) 0
               (replicate (unat (map_count (tn_children n))) (String_empty, garbage))) (\<lambda>es.
      Inr \<lparr>entries = es, nr_entries = map_count (tn_children n), cur_entry = 0\<rparr>))"

definition read_entry :: "TarFSDirectory \<Rightarrow> ((String \<times> u32) option \<times> TarFSDirectory) result" where
  "read_entry d =
    (if cur_entry d < nr_entries d then
       if unat (cur_entry d) < length (entries d)
       then Inr (Some (entries d ! unat (cur_entry d)), d\<lparr>cur_entry := cur_entry d + 1\<rparr>)
       else Inl OutOfBounds
     else Inr (None, d))"

definition opendir :: "tarfs_heap \<Rightarrow> nat \<Rightarrow> u32 \<Rightarrow> TarFSDirectory option result" where
  "opendir fs p garbage =
    andthen (node_at fs p) (\<lambda>n.
      if tn_has_block_offset n then Inr None
      else andthen (TarFSDirectory_new fs p garbage) (\<lambda>d. Inr (Some d)))"

end
