(* ===== verification/Vfs.thy ===== *)
theory Vfs
  imports Devices Tarfs
begin

text \<open>
  The virtual file system (\<open>infos/fs/vfs.cpp\<close>, \<open>vfs-node.cpp\<close>) and the file systems below it:
  rootfs, tmpfs, devfs, vfat and, from \<open>Tarfs\<close>, tarfs. A \<open>PFSNode *\<close> is a value of a datatype with one
  constructor per class; the nodes that carry state (tmpfs and tarfs nodes) are positions in a
  list, the others have nothing but their class, or the device they stand on (a tarfs node has both). The \<open>VFSNode\<close> objects live in a list too.
\<close>

section \<open>Nodes and file systems\<close>

datatype PFSNode =
    RootFSNode
  | TempFSNode nat
  | DeviceFSRootNode
  | DeviceFSNode nat
  | VFATNode
  | TarNode nat nat

record TempFSNodeObj =
  tmp_name :: String
  tmp_children :: "(u64, nat) Map"

record VFSNode =
  vn_parent :: ptr
  vn_pn :: "PFSNode option"
  vn_children :: "(u64, nat) Map"

datatype Filesystem = RootFS | TempFS | DeviceFS | VFAT nat | TarFSOn nat

datatype FsKind = Rootfs | Tmpfs | Devfs | Vfat | Tarfs

record FilesystemRegistration =
  reg_name :: bytes
  reg_fs :: FsKind

record Vfs =
  filesystems :: "FilesystemRegistration List"
  root_vnode :: ptr
  vnodes :: "VFSNode list"
  tmp_nodes :: "TempFSNodeObj list"
  tar_nodes :: tarfs_heap
  dev_manager :: DeviceManager

text \<open>\<open>open_as_file\<close> is overridden by two drivers: a terminal (named by its number) and the real-time clock.\<close>

datatype device_kind = TerminalDevice nat | RTCDevice | OtherDevice

datatype File = TerminalFile nat | RTCFile | TarFile nat TarFSFile

fun open_as_file :: "device_kind \<Rightarrow> File option" where
  "open_as_file (TerminalDevice t) = Some (TerminalFile t)"
| "open_as_file RTCDevice = Some RTCFile"
| "open_as_file OtherDevice = None"

text \<open>
  What the file systems get from outside: the block device behind a device, the position of the block device class, the
  driver behind a device, the fuel of the tar header loop, and the contents of uninitialised memory.
\<close>

record fs_env =
  block_dev :: "nat \<Rightarrow> block_device"
  block_class :: nat
  kind_of :: "nat \<Rightarrow> device_kind"
  tar_fuel :: nat
  junk :: bytes
  junk_word :: u32

section \<open>Directories listed in advance\<close>

type_synonym DirectoryEntry = "String \<times> u32"

record SimpleDirectory =
  sd_entries :: "DirectoryEntry List"
  sd_current :: u32

datatype Directory = SimpleDir SimpleDirectory | TarDir TarFSDirectory

definition SimpleDirectory_new :: SimpleDirectory where
  "SimpleDirectory_new = \<lparr>sd_entries = List_new, sd_current = 0\<rparr>"

definition sd_read_entry :: "SimpleDirectory \<Rightarrow> (DirectoryEntry option \<times> SimpleDirectory) result" where
  "sd_read_entry d =
    (if sd_current d < lcount (sd_entries d)
     then andthen (list_at (sd_entries d) (sint (sd_current d))) (\<lambda>e.
       Inr (Some e, d\<lparr>sd_current := sd_current d + 1\<rparr>))
     else Inr (None, d))"

definition sd_close :: "SimpleDirectory \<Rightarrow> SimpleDirectory" where
  "sd_close d = d\<lparr>sd_entries := list_clear (sd_entries d)\<rparr>"

definition sd_add_entry :: "SimpleDirectory \<Rightarrow> DirectoryEntry \<Rightarrow> SimpleDirectory" where
  "sd_add_entry d e = d\<lparr>sd_entries := list_append (sd_entries d) (String_copy (fst e), snd e)\<rparr>"

definition tmp_at :: "Vfs \<Rightarrow> nat \<Rightarrow> TempFSNodeObj result" where
  "tmp_at st t = (if t < length (tmp_nodes st) then Inr (tmp_nodes st ! t) else Inl Undefined)"

definition TempFSDirectory_new :: "Vfs \<Rightarrow> nat \<Rightarrow> SimpleDirectory result" where
  "TempFSDirectory_new st t =
    andthen (tmp_at st t) (\<lambda>n.
      fold_result (\<lambda>d child. andthen (tmp_at st (snd child)) (\<lambda>c.
          Inr (sd_add_entry d (string_assign String_empty (tmp_name c), 0))))
        SimpleDirectory_new (map_iterate (tmp_children n)))"

definition DeviceFSDirectory_new :: "Vfs \<Rightarrow> SimpleDirectory result" where
  "DeviceFSDirectory_new st =
    fold_result (\<lambda>d device. andthen (device_at (dev_manager st) (snd device)) (\<lambda>dev.
        Inr (sd_add_entry d (string_assign String_empty (dev_name dev), 0))))
      SimpleDirectory_new (map_iterate (devices (dev_manager st)))"

section \<open>Physical nodes\<close>

definition TempFSNode_new :: "Vfs \<Rightarrow> String \<Rightarrow> nat \<times> Vfs" where
  "TempFSNode_new st name =
    (length (tmp_nodes st),
     st\<lparr>tmp_nodes := tmp_nodes st @ [\<lparr>tmp_name = String_copy name, tmp_children = map_empty\<rparr>]\<rparr>)"

fun pfs_get_child :: "Vfs \<Rightarrow> PFSNode \<Rightarrow> String \<Rightarrow> PFSNode option result" where
  "pfs_get_child st RootFSNode name = Inr None"
| "pfs_get_child st (TempFSNode t) name =
    andthen (tmp_at st t) (\<lambda>n. Inr (map_option TempFSNode (try_get_value (tmp_children n) (fst (get_hash name)))))"
| "pfs_get_child st DeviceFSRootNode name =
    Inr (map_option DeviceFSNode (try_get_device_by_name (dev_manager st) name))"
| "pfs_get_child st (DeviceFSNode d) name = Inr None"
| "pfs_get_child st VFATNode name = Inr None"
| "pfs_get_child st (TarNode dv t) name =
    andthen (get_child (tar_nodes st) t name) (\<lambda>c. Inr (map_option (TarNode dv) c))"

fun pfs_mkdir :: "Vfs \<Rightarrow> PFSNode \<Rightarrow> String \<Rightarrow> (PFSNode option \<times> Vfs) result" where
  "pfs_mkdir st (TempFSNode t) name =
    (case TempFSNode_new st name of (dir, st) \<Rightarrow>
      andthen (tmp_at st t) (\<lambda>n.
      andthen (Map_add (tmp_children n) (fst (get_hash name)) dir) (\<lambda>m.
        Inr (Some (TempFSNode dir), st\<lparr>tmp_nodes := (tmp_nodes st)[t := n\<lparr>tmp_children := m\<rparr>]\<rparr>))))"
| "pfs_mkdir st (TarNode dv t) name = Inr (map_option (TarNode dv) (tarfs_mkdir (tar_nodes st) t name), st)"
| "pfs_mkdir st _ name = Inr (None, st)"

fun pfs_open :: "fs_env \<Rightarrow> Vfs \<Rightarrow> PFSNode \<Rightarrow> File option result" where
  "pfs_open env st (DeviceFSNode d) = Inr (open_as_file (kind_of env d))"
| "pfs_open env st (TarNode dv t) =
    andthen (tarfs_open (block_dev env dv) (junk env) (tar_nodes st) t) (\<lambda>f. Inr (map_option (TarFile dv) f))"
| "pfs_open env st _ = Inr None"

fun pfs_opendir :: "fs_env \<Rightarrow> Vfs \<Rightarrow> PFSNode \<Rightarrow> Directory option result" where
  "pfs_opendir env st (TempFSNode t) = andthen (TempFSDirectory_new st t) (\<lambda>d. Inr (Some (SimpleDir d)))"
| "pfs_opendir env st DeviceFSRootNode = andthen (DeviceFSDirectory_new st) (\<lambda>d. Inr (Some (SimpleDir d)))"
| "pfs_opendir env st (TarNode dv t) =
    andthen (opendir (tar_nodes st) t (junk_word env)) (\<lambda>d. Inr (map_option TarDir d))"
| "pfs_opendir env st _ = Inr None"

section \<open>Creating and mounting file systems\<close>

fun fs_create :: "fs_env \<Rightarrow> Vfs \<Rightarrow> FsKind \<Rightarrow> ptr \<Rightarrow> Filesystem option result" where
  "fs_create env st Rootfs dev = Inr (Some RootFS)"
| "fs_create env st Tmpfs dev = Inr (Some TempFS)"
| "fs_create env st Devfs dev = Inr (Some DeviceFS)"
| "fs_create env st Vfat dev =
    andthen (deref dev) (\<lambda>d.
    andthen (device_at (dev_manager st) d) (\<lambda>dv.
    andthen (class_is (Suc (length (classes (dev_manager st)))) (classes (dev_manager st)) (dev_class dv) (block_class env)) (\<lambda>b.
      Inr (if \<not> b then None else Some (VFAT d)))))"
| "fs_create env st Tarfs dev =
    andthen (deref dev) (\<lambda>d.
    andthen (device_at (dev_manager st) d) (\<lambda>dv.
    andthen (class_is (Suc (length (classes (dev_manager st)))) (classes (dev_manager st)) (dev_class dv) (block_class env)) (\<lambda>b.
      Inr (if \<not> b then None else Some (TarFSOn d)))))"

definition vfat_mount :: "block_device \<Rightarrow> bytes \<Rightarrow> PFSNode option result" where
  "vfat_mount dev garbage =
    (if block_size dev \<noteq> 512 then Inr None
     else andthen (read_blocks dev (take 512 garbage) 0) (\<lambda>(ok, boot_block).
       if \<not> ok then Inr None
       else if boot_block ! 510 \<noteq> 0x55 \<or> boot_block ! 511 \<noteq> 0xaa then Inr None
       else Inr (Some VFATNode)))"

fun fs_mount :: "fs_env \<Rightarrow> Vfs \<Rightarrow> Filesystem \<Rightarrow> (PFSNode option \<times> Vfs) result" where
  "fs_mount env st RootFS = Inr (Some RootFSNode, st)"
| "fs_mount env st TempFS =
    (case TempFSNode_new st (string_of []) of (t, st) \<Rightarrow> Inr (Some (TempFSNode t), st))"
| "fs_mount env st DeviceFS = Inr (Some DeviceFSRootNode, st)"
| "fs_mount env st (VFAT d) = andthen (vfat_mount (block_dev env d) (junk env)) (\<lambda>p. Inr (p, st))"
| "fs_mount env st (TarFSOn d) =
    andthen (build_tree (tar_fuel env) (block_dev env d) (junk env) (tar_nodes st)) (\<lambda>(r, fs).
      Inr (map_option (TarNode d) r, st\<lparr>tar_nodes := fs\<rparr>))"

section \<open>Virtual nodes\<close>

definition vnode_at :: "Vfs \<Rightarrow> nat \<Rightarrow> VFSNode result" where
  "vnode_at st v = (if v < length (vnodes st) then Inr (vnodes st ! v) else Inl Undefined)"

definition VFSNode_new :: "Vfs \<Rightarrow> ptr \<Rightarrow> PFSNode \<Rightarrow> nat \<times> Vfs" where
  "VFSNode_new st parent pn =
    (length (vnodes st),
     st\<lparr>vnodes := vnodes st @ [\<lparr>vn_parent = parent, vn_pn = Some pn, vn_children = map_empty\<rparr>]\<rparr>)"

definition vfs_get_child :: "Vfs \<Rightarrow> nat \<Rightarrow> String \<Rightarrow> (ptr \<times> Vfs) result" where
  "vfs_get_child st v name =
    andthen (vnode_at st v) (\<lambda>n. case vn_pn n of
        None \<Rightarrow> Inr (None, st)
      | Some pn \<Rightarrow>
          (case try_get_value (vn_children n) (fst (get_hash name)) of
             Some child \<Rightarrow> Inr (Some child, st)
           | None \<Rightarrow>
               andthen (pfs_get_child st pn name) (\<lambda>assoc. case assoc of
                   None \<Rightarrow> Inr (None, st)
                 | Some a \<Rightarrow>
                     (case VFSNode_new st (Some v) a of (child, st) \<Rightarrow>
                       andthen (Map_add (vn_children n) (fst (get_hash name)) child) (\<lambda>m.
                         Inr (Some child, st\<lparr>vnodes := (vnodes st)[v := n\<lparr>vn_children := m\<rparr>]\<rparr>))))))"

definition vfs_mkdir :: "Vfs \<Rightarrow> nat \<Rightarrow> String \<Rightarrow> (ptr \<times> Vfs) result" where
  "vfs_mkdir st v name =
    andthen (vnode_at st v) (\<lambda>n. case vn_pn n of
        None \<Rightarrow> Inr (None, st)
      | Some pn \<Rightarrow> andthen (pfs_mkdir st pn name) (\<lambda>(dir, st). case dir of
            None \<Rightarrow> Inr (None, st)
          | Some _ \<Rightarrow> vfs_get_child st v name))"

section \<open>The file system table\<close>

primrec lookup_fs_in :: "FilesystemRegistration list \<Rightarrow> String \<Rightarrow> FilesystemRegistration option result" where
  "lookup_fs_in [] fstype = Inr None"
| "lookup_fs_in (reg # regs) fstype =
    andthen (strncmp (Some (reg_name reg)) (c_str fstype) 16) (\<lambda>c.
      if c = 0 then Inr (Some reg) else lookup_fs_in regs fstype)"

definition lookup_fs :: "Vfs \<Rightarrow> String \<Rightarrow> FilesystemRegistration option result" where
  "lookup_fs st fstype = lookup_fs_in (elems (filesystems st)) fstype"

definition instantiate_fs :: "fs_env \<Rightarrow> Vfs \<Rightarrow> bytes \<Rightarrow> ptr \<Rightarrow> Filesystem option result" where
  "instantiate_fs env st fstype dev =
    andthen (String_cstr (Some fstype)) (\<lambda>s.
    andthen (lookup_fs st s) (\<lambda>r. case r of
        None \<Rightarrow> Inr None
      | Some fsreg \<Rightarrow> fs_create env st (reg_fs fsreg) dev))"

text \<open>\<open>VFSNode::mount\<close>: the node's own tree is replaced, its cached children are dropped.\<close>

definition vfs_mount :: "fs_env \<Rightarrow> Vfs \<Rightarrow> nat \<Rightarrow> String \<Rightarrow> ptr \<Rightarrow> (Filesystem option \<times> Vfs) result" where
  "vfs_mount env st v fstype dev =
    andthen (lookup_fs st fstype) (\<lambda>r. case r of
        None \<Rightarrow> Inr (None, st)
      | Some fsreg \<Rightarrow> andthen (fs_create env st (reg_fs fsreg) dev) (\<lambda>f. case f of
            None \<Rightarrow> Inr (None, st)
          | Some fs \<Rightarrow> andthen (fs_mount env st fs) (\<lambda>(pn, st). case pn of
                None \<Rightarrow> Inr (None, st)
              | Some p \<Rightarrow> andthen (vnode_at st v) (\<lambda>n.
                  Inr (Some fs, st\<lparr>vnodes := (vnodes st)[v := n\<lparr>vn_pn := Some p,
                    vn_children := map_clear (vn_children n)\<rparr>]\<rparr>)))))"

definition rootfs_name :: bytes where
  "rootfs_name = [114, 111, 111, 116, 102, 115, 0]"

definition vfs_init :: "fs_env \<Rightarrow> FilesystemRegistration list \<Rightarrow> Vfs \<Rightarrow> (bool \<times> Vfs) result" where
  "vfs_init env regs st =
    (let st = st\<lparr>filesystems := foldl list_append (filesystems st) regs\<rparr>
     in andthen (instantiate_fs env st rootfs_name None) (\<lambda>rootfs.
        andthen (deref rootfs) (\<lambda>fs.
        andthen (fs_mount env st fs) (\<lambda>(pn, st). case pn of
            None \<Rightarrow> Inr (False, st)
          | Some p \<Rightarrow> (case VFSNode_new st None p of (v, st) \<Rightarrow> Inr (True, st\<lparr>root_vnode := Some v\<rparr>))))))"

section \<open>Paths\<close>

text \<open>
  The inner loop of \<open>lookup_node\<close> copies the characters up to the next slash or the end of the path into
  \<open>component\<close>, an array of 256 bytes, and writes the terminator after them.
\<close>

fun copy_component :: "bytes \<Rightarrow> bytes \<Rightarrow> nat \<Rightarrow> (bytes \<times> nat \<times> bytes) result" where
  "copy_component [] component i = Inl OutOfBounds"
| "copy_component (c # path) component i =
    (if c \<noteq> 0 \<and> c \<noteq> slash
     then andthen (put component i c) (\<lambda>component. copy_component path component (Suc i))
     else Inr (component, i, c # path))"

fun lookup_loop :: "nat \<Rightarrow> Vfs \<Rightarrow> bytes \<Rightarrow> bytes \<Rightarrow> nat \<Rightarrow> (ptr \<times> Vfs) result" where
  "lookup_loop 0 st component path current_node = Inl Diverges"
| "lookup_loop (Suc fuel) st component path current_node =
    andthen (copy_component path component 0) (\<lambda>(component, i, path).
    andthen (put component i 0) (\<lambda>component.
    andthen (deref (case path of [] \<Rightarrow> None | c # cs \<Rightarrow> Some (if c = slash then cs else path))) (\<lambda>path.
    andthen (strlen (Some component)) (\<lambda>n.
      if n = 0 then Inr (Some current_node, st)
      else andthen (String_cstr (Some component)) (\<lambda>name.
        andthen (vfs_get_child st current_node name) (\<lambda>(child, st). case child of
            None \<Rightarrow> Inr (None, st)
          | Some v \<Rightarrow> lookup_loop fuel st component path v))))))"

definition lookup_node :: "bytes \<Rightarrow> Vfs \<Rightarrow> String \<Rightarrow> (ptr \<times> Vfs) result" where
  "lookup_node garbage st spath =
    andthen (deref (c_str spath)) (\<lambda>path. case path of
        [] \<Rightarrow> Inl OutOfBounds
      | c # cs \<Rightarrow>
          if c = 0 then Inr (None, st)
          else if c \<noteq> slash then Inr (None, st)
          else (case cs of
              [] \<Rightarrow> Inl OutOfBounds
            | d # ds \<Rightarrow>
                if d = 0 then Inr (root_vnode st, st)
                else andthen (deref (root_vnode st)) (\<lambda>r. lookup_loop (length path) st (take 256 garbage) cs r)))"

definition vfs_open :: "fs_env \<Rightarrow> Vfs \<Rightarrow> String \<Rightarrow> (File option \<times> Vfs) result" where
  "vfs_open env st path =
    andthen (lookup_node (junk env) st path) (\<lambda>(node, st). case node of
        None \<Rightarrow> Inr (None, st)
      | Some v \<Rightarrow> andthen (vnode_at st v) (\<lambda>n. case vn_pn n of
            None \<Rightarrow> Inr (None, st)
          | Some pn \<Rightarrow> andthen (pfs_open env st pn) (\<lambda>f. Inr (f, st))))"

definition vfs_opendir :: "fs_env \<Rightarrow> Vfs \<Rightarrow> String \<Rightarrow> (Directory option \<times> Vfs) result" where
  "vfs_opendir env st path =
    andthen (lookup_node (junk env) st path) (\<lambda>(node, st). case node of
        None \<Rightarrow> Inr (None, st)
      | Some v \<Rightarrow> andthen (vnode_at st v) (\<lambda>n. case vn_pn n of
            None \<Rightarrow> Inr (None, st)
          | Some pn \<Rightarrow> andthen (pfs_opendir env st pn) (\<lambda>d. Inr (d, st))))"

end
