(* ===== verification/Tree_Walk.thy ===== *)
theory Tree_Walk
  imports Prelude
begin

text \<open>
  Trees of nodes in a heap, as the file systems build them: following the child pointers along a
  path of keys, and the effect of hanging a fresh node below an existing one.
\<close>

fun walk :: "('n \<Rightarrow> 'k \<Rightarrow> 'n option) \<Rightarrow> 'n \<Rightarrow> 'k list \<Rightarrow> 'n option" where
  "walk c n [] = Some n"
| "walk c n (k # ks) = (case c n k of None \<Rightarrow> None | Some m \<Rightarrow> walk c m ks)"

lemma tree_walk_append: "walk c n (p @ q) = (case walk c n p of None \<Rightarrow> None | Some m \<Rightarrow> walk c m q)"
  by (induction c n p rule: walk.induct) (auto split: option.splits)

lemma walk_snoc: "walk c n (p @ [k]) = (case walk c n p of None \<Rightarrow> None | Some m \<Rightarrow> c m k)"
  by (simp add: tree_walk_append split: option.splits)

text \<open>Every node is reached along one path.\<close>

definition unique_paths :: "('n \<Rightarrow> 'k \<Rightarrow> 'n option) \<Rightarrow> 'n \<Rightarrow> bool" where
  "unique_paths c r \<longleftrightarrow> (\<forall>p q n. walk c r p = Some n \<longrightarrow> walk c r q = Some n \<longrightarrow> p = q)"

lemma unique_pathsD: "unique_paths c r \<Longrightarrow> walk c r p = Some n \<Longrightarrow> walk c r q = Some n \<Longrightarrow> p = q"
  by (simp add: unique_paths_def)

lemma walk_link:
  assumes u: "unique_paths c r" and p: "walk c r p = Some n" "c n k = None"
    and g: "\<And>q. walk c r q \<noteq> Some g" "\<And>j. c g j = None"
    and c': "c' = (\<lambda>m j. if m = n \<and> j = k then Some g else c m j)"
  shows "walk c' r q = (if q = p @ [k] then Some g else walk c r q)"
proof (induction q rule: rev_induct)
  case (snoc j q)
  have gn: "g \<noteq> n"
    using g(1) [of p] p(1) by auto
  have none: "walk c r (p @ [k]) = None"
    by (simp add: walk_snoc p)
  show ?case
  proof (cases "q = p @ [k]")
    case True
    have "walk c' r (q @ [j]) = c' g j"
      unfolding walk_snoc [of c' r q] using snoc.IH True by simp
    moreover have "walk c r (q @ [j]) = None"
      unfolding walk_snoc [of c r q] using none True by simp
    ultimately show ?thesis
      using True gn g(2) unfolding c' by simp
  next
    case False
    then have w: "walk c' r q = walk c r q"
      using snoc.IH by simp
    show ?thesis
    proof (cases "walk c r q")
      case None
      then show ?thesis
        using w p(1) by (auto simp: walk_snoc)
    next
      case (Some m)
      have "m = n \<longleftrightarrow> q = p"
      proof
        assume "m = n"
        then show "q = p"
          using unique_pathsD [OF u Some, of p] p(1) by simp
      next
        assume "q = p"
        then show "m = n"
          using p(1) Some by simp
      qed
      then show ?thesis
        using w Some by (simp add: walk_snoc) (simp add: c')
    qed
  qed
qed simp

lemma unique_link:
  assumes u: "unique_paths c r" and p: "walk c r p = Some n" "c n k = None"
    and g: "\<And>q. walk c r q \<noteq> Some g" "\<And>j. c g j = None"
    and c': "c' = (\<lambda>m j. if m = n \<and> j = k then Some g else c m j)"
  shows "unique_paths c' r"
  unfolding unique_paths_def
proof (intro allI impI)
  fix q1 q2 m
  assume w: "walk c' r q1 = Some m" "walk c' r q2 = Some m"
  have wl: "walk c' r q = (if q = p @ [k] then Some g else walk c r q)" for q
    by (rule walk_link [OF u p g c'])
  show "q1 = q2"
  proof (cases "m = g")
    case True
    then show ?thesis
      using w wl [of q1] wl [of q2] g(1) by (simp split: if_splits)
  next
    case False
    then have "walk c r q1 = Some m" "walk c r q2 = Some m"
      using w wl [of q1] wl [of q2] by (simp_all split: if_splits)
    then show ?thesis
      by (rule unique_pathsD [OF u])
  qed
qed

text \<open>A child function that agrees on a set of nodes closed under it gives the same walks.\<close>

lemma walk_cong:
  assumes "\<And>m j. m \<in> S \<Longrightarrow> c' m j = c m j" and "\<And>m j x. m \<in> S \<Longrightarrow> c m j = Some x \<Longrightarrow> x \<in> S"
  shows "n \<in> S \<Longrightarrow> walk c' n q = walk c n q"
  using assms by (induction c n q rule: walk.induct) (auto split: option.splits)

lemma walk_closed:
  assumes "\<And>m j x. m \<in> S \<Longrightarrow> c m j = Some x \<Longrightarrow> x \<in> S"
  shows "n \<in> S \<Longrightarrow> walk c n q = Some m \<Longrightarrow> m \<in> S"
  using assms by (induction c n q rule: walk.induct) (auto split: option.splits)

end
