(* ===== verification/Tarfs_Correct.thy ===== *)
theory Tarfs_Correct
  imports Tarfs Tree_Walk Util_Map_Correct Util_String_Correct
begin

text \<open>
  The TAR file system: the octal fields, the tree \<open>build_tree\<close> makes of an archive, read as a map
  from paths to header blocks and sizes, the directories, and what reading a file really returns.
\<close>

section \<open>The tree as a map from paths\<close>

definition kids :: "tarfs_heap \<Rightarrow> nat \<Rightarrow> u64 \<Rightarrow> nat option" where
  "kids fs n h = (if n < length fs then try_get_value (tn_children (fs ! n)) h else None)"

definition heap_ok :: "tarfs_heap \<Rightarrow> bool" where
  "heap_ok fs \<longleftrightarrow> 0 < length fs \<and> unique_paths (kids fs) 0 \<and>
    (\<forall>n < length fs. map_ok (tn_children (fs ! n)) \<and> (\<forall>h m. kids fs n h = Some m \<longrightarrow> m < length fs))"

definition info :: "tarfs_heap \<Rightarrow> u64 list \<Rightarrow> (u32 \<times> u32) option" where
  "info fs q = (case walk (kids fs) 0 q of
      None \<Rightarrow> None
    | Some n \<Rightarrow> if tn_has_block_offset (fs ! n) then Some (tn_block_offset (fs ! n), tn_size (fs ! n)) else None)"

lemma heap_ok_walk: "heap_ok fs \<Longrightarrow> walk (kids fs) 0 q = Some n \<Longrightarrow> n < length fs"
  using walk_closed [of "{..<length fs}" "kids fs" 0 q n] unfolding heap_ok_def by auto

lemma get_child_kids: "p < length fs \<Longrightarrow> get_child fs p name = Inr (kids fs p (fst (get_hash name)))"
  by (simp add: get_child_def node_at_def kids_def)

text \<open>One missing component: a new node hung below an existing one.\<close>

lemma add_node_ok:
  assumes ok: "heap_ok fs" and w: "walk (kids fs) 0 p = Some n" and none: "kids fs n (fst (get_hash s)) = None"
    and new: "TarFSNode_new fs (Some n) s = (c, fs1)"
  shows "\<exists>fs2. add_child fs1 n s c = Inr fs2 \<and> heap_ok fs2 \<and>
    (\<forall>q. walk (kids fs2) 0 q = (if q = p @ [fst (get_hash s)] then Some c else walk (kids fs) 0 q)) \<and>
    (\<forall>q. info fs2 q = info fs q)"
proof -
  let ?h = "fst (get_hash s)"
  have n: "n < length fs"
    by (rule heap_ok_walk [OF ok w])
  have c: "c = length fs" and fs1: "length fs1 = Suc (length fs)" "\<And>i. i < length fs \<Longrightarrow> fs1 ! i = fs ! i"
      "tn_children (fs1 ! length fs) = map_empty" "\<not> tn_has_block_offset (fs1 ! length fs)"
    using new by (auto simp: TarFSNode_new_def nth_append)
  have mk: "map_ok (tn_children (fs ! n))"
    using ok n by (simp add: heap_ok_def)
  obtain m' where m': "Map_add (tn_children (fs ! n)) ?h c = Inr m'" "map_ok m'"
      "\<forall>k. try_get_value m' k = (if k = ?h then Some c else try_get_value (tn_children (fs ! n)) k)"
    using rb.add_law [OF mk, of ?h c] by blast
  define fs2 where "fs2 = fs1[n := (fs ! n)\<lparr>tn_children := m'\<rparr>]"
  have r: "add_child fs1 n s c = Inr fs2"
    using n fs1(1,2) m'(1) by (simp add: add_child_def node_at_def fs2_def)
  have len: "length fs2 = Suc (length fs)"
    by (simp add: fs2_def fs1(1))
  have at: "fs2 ! i = (if i = n then (fs ! n)\<lparr>tn_children := m'\<rparr> else if i < length fs then fs ! i else fs1 ! i)"
    if "i < length fs2" for i
    using that n fs1(1,2) by (simp add: fs2_def)
  have k': "kids fs2 i h = (if i = n \<and> h = ?h then Some c else kids fs i h)" for i h
  proof (cases "i < length fs")
    case True
    then show ?thesis
      using at [of i] n m'(3) by (simp add: kids_def len)
  next
    case False
    then show ?thesis
      using at [of i] n fs1(3) rb.get_empty by (auto simp: kids_def len less_Suc_eq)
  qed
  have k: "kids fs2 = (\<lambda>i h. if i = n \<and> h = ?h then Some c else kids fs i h)"
    using k' by blast
  have fresh: "walk (kids fs) 0 q \<noteq> Some c" for q
    using heap_ok_walk [OF ok, of q c] c by auto
  have kc: "kids fs c h = None" for h
    by (simp add: kids_def c)
  have u: "unique_paths (kids fs) 0"
    using ok by (simp add: heap_ok_def)
  have wl: "walk (kids fs2) 0 q = (if q = p @ [?h] then Some c else walk (kids fs) 0 q)" for q
    by (rule walk_link [OF u w none fresh kc k])
  have u2: "unique_paths (kids fs2) 0"
    by (rule unique_link [OF u w none fresh kc k])
  have "heap_ok fs2"
    unfolding heap_ok_def
  proof (intro conjI allI impI)
    fix i assume i: "i < length fs2"
    show "map_ok (tn_children (fs2 ! i))"
      using at [OF i] i m'(2) fs1(3) ok rb.ok_empty unfolding len heap_ok_def by (auto simp: less_Suc_eq)
    fix h m assume "kids fs2 i h = Some m"
    then show "m < length fs2"
      using k' ok c unfolding len heap_ok_def by (auto split: if_splits simp: less_Suc_eq kids_def)
  qed (use u2 len in auto)
  moreover have "info fs2 q = info fs q" for q
  proof (cases "q = p @ [?h]")
    case True
    have "walk (kids fs) 0 q = None"
      using w none True by (simp add: walk_snoc)
    then show ?thesis
      using wl [of q] True at [of c] c n fs1(4) by (simp add: info_def len)
  next
    case False
    show ?thesis
    proof (cases "walk (kids fs) 0 q")
      case (Some x)
      have x: "x < length fs" "x < length fs2"
        using heap_ok_walk [OF ok Some] len by simp_all
      show ?thesis
        using wl [of q] False Some at [OF x(2)] x(1) by (cases "x = n") (simp_all add: info_def)
    qed (use wl [of q] False in \<open>simp add: info_def\<close>)
  qed
  ultimately show ?thesis
    using r wl by blast
qed

lemma descend_ok:
  assumes "heap_ok fs" and "walk (kids fs) 0 p = Some n"
  shows "\<exists>m fs'. descend ss fs n = Inr (m, fs') \<and> heap_ok fs' \<and>
    walk (kids fs') 0 (p @ map (\<lambda>s. fst (get_hash s)) ss) = Some m \<and> (\<forall>q. info fs' q = info fs q)"
  using assms
proof (induction ss arbitrary: fs n p)
  case (Cons s ss)
  let ?h = "fst (get_hash s)"
  have n: "n < length fs"
    by (rule heap_ok_walk [OF Cons.prems])
  show ?case
  proof (cases "kids fs n ?h")
    case (Some c)
    then have "walk (kids fs) 0 (p @ [?h]) = Some c"
      using Cons.prems(2) by (simp add: walk_snoc)
    from Cons.IH [OF Cons.prems(1) this] show ?thesis
      using Some n by (simp add: get_child_kids)
  next
    case None
    obtain c fs1 where new: "TarFSNode_new fs (Some n) s = (c, fs1)"
      by fastforce
    from add_node_ok [OF Cons.prems None new] obtain fs2 where fs2: "add_child fs1 n s c = Inr fs2" "heap_ok fs2"
        "walk (kids fs2) 0 (p @ [?h]) = Some c" "\<forall>q. info fs2 q = info fs q"
      by auto
    from Cons.IH [OF fs2(2,3)] show ?thesis
      using None n new fs2(1,4) by (simp add: get_child_kids)
  qed
qed auto

lemma mark_node_ok:
  assumes ok: "heap_ok fs" and w: "walk (kids fs) 0 p = Some n"
  shows "\<exists>fs1 fs2. set_block_offset fs n b = Inr fs1 \<and> set_size fs1 n sz = Inr fs2 \<and> heap_ok fs2 \<and>
    (\<forall>q. info fs2 q = (if q = p then Some (b, sz) else info fs q))"
proof -
  have n: "n < length fs"
    by (rule heap_ok_walk [OF ok w])
  define fs2 where "fs2 = fs[n := (fs ! n)\<lparr>tn_has_block_offset := True, tn_block_offset := b, tn_size := sz\<rparr>]"
  have k: "kids fs2 = kids fs"
  proof (intro ext)
    fix x h
    show "kids fs2 x h = kids fs x h"
      by (cases "x = n") (simp_all add: kids_def fs2_def)
  qed
  have "tn_children (fs2 ! x) = tn_children (fs ! x)" for x
    using n by (cases "x = n") (simp_all add: fs2_def)
  then have "heap_ok fs2"
    using ok unfolding heap_ok_def k by (simp add: fs2_def)
  moreover have "info fs2 q = (if q = p then Some (b, sz) else info fs q)" for q
  proof (cases "q = p")
    case True
    then show ?thesis
      using w n unfolding info_def k by (simp add: fs2_def)
  next
    case False
    then have "walk (kids fs) 0 q \<noteq> Some n"
      using unique_pathsD [of "kids fs" 0 q n p] ok w by (auto simp: heap_ok_def)
    then show ?thesis
    proof (cases "walk (kids fs) 0 q")
      case (Some x)
      then have "x \<noteq> n"
        using \<open>walk (kids fs) 0 q \<noteq> Some n\<close> by simp
      then show ?thesis
        using False Some unfolding info_def k by (simp add: fs2_def)
    qed (use False in \<open>simp add: info_def k\<close>)
  qed
  moreover have "set_block_offset fs n b = Inr (fs[n := (fs ! n)\<lparr>tn_has_block_offset := True, tn_block_offset := b\<rparr>])"
      "set_size (fs[n := (fs ! n)\<lparr>tn_has_block_offset := True, tn_block_offset := b\<rparr>]) n sz = Inr fs2"
    using n by (simp_all add: set_block_offset_def set_size_def node_at_def fs2_def)
  ultimately show ?thesis
    by blast
qed

section \<open>Octal fields\<close>

definition octal_value :: "bytes \<Rightarrow> nat" where
  "octal_value ds = foldl (\<lambda>a c. a * 8 + (unat c - 48)) 0 ds"

definition octal_digits :: "bytes \<Rightarrow> bool" where
  "octal_digits ds \<longleftrightarrow> (\<forall>c \<in> set ds. 48 \<le> unat c \<and> unat c < 56)"

lemma octal_value_snoc: "octal_value (ds @ [c]) = octal_value ds * 8 + (unat c - 48)"
  by (simp add: octal_value_def)

lemma sint_digit: "unat (c :: u8) < 56 \<Longrightarrow> sint c = int (unat c)"
proof -
  assume c: "unat c < 56"
  have u: "uint c = int (unat c)"
    by (rule uint_nat)
  then have "- (128 :: int) \<le> uint c" "uint c < 128"
    using c by linarith+
  then have "- (2 ^ 7 :: int) \<le> uint c" "uint c < 2 ^ 7"
    by simp_all
  then have "signed_take_bit 7 (uint c) = uint c"
    by (rule signed_take_bit_int_eq_self)
  then show ?thesis
    unfolding u [symmetric] by (simp add: sint_uint)
qed

lemma int_in_range_small: "n \<le> 8 ^ 9 * 7 \<Longrightarrow> int_in_range (int n)"
  by (simp add: int_in_range_def)

lemma int_in_range_times8: "0 \<le> x \<Longrightarrow> x \<le> 8 ^ 9 \<Longrightarrow> int_in_range (x * 8)"
  by (simp add: int_in_range_def)

lemma octal_loop_digits:
  assumes d: "octal_digits xs" and n: "length xs \<le> 11" and "1 \<le> i" and "i \<le> length xs"
  shows "octal_loop (xs @ r) (length xs) i v (8 ^ (i - 1)) =
    Inr (v + of_nat (8 ^ (i - 1) * octal_value (drop 1 (take (length xs - i + 1) xs))))"
  using assms(3,4)
proof (induction "length xs - i" arbitrary: i v)
  case 0
  then have i: "i = length xs"
    by simp
  have "take (length xs - i + 1) xs = [xs ! 0]"
    using 0(2,3) i by (cases xs) auto
  then show ?case
    using i by (subst octal_loop.simps) (simp add: octal_value_def)
next
  case (Suc m)
  then have i: "i < length xs" "i \<le> 10"
    using n by simp_all
  let ?c = "xs ! (length xs - i)"
  have c: "48 \<le> unat ?c" "unat ?c < 56"
    using d i Suc.prems by (auto simp: octal_digits_def)
  let ?t = "8 ^ (i - 1) * (sint ?c - 48)"
  have t: "?t = int (8 ^ (i - 1) * (unat ?c - 48))"
    using c sint_digit [OF c(2)] by (simp add: of_nat_diff)
  have p: "8 ^ (i - 1) \<le> (8 :: nat) ^ 9"
    using i(2) by (intro power_increasing) simp_all
  have "8 ^ (i - 1) * (unat ?c - 48) \<le> 8 ^ 9 * 7"
    using p c by (intro mult_mono) simp_all
  then have rt: "int_in_range ?t"
    unfolding t by (rule int_in_range_small)
  have "(8 :: int) ^ (i - 1) \<le> 8 ^ 9"
    using i(2) by (intro power_increasing) simp_all
  moreover have "(0 :: int) \<le> 8 ^ (i - 1)"
    by (rule zero_le_power) simp
  ultimately have rf: "int_in_range (8 ^ (i - 1) * 8)"
    by (intro int_in_range_times8)
  have f: "8 ^ (i - 1) * 8 = (8 :: int) ^ (Suc i - 1)"
    using Suc.prems(1) by (cases i) simp_all
  have "length xs - i < length xs"
    using i Suc.prems(1) by linarith
  then have at: "(xs @ r) ! (length xs - i) = ?c"
    by (rule nth_append_left)
  have step: "octal_loop (xs @ r) (length xs) i v (8 ^ (i - 1)) =
      octal_loop (xs @ r) (length xs) (Suc i) (v + of_int ?t) (8 ^ (Suc i - 1))"
    using i(1) rt rf at by (subst octal_loop.simps) (simp add: Let_def f [simplified])
  have k: "length xs - i = Suc (length xs - Suc i)"
    using i by simp
  have "take (Suc (length xs - i)) xs = take (length xs - i) xs @ [?c]"
    using \<open>length xs - i < length xs\<close> by (rule take_Suc_conv_app_nth)
  moreover have "1 \<le> length (take (length xs - i) xs)"
    using k i by simp
  ultimately have tk: "drop 1 (take (length xs - i + 1) xs) = drop 1 (take (length xs - Suc i + 1) xs) @ [?c]"
    by (simp add: k)
  have pw: "(8 :: nat) ^ (Suc i - 1) = 8 ^ (i - 1) * 8"
    using Suc.prems(1) by (cases i) simp_all
  have "octal_loop (xs @ r) (length xs) (Suc i) (v + of_int ?t) (8 ^ (Suc i - 1)) =
      Inr (v + of_int ?t + of_nat (8 ^ (Suc i - 1) * octal_value (drop 1 (take (length xs - Suc i + 1) xs))))"
    using Suc.hyps(1) [of "Suc i" "v + of_int ?t"] Suc.hyps(2) i by simp
  then show ?case
    unfolding step tk octal_value_snoc t pw by (simp add: algebra_simps)
qed

lemma octal2ui_digits:
  assumes "octal_digits ds" and "ds \<noteq> []" and "length ds \<le> 11"
  shows "octal2ui (ds @ 0 # r) = Inr (of_nat (octal_value (tl ds)))"
proof -
  have "0 \<notin> set ds"
    using assms(1) by (auto simp: octal_digits_def)
  then have "octal2ui (ds @ 0 # r) = octal_loop (ds @ 0 # r) (length ds) 1 0 1"
    by (simp add: octal2ui_def)
  also have "\<dots> = Inr (of_nat (octal_value (tl ds)))"
    using octal_loop_digits [OF assms(1,3), of 1 "0 # r" 0] assms(2) by (cases ds) simp_all
  finally show ?thesis .
qed

text \<open>
  (\<open>tarfs.cpp\<close>, \<open>octal2ui\<close>). The value of a terminated octal field of at most eleven digits is computed without
  overflow, but from all digits except the first: fields that start with 0 are read
  right, and the size of a file of 1 GiB or more is not.
\<close>

theorem octal_field_value:
  assumes "octal_digits ds" and "ds \<noteq> []" and "length ds \<le> 11"
  shows "octal2ui (ds @ 0 # r) = Inr (of_nat (octal_value (tl ds))) \<and>
    (hd ds = 48 \<longrightarrow> octal2ui (ds @ 0 # r) = Inr (of_nat (octal_value ds)))"
proof -
  have "octal_value ds = octal_value (tl ds)" if "hd ds = 48"
    using that assms(2) by (cases ds) (simp_all add: octal_value_def)
  then show ?thesis
    using octal2ui_digits [OF assms] by simp
qed

theorem octal_field_value_witness:
  "octal2ui [48, 49, 55, 0] = Inr 15 \<and> octal2ui [49, 48, 0] = Inr 0"
  using octal_field_value [of "[48, 49, 55]" "[]"] octal_field_value [of "[49, 48]" "[]"]
  by (simp add: octal_digits_def octal_value_def)

section \<open>The tree of an archive\<close>

lemma String_cstr_nul: "0 \<notin> set xs \<Longrightarrow> String_cstr (Some (xs @ 0 # r)) = Inr (string_of xs)"
  by (simp add: String_cstr_def string_of_def)

definition hdr_text :: "bytes \<Rightarrow> bytes" where
  "hdr_text blk = takeWhile (\<lambda>b. b \<noteq> 0) blk"

definition hdr_path :: "bytes \<Rightarrow> u64 list" where
  "hdr_path blk = map (\<lambda>p. compute_hash (string_of p)) (pieces slash [] (hdr_text blk))"

definition hdr_len :: "bytes \<Rightarrow> u32" where
  "hdr_len blk = (case octal2ui (hdr_size blk) of Inl _ \<Rightarrow> 0 | Inr sz \<Rightarrow> sz)"

definition hdr_ok :: "bytes \<Rightarrow> bool" where
  "hdr_ok blk \<longleftrightarrow> length blk = 512 \<and> \<not> list_all (\<lambda>b. b = 0) blk \<and> 0 \<in> set blk \<and>
    octal2ui (hdr_size blk) = Inr (hdr_len blk)"

definition next_header :: "nat \<Rightarrow> bytes \<Rightarrow> nat" where
  "next_header n blk = n + (unat (hdr_len blk) + 511) div 512 + 1"

text \<open>The headers \<open>blks\<close> are laid out on the device from block \<open>n\<close> on, up to a zero block or the end.\<close>

fun archive :: "block_device \<Rightarrow> nat \<Rightarrow> bytes list \<Rightarrow> bool" where
  "archive dev n [] \<longleftrightarrow> block_count dev \<le> n \<or>
     (\<exists>blk. read_block dev n = Some blk \<and> length blk = 512 \<and> list_all (\<lambda>b. b = 0) blk)"
| "archive dev n (blk # blks) \<longleftrightarrow>
     n < block_count dev \<and> read_block dev n = Some blk \<and> hdr_ok blk \<and> archive dev (next_header n blk) blks"

text \<open>The regular files of the archive: their paths, header blocks and sizes.\<close>

fun archive_files :: "nat \<Rightarrow> bytes list \<Rightarrow> (u64 list \<times> u32 \<times> u32) list" where
  "archive_files n [] = []"
| "archive_files n (blk # blks) =
     (if blk ! 156 = 48 then [(hdr_path blk, of_nat n, hdr_len blk)] else []) @ archive_files (next_header n blk) blks"

lemma takeWhile_nul: "0 \<notin> set xs \<Longrightarrow> takeWhile (\<lambda>b. b \<noteq> 0) (xs @ 0 # ys) = (xs :: bytes)"
  by (induction xs) auto

lemma hdr_text_split: "0 \<in> set blk \<Longrightarrow> \<exists>r. blk = hdr_text blk @ 0 # r \<and> 0 \<notin> set (hdr_text blk)"
proof -
  assume "0 \<in> set blk"
  then obtain xs ys where "blk = xs @ 0 # ys" "0 \<notin> set xs"
    using split_list_first by metis
  then show ?thesis
    by (auto simp: hdr_text_def takeWhile_nul)
qed

lemma get_hash_string_of: "fst (get_hash (string_of p)) = compute_hash (string_of p)"
  by (simp add: get_hash_def string_of_def Let_def)

lemma BuildTreeRecursive_ok:
  assumes ok: "heap_ok fs" and h: "hdr_ok blk" and b: "buffer = blk"
  shows "\<exists>fs'. BuildTreeRecursive 513 fs 0 buffer n = Inr fs' \<and> heap_ok fs' \<and>
    (\<forall>q. info fs' q = (if q = hdr_path blk then Some (n, hdr_len blk) else info fs q))"
proof -
  obtain r where r: "blk = hdr_text blk @ 0 # r" "0 \<notin> set (hdr_text blk)"
    using hdr_text_split h by (auto simp: hdr_ok_def)
  have nm: "String_cstr (Some (hdr_name blk)) = Inr (string_of (hdr_text blk))"
    using r by (metis String_cstr_nul hdr_name_def)
  have "length blk = 512"
    using h by (simp add: hdr_ok_def)
  then have "length (hdr_text blk) < 513"
    using length_takeWhile_le [of "\<lambda>b. b \<noteq> 0" blk] by (simp add: hdr_text_def)
  from split_elems [OF this, of slash] obtain path where
    path: "split 513 (string_of (hdr_text blk)) slash False = Inr path"
      "elems path = map string_of (pieces slash [] (hdr_text blk))"
    by blast
  have hp: "map (\<lambda>s. fst (get_hash s)) (elems path) = hdr_path blk"
    unfolding path(2) hdr_path_def by (simp add: get_hash_string_of)
  have "walk (kids fs) 0 [] = Some 0"
    by simp
  from descend_ok [OF ok this, of "elems path"] obtain m fs1 where
    d: "descend (elems path) fs 0 = Inr (m, fs1)" "heap_ok fs1" "walk (kids fs1) 0 (hdr_path blk) = Some m"
      "\<forall>q. info fs1 q = info fs q"
    by (auto simp: hp)
  from mark_node_ok [OF d(2,3), of n "hdr_len blk"] obtain fs2 fs3 where
    m: "set_block_offset fs1 m n = Inr fs2" "set_size fs2 m (hdr_len blk) = Inr fs3" "heap_ok fs3"
      "\<forall>q. info fs3 q = (if q = hdr_path blk then Some (n, hdr_len blk) else info fs1 q)"
    by blast
  have "BuildTreeRecursive 513 fs 0 buffer n = Inr fs3"
    using nm path(1) d(1) m(1,2) h by (simp add: BuildTreeRecursive_def b hdr_ok_def)
  then show ?thesis
    using m d(4) by auto
qed

lemma read_blocks_full: "read_block dev n = Some d \<Longrightarrow> length d = length buffer \<Longrightarrow> read_blocks dev buffer n = Inr (True, d)"
  by (simp add: read_blocks_def)

lemma round_up_div: "(l :: nat) div 512 + (if l mod 512 \<noteq> 0 then 1 else 0) = (l + 511) div 512"
proof -
  define q r where "q = l div 512" and "r = l mod 512"
  have l: "l = 512 * q + r" and r: "r < 512"
    by (simp_all add: q_def r_def)
  have "(l + 511) div 512 = q + (r + 511) div 512"
    unfolding l by simp
  moreover have "(r + 511) div 512 = (if r \<noteq> 0 then 1 else 0)"
    using r by (cases "r = 0") (simp_all add: div_nat_eqI)
  ultimately show ?thesis
    unfolding q_def [symmetric] r_def [symmetric] by simp
qed

lemma next_header_word:
  assumes "unat bc = n" and "n < 2 ^ 31"
  shows "unat (bc + (hdr_len blk div 512 + (if hdr_len blk mod 512 \<noteq> 0 then 1 else 0)) + 1 :: u32) =
    next_header n blk"
proof -
  let ?l = "hdr_len blk"
  let ?s = "?l div 512 + (if ?l mod 512 \<noteq> 0 then 1 else 0)"
  have m: "(?l mod 512 \<noteq> 0) = (unat ?l mod 512 \<noteq> 0)"
    by (simp add: unat_eq_zero [symmetric] unat_mod)
  have "unat ?l < 2 ^ 32"
    using unsigned_less [of ?l, where 'a = nat] by simp
  then have l: "unat ?l div 512 < 2 ^ 23"
    by simp
  have s: "unat ?s = (unat ?l + 511) div 512"
  proof (cases "?l mod 512 = 0")
    case True
    then show ?thesis
      using m round_up_div [of "unat ?l"] by (simp add: unat_div)
  next
    case False
    have "unat (?l div 512 + 1) = unat ?l div 512 + 1"
      using l by (simp add: unat_word_ariths unat_div)
    then show ?thesis
      using False m round_up_div [of "unat ?l"] by simp
  qed
  then have "unat ?s \<le> 2 ^ 23"
    using l by simp
  then have "unat bc + unat ?s + 1 < 2 ^ 32"
    using assms by simp
  then have "unat (bc + ?s + 1) = unat bc + unat ?s + 1"
    by (simp add: unat_word_ariths)
  then show ?thesis
    unfolding s assms(1) next_header_def by simp
qed

lemma build_loop_ok:
  assumes "archive dev n blks" and "unat bc = n" and "block_count dev \<le> 2 ^ 31" and "length blks < fuel"
    and "length buffer = 512" and "heap_ok fs"
  shows "\<exists>fs'. build_loop fuel dev 0 bc buffer fs = Inr (Some 0, fs') \<and> heap_ok fs' \<and>
    (\<forall>q. info fs' q = (case map_of (rev (archive_files n blks)) q of Some v \<Rightarrow> Some v | None \<Rightarrow> info fs q))"
  using assms
proof (induction blks arbitrary: n bc fuel buffer fs)
  case Nil
  then obtain fu where fu: "fuel = Suc fu"
    by (cases fuel) auto
  show ?case
  proof (cases "n < block_count dev")
    case False
    then show ?thesis
      using Nil fu by simp
  next
    case True
    with Nil obtain blk where b: "read_block dev n = Some blk" "length blk = 512" "list_all (\<lambda>b. b = 0) blk"
      by auto
    have "read_blocks dev buffer n = Inr (True, blk)"
      using b Nil by (simp add: read_blocks_full)
    then have "build_loop fuel dev 0 bc buffer fs = Inr (Some 0, fs)"
      using True Nil b fu by (simp add: is_zero_block_def)
    then show ?thesis
      using Nil by simp
  qed
next
  case (Cons blk blks)
  obtain fu where fu: "fuel = Suc fu" "length blks < fu"
    using Cons.prems(4) by (cases fuel) auto
  have a: "n < block_count dev" "read_block dev n = Some blk" "hdr_ok blk" "archive dev (next_header n blk) blks"
    using Cons.prems(1) by simp_all
  have h: "length blk = 512" "\<not> list_all (\<lambda>b. b = 0) blk" "octal2ui (hdr_size blk) = Inr (hdr_len blk)"
    using a(3) by (simp_all add: hdr_ok_def)
  have rd: "read_blocks dev buffer n = Inr (True, blk)"
    using a(2) h(1) Cons.prems(5) by (simp add: read_blocks_full)
  have bc: "bc = of_nat n"
    using Cons.prems(2) by auto
  let ?bc' = "bc + (hdr_len blk div 512 + (if hdr_len blk mod 512 \<noteq> 0 then 1 else 0)) + 1"
  have nx: "unat ?bc' = next_header n blk"
    using a(1) Cons.prems(2,3) by (intro next_header_word) simp_all
  have "\<exists>fs1. (if blk ! 156 = 48 then BuildTreeRecursive 513 fs 0 blk bc else Inr fs) = Inr fs1 \<and> heap_ok fs1 \<and>
      (\<forall>q. info fs1 q = (if blk ! 156 = 48 \<and> q = hdr_path blk then Some (of_nat n, hdr_len blk) else info fs q))"
    using BuildTreeRecursive_ok [OF Cons.prems(6) a(3) refl, of bc] Cons.prems(6)
    unfolding bc [symmetric] by (cases "blk ! 156 = 48") simp_all
  then obtain fs1 where
    one: "(if blk ! 156 = 48 then BuildTreeRecursive 513 fs 0 blk bc else Inr fs) = Inr fs1" "heap_ok fs1"
      "\<And>q. info fs1 q = (if blk ! 156 = 48 \<and> q = hdr_path blk then Some (of_nat n, hdr_len blk) else info fs q)"
    by blast
  have tf: "hdr_typeflag blk = Inr (blk ! 156)" "is_zero_block blk 512 = Inr False"
    using h by (simp_all add: hdr_typeflag_def is_zero_block_def)
  have st: "build_loop fuel dev 0 bc buffer fs = build_loop fu dev 0 ?bc' blk fs1"
    using a(1) Cons.prems(2) rd tf h(3) one(1) fu(1) by simp
  from Cons.IH [OF a(4) nx Cons.prems(3) fu(2) h(1) one(2)] obtain fs' where
    r: "build_loop fu dev 0 ?bc' blk fs1 = Inr (Some 0, fs')" "heap_ok fs'"
      "\<And>q. info fs' q = (case map_of (rev (archive_files (next_header n blk) blks)) q of
         Some v \<Rightarrow> Some v | None \<Rightarrow> info fs1 q)"
    by blast
  have "info fs' q = (case map_of (rev (archive_files n (blk # blks))) q of Some v \<Rightarrow> Some v | None \<Rightarrow> info fs q)" for q
    unfolding r(3) one(3) by (simp add: map_add_def split: option.split)
  then show ?case
    using st r(1,2) by metis
qed

lemma TarFSNode_new_root:
  assumes "TarFSNode_new [] None name = (r, fs)"
  shows "r = 0" and "heap_ok fs" and "info fs q = None"
proof -
  have fs: "r = 0" "length fs = 1" "tn_children (fs ! 0) = map_empty" "\<not> tn_has_block_offset (fs ! 0)"
    using assms by (auto simp: TarFSNode_new_def)
  then have k: "kids fs = (\<lambda>n h. None)"
    by (intro ext) (simp add: kids_def rb.get_empty)
  have w: "walk (kids fs) 0 p = (if p = [] then Some 0 else None)" for p
    by (cases p) (simp_all add: k)
  have "map_ok (map_empty :: (u64, nat) Map)"
    by (rule rb.ok_empty)
  then show "r = 0" and "heap_ok fs" and "info fs q = None"
    using fs w by (auto simp: heap_ok_def info_def unique_paths_def k split: if_splits)
qed


text \<open>A device with one header, of the file \<open>d/f\<close> with eight bytes of contents, and its data block.\<close>

definition one_header :: bytes where
  "one_header = [100, 47, 102, 0] @ replicate 120 0 @ [48, 49, 48] @ replicate 29 0 @ [48] @ replicate 355 0"

definition one_file_device :: block_device where
  "one_file_device = \<lparr>block_size = 512, block_count = 3,
     read_block = (\<lambda>n. if n = 0 then Some one_header else Some (replicate 512 0))\<rparr>"

lemma one_header_size: "octal2ui (hdr_size one_header) = Inr 8"
proof -
  have "hdr_size one_header = [48, 49, 48] @ 0 # (replicate 28 0 @ [48] @ replicate 355 0)"
    by (simp add: hdr_size_def one_header_def numeral_eq_Suc)
  moreover have "octal2ui ([48, 49, 48] @ 0 # r) = Inr 8" for r
    using octal2ui_digits [of "[48, 49, 48]" r] by (simp add: octal_digits_def octal_value_def)
  ultimately show ?thesis
    by (simp only:)
qed

lemma one_file_archive: "archive one_file_device 0 [one_header]"
  "archive_files 0 [one_header] = [([compute_hash (string_of [100]), compute_hash (string_of [102])], 0, 8)]"
proof -
  have l: "hdr_len one_header = 8"
    by (simp add: hdr_len_def one_header_size)
  have t: "hdr_text one_header = [100, 47, 102]" "one_header ! 156 = 48"
    by (simp_all add: hdr_text_def one_header_def nth_append)
  have "hdr_ok one_header"
    unfolding hdr_ok_def l one_header_size by (simp add: one_header_def)
  then show "archive one_file_device 0 [one_header]"
    by (simp add: one_file_device_def next_header_def l list_all_iff)
  show "archive_files 0 [one_header] = [([compute_hash (string_of [100]), compute_hash (string_of [102])], 0, 8)]"
    by (simp add: t l hdr_path_def slash_def)
qed


section \<open>Reading a file\<close>

lemma unat_512: "unat (512 :: u64) = 512" "unat (512 :: u32) = 512"
  by simp_all

lemma unat_ucast_small: "unat (w :: u64) < 2 ^ 32 \<Longrightarrow> unat (ucast w :: u32) = unat w"
  by (simp add: unsigned_ucast_eq take_bit_nat_eq_self)

lemma unat_ucast_up: "unat (ucast (w :: u32) :: u64) = unat w"
  using unsigned_less [of w, where 'a = nat] by (simp add: unsigned_ucast_eq take_bit_nat_eq_self)

lemma unat_Suc_less: "(x :: u32) < y \<Longrightarrow> unat (x + 1) = Suc (unat x)"
  using unsigned_less [of y, where 'a = nat] by (simp add: word_less_nat_alt unat_word_ariths)

lemma pread_step:
  assumes bs: "block_size dev = 512" and rd: "read_block dev (unat (start + ucast (off div 512))) = Some d"
    and d: "length d = 512" and buf: "512 \<le> length buffer" and g: "length garbage = 512"
    and sz: "sz \<noteq> 0" "unat off mod 512 + unat sz \<le> 512"
  shows "pread_loop (Suc (Suc fuel)) dev start buffer garbage sz off 0 =
    Inr (ucast sz, take (unat sz) (drop (unat off mod 512) garbage) @ drop (unat sz) (d @ drop 512 buffer))"
proof -
  let ?a = "ucast (off mod 512) :: u32"
  have m: "unat (off mod 512) = unat off mod 512"
    by (simp add: unat_mod)
  have a: "unat ?a = unat off mod 512"
    using unat_ucast_small [of "off mod 512"] m by simp
  have s: "unat (ucast sz :: u32) = unat sz"
    using sz(2) by (intro unat_ucast_small) simp
  have "unat (512 - ?a) = 512 - unat off mod 512"
    using a by (simp add: unat_sub word_le_nat_alt)
  then have "unat (ucast (512 - ?a) :: u64) = 512 - unat off mod 512"
    by (simp add: unsigned_ucast_eq take_bit_nat_eq_self)
  moreover have "\<not> 512 - unat off mod 512 < unat sz"
    using sz(2) by linarith
  ultimately have page: "min64 (ucast (512 - ?a)) (sz - 0) = sz"
    by (simp add: min64_def word_less_nat_alt)
  have rt: "ucast (ucast sz :: u32) = sz"
    using s unat_ucast_up [of "ucast sz"] by (intro word_unat_eq_iff [THEN iffD2]) simp
  have io: "read_blocks dev buffer (unat (start + ucast (off div 512))) = Inr (True, d @ drop 512 buffer)"
    using rd d buf by (simp add: read_blocks_def)
  have cp: "memcpy_at (d @ drop 512 buffer) 0 garbage (unat off mod 512) (unat sz) =
      Inr (take (unat sz) (drop (unat off mod 512) garbage) @ drop (unat sz) (d @ drop 512 buffer))"
    using sz(2) d g by (simp add: memcpy_at_def)
  have "0 < sz"
    using sz(1) by (simp add: word_greater_zero_iff)
  moreover have "of_nat (block_size dev) = (512 :: u64)"
    by (simp add: bs)
  ultimately show ?thesis
    using page io cp a rt by (simp add: Let_def)
qed

text \<open>
  C21 (\<open>tarfs.cpp\<close>, \<open>TarFSFile::pread\<close>). The read loop reads each device block into the
  caller's buffer and copies the result from an array that is never written. A read inside one block of a file returns
  the requested count whatever the file's size is, and bytes of that uninitialised array, which do not depend on the device; a
  caller's buffer smaller than a block is overrun.
\<close>

theorem tarfs_pread_uninitialised:
  assumes "block_size dev = 512" and "file_size f = Inr fsz" and "off < ucast fsz"
    and "read_block dev (unat (file_start_block f + ucast (off div 512))) = Some d" and "length d = 512"
    and "length garbage = 512" and "sz \<noteq> 0" and "unat off mod 512 + unat sz \<le> 512"
  shows "(512 \<le> length buffer \<longrightarrow> (\<exists>rest. pread (Suc (Suc fuel)) dev f buffer garbage sz off =
      Inr (ucast sz, take (unat sz) (drop (unat off mod 512) garbage) @ rest))) \<and>
    (length buffer < 512 \<longrightarrow> pread (Suc (Suc fuel)) dev f buffer garbage sz off = Inl OutOfBounds)"
proof
  have in_file: "\<not> ucast fsz \<le> off"
    using assms(3) by simp
  show "512 \<le> length buffer \<longrightarrow> (\<exists>rest. pread (Suc (Suc fuel)) dev f buffer garbage sz off =
      Inr (ucast sz, take (unat sz) (drop (unat off mod 512) garbage) @ rest))"
    using pread_step [OF assms(1,4,5) _ assms(6,7,8), of buffer fuel] in_file assms(1,2,6)
    by (auto simp: pread_def)
  have "0 < sz"
    using assms(7) by (simp add: word_greater_zero_iff)
  moreover have "of_nat (block_size dev) = (512 :: u64)"
    by (simp add: assms(1))
  ultimately show "length buffer < 512 \<longrightarrow> pread (Suc (Suc fuel)) dev f buffer garbage sz off = Inl OutOfBounds"
    using in_file assms(2,4,5) by (simp add: pread_def read_blocks_def Let_def)
qed

theorem tarfs_pread_uninitialised_witness:
  "(\<exists>rest. pread (Suc (Suc 0)) one_file_device \<lparr>hdr = one_header, file_start_block = 1, cur_pos = 0\<rparr> (replicate 512 0)
      (replicate 512 7) 2 0 = Inr (2, replicate 2 7 @ rest)) \<and>
   pread (Suc (Suc 0)) one_file_device \<lparr>hdr = one_header, file_start_block = 1, cur_pos = 0\<rparr> [0, 0] (replicate 512 7) 2 0 = Inl OutOfBounds"
proof -
  define f where "f = \<lparr>hdr = one_header, file_start_block = 1, cur_pos = 0\<rparr>"
  have s: "file_size f = Inr 8" "file_start_block f = 1"
    by (simp_all add: f_def file_size_def one_header_size)
  have "block_size one_file_device = 512" "(0 :: u64) < ucast (8 :: u32)" "length (replicate 512 (0 :: u8)) = 512"
    "read_block one_file_device (unat (file_start_block f + ucast ((0 :: u64) div 512))) = Some (replicate 512 0)"
    "length (replicate 512 (7 :: u8)) = 512" "(2 :: u64) \<noteq> 0" "unat (0 :: u64) mod 512 + unat (2 :: u64) \<le> 512"
    by (simp_all add: one_file_device_def s)
  note t = tarfs_pread_uninitialised [OF this(1) s(1) this(2) this(4) this(3) this(5) this(6) this(7)]
  show ?thesis
    unfolding f_def [symmetric] using t [of "replicate 512 0" 0] t [of "[0, 0]" 0] by simp
qed

section \<open>Listing a directory\<close>

lemma fill_entries_ok:
  assumes "\<forall>c \<in> set cs. snd c < length fs \<and> string_ok (tn_name (fs ! snd c))" and "i + length cs = length es"
  shows "\<exists>es'. fill_entries fs cs i es = Inr es' \<and> length es' = length es \<and> take i es' = take i es \<and>
    map (\<lambda>e. (chars (fst e), snd e)) (drop i es') = map (\<lambda>c. (chars (tn_name (fs ! snd c)), tn_size (fs ! snd c))) cs"
  using assms
proof (induction cs arbitrary: i es)
  case (Cons c cs)
  define e where "e = (string_assign (fst (es ! i)) (tn_name (fs ! snd c)), tn_size (fs ! snd c))"
  have ce: "(chars (fst e), snd e) = (chars (tn_name (fs ! snd c)), tn_size (fs ! snd c))"
    using Cons.prems(1) by (simp add: e_def)
  have i: "i < length es" "Suc i + length cs = length (es[i := e])"
    using Cons.prems(2) by simp_all
  from Cons.IH [OF _ i(2)] Cons.prems(1) obtain es' where
    r: "fill_entries fs cs (Suc i) (es[i := e]) = Inr es'" "length es' = length es"
      "take (Suc i) es' = take (Suc i) (es[i := e])"
      "map (\<lambda>e. (chars (fst e), snd e)) (drop (Suc i) es') = map (\<lambda>c. (chars (tn_name (fs ! snd c)), tn_size (fs ! snd c))) cs"
    by auto
  have "es' ! i = e"
    using arg_cong [OF r(3), of "\<lambda>l. l ! i"] i(1) by simp
  moreover have "take i es' = take i es"
    using arg_cong [OF r(3), of "take i"] i(1) by simp
  moreover have "drop i es' = es' ! i # drop (Suc i) es'"
    using i(1) r(2) by (simp add: Cons_nth_drop_Suc)
  ultimately have "take i es' = take i es"
    "map (\<lambda>e. (chars (fst e), snd e)) (drop i es') =
      map (\<lambda>c. (chars (tn_name (fs ! snd c)), tn_size (fs ! snd c))) (c # cs)"
    using r(4) ce by simp_all
  moreover have "fill_entries fs (c # cs) i es = Inr es'"
    using r(1) i(1) Cons.prems(1) by (simp add: node_at_def e_def)
  ultimately show ?case
    using r(2) by blast
qed simp

text \<open>Calling \<open>read_entry\<close> until it returns false.\<close>

fun list_dir :: "nat \<Rightarrow> TarFSDirectory \<Rightarrow> (String \<times> u32) list result" where
  "list_dir 0 d = Inl Diverges"
| "list_dir (Suc fuel) d =
    andthen (read_entry d) (\<lambda>(e, d). case e of
        None \<Rightarrow> Inr []
      | Some e \<Rightarrow> andthen (list_dir fuel d) (\<lambda>es. Inr (e # es)))"

lemma list_dir_ok:
  assumes "unat (nr_entries d) = length (entries d)" and "unat (cur_entry d) = i" and "i \<le> length (entries d)"
    and "length (entries d) - i < fuel"
  shows "list_dir fuel d = Inr (drop i (entries d))"
  using assms
proof (induction fuel arbitrary: d i)
  case (Suc fuel)
  show ?case
  proof (cases "i = length (entries d)")
    case True
    then show ?thesis
      using Suc.prems by (simp add: read_entry_def word_less_nat_alt)
  next
    case False
    let ?d = "d\<lparr>cur_entry := cur_entry d + 1\<rparr>"
    have lt: "cur_entry d < nr_entries d"
      using False Suc.prems by (simp add: word_less_nat_alt)
    have "unat (cur_entry d + 1) = Suc i"
      using unat_Suc_less [OF lt] Suc.prems(2) by simp
    then have "list_dir fuel ?d = Inr (drop (Suc i) (entries d))"
      using Suc.IH [of ?d "Suc i"] Suc.prems False by simp
    then show ?thesis
      using lt False Suc.prems by (simp add: read_entry_def Cons_nth_drop_Suc)
  qed
qed simp

text \<open>
  (\<open>tarfs.cpp\<close>, \<open>opendir\<close>, \<open>TarFSDirectory\<close>, \<open>read_entry\<close>). Opening a directory of
  a well-formed tree and reading until the end returns, without leaving the array of entries, one entry with
  name and size for each child of the node, each child once; a file cannot be opened as a directory.
\<close>

theorem tarfs_directory_correct:
  assumes "heap_ok fs" and "p < length fs" and "\<forall>n \<in> set fs. string_ok (tn_name n)"
    and "length (map_iterate (tn_children (fs ! p))) < fuel" and "fuel \<le> 2 ^ 32"
  shows "if tn_has_block_offset (fs ! p) then opendir fs p garbage = Inr None
    else \<exists>d es cs. opendir fs p garbage = Inr (Some d) \<and> list_dir fuel d = Inr es \<and>
      map (\<lambda>e. (chars (fst e), snd e)) es = map (\<lambda>c. (chars (tn_name (fs ! snd c)), tn_size (fs ! snd c))) cs \<and>
      distinct (map fst cs) \<and> (\<forall>h m. (h, m) \<in> set cs \<longleftrightarrow> kids fs p h = Some m)"
proof (cases "tn_has_block_offset (fs ! p)")
  case True
  then show ?thesis
    using assms(2) by (simp add: opendir_def node_at_def)
next
  case False
  let ?m = "tn_children (fs ! p)"
  let ?cs = "map_iterate ?m"
  have mok: "map_ok ?m" and ch: "\<forall>h m. kids fs p h = Some m \<longrightarrow> m < length fs"
    using assms(1,2) by (auto simp: heap_ok_def)
  have cs: "distinct (map fst ?cs)" "\<And>h m. (h, m) \<in> set ?cs \<longleftrightarrow> kids fs p h = Some m"
    using map_iterate_lookup [OF mok] assms(2) by (auto simp: kids_def)
  have "length ?cs = length (inorder (map_root ?m))"
    using mset_map_iterate [of ?m] by (metis size_mset)
  then have n: "unat (map_count ?m) = length ?cs"
    using mok assms(4,5) by (simp add: map_ok_def unat_of_nat)
  let ?es = "replicate (unat (map_count ?m)) (String_empty, garbage)"
  have "\<forall>c \<in> set ?cs. snd c < length fs \<and> string_ok (tn_name (fs ! snd c))"
    using cs(2) ch assms(3) by auto
  from fill_entries_ok [OF this, of 0 ?es] obtain es where
    es: "fill_entries fs ?cs 0 ?es = Inr es" "length es = length ?cs"
      "map (\<lambda>e. (chars (fst e), snd e)) es = map (\<lambda>c. (chars (tn_name (fs ! snd c)), tn_size (fs ! snd c))) ?cs"
    using n by auto
  let ?d = "\<lparr>entries = es, nr_entries = map_count ?m, cur_entry = 0\<rparr>"
  have "opendir fs p garbage = Inr (Some ?d)"
    using False assms(2) es(1) by (simp add: opendir_def TarFSDirectory_new_def node_at_def)
  moreover have "list_dir fuel ?d = Inr es"
    using list_dir_ok [of ?d 0 fuel] n es(2) assms(4) by simp
  ultimately show ?thesis
    using False es(3) cs by auto
qed

definition two_nodes :: tarfs_heap where
  "two_nodes =
    (case descend [string_of [97]] (snd (TarFSNode_new [] None (string_of []))) 0 of Inl _ \<Rightarrow> [] | Inr r \<Rightarrow> snd r)"

lemma String_copy_of: "String_copy (string_of cs) = string_of cs"
  by (simp add: String_copy_def string_of_def chars_def)

lemma two_nodes_eq:
  "two_nodes =
    [\<lparr>tn_parent = None, tn_children = \<lparr>map_root = MapNode BLACK (compute_hash (string_of [97])) 1 Null Null, map_count = 1\<rparr>,
       tn_name = string_of [], tn_size = 0, tn_has_block_offset = False, tn_block_offset = 0\<rparr>,
     \<lparr>tn_parent = Some 0, tn_children = map_empty, tn_name = string_of [97], tn_size = 0,
       tn_has_block_offset = False, tn_block_offset = 0\<rparr>]"
  by (simp add: two_nodes_def TarFSNode_new_def get_child_def node_at_def add_child_def Map_add_def map_empty_def
      try_get_value_def get_hash_string_of String_copy_of)

lemma two_nodes_ok: "heap_ok two_nodes"
proof -
  obtain r fs where n: "TarFSNode_new [] None (string_of []) = (r, fs)"
    by (cases "TarFSNode_new [] None (string_of [])")
  have "walk (kids fs) 0 [] = Some 0"
    by simp
  from descend_ok [OF TarFSNode_new_root(2) [OF n] this, of "[string_of [97]]"] show ?thesis
    by (auto simp: two_nodes_def n)
qed

theorem tarfs_directory_correct_witness:
  "\<exists>d es cs. opendir two_nodes 0 7 = Inr (Some d) \<and> list_dir 2 d = Inr es \<and>
     map (\<lambda>e. (chars (fst e), snd e)) es = map (\<lambda>c. (chars (tn_name (two_nodes ! snd c)), tn_size (two_nodes ! snd c))) cs \<and>
     (\<forall>h m. (h, m) \<in> set cs \<longleftrightarrow> kids two_nodes 0 h = Some m)"
proof -
  have "0 < length two_nodes" "\<forall>n \<in> set two_nodes. string_ok (tn_name n)"
    "length (map_iterate (tn_children (two_nodes ! 0))) < 2" "\<not> tn_has_block_offset (two_nodes ! 0)"
    by (simp_all add: two_nodes_eq map_iterate_def)
  with tarfs_directory_correct [OF two_nodes_ok this(1,2,3), of 7] show ?thesis
    by auto
qed

end
