(* ===== verification/Vfs_Correct.thy ===== *)
theory Vfs_Correct
  imports Vfs Tarfs_Correct
begin

text \<open>
  The name space of the virtual file system: what a path resolves to when every node of the mounted
  trees is looked up afresh, against the \<open>VFSNode\<close> objects the code creates on the way and keeps.
\<close>

section \<open>Physical trees\<close>

fun pchild :: "Vfs \<Rightarrow> PFSNode \<Rightarrow> u64 \<Rightarrow> PFSNode option" where
  "pchild st (TempFSNode t) h = map_option TempFSNode (try_get_value (tmp_children (tmp_nodes st ! t)) h)"
| "pchild st DeviceFSRootNode h = map_option DeviceFSNode (try_get_value (devices (dev_manager st)) h)"
| "pchild st (TarNode dv t) h = map_option (TarNode dv) (try_get_value (tn_children (tar_nodes st ! t)) h)"
| "pchild st _ h = None"

fun pn_ok :: "Vfs \<Rightarrow> PFSNode \<Rightarrow> bool" where
  "pn_ok st (TempFSNode t) \<longleftrightarrow> t < length (tmp_nodes st)"
| "pn_ok st (TarNode dv t) \<longleftrightarrow> t < length (tar_nodes st)"
| "pn_ok st _ \<longleftrightarrow> True"

definition trees_ok :: "Vfs \<Rightarrow> bool" where
  "trees_ok st \<longleftrightarrow> (\<forall>p h q. pn_ok st p \<longrightarrow> pchild st p h = Some q \<longrightarrow> pn_ok st q)"

lemma pfs_get_child_pchild:
  "pn_ok st p \<Longrightarrow> pfs_get_child st p name = Inr (pchild st p (fst (get_hash name)))"
  by (cases p) (simp_all add: tmp_at_def get_child_def node_at_def try_get_device_by_name_def)

section \<open>Virtual nodes\<close>

definition vkids :: "Vfs \<Rightarrow> nat \<Rightarrow> u64 \<Rightarrow> nat option" where
  "vkids st v h = (if v < length (vnodes st) then try_get_value (vn_children (vnodes st ! v)) h else None)"

definition vfs_ok :: "Vfs \<Rightarrow> nat \<Rightarrow> bool" where
  "vfs_ok st r \<longleftrightarrow> root_vnode st = Some r \<and> r < length (vnodes st) \<and> trees_ok st \<and> unique_paths (vkids st) r \<and>
    (\<forall>v < length (vnodes st). map_ok (vn_children (vnodes st ! v)) \<and>
      (\<exists>p. vn_pn (vnodes st ! v) = Some p \<and> pn_ok st p) \<and>
      (\<forall>h w. vkids st v h = Some w \<longrightarrow> w < length (vnodes st)))"

text \<open>What the path \<open>hs\<close> from the node \<open>v\<close> leads to: cached nodes as far as they go, then the tree of the last one.\<close>

fun resolve :: "Vfs \<Rightarrow> nat \<Rightarrow> u64 list \<Rightarrow> PFSNode option" where
  "resolve st v [] = vn_pn (vnodes st ! v)"
| "resolve st v (h # hs) =
    (case vkids st v h of
       Some w \<Rightarrow> resolve st w hs
     | None \<Rightarrow> (case vn_pn (vnodes st ! v) of None \<Rightarrow> None | Some p \<Rightarrow> walk (pchild st) p (h # hs)))"

lemma resolve_walk: "walk (vkids st) r p = Some v \<Longrightarrow> resolve st r (p @ q) = resolve st v q"
  by (induction p arbitrary: r) (auto split: option.splits)

lemma resolve_leaf:
  "(\<And>h. vkids st v h = None) \<Longrightarrow> vn_pn (vnodes st ! v) = Some p \<Longrightarrow> resolve st v hs = walk (pchild st) p hs"
  by (cases hs) simp_all

lemma vfs_ok_walk: "vfs_ok st r \<Longrightarrow> walk (vkids st) r q = Some v \<Longrightarrow> v < length (vnodes st)"
  using walk_closed [of "{..<length (vnodes st)}" "vkids st" r q v] unfolding vfs_ok_def by auto

lemma vfs_okD:
  assumes "vfs_ok st r" and "v < length (vnodes st)"
  obtains p where "vn_pn (vnodes st ! v) = Some p" "pn_ok st p" "map_ok (vn_children (vnodes st ! v))"
    "\<And>h w. vkids st v h = Some w \<Longrightarrow> w < length (vnodes st)"
  using assms unfolding vfs_ok_def by auto

lemma resolve_None:
  assumes "vfs_ok st r"
  shows "v < length (vnodes st) \<Longrightarrow> resolve st v p = None \<Longrightarrow> resolve st v (p @ q) = None"
proof (induction p arbitrary: v)
  case Nil
  then show ?case
    using vfs_okD [OF assms Nil(1)] by (metis option.distinct(1) resolve.simps(1))
next
  case (Cons h p)
  show ?case
  proof (cases "vkids st v h")
    case None
    then show ?thesis
      using Cons.prems by (auto simp: tree_walk_append split: option.splits)
  next
    case (Some w)
    then have "w < length (vnodes st)"
      using vfs_okD [OF assms Cons.prems(1)] by metis
    then show ?thesis
      using Some Cons by simp
  qed
qed

text \<open>Hanging a fresh node below \<open>v\<close> for a physical child.\<close>

lemma link_child:
  assumes ok: "vfs_ok st r" and v: "walk (vkids st) r q = Some v" and p: "vn_pn (vnodes st ! v) = Some p"
    and a: "pchild st p h = Some a" and free: "vkids st v h = None"
    and m: "map_ok m" "\<And>k. try_get_value m k = (if k = h then Some (length (vnodes st)) else try_get_value (vn_children (vnodes st ! v)) k)"
    and st': "st' = st\<lparr>vnodes := (vnodes st @ [\<lparr>vn_parent = Some v, vn_pn = Some a, vn_children = map_empty\<rparr>])
      [v := (vnodes st ! v)\<lparr>vn_children := m\<rparr>]\<rparr>"
  shows "vfs_ok st' r" and "x < length (vnodes st) \<Longrightarrow> resolve st' x hs = resolve st x hs"
    and "walk (vkids st') r (q @ [h]) = Some (length (vnodes st))"
    and "vn_pn (vnodes st' ! length (vnodes st)) = Some a"
    and "walk (vkids st) r y = Some x \<Longrightarrow> walk (vkids st') r y = Some x"
proof -
  let ?g = "length (vnodes st)"
  have vl: "v < ?g"
    by (rule vfs_ok_walk [OF ok v])
  have pc: "pchild st' = pchild st"
  proof (intro ext)
    show "pchild st' y j = pchild st y j" for y j
      by (cases y) (simp_all add: st')
  qed
  have po: "pn_ok st' = pn_ok st"
  proof (intro ext)
    show "pn_ok st' y = pn_ok st y" for y
      by (cases y) (simp_all add: st')
  qed
  have len: "length (vnodes st') = Suc ?g"
    by (simp add: st')
  have n: "vnodes st' ! v = (vnodes st ! v)\<lparr>vn_children := m\<rparr>"
    "vnodes st' ! ?g = \<lparr>vn_parent = Some v, vn_pn = Some a, vn_children = map_empty\<rparr>"
    "\<And>x. x < ?g \<Longrightarrow> x \<noteq> v \<Longrightarrow> vnodes st' ! x = vnodes st ! x"
    using vl by (simp_all add: st' nth_append)
  have k: "vkids st' = (\<lambda>x j. if x = v \<and> j = h then Some ?g else vkids st x j)"
  proof (intro ext)
    fix x j
    consider "x = v" | "x = ?g" | "x < ?g" "x \<noteq> v" | "x > ?g"
      by linarith
    then show "vkids st' x j = (if x = v \<and> j = h then Some ?g else vkids st x j)"
      using vl by cases (simp_all add: vkids_def len n m(2) rb.get_empty)
  qed
  have g: "walk (vkids st) r y \<noteq> Some ?g" "vkids st ?g j = None" for y j
    using vfs_ok_walk [OF ok, of y ?g] by (auto simp: vkids_def)
  have u: "unique_paths (vkids st) r"
    using ok by (simp add: vfs_ok_def)
  have "pn_ok st a"
    using ok p vl a unfolding vfs_ok_def trees_ok_def by (metis option.inject)
  have each: "map_ok (vn_children (vnodes st' ! x)) \<and> (\<exists>p. vn_pn (vnodes st' ! x) = Some p \<and> pn_ok st p) \<and>
      (\<forall>j w. vkids st' x j = Some w \<longrightarrow> w < Suc ?g)" if x: "x < Suc ?g" for x
  proof (cases "x = ?g")
    case True
    then show ?thesis
      using n(2) \<open>pn_ok st a\<close> rb.ok_empty vl g(2) by (simp add: k)
  next
    case False
    then have xl: "x < ?g"
      using x by simp
    from vfs_okD [OF ok this] obtain px where px: "vn_pn (vnodes st ! x) = Some px" "pn_ok st px"
      "map_ok (vn_children (vnodes st ! x))" "\<And>h w. vkids st x h = Some w \<Longrightarrow> w < ?g"
      by blast
    have "\<forall>j w. vkids st' x j = Some w \<longrightarrow> w < Suc ?g"
      using px(4) by (auto simp: k less_SucI)
    moreover have "map_ok (vn_children (vnodes st' ! x))"
      using n(1,3) xl m(1) px(3) by (cases "x = v") simp_all
    moreover have "vn_pn (vnodes st' ! x) = Some px"
      using n(1,3) xl px(1) by (cases "x = v") simp_all
    ultimately show ?thesis
      using px(2) by blast
  qed
  have "unique_paths (vkids st') r"
    by (rule unique_link [OF u v free g k])
  moreover have "trees_ok st'"
    using ok by (simp add: vfs_ok_def trees_ok_def pc po)
  moreover have "root_vnode st' = Some r" "r < length (vnodes st')"
    using ok by (simp_all add: vfs_ok_def len) (simp add: st')
  ultimately show "vfs_ok st' r"
    using each unfolding vfs_ok_def po len by blast
  show "walk (vkids st') r (q @ [h]) = Some ?g"
    using walk_link [OF u v free g k] by simp
  show "vn_pn (vnodes st' ! ?g) = Some a"
    by (simp add: n(2))
  show "walk (vkids st') r y = Some x" if "walk (vkids st) r y = Some x"
    using that walk_link [OF u v free g k, of y] v free by (auto simp: walk_snoc)
  have leaf: "resolve st' ?g hs = walk (pchild st) a hs" for hs
    using resolve_leaf [of st' ?g a hs] n(2) g(2) vl by (simp add: k pc)
  show "resolve st' x hs = resolve st x hs" if "x < ?g"
    using that
  proof (induction hs arbitrary: x)
    case Nil
    then show ?case
      using n(1,3) by (cases "x = v") simp_all
  next
    case (Cons j hs)
    have pn: "vn_pn (vnodes st' ! x) = vn_pn (vnodes st ! x)"
      using n(1,3) Cons.prems by (cases "x = v") simp_all
    show ?case
    proof (cases "x = v \<and> j = h")
      case True
      then show ?thesis
        using free p a leaf by (simp add: k)
    next
      case False
      show ?thesis
      proof (cases "vkids st x j")
        case (Some w)
        then have "w < ?g"
          using vfs_okD [OF ok Cons.prems] by metis
        then show ?thesis
          using False Some Cons.IH [of w] by (auto simp: k)
      qed (use False pn in \<open>auto simp: k pc split: option.splits\<close>)
    qed
  qed
qed

lemma vfs_get_child_ok:
  assumes ok: "vfs_ok st r" and v: "walk (vkids st) r q = Some v" and h: "h = fst (get_hash name)"
  shows "\<exists>c st'. vfs_get_child st v name = Inr (c, st') \<and> vfs_ok st' r \<and> (\<forall>hs. resolve st' r hs = resolve st r hs) \<and>
    (\<forall>y x. walk (vkids st) r y = Some x \<longrightarrow> walk (vkids st') r y = Some x) \<and>
    (case c of
       None \<Rightarrow> resolve st r (q @ [h]) = None
     | Some w \<Rightarrow> walk (vkids st') r (q @ [h]) = Some w)"
proof -
  have vl: "v < length (vnodes st)"
    by (rule vfs_ok_walk [OF ok v])
  have rl: "r < length (vnodes st)"
    using ok by (simp add: vfs_ok_def)
  from vfs_okD [OF ok vl] obtain p where p: "vn_pn (vnodes st ! v) = Some p" "pn_ok st p"
    "map_ok (vn_children (vnodes st ! v))"
    by metis
  have res: "resolve st r (q @ [h]) = resolve st v [h]"
    by (rule resolve_walk [OF v])
  show ?thesis
  proof (cases "vkids st v h")
    case (Some w)
    then have "vfs_get_child st v name = Inr (Some w, st)"
      using vl p(1) h by (simp add: vfs_get_child_def vnode_at_def vkids_def)
    moreover have "walk (vkids st) r (q @ [h]) = Some w"
      using v Some by (simp add: walk_snoc)
    ultimately show ?thesis
      using ok by auto
  next
    case None
    then have lk: "try_get_value (vn_children (vnodes st ! v)) (fst (get_hash name)) = None"
      using vl h by (simp add: vkids_def)
    show ?thesis
    proof (cases "pchild st p h")
      case None
      then have "vfs_get_child st v name = Inr (None, st)"
        using vl p(1,2) lk h by (simp add: vfs_get_child_def vnode_at_def pfs_get_child_pchild)
      moreover have "resolve st v [h] = None"
        using \<open>vkids st v h = None\<close> p(1) None by simp
      ultimately show ?thesis
        using ok res by auto
    next
      case (Some a)
      obtain m where m: "Map_add (vn_children (vnodes st ! v)) h (length (vnodes st)) = Inr m" "map_ok m"
        "\<And>k. try_get_value m k = (if k = h then Some (length (vnodes st)) else try_get_value (vn_children (vnodes st ! v)) k)"
        using Map_add_law [OF p(3), of h "length (vnodes st)"] by blast
      define st' where "st' = st\<lparr>vnodes := (vnodes st @ [\<lparr>vn_parent = Some v, vn_pn = Some a, vn_children = map_empty\<rparr>])
        [v := (vnodes st ! v)\<lparr>vn_children := m\<rparr>]\<rparr>"
      note l = link_child [OF ok v p(1) Some \<open>vkids st v h = None\<close> m(2,3) st'_def]
      have "vfs_get_child st v name = Inr (Some (length (vnodes st)), st')"
        using vl p(1,2) lk m(1) Some h
        by (simp add: vfs_get_child_def vnode_at_def pfs_get_child_pchild VFSNode_new_def st'_def)
      then show ?thesis
        using l(1,3,5) l(2) [OF rl] by auto
    qed
  qed
qed

section \<open>Paths\<close>

definition component_ok :: "bytes \<Rightarrow> bool" where
  "component_ok c \<longleftrightarrow> c \<noteq> [] \<and> 0 \<notin> set c \<and> slash \<notin> set c \<and> length c < 256"

definition key :: "bytes \<Rightarrow> u64" where
  "key c = compute_hash (string_of c)"

definition path_of :: "bytes list \<Rightarrow> bytes" where
  "path_of cs = concat (map (\<lambda>c. slash # c) cs)"

lemma copy_component_ok:
  assumes "0 \<notin> set c" and "slash \<notin> set c" and "i + length c \<le> length component" and "e = 0 \<or> e = slash"
  shows "copy_component (c @ e # rest) component i =
    Inr (take i component @ c @ drop (i + length c) component, i + length c, e # rest)"
  using assms(1-3)
proof (induction c arbitrary: component i)
  case Nil
  then show ?case
    using assms(4) by auto
next
  case (Cons x c)
  have x: "x \<noteq> 0" "x \<noteq> slash" "i < length component"
    using Cons.prems by auto
  have "copy_component (c @ e # rest) (component[i := x]) (Suc i) =
      Inr (take (Suc i) (component[i := x]) @ c @ drop (Suc i + length c) (component[i := x]), Suc i + length c, e # rest)"
    using Cons by simp
  moreover have "take (Suc i) (component[i := x]) = take i component @ [x]"
    using x(3) by (simp add: take_Suc_conv_app_nth)
  ultimately show ?case
    using x by (simp add: put_def)
qed

lemma copy_component_long:
  assumes "0 \<notin> set c" and "slash \<notin> set c" and "length component < i + length c" and "i \<le> length component"
  shows "copy_component (c @ rest) component i = Inl OutOfBounds"
  using assms
proof (induction c arbitrary: component i)
  case (Cons x c)
  have x: "x \<noteq> 0" "x \<noteq> slash"
    using Cons.prems by auto
  show ?case
  proof (cases "i < length component")
    case True
    then have "copy_component (c @ rest) (component[i := x]) (Suc i) = Inl OutOfBounds"
      using Cons.prems by (intro Cons.IH) auto
    then show ?thesis
      using x True by (simp add: put_def)
  next
    case False
    then show ?thesis
      using x by (simp add: put_def)
  qed
qed simp

text \<open>One round of the loop of \<open>lookup_node\<close>, up to the call of \<open>get_child\<close>.\<close>

lemma lookup_step:
  assumes "0 \<notin> set c" and "slash \<notin> set c" and "length c < 256" and "length component = 256" and "e = 0 \<or> e = slash"
  shows "\<exists>component'. length component' = 256 \<and>
    lookup_loop (Suc fuel) st component (c @ e # rest) v =
      (if c = [] then Inr (Some v, st)
       else andthen (vfs_get_child st v (string_of c)) (\<lambda>(child, st). case child of
            None \<Rightarrow> Inr (None, st)
          | Some w \<Rightarrow> lookup_loop fuel st component' (if e = slash then rest else e # rest) w))"
proof -
  have cp: "copy_component (c @ e # rest) component 0 = Inr (c @ drop (length c) component, length c, e # rest)"
    using copy_component_ok [OF assms(1,2) _ assms(5), of 0 component rest] assms(3,4) by simp
  let ?k = "(c @ drop (length c) component)[length c := 0]"
  have pt: "put (c @ drop (length c) component) (length c) 0 = Inr ?k"
    using assms(3,4) by (simp add: put_def)
  obtain r where r: "?k = c @ 0 # r"
    using assms(3,4) by (cases "drop (length c) component") (simp_all add: list_update_append)
  have sl: "strlen (Some ?k) = Inr (length c)"
    unfolding r using assms(1) by simp
  have nm: "String_cstr (Some ?k) = Inr (string_of c)"
    unfolding r by (rule String_cstr_nul [OF assms(1)])
  show ?thesis
    using cp pt sl nm assms(3,4,5) by (intro exI [of _ ?k]) auto
qed

declare lookup_loop.simps(2) [simp del]

lemma get_hash_key: "fst (get_hash (string_of c)) = key c"
  by (simp add: key_def get_hash_string_of)

text \<open>A path stops at its terminator, at a slash before it, or at two slashes in a row.\<close>

definition path_end :: "bytes \<Rightarrow> bool" where
  "path_end e \<longleftrightarrow> e = [0] \<or> (\<exists>x rest. e = slash # x # rest \<and> (x = 0 \<or> x = slash))"

lemma lookup_last:
  assumes "component_ok c" and "length component = 256" and "path_end e"
  shows "lookup_loop (Suc (Suc fuel)) st component (c @ e) v =
    andthen (vfs_get_child st v (string_of c)) (\<lambda>(w, st). Inr (w, st))"
proof -
  have c: "0 \<notin> set c" "slash \<notin> set c" "length c < 256" "c \<noteq> []"
    using assms(1) by (auto simp: component_ok_def)
  obtain a rest x r where a: "e = a # rest" "a = 0 \<or> a = slash" "(if a = slash then rest else a # rest) = x # r" "x = 0 \<or> x = slash"
    using assms(3) by (auto simp: path_end_def slash_def)
  from lookup_step [OF c(1,2,3) assms(2) a(2), of "Suc fuel" st rest v] obtain k where
    k: "length k = 256" "lookup_loop (Suc (Suc fuel)) st component (c @ a # rest) v =
      andthen (vfs_get_child st v (string_of c)) (\<lambda>(child, st). case child of
          None \<Rightarrow> Inr (None, st)
        | Some w \<Rightarrow> lookup_loop (Suc fuel) st k (x # r) w)"
    using c(4) unfolding a(3) by auto
  have stop: "lookup_loop (Suc fuel) st1 k (x # r) w = Inr (Some w, st1)" for st1 w
    using lookup_step [of "[]" k x fuel st1 r w] k(1) a(4) by auto
  show ?thesis
    unfolding a(1) k(2) stop by (rule arg_cong [of _ _ "andthen _"]) (auto split: option.splits)
qed

lemma lookup_loop_ok:
  assumes "vfs_ok st r" and "walk (vkids st) r q = Some v" and "\<forall>c \<in> set (c # cs). component_ok c"
    and "length component = 256" and "Suc (Suc (length cs)) \<le> fuel" and e: "path_end e"
  shows "\<exists>w st'. lookup_loop fuel st component (c @ path_of cs @ e) v = Inr (w, st') \<and> vfs_ok st' r \<and>
    (\<forall>hs. resolve st' r hs = resolve st r hs) \<and>
    (\<forall>y x. walk (vkids st) r y = Some x \<longrightarrow> walk (vkids st') r y = Some x) \<and>
    (case w of
       None \<Rightarrow> resolve st r (q @ map key (c # cs)) = None
     | Some x \<Rightarrow> walk (vkids st') r (q @ map key (c # cs)) = Some x)"
  using assms(1-5)
proof (induction cs arbitrary: st q v c component fuel)
  case Nil
  obtain f where f: "fuel = Suc (Suc f)"
    using Nil.prems(5) by (cases fuel rule: nat.exhaust, simp) (metis Suc_le_D Suc_le_mono)
  have c: "component_ok c"
    using Nil.prems(3) by simp
  from vfs_get_child_ok [OF Nil.prems(1,2) refl, of "string_of c"] obtain w st1 where
    g: "vfs_get_child st v (string_of c) = Inr (w, st1)" "vfs_ok st1 r" "\<forall>hs. resolve st1 r hs = resolve st r hs"
      "\<forall>y x. walk (vkids st) r y = Some x \<longrightarrow> walk (vkids st1) r y = Some x"
      "case w of None \<Rightarrow> resolve st r (q @ [key c]) = None | Some x \<Rightarrow> walk (vkids st1) r (q @ [key c]) = Some x"
    unfolding get_hash_key by blast
  have "lookup_loop fuel st component (c @ path_of [] @ e) v = Inr (w, st1)"
    using lookup_last [OF c Nil.prems(4) e, of f st v] g(1) f by (simp add: path_of_def)
  then show ?case
    using g by (cases w) auto
next
  case (Cons d cs)
  obtain f where f: "fuel = Suc f" "Suc (Suc (length cs)) \<le> f"
    using Cons.prems(5) by (cases fuel) auto
  have c: "0 \<notin> set c" "slash \<notin> set c" "length c < 256" "c \<noteq> []"
    using Cons.prems(3) by (auto simp: component_ok_def)
  from lookup_step [OF c(1,2,3) Cons.prems(4), of slash f st "d @ path_of cs @ e" v] obtain k where
    k: "length k = 256"
      "lookup_loop fuel st component (c @ path_of (d # cs) @ e) v =
        andthen (vfs_get_child st v (string_of c)) (\<lambda>(child, st). case child of
            None \<Rightarrow> Inr (None, st)
          | Some w \<Rightarrow> lookup_loop f st k (d @ path_of cs @ e) w)"
    using c(4) unfolding f(1) by (auto simp: path_of_def)
  from vfs_get_child_ok [OF Cons.prems(1,2) refl, of "string_of c"] obtain w st1 where
    g: "vfs_get_child st v (string_of c) = Inr (w, st1)" "vfs_ok st1 r" "\<forall>hs. resolve st1 r hs = resolve st r hs"
      "\<forall>y x. walk (vkids st) r y = Some x \<longrightarrow> walk (vkids st1) r y = Some x"
      "case w of None \<Rightarrow> resolve st r (q @ [key c]) = None | Some x \<Rightarrow> walk (vkids st1) r (q @ [key c]) = Some x"
    unfolding get_hash_key by blast
  show ?case
  proof (cases w)
    case None
    then have "resolve st r ((q @ [key c]) @ key d # map key cs) = None"
      using resolve_None [OF Cons.prems(1), of r "q @ [key c]" "key d # map key cs"] g(5) Cons.prems(1)
      by (simp add: vfs_ok_def)
    then show ?thesis
      using g k(2) None by simp
  next
    case (Some x)
    then have x: "walk (vkids st1) r (q @ [key c]) = Some x"
      using g(5) by simp
    have "\<forall>x \<in> set (d # cs). component_ok x"
      using Cons.prems(3) by simp
    from Cons.IH [OF g(2) x this k(1) f(2)] obtain y st2 where
      y: "lookup_loop f st1 k (d @ path_of cs @ e) x = Inr (y, st2)" "vfs_ok st2 r"
        "\<forall>hs. resolve st2 r hs = resolve st1 r hs"
        "\<forall>y x. walk (vkids st1) r y = Some x \<longrightarrow> walk (vkids st2) r y = Some x"
        "case y of None \<Rightarrow> resolve st1 r ((q @ [key c]) @ map key (d # cs)) = None
         | Some z \<Rightarrow> walk (vkids st2) r ((q @ [key c]) @ map key (d # cs)) = Some z"
      by blast
    have "lookup_loop fuel st component (c @ path_of (d # cs) @ e) v = Inr (y, st2)"
      using k(2) g(1) Some y(1) by simp
    then show ?thesis
      using y(2-5) g(3,4) by (cases y) auto
  qed
qed

lemma length_path_of: "\<forall>c \<in> set cs. component_ok c \<Longrightarrow> 2 * length cs \<le> length (path_of cs)"
proof (induction cs)
  case (Cons c cs)
  then show ?case
    by (cases c) (auto simp: path_of_def component_ok_def)
qed (simp add: path_of_def)

lemma lookup_node_ok:
  assumes ok: "vfs_ok st r" and cs: "\<forall>c \<in> set cs. component_ok c" "cs \<noteq> []" and g: "256 \<le> length garbage"
    and e: "path_end e" and s: "str_data spath = Some (path_of cs @ e)"
  shows "\<exists>w st'. lookup_node garbage st spath = Inr (w, st') \<and> vfs_ok st' r \<and>
    (\<forall>hs. resolve st' r hs = resolve st r hs) \<and>
    (\<forall>y x. walk (vkids st) r y = Some x \<longrightarrow> walk (vkids st') r y = Some x) \<and>
    (case w of
       None \<Rightarrow> resolve st r (map key cs) = None
     | Some x \<Rightarrow> walk (vkids st') r (map key cs) = Some x)"
proof -
  obtain c ds where c: "cs = c # ds"
    using cs(2) by (cases cs) auto
  obtain x xs where x: "c = x # xs" "x \<noteq> 0"
    using cs(1) c by (cases c) (auto simp: component_ok_def)
  have l: "Suc (Suc (length ds)) \<le> length (path_of cs @ e)"
    using length_path_of [OF cs(1)] c by simp
  have "length (take 256 garbage) = 256"
    using g by simp
  moreover have "lookup_node garbage st spath =
      lookup_loop (length (path_of cs @ e)) st (take 256 garbage) (c @ path_of ds @ e) r"
    using ok s x(2) by (simp add: lookup_node_def c_str_def path_of_def c x(1) vfs_ok_def slash_def)
  moreover have "walk (vkids st) r [] = Some r" "\<forall>c \<in> set (c # ds). component_ok c"
    using cs(1) c by simp_all
  ultimately show ?thesis
    using lookup_loop_ok [OF ok _ _ _ l e, of "[]" r c "take 256 garbage"] unfolding c append_Nil by simp
qed

lemma lookup_node_long:
  assumes "root_vnode st = Some r" and "0 \<notin> set c" and "slash \<notin> set c" and "256 < length c"
    and g: "256 \<le> length garbage" and s: "str_data spath = Some (slash # c @ rest)"
  shows "lookup_node garbage st spath = Inl OutOfBounds"
proof -
  obtain x xs where x: "c = x # xs" "x \<noteq> 0"
    using assms(2,4) by (cases c) auto
  have "copy_component (c @ rest) (take 256 garbage) 0 = Inl OutOfBounds"
    using assms(2-4) g by (intro copy_component_long) simp_all
  then have "lookup_loop (Suc n) st (take 256 garbage) (c @ rest) r = Inl OutOfBounds" for n
    by (simp only: lookup_loop.simps(2) andthen_Inl)
  then show ?thesis
    using assms(1) s x by (simp add: lookup_node_def c_str_def slash_def)
qed

section \<open>Mounting\<close>

text \<open>Mounting only adds nodes to the physical trees.\<close>

definition grows :: "Vfs \<Rightarrow> Vfs \<Rightarrow> bool" where
  "grows st st' \<longleftrightarrow> vnodes st' = vnodes st \<and> root_vnode st' = root_vnode st \<and> filesystems st' = filesystems st \<and>
    dev_manager st' = dev_manager st \<and>
    length (tmp_nodes st) \<le> length (tmp_nodes st') \<and> (\<forall>t < length (tmp_nodes st). tmp_nodes st' ! t = tmp_nodes st ! t) \<and>
    length (tar_nodes st) \<le> length (tar_nodes st') \<and> (\<forall>t < length (tar_nodes st). tar_nodes st' ! t = tar_nodes st ! t)"

lemma grows_refl: "grows st st"
  by (simp add: grows_def)

lemma grows_pchild: "grows st st' \<Longrightarrow> pn_ok st p \<Longrightarrow> pchild st' p h = pchild st p h"
  by (cases p) (simp_all add: grows_def)

lemma grows_pn_ok: "grows st st' \<Longrightarrow> pn_ok st p \<Longrightarrow> pn_ok st' p"
  by (cases p) (auto simp: grows_def)

lemma grows_walk:
  assumes "grows st st'" and "trees_ok st" and "pn_ok st p"
  shows "walk (pchild st') p hs = walk (pchild st) p hs"
  using assms by (intro walk_cong [of "{p. pn_ok st p}"]) (auto simp: grows_pchild trees_ok_def)

text \<open>Building a tar tree behind the nodes below \<open>base\<close>.\<close>

definition tar_frame :: "nat \<Rightarrow> tarfs_heap \<Rightarrow> bool" where
  "tar_frame base fs \<longleftrightarrow> base \<le> length fs \<and>
    (\<forall>n. base \<le> n \<and> n < length fs \<longrightarrow> map_ok (tn_children (fs ! n)) \<and>
      (\<forall>h m. kids fs n h = Some m \<longrightarrow> base \<le> m \<and> m < length fs))"

lemma tar_frameD:
  assumes "tar_frame base fs"
  shows "base \<le> length fs"
    and "base \<le> n \<Longrightarrow> n < length fs \<Longrightarrow> map_ok (tn_children (fs ! n))"
    and "base \<le> n \<Longrightarrow> kids fs n h = Some m \<Longrightarrow> base \<le> m \<and> m < length fs"
proof -
  show "base \<le> length fs" and "base \<le> n \<Longrightarrow> n < length fs \<Longrightarrow> map_ok (tn_children (fs ! n))"
    using assms unfolding tar_frame_def by blast+
  show "base \<le> m \<and> m < length fs" if b: "base \<le> n" and k: "kids fs n h = Some m"
  proof -
    have "n < length fs"
      using k by (simp add: kids_def split: if_splits)
    then show ?thesis
      using assms b k unfolding tar_frame_def by blast
  qed
qed

lemma tar_frameI:
  assumes "base \<le> length fs" and "\<And>n. base \<le> n \<Longrightarrow> n < length fs \<Longrightarrow> map_ok (tn_children (fs ! n))"
    and "\<And>n h m. base \<le> n \<Longrightarrow> kids fs n h = Some m \<Longrightarrow> base \<le> m \<and> m < length fs"
  shows "tar_frame base fs"
  using assms unfolding tar_frame_def by blast

lemma tar_frame_new:
  assumes "tar_frame base fs"
  shows "tar_frame base (snd (TarFSNode_new fs pa nm))"
proof (rule tar_frameI)
  let ?fs = "snd (TarFSNode_new fs pa nm)"
  have l: "length ?fs = Suc (length fs)"
    by (simp add: TarFSNode_new_def)
  show "base \<le> length ?fs"
    using tar_frameD(1) [OF assms] l by simp
  show "map_ok (tn_children (?fs ! n))" if "base \<le> n" "n < length ?fs" for n
    using that tar_frameD(2) [OF assms that(1)] rb.ok_empty
    by (cases "n = length fs") (simp_all add: TarFSNode_new_def nth_append)
  show "base \<le> m \<and> m < length ?fs" if n: "base \<le> n" and k: "kids ?fs n h = Some m" for n h m
  proof -
    have "n < length ?fs"
      using k by (simp add: kids_def split: if_splits)
    then have "kids fs n h = Some m"
      using k l by (cases "n = length fs") (simp_all add: kids_def TarFSNode_new_def nth_append rb.get_empty)
    then show ?thesis
      using tar_frameD(3) [OF assms n] l by (simp add: less_SucI)
  qed
qed

lemma tar_frame_add:
  assumes f: "tar_frame base fs" and p: "base \<le> p" "p < length fs" and c: "base \<le> c" "c < length fs"
    and a: "add_child fs p nm c = Inr fs'"
  shows "tar_frame base fs' \<and> length fs' = length fs \<and> (\<forall>n. n \<noteq> p \<longrightarrow> fs' ! n = fs ! n)"
proof -
  obtain m where m: "Map_add (tn_children (fs ! p)) (fst (get_hash nm)) c = Inr m" "map_ok m"
    "\<And>k. try_get_value m k = (if k = fst (get_hash nm) then Some c else try_get_value (tn_children (fs ! p)) k)"
    using Map_add_law [OF tar_frameD(2) [OF f p], of "fst (get_hash nm)" c] by blast
  have fs': "fs' = fs[p := (fs ! p)\<lparr>tn_children := m\<rparr>]"
    using a m(1) p(2) by (simp add: add_child_def node_at_def)
  have k: "kids fs' n h = (if n = p \<and> h = fst (get_hash nm) then Some c else kids fs n h)" for n h
    using p(2) m(3) by (cases "n = p") (simp_all add: kids_def fs')
  have "tar_frame base fs'"
  proof (rule tar_frameI)
    show "base \<le> length fs'"
      using tar_frameD(1) [OF f] by (simp add: fs')
    show "map_ok (tn_children (fs' ! n))" if "base \<le> n" "n < length fs'" for n
      using that tar_frameD(2) [OF f that(1)] m(2) p(2) by (cases "n = p") (simp_all add: fs')
    show "base \<le> x \<and> x < length fs'" if "base \<le> n" "kids fs' n h = Some x" for n h x
      using that(2) tar_frameD(3) [OF f that(1), of h x] c unfolding k by (auto simp: fs' split: if_splits)
  qed
  then show ?thesis
    by (simp add: fs')
qed

lemma tar_frame_mark:
  assumes "tar_frame base fs" and "n < length fs" and "tn_children x = tn_children (fs ! n)"
  shows "tar_frame base (fs[n := x])"
proof -
  have c: "tn_children (fs[n := x] ! k) = tn_children (fs ! k)" for k
    using assms(2,3) by (cases "k = n") simp_all
  then have k: "kids (fs[n := x]) = kids fs"
    by (intro ext) (simp add: kids_def)
  show ?thesis
    using assms(1) unfolding tar_frame_def k c length_list_update .
qed

lemma descend_frame:
  assumes "tar_frame base fs" and "base \<le> n" and "n < length fs" and "descend ss fs n = Inr (m, fs')"
  shows "tar_frame base fs' \<and> base \<le> m \<and> m < length fs' \<and> length fs \<le> length fs' \<and> (\<forall>k < base. fs' ! k = fs ! k)"
  using assms
proof (induction ss arbitrary: fs n)
  case (Cons s ss)
  let ?h = "fst (get_hash s)"
  have g: "get_child fs n s = Inr (kids fs n ?h)"
    using Cons.prems(3) by (simp add: get_child_def node_at_def kids_def)
  show ?case
  proof (cases "kids fs n ?h")
    case (Some c)
    then have "base \<le> c" "c < length fs"
      using tar_frameD(3) [OF Cons.prems(1,2), of ?h c] by simp_all
    then show ?thesis
      using Cons.IH [of fs c] Cons.prems(1,4) g Some by simp
  next
    case None
    obtain c fs1 where c: "TarFSNode_new fs (Some n) s = (c, fs1)"
      by (cases "TarFSNode_new fs (Some n) s")
    then have f1: "tar_frame base fs1" "c = length fs" "length fs1 = Suc (length fs)" "\<forall>k < length fs. fs1 ! k = fs ! k"
      using tar_frame_new [OF Cons.prems(1), of "Some n" s] by (auto simp: TarFSNode_new_def nth_append)
    obtain fs2 where a: "add_child fs1 n s c = Inr fs2" "descend ss fs2 c = Inr (m, fs')"
      using Cons.prems(4) g None c by (auto simp: andthen_eq_Inr)
    have b: "base \<le> length fs"
      by (rule tar_frameD(1) [OF Cons.prems(1)])
    have f2: "tar_frame base fs2 \<and> length fs2 = length fs1 \<and> (\<forall>k. k \<noteq> n \<longrightarrow> fs2 ! k = fs1 ! k)"
      using f1(2,3) Cons.prems(2,3) b by (intro tar_frame_add [OF f1(1) _ _ _ _ a(1)]) simp_all
    then have "tar_frame base fs' \<and> base \<le> m \<and> m < length fs' \<and> length fs2 \<le> length fs' \<and> (\<forall>k < base. fs' ! k = fs2 ! k)"
      using f1(2,3) b by (intro Cons.IH [OF _ _ _ a(2)]) simp_all
    then show ?thesis
      using f2 f1(3,4) Cons.prems(2) b by auto
  qed
qed simp

lemma build_recursive_frame:
  assumes "tar_frame base fs" and "base \<le> root" and "root < length fs"
    and "BuildTreeRecursive fuel fs root header n = Inr fs'"
  shows "tar_frame base fs' \<and> length fs \<le> length fs' \<and> (\<forall>k < base. fs' ! k = fs ! k)"
proof -
  obtain path m fs1 sz where p: "descend path fs root = Inr (m, fs1)"
    "andthen (set_block_offset fs1 m n) (\<lambda>fs. set_size fs m sz) = Inr fs'"
    using assms(4) by (auto simp: BuildTreeRecursive_def andthen_eq_Inr)
  note f = descend_frame [OF assms(1-3) p(1)]
  have fs': "fs' = (fs1[m := (fs1 ! m)\<lparr>tn_has_block_offset := True, tn_block_offset := n\<rparr>])
      [m := (fs1 ! m)\<lparr>tn_has_block_offset := True, tn_block_offset := n, tn_size := sz\<rparr>]"
    using p(2) f by (simp add: set_block_offset_def set_size_def node_at_def)
  have "tar_frame base fs'"
    unfolding fs' using f by (intro tar_frame_mark) simp_all
  then show ?thesis
    using f by (simp add: fs')
qed

lemma build_loop_frame:
  assumes "tar_frame base fs" and "base \<le> root" and "root < length fs"
    and "build_loop fuel dev root n buffer fs = Inr (r, fs')"
  shows "tar_frame base fs' \<and> length fs \<le> length fs' \<and> (\<forall>k < base. fs' ! k = fs ! k) \<and> (r = None \<or> r = Some root)"
  using assms
proof (induction fuel arbitrary: fs n buffer)
  case (Suc fuel)
  show ?case
  proof (cases "unat n < block_count dev")
    case True
    obtain ok buf where rd: "read_blocks dev buffer (unat n) = Inr (ok, buf)"
      using Suc.prems(4) True by (cases "read_blocks dev buffer (unat n)") auto
    show ?thesis
    proof (cases ok)
      case False
      then show ?thesis
        using Suc.prems True rd by simp
    next
      case ok: True
      obtain z where z: "is_zero_block buf 512 = Inr z"
        using Suc.prems(4) True rd ok by (cases "is_zero_block buf 512") auto
      show ?thesis
      proof (cases z)
        case True
        then show ?thesis
          using Suc.prems \<open>unat n < block_count dev\<close> rd ok z by simp
      next
        case False
        obtain tf :: u8 and fs1 n' where st: "(if tf = 48 then BuildTreeRecursive 513 fs root buf n else Inr fs) = Inr fs1"
          "build_loop fuel dev root n' buf fs1 = Inr (r, fs')"
          using Suc.prems(4) \<open>unat n < block_count dev\<close> rd ok z False by (auto simp: andthen_eq_Inr)
        have f1: "tar_frame base fs1 \<and> length fs \<le> length fs1 \<and> (\<forall>k < base. fs1 ! k = fs ! k)"
        proof (cases "tf = 48")
          case True
          then show ?thesis
            using st(1) by (intro build_recursive_frame [OF Suc.prems(1-3)]) simp
        qed (use st(1) Suc.prems(1) in simp)
        then show ?thesis
          using Suc.IH [OF _ Suc.prems(2) _ st(2)] Suc.prems(3) by auto
      qed
    qed
  qed (use Suc.prems in simp)
qed simp

lemma build_tree_frame:
  assumes "build_tree fuel dev garbage fs = Inr (r, fs')"
  shows "tar_frame (length fs) fs' \<and> (\<forall>k < length fs. fs' ! k = fs ! k) \<and> (r = None \<or> r = Some (length fs)) \<and> length fs < length fs'"
proof -
  let ?n = "TarFSNode_new fs None (string_of [])"
  have n: "fst ?n = length fs" "length (snd ?n) = Suc (length fs)" "\<forall>k < length fs. snd ?n ! k = fs ! k"
    by (simp_all add: TarFSNode_new_def nth_append)
  have f: "tar_frame (length fs) (snd ?n)"
    by (rule tar_frame_new) (auto simp: tar_frame_def)
  have "build_loop fuel dev (length fs) 0 (take 512 garbage) (snd ?n) = Inr (r, fs')"
    using assms n(1) by (simp add: build_tree_def split_beta)
  from build_loop_frame [OF f _ _ this] n(2,3) show ?thesis
    by auto
qed

lemma fs_mount_grows:
  assumes ok: "trees_ok st" and m: "fs_mount env st fs = Inr (pn, st')"
  shows "grows st st' \<and> trees_ok st' \<and> (\<forall>p. pn = Some p \<longrightarrow> pn_ok st' p)"
proof (cases fs)
  case TempFS
  let ?t = "length (tmp_nodes st)"
  have st': "st' = st\<lparr>tmp_nodes := tmp_nodes st @ [\<lparr>tmp_name = String_copy (string_of []), tmp_children = map_empty\<rparr>]\<rparr>"
    "pn = Some (TempFSNode ?t)"
    using m TempFS by (simp_all add: TempFSNode_new_def)
  have g: "grows st st'"
    by (simp add: grows_def st' nth_append)
  have "pn_ok st' q" if "pn_ok st' p" "pchild st' p h = Some q" for p h q
  proof (cases "p = TempFSNode ?t")
    case True
    then show ?thesis
      using that by (simp add: st' rb.get_empty)
  next
    case False
    then have "pn_ok st p"
      using that(1) by (cases p) (auto simp: st')
    then show ?thesis
      using that(2) ok g grows_pn_ok grows_pchild unfolding trees_ok_def by metis
  qed
  then show ?thesis
    using g by (simp add: trees_ok_def st')
next
  case (TarFSOn d)
  obtain r ts where b: "build_tree (tar_fuel env) (block_dev env d) (junk env) (tar_nodes st) = Inr (r, ts)"
    and st': "st' = st\<lparr>tar_nodes := ts\<rparr>" "pn = map_option (TarNode d) r"
    using m TarFSOn by (auto simp: andthen_eq_Inr)
  note f = build_tree_frame [OF b]
  have g: "grows st st'"
    using f by (simp add: grows_def st')
  have "pn_ok st' q" if a: "pn_ok st' p" "pchild st' p h = Some q" for p h q
  proof (cases "pn_ok st p")
    case True
    then show ?thesis
      using a(2) ok g grows_pn_ok grows_pchild unfolding trees_ok_def by metis
  next
    case False
    then obtain dv t where p: "p = TarNode dv t" "length (tar_nodes st) \<le> t" "t < length ts"
      using a(1) by (cases p) (auto simp: st')
    obtain x where x: "kids ts t h = Some x" "q = TarNode dv x"
      using a(2) p(1,3) by (auto simp: st' kids_def)
    have "tar_frame (length (tar_nodes st)) ts"
      using f by simp
    from tar_frameD(3) [OF this p(2) x(1)] show ?thesis
      using x(2) by (simp add: st')
  qed
  then show ?thesis
    using g f by (auto simp: trees_ok_def st')
qed (use assms in \<open>auto simp: grows_refl andthen_eq_Inr vfat_mount_def split: if_splits prod.splits\<close>)

text \<open>
  A graft at \<open>v\<close> empties its cached children and gives it another tree; nodes from which \<open>v\<close> is not reached
  resolve as before, and below \<open>v\<close> the new tree is seen.
\<close>

definition grafted :: "Vfs \<Rightarrow> nat \<Rightarrow> PFSNode \<Rightarrow> Vfs \<Rightarrow> bool" where
  "grafted st v pn st' \<longleftrightarrow> length (vnodes st') = length (vnodes st) \<and> v < length (vnodes st) \<and>
    vn_pn (vnodes st' ! v) = Some pn \<and> vkids st' = (\<lambda>x h. if x = v then None else vkids st x h) \<and>
    (\<forall>x. x \<noteq> v \<longrightarrow> vnodes st' ! x = vnodes st ! x) \<and>
    (\<forall>p hs. pn_ok st p \<longrightarrow> walk (pchild st') p hs = walk (pchild st) p hs)"

lemma graftedD:
  assumes "grafted st v pn st'"
  shows "v < length (vnodes st)" "vn_pn (vnodes st' ! v) = Some pn" "vkids st' v h = None"
    and "x \<noteq> v \<Longrightarrow> vkids st' x h = vkids st x h" and "x \<noteq> v \<Longrightarrow> vnodes st' ! x = vnodes st ! x"
    and "pn_ok st p \<Longrightarrow> walk (pchild st') p hs = walk (pchild st) p hs"
  using assms by (simp_all add: grafted_def)

lemma resolve_off:
  assumes "vfs_ok st r" and g: "grafted st v pn st'"
  shows "x < length (vnodes st) \<Longrightarrow> (\<And>c. walk (vkids st) x c \<noteq> Some v) \<Longrightarrow> resolve st' x q = resolve st x q"
proof (induction q arbitrary: x)
  case Nil
  then show ?case
    using graftedD(5) [OF g, of x] Nil(2) [of "[]"] by auto
next
  case (Cons l q)
  have xv: "x \<noteq> v"
    using Cons.prems(2) [of "[]"] by auto
  from vfs_okD [OF assms(1) Cons.prems(1)] obtain p where p: "vn_pn (vnodes st ! x) = Some p" "pn_ok st p"
    "\<And>h w. vkids st x h = Some w \<Longrightarrow> w < length (vnodes st)"
    by blast
  show ?case
  proof (cases "vkids st x l")
    case None
    then show ?thesis
      using p(1) graftedD(4,5) [OF g xv] graftedD(6) [OF g p(2), of "l # q"] by simp
  next
    case (Some w)
    then have "walk (vkids st) w c \<noteq> Some v" for c
      using Cons.prems(2) [of "l # c"] by simp
    then show ?thesis
      using Some graftedD(4) [OF g xv] p(3) Cons.IH [of w] by simp
  qed
qed

text \<open>A step off the path to \<open>v\<close> leads where \<open>v\<close> is not reached.\<close>

lemma resolve_step_off:
  assumes ok: "vfs_ok st r" and g: "grafted st v pn st'" and x: "x < length (vnodes st)" "x \<noteq> v"
    and "\<And>c. walk (vkids st) x (j # c) \<noteq> Some v"
  shows "resolve st' x (j # q) = resolve st x (j # q)"
proof -
  from vfs_okD [OF ok x(1)] obtain p where p: "vn_pn (vnodes st ! x) = Some p" "pn_ok st p"
    "\<And>h w. vkids st x h = Some w \<Longrightarrow> w < length (vnodes st)"
    by blast
  show ?thesis
  proof (cases "vkids st x j")
    case None
    then show ?thesis
      using p(1) graftedD(4,5) [OF g x(2)] graftedD(6) [OF g p(2), of "j # q"] by simp
  next
    case (Some w)
    then have "walk (vkids st) w c \<noteq> Some v" for c
      using assms(5) [of c] by simp
    then show ?thesis
      using Some graftedD(4) [OF g x(2)] p(3) resolve_off [OF ok g, of w q] by simp
  qed
qed

lemma resolve_grafted:
  assumes ok: "vfs_ok st r" and v: "walk (vkids st) r p = Some v" and g: "grafted st v pn st'"
  shows "walk (vkids st) r z = Some x \<Longrightarrow> walk (vkids st) x y = Some v \<Longrightarrow>
    walk (vkids st') x y = Some v \<and>
    resolve st' x q = (if take (length y) q = y then walk (pchild st') pn (drop (length y) q) else resolve st x q)"
proof (induction y arbitrary: x z q)
  case Nil
  then show ?case
    using resolve_leaf [of st' v pn q] graftedD(2,3) [OF g] by simp
next
  case (Cons h y)
  have u: "unique_paths (vkids st) r"
    using ok by (simp add: vfs_ok_def)
  have on: "z @ c = z @ h # y" if "walk (vkids st) x c = Some v" for c
    using unique_pathsD [OF u, of "z @ c" v "z @ h # y"] Cons.prems that by (simp add: tree_walk_append)
  have xl: "x < length (vnodes st)"
    by (rule vfs_ok_walk [OF ok Cons.prems(1)])
  have xv: "x \<noteq> v"
    using on [of "[]"] by auto
  obtain w where w: "vkids st x h = Some w" "walk (vkids st) w y = Some v" "vkids st' x h = Some w"
    using Cons.prems(2) graftedD(4) [OF g xv] by (auto split: option.splits)
  have "walk (vkids st) r (z @ [h]) = Some w"
    using Cons.prems(1) w(1) by (simp add: walk_snoc)
  note ih = Cons.IH [OF this w(2)]
  show ?case
  proof (cases q)
    case Nil
    then show ?thesis
      using ih [of "[]"] w graftedD(5) [OF g xv] by simp
  next
    case (Cons j q')
    show ?thesis
    proof (cases "j = h")
      case True
      then show ?thesis
        using ih [of q'] w Cons by simp
    next
      case False
      then have "resolve st' x (j # q') = resolve st x (j # q')"
        using on [of "j # _"] by (intro resolve_step_off [OF ok g xl xv]) (metis append_same_eq list.inject same_append_eq)
      then show ?thesis
        using ih [of "[]"] w False Cons by simp
    qed
  qed
qed

lemma mount_grafts:
  assumes ok: "vfs_ok st r" and v: "v < length (vnodes st)"
    and gr: "grows st st1" and t1: "trees_ok st1" and pn: "pn_ok st1 pn"
    and st': "st' = st1\<lparr>vnodes := (vnodes st1)[v := (vnodes st1 ! v)\<lparr>vn_pn := Some pn, vn_children := map_clear (vn_children (vnodes st1 ! v))\<rparr>]\<rparr>"
  shows "grafted st v pn st'" and "vfs_ok st' r"
proof -
  have eq: "vnodes st1 = vnodes st" "root_vnode st1 = root_vnode st"
    using gr by (simp_all add: grows_def)
  have n: "length (vnodes st') = length (vnodes st)" "vn_pn (vnodes st' ! v) = Some pn"
    "vn_children (vnodes st' ! v) = map_empty" "\<And>x. x \<noteq> v \<Longrightarrow> vnodes st' ! x = vnodes st ! x"
    using v by (simp_all add: st' eq map_clear_def map_empty_def)
  have k: "vkids st' x h = (if x = v then None else vkids st x h)" for x h
    using v by (cases "x = v") (simp_all add: vkids_def n rb.get_empty)
  have pc: "pchild st' y j = pchild st1 y j" and po: "pn_ok st' y = pn_ok st1 y" for y j
    by (cases y; simp add: st')+
  have tr: "trees_ok st"
    using ok by (simp add: vfs_ok_def)
  have pw: "walk (pchild st') = walk (pchild st1)"
    using pc by (metis ext)
  show "grafted st v pn st'"
    unfolding grafted_def pw using n v grows_walk [OF gr tr] by (simp add: k fun_eq_iff)
  have sub: "walk (vkids st') x y = Some z \<Longrightarrow> walk (vkids st) x y = Some z" for x y z
    by (induction y arbitrary: x) (auto simp: k split: option.splits if_splits)
  have "unique_paths (vkids st) r"
    using ok by (simp add: vfs_ok_def)
  then have "unique_paths (vkids st') r"
    unfolding unique_paths_def using sub by blast
  moreover have "map_ok (vn_children (vnodes st' ! x)) \<and> (\<exists>p. vn_pn (vnodes st' ! x) = Some p \<and> pn_ok st1 p) \<and>
      (\<forall>j w. vkids st' x j = Some w \<longrightarrow> w < length (vnodes st))" if x: "x < length (vnodes st)" for x
  proof (cases "x = v")
    case True
    then show ?thesis
      using n(2,3) pn rb.ok_empty by (simp add: k)
  next
    case False
    from vfs_okD [OF ok x] obtain px where "vn_pn (vnodes st ! x) = Some px" "pn_ok st px"
      "map_ok (vn_children (vnodes st ! x))" "\<And>h w. vkids st x h = Some w \<Longrightarrow> w < length (vnodes st)"
      by blast
    then show ?thesis
      using False n(4) grows_pn_ok [OF gr, of px] by (simp add: k)
  qed
  moreover have "trees_ok st'"
    using t1 by (simp add: trees_ok_def pc po)
  moreover have "root_vnode st' = Some r" "r < length (vnodes st')"
    using ok eq n(1) by (simp_all add: vfs_ok_def) (simp add: st')
  ultimately show "vfs_ok st' r"
    unfolding vfs_ok_def po n(1) by blast
qed

end
