(* ===== verification/Devices_Correct.thy ===== *)
theory Devices_Correct
  imports Devices Util_String_Correct Util_Map_Correct
begin

text \<open>
  The class hierarchy, the names the device manager gives, and partitions.
\<close>

section \<open>The class hierarchy\<close>

definition parent_rel :: "DeviceClass list \<Rightarrow> (nat \<times> nat) set" where
  "parent_rel cs = {(a, b). a < length cs \<and> dc_parent (cs ! a) = Some b}"

text \<open>The static constructors run a class's parent before the class.\<close>

definition classes_ok :: "DeviceClass list \<Rightarrow> bool" where
  "classes_ok cs \<longleftrightarrow> (\<forall>(a, b) \<in> parent_rel cs. b < a)"

lemma rtrancl_unique_step:
  assumes "(a, b) \<in> R" and "\<And>x. (a, x) \<in> R \<Longrightarrow> x = b" and "a \<noteq> c"
  shows "(a, c) \<in> R\<^sup>* \<longleftrightarrow> (b, c) \<in> R\<^sup>*"
proof
  assume "(a, c) \<in> R\<^sup>*"
  then obtain x where "(a, x) \<in> R" "(x, c) \<in> R\<^sup>*"
    using assms(3) by (cases rule: converse_rtranclE) auto
  then show "(b, c) \<in> R\<^sup>*"
    using assms(2) by blast
qed (rule converse_rtrancl_into_rtrancl [OF assms(1)])

lemma class_is_ancestor:
  assumes "classes_ok cs" and "this < length cs" and "this < fuel"
  shows "class_is fuel cs this type = Inr ((this, type) \<in> (parent_rel cs)\<^sup>*)"
  using assms(2,3)
proof (induction fuel arbitrary: this)
  case (Suc fuel)
  show ?case
  proof (cases "this = type")
    case False
    show ?thesis
    proof (cases "dc_parent (cs ! this)")
      case None
      then have "(this, b) \<notin> parent_rel cs" for b
        by (simp add: parent_rel_def)
      then have "(this, type) \<notin> (parent_rel cs)\<^sup>*"
        using False by (auto elim: converse_rtranclE)
      then show ?thesis
        using False None Suc.prems(1) by (simp add: class_at_def)
    next
      case (Some p)
      then have r: "(this, p) \<in> parent_rel cs" and u: "\<And>b. (this, b) \<in> parent_rel cs \<Longrightarrow> b = p"
        using Suc.prems(1) by (auto simp: parent_rel_def)
      have "p < this"
        using assms(1) r by (auto simp: classes_ok_def)
      then have "class_is fuel cs p type = Inr ((p, type) \<in> (parent_rel cs)\<^sup>*)"
        using Suc.IH [of p] Suc.prems by simp
      moreover have "(this, type) \<in> (parent_rel cs)\<^sup>* \<longleftrightarrow> (p, type) \<in> (parent_rel cs)\<^sup>*"
        using False by (intro rtrancl_unique_step r) (rule u)
      ultimately show ?thesis
        using False Some Suc.prems(1) by (simp add: class_at_def)
    qed
  qed simp
qed simp

definition of_class :: "DeviceManager \<Rightarrow> nat \<Rightarrow> nat \<Rightarrow> bool" where
  "of_class dm type d \<longleftrightarrow> (dev_class (device_heap dm ! d), type) \<in> (parent_rel (classes dm))\<^sup>*"

definition manager_ok :: "DeviceManager \<Rightarrow> bool" where
  "manager_ok dm \<longleftrightarrow> map_ok (devices dm) \<and> classes_ok (classes dm) \<and>
    (\<forall>d \<in> set (device_heap dm). dev_class d < length (classes dm)) \<and>
    (\<forall>h d. try_get_value (devices dm) h = Some d \<longrightarrow> d < length (device_heap dm))"

lemma first_of_class_find:
  assumes "classes_ok (classes dm)"
    and "\<forall>e \<in> set es. snd e < length (device_heap dm) \<and> dev_class (device_heap dm ! snd e) < length (classes dm)"
  shows "first_of_class dm type es = Inr (map_option snd (find (\<lambda>e. of_class dm type (snd e)) es))"
  using assms(2)
  by (induction es)
    (simp_all add: device_at_def class_is_ancestor [OF assms(1)] of_class_def del: class_is.simps)

lemma find_None_Some:
  "find P xs = None \<longleftrightarrow> (\<forall>x \<in> set xs. \<not> P x)"
  "find P xs = Some x \<Longrightarrow> x \<in> set xs \<and> P x"
  by (auto simp: find_None_iff find_Some_iff)

text \<open>
  (\<open>device-manager.h\<close>, \<open>try_get_device_by_class\<close>; \<open>device.h\<close>, \<open>DeviceClass::is\<close>). On a
  well-formed manager the search by class returns; it finds a registered device whose class is the given class or descends from it,
  and fails only when no registered device is.
\<close>

theorem device_by_class_correct:
  assumes "manager_ok dm"
  shows "\<exists>p. try_get_device_by_class dm type = Inr p \<and>
    (case p of
       None \<Rightarrow> \<forall>h d. try_get_value (devices dm) h = Some d \<longrightarrow> \<not> of_class dm type d
     | Some d \<Rightarrow> of_class dm type d \<and> (\<exists>h. try_get_value (devices dm) h = Some d))"
proof -
  have mem: "(h, d) \<in> set (map_iterate (devices dm)) \<longleftrightarrow> try_get_value (devices dm) h = Some d" for h d
    using map_iterate_lookup assms by (auto simp: manager_ok_def)
  let ?f = "find (\<lambda>e. of_class dm type (snd e)) (map_iterate (devices dm))"
  have "\<forall>e \<in> set (map_iterate (devices dm)).
      snd e < length (device_heap dm) \<and> dev_class (device_heap dm ! snd e) < length (classes dm)"
    using mem assms by (auto simp: manager_ok_def)
  then have "try_get_device_by_class dm type = Inr (map_option snd ?f)"
    using assms by (simp add: try_get_device_by_class_def first_of_class_find manager_ok_def)
  moreover have "case map_option snd ?f of
       None \<Rightarrow> \<forall>h d. try_get_value (devices dm) h = Some d \<longrightarrow> \<not> of_class dm type d
     | Some d \<Rightarrow> of_class dm type d \<and> (\<exists>h. try_get_value (devices dm) h = Some d)"
  proof (cases ?f)
    case None
    then have "\<forall>e \<in> set (map_iterate (devices dm)). \<not> of_class dm type (snd e)"
      using find_None_Some(1) by metis
    then have "\<forall>h d. try_get_value (devices dm) h = Some d \<longrightarrow> \<not> of_class dm type d"
      using mem by force
    then show ?thesis
      unfolding None by simp
  next
    case (Some e)
    then have "e \<in> set (map_iterate (devices dm))" "of_class dm type (snd e)"
      using find_None_Some(2) [OF Some] by simp_all
    then show ?thesis
      using Some mem [of "fst e" "snd e"] by auto
  qed
  ultimately show ?thesis
    by blast
qed

section \<open>Registration\<close>

text \<open>What registration needs of a driver's \<open>init\<close>: it returns, and keeps the devices already registered.\<close>

definition init_ok :: "(nat \<Rightarrow> DeviceManager \<Rightarrow> (bool \<times> DeviceManager) result) \<Rightarrow> bool" where
  "init_ok init \<longleftrightarrow> (\<forall>d dm. \<exists>ok dm'. init d dm = Inr (ok, dm') \<and>
    (\<forall>h e. try_get_value (devices dm) h = Some e \<longrightarrow> try_get_value (devices dm') h = Some e))"

lemma andthen_result: "andthen m (\<lambda>(ok, dm). if \<not> ok then Inr (False, dm) else Inr (True, dm)) = m"
  by (cases m) (auto simp: andthen_def split: prod.splits)

lemma string_append_ok:
  "chars (string_append (string_of a) (string_of b)) = a @ b" "string_ok (string_append (string_of a) (string_of b))"
  by (simp_all add: string_ok_closed)

text \<open>
  Registration up to the driver's \<open>init\<close>: the device has its name and is in the map.
\<close>

lemma register_device_steps:
  assumes "map_ok (devices dm)" and "d < length (device_heap dm)"
    and c: "c = dev_class (device_heap dm ! d)" "c < length (classes dm)"
    and nm: "dc_name (classes dm ! c) = nm @ 0 # r" "0 \<notin> set nm" and "length garbage = 16"
  shows "\<exists>name ds m'. chars name = nm @ ds \<and> numeral_value ds = unat (ucast (dc_instance (classes dm ! c)) :: u32) \<and>
    fst (get_hash name) = compute_hash name \<and> Map_add (devices dm) (compute_hash name) d = Inr m' \<and> map_ok m' \<and>
    (\<forall>k. try_get_value m' k = (if k = compute_hash name then Some d else try_get_value (devices dm) k)) \<and>
    (\<forall>init. register_device init garbage dm d = init d
      (dm\<lparr>classes := (classes dm)[c := (classes dm ! c)\<lparr>dc_instance := dc_instance (classes dm ! c) + 1\<rparr>],
          device_heap := (device_heap dm)[d := (device_heap dm ! d)\<lparr>dev_name := name\<rparr>], devices := m'\<rparr>))"
proof -
  let ?i = "dc_instance (classes dm ! c)"
  obtain ds where ds: "ToString garbage (ucast ?i) = Inr (string_of ds)" "numeral_value ds = unat (ucast ?i :: u32)"
    using ToString_digits [OF assms(7)] by metis
  let ?name = "string_assign (dev_name (device_heap dm ! d)) (string_append (string_of nm) (string_of ds))"
  have n: "chars ?name = nm @ ds" "fst (get_hash ?name) = compute_hash ?name"
    by (simp_all add: string_append_ok) (simp add: get_hash_def string_assign_def Let_def)
  obtain m' where m: "Map_add (devices dm) (compute_hash ?name) d = Inr m'" "map_ok m'"
    "\<forall>k'. try_get_value m' k' = (if k' = compute_hash ?name then Some d else try_get_value (devices dm) k')"
    using Map_add_law [OF assms(1), of "compute_hash ?name" d] by blast
  have cs: "String_cstr (Some (nm @ 0 # r)) = Inr (string_of nm)"
    using nm(2) by (simp add: String_cstr_def string_of_def)
  have "register_device init garbage dm d = init d
      (dm\<lparr>classes := (classes dm)[c := (classes dm ! c)\<lparr>dc_instance := ?i + 1\<rparr>],
          device_heap := (device_heap dm)[d := (device_heap dm ! d)\<lparr>dev_name := ?name\<rparr>], devices := m'\<rparr>)" for init
    using assms(2) c nm(1) cs ds(1) m(1) n(2)
    by (simp add: register_device_def device_at_def acquire_instance_def class_at_def assign_name_def get_name_def
          andthen_result)
  then show ?thesis
    using n ds(2) m by blast
qed


text \<open>Two devices, a block device of class \<open>block\<close> below the root class and a plain one.\<close>

definition two_devices :: DeviceManager where
  "two_devices =
    \<lparr>classes = [\<lparr>dc_parent = None, dc_name = [0], dc_instance = 0\<rparr>,
                \<lparr>dc_parent = Some 0, dc_name = [98, 108, 107, 0], dc_instance = 7\<rparr>],
     device_heap = [\<lparr>dev_name = String_empty, dev_class = 0\<rparr>, \<lparr>dev_name = String_empty, dev_class = 1\<rparr>],
     devices = \<lparr>map_root = MapNode BLACK 5 1 Null Null, map_count = 1\<rparr>\<rparr>"

lemma two_devices_ok: "manager_ok two_devices"
proof -
  have "Map_add map_empty (5 :: u64) (1 :: nat) = Inr (devices two_devices)"
    by (simp add: Map_add_def map_empty_def two_devices_def)
  then have "map_ok (devices two_devices)"
    using Map_add_law [OF rb.ok_empty, of "5 :: u64" "1 :: nat"] by auto
  moreover have "classes_ok (classes two_devices)"
    by (auto simp: classes_ok_def parent_rel_def two_devices_def nth_Cons split: nat.splits)
  ultimately show ?thesis
    by (auto simp: manager_ok_def two_devices_def try_get_value_def split: if_splits)
qed

theorem device_by_class_correct_witness:
  "\<exists>p. try_get_device_by_class two_devices 1 = Inr p \<and> (p = None \<longrightarrow> \<not> of_class two_devices 1 1)"
proof -
  have "try_get_value (devices two_devices) 5 = Some 1"
    by (simp add: two_devices_def try_get_value_def)
  then show ?thesis
    using device_by_class_correct [OF two_devices_ok, of 1] by (auto split: option.splits)
qed


section \<open>Partitions\<close>

text \<open>
  (\<open>block-device-partition.cpp\<close>). A partition of a partition behaves as one partition of the underlying
  device at the sum of the offsets. Neither checks the requested blocks against its count, so the count only changes what \<open>block_count\<close> reports.
\<close>

theorem partition_compose:
  "BlockDevicePartition (BlockDevicePartition dev a n) b m = BlockDevicePartition dev (a + b) m"
  by (simp add: BlockDevicePartition_def add.assoc)

end
