(* ===== verification/Vfs_Props.thy ===== *)
theory Vfs_Props
  imports Vfs_Correct Devices_Correct
begin

text \<open>
  The properties of the virtual file system: initialisation, lookup against the uncached name space, mounting,
  directories made in a tmpfs, and the paths the lookup mistreats.
\<close>

section \<open>Initialisation\<close>

definition vfs_blank :: "DeviceManager \<Rightarrow> Vfs" where
  "vfs_blank dm = \<lparr>filesystems = List_new, root_vnode = None, vnodes = [], tmp_nodes = [], tar_nodes = [], dev_manager = dm\<rparr>"

definition rootfs_reg :: FilesystemRegistration where
  "rootfs_reg = \<lparr>reg_name = rootfs_name, reg_fs = Rootfs\<rparr>"

definition nul_terminated :: "bytes \<Rightarrow> bool" where
  "nul_terminated s \<longleftrightarrow> 0 \<in> set s"

lemma strlen_walk_takeWhile: "0 \<in> set s \<Longrightarrow> strlen_walk s = Inr (length (takeWhile (\<lambda>c. c \<noteq> 0) s))"
  by (induction s) auto

lemma strncmp_walk_same: "0 \<notin> set cs \<Longrightarrow> strncmp_walk (cs @ 0 # r) (cs @ 0 # r') n = Inr 0"
  by (induction cs arbitrary: n) auto

text \<open>Names of different length are told apart by their lengths; the comparison returns for every pair of terminated names.\<close>

lemma strncmp_walk_total:
  "0 \<in> set s \<Longrightarrow> 0 \<in> set t \<Longrightarrow> \<exists>c. strncmp_walk s t n = Inr c"
proof (induction s arbitrary: t n)
  case (Cons a s)
  then show ?case
    by (cases t) auto
qed simp

lemma strncmp_total:
  assumes "0 \<in> set s" and "0 \<in> set t"
  shows "\<exists>c. strncmp (Some s) (Some t) n = Inr c"
  using strncmp_walk_total [OF assms, of n] assms
  by (auto simp: strncmp_def strlen_def strlen_walk_takeWhile)

lemma strncmp_refl: "0 \<notin> set cs \<Longrightarrow> strncmp (Some (cs @ 0 # r)) (Some (cs @ 0 # r')) n = Inr 0"
  using strncmp_walk_same [of cs r r' n] by (simp add: strncmp_def)

text \<open>The first registration whose name compares equal is taken.\<close>

lemma lookup_fs_first:
  fixes reg :: FilesystemRegistration and regs :: "FilesystemRegistration list"
  assumes "\<forall>reg \<in> set regs. \<exists>c. strncmp (Some (reg_name reg)) (c_str s) 16 = Inr c \<and> c \<noteq> 0"
    and "strncmp (Some (reg_name reg)) (c_str s) 16 = Inr 0"
  shows "lookup_fs_in (regs @ reg # later) s = Inr (Some reg)"
  using assms(1) by (induction regs) (auto simp: assms(2))

lemma elems_foldl_append: "elems (foldl list_append l xs) = elems l @ xs"
  by (induction xs arbitrary: l) simp_all

lemma single_root_ok:
  assumes "vnodes st = [\<lparr>vn_parent = None, vn_pn = Some p, vn_children = map_empty\<rparr>]"
    and "root_vnode st = Some 0" and "trees_ok st" and "pn_ok st p"
  shows "vfs_ok st 0" and "resolve st 0 hs = walk (pchild st) p hs"
proof -
  have k: "vkids st v h = None" for v h
    using assms(1) by (auto simp: vkids_def rb.get_empty)
  have w: "walk (vkids st) 0 p = (if p = [] then Some 0 else None)" for p
    by (cases p) (simp_all add: k)
  show "vfs_ok st 0"
    using assms k w rb.ok_empty by (simp add: vfs_ok_def unique_paths_def)
  show "resolve st 0 hs = walk (pchild st) p hs"
    using assms(1) by (intro resolve_leaf) (simp_all add: k)
qed

lemma trees_ok_empty: "tmp_nodes st = [] \<Longrightarrow> tar_nodes st = [] \<Longrightarrow> trees_ok st"
  unfolding trees_ok_def
proof (intro allI impI)
  fix p h q
  assume "tmp_nodes st = []" "tar_nodes st = []" "pn_ok st p" "pchild st p h = Some q"
  then show "pn_ok st q"
    by (cases p) auto
qed

text \<open>
  (\<open>vfs.cpp\<close>, \<open>VirtualFilesystem::init\<close>). With a registration of \<open>rootfs\<close> that no earlier
  one hides, initialisation succeeds and leaves a well-formed name space in which the root is the rootfs node and no other path leads anywhere.
\<close>

theorem vfs_init_correct:
  fixes regs :: "FilesystemRegistration list"
  assumes "\<forall>reg \<in> set regs. \<exists>c. strncmp (Some (reg_name reg)) (Some rootfs_name) 16 = Inr c \<and> c \<noteq> 0"
  shows "\<exists>st. vfs_init env (regs @ rootfs_reg # later) (vfs_blank dm) = Inr (True, st) \<and> vfs_ok st 0 \<and>
    (\<forall>hs. resolve st 0 hs = (if hs = [] then Some RootFSNode else None)) \<and>
    elems (filesystems st) = regs @ rootfs_reg # later \<and> dev_manager st = dm"
proof -
  let ?s = "string_of [114, 111, 111, 116, 102, 115]"
  define st0 where "st0 = (vfs_blank dm)\<lparr>filesystems := foldl list_append (filesystems (vfs_blank dm)) (regs @ rootfs_reg # later)\<rparr>"
  have "filesystems st0 = foldl list_append List_new (regs @ rootfs_reg # later)"
    by (simp add: st0_def vfs_blank_def del: foldl_append foldl_Cons)
  then have fs: "elems (filesystems st0) = regs @ rootfs_reg # later"
    by (simp only: elems_foldl_append elems_simps append_Nil)
  have c: "c_str ?s = Some rootfs_name"
    by (simp add: c_str_def string_of_def rootfs_name_def)
  have "String_cstr (Some rootfs_name) = Inr ?s"
    using String_cstr_nul [of "[114, 111, 111, 116, 102, 115]" "[]"] by (simp add: rootfs_name_def)
  moreover have "strncmp (Some (reg_name rootfs_reg)) (c_str ?s) 16 = Inr 0"
    using strncmp_refl [of "[114, 111, 111, 116, 102, 115]" "[]" "[]" 16] c by (simp add: rootfs_reg_def rootfs_name_def)
  then have "lookup_fs st0 ?s = Inr (Some rootfs_reg)"
    unfolding lookup_fs_def fs using assms c by (intro lookup_fs_first) simp_all
  ultimately have i: "instantiate_fs env st0 rootfs_name None = Inr (Some RootFS)"
    by (simp add: instantiate_fs_def rootfs_reg_def)
  define st where "st = st0\<lparr>vnodes := [\<lparr>vn_parent = None, vn_pn = Some RootFSNode, vn_children = map_empty\<rparr>], root_vnode := Some 0\<rparr>"
  have v: "vnodes st0 = []" "tmp_nodes st0 = []" "tar_nodes st0 = []" "dev_manager st0 = dm"
    by (simp_all add: st0_def vfs_blank_def)
  have r: "resolve st 0 hs = walk (pchild st) RootFSNode hs" "vfs_ok st 0" for hs
    using v by (intro single_root_ok [where p = RootFSNode] trees_ok_empty; simp add: st_def)+
  have "walk (pchild st) RootFSNode hs = (if hs = [] then Some RootFSNode else None)" for hs
    by (cases hs) simp_all
  moreover have "vfs_init env (regs @ rootfs_reg # later) (vfs_blank dm) = Inr (True, st)"
    using i v by (simp add: vfs_init_def Let_def st0_def [symmetric] VFSNode_new_def st_def del: foldl_append)
  ultimately show ?thesis
    using fs v r by (intro exI [of _ st]) (simp add: st_def)
qed

text \<open>The table of the kernel's own file systems.\<close>

definition tmpfs_reg :: FilesystemRegistration where
  "tmpfs_reg = \<lparr>reg_name = [116, 109, 112, 102, 115, 0], reg_fs = Tmpfs\<rparr>"

definition plain_env :: fs_env where
  "plain_env = \<lparr>block_dev = (\<lambda>_. one_file_device), block_class = 1, kind_of = TerminalDevice, tar_fuel = 2,
     junk = replicate 512 7, junk_word = 0\<rparr>"

theorem vfs_init_correct_witness:
  "\<exists>st. vfs_init plain_env [tmpfs_reg, rootfs_reg] (vfs_blank two_devices) = Inr (True, st) \<and> vfs_ok st 0 \<and>
    resolve st 0 [] = Some RootFSNode"
proof -
  have "\<forall>reg \<in> set [tmpfs_reg]. \<exists>c. strncmp (Some (reg_name reg)) (Some rootfs_name) 16 = Inr c \<and> c \<noteq> 0"
    by (simp add: tmpfs_reg_def rootfs_name_def strncmp_def strlen_def)
  from vfs_init_correct [OF this, of plain_env "[]" two_devices] show ?thesis
    by (metis append_Cons append_Nil)
qed

section \<open>Lookup\<close>


text \<open>A state whose root is a devfs with one device, named \<open>a\<close>.\<close>

definition dev_root :: Vfs where
  "dev_root = \<lparr>filesystems = \<lparr>elems = [tmpfs_reg], lcount = 1\<rparr>, root_vnode = Some 0,
     vnodes = [\<lparr>vn_parent = None, vn_pn = Some DeviceFSRootNode, vn_children = map_empty\<rparr>],
     tmp_nodes = [], tar_nodes = [],
     dev_manager = two_devices\<lparr>devices := \<lparr>map_root = MapNode BLACK (key [97]) 1 Null Null, map_count = 1\<rparr>\<rparr>\<rparr>"

lemma dev_root_ok: "vfs_ok dev_root 0" "resolve dev_root 0 hs = walk (pchild dev_root) DeviceFSRootNode hs"
  by (intro single_root_ok [where p = DeviceFSRootNode] trees_ok_empty; simp add: dev_root_def)+

lemma dev_root_a: "pchild dev_root DeviceFSRootNode (key [97]) = Some (DeviceFSNode 1)"
  by (simp add: dev_root_def try_get_value_def)


text \<open>
  (\<open>vfs.cpp\<close>, \<open>lookup_node\<close>). An empty component ends the lookup at the node reached so far: whatever follows
  two slashes is ignored, so \<open>/a//b\<close> opens \<open>/a\<close>. A component of more than 256 characters is written past the end of the array on the stack.
\<close>

theorem vfs_lookup_departures:
  assumes "vfs_ok st r" and "\<forall>c \<in> set cs. component_ok c" and "cs \<noteq> []" and "256 \<le> length garbage"
    and "0 \<notin> set long" and "slash \<notin> set long" and "256 < length long"
  shows "(\<exists>w st'. lookup_node garbage st (string_of (path_of cs @ slash # slash # rest)) = Inr (w, st') \<and>
      (w = None \<longleftrightarrow> resolve st r (map key cs) = None) \<and> (w \<noteq> None \<longrightarrow> walk (vkids st') r (map key cs) = w)) \<and>
    lookup_node garbage st (string_of (slash # long @ rest)) = Inl OutOfBounds"
proof
  let ?p = "string_of (path_of cs @ slash # slash # rest)"
  have "str_data ?p = Some (path_of cs @ slash # slash # rest @ [0])"
    by (simp add: string_of_def)
  moreover have "path_end (slash # slash # rest @ [0])"
    by (simp add: path_end_def)
  ultimately obtain w st' where l: "lookup_node garbage st ?p = Inr (w, st')" "vfs_ok st' r"
    "\<forall>hs. resolve st' r hs = resolve st r hs"
    "case w of None \<Rightarrow> resolve st r (map key cs) = None | Some x \<Rightarrow> walk (vkids st') r (map key cs) = Some x"
    using lookup_node_ok [OF assms(1-4)] by blast
  have "resolve st r (map key cs) \<noteq> None" if "walk (vkids st') r (map key cs) = Some x" for x
    using resolve_walk [OF that, of "[]"] vfs_okD [OF l(2) vfs_ok_walk [OF l(2) that]] l(3)
    by (metis append_Nil2 option.distinct(1) resolve.simps(1))
  then show "\<exists>w st'. lookup_node garbage st ?p = Inr (w, st') \<and>
      (w = None \<longleftrightarrow> resolve st r (map key cs) = None) \<and> (w \<noteq> None \<longrightarrow> walk (vkids st') r (map key cs) = w)"
    using l(1,4) by (cases w) auto
  show "lookup_node garbage st (string_of (slash # long @ rest)) = Inl OutOfBounds"
    using assms(1) by (intro lookup_node_long [OF _ assms(5-7,4), of st r _ "rest @ [0]"])
      (simp_all add: vfs_ok_def string_of_def)
qed

theorem vfs_lookup_departures_witness:
  "(\<exists>w st'. lookup_node (replicate 256 1) dev_root (string_of [slash, 97, slash, slash, 98]) = Inr (w, st') \<and> w \<noteq> None) \<and>
   lookup_node (replicate 256 1) dev_root (string_of (slash # replicate 300 98 @ [98])) = Inl OutOfBounds"
proof -
  have "\<forall>c \<in> set [[97]]. component_ok c" "[[97]] \<noteq> ([] :: bytes list)" "256 \<le> length (replicate 256 (1 :: u8))"
    "(0 :: u8) \<notin> set (replicate 300 98)" "slash \<notin> set (replicate 300 98)" "256 < length (replicate 300 (98 :: u8))"
    by (simp_all add: component_ok_def slash_def)
  note t = vfs_lookup_departures [OF dev_root_ok(1) this, of "[98]"]
  moreover have "resolve dev_root 0 (map key [[97]]) = Some (DeviceFSNode 1)"
    unfolding dev_root_ok(2) using dev_root_a by simp
  moreover have "path_of [[97]] = [slash, 97]"
    by (simp add: path_of_def)
  ultimately show ?thesis
    by (auto simp del: resolve.simps)
qed

section \<open>Mounting\<close>

lemma grows_vkids: "grows st st' \<Longrightarrow> vkids st' = vkids st"
  by (intro ext) (simp add: grows_def vkids_def)

lemma grows_vfs_ok:
  assumes ok: "vfs_ok st r" and g: "grows st st'" and t: "trees_ok st'"
  shows "vfs_ok st' r" and "x < length (vnodes st) \<Longrightarrow> resolve st' x q = resolve st x q"
proof -
  have eq: "vnodes st' = vnodes st" "root_vnode st' = root_vnode st" "vkids st' = vkids st"
    using g grows_vkids [OF g] by (simp_all add: grows_def)
  have "\<exists>p. vn_pn (vnodes st ! v) = Some p \<and> pn_ok st' p" if "v < length (vnodes st)" for v
    using vfs_okD [OF ok that] grows_pn_ok [OF g] by metis
  then show "vfs_ok st' r"
    using ok t unfolding vfs_ok_def eq by blast
  have tr: "trees_ok st"
    using ok by (simp add: vfs_ok_def)
  show "x < length (vnodes st) \<Longrightarrow> resolve st' x q = resolve st x q"
  proof (induction q arbitrary: x)
    case (Cons h q)
    from vfs_okD [OF ok Cons.prems] obtain p where p: "vn_pn (vnodes st ! x) = Some p" "pn_ok st p"
      "\<And>h w. vkids st x h = Some w \<Longrightarrow> w < length (vnodes st)"
      by blast
    show ?case
    proof (cases "vkids st x h")
      case None
      then show ?thesis
        using p(1) grows_walk [OF g tr p(2), of "h # q"] by (simp add: eq)
    next
      case (Some w)
      then show ?thesis
        using Cons.IH [of w] p(3) by (simp add: eq)
    qed
  qed (simp add: eq)
qed

text \<open>
  C24 (\<open>vfs-node.cpp\<close>, \<open>VFSNode::mount\<close>; \<open>vfs.cpp\<close>; the \<open>mount\<close> of every file system). A mount that returns
  keeps the name space well formed. When it succeeds, the paths below the mount point lead into the new
  file system's tree, the mount point stays the node it was, and every other path leads where it did; when it fails, all paths do.
\<close>

theorem vfs_mount_overlay:
  assumes ok: "vfs_ok st r" and v: "walk (vkids st) r p = Some v" and m: "vfs_mount env st v fstype dev = Inr (f, st')"
  shows "vfs_ok st' r \<and>
    (case f of
       None \<Rightarrow> \<forall>q. resolve st' r q = resolve st r q
     | Some fs \<Rightarrow> \<exists>pn st1. fs_mount env st fs = Inr (Some pn, st1) \<and> walk (vkids st') r p = Some v \<and>
         (\<forall>q. resolve st' r q = (if take (length p) q = p then walk (pchild st') pn (drop (length p) q) else resolve st r q)))"
proof -
  have rl: "r < length (vnodes st)" and tr: "trees_ok st"
    using ok by (simp_all add: vfs_ok_def)
  have vl: "v < length (vnodes st)"
    by (rule vfs_ok_walk [OF ok v])
  consider (none) "f = None" "st' = st"
    | (failed) fs where "fs_mount env st fs = Inr (None, st')" "f = None"
    | (mounted) fs pn st1 where "fs_mount env st fs = Inr (Some pn, st1)" "f = Some fs"
        "andthen (vnode_at st1 v) (\<lambda>n. Inr (Some fs, st1\<lparr>vnodes := (vnodes st1)[v := n\<lparr>vn_pn := Some pn,
                    vn_children := map_clear (vn_children n)\<rparr>]\<rparr>)) = Inr (f, st')"
    using m by (auto simp: vfs_mount_def andthen_eq_Inr split: option.splits)
  then show ?thesis
  proof cases
    case none
    then show ?thesis
      using ok by simp
  next
    case failed
    then show ?thesis
      using fs_mount_grows [OF tr failed(1)] grows_vfs_ok [OF ok _ _] rl by auto
  next
    case mounted
    have g: "grows st st1" "trees_ok st1" "pn_ok st1 pn"
      using fs_mount_grows [OF tr mounted(1)] by simp_all
    have "vnode_at st1 v = Inr (vnodes st1 ! v)"
      using g(1) vl by (simp add: vnode_at_def grows_def)
    then have st': "st' = st1\<lparr>vnodes := (vnodes st1)[v := (vnodes st1 ! v)\<lparr>vn_pn := Some pn,
        vn_children := map_clear (vn_children (vnodes st1 ! v))\<rparr>]\<rparr>"
      using mounted(3) by simp
    note gr = mount_grafts [OF ok vl g st']
    have w: "walk (vkids st) r [] = Some r"
      by simp
    show ?thesis
      using resolve_grafted [OF ok v gr(1) w v] gr(2) mounted(1,2) by auto
  qed
qed

theorem vfs_mount_overlay_witness:
  "\<exists>st'. vfs_mount plain_env dev_root 0 (string_of [116, 109, 112, 102, 115]) None = Inr (Some TempFS, st') \<and>
    vfs_ok st' 0 \<and> resolve st' 0 [] = Some (TempFSNode 0) \<and> resolve st' 0 [key [97]] = None"
proof -
  let ?s = "string_of [116, 109, 112, 102, 115]"
  have "c_str ?s = Some (reg_name tmpfs_reg)"
    by (simp add: c_str_def string_of_def tmpfs_reg_def)
  then have "strncmp (Some (reg_name tmpfs_reg)) (c_str ?s) 16 = Inr 0"
    using strncmp_refl [of "[116, 109, 112, 102, 115]" "[]" "[]" 16] by (simp add: tmpfs_reg_def)
  then have "lookup_fs dev_root ?s = Inr (Some tmpfs_reg)"
    by (simp add: lookup_fs_def dev_root_def)
  moreover obtain st1 where s1: "fs_mount plain_env dev_root TempFS = Inr (Some (TempFSNode 0), st1)" "vnodes st1 = vnodes dev_root"
    by (simp add: TempFSNode_new_def dev_root_def)
  ultimately obtain st' where m: "vfs_mount plain_env dev_root 0 ?s None = Inr (Some TempFS, st')"
    "pchild st' (TempFSNode 0) = pchild st1 (TempFSNode 0)"
    by (simp add: vfs_mount_def tmpfs_reg_def vnode_at_def dev_root_def fun_eq_iff)
  have "walk (vkids dev_root) 0 [] = Some 0"
    by simp
  from vfs_mount_overlay [OF dev_root_ok(1) this m(1)] obtain pn st2 where
    o: "vfs_ok st' 0" "fs_mount plain_env dev_root TempFS = Inr (Some pn, st2)" "\<And>q. resolve st' 0 q = walk (pchild st') pn q"
    by auto
  have "pn = TempFSNode 0"
    using o(2) s1(1) by simp
  moreover have "pchild st' (TempFSNode 0) (key [97]) = None"
    using m(2) s1(1) by (auto simp: TempFSNode_new_def dev_root_def rb.get_empty)
  ultimately have "resolve st' 0 [] = Some (TempFSNode 0)" "resolve st' 0 [key [97]] = None"
    unfolding o(3) by simp_all
  then show ?thesis
    using m(1) o(1) by blast
qed

section \<open>Directories\<close>

text \<open>
  (\<open>tmpfs.cpp\<close>, \<open>TempFSNode::mkdir\<close>; \<open>vfs-node.cpp\<close>, \<open>VFSNode::mkdir\<close>). Making a directory in a tmpfs node puts a new
  empty node under its name. When the name had no cached node, the call returns a node that stands for it; when it had one, the
  old node is returned, and it goes on standing for the directory that the tmpfs has just replaced.
\<close>

theorem vfs_mkdir_tmpfs:
  assumes ok: "vfs_ok st r" and v: "walk (vkids st) r p = Some v" and t: "vn_pn (vnodes st ! v) = Some (TempFSNode t)"
    and m: "map_ok (tmp_children (tmp_nodes st ! t))" and h: "h = fst (get_hash name)"
  shows "\<exists>w st'. vfs_mkdir st v name = Inr (Some w, st') \<and>
    pchild st' (TempFSNode t) h = Some (TempFSNode (length (tmp_nodes st))) \<and>
    (\<forall>k. pchild st' (TempFSNode (length (tmp_nodes st))) k = None) \<and>
    (case vkids st v h of
       None \<Rightarrow> vn_pn (vnodes st' ! w) = Some (TempFSNode (length (tmp_nodes st))) \<and> vkids st' v h = Some w
     | Some old \<Rightarrow> w = old \<and> vnodes st' = vnodes st)"
proof -
  have vl: "v < length (vnodes st)"
    by (rule vfs_ok_walk [OF ok v])
  from vfs_okD [OF ok vl] t have tl: "t < length (tmp_nodes st)" and mv: "map_ok (vn_children (vnodes st ! v))"
    by (metis option.inject pn_ok.simps(1))+
  let ?d = "length (tmp_nodes st)"
  obtain m' where m': "Map_add (tmp_children (tmp_nodes st ! t)) h ?d = Inr m'"
    "\<And>k. try_get_value m' k = (if k = h then Some ?d else try_get_value (tmp_children (tmp_nodes st ! t)) k)"
    using Map_add_law [OF m, of h ?d] by blast
  define st1 where "st1 = st\<lparr>tmp_nodes := (tmp_nodes st @ [\<lparr>tmp_name = String_copy name, tmp_children = map_empty\<rparr>])
    [t := (tmp_nodes st ! t)\<lparr>tmp_children := m'\<rparr>]\<rparr>"
  have mk: "pfs_mkdir st (TempFSNode t) name = Inr (Some (TempFSNode ?d), st1)"
    using tl m'(1) by (simp add: TempFSNode_new_def tmp_at_def nth_append st1_def h)
  have c: "pchild st1 (TempFSNode t) h = Some (TempFSNode ?d)" "pchild st1 (TempFSNode ?d) k = None" for k
    using tl m'(2) by (simp_all add: st1_def rb.get_empty)
  have s1: "vnodes st1 = vnodes st" "pn_ok st1 (TempFSNode t)"
    using tl by (simp_all add: st1_def)
  have e: "vfs_mkdir st v name = vfs_get_child st1 v name"
    using vl t mk by (simp add: vfs_mkdir_def vnode_at_def)
  show ?thesis
  proof (cases "vkids st v h")
    case (Some old)
    then have "vfs_get_child st1 v name = Inr (Some old, st1)"
      using vl t h by (simp add: vfs_get_child_def vnode_at_def s1 vkids_def)
    then show ?thesis
      unfolding e using Some c s1 by auto
  next
    case None
    let ?w = "length (vnodes st)"
    obtain m2 where m2: "Map_add (vn_children (vnodes st ! v)) h ?w = Inr m2"
      "\<And>k. try_get_value m2 k = (if k = h then Some ?w else try_get_value (vn_children (vnodes st ! v)) k)"
      using Map_add_law [OF mv, of h ?w] by blast
    define st2 where "st2 = st1\<lparr>vnodes := (vnodes st @ [\<lparr>vn_parent = Some v, vn_pn = Some (TempFSNode ?d), vn_children = map_empty\<rparr>])
      [v := (vnodes st ! v)\<lparr>vn_children := m2\<rparr>]\<rparr>"
    have "pfs_get_child st1 (TempFSNode t) name = Inr (Some (TempFSNode ?d))"
      using pfs_get_child_pchild [OF s1(2), of name] c(1) h by simp
    then have "vfs_get_child st1 v name = Inr (Some ?w, st2)"
      using vl t None m2(1) h by (simp add: vfs_get_child_def vnode_at_def s1 vkids_def VFSNode_new_def st2_def del: pfs_get_child.simps)
    moreover have "pchild st2 (TempFSNode t) h = Some (TempFSNode ?d)" "\<forall>k. pchild st2 (TempFSNode ?d) k = None"
      using c by (simp_all add: st2_def)
    moreover have "vn_pn (vnodes st2 ! ?w) = Some (TempFSNode ?d)" "vkids st2 v h = Some ?w"
      using vl m2(2) by (simp_all add: st2_def vkids_def nth_append)
    ultimately show ?thesis
      unfolding e using None by auto
  qed
qed

text \<open>A tmpfs at the root.\<close>

definition tmp_root :: Vfs where
  "tmp_root = dev_root\<lparr>vnodes := [\<lparr>vn_parent = None, vn_pn = Some (TempFSNode 0), vn_children = map_empty\<rparr>],
     tmp_nodes := [\<lparr>tmp_name = string_of [], tmp_children = map_empty\<rparr>]\<rparr>"

lemma tmp_root_ok: "vfs_ok tmp_root 0"
proof (rule single_root_ok [where p = "TempFSNode 0"])
  have "pn_ok tmp_root q" if "pn_ok tmp_root p" "pchild tmp_root p h = Some q" for p h q
    using that by (cases p) (auto simp: tmp_root_def dev_root_def rb.get_empty)
  then show "trees_ok tmp_root"
    by (simp add: trees_ok_def)
qed (simp_all add: tmp_root_def dev_root_def)

theorem vfs_mkdir_tmpfs_witness:
  "\<exists>w st'. vfs_mkdir tmp_root 0 (string_of [98]) = Inr (Some w, st') \<and> pchild st' (TempFSNode 0) (key [98]) = Some (TempFSNode 1) \<and>
    vn_pn (vnodes st' ! w) = Some (TempFSNode 1)"
proof -
  have "walk (vkids tmp_root) 0 [] = Some 0" "vn_pn (vnodes tmp_root ! 0) = Some (TempFSNode 0)"
    "map_ok (tmp_children (tmp_nodes tmp_root ! 0))" "key [98] = fst (get_hash (string_of [98]))"
    using rb.ok_empty by (simp_all add: tmp_root_def get_hash_key)
  moreover have "vkids tmp_root 0 (key [98]) = None" "length (tmp_nodes tmp_root) = 1"
    by (simp_all add: tmp_root_def vkids_def rb.get_empty)
  ultimately show ?thesis
    using vfs_mkdir_tmpfs [OF tmp_root_ok, of "[]" 0 0 "key [98]" "string_of [98]"] by (auto simp del: pchild.simps)
qed

end
