(* ===== verification/Printf.thy ===== *)
theory Printf
  imports Util_String
begin

text \<open>
  Formatted printing (\<open>infos/util/printf.cpp\<close>). The buffer is an array and a position in it; every store is
  checked against the array. The variable arguments are a list of the 8-byte slots and
  pointers the caller passed; reading one of the wrong kind, or past the last, is undefined.
\<close>

unbundle bit_operations_syntax

definition fetch :: "bytes \<Rightarrow> nat \<Rightarrow> u8 result" where
  "fetch b i = (if i < length b then Inr (b ! i) else Inl OutOfBounds)"

text \<open>\<open>buffer\<close> in the source is the pointer \<open>pos\<close> into the array here.\<close>

fun shift_up :: "bytes \<Rightarrow> nat \<Rightarrow> nat \<Rightarrow> bytes result" where
  "shift_up buffer pos 0 = Inr buffer"
| "shift_up buffer pos (Suc i) =
    andthen (fetch buffer (pos + i)) (\<lambda>c. andthen (put buffer (pos + Suc i) c) (\<lambda>buffer. shift_up buffer pos i))"

definition prepend_to_buffer :: "u8 \<Rightarrow> bytes \<Rightarrow> nat \<Rightarrow> nat \<Rightarrow> bytes result" where
  "prepend_to_buffer c buffer pos n = andthen (shift_up buffer pos n) (\<lambda>buffer. put buffer pos c)"

function append_digits :: "bytes \<Rightarrow> nat \<Rightarrow> int \<Rightarrow> u64 \<Rightarrow> u64 \<Rightarrow> nat \<Rightarrow> (bytes \<times> nat) result" where
  "append_digits buffer pos sz value base n =
    (if value > 0 \<and> int n < sz then
       let digit_value = value mod base
       in if digit_value < 10 then
            andthen (prepend_to_buffer (48 + ucast digit_value) buffer pos n) (\<lambda>buffer.
              append_digits buffer pos sz (value div base) base (Suc n))
          else if digit_value < 36 then
            andthen (prepend_to_buffer (97 + ucast digit_value - 10) buffer pos n) (\<lambda>buffer.
              append_digits buffer pos sz (value div base) base (Suc n))
          else append_digits buffer pos sz (value div base) base n
     else Inr (buffer, n))"
  by pat_completeness auto
termination
proof (relation "measure (\<lambda>(buffer, pos, sz, value, base, n). nat (sz - int n) + unat value)", goal_cases)
  case (2 buffer pos sz "value" base n digit x)
  then show ?case
    by (simp add: unat_div div_le_dividend add_less_le_mono)
next
  case (3 buffer pos sz "value" base n digit x)
  then show ?case
    by (simp add: unat_div div_le_dividend add_less_le_mono)
next
  case (4 buffer pos sz "value" base n digit)
  have "unat value div unat base < unat value"
  proof (cases "base = 0")
    case True
    then show ?thesis
      using 4 by (simp add: word_greater_zero_iff unat_gt_0)
  next
    case False
    have "1 < unat base"
    proof (rule ccontr)
      assume "\<not> 1 < unat base"
      moreover have "unat base \<noteq> 0"
        using False by (simp add: unat_eq_zero)
      ultimately have "base = 1"
        by (intro word_unat_eq_iff [THEN iffD2]) simp
      then show False
        using 4 by simp
    qed
    then show ?thesis
      using 4 by (simp add: word_greater_zero_iff unat_gt_0)
  qed
  then show ?case
    by (simp add: unat_div)
qed simp

declare append_digits.simps [simp del]

function append_pad :: "bytes \<Rightarrow> nat \<Rightarrow> int \<Rightarrow> int \<Rightarrow> u8 \<Rightarrow> nat \<Rightarrow> (bytes \<times> nat) result" where
  "append_pad buffer pos sz pad pad_char n =
    (if pad > 0 \<and> int n < sz then
       andthen (prepend_to_buffer pad_char buffer pos n) (\<lambda>buffer.
         append_pad buffer pos sz (pad - 1) pad_char (Suc n))
     else Inr (buffer, n))"
  by pat_completeness auto
termination
  by (relation "measure (\<lambda>(buffer, pos, sz, pad, pad_char, n). nat pad)") auto

declare append_pad.simps [simp del]

definition append_num :: "bytes \<Rightarrow> nat \<Rightarrow> int \<Rightarrow> u64 \<Rightarrow> u64 \<Rightarrow> bool \<Rightarrow> int \<Rightarrow> u8 \<Rightarrow> (bytes \<times> nat) result" where
  "append_num buffer pos sz v base with_sign pad pad_char =
    (let pad = (if pad \<ge> sz then sz - 1 else pad);
         neg = with_sign \<and> sint v < 0
     in andthen (if neg then andthen (prepend_to_buffer 45 buffer pos 0) (\<lambda>buffer. Inr (buffer, 1 :: nat, - v))
                 else Inr (buffer, 0, v)) (\<lambda>(buffer, n, v).
        andthen (if v > 0 then append_digits buffer pos sz v base n
                 else if int n < sz then
                   andthen (prepend_to_buffer 48 buffer pos n) (\<lambda>buffer. andthen (put buffer pos 48) (\<lambda>buffer. Inr (buffer, Suc n)))
                 else Inr (buffer, n)) (\<lambda>(buffer, n).
          append_pad buffer pos sz (pad - int n) pad_char n)))"

fun append_text :: "bytes \<Rightarrow> nat \<Rightarrow> int \<Rightarrow> bytes \<Rightarrow> nat \<Rightarrow> (bytes \<times> nat) result" where
  "append_text buffer pos sz [] n = Inl OutOfBounds"
| "append_text buffer pos sz (c # text) n =
    (if c \<noteq> 0 \<and> int n < sz then andthen (put buffer (pos + n) c) (\<lambda>buffer. append_text buffer pos sz text (Suc n))
     else Inr (buffer, n))"

function append_fill :: "bytes \<Rightarrow> nat \<Rightarrow> int \<Rightarrow> int \<Rightarrow> u8 \<Rightarrow> nat \<Rightarrow> (bytes \<times> nat) result" where
  "append_fill buffer pos sz pad pad_char n =
    (if int n < sz \<and> int n < pad then
       andthen (put buffer (pos + n) pad_char) (\<lambda>buffer. append_fill buffer pos sz pad pad_char (Suc n))
     else Inr (buffer, n))"
  by pat_completeness auto
termination
proof (relation "measure (\<lambda>(buffer, pos, sz, pad, pad_char, n). nat (pad - int n))", goal_cases)
  case (2 buffer pos sz pad pad_char n x)
  then show ?case
    by simp
qed simp

declare append_fill.simps [simp del]

definition append_str :: "bytes \<Rightarrow> nat \<Rightarrow> int \<Rightarrow> cstr \<Rightarrow> int \<Rightarrow> u8 \<Rightarrow> (bytes \<times> nat) result" where
  "append_str buffer pos sz text pad pad_char =
    andthen (deref text) (\<lambda>t. andthen (append_text buffer pos sz t 0) (\<lambda>(buffer, n).
      append_fill buffer pos sz pad pad_char n))"

section \<open>Formats\<close>

datatype va = Slot u64 | Pointer cstr

fun va_slot :: "va list \<Rightarrow> (u64 \<times> va list) result" where
  "va_slot (Slot v # args) = Inr (v, args)"
| "va_slot _ = Inl Undefined"

fun va_pointer :: "va list \<Rightarrow> (cstr \<times> va list) result" where
  "va_pointer (Pointer p # args) = Inr (p, args)"
| "va_pointer _ = Inl Undefined"

definition int_ok :: "int \<Rightarrow> bool" where
  "int_ok x \<longleftrightarrow> - (2 ^ 31) \<le> x \<and> x < 2 ^ 31"

text \<open>The characters between the per cent sign and the conversion: the jumps to \<open>retry_format\<close>.\<close>

fun scan_format :: "bytes \<Rightarrow> int \<Rightarrow> u8 \<Rightarrow> nat \<Rightarrow> (bytes \<times> int \<times> u8 \<times> nat) result" where
  "scan_format [] pad_size pad_char number_size = Inl OutOfBounds"
| "scan_format (c # fmt) pad_size pad_char number_size =
    (if c = 48 then
       if pad_size > 0 then andthen (check (int_ok (pad_size * 10)) Undefined) (\<lambda>_.
         scan_format fmt (pad_size * 10) pad_char number_size)
       else scan_format fmt pad_size 48 number_size
     else if 49 \<le> c \<and> c \<le> 57 then
       andthen (check (int_ok (pad_size * 10 + (uint c - 48))) Undefined) (\<lambda>_.
         scan_format fmt (pad_size * 10 + (uint c - 48)) pad_char number_size)
     else if c = 108 then scan_format fmt pad_size pad_char 8
     else Inr (c # fmt, pad_size, pad_char, number_size))"

text \<open>
  One conversion; the result is the buffer, the number of characters put, and the arguments left. The branches are the cases \<open>d\<close>, \<open>u\<close>;
  \<open>b\<close>, \<open>x\<close>, \<open>p\<close>; \<open>s\<close>; \<open>c\<close>; and any other character.
\<close>

definition convert :: "u8 \<Rightarrow> bytes \<Rightarrow> nat \<Rightarrow> int \<Rightarrow> va list \<Rightarrow> int \<Rightarrow> u8 \<Rightarrow> nat \<Rightarrow> (bytes \<times> nat \<times> va list) result" where
  "convert c buffer pos room args pad_size pad_char number_size =
    (if c = 100 \<or> c = 117 then
       andthen (va_slot args) (\<lambda>(a, args).
         let v = (if number_size = 8 then a
                  else if c = 117 then ucast (ucast a :: u32) else scast (ucast a :: u32))
         in andthen (append_num buffer pos room v 10 (c = 100) pad_size pad_char) (\<lambda>(buffer, rc).
              Inr (buffer, rc, args)))
     else if c = 98 \<or> c = 120 \<or> c = 112 then
       andthen (va_slot args) (\<lambda>(a, args).
         let v = (if number_size = 8 \<or> c = 112 then a else ucast (ucast a :: u32))
         in andthen (if c = 112 then append_str buffer pos room (Some [48, 120, 0]) 0 32 else Inr (buffer, 0)) (\<lambda>(buffer, rc).
            andthen (append_num buffer (pos + rc) (room - int rc) v (if c = 98 then 2 else 16) False pad_size pad_char) (\<lambda>(buffer, rc').
              Inr (buffer, rc + rc', args))))
     else if c = 115 then
       andthen (va_pointer args) (\<lambda>(p, args).
         andthen (append_str buffer pos room p pad_size pad_char) (\<lambda>(buffer, rc). Inr (buffer, rc, args)))
     else if c = 99 then
       andthen (va_slot args) (\<lambda>(a, args).
         andthen (put buffer pos (ucast a)) (\<lambda>buffer. Inr (buffer, 1, args)))
     else andthen (put buffer pos c) (\<lambda>buffer. Inr (buffer, 1, args)))"

text \<open>Every round of the loop consumes a character of the format, which bounds the fuel.\<close>

fun format_loop :: "nat \<Rightarrow> bytes \<Rightarrow> int \<Rightarrow> bytes \<Rightarrow> va list \<Rightarrow> nat \<Rightarrow> (bytes \<times> nat) result" where
  "format_loop 0 buffer sz fmt args count = Inl Diverges"
| "format_loop (Suc fuel) buffer sz fmt args count =
    andthen (deref (case fmt of [] \<Rightarrow> None | c # cs \<Rightarrow> Some (c, cs))) (\<lambda>(c, fmt').
      if c \<noteq> 0 \<and> int count < sz - 1 then
        if c = 37 then
          andthen (scan_format fmt' 0 32 4) (\<lambda>(rest, pad_size, pad_char, number_size).
          andthen (deref (case rest of [] \<Rightarrow> None | d # ds \<Rightarrow> Some (d, ds))) (\<lambda>(d, ds).
            if d = 0 then format_loop fuel buffer sz rest args count
            else andthen (convert d buffer count (sz - 1 - int count) args pad_size pad_char number_size)
              (\<lambda>(buffer, rc, args). format_loop fuel buffer sz ds args (count + rc))))
        else andthen (put buffer count c) (\<lambda>buffer. format_loop fuel buffer sz fmt' args (Suc count))
      else andthen (put buffer count 0) (\<lambda>buffer. Inr (buffer, count)))"

definition vsnprintf :: "bytes \<Rightarrow> int \<Rightarrow> bytes \<Rightarrow> va list \<Rightarrow> (bytes \<times> nat) result" where
  "vsnprintf buffer sz fmt args =
    (if sz = 0 then Inr (buffer, 0) else format_loop (Suc (length fmt)) buffer sz fmt args 0)"

definition snprintf :: "bytes \<Rightarrow> int \<Rightarrow> bytes \<Rightarrow> va list \<Rightarrow> (bytes \<times> nat) result" where
  "snprintf buffer sz fmt args = vsnprintf buffer sz fmt args"

definition sprintf :: "bytes \<Rightarrow> bytes \<Rightarrow> va list \<Rightarrow> (bytes \<times> nat) result" where
  "sprintf buffer fmt args = vsnprintf buffer 0x1000 fmt args"

end
