(* ===== verification/Printf_Correct.thy ===== *)
theory Printf_Correct
  imports Printf
begin

text \<open>
  What the formatter puts into its buffer: each conversion writes its own text over the buffer
  from a position on, cut to the room left; the loop glues them, and ends with a terminator inside the size it was given.
\<close>

section \<open>Writing over a buffer\<close>

definition over :: "bytes \<Rightarrow> nat \<Rightarrow> bytes \<Rightarrow> bytes" where
  "over b pos t = take pos b @ t @ drop (pos + length t) b"

lemma over_Nil [simp]: "over b pos [] = b"
  by (simp add: over_def)

lemma length_over: "pos + length t \<le> length b \<Longrightarrow> length (over b pos t) = length b"
  by (simp add: over_def)

lemma over_over: "pos + length t \<le> length b \<Longrightarrow> over (over b pos t) (pos + length t) u = over b pos (t @ u)"
  by (simp add: over_def ac_simps)

lemma shift_up_ok:
  "pos + i < length b \<Longrightarrow> shift_up b pos i = Inr (take (Suc pos) b @ take i (drop pos b) @ drop (Suc (pos + i)) b)"
proof (induction i arbitrary: b)
  case 0
  then show ?case
    by simp
next
  case (Suc i)
  let ?b = "b[pos + Suc i := b ! (pos + i)]"
  have "shift_up ?b pos i = Inr (take (Suc pos) ?b @ take i (drop pos ?b) @ drop (Suc (pos + i)) ?b)"
    using Suc by simp
  moreover have "take (Suc pos) ?b = take (Suc pos) b"
    by simp
  moreover have "take i (drop pos ?b) = take i (drop pos b)"
    by (simp add: take_drop)
  moreover have "drop (Suc (pos + i)) ?b = b ! (pos + i) # drop (Suc (pos + Suc i)) b"
    using Suc.prems by (simp add: drop_update_swap Cons_nth_drop_Suc [symmetric])
  moreover have "take (Suc i) (drop pos b) = take i (drop pos b) @ [b ! (pos + i)]"
    using Suc.prems by (simp add: take_Suc_conv_app_nth)
  ultimately show ?case
    using Suc.prems by (simp add: fetch_def put_def)
qed

lemma prepend_over:
  assumes "pos + length t < length b"
  shows "prepend_to_buffer c (over b pos t) pos (length t) = Inr (over b pos (c # t))"
proof -
  let ?s = "over b pos t"
  have l: "length ?s = length b"
    using assms by (simp add: length_over)
  have "take (length t) (drop pos ?s) = t" "drop (Suc (pos + length t)) ?s = drop (Suc (pos + length t)) b" "take pos ?s = take pos b"
    using assms by (simp_all add: over_def)
  moreover have "(take (Suc pos) ?s @ r)[pos := c] = take pos ?s @ c # r" for r
    using l assms by (simp add: take_Suc_conv_app_nth list_update_append)
  ultimately show ?thesis
    using shift_up_ok [of pos "length t" ?s] assms l by (simp add: prepend_to_buffer_def put_def) (simp add: over_def)
qed

lemma put_over:
  assumes "pos + length t < length b"
  shows "put (over b pos t) (pos + length t) c = Inr (over b pos (t @ [c]))"
  using assms by (simp add: put_def over_def list_update_append drop_update_swap Cons_nth_drop_Suc [symmetric])

section \<open>Numbers\<close>

definition digit_char :: "nat \<Rightarrow> u8" where
  "digit_char d = (if d < 10 then 48 + of_nat d else 87 + of_nat d)"

lemma digit_char_unat:
  fixes w :: u64
  shows "w < 10 \<Longrightarrow> 48 + ucast w = digit_char (unat w)" and "\<not> w < 10 \<Longrightarrow> 97 + ucast w - 10 = digit_char (unat w)"
  by (simp_all add: digit_char_def word_less_nat_alt)

text \<open>The digits of a number, the least significant first.\<close>

fun rdigits :: "nat \<Rightarrow> nat \<Rightarrow> bytes" where
  "rdigits b v = (if v = 0 \<or> b < 2 then [] else digit_char (v mod b) # rdigits b (v div b))"

declare rdigits.simps [simp del]

lemma rdigits_0 [simp]: "rdigits b 0 = []"
  by (simp add: rdigits.simps)

lemma append_digits_ok:
  assumes "1 < unat bs" and "unat bs \<le> 36" and "pos + nat sz \<le> length b"
  shows "append_digits (over b pos t) pos sz v bs (length t) =
    Inr (over b pos (rev (take (nat sz - length t) (rdigits (unat bs) (unat v))) @ t),
      length (rev (take (nat sz - length t) (rdigits (unat bs) (unat v))) @ t))"
proof (induction "unat v" arbitrary: v t rule: less_induct)
  case less
  show ?case
  proof (cases "v > 0 \<and> int (length t) < sz")
    case False
    then have "take (nat sz - length t) (rdigits (unat bs) (unat v)) = []"
      by (cases "v = 0") (simp_all add: word_greater_zero_iff rdigits_0)
    then show ?thesis
      using False by (subst append_digits.simps) auto
  next
    case True
    let ?d = "v mod bs" and ?v = "v div bs"
    have vp: "unat v > 0"
      using True by (simp add: word_greater_zero_iff unat_gt_0)
    have d: "unat ?d = unat v mod unat bs" "unat ?v = unat v div unat bs"
      by (simp_all add: unat_mod unat_div)
    have d36: "unat ?d < 36"
      using assms(1,2) d(1) by (metis less_le_trans mod_less_divisor not_less0 not_gr_zero)
    have lt: "unat ?v < unat v"
      using vp assms(1) d(2) by simp
    define c where "c = digit_char (unat ?d)"
    have "?d < 36"
      unfolding word_less_nat_alt using d36 by simp
    note ch = digit_char_unat [of ?d, folded c_def] this
    have room: "pos + length t < length b"
      using True assms(3) by linarith
    have p: "prepend_to_buffer c (over b pos t) pos (length t) = Inr (over b pos (c # t))"
      by (rule prepend_over [OF room])
    have "append_digits (over b pos t) pos sz v bs (length t) =
        append_digits (over b pos (c # t)) pos sz ?v bs (length (c # t))"
      using True p ch by (subst append_digits.simps) (simp add: Let_def)
    also have "\<dots> = Inr (over b pos (rev (take (nat sz - length (c # t)) (rdigits (unat bs) (unat ?v))) @ c # t),
        length (rev (take (nat sz - length (c # t)) (rdigits (unat bs) (unat ?v))) @ c # t))"
      by (rule less.hyps [OF lt])
    also have "rev (take (nat sz - length (c # t)) (rdigits (unat bs) (unat ?v))) @ c # t =
        rev (take (nat sz - length t) (rdigits (unat bs) (unat v))) @ t"
    proof -
      have "rdigits (unat bs) (unat v) = c # rdigits (unat bs) (unat ?v)"
        using vp assms(1) d by (subst rdigits.simps) (simp add: c_def)
      moreover obtain k where "nat sz - length t = Suc k"
        using True by (cases "nat sz - length t") auto
      moreover from this have "nat sz - length (c # t) = k"
        by simp
      ultimately show ?thesis
        by simp
    qed
    finally show ?thesis .
  qed
qed

lemma append_pad_ok:
  assumes "pos + nat sz \<le> length b"
  shows "append_pad (over b pos t) pos sz pad pc (length t) =
    Inr (over b pos (replicate (min (nat pad) (nat sz - length t)) pc @ t), length (replicate (min (nat pad) (nat sz - length t)) pc @ t))"
proof (induction "nat pad" arbitrary: pad t)
  case 0
  then show ?case
    by (subst append_pad.simps) simp
next
  case (Suc m)
  show ?case
  proof (cases "int (length t) < sz")
    case False
    then show ?thesis
      by (subst append_pad.simps) simp
  next
    case True
    have room: "pos + length t < length b"
      using True assms by linarith
    have "0 < pad"
      using Suc.hyps(2) by (cases "0 < pad") simp_all
    then have "append_pad (over b pos t) pos sz pad pc (length t) = append_pad (over b pos (pc # t)) pos sz (pad - 1) pc (length (pc # t))"
      using True prepend_over [OF room, of pc] by (subst append_pad.simps) simp
    also have "\<dots> = Inr (over b pos (replicate (min (nat (pad - 1)) (nat sz - length (pc # t))) pc @ pc # t),
        length (replicate (min (nat (pad - 1)) (nat sz - length (pc # t))) pc @ pc # t))"
      using Suc.hyps(2) by (intro Suc.hyps(1)) simp
    also have "replicate (min (nat (pad - 1)) (nat sz - length (pc # t))) pc @ pc # t =
        replicate (min (nat pad) (nat sz - length t)) pc @ t"
    proof -
      have "min (nat pad) (nat sz - length t) = Suc (min (nat (pad - 1)) (nat sz - length (pc # t)))"
        using True Suc.hyps(2) by (simp add: min_def) linarith
      then show ?thesis
        by (simp add: replicate_append_same [symmetric])
    qed
    finally show ?thesis .
  qed
qed

text \<open>
  A number as the formatter means it, and as it comes out in \<open>sz\<close> characters. The sign goes in before the
  digits are put in front of it, so it ends up behind them.
\<close>

definition sign_text :: "u64 \<Rightarrow> bool \<Rightarrow> bytes" where
  "sign_text v s = (if s \<and> sint v < 0 then [45] else [])"

definition magnitude :: "u64 \<Rightarrow> bool \<Rightarrow> nat" where
  "magnitude v s = unat (if s \<and> sint v < 0 then - v else v)"

definition num_text :: "u64 \<Rightarrow> nat \<Rightarrow> bool \<Rightarrow> int \<Rightarrow> u8 \<Rightarrow> bytes" where
  "num_text v bs s pad pc =
    (let core = (if magnitude v s = 0 then [48] else rev (rdigits bs (magnitude v s))) @ sign_text v s
     in replicate (nat pad - length core) pc @ core)"

definition num_core :: "int \<Rightarrow> u64 \<Rightarrow> nat \<Rightarrow> bool \<Rightarrow> bytes" where
  "num_core sz v bs s =
    (if magnitude v s = 0 then if 0 < sz then [48] else []
     else rev (take (nat sz - length (sign_text v s)) (rdigits bs (magnitude v s))) @ sign_text v s)"

definition num_out :: "int \<Rightarrow> u64 \<Rightarrow> nat \<Rightarrow> bool \<Rightarrow> int \<Rightarrow> u8 \<Rightarrow> bytes" where
  "num_out sz v bs s pad pc =
    (let core = num_core sz v bs s; pad = (if pad \<ge> sz then sz - 1 else pad)
     in replicate (min (nat (pad - int (length core))) (nat sz - length core)) pc @ core)"

lemma sign_text_0 [simp]: "sign_text 0 s = []"
  by (simp add: sign_text_def)

lemma magnitude_zero: "magnitude v s = 0 \<Longrightarrow> v = 0 \<and> sign_text v s = []"
  by (auto simp: magnitude_def sign_text_def unat_eq_zero split: if_splits)

lemma append_num_ok:
  assumes bs: "1 < unat bs" "unat bs \<le> 36" and b: "pos + nat sz \<le> length b" and s: "0 < sz \<or> \<not> s"
  shows "append_num b pos sz v bs s pad pc = Inr (over b pos (num_out sz v (unat bs) s pad pc), length (num_out sz v (unat bs) s pad pc))"
    and "length (num_out sz v (unat bs) s pad pc) \<le> nat sz"
proof -
  let ?sg = "sign_text v s" and ?core = "num_core sz v (unat bs) s"
  define w where "w = (if s \<and> sint v < 0 then - v else v)"
  have m: "magnitude v s = unat w"
    by (simp add: magnitude_def w_def)
  have "(if s \<and> sint v < 0 then andthen (prepend_to_buffer 45 b pos 0) (\<lambda>b. Inr (b, 1 :: nat, - v)) else Inr (b, 0, v)) =
      Inr (over b pos ?sg, length ?sg, w)"
    using prepend_over [of pos "[]" b 45] b s by (auto simp: sign_text_def w_def)
  moreover have "(if w > 0 then append_digits (over b pos ?sg) pos sz w bs (length ?sg)
      else if int (length ?sg) < sz then andthen (prepend_to_buffer 48 (over b pos ?sg) pos (length ?sg))
        (\<lambda>b. andthen (put b pos 48) (\<lambda>b. Inr (b, Suc (length ?sg))))
      else Inr (over b pos ?sg, length ?sg)) = Inr (over b pos ?core, length ?core)"
  proof (cases "w = 0")
    case True
    then have z: "magnitude v s = 0"
      by (simp add: m)
    note z' = magnitude_zero [OF z]
    show ?thesis
    proof (cases "0 < sz")
      case True
      then have r: "pos < length b"
        using b by linarith
      then have p: "put (over b pos [48]) pos 48 = Inr (over b pos [48])"
        by (simp add: put_def over_def list_update_append)
      show ?thesis
        using \<open>w = 0\<close> True z z' p r prepend_over [of pos "[]" b 48] by (simp add: num_core_def)
    next
      case False
      then show ?thesis
        using \<open>w = 0\<close> z z' by (simp add: num_core_def)
    qed
  next
    case False
    then show ?thesis
      using append_digits_ok [OF bs b, of ?sg w] by (simp add: num_core_def m word_greater_zero_iff unat_eq_zero)
  qed
  ultimately show "append_num b pos sz v bs s pad pc = Inr (over b pos (num_out sz v (unat bs) s pad pc), length (num_out sz v (unat bs) s pad pc))"
    using append_pad_ok [OF b, of ?core "(if pad \<ge> sz then sz - 1 else pad) - int (length ?core)" pc]
    by (simp add: append_num_def num_out_def Let_def del: length_append)
  have "length ?core \<le> nat sz"
    using s by (auto simp: num_core_def sign_text_def)
  then show "length (num_out sz v (unat bs) s pad pc) \<le> nat sz"
    by (simp add: num_out_def Let_def)
qed

lemma num_out_fits:
  assumes "length (num_text v bs s pad pc) < nat sz"
  shows "num_out sz v bs s pad pc = num_text v bs s pad pc"
proof -
  have c: "num_core sz v bs s = (if magnitude v s = 0 then [48] else rev (rdigits bs (magnitude v s))) @ sign_text v s"
    using assms magnitude_zero [of v s] by (auto simp: num_core_def num_text_def Let_def)
  let ?core = "num_core sz v bs s"
  have l: "length ?core < nat sz" "nat pad - length ?core + length ?core < nat sz"
    using assms unfolding c by (simp_all add: num_text_def Let_def)
  then have "min (nat ((if pad \<ge> sz then sz - 1 else pad) - int (length ?core))) (nat sz - length ?core) = nat pad - length ?core"
    by (auto simp: min_def)
  then show ?thesis
    unfolding num_out_def num_text_def Let_def c by simp
qed

section \<open>Strings\<close>

definition str_out :: "int \<Rightarrow> bytes \<Rightarrow> int \<Rightarrow> u8 \<Rightarrow> bytes" where
  "str_out sz t pad pc = take (nat sz) t @ replicate (nat (min sz pad) - length (take (nat sz) t)) pc"

definition str_text :: "bytes \<Rightarrow> int \<Rightarrow> u8 \<Rightarrow> bytes" where
  "str_text t pad pc = t @ replicate (nat pad - length t) pc"

lemma append_text_ok:
  assumes "0 \<notin> set s" and "pos + nat sz \<le> length b"
  shows "append_text (over b pos t) pos sz (s @ 0 # r) (length t) =
    Inr (over b pos (t @ take (nat sz - length t) s), length (t @ take (nat sz - length t) s))"
  using assms(1)
proof (induction s arbitrary: t)
  case (Cons c s)
  show ?case
  proof (cases "int (length t) < sz")
    case True
    then have room: "pos + length t < length b"
      using assms(2) by linarith
    obtain k where k: "nat sz - length t = Suc k"
      using True by (cases "nat sz - length t") auto
    then have "nat sz - length (t @ [c]) = k"
      by simp
    then show ?thesis
      using Cons.IH [of "t @ [c]"] Cons.prems True k put_over [OF room, of c] by simp
  qed simp
qed simp

lemma append_fill_ok:
  assumes "pos + nat sz \<le> length b"
  shows "append_fill (over b pos t) pos sz pad pc (length t) =
    Inr (over b pos (t @ replicate (nat (min sz pad) - length t) pc), length (t @ replicate (nat (min sz pad) - length t) pc))"
proof (induction "nat (min sz pad) - length t" arbitrary: t)
  case 0
  then have "\<not> (int (length t) < sz \<and> int (length t) < pad)"
    by linarith
  then show ?case
    using 0 by (subst append_fill.simps) auto
next
  case (Suc k)
  then have lt: "int (length t) < sz" "int (length t) < pad"
    by linarith+
  then have room: "pos + length t < length b"
    using assms by linarith
  have k: "k = nat (min sz pad) - length (t @ [pc])"
    using Suc.hyps(2) by simp
  have "append_fill (over b pos t) pos sz pad pc (length t) = append_fill (over b pos (t @ [pc])) pos sz pad pc (length (t @ [pc]))"
    using lt put_over [OF room, of pc] by (subst append_fill.simps) simp
  moreover have "Suc (length t) \<le> nat (min sz pad)"
    using Suc.hyps(2) by linarith
  ultimately show ?case
    using Suc.hyps(1) [OF k] Suc.hyps(2) [symmetric] k by simp
qed

lemma append_str_ok:
  assumes "0 \<in> set s" and "pos + nat sz \<le> length b"
  shows "append_str b pos sz (Some s) pad pc =
      Inr (over b pos (str_out sz (takeWhile (\<lambda>c. c \<noteq> 0) s) pad pc), length (str_out sz (takeWhile (\<lambda>c. c \<noteq> 0) s) pad pc))"
    and "length (str_out sz u pad pc) \<le> nat sz"
proof -
  obtain x r where x: "s = x @ 0 # r" "0 \<notin> set x"
    using split_list_first assms(1) by metis
  then have w: "takeWhile (\<lambda>c. c \<noteq> 0) s = x"
    by (induction x arbitrary: s) auto
  show "append_str b pos sz (Some s) pad pc =
      Inr (over b pos (str_out sz (takeWhile (\<lambda>c. c \<noteq> 0) s) pad pc), length (str_out sz (takeWhile (\<lambda>c. c \<noteq> 0) s) pad pc))"
    using append_text_ok [OF x(2) assms(2), of "[]" r] append_fill_ok [OF assms(2), of "take (nat sz) x" pad pc]
    unfolding w by (simp add: append_str_def x(1) str_out_def)
  show "length (str_out sz u pad pc) \<le> nat sz"
    by (simp add: str_out_def)
qed

lemma str_out_fits: "length (str_text t pad pc) < nat sz \<Longrightarrow> str_out sz t pad pc = str_text t pad pc"
  by (auto simp: str_out_def str_text_def min_def)

section \<open>Conversions\<close>

text \<open>
  One conversion, given how numbers (after a prefix of some length) and strings come out. \<open>None\<close>: the
  argument is missing or of the wrong kind.
\<close>

definition conv_with ::
    "(nat \<Rightarrow> u64 \<Rightarrow> nat \<Rightarrow> bool \<Rightarrow> int \<Rightarrow> u8 \<Rightarrow> bytes) \<Rightarrow> (bytes \<Rightarrow> int \<Rightarrow> u8 \<Rightarrow> bytes) \<Rightarrow>
      u8 \<Rightarrow> va list \<Rightarrow> int \<Rightarrow> u8 \<Rightarrow> nat \<Rightarrow> (bytes \<times> va list) option" where
  "conv_with num str c args pad pc ns =
    (if c = 100 \<or> c = 117 then
       (case args of Slot a # as \<Rightarrow>
          Some (num 0 (if ns = 8 then a else if c = 117 then ucast (ucast a :: u32) else scast (ucast a :: u32)) 10 (c = 100) pad pc, as)
        | _ \<Rightarrow> None)
     else if c = 98 \<or> c = 120 \<or> c = 112 then
       (case args of Slot a # as \<Rightarrow>
          (let p = (if c = 112 then str [48, 120] 0 32 else [])
           in Some (p @ num (length p) (if ns = 8 \<or> c = 112 then a else ucast (ucast a :: u32))
                (if c = 98 then 2 else 16) False pad pc, as))
        | _ \<Rightarrow> None)
     else if c = 115 then
       (case args of Pointer (Some s) # as \<Rightarrow> if 0 \<in> set s then Some (str (takeWhile (\<lambda>x. x \<noteq> 0) s) pad pc, as) else None
        | _ \<Rightarrow> None)
     else if c = 99 then (case args of Slot a # as \<Rightarrow> Some ([ucast a], as) | _ \<Rightarrow> None)
     else Some ([c], args))"

definition conv_out :: "int \<Rightarrow> u8 \<Rightarrow> va list \<Rightarrow> int \<Rightarrow> u8 \<Rightarrow> nat \<Rightarrow> (bytes \<times> va list) option" where
  "conv_out room = conv_with (\<lambda>k v. num_out (room - int k) v) (str_out room)"

definition conv_text :: "u8 \<Rightarrow> va list \<Rightarrow> int \<Rightarrow> u8 \<Rightarrow> nat \<Rightarrow> (bytes \<times> va list) option" where
  "conv_text = conv_with (\<lambda>k. num_text) str_text"

lemma convert_ok:
  assumes o: "conv_out room c args pad pc ns = Some (out, as)" and r: "1 \<le> room" and b: "pos + nat room \<le> length b"
  shows "convert c b pos room args pad pc ns = Inr (over b pos out, length out, as) \<and> length out \<le> nat room"
proof -
  have one: "put b pos x = Inr (over b pos [x])" for x
    using put_over [of pos "[]" b x] b r by simp
  consider (dec) "c = 100 \<or> c = 117" | (hex) "c = 98 \<or> c = 120 \<or> c = 112" | (str) "c = 115" | (chr) "c = 99"
    | (other) "c \<noteq> 100" "c \<noteq> 117" "c \<noteq> 98" "c \<noteq> 120" "c \<noteq> 112" "c \<noteq> 115" "c \<noteq> 99"
    by blast
  then show ?thesis
  proof cases
    case dec
    then obtain a where a: "args = Slot a # as"
      using o by (auto simp: conv_out_def conv_with_def split: list.splits va.splits if_splits)
    define v where "v = (if ns = 8 then a else if c = 117 then ucast (ucast a :: u32) else scast (ucast a :: u32))"
    have "out = num_out room v 10 (c = 100) pad pc"
      using o dec a by (auto simp: conv_out_def conv_with_def v_def)
    then show ?thesis
      using append_num_ok [of 10 pos room b "c = 100" v pad pc] b r dec a by (simp add: convert_def v_def [symmetric])
  next
    case hex
    then have c: "c \<noteq> 100" "c \<noteq> 117"
      by auto
    obtain a where a: "args = Slot a # as"
      using o hex c by (auto simp: conv_out_def conv_with_def Let_def split: list.splits va.splits if_splits)
    define v where "v = (if ns = 8 \<or> c = 112 then a else ucast (ucast a :: u32))"
    define p where "p = (if c = 112 then str_out room [48, 120] 0 32 else [])"
    have out: "out = p @ num_out (room - int (length p)) v (if c = 98 then 2 else 16) False pad pc"
      using o hex c a by (auto simp: conv_out_def conv_with_def v_def p_def Let_def)
    have pl: "length p \<le> nat room"
      by (simp add: p_def str_out_def)
    have pp: "(if c = 112 then append_str b pos room (Some [48, 120, 0]) 0 32 else Inr (b, 0)) = Inr (over b pos p, length p)"
      using append_str_ok(1) [of "[48, 120, 0]" pos room b 0 32] b by (simp add: p_def)
    have nb: "pos + length p + nat (room - int (length p)) \<le> length (over b pos p)"
      using pl b by (simp add: length_over)
    define g :: u64 where "g = (if c = 98 then 2 else 16)"
    have g: "1 < unat g" "unat g \<le> 36" "unat g = (if c = 98 then 2 else 16)"
      by (simp_all add: g_def)
    note n = append_num_ok [OF g(1,2) nb, of False v pad pc]
    have "over (over b pos p) (pos + length p) u = over b pos (p @ u)" for u
      using pl b by (intro over_over) simp
    then have "convert c b pos room args pad pc ns = Inr (over b pos out, length out, as)"
      using n(1) pp hex c a out by (simp add: convert_def v_def [symmetric] g_def [symmetric] g(3) [symmetric])
    moreover have "length out \<le> nat room"
      using n(2) out g(3) pl by simp
    ultimately show ?thesis
      by simp
  next
    case str
    then obtain s where a: "args = Pointer (Some s) # as" "0 \<in> set s" "out = str_out room (takeWhile (\<lambda>x. x \<noteq> 0) s) pad pc"
      using o by (auto simp: conv_out_def conv_with_def split: list.splits va.splits option.splits if_splits)
    then show ?thesis
      using append_str_ok(1) [OF a(2) b, of pad pc] append_str_ok(2) [OF a(2) b, of _ pad pc] str by (simp add: convert_def)
  next
    case chr
    then obtain a where "args = Slot a # as" "out = [ucast a]"
      using o by (auto simp: conv_out_def conv_with_def split: list.splits va.splits if_splits)
    then show ?thesis
      using one chr r by (simp add: convert_def)
  next
    case other
    then show ?thesis
      using o one r by (auto simp: conv_out_def conv_with_def convert_def)
  qed
qed

lemma conv_out_fits:
  assumes t: "conv_text c args pad pc ns = Some (full, as)"
  shows "\<exists>out. conv_out room c args pad pc ns = Some (out, as) \<and> (int (length full) < room \<longrightarrow> out = full)"
proof -
  consider (hex) "c = 98 \<or> c = 120 \<or> c = 112" | (rest) "\<not> (c = 98 \<or> c = 120 \<or> c = 112)"
    by blast
  then show ?thesis
  proof cases
    case hex
    then have c: "c \<noteq> 100" "c \<noteq> 117"
      by auto
    obtain a where a: "args = Slot a # as"
      using t hex c by (auto simp: conv_text_def conv_with_def Let_def split: list.splits va.splits if_splits)
    define v where "v = (if ns = 8 \<or> c = 112 then a else ucast (ucast a :: u32))"
    define bs :: nat where "bs = (if c = 98 then 2 else 16)"
    define p where "p = (if c = 112 then str_out room [48, 120] 0 32 else [])"
    define q where "q = (if c = 112 then str_text [48, 120] 0 32 else [])"
    have full: "full = q @ num_text v bs False pad pc"
      using t hex c a by (auto simp: conv_text_def conv_with_def v_def bs_def q_def Let_def)
    have out: "conv_out room c args pad pc ns = Some (p @ num_out (room - int (length p)) v bs False pad pc, as)"
      using hex c a by (simp add: conv_out_def conv_with_def v_def bs_def p_def Let_def)
    show ?thesis
    proof (intro exI conjI impI, rule out)
      assume l: "int (length full) < room"
      then have "p = q"
        using str_out_fits [of "[48, 120]" 0 32 room] by (cases "c = 112") (simp_all add: p_def q_def full)
      moreover have "length (num_text v bs False pad pc) < nat (room - int (length q))"
        using l by (simp add: full)
      ultimately show "p @ num_out (room - int (length p)) v bs False pad pc = full"
        using num_out_fits by (simp add: full)
    qed
  next
    case rest
    show ?thesis
      using t rest num_out_fits [of _ _ _ _ _ room] str_out_fits [of _ _ _ room]
      unfolding conv_text_def conv_out_def conv_with_def
      by (auto split: list.splits va.splits option.splits if_splits)
  qed
qed

section \<open>Whole formats\<close>

text \<open>
  The text a format and its arguments stand for, read off the format as the scanner does; \<open>None\<close> when the format is not
  terminated, a width overflows \<open>int\<close>, or the arguments do not fit the conversions.
\<close>

fun printed :: "nat \<Rightarrow> bytes \<Rightarrow> va list \<Rightarrow> bytes option" where
  "printed 0 fmt args = None"
| "printed (Suc f) fmt args =
    (case fmt of
       [] \<Rightarrow> None
     | c # cs \<Rightarrow>
         if c = 0 then Some []
         else if c = 37 then
           (case scan_format cs 0 32 4 of
              Inl _ \<Rightarrow> None
            | Inr (rest, pad, pc, ns) \<Rightarrow>
                (case rest of
                   [] \<Rightarrow> None
                 | d # ds \<Rightarrow>
                     if d = 0 then Some []
                     else (case conv_text d args pad pc ns of
                         None \<Rightarrow> None
                       | Some (t, as) \<Rightarrow> map_option (\<lambda>u. t @ u) (printed f ds as))))
         else map_option (\<lambda>u. c # u) (printed f cs args))"

definition printed_text :: "bytes \<Rightarrow> va list \<Rightarrow> bytes option" where
  "printed_text fmt args = printed (length fmt) fmt args"

lemma format_end:
  assumes "int count < sz" and "nat sz \<le> length b"
  shows "format_loop (Suc f) b sz (0 # cs) args count = Inr (over b count [0], count)"
  using assms put_over [of count "[]" b 0] by simp

lemma format_full:
  assumes "int count = sz - 1" and "nat sz \<le> length b" and "fmt \<noteq> []"
  shows "format_loop (Suc f) b sz fmt args count = Inr (over b count [0], count)"
  using assms put_over [of count "[]" b 0] by (cases fmt) simp_all

lemma format_loop_ok:
  assumes "printed f fmt args = Some full" and "int count < sz" and "nat sz \<le> length b"
  shows "\<exists>t. format_loop (Suc f) b sz fmt args count = Inr (over b count (t @ [0]), count + length t) \<and>
    int (count + length t) < sz \<and> (int (count + length full) < sz - 1 \<longrightarrow> t = full)"
  using assms
proof (induction f arbitrary: fmt args full count b)
  case (Suc f)
  then obtain c cs where fmt: "fmt = c # cs"
    by (cases fmt) simp_all
  consider (stop) "c = 0" | (room) "c \<noteq> 0" "int count = sz - 1" | (pct) "c = 37" "int count < sz - 1"
    | (plain) "c \<noteq> 0" "c \<noteq> 37" "int count < sz - 1"
    using Suc.prems(2) by linarith
  then show ?case
  proof cases
    case stop
    then show ?thesis
      using format_end [OF Suc.prems(2,3), of "Suc f" cs args] Suc.prems fmt by (intro exI [of _ "[]"]) auto
  next
    case room
    then show ?thesis
      using format_full [OF room(2) Suc.prems(3), of fmt "Suc f" args] fmt by (intro exI [of _ "[]"]) simp
  next
    case plain
    obtain u where u: "printed f cs args = Some u" "full = c # u"
      using Suc.prems(1) plain fmt by auto
    let ?b = "over b count [c]"
    have cl: "count < length b"
      using plain(3) Suc.prems(3) by linarith
    have "put b count c = Inr ?b"
      using put_over [of count "[]" b c] cl by simp
    then have st: "format_loop (Suc (Suc f)) b sz fmt args count = format_loop (Suc f) ?b sz cs args (Suc count)"
      using plain fmt by simp
    have "nat sz \<le> length ?b"
      using Suc.prems(3) cl by (simp add: length_over)
    from Suc.IH [OF u(1) _ this, of "Suc count"] obtain t where
      t: "format_loop (Suc f) ?b sz cs args (Suc count) = Inr (over ?b (Suc count) (t @ [0]), Suc count + length t)"
        "int (Suc count + length t) < sz" "int (Suc count + length u) < sz - 1 \<longrightarrow> t = u"
      using plain(3) by auto
    have "over ?b (Suc count) (t @ [0]) = over b count ((c # t) @ [0])"
      using over_over [of count "[c]" b "t @ [0]"] cl by simp
    then show ?thesis
      using st t u(2) by (intro exI [of _ "c # t"]) auto
  next
    case pct
    obtain rest pad pc ns where sc: "scan_format cs 0 32 4 = Inr (rest, pad, pc, ns)"
      using Suc.prems(1) pct fmt by (auto split: sum.splits)
    then obtain d ds where rest: "rest = d # ds"
      using Suc.prems(1) pct fmt by (cases rest) auto
    show ?thesis
    proof (cases "d = 0")
      case True
      then have "format_loop (Suc (Suc f)) b sz fmt args count = format_loop (Suc f) b sz (0 # ds) args count"
        using pct fmt sc rest by simp
      then show ?thesis
        using format_end [OF Suc.prems(2,3), of f ds args] Suc.prems(1,2) pct fmt sc rest True by (intro exI [of _ "[]"]) auto
    next
      case False
      obtain tx as u where cv: "conv_text d args pad pc ns = Some (tx, as)" "printed f ds as = Some u" "full = tx @ u"
        using Suc.prems(1) pct fmt sc rest False by (auto split: option.splits)
      let ?room = "sz - 1 - int count"
      obtain out where out: "conv_out ?room d args pad pc ns = Some (out, as)" "int (length tx) < ?room \<longrightarrow> out = tx"
        using conv_out_fits [OF cv(1)] by blast
      have rm: "1 \<le> ?room" "count + nat ?room \<le> length b"
        using pct(2) Suc.prems(3) by linarith+
      note cn = convert_ok [OF out(1) rm]
      let ?b = "over b count out"
      have ol: "count + length out \<le> length b" "int (count + length out) < sz"
        using cn rm by linarith+
      have st: "format_loop (Suc (Suc f)) b sz fmt args count = format_loop (Suc f) ?b sz ds as (count + length out)"
        using cn pct fmt sc rest False by simp
      have "nat sz \<le> length ?b"
        using Suc.prems(3) ol by (simp add: length_over)
      from Suc.IH [OF cv(2) ol(2) this] obtain t where
        t: "format_loop (Suc f) ?b sz ds as (count + length out) = Inr (over ?b (count + length out) (t @ [0]), count + length out + length t)"
          "int (count + length out + length t) < sz" "int (count + length out + length u) < sz - 1 \<longrightarrow> t = u"
        by blast
      have "over ?b (count + length out) (t @ [0]) = over b count ((out @ t) @ [0])"
        using over_over [OF ol(1), of "t @ [0]"] by simp
      then show ?thesis
        using st t out(2) cv(3) by (intro exI [of _ "out @ t"]) (auto simp: add.assoc)
    qed
  qed
qed simp

lemma vsnprintf_ok:
  assumes "printed_text fmt args = Some full" and "0 < sz" and "nat sz \<le> length buffer"
  shows "\<exists>t. vsnprintf buffer sz fmt args = Inr (t @ 0 # drop (Suc (length t)) buffer, length t) \<and>
    int (length t) < sz \<and> (int (length full) < sz - 1 \<longrightarrow> t = full)"
proof -
  from format_loop_ok [OF assms(1) [unfolded printed_text_def], of 0 sz buffer] assms(2,3) obtain t where
    "format_loop (Suc (length fmt)) buffer sz fmt args 0 = Inr (over buffer 0 (t @ [0]), length t)"
    "int (length t) < sz" "int (length full) < sz - 1 \<longrightarrow> t = full"
    by auto
  then show ?thesis
    using assms(2) by (auto simp: vsnprintf_def over_def)
qed



lemma length_rdigits: "v < b ^ n \<Longrightarrow> length (rdigits b v) \<le> n"
proof (induction n arbitrary: v)
  case (Suc n)
  show ?case
  proof (cases "v = 0 \<or> b < 2")
    case False
    then have "v div b < b ^ n"
      using Suc.prems by (simp add: less_mult_imp_div_less mult.commute)
    then show ?thesis
      using Suc.IH False by (subst rdigits.simps) simp
  qed (simp add: rdigits.simps)
qed simp

text \<open>
  (\<open>printf.cpp\<close>, \<open>append_num\<close>). The minus sign of a negative number is put into the buffer first and the digits in front of it: \<open>%d\<close> of a
  negative number prints its digits followed by the sign.
\<close>

theorem printf_sign_trails:
  assumes "sint (ucast v :: u32) < 0" and "30 \<le> length buffer"
  shows "\<exists>r. vsnprintf buffer 30 [37, 100, 0] [Slot v] =
    Inr (rev (rdigits 10 (unat (- (scast (ucast v :: u32) :: u64)))) @ 45 # 0 # r, Suc (length (rdigits 10 (unat (- (scast (ucast v :: u32) :: u64))))))"
proof -
  define w where "w = (scast (ucast v :: u32) :: u64)"
  have sw: "sint w = sint (ucast v :: u32)"
    unfolding w_def by (rule sint_up_scast) (simp add: is_up)
  have m: "magnitude w True = unat (- w)"
    using assms(1) sw by (simp add: magnitude_def)
  have "- (2 ^ 31) \<le> sint (ucast v :: u32)"
    using sint_greater_eq [of "ucast v :: u32"] by simp
  then have r: "0 < - sint w" "- sint w \<le> 2 ^ 31"
    using assms(1) sw by simp_all
  have e: "uint (word_of_int x :: u64) = take_bit 64 x" for x
    by (simp add: unsigned_of_int)
  have "- w = word_of_int (- sint w)"
    by simp
  from arg_cong [OF this, of uint] have "uint (- w) = take_bit 64 (- sint w)"
    unfolding e .
  also have "\<dots> = - sint w"
    using r by (intro take_bit_int_eq_self) simp_all
  finally have "unat (- w) < 10 ^ 10"
    using r by (simp add: unat_eq_nat_uint nat_less_iff)
  then have l: "length (rdigits 10 (unat (- w))) \<le> 10"
    by (rule length_rdigits)
  have nz: "unat (- w) \<noteq> 0"
    using assms(1) sw by (auto simp: unat_eq_zero)
  have "printed_text [37, 100, 0] [Slot v] = Some (num_text w 10 True 0 32)"
    by (simp add: printed_text_def numeral_3_eq_3 conv_text_def conv_with_def w_def)
  moreover have "num_text w 10 True 0 32 = rev (rdigits 10 (unat (- w))) @ [45]"
    using nz assms(1) sw by (simp add: num_text_def m sign_text_def)
  ultimately have "printed_text [37, 100, 0] [Slot v] = Some (rev (rdigits 10 (unat (- w))) @ [45])"
    by simp
  from vsnprintf_ok [OF this, of 30 buffer] show ?thesis
    using assms(2) l unfolding w_def [symmetric] by auto
qed

theorem printf_sign_trails_witness:
  "\<exists>r. vsnprintf (replicate 30 1) 30 [37, 100, 0] [Slot (- 57)] = Inr ([53, 55] @ 45 # 0 # r, 3)"
proof -
  have "sint (ucast (- 57 :: u64) :: u32) < 0" "30 \<le> length (replicate 30 (1 :: u8))"
    by simp_all
  moreover have "rev (rdigits 10 (unat (- (scast (ucast (- 57 :: u64) :: u32) :: u64)))) = [53, 55]"
    by code_simp
  moreover from this have "length (rdigits 10 (unat (- (scast (ucast (- 57 :: u64) :: u32) :: u64)))) = 2"
    by (metis length_rev list.size(3) length_Cons One_nat_def Suc_1)
  ultimately show ?thesis
    using printf_sign_trails [of "- 57" "replicate 30 1"] by (simp add: numeral_3_eq_3)
qed

end
