(* ===== verification/Locks.thy ===== *)
theory Locks
  imports Prelude
begin

text \<open>
  Mutexes and interrupt locks (\<open>infos/util/lock.cpp\<close>, \<open>infos/include/infos/util/lock.h\<close>). A mutex is its
  two fields; \<open>lock\<close> is cut into the steps between which other threads run: the atomic test-and-set, which is tried again after a
  yield when it finds the mutex locked, and the assignment of the owner.
\<close>

section \<open>Mutexes\<close>

record Mutex =
  mtx_locked :: bool
  mtx_owner :: ptr

definition Mutex_new :: "ptr \<Rightarrow> Mutex" where
  "Mutex_new garbage = \<lparr>mtx_locked = False, mtx_owner = garbage\<rparr>"

definition test_and_set :: "Mutex \<Rightarrow> bool \<times> Mutex" where
  "test_and_set m = (mtx_locked m, m\<lparr>mtx_locked := True\<rparr>)"

definition set_owner :: "Mutex \<Rightarrow> nat \<Rightarrow> Mutex" where
  "set_owner m t = m\<lparr>mtx_owner := Some t\<rparr>"

definition Mutex_unlock :: "Mutex \<Rightarrow> Mutex" where
  "Mutex_unlock m = m\<lparr>mtx_locked := False\<rparr>"

definition locked_by_me :: "Mutex \<Rightarrow> nat \<Rightarrow> bool" where
  "locked_by_me m t \<longleftrightarrow> mtx_locked m \<and> mtx_owner m = Some t"

text \<open>\<open>wait\<close> neither waits nor unlocks; the two notifications are empty.\<close>

definition ConditionVariable_wait :: "Mutex \<Rightarrow> nat \<Rightarrow> unit result" where
  "ConditionVariable_wait m t = check (locked_by_me m t) AssertFail"

datatype lock_pc = Idle | Trying | Acquired | Holding

type_synonym lock_state = "Mutex \<times> (nat \<Rightarrow> lock_pc)"

inductive lock_step :: "lock_state \<Rightarrow> lock_state \<Rightarrow> bool" where
  call: "p t = Idle \<Longrightarrow> lock_step (m, p) (m, p(t := Trying))"
| retry: "p t = Trying \<Longrightarrow> test_and_set m = (True, m') \<Longrightarrow> lock_step (m, p) (m', p)"
| acquire: "p t = Trying \<Longrightarrow> test_and_set m = (False, m') \<Longrightarrow> lock_step (m, p) (m', p(t := Acquired))"
| own: "p t = Acquired \<Longrightarrow> lock_step (m, p) (set_owner m t, p(t := Holding))"
| release: "p t = Holding \<Longrightarrow> lock_step (m, p) (Mutex_unlock m, p(t := Idle))"

inductive_cases lock_stepE: "lock_step (m, p) (m', p')"

inductive lock_reachable :: "ptr \<Rightarrow> lock_state \<Rightarrow> bool" for garbage where
  start: "lock_reachable garbage (Mutex_new garbage, (\<lambda>_. Idle))"
| step: "lock_reachable garbage s \<Longrightarrow> lock_step s s' \<Longrightarrow> lock_reachable garbage s'"

section \<open>Interrupt locks\<close>

text \<open>The processor is its interrupt flag; a lock is the flag it saved.\<close>

definition IRQLock_lock :: "bool \<Rightarrow> (bool \<times> bool) result" where
  "IRQLock_lock cpu =
    (let were_enabled = cpu; cpu = (if were_enabled then False else cpu)
     in andthen (check (\<not> cpu) AssertFail) (\<lambda>_. Inr (were_enabled, cpu)))"

definition IRQLock_unlock :: "bool \<Rightarrow> bool \<Rightarrow> bool result" where
  "IRQLock_unlock were_enabled cpu =
    (if were_enabled then let cpu = True in andthen (check cpu AssertFail) (\<lambda>_. Inr cpu) else Inr cpu)"

text \<open>A scope of a \<open>UniqueIRQLock\<close> with the scopes entered one after the other inside it.\<close>

datatype irq_scope = Scope "irq_scope list"

text \<open>The flags seen inside the innermost positions are collected in the order they are seen.\<close>

fun run_scope :: "irq_scope \<Rightarrow> bool \<Rightarrow> (bool list \<times> bool) result"
  and run_scopes :: "irq_scope list \<Rightarrow> bool \<Rightarrow> (bool list \<times> bool) result" where
  "run_scope (Scope ss) cpu =
    andthen (IRQLock_lock cpu) (\<lambda>(saved, cpu).
    andthen (run_scopes ss cpu) (\<lambda>(seen, cpu').
    andthen (IRQLock_unlock saved cpu') (\<lambda>cpu''. Inr (cpu # seen @ [cpu'], cpu''))))"
| "run_scopes [] cpu = Inr ([], cpu)"
| "run_scopes (s # ss) cpu =
    andthen (run_scope s cpu) (\<lambda>(seen, cpu). andthen (run_scopes ss cpu) (\<lambda>(seen', cpu). Inr (seen @ seen', cpu)))"

section \<open>Properties\<close>

definition holders :: "(nat \<Rightarrow> lock_pc) \<Rightarrow> nat set" where
  "holders p = {t. p t = Acquired \<or> p t = Holding}"

lemma holders_upd:
  "holders (p(t := x)) = (if x = Acquired \<or> x = Holding then insert t (holders p) else holders p - {t})"
  by (auto simp: holders_def)

definition lock_inv :: "lock_state \<Rightarrow> bool" where
  "lock_inv s \<longleftrightarrow>
    (if mtx_locked (fst s) then \<exists>t. holders (snd s) = {t} else holders (snd s) = {}) \<and>
    (\<forall>t. snd s t = Holding \<longrightarrow> mtx_owner (fst s) = Some t)"

lemma in_holders: "p t = Acquired \<or> p t = Holding \<Longrightarrow> t \<in> holders p"
  by (simp add: holders_def)

lemma not_in_holders: "p t = Idle \<or> p t = Trying \<Longrightarrow> t \<notin> holders p"
  by (auto simp: holders_def)

lemma lock_inv_step:
  assumes "lock_step s s'" and "lock_inv s"
  shows "lock_inv s'"
  using assms
proof (induction rule: lock_step.induct)
  case (call p t m)
  then show ?case
    using not_in_holders [of p t] by (auto simp: lock_inv_def holders_upd)
next
  case (retry p t m m')
  then show ?case
    by (auto simp: lock_inv_def test_and_set_def)
next
  case (acquire p t m m')
  then have h: "holders p = {}" "m' = m\<lparr>mtx_locked := True\<rparr>"
    by (simp_all add: lock_inv_def test_and_set_def)
  have "p u \<noteq> Holding" for u
    using in_holders [of p u] h(1) by blast
  then show ?case
    using h by (simp add: lock_inv_def holders_upd)
next
  case (own p t m)
  then have h: "mtx_locked m" "holders p = {t}"
    using in_holders [of p t] by (auto simp: lock_inv_def split: if_splits)
  have "p u = Holding \<longrightarrow> u = t" for u
    using in_holders [of p u] h(2) by blast
  then show ?case
    using h by (simp add: lock_inv_def set_owner_def holders_upd)
next
  case (release p t m)
  then have h: "holders p = {t}"
    using in_holders [of p t] by (auto simp: lock_inv_def split: if_splits)
  have "p u = Holding \<longrightarrow> u = t" for u
    using in_holders [of p u] h by blast
  then show ?case
    using h by (auto simp add: lock_inv_def Mutex_unlock_def holders_upd)
qed

lemma lock_inv_reachable: "lock_reachable garbage s \<Longrightarrow> lock_inv s"
proof (induction rule: lock_reachable.induct)
  case start
  show ?case
    by (simp add: lock_inv_def Mutex_new_def holders_def)
next
  case (step s s')
  then show ?case
    using lock_inv_step by blast
qed


text \<open>Thread 0 locks and unlocks, then thread 1 gets the mutex and has not yet written the owner.\<close>

lemma stale_owner_reachable:
  "lock_reachable garbage (\<lparr>mtx_locked = True, mtx_owner = Some 0\<rparr>, (\<lambda>_. Idle)(0 := Idle, 1 := Acquired))"
proof -
  let ?p = "\<lambda>_. Idle"
  let ?m = "Mutex_new garbage"
  have 1: "lock_reachable garbage (?m, ?p(0 := Trying))"
    by (rule step [OF start call]) simp
  have 2: "lock_reachable garbage (?m\<lparr>mtx_locked := True\<rparr>, ?p(0 := Acquired))"
    using step [OF 1 acquire [of _ 0]] by (simp add: test_and_set_def Mutex_new_def)
  have 3: "lock_reachable garbage (\<lparr>mtx_locked = True, mtx_owner = Some 0\<rparr>, ?p(0 := Holding))"
    using step [OF 2 own [of _ 0]] by (simp add: set_owner_def Mutex_new_def)
  have 4: "lock_reachable garbage (\<lparr>mtx_locked = False, mtx_owner = Some 0\<rparr>, ?p(0 := Idle))"
    using step [OF 3 release [of _ 0]] by (simp add: Mutex_unlock_def)
  have 5: "lock_reachable garbage (\<lparr>mtx_locked = False, mtx_owner = Some 0\<rparr>, ?p(0 := Idle, 1 := Trying))"
    using step [OF 4 call [of _ 1]] by simp
  show ?thesis
    using step [OF 5 acquire [of _ 1]] by (simp add: test_and_set_def)
qed


text \<open>
  (\<open>lock.cpp\<close>, \<open>Mutex::lock\<close>, \<open>locked_by_me\<close>). The owner is written after the test-and-set, so in between the
  previous owner, which has unlocked the mutex, still sees itself as the holder, and a wait on a condition variable passes its assertion.
\<close>

theorem mutex_stale_owner:
  "\<exists>m p. lock_reachable garbage (m, p) \<and> p 0 = Idle \<and> locked_by_me m 0 \<and> ConditionVariable_wait m 0 = Inr ()"
  using stale_owner_reachable [of garbage]
  by (intro exI [of _ "\<lparr>mtx_locked = True, mtx_owner = Some 0\<rparr>"] exI [of _ "(\<lambda>_. Idle)(0 := Idle, 1 := Acquired)"])
    (simp add: locked_by_me_def ConditionVariable_wait_def)

lemma run_scope_ok:
  "\<exists>seen. run_scope s cpu = Inr (seen, cpu) \<and> set seen \<subseteq> {False}"
  "\<exists>seen. run_scopes ss cpu = Inr (seen, cpu) \<and> set seen \<subseteq> {False}"
proof (induction s cpu and ss cpu rule: run_scope_run_scopes.induct)
  case (1 ss cpu)
  have l: "IRQLock_lock cpu = Inr (cpu, False)" "IRQLock_unlock cpu False = Inr cpu"
    by (simp_all add: IRQLock_lock_def IRQLock_unlock_def Let_def)
  obtain seen where "run_scopes ss False = Inr (seen, False)" "set seen \<subseteq> {False}"
    using 1 l by auto
  then show ?case
    using l by simp
next
  case (3 s ss cpu)
  obtain x where x: "run_scope s cpu = Inr (x, cpu)" "set x \<subseteq> {False}"
    using 3(1) by blast
  obtain y where "run_scopes ss cpu = Inr (y, cpu)" "set y \<subseteq> {False}"
    using 3(2) x(1) by blast
  then show ?case
    using x by simp
qed simp

text \<open>
  C27 (\<open>lock.h\<close>, \<open>UniqueIRQLock\<close>; \<open>lock.cpp\<close>, \<open>IRQLock\<close>). However scopes of interrupt locks are nested and follow each other, no assertion
  fails, interrupts are off everywhere inside, and the flag after the outermost scope is the one before it.
\<close>

theorem irq_scopes_restore:
  "\<exists>seen. run_scope s cpu = Inr (seen, cpu) \<and> set seen \<subseteq> {False}"
  by (rule run_scope_ok(1))

end
