(* ===== verification/Console.thy ===== *)
theory Console
  imports Sched Util_String
begin

text \<open>
  The way of a key stroke and of written text: keyboard (\<open>drivers/input/keyboard.cpp\<close>), physical console
  (\<open>drivers/console/physical-console.cpp\<close>) with the VGA console as its only subclass
  (\<open>drivers/video/vga-console.cpp\<close>), virtual consoles (\<open>drivers/console/virtual-console.cpp\<close>) and terminals
  (\<open>drivers/terminal/terminal.cpp\<close>). Consoles, terminals and screen buffers live in lists and pointers are positions; the
  video memory is one of the buffers. Port writes are recorded in the order they are made. An uninitialised pointer is \<open>None\<close>.
\<close>

unbundle bit_operations_syntax

section \<open>Keys\<close>

datatype (plugins only: code) Keys =
    NO_KEY | UNKNOWN_KEY | KEY_ESCAPE
  | KEY_A | KEY_B | KEY_C | KEY_D | KEY_E | KEY_F | KEY_G | KEY_H | KEY_I | KEY_J | KEY_K | KEY_L | KEY_M
  | KEY_N | KEY_O | KEY_P | KEY_Q | KEY_R | KEY_S | KEY_T | KEY_U | KEY_V | KEY_W | KEY_X | KEY_Y | KEY_Z
  | KEY_1 | KEY_2 | KEY_3 | KEY_4 | KEY_5 | KEY_6 | KEY_7 | KEY_8 | KEY_9 | KEY_0
  | KEY_F1 | KEY_F2 | KEY_F3 | KEY_F4 | KEY_F5 | KEY_F6 | KEY_F7 | KEY_F8 | KEY_F9 | KEY_F10 | KEY_F11 | KEY_F12
  | KEY_ASTERISK | KEY_LSQBRACKET | KEY_RSQBRACKET
  | KEY_DOT | KEY_COMMA | KEY_SEMICOLON | KEY_APOSTROPHE | KEY_HASH | KEY_BACKSLASH | KEY_FORSLASH | KEY_BACKTICK
  | KEY_HYPHEN | KEY_EQUALS | KEY_TAB | KEY_RETURN | KEY_SPACE | KEY_BACKSPACE
  | KEY_CAPSLOCK | KEY_LSHIFT | KEY_RSHIFT | KEY_LCTRL | KEY_RCTRL | KEY_LALT | KEY_RALT

definition scancode_map :: "Keys list" where
  "scancode_map =
    [NO_KEY, KEY_ESCAPE, KEY_1, KEY_2, KEY_3, KEY_4, KEY_5, KEY_6, KEY_7, KEY_8, KEY_9, KEY_0,
     KEY_HYPHEN, KEY_EQUALS, KEY_BACKSPACE, KEY_TAB,
     KEY_Q, KEY_W, KEY_E, KEY_R, KEY_T, KEY_Y, KEY_U, KEY_I, KEY_O, KEY_P, KEY_LSQBRACKET, KEY_RSQBRACKET,
     KEY_RETURN, KEY_LCTRL,
     KEY_A, KEY_S, KEY_D, KEY_F, KEY_G, KEY_H, KEY_J, KEY_K, KEY_L, KEY_SEMICOLON, KEY_APOSTROPHE, KEY_BACKTICK,
     KEY_LSHIFT, KEY_BACKSLASH, KEY_Z, KEY_X, KEY_C, KEY_V, KEY_B, KEY_N, KEY_M, KEY_COMMA, KEY_DOT, KEY_FORSLASH,
     KEY_RSHIFT, KEY_ASTERISK, KEY_LALT, KEY_SPACE, KEY_CAPSLOCK,
     KEY_F1, KEY_F2, KEY_F3, KEY_F4, KEY_F5, KEY_F6, KEY_F7, KEY_F8, KEY_F9, KEY_F10]"

definition scancode_to_key :: "u8 \<Rightarrow> Keys result" where
  "scancode_to_key scancode =
    (let key_scancode = scancode AND NOT 0x80
     in if unat key_scancode > length scancode_map then Inr UNKNOWN_KEY
        else if unat key_scancode < length scancode_map then Inr (scancode_map ! unat key_scancode)
        else Inl OutOfBounds)"

text \<open>The characters of a key with and without shift, from the table in \<open>VirtualConsole::key_down\<close>.\<close>

definition KEY_MAPPING :: "Keys \<Rightarrow> (u8 \<times> u8) option" where
  "KEY_MAPPING key = (case key of
      KEY_A \<Rightarrow> Some (65, 97) | KEY_B \<Rightarrow> Some (66, 98) | KEY_C \<Rightarrow> Some (67, 99) | KEY_D \<Rightarrow> Some (68, 100)
    | KEY_E \<Rightarrow> Some (69, 101) | KEY_F \<Rightarrow> Some (70, 102) | KEY_G \<Rightarrow> Some (71, 103) | KEY_H \<Rightarrow> Some (72, 104)
    | KEY_I \<Rightarrow> Some (73, 105) | KEY_J \<Rightarrow> Some (74, 106) | KEY_K \<Rightarrow> Some (75, 107) | KEY_L \<Rightarrow> Some (76, 108)
    | KEY_M \<Rightarrow> Some (77, 109) | KEY_N \<Rightarrow> Some (78, 110) | KEY_O \<Rightarrow> Some (79, 111) | KEY_P \<Rightarrow> Some (80, 112)
    | KEY_Q \<Rightarrow> Some (81, 113) | KEY_R \<Rightarrow> Some (82, 114) | KEY_S \<Rightarrow> Some (83, 115) | KEY_T \<Rightarrow> Some (84, 116)
    | KEY_U \<Rightarrow> Some (85, 117) | KEY_V \<Rightarrow> Some (86, 118) | KEY_W \<Rightarrow> Some (87, 119) | KEY_X \<Rightarrow> Some (88, 120)
    | KEY_Y \<Rightarrow> Some (89, 121) | KEY_Z \<Rightarrow> Some (90, 122)
    | KEY_0 \<Rightarrow> Some (41, 48) | KEY_1 \<Rightarrow> Some (33, 49) | KEY_2 \<Rightarrow> Some (34, 50) | KEY_3 \<Rightarrow> Some (35, 51)
    | KEY_4 \<Rightarrow> Some (36, 52) | KEY_5 \<Rightarrow> Some (37, 53) | KEY_6 \<Rightarrow> Some (94, 54) | KEY_7 \<Rightarrow> Some (38, 55)
    | KEY_8 \<Rightarrow> Some (42, 56) | KEY_9 \<Rightarrow> Some (40, 57)
    | KEY_HYPHEN \<Rightarrow> Some (95, 45) | KEY_EQUALS \<Rightarrow> Some (43, 61) | KEY_BACKSLASH \<Rightarrow> Some (124, 92)
    | KEY_FORSLASH \<Rightarrow> Some (63, 47) | KEY_DOT \<Rightarrow> Some (62, 46)
    | KEY_SPACE \<Rightarrow> Some (32, 32) | KEY_RETURN \<Rightarrow> Some (10, 10) | KEY_BACKSPACE \<Rightarrow> Some (8, 8)
    | _ \<Rightarrow> None)"

section \<open>State\<close>

record Terminal =
  read_buffer :: bytes
  read_buffer_head :: u8
  read_buffer_tail :: u8
  attached_virt_console :: ptr

record VirtualConsole =
  current_mod_mask :: u32
  current_pos :: u16
  vc_terminal :: ptr
  vc_buffer :: ptr
  vc_ucb :: bool

record ConsoleSystem =
  terminals :: "Terminal list"
  consoles :: "VirtualConsole list"
  buffers :: "u16 list list"
  pc_vcs :: "nat List"
  pc_current_vc :: ptr
  pc_alt_pressed :: bool
  video_ram :: nat
  backup_buffer :: ptr
  old_vc :: ptr
  kbd_sink :: bool
  port_writes :: "(u16 \<times> u8) list"

definition screen_width :: nat where "screen_width = 80"
definition screen_height :: nat where "screen_height = 25"
definition Shift :: u32 where "Shift = 2"

definition term_at :: "ConsoleSystem \<Rightarrow> nat \<Rightarrow> Terminal result" where
  "term_at s t = (if t < length (terminals s) then Inr (terminals s ! t) else Inl Undefined)"

definition vc_at :: "ConsoleSystem \<Rightarrow> nat \<Rightarrow> VirtualConsole result" where
  "vc_at s v = (if v < length (consoles s) then Inr (consoles s ! v) else Inl Undefined)"

definition buffer_at :: "ConsoleSystem \<Rightarrow> nat \<Rightarrow> u16 list result" where
  "buffer_at s b = (if b < length (buffers s) then Inr (buffers s ! b) else Inl Undefined)"

definition put_vc :: "nat \<Rightarrow> VirtualConsole \<Rightarrow> ConsoleSystem \<Rightarrow> ConsoleSystem" where
  "put_vc v c s = s\<lparr>consoles := (consoles s)[v := c]\<rparr>"

definition put_term :: "nat \<Rightarrow> Terminal \<Rightarrow> ConsoleSystem \<Rightarrow> ConsoleSystem" where
  "put_term t c s = s\<lparr>terminals := (terminals s)[t := c]\<rparr>"

text \<open>\<open>new uint16_t[80 * 25]\<close> is a fresh buffer.\<close>

definition VirtualConsole_new :: "ConsoleSystem \<Rightarrow> nat \<times> ConsoleSystem" where
  "VirtualConsole_new s =
    (length (consoles s),
     s\<lparr>consoles := consoles s @ [\<lparr>current_mod_mask = 0, current_pos = 0, vc_terminal = None,
         vc_buffer = Some (length (buffers s)), vc_ucb = False\<rparr>],
       buffers := buffers s @ [replicate (screen_width * screen_height) 0x0700]\<rparr>)"

definition Terminal_new :: "bytes \<Rightarrow> Terminal" where
  "Terminal_new garbage = \<lparr>read_buffer = take 64 garbage, read_buffer_head = 0, read_buffer_tail = 0,
    attached_virt_console = None\<rparr>"

definition attach_terminal :: "ConsoleSystem \<Rightarrow> nat \<Rightarrow> nat \<Rightarrow> ConsoleSystem result" where
  "attach_terminal s v t =
    andthen (vc_at s v) (\<lambda>c. andthen (term_at s t) (\<lambda>tt.
      Inr (put_term t (tt\<lparr>attached_virt_console := Some v\<rparr>) (put_vc v (c\<lparr>vc_terminal := Some t\<rparr>) s))))"

section \<open>Terminal input\<close>

text \<open>The event of terminal \<open>t\<close> is \<open>DeviceEvent t\<close>; triggering it makes the waiting readers runnable.\<close>

definition append_to_read_buffer ::
    "'a SchedulingAlgorithm \<Rightarrow> ConsoleSystem \<Rightarrow> 'a kernel \<Rightarrow> nat \<Rightarrow> u8 \<Rightarrow> (ConsoleSystem \<times> 'a kernel) result" where
  "append_to_read_buffer A s k t c =
    andthen (term_at s t) (\<lambda>tt.
    andthen (put (read_buffer tt) (unat (read_buffer_tail tt)) c) (\<lambda>b.
    andthen (Event_trigger A k (DeviceEvent t)) (\<lambda>k.
      Inr (put_term t (tt\<lparr>read_buffer := b, read_buffer_tail := (read_buffer_tail tt + 1) mod 64\<rparr>) s, k))))"

text \<open>
  \<open>Terminal::read\<close> from the count \<open>n\<close> on, up to the point where it returns or has put the thread to sleep on the event;
  a reader that has been woken continues with the count it had.
\<close>

datatype read_outcome = Returned nat | Waiting nat

function read_loop ::
    "'a SchedulingAlgorithm \<Rightarrow> 'a kernel \<Rightarrow> nat \<Rightarrow> Terminal \<Rightarrow> bytes \<Rightarrow> nat \<Rightarrow> nat \<Rightarrow>
      (read_outcome \<times> bytes \<times> Terminal \<times> 'a kernel) result" where
  "read_loop A k t tt buffer n sz =
    (if n < sz then
       if read_buffer_head tt = read_buffer_tail tt
       then andthen (Event_wait A k (DeviceEvent t)) (\<lambda>(_, k). Inr (Waiting n, buffer, tt, k))
       else if unat (read_buffer_head tt) < length (read_buffer tt)
       then andthen (put buffer n (read_buffer tt ! unat (read_buffer_head tt))) (\<lambda>buffer.
         read_loop A k t (tt\<lparr>read_buffer_head := (read_buffer_head tt + 1) mod 64\<rparr>) buffer (Suc n) sz)
       else Inl OutOfBounds
     else Inr (Returned n, buffer, tt, k))"
  by pat_completeness auto
termination
  by (relation "measure (\<lambda>(A, k, t, tt, buffer, n, sz). sz - n)") auto

declare read_loop.simps [simp del]

definition terminal_read ::
    "'a SchedulingAlgorithm \<Rightarrow> ConsoleSystem \<Rightarrow> 'a kernel \<Rightarrow> nat \<Rightarrow> bytes \<Rightarrow> nat \<Rightarrow> nat \<Rightarrow>
      (read_outcome \<times> bytes \<times> ConsoleSystem \<times> 'a kernel) result" where
  "terminal_read A s k t buffer n sz =
    andthen (term_at s t) (\<lambda>tt.
      if sz = 0 then Inr (Returned 0, buffer, s, k)
      else andthen (read_loop A k t tt buffer n sz) (\<lambda>(r, buffer, tt, k). Inr (r, buffer, put_term t tt s, k)))"

section \<open>Keys to characters\<close>

definition vc_key_up :: "ConsoleSystem \<Rightarrow> nat \<Rightarrow> Keys \<Rightarrow> ConsoleSystem result" where
  "vc_key_up s v key =
    andthen (vc_at s v) (\<lambda>c.
      if key = KEY_LSHIFT \<or> key = KEY_RSHIFT
      then Inr (put_vc v (c\<lparr>current_mod_mask := current_mod_mask c AND NOT Shift\<rparr>) s) else Inr s)"

definition vc_key_down ::
    "'a SchedulingAlgorithm \<Rightarrow> ConsoleSystem \<Rightarrow> 'a kernel \<Rightarrow> nat \<Rightarrow> Keys \<Rightarrow> (ConsoleSystem \<times> 'a kernel) result" where
  "vc_key_down A s k v key =
    andthen (vc_at s v) (\<lambda>c.
      if key = KEY_LSHIFT \<or> key = KEY_RSHIFT
      then Inr (put_vc v (c\<lparr>current_mod_mask := current_mod_mask c OR Shift\<rparr>) s, k)
      else case KEY_MAPPING key of
          None \<Rightarrow> Inr (s, k)
        | Some (upper, lower) \<Rightarrow>
            case vc_terminal c of
              None \<Rightarrow> Inl Undefined
            | Some t \<Rightarrow> append_to_read_buffer A s k t (if current_mod_mask c AND Shift \<noteq> 0 then upper else lower))"

section \<open>Text to the screen\<close>

definition scroll_one_line :: "u16 list \<Rightarrow> u16 list result" where
  "scroll_one_line buf =
    (if screen_width * screen_height \<le> length buf
     then Inr (take (screen_width * (screen_height - 1)) (drop screen_width buf) @ replicate screen_width 0x0700 @
       drop (screen_width * screen_height) buf)
     else Inl OutOfBounds)"

definition put16 :: "u16 list \<Rightarrow> nat \<Rightarrow> u16 \<Rightarrow> u16 list result" where
  "put16 d i c = (if i < length d then Inr (d[i := c]) else Inl OutOfBounds)"

text \<open>The \<open>int\<close> variables \<open>attr\<close> and \<open>state\<close>; a cell gets the low half of \<open>attr | c\<close> with a signed \<open>c\<close>.\<close>

definition glyph :: "u32 \<Rightarrow> u8 \<Rightarrow> u16" where
  "glyph attr c = ucast (attr OR scast c)"

definition escape_step :: "u32 \<Rightarrow> nat \<Rightarrow> u8 \<Rightarrow> u32 \<times> nat" where
  "escape_step attr state c =
    (if state = 1 then (if c = 91 then (attr, 2) else (attr, 0))
     else if state = 2 then (0x0100, 0) else (attr, state))"

definition put_char :: "u16 list \<Rightarrow> u16 \<Rightarrow> u32 \<Rightarrow> u8 \<Rightarrow> (u16 list \<times> u16 \<times> nat) result" where
  "put_char buf pos attr c =
    (if c = 10 then Inr (buf, pos + (80 - pos mod 80), 0)
     else if c = 27 then Inr (buf, pos, 1)
     else if c = 8 then andthen (put16 buf (unat (pos - 1)) (glyph attr 32)) (\<lambda>buf. Inr (buf, pos - 1, 0))
     else andthen (put16 buf (unat pos) (glyph attr c)) (\<lambda>buf. Inr (buf, pos + 1, 0)))"

definition scroll_if_full :: "u16 list \<Rightarrow> u16 \<Rightarrow> (u16 list \<times> u16) result" where
  "scroll_if_full buf pos =
    (if unat pos \<ge> screen_width * screen_height
     then andthen (scroll_one_line buf) (\<lambda>buf. Inr (buf, of_nat (screen_width * (screen_height - 1))))
     else Inr (buf, pos))"

fun write_loop :: "u16 list \<Rightarrow> u16 \<Rightarrow> u32 \<Rightarrow> nat \<Rightarrow> bytes \<Rightarrow> (u16 list \<times> u16) result" where
  "write_loop buf pos attr state [] = Inr (buf, pos)"
| "write_loop buf pos attr state (c # cs) =
    (case escape_step attr state c of (attr, state) \<Rightarrow>
      if state = 0
      then andthen (put_char buf pos attr c) (\<lambda>(buf, pos, state).
           andthen (scroll_if_full buf pos) (\<lambda>(buf, pos). write_loop buf pos attr state cs))
      else write_loop buf pos attr state cs)"

text \<open>The only update callback is the one of the VGA console, which moves the cursor.\<close>

definition VCUpdateCallback :: "ConsoleSystem \<Rightarrow> nat \<Rightarrow> ConsoleSystem result" where
  "VCUpdateCallback s v =
    andthen (vc_at s v) (\<lambda>c.
      let position = current_pos c in
      Inr (s\<lparr>port_writes := port_writes s @
        [(0x3d4, 0xf), (0x3d5, ucast position), (0x3d4, 0xe), (0x3d5, ucast (drop_bit 8 position))]\<rparr>))"

definition vc_write :: "ConsoleSystem \<Rightarrow> nat \<Rightarrow> bytes \<Rightarrow> (nat \<times> ConsoleSystem) result" where
  "vc_write s v buffer =
    andthen (vc_at s v) (\<lambda>c. case vc_buffer c of
        None \<Rightarrow> Inr (0, s)
      | Some b \<Rightarrow>
          andthen (buffer_at s b) (\<lambda>buf.
          andthen (write_loop buf (current_pos c) 0x0700 0 buffer) (\<lambda>(buf, pos).
            let s = put_vc v (c\<lparr>current_pos := pos\<rparr>) (s\<lparr>buffers := (buffers s)[b := buf]\<rparr>)
            in andthen (if vc_ucb c then VCUpdateCallback s v else Inr s) (\<lambda>s. Inr (length buffer, s)))))"

definition terminal_write :: "ConsoleSystem \<Rightarrow> nat \<Rightarrow> bytes \<Rightarrow> (nat \<times> ConsoleSystem) result" where
  "terminal_write s t buffer =
    andthen (term_at s t) (\<lambda>tt. case attached_virt_console tt of
        Some v \<Rightarrow> vc_write s v buffer
      | None \<Rightarrow> Inr (0, s))"

section \<open>Switching consoles\<close>

text \<open>\<open>memcpy\<close> of a whole screen between two buffers.\<close>

definition copy_screen :: "ConsoleSystem \<Rightarrow> ptr \<Rightarrow> ptr \<Rightarrow> ConsoleSystem result" where
  "copy_screen s dst src =
    andthen (deref dst) (\<lambda>d. andthen (deref src) (\<lambda>e.
    andthen (buffer_at s d) (\<lambda>db. andthen (buffer_at s e) (\<lambda>eb.
      let n = screen_width * screen_height in
      if n \<le> length db \<and> n \<le> length eb
      then Inr (s\<lparr>buffers := (buffers s)[d := take n eb @ drop n db]\<rparr>) else Inl OutOfBounds))))"

definition set_buffer :: "ConsoleSystem \<Rightarrow> nat \<Rightarrow> ptr \<Rightarrow> bool \<Rightarrow> ConsoleSystem result" where
  "set_buffer s v b ucb =
    andthen (vc_at s v) (\<lambda>c. Inr (put_vc v (c\<lparr>vc_buffer := b, vc_ucb := ucb\<rparr>) s))"

definition get_buffer :: "ConsoleSystem \<Rightarrow> nat \<Rightarrow> ptr result" where
  "get_buffer s v = andthen (vc_at s v) (\<lambda>c. Inr (vc_buffer c))"

definition virtual_console_changed :: "ConsoleSystem \<Rightarrow> ConsoleSystem result" where
  "virtual_console_changed s =
    andthen (case old_vc s of
        Some ov \<Rightarrow> andthen (set_buffer s ov (backup_buffer s) False) (\<lambda>s.
          andthen (get_buffer s ov) (\<lambda>b. copy_screen s b (Some (video_ram s))))
      | None \<Rightarrow> Inr s) (\<lambda>s.
    andthen (deref (pc_current_vc s)) (\<lambda>cur.
    andthen (get_buffer s cur) (\<lambda>b.
    andthen (set_buffer (s\<lparr>backup_buffer := b\<rparr>) cur (Some (video_ram s)) True) (\<lambda>s.
    andthen (case backup_buffer s of
        Some _ \<Rightarrow> andthen (get_buffer s cur) (\<lambda>b. copy_screen s b (backup_buffer s))
      | None \<Rightarrow> Inr s) (\<lambda>s.
      VCUpdateCallback (s\<lparr>old_vc := Some cur\<rparr>) cur)))))"

definition set_current_vc :: "ConsoleSystem \<Rightarrow> nat \<Rightarrow> ConsoleSystem result" where
  "set_current_vc s v = virtual_console_changed (s\<lparr>pc_current_vc := Some v\<rparr>)"

definition add_virtual_console :: "ConsoleSystem \<Rightarrow> nat \<Rightarrow> ConsoleSystem result" where
  "add_virtual_console s v =
    (let s = s\<lparr>pc_vcs := list_append (pc_vcs s) v\<rparr>
     in if lcount (pc_vcs s) = 1 then set_current_vc s v else Inr s)"

section \<open>The physical console and the keyboard\<close>

definition pc_key_up :: "ConsoleSystem \<Rightarrow> Keys \<Rightarrow> ConsoleSystem result" where
  "pc_key_up s key =
    (let s = (if key = KEY_LALT \<or> key = KEY_RALT then s\<lparr>pc_alt_pressed := False\<rparr> else s)
     in case pc_current_vc s of Some v \<Rightarrow> vc_key_up s v key | None \<Rightarrow> Inr s)"

definition pc_key_down ::
    "'a SchedulingAlgorithm \<Rightarrow> ConsoleSystem \<Rightarrow> 'a kernel \<Rightarrow> Keys \<Rightarrow> (ConsoleSystem \<times> 'a kernel) result" where
  "pc_key_down A s k key =
    (if key = KEY_F1 \<and> pc_alt_pressed s
     then andthen (list_at (pc_vcs s) 0) (\<lambda>v. andthen (set_current_vc s v) (\<lambda>s. Inr (s, k)))
     else if key = KEY_F2 \<and> pc_alt_pressed s
     then andthen (list_at (pc_vcs s) 1) (\<lambda>v. andthen (set_current_vc s v) (\<lambda>s. Inr (s, k)))
     else let s = (if key = KEY_LALT \<or> key = KEY_RALT then s\<lparr>pc_alt_pressed := True\<rparr> else s)
          in case pc_current_vc s of Some v \<Rightarrow> vc_key_down A s k v key | None \<Rightarrow> Inr (s, k))"

definition handle_key_event ::
    "'a SchedulingAlgorithm \<Rightarrow> ConsoleSystem \<Rightarrow> 'a kernel \<Rightarrow> u8 \<Rightarrow> (ConsoleSystem \<times> 'a kernel) result" where
  "handle_key_event A s k scancode =
    (if \<not> kbd_sink s then Inr (s, k)
     else if scancode AND 0x80 \<noteq> 0
     then andthen (scancode_to_key scancode) (\<lambda>key. andthen (pc_key_up s key) (\<lambda>s. Inr (s, k)))
     else andthen (scancode_to_key scancode) (pc_key_down A s k))"

end
