(* ===== verification/Console_Correct.thy ===== *)
theory Console_Correct
  imports Console Sched_Props
begin

text \<open>
  Correctness of the console stack. The read buffer of a terminal is a queue of at most 63 bytes; a key stroke arrives
  at the end of the queue of the terminal the current console is attached to; writing text stays inside the screen
  and puts the text where it belongs; switching between consoles keeps the contents of all of them.
\<close>

section \<open>The read buffer as a queue\<close>

definition ring :: "bytes \<Rightarrow> nat \<Rightarrow> nat \<Rightarrow> bytes" where
  "ring b h t = map (\<lambda>i. b ! ((h + i) mod 64)) [0..<(t + 64 - h) mod 64]"

definition pending :: "Terminal \<Rightarrow> bytes" where
  "pending tt = ring (read_buffer tt) (unat (read_buffer_head tt)) (unat (read_buffer_tail tt))"

definition term_ok :: "Terminal \<Rightarrow> bool" where
  "term_ok tt \<longleftrightarrow> length (read_buffer tt) = 64 \<and> unat (read_buffer_head tt) < 64 \<and> unat (read_buffer_tail tt) < 64"

lemma ring_length: "length (ring b h t) = (t + 64 - h) mod 64"
  by (simp add: ring_def)

lemma ring_len_cases:
  assumes "h < 64" "t < (64 :: nat)"
  shows "(t + 64 - h) mod 64 = (if h \<le> t then t - h else t + 64 - h)"
  using assms by (auto simp: mod_if)

lemma ring_push_lens:
  assumes "h < 64" "t < (64 :: nat)" and "(t + 64 - h) mod 64 < 63"
  shows "(Suc t mod 64 + 64 - h) mod 64 = Suc ((t + 64 - h) mod 64)"
    and "(h + (t + 64 - h) mod 64) mod 64 = t"
    and "i < (t + 64 - h) mod 64 \<Longrightarrow> (h + i) mod 64 \<noteq> t"
  using assms by (auto simp: ring_len_cases mod_if split: if_splits)

lemma ring_push:
  assumes "h < 64" "t < 64" "length b = 64" and l: "length (ring b h t) < 63"
  shows "ring (b[t := c]) h ((t + 1) mod 64) = ring b h t @ [c]"
proof -
  have l: "(t + 64 - h) mod 64 < 63" using l by (simp add: ring_length)
  note e = ring_push_lens [OF assms(1,2) l]
  have "(b[t := c]) ! ((h + i) mod 64) = b ! ((h + i) mod 64)" if "i < (t + 64 - h) mod 64" for i
    using e(3) [OF that] by simp
  then show ?thesis
    using assms(1-3) e(1,2) by (simp add: ring_def)
qed

lemma ring_full:
  assumes "h < 64" "t < 64" and "length (ring b h t) = 63"
  shows "ring b' h ((t + 1) mod 64) = []"
proof -
  have "((t + 1) mod 64 + 64 - h) mod 64 = 0"
    using assms by (auto simp: ring_length ring_len_cases mod_if split: if_splits)
  then show ?thesis
    by (simp add: ring_def)
qed

lemma ring_empty_iff:
  assumes "h < 64" "t < 64"
  shows "ring b h t = [] \<longleftrightarrow> h = t"
  using assms by (auto simp: ring_def ring_len_cases split: if_splits)

lemma ring_pop:
  assumes "h < 64" "t < 64" "h \<noteq> t"
  shows "ring b h t = b ! h # ring b ((h + 1) mod 64) t"
proof -
  have l: "(t + 64 - h) mod 64 = Suc ((t + 64 - (h + 1) mod 64) mod 64)"
    using assms by (auto simp: mod_if split: if_splits)
  have "((h + 1) mod 64 + i) mod 64 = (h + Suc i) mod 64" for i
    by (simp add: mod_simps)
  then show ?thesis
    using assms(1) unfolding ring_def l upt_conv_Cons [OF zero_less_Suc] map_Suc_upt [symmetric]
    by (simp add: comp_def del: upt_Suc)
qed

lemma unat_mod_64: "unat ((x + 1) mod 64 :: u8) = (unat x + 1) mod 64" if "unat x < 64"
proof -
  have "unat (x + 1) = unat x + 1"
    using that by (simp add: unat_word_ariths)
  then show ?thesis
    by (simp add: unat_mod)
qed

text \<open>What a reader gets: as much as is pending, and then it waits.\<close>

lemma read_loop_eq:
  assumes "term_ok tt" and "n \<le> sz" and "sz \<le> length buffer"
  shows "\<exists>tt'. term_ok tt' \<and> pending tt' = drop (sz - n) (pending tt) \<and>
    read_buffer tt' = read_buffer tt \<and> read_buffer_tail tt' = read_buffer_tail tt \<and>
    attached_virt_console tt' = attached_virt_console tt \<and>
    read_loop A k t tt buffer n sz =
     (let m = min (sz - n) (length (pending tt)); buffer' = take n buffer @ take m (pending tt) @ drop (n + m) buffer
      in if n + m = sz then Inr (Returned sz, buffer', tt', k)
         else andthen (Event_wait A k (DeviceEvent t)) (\<lambda>(_, k). Inr (Waiting (n + m), buffer', tt', k)))"
  using assms
proof (induction A k t tt buffer n sz rule: read_loop.induct)
  case (1 A k t tt buffer n sz)
  let ?h = "unat (read_buffer_head tt)" and ?t = "unat (read_buffer_tail tt)"
  have ok: "length (read_buffer tt) = 64" "?h < 64" "?t < 64"
    using 1(2) by (simp_all add: term_ok_def)
  have eq: "read_buffer_head tt = read_buffer_tail tt \<longleftrightarrow> ?h = ?t"
    by (simp add: word_unat_eq_iff)
  show ?case
  proof (cases "n < sz \<and> ?h \<noteq> ?t")
    case False
    have p: "pending tt = []" if "n < sz"
      using False that ok ring_empty_iff [of ?h ?t "read_buffer tt"] by (simp add: pending_def)
    show ?thesis
      by (rule exI [of _ tt], subst read_loop.simps)
        (use False 1(2,3) p eq in \<open>cases "n < sz"; simp add: Let_def\<close>)
  next
    case True
    let ?tt = "tt\<lparr>read_buffer_head := (read_buffer_head tt + 1) mod 64\<rparr>"
    let ?b = "buffer[n := read_buffer tt ! ?h]"
    have ok': "term_ok ?tt"
      using ok by (simp add: term_ok_def unat_mod_64)
    have p: "pending tt = read_buffer tt ! ?h # pending ?tt"
      using ring_pop [OF ok(2,3)] True ok by (simp add: pending_def unat_mod_64)
    have put: "put buffer n (read_buffer tt ! ?h) = Inr ?b"
      using True 1(4) by (simp add: put_def)
    have t: "take (Suc n) ?b = take n buffer @ [read_buffer tt ! ?h]"
      using True 1(4) by (simp add: take_Suc_conv_app_nth)
    obtain tt' where tt': "term_ok tt'" "pending tt' = drop (sz - Suc n) (pending ?tt)"
      "read_buffer tt' = read_buffer tt" "read_buffer_tail tt' = read_buffer_tail tt"
      "attached_virt_console tt' = attached_virt_console tt"
      "read_loop A k t ?tt ?b (Suc n) sz =
       (let m = min (sz - Suc n) (length (pending ?tt));
            buffer' = take (Suc n) ?b @ take m (pending ?tt) @ drop (Suc n + m) ?b
        in if Suc n + m = sz then Inr (Returned sz, buffer', tt', k)
           else andthen (Event_wait A k (DeviceEvent t)) (\<lambda>(_, k). Inr (Waiting (Suc n + m), buffer', tt', k)))"
      using 1(1) [of ?b] 1(4) True ok ok' eq put by auto
    have d: "sz - n = Suc (sz - Suc n)"
      using True by (simp add: Suc_diff_Suc)
    have m: "min (sz - n) (length (pending tt)) = Suc (min (sz - Suc n) (length (pending ?tt)))"
      unfolding d p by simp
    have "read_loop A k t tt buffer n sz = read_loop A k t ?tt ?b (Suc n) sz"
      by (subst read_loop.simps) (use True ok eq put in simp)
    then show ?thesis
      using tt' p t d by (intro exI [of _ tt']) (simp add: m Let_def)
  qed
qed

lemma term_ok_append:
  fixes tt c
  defines "tt' \<equiv> tt\<lparr>read_buffer := (read_buffer tt)[unat (read_buffer_tail tt) := c],
      read_buffer_tail := (read_buffer_tail tt + 1) mod 64\<rparr>"
  assumes "term_ok tt"
  shows "put (read_buffer tt) (unat (read_buffer_tail tt)) c =
      Inr ((read_buffer tt)[unat (read_buffer_tail tt) := c])"
    and "term_ok tt'"
    and "pending tt' = (if length (pending tt) < 63 then pending tt @ [c] else [])"
proof -
  have ok: "length (read_buffer tt) = 64" "unat (read_buffer_head tt) < 64" "unat (read_buffer_tail tt) < 64"
    using assms(2) by (simp_all add: term_ok_def)
  show "put (read_buffer tt) (unat (read_buffer_tail tt)) c =
      Inr ((read_buffer tt)[unat (read_buffer_tail tt) := c])"
    using ok by (simp add: put_def)
  show "term_ok tt'"
    using ok by (simp add: tt'_def term_ok_def unat_mod_64)
  have "(unat (read_buffer_tail tt) + 64 - unat (read_buffer_head tt)) mod 64 < 64"
    by simp
  then have l: "length (pending tt) < 63 \<or> length (pending tt) = 63"
    unfolding pending_def ring_length by linarith
  show "pending tt' = (if length (pending tt) < 63 then pending tt @ [c] else [])"
  proof (cases "length (pending tt) < 63")
    case True
    then show ?thesis
      using ring_push [OF ok(2,3,1), of c] ok unfolding pending_def tt'_def by (simp add: unat_mod_64)
  next
    case False
    then have "length (pending tt) = 63"
      using l by blast
    then show ?thesis
      using ring_full [OF ok(2,3), of "read_buffer tt"] ok unfolding pending_def tt'_def by (simp add: unat_mod_64)
  qed
qed

context sched_algorithm
begin

lemma append_ok:
  assumes "sched_inv rq aok k" and "waiters_ok k" and "t < length (terminals s)" and "term_ok (terminals s ! t)"
  shows "\<exists>k' tt. append_to_read_buffer A s k t c = Inr (put_term t tt s, k') \<and> sched_inv rq aok k' \<and> waiters_ok k' \<and>
    term_ok tt \<and>
    pending tt = (if length (pending (terminals s ! t)) < 63 then pending (terminals s ! t) @ [c] else []) \<and>
    attached_virt_console tt = attached_virt_console (terminals s ! t) \<and>
    (\<forall>w \<in> set (elems (waiters k (DeviceEvent t))). st k' w = RUNNABLE)"
proof -
  note p = term_ok_append [OF assms(4), of c]
  obtain k' where k': "Event_trigger A k (DeviceEvent t) = Inr k'" "sched_inv rq aok k'" "waiters_ok k'"
    "\<forall>w \<in> set (elems (waiters k (DeviceEvent t))). st k' w = RUNNABLE"
    using Event_trigger_ok [OF assms(1,2), of "DeviceEvent t"] by (auto simp: steady_def)
  have "append_to_read_buffer A s k t c =
     Inr (put_term t ((terminals s ! t)\<lparr>read_buffer := (read_buffer (terminals s ! t))[unat (read_buffer_tail (terminals s ! t)) := c],
      read_buffer_tail := (read_buffer_tail (terminals s ! t) + 1) mod 64\<rparr>) s, k')"
    using p(1) k'(1) assms(3) by (simp add: append_to_read_buffer_def term_at_def)
  moreover have "attached_virt_console ((terminals s ! t)\<lparr>read_buffer := b, read_buffer_tail := x\<rparr>) =
      attached_virt_console (terminals s ! t)" for b x
    by simp
  ultimately show ?thesis
    using p(2,3) k'(2-4) by blast
qed

end

section \<open>Key strokes\<close>

lemma key_mapping_plain:
  assumes "KEY_MAPPING key = Some x"
  shows "key \<noteq> KEY_F1" "key \<noteq> KEY_F2" "key \<noteq> KEY_LALT" "key \<noteq> KEY_RALT" "key \<noteq> KEY_LSHIFT" "key \<noteq> KEY_RSHIFT"
  using assms by (auto simp: KEY_MAPPING_def)

lemma press_code:
  assumes "unat (c :: u8) < 128"
  shows "c AND 0x80 = 0" and "c AND NOT 0x80 = c"
proof -
  have "take_bit 7 c = c"
    using assms by (simp add: word_unat_eq_iff unsigned_take_bit_eq take_bit_nat_eq_self)
  then have m: "c AND 0x7f = c"
    by (simp add: take_bit_eq_mask mask_eq_exp_minus_1)
  have "c AND 0x80 = (c AND 0x7f) AND 0x80"
    unfolding m ..
  also have "\<dots> = c AND (0x7f AND 0x80)"
    by (simp only: and.assoc)
  finally show "c AND 0x80 = 0"
    by simp
  have "c AND NOT 0x80 = (c AND 0x7f) AND NOT 0x80"
    unfolding m ..
  also have "\<dots> = c AND (0x7f AND NOT 0x80)"
    by (simp only: and.assoc)
  finally show "c AND NOT 0x80 = c"
    using m by simp
qed

text \<open>The keyboard feeds the physical console, whose current console is attached to terminal \<open>t\<close>.\<close>

definition wired :: "ConsoleSystem \<Rightarrow> nat \<Rightarrow> nat \<Rightarrow> bool" where
  "wired s v t \<longleftrightarrow> kbd_sink s \<and> pc_current_vc s = Some v \<and> v < length (consoles s) \<and>
    vc_terminal (consoles s ! v) = Some t \<and> t < length (terminals s) \<and> term_ok (terminals s ! t)"

definition key_code :: "u8 \<Rightarrow> bool" where
  "key_code c \<longleftrightarrow> unat c < length scancode_map \<and> KEY_MAPPING (scancode_map ! unat c) \<noteq> None"

definition key_char :: "VirtualConsole \<Rightarrow> u8 \<Rightarrow> u8" where
  "key_char vc c = (if current_mod_mask vc AND Shift \<noteq> 0 then fst (the (KEY_MAPPING (scancode_map ! unat c)))
     else snd (the (KEY_MAPPING (scancode_map ! unat c))))"

lemma key_event_plain:
  assumes w: "wired s v t" and c: "key_code c"
  shows "handle_key_event A s k c = append_to_read_buffer A s k t (key_char (consoles s ! v) c)"
proof -
  let ?key = "scancode_map ! unat c"
  have l: "unat c < 69"
    using c by (simp add: key_code_def scancode_map_def)
  have p: "c AND 0x80 = 0" "c AND NOT 0x80 = c"
    using press_code [of c] l by simp_all
  obtain u w' where m: "KEY_MAPPING ?key = Some (u, w')"
    using c by (auto simp: key_code_def)
  note n = key_mapping_plain [OF m]
  have "scancode_to_key c = Inr ?key"
    using c p by (simp add: scancode_to_key_def key_code_def)
  then have "handle_key_event A s k c = pc_key_down A s k ?key"
    using w p by (simp add: handle_key_event_def wired_def)
  also have "\<dots> = vc_key_down A s k v ?key"
    using w n by (simp add: pc_key_down_def wired_def)
  also have "\<dots> = append_to_read_buffer A s k t (key_char (consoles s ! v) c)"
    using w n m by (simp add: vc_key_down_def wired_def vc_at_def key_char_def)
  finally show ?thesis .
qed

text \<open>A sequence of events, as the interrupts deliver them.\<close>

definition key_events ::
    "'a SchedulingAlgorithm \<Rightarrow> ConsoleSystem \<Rightarrow> 'a kernel \<Rightarrow> bytes \<Rightarrow> (ConsoleSystem \<times> 'a kernel) result" where
  "key_events A s k cs = fold_result (\<lambda>(s, k) c. handle_key_event A s k c) (s, k) cs"

context sched_algorithm
begin

lemma key_events_plain:
  assumes "sched_inv rq aok k" and "waiters_ok k" and "wired s v t" and "list_all key_code cs"
    and "length (pending (terminals s ! t)) + length cs \<le> 63"
  shows "\<exists>k' tt. key_events A s k cs = Inr (put_term t tt s, k') \<and> sched_inv rq aok k' \<and> waiters_ok k' \<and>
    term_ok tt \<and> pending tt = pending (terminals s ! t) @ map (key_char (consoles s ! v)) cs"
  using assms
proof (induction cs arbitrary: s k)
  case Nil
  then show ?case
    by (intro exI [of _ k] exI [of _ "terminals s ! t"])
      (simp add: key_events_def put_term_def wired_def)
next
  case (Cons c cs)
  have t: "t < length (terminals s)" "term_ok (terminals s ! t)"
    using Cons.prems(3) by (simp_all add: wired_def)
  obtain k1 tt where 1: "handle_key_event A s k c = Inr (put_term t tt s, k1)" "sched_inv rq aok k1" "waiters_ok k1"
    "term_ok tt" "pending tt = pending (terminals s ! t) @ [key_char (consoles s ! v) c]"
    using append_ok [OF Cons.prems(1,2) t, of "key_char (consoles s ! v) c"]
      key_event_plain [OF Cons.prems(3), of c A k] Cons.prems(4,5) by auto
  let ?s = "put_term t tt s"
  have w: "wired ?s v t"
    using Cons.prems(3) 1(4) by (simp add: wired_def put_term_def)
  have e: "terminals ?s ! t = tt" "consoles ?s = consoles s"
    using t by (simp_all add: put_term_def)
  obtain k' tt' where "key_events A ?s k1 cs = Inr (put_term t tt' ?s, k')" "sched_inv rq aok k'" "waiters_ok k'"
    "term_ok tt'" "pending tt' = pending tt @ map (key_char (consoles s ! v)) cs"
    using Cons.IH [OF 1(2,3) w] Cons.prems(4,5) 1(5) e by auto
  moreover have "put_term t tt' ?s = put_term t tt' s"
    by (simp add: put_term_def)
  moreover have "key_events A s k (c # cs) = key_events A ?s k1 cs"
    using 1(1) by (simp add: key_events_def)
  ultimately show ?case
    using 1(5) by auto
qed

end

lemma terminal_read_pending:
  assumes "t < length (terminals s)" and "term_ok (terminals s ! t)" and "pending (terminals s ! t) = cs @ ds"
    and "length cs \<le> length buffer"
  shows "\<exists>tt. term_ok tt \<and> pending tt = ds \<and>
    terminal_read A s k t buffer 0 (length cs) = Inr (Returned (length cs), cs @ drop (length cs) buffer, put_term t tt s, k)"
proof (cases "cs = []")
  case True
  then show ?thesis
    using assms by (intro exI [of _ "terminals s ! t"]) (simp add: terminal_read_def term_at_def put_term_def)
next
  case False
  obtain tt where "term_ok tt" "pending tt = drop (length cs) (cs @ ds)"
    "read_loop A k t (terminals s ! t) buffer 0 (length cs) = Inr (Returned (length cs), cs @ drop (length cs) buffer, tt, k)"
    using read_loop_eq [OF assms(2), of 0 "length cs" buffer A k t] assms(3,4) by (auto simp: Let_def)
  then show ?thesis
    using assms(1) False by (auto simp: terminal_read_def term_at_def)
qed

section \<open>The screen as a page of rows\<close>

record page =
  rows :: "u16 list list"
  row :: nat
  col :: nat

definition blank_row :: "u16 list" where
  "blank_row = replicate 80 0x0700"

definition new_line :: "page \<Rightarrow> page" where
  "new_line p = (if row p = 24 then p\<lparr>rows := tl (rows p) @ [blank_row], col := 0\<rparr> else p\<lparr>row := Suc (row p), col := 0\<rparr>)"

definition set_cell :: "u16 \<Rightarrow> page \<Rightarrow> page" where
  "set_cell x p = p\<lparr>rows := (rows p)[row p := (rows p ! row p)[col p := x]]\<rparr>"

definition type_cell :: "u16 \<Rightarrow> page \<Rightarrow> page" where
  "type_cell x p = (if col p = 79 then new_line (set_cell x p) else (set_cell x p)\<lparr>col := Suc (col p)\<rparr>)"

definition erase_cell :: "page \<Rightarrow> page option" where
  "erase_cell p =
    (if col p > 0 then Some (set_cell 0x0720 (p\<lparr>col := col p - 1\<rparr>))
     else if row p > 0 then Some (set_cell 0x0720 (p\<lparr>row := row p - 1, col := 79\<rparr>)) else None)"

definition page_char :: "page \<Rightarrow> u8 \<Rightarrow> page option" where
  "page_char p c = (if c = 10 then Some (new_line p) else if c = 8 then erase_cell p
    else Some (type_cell (glyph 0x0700 c) p))"

primrec page_text :: "page \<Rightarrow> bytes \<Rightarrow> page option" where
  "page_text p [] = Some p"
| "page_text p (c # cs) = (case page_char p c of None \<Rightarrow> None | Some q \<Rightarrow> page_text q cs)"

definition row_of :: "u16 list \<Rightarrow> nat \<Rightarrow> u16 list" where
  "row_of buf r = take 80 (drop (80 * r) buf)"

definition page_of :: "u16 list \<Rightarrow> u16 \<Rightarrow> page" where
  "page_of buf pos = \<lparr>rows = map (row_of buf) [0..<25], row = unat pos div 80, col = unat pos mod 80\<rparr>"

lemma length_row_of: "length buf = 2000 \<Longrightarrow> r < 25 \<Longrightarrow> length (row_of buf r) = 80"
  by (simp add: row_of_def)

lemma nth_row_of: "length buf = 2000 \<Longrightarrow> r < 25 \<Longrightarrow> j < 80 \<Longrightarrow> row_of buf r ! j = buf ! (80 * r + j)"
  by (simp add: row_of_def)

lemma row_of_update:
  assumes "length buf = 2000" and "r < 25" and "i < 2000"
  shows "row_of (buf[i := x]) r = (if r = i div 80 then (row_of buf r)[i mod 80 := x] else row_of buf r)"
proof (rule nth_equalityI)
  show "length (row_of (buf[i := x]) r) =
      length (if r = i div 80 then (row_of buf r)[i mod 80 := x] else row_of buf r)"
    using assms by (simp add: length_row_of)
  fix j
  assume "j < length (row_of (buf[i := x]) r)"
  then have j: "j < 80"
    using assms by (simp add: length_row_of)
  then have "i = 80 * r + j \<longleftrightarrow> r = i div 80 \<and> j = i mod 80"
    by (metis div_mult_mod_eq mult.commute div_less mod_less mod_mult_self4 add.commute
        div_mult_self4 add_0 zero_neq_numeral)
  then show "row_of (buf[i := x]) r ! j =
      (if r = i div 80 then (row_of buf r)[i mod 80 := x] else row_of buf r) ! j"
    using assms j by (auto simp: nth_row_of length_row_of nth_list_update)
qed

lemma rows_update:
  assumes "length buf = 2000" and "i < 2000"
  shows "map (row_of (buf[i := x])) [0..<25] =
    (map (row_of buf) [0..<25])[i div 80 := (map (row_of buf) [0..<25] ! (i div 80))[i mod 80 := x]]"
proof (rule nth_equalityI)
  fix r
  assume "r < length (map (row_of (buf[i := x])) [0..<25])"
  then have "r < 25" by simp
  moreover have "i div 80 < 25" using assms(2) by (simp add: div_less_iff_less_mult)
  ultimately show "map (row_of (buf[i := x])) [0..<25] ! r =
     (map (row_of buf) [0..<25])[i div 80 := (map (row_of buf) [0..<25] ! (i div 80))[i mod 80 := x]] ! r"
    using assms row_of_update [OF assms(1) _ assms(2), of r x] by (auto simp: nth_list_update)
qed simp

lemma rows_scroll:
  assumes "length buf = 2000"
  shows "map (row_of (take 1920 (drop 80 buf) @ replicate 80 0x0700)) [0..<25] =
    tl (map (row_of buf) [0..<25]) @ [blank_row]"
proof (rule nth_equalityI)
  let ?b = "take 1920 (drop 80 buf) @ replicate 80 (0x0700 :: u16)"
  fix r
  assume "r < length (map (row_of ?b) [0..<25])"
  then have r: "r < 25" by simp
  have "row_of ?b r = (if r < 24 then row_of buf (Suc r) else blank_row)"
    using assms r by (auto simp: row_of_def blank_row_def take_drop add.commute)
  then show "map (row_of ?b) [0..<25] ! r = (tl (map (row_of buf) [0..<25]) @ [blank_row]) ! r"
    using r by (auto simp: nth_append nth_tl)
qed simp

lemma unat_small:
  "unat (x :: u16) < 2000 \<Longrightarrow> unat (x + 1) = unat x + 1"
  "unat (x :: u16) < 2000 \<Longrightarrow> x \<noteq> 0 \<Longrightarrow> unat (x - 1) = unat x - 1"
  "unat (x :: u16) < 2000 \<Longrightarrow> unat (x + (80 - x mod 80)) = (unat x div 80 + 1) * 80"
proof -
  show "unat (x :: u16) < 2000 \<Longrightarrow> unat (x + 1) = unat x + 1"
    by (simp add: unat_word_ariths)
  show "unat (x :: u16) < 2000 \<Longrightarrow> x \<noteq> 0 \<Longrightarrow> unat (x - 1) = unat x - 1"
    by (simp add: unat_minus_one)
  assume x: "unat x < 2000"
  have m: "unat (x mod 80) = unat x mod 80"
    by (simp add: unat_mod)
  then have "unat (80 - x mod 80) = 80 - unat x mod 80"
    by (subst unat_sub) (simp_all add: word_le_nat_alt)
  then have "unat (x + (80 - x mod 80)) = unat x + (80 - unat x mod 80)"
    using x by (simp add: unat_word_ariths)
  then show "unat (x + (80 - x mod 80)) = (unat x div 80 + 1) * 80"
    using mult_div_mod_eq [of 80 "unat x"] mod_less_divisor [of 80 "unat x"] by arith
qed

lemma end_of_row:
  assumes "length buf = 2000" and "r < 25" and "unat pos = (r + 1) * 80"
  shows "\<exists>buf' pos'. scroll_if_full buf pos = Inr (buf', pos') \<and> length buf' = 2000 \<and> unat pos' < 2000 \<and>
    page_of buf' pos' = new_line \<lparr>rows = map (row_of buf) [0..<25], row = r, col = c\<rparr>"
proof (cases "r = 24")
  case True
  then show ?thesis
    using assms rows_scroll [OF assms(1)]
    by (simp add: scroll_if_full_def scroll_one_line_def screen_width_def screen_height_def page_of_def new_line_def)
next
  case False
  then show ?thesis
    using assms by (simp add: scroll_if_full_def screen_width_def screen_height_def page_of_def new_line_def)
qed

lemma page_of_put:
  assumes "length buf = 2000" and "unat pos < 2000"
  shows "page_of (buf[unat pos := x]) pos = set_cell x (page_of buf pos)"
  using rows_update [OF assms, of x] by (simp add: page_of_def set_cell_def)

lemma before_multiple:
  assumes "0 < n" and "n mod 80 = 0"
  shows "n div 80 > 0" "(n - 1) div 80 = n div 80 - 1" "(n - 1) mod 80 = (79 :: nat)"
proof -
  obtain q where n: "n = 80 * q"
    using mult_div_mod_eq [of 80 n] assms(2) by (metis add_0_right)
  then obtain p where "q = Suc p"
    using assms(1) by (cases q) auto
  then have "n = 80 * Suc p" "n - 1 = 79 + 80 * p"
    using n by simp_all
  then show "n div 80 > 0" "(n - 1) div 80 = n div 80 - 1" "(n - 1) mod 80 = 79"
    by simp_all
qed

lemma inside_row:
  assumes "n mod 80 \<noteq> (0 :: nat)"
  shows "(n - 1) div 80 = n div 80" "(n - 1) mod 80 = n mod 80 - 1"
proof -
  have "n - 1 = (n mod 80 - 1) + 80 * (n div 80)" and r: "n mod 80 - 1 < 80"
    using mult_div_mod_eq [of 80 n] mod_less_divisor [of 80 n] assms by linarith+
  then show "(n - 1) div 80 = n div 80" "(n - 1) mod 80 = n mod 80 - 1"
    by simp_all
qed

lemma row_end: "n mod 80 = 79 \<Longrightarrow> n + 1 = (n div 80 + 1) * (80 :: nat)"
  using mult_div_mod_eq [of 80 n] by (simp add: algebra_simps)

lemma next_cell:
  assumes "n mod 80 \<noteq> (79 :: nat)"
  shows "(n + 1) div 80 = n div 80" "(n + 1) mod 80 = n mod 80 + 1" "n < 2000 \<Longrightarrow> n + 1 < 2000"
proof -
  show "(n + 1) div 80 = n div 80" "(n + 1) mod 80 = n mod 80 + 1"
    using assms by (simp_all add: div_Suc mod_Suc)
  show "n < 2000 \<Longrightarrow> n + 1 < 2000"
    using assms by (cases "n = 1999") simp_all
qed

lemma char_step:
  assumes l: "length buf = 2000" and p: "unat pos < 2000" and c: "c \<noteq> 27"
  shows "case page_char (page_of buf pos) c of
      None \<Rightarrow> put_char buf pos 0x0700 c = Inl OutOfBounds
    | Some q \<Rightarrow> \<exists>buf1 pos1 buf2 pos2. put_char buf pos 0x0700 c = Inr (buf1, pos1, 0) \<and>
        scroll_if_full buf1 pos1 = Inr (buf2, pos2) \<and> length buf2 = 2000 \<and> unat pos2 < 2000 \<and> page_of buf2 pos2 = q"
proof -
  let ?P = "page_of buf pos"
  have r: "unat pos div 80 < 25" using p by (simp add: div_less_iff_less_mult)
  have P: "?P = \<lparr>rows = map (row_of buf) [0..<25], row = unat pos div 80, col = unat pos mod 80\<rparr>"
    by (simp add: page_of_def)
  consider "c = 10" | "c = 8" "pos = 0" | "c = 8" "pos \<noteq> 0" | "c \<noteq> 10" "c \<noteq> 8" by blast
  then show ?thesis
  proof cases
    case 1
    then show ?thesis
      using end_of_row [OF l r unat_small(3) [OF p], of "unat pos mod 80"]
      by (simp add: page_char_def put_char_def P)
  next
    case 2
    have "unat (- 1 :: u16) = 65535"
      by (simp add: unsigned_minus_1_eq_mask mask_eq_exp_minus_1)
    then show ?thesis
      using l 2 by (simp add: page_char_def put_char_def erase_cell_def page_of_def put16_def)
  next
    case 3
    have u: "unat (pos - 1) = unat pos - 1" "0 < unat pos"
      using unat_small(2) [OF p 3(2)] 3(2) by (simp_all add: unat_gt_0)
    have u2: "\<not> 2000 \<le> unat (pos - 1)"
      using u p by linarith
    then have s: "scroll_if_full (buf[unat (pos - 1) := 0x0720]) (pos - 1) = Inr (buf[unat (pos - 1) := 0x0720], pos - 1)"
      by (simp add: scroll_if_full_def screen_width_def screen_height_def)
    have g: "page_of (buf[unat (pos - 1) := 0x0720]) (pos - 1) = set_cell 0x0720 (page_of buf (pos - 1))"
      using u p l by (intro page_of_put) simp_all
    have "erase_cell ?P = Some (set_cell 0x0720 (page_of buf (pos - 1)))"
    proof (cases "unat pos mod 80 = 0")
      case True
      show ?thesis
        using True u(1) before_multiple [OF u(2) True] by (simp add: erase_cell_def page_of_def)
    next
      case False
      show ?thesis
        using False u(1) inside_row [OF False] by (simp add: erase_cell_def page_of_def)
    qed
    then show ?thesis
      using 3 s g u p l by (simp add: page_char_def put_char_def put16_def glyph_def)
  next
    case 4
    let ?b = "buf[unat pos := glyph 0x0700 c]"
    have u: "unat (pos + 1) = unat pos + 1"
      by (rule unat_small(1) [OF p])
    have put: "put_char buf pos 0x0700 c = Inr (?b, pos + 1, 0)"
      using 4 c p l by (simp add: put_char_def put16_def)
    have g: "page_of ?b pos = set_cell (glyph 0x0700 c) ?P"
      by (rule page_of_put [OF l p])
    show ?thesis
    proof (cases "unat pos mod 80 = 79")
      case True
      then have e: "unat (pos + 1) = (unat pos div 80 + 1) * 80"
        using u row_end [OF True] by simp
      have "type_cell (glyph 0x0700 c) ?P = new_line (page_of ?b pos)"
        using True by (simp add: type_cell_def g) (simp add: page_of_def)
      then show ?thesis
        using end_of_row [OF _ r e, of ?b "unat pos mod 80"] l put 4 c
        by (simp add: page_char_def page_of_def)
    next
      case False
      note d = next_cell(1,2) [OF False] next_cell(3) [OF False p]
      have "type_cell (glyph 0x0700 c) ?P = page_of ?b (pos + 1)"
        using False d u by (simp add: type_cell_def g [symmetric]) (simp add: page_of_def)
      then show ?thesis
        using d u l put 4 c by (simp add: page_char_def scroll_if_full_def screen_width_def screen_height_def)
    qed
  qed
qed

lemma write_loop_page:
  assumes "length buf = 2000" and "unat pos < 2000" and "27 \<notin> set cs"
  shows "case page_text (page_of buf pos) cs of
      None \<Rightarrow> write_loop buf pos 0x0700 0 cs = Inl OutOfBounds
    | Some q \<Rightarrow> \<exists>buf' pos'. write_loop buf pos 0x0700 0 cs = Inr (buf', pos') \<and> length buf' = 2000 \<and>
        unat pos' < 2000 \<and> page_of buf' pos' = q"
  using assms
proof (induction cs arbitrary: buf pos)
  case Nil
  then show ?case by simp
next
  case (Cons c cs)
  have c: "c \<noteq> 27" "27 \<notin> set cs"
    using Cons.prems(3) by auto
  show ?case
  proof (cases "page_char (page_of buf pos) c")
    case None
    then show ?thesis
      using char_step [OF Cons.prems(1,2) c(1)] by (simp add: escape_step_def)
  next
    case (Some q)
    then obtain buf1 pos1 buf2 pos2 where b: "put_char buf pos 0x0700 c = Inr (buf1, pos1, 0)"
      "scroll_if_full buf1 pos1 = Inr (buf2, pos2)" "length buf2 = 2000" "unat pos2 < 2000" "page_of buf2 pos2 = q"
      using char_step [OF Cons.prems(1,2) c(1)] by auto
    then have w: "write_loop buf pos 0x0700 0 (c # cs) = write_loop buf2 pos2 0x0700 0 cs"
      by (simp add: escape_step_def)
    have t: "page_text (page_of buf pos) (c # cs) = page_text q cs"
      using Some by simp
    show ?thesis
      unfolding w t using Cons.IH [OF b(3,4) c(2)] unfolding b(5) .
  qed
qed

section \<open>Several consoles on one screen\<close>

text \<open>The buffer that is a console's own, and what it shows: the video memory while it is current.\<close>

definition own_buffer :: "ConsoleSystem \<Rightarrow> nat \<Rightarrow> ptr" where
  "own_buffer s v = (if old_vc s = Some v then backup_buffer s else vc_buffer (consoles s ! v))"

definition screen_of :: "ConsoleSystem \<Rightarrow> nat \<Rightarrow> u16 list" where
  "screen_of s v = (case vc_buffer (consoles s ! v) of None \<Rightarrow> [] | Some b \<Rightarrow> buffers s ! b)"

definition switch_ok :: "ConsoleSystem \<Rightarrow> bool" where
  "switch_ok s \<longleftrightarrow> video_ram s < length (buffers s) \<and> (\<forall>b \<in> set (buffers s). length b = 2000) \<and>
    (\<forall>v < length (consoles s). \<exists>b < length (buffers s). own_buffer s v = Some b \<and> b \<noteq> video_ram s) \<and>
    (\<forall>u < length (consoles s). \<forall>v < length (consoles s). own_buffer s u = own_buffer s v \<longrightarrow> u = v) \<and>
    (\<forall>v. old_vc s = Some v \<longrightarrow> v < length (consoles s) \<and> vc_buffer (consoles s ! v) = Some (video_ram s))"

lemma switch_okD:
  assumes "switch_ok s"
  shows "video_ram s < length (buffers s)" "b < length (buffers s) \<Longrightarrow> length (buffers s ! b) = 2000"
    "old_vc s = Some w \<Longrightarrow> w < length (consoles s)"
    "old_vc s = Some w \<Longrightarrow> vc_buffer (consoles s ! w) = Some (video_ram s)"
    "u < length (consoles s) \<Longrightarrow> v < length (consoles s) \<Longrightarrow> own_buffer s u = own_buffer s v \<Longrightarrow> u = v"
  using assms by (auto simp: switch_ok_def)

lemma switch_ok_own:
  assumes "switch_ok s" and "v < length (consoles s)"
  obtains b where "own_buffer s v = Some b" "b < length (buffers s)" "b \<noteq> video_ram s"
  using assms by (auto simp: switch_ok_def)

lemma copy_screen_ok:
  assumes "d < length (buffers s)" "e < length (buffers s)" "length (buffers s ! d) = 2000" "length (buffers s ! e) = 2000"
  shows "copy_screen s (Some d) (Some e) = Inr (s\<lparr>buffers := (buffers s)[d := buffers s ! e]\<rparr>)"
  using assms by (simp add: copy_screen_def buffer_at_def screen_width_def screen_height_def Let_def)

text \<open>The first half of a switch: the old console gets its own buffer back, with what was on the screen.\<close>

lemma save_old_ok:
  assumes ok: "switch_ok s" and o: "old_vc s = Some w" and b: "backup_buffer s = Some b"
  defines "s1 \<equiv> put_vc w ((consoles s ! w)\<lparr>vc_buffer := Some b, vc_ucb := False\<rparr>)
      (s\<lparr>buffers := (buffers s)[b := buffers s ! video_ram s]\<rparr>)"
  shows "(case old_vc s of
        Some ov \<Rightarrow> andthen (set_buffer s ov (backup_buffer s) False) (\<lambda>s.
          andthen (get_buffer s ov) (\<lambda>b. copy_screen s b (Some (video_ram s))))
      | None \<Rightarrow> Inr s) = Inr s1"
    and "\<forall>v < length (consoles s). vc_buffer (consoles s1 ! v) = own_buffer s v"
    and "\<forall>v < length (consoles s). screen_of s1 v = screen_of s v"
proof -
  have w: "w < length (consoles s)" "vc_buffer (consoles s ! w) = Some (video_ram s)"
    using switch_okD(3,4) [OF ok o] .
  have v: "video_ram s < length (buffers s)"
    by (rule switch_okD(1) [OF ok])
  have ob: "own_buffer s w = Some b"
    using o b by (simp add: own_buffer_def)
  have bl: "b < length (buffers s)" "b \<noteq> video_ram s"
    using switch_ok_own [OF ok w(1)] ob by auto
  have l: "length (buffers s ! b) = 2000" "length (buffers s ! video_ram s) = 2000"
    using switch_okD(2) [OF ok] bl v by simp_all
  show "(case old_vc s of
        Some ov \<Rightarrow> andthen (set_buffer s ov (backup_buffer s) False) (\<lambda>s.
          andthen (get_buffer s ov) (\<lambda>b. copy_screen s b (Some (video_ram s))))
      | None \<Rightarrow> Inr s) = Inr s1"
    using o b w bl v l
      copy_screen_ok [of b "put_vc w ((consoles s ! w)\<lparr>vc_buffer := Some b, vc_ucb := False\<rparr>) s" "video_ram s"]
    by (simp add: set_buffer_def get_buffer_def vc_at_def s1_def) (simp add: put_vc_def)
  show own: "\<forall>v < length (consoles s). vc_buffer (consoles s1 ! v) = own_buffer s v"
    using o b w by (auto simp: s1_def put_vc_def own_buffer_def nth_list_update)
  show "\<forall>v < length (consoles s). screen_of s1 v = screen_of s v"
  proof (intro allI impI)
    fix u
    assume u: "u < length (consoles s)"
    show "screen_of s1 u = screen_of s u"
    proof (cases "u = w")
      case True
      then show ?thesis
        using w bl by (simp add: screen_of_def s1_def put_vc_def)
    next
      case False
      then have "own_buffer s u \<noteq> Some b"
        using switch_okD(5) [OF ok u w(1)] ob by auto
      then show ?thesis
        using False u w o by (auto simp: screen_of_def s1_def put_vc_def own_buffer_def split: option.splits)
    qed
  qed
qed

definition detached :: "ConsoleSystem \<Rightarrow> bool" where
  "detached s \<longleftrightarrow> video_ram s < length (buffers s) \<and> (\<forall>b \<in> set (buffers s). length b = 2000) \<and>
    (\<forall>v < length (consoles s). \<exists>b < length (buffers s). vc_buffer (consoles s ! v) = Some b \<and> b \<noteq> video_ram s) \<and>
    (\<forall>u < length (consoles s). \<forall>v < length (consoles s). vc_buffer (consoles s ! u) = vc_buffer (consoles s ! v) \<longrightarrow> u = v)"

text \<open>Everything about the consoles that a switch leaves alone.\<close>

definition same_consoles :: "ConsoleSystem \<Rightarrow> ConsoleSystem \<Rightarrow> bool" where
  "same_consoles s s' \<longleftrightarrow> length (consoles s') = length (consoles s) \<and> video_ram s' = video_ram s \<and>
    pc_current_vc s' = pc_current_vc s \<and> terminals s' = terminals s \<and> port_writes s' = port_writes s \<and>
    (\<forall>v < length (consoles s). current_pos (consoles s' ! v) = current_pos (consoles s ! v) \<and>
      vc_terminal (consoles s' ! v) = vc_terminal (consoles s ! v) \<and>
      current_mod_mask (consoles s' ! v) = current_mod_mask (consoles s ! v))"

lemma save_old:
  assumes ok: "switch_ok s"
  shows "\<exists>s1. (case old_vc s of
        Some ov \<Rightarrow> andthen (set_buffer s ov (backup_buffer s) False) (\<lambda>s.
          andthen (get_buffer s ov) (\<lambda>b. copy_screen s b (Some (video_ram s))))
      | None \<Rightarrow> Inr s) = Inr s1 \<and> detached s1 \<and> same_consoles s s1 \<and>
      (\<forall>v < length (consoles s). screen_of s1 v = screen_of s v)"
proof (cases "old_vc s")
  case None
  then have "own_buffer s v = vc_buffer (consoles s ! v)" for v
    by (simp add: own_buffer_def)
  then have "detached s"
    using ok by (simp add: switch_ok_def detached_def)
  then show ?thesis
    using None by (simp add: same_consoles_def)
next
  case (Some w)
  have w: "w < length (consoles s)" "own_buffer s w = backup_buffer s"
    using switch_okD(3) [OF ok Some] Some by (simp_all add: own_buffer_def)
  obtain b where b: "backup_buffer s = Some b" "b < length (buffers s)"
    using switch_ok_own [OF ok w(1)] w(2) by metis
  let ?s1 = "put_vc w ((consoles s ! w)\<lparr>vc_buffer := Some b, vc_ucb := False\<rparr>)
      (s\<lparr>buffers := (buffers s)[b := buffers s ! video_ram s]\<rparr>)"
  note s1 = save_old_ok [OF ok Some b(1)]
  have l: "length (buffers ?s1) = length (buffers s)" "length (consoles ?s1) = length (consoles s)"
    "video_ram ?s1 = video_ram s"
    by (simp_all add: put_vc_def)
  have "\<forall>b \<in> set (buffers ?s1). length b = 2000"
    using ok b(2) switch_okD(1) [OF ok] by (auto simp: put_vc_def switch_ok_def set_conv_nth nth_list_update)
  then have "detached ?s1"
    using ok s1(2) unfolding detached_def l by (simp add: switch_ok_def)
  moreover have "same_consoles s ?s1"
    using w(1) by (auto simp: same_consoles_def put_vc_def nth_list_update)
  ultimately show ?thesis
    using s1(1,3) by blast
qed

lemma show_new:
  assumes d: "detached s" and c: "pc_current_vc s = Some v" "v < length (consoles s)"
  shows "\<exists>s'. andthen (deref (pc_current_vc s)) (\<lambda>cur.
    andthen (get_buffer s cur) (\<lambda>b.
    andthen (set_buffer (s\<lparr>backup_buffer := b\<rparr>) cur (Some (video_ram s)) True) (\<lambda>s.
    andthen (case backup_buffer s of
        Some _ \<Rightarrow> andthen (get_buffer s cur) (\<lambda>b. copy_screen s b (backup_buffer s))
      | None \<Rightarrow> Inr s) (\<lambda>s.
      VCUpdateCallback (s\<lparr>old_vc := Some cur\<rparr>) cur)))) = Inr s' \<and>
    switch_ok s' \<and> old_vc s' = Some v \<and> pc_current_vc s' = Some v \<and> terminals s' = terminals s \<and>
    length (consoles s') = length (consoles s) \<and>
    (\<forall>u < length (consoles s). screen_of s' u = screen_of s u \<and> current_pos (consoles s' ! u) = current_pos (consoles s ! u) \<and>
      vc_terminal (consoles s' ! u) = vc_terminal (consoles s ! u)) \<and>
    buffers s' ! video_ram s' = screen_of s v \<and>
    port_writes s' = port_writes s @ [(0x3d4, 0xf), (0x3d5, ucast (current_pos (consoles s ! v))),
      (0x3d4, 0xe), (0x3d5, ucast (drop_bit 8 (current_pos (consoles s ! v))))]"
proof -
  obtain b where b: "vc_buffer (consoles s ! v) = Some b" "b < length (buffers s)" "b \<noteq> video_ram s"
    using d c(2) by (auto simp: detached_def)
  have vr: "video_ram s < length (buffers s)" and len: "length (buffers s ! b) = 2000" "length (buffers s ! video_ram s) = 2000"
    using d b(2) by (auto simp: detached_def)
  let ?c = "(consoles s ! v)\<lparr>vc_buffer := Some (video_ram s), vc_ucb := True\<rparr>"
  let ?s2 = "put_vc v ?c (s\<lparr>backup_buffer := Some b\<rparr>)"
  let ?s3 = "?s2\<lparr>buffers := (buffers s)[video_ram s := buffers s ! b], old_vc := Some v\<rparr>"
  let ?s' = "?s3\<lparr>port_writes := port_writes s @ [(0x3d4, 0xf), (0x3d5, ucast (current_pos (consoles s ! v))),
      (0x3d4, 0xe), (0x3d5, ucast (drop_bit 8 (current_pos (consoles s ! v))))]\<rparr>"
  have "copy_screen ?s2 (Some (video_ram s)) (Some b) = Inr (?s2\<lparr>buffers := (buffers s)[video_ram s := buffers s ! b]\<rparr>)"
    using copy_screen_ok [of "video_ram s" ?s2 b] b(2) vr len by (simp add: put_vc_def)
  then have run: "andthen (deref (pc_current_vc s)) (\<lambda>cur.
    andthen (get_buffer s cur) (\<lambda>b.
    andthen (set_buffer (s\<lparr>backup_buffer := b\<rparr>) cur (Some (video_ram s)) True) (\<lambda>s.
    andthen (case backup_buffer s of
        Some _ \<Rightarrow> andthen (get_buffer s cur) (\<lambda>b. copy_screen s b (backup_buffer s))
      | None \<Rightarrow> Inr s) (\<lambda>s.
      VCUpdateCallback (s\<lparr>old_vc := Some cur\<rparr>) cur)))) = Inr ?s'"
    using b(1) c by (simp add: get_buffer_def set_buffer_def vc_at_def VCUpdateCallback_def put_vc_def Let_def)
  have own: "own_buffer ?s' u = vc_buffer (consoles s ! u)" if "u < length (consoles s)" for u
    using that b(1) c(2) by (auto simp: own_buffer_def put_vc_def nth_list_update)
  have "\<forall>b \<in> set (buffers ?s'). length b = 2000"
    using d len(1) by (auto simp: detached_def put_vc_def set_conv_nth nth_list_update)
  moreover have "length (consoles ?s') = length (consoles s)" "length (buffers ?s') = length (buffers s)"
    "video_ram ?s' = video_ram s" "old_vc ?s' = Some v" "vc_buffer (consoles ?s' ! v) = Some (video_ram s)"
    using c(2) by (simp_all add: put_vc_def)
  ultimately have "switch_ok ?s'"
    using d own c(2) unfolding switch_ok_def detached_def by auto
  moreover have "screen_of ?s' u = screen_of s u" if u: "u < length (consoles s)" for u
  proof (cases "u = v")
    case True
    then show ?thesis
      using b(1) c(2) vr by (simp add: screen_of_def put_vc_def)
  next
    case False
    obtain b' where "vc_buffer (consoles s ! u) = Some b'" "b' \<noteq> video_ram s"
      using d u by (auto simp: detached_def)
    then show ?thesis
      using False by (simp add: screen_of_def put_vc_def)
  qed
  moreover have "buffers ?s' ! video_ram ?s' = screen_of s v"
    using b(1) vr by (simp add: screen_of_def put_vc_def)
  ultimately show ?thesis
    using run c by (intro exI [of _ ?s'] conjI allI impI) (simp_all add: put_vc_def nth_list_update)
qed

section \<open>Properties\<close>

definition demo_terminal :: Terminal where
  "demo_terminal = Terminal_new (replicate 64 0)"

definition demo_console :: VirtualConsole where
  "demo_console = \<lparr>current_mod_mask = 0, current_pos = 0, vc_terminal = Some 0, vc_buffer = Some 1, vc_ucb = False\<rparr>"

definition demo_system :: ConsoleSystem where
  "demo_system = \<lparr>terminals = [demo_terminal], consoles = [demo_console, demo_console\<lparr>vc_buffer := Some 2\<rparr>],
    buffers = replicate 3 (replicate 2000 0x0700), pc_vcs = list_append (list_append List_new 0) 1,
    pc_current_vc = Some 0, pc_alt_pressed = False, video_ram = 0, backup_buffer = None, old_vc = None,
    kbd_sink = True, port_writes = []\<rparr>"

lemma demo_terminal_ok: "term_ok demo_terminal" "pending demo_terminal = []"
  by (simp_all add: demo_terminal_def Terminal_new_def term_ok_def pending_def ring_def)

text \<open>
  (\<open>terminal.cpp\<close>, \<open>append_to_read_buffer\<close>). The read buffer is a queue of 63 bytes: a byte is appended at its end, and every
  thread that waits for input becomes runnable. The 64th byte makes the two positions meet, and all pending input is lost.
\<close>

theorem terminal_append_correct:
  assumes "sched_inv run_queue ring_ok k" and "waiters_ok k" and "t < length (terminals s)" and "term_ok (terminals s ! t)"
  shows "\<exists>s' k'. append_to_read_buffer RoundRobinScheduler s k t c = Inr (s', k') \<and> term_ok (terminals s' ! t) \<and>
    pending (terminals s' ! t) = (if length (pending (terminals s ! t)) < 63 then pending (terminals s ! t) @ [c] else []) \<and>
    (\<forall>u. u \<noteq> t \<longrightarrow> terminals s' ! u = terminals s ! u) \<and>
    (\<forall>w \<in> set (elems (waiters k (DeviceEvent t))). ent_state (entities k' ! w) = RUNNABLE)"
proof -
  obtain k' tt where "append_to_read_buffer RoundRobinScheduler s k t c = Inr (put_term t tt s, k')" "term_ok tt"
    "pending tt = (if length (pending (terminals s ! t)) < 63 then pending (terminals s ! t) @ [c] else [])"
    "\<forall>w \<in> set (elems (waiters k (DeviceEvent t))). st k' w = RUNNABLE"
    using rr.append_ok [OF assms, of c] by blast
  then show ?thesis
    using assms(3) by (intro exI [of _ "put_term t tt s"] exI [of _ k']) (simp add: put_term_def st_def)
qed

theorem terminal_append_correct_witness:
  "\<exists>k s' k'. append_to_read_buffer RoundRobinScheduler demo_system k 0 97 = Inr (s', k') \<and> pending (terminals s' ! 0) = [97]"
proof -
  obtain k where k: "sched_inv run_queue ring_ok k" "waiters_ok k"
    using rr.Scheduler_init_ok [of "\<lambda>_. 0"] by blast
  have t: "0 < length (terminals demo_system)" "terminals demo_system ! 0 = demo_terminal"
    by (simp_all add: demo_system_def)
  show ?thesis
    using terminal_append_correct [OF k t(1), of 97] demo_terminal_ok unfolding t(2) by auto
qed

text \<open>
  C28 (\<open>keyboard.cpp\<close>, \<open>physical-console.cpp\<close>, \<open>virtual-console.cpp\<close>, \<open>terminal.cpp\<close>). Up to 63 key strokes of keys that stand for a character,
  made while nothing is pending, are read back from the terminal of the current console in the order they were typed, shifted
  when the shift key is held, and a reader that asks for as many bytes gets them without waiting.
\<close>

theorem typed_keys_are_read:
  assumes "sched_inv run_queue ring_ok k" and "waiters_ok k" and "wired s v t" and "list_all key_code cs"
    and "length cs \<le> 63" and "pending (terminals s ! t) = []" and "length cs \<le> length buffer"
  shows "\<exists>s' k' s''. key_events RoundRobinScheduler s k cs = Inr (s', k') \<and>
    terminal_read RoundRobinScheduler s' k' t buffer 0 (length cs) =
      Inr (Returned (length cs), map (key_char (consoles s ! v)) cs @ drop (length cs) buffer, s'', k') \<and>
    pending (terminals s'' ! t) = []"
proof -
  obtain k' tt where k': "key_events RoundRobinScheduler s k cs = Inr (put_term t tt s, k')" "term_ok tt"
    "pending tt = map (key_char (consoles s ! v)) cs"
    using rr.key_events_plain [OF assms(1-4)] assms(5,6) by auto
  have t: "t < length (terminals s)"
    using assms(3) by (simp add: wired_def)
  then have e: "t < length (terminals (put_term t tt s))" "terminals (put_term t tt s) ! t = tt"
    by (simp_all add: put_term_def)
  obtain tt' where "pending tt' = []"
    "terminal_read RoundRobinScheduler (put_term t tt s) k' t buffer 0 (length cs) =
      Inr (Returned (length cs), map (key_char (consoles s ! v)) cs @ drop (length cs) buffer, put_term t tt' (put_term t tt s), k')"
    using terminal_read_pending [OF e(1), of "map (key_char (consoles s ! v)) cs" "[]" buffer RoundRobinScheduler k']
      k'(2,3) e assms(7) by auto
  then show ?thesis
    using k'(1) t
    by (intro exI [of _ "put_term t tt s"] exI [of _ k'] exI [of _ "put_term t tt' (put_term t tt s)"])
      (simp add: put_term_def)
qed

theorem typed_keys_are_read_witness:
  "\<exists>k s' k' s''. key_events RoundRobinScheduler demo_system k [0x23, 0x17] = Inr (s', k') \<and>
    terminal_read RoundRobinScheduler s' k' 0 [0, 0] 0 2 = Inr (Returned 2, [104, 105], s'', k')"
proof -
  obtain k where k: "sched_inv run_queue ring_ok k" "waiters_ok k"
    using rr.Scheduler_init_ok [of "\<lambda>_. 0"] by blast
  have w: "wired demo_system 0 0"
    using demo_terminal_ok by (simp add: wired_def demo_system_def demo_console_def)
  have m: "KEY_MAPPING (scancode_map ! 35) = Some (72, 104)" "KEY_MAPPING (scancode_map ! 23) = Some (73, 105)"
    by (simp_all add: scancode_map_def KEY_MAPPING_def)
  have c: "list_all key_code [0x23, 0x17]"
    using m by (simp add: key_code_def) (simp add: scancode_map_def)
  have p: "pending (terminals demo_system ! 0) = []"
    using demo_terminal_ok by (simp add: demo_system_def)
  have "map (key_char (consoles demo_system ! 0)) [0x23, 0x17] = [104, 105]"
    using m by (simp add: key_char_def demo_system_def demo_console_def)
  then show ?thesis
    using typed_keys_are_read [OF k w c _ p, of "[0, 0]"] by (auto simp: numeral_2_eq_2)
qed

text \<open>
  C29 (\<open>virtual-console.cpp\<close>, \<open>write\<close>, \<open>scroll_one_line\<close>). Writing text without escape sequences to a console is typing it on a page of 25 rows of 80
  cells that scrolls up at its end. A backspace in the first cell of the page writes outside the buffer instead.
\<close>

theorem console_write_refines_page:
  assumes "v < length (consoles s)" and "vc_buffer (consoles s ! v) = Some b" and "b < length (buffers s)"
    and "length (buffers s ! b) = 2000" and "unat (current_pos (consoles s ! v)) < 2000" and "27 \<notin> set cs"
  shows "case page_text (page_of (buffers s ! b) (current_pos (consoles s ! v))) cs of
      None \<Rightarrow> vc_write s v cs = Inl OutOfBounds
    | Some q \<Rightarrow> \<exists>s'. vc_write s v cs = Inr (length cs, s') \<and>
        page_of (buffers s' ! b) (current_pos (consoles s' ! v)) = q \<and>
        length (buffers s' ! b) = 2000 \<and> unat (current_pos (consoles s' ! v)) < 2000 \<and>
        (\<forall>b'. b' \<noteq> b \<longrightarrow> buffers s' ! b' = buffers s ! b')"
proof (cases "page_text (page_of (buffers s ! b) (current_pos (consoles s ! v))) cs")
  case None
  then show ?thesis
    using write_loop_page [OF assms(4-6)] assms(1-3) by (simp add: vc_write_def vc_at_def buffer_at_def)
next
  case (Some q)
  then obtain buf' pos' where w: "write_loop (buffers s ! b) (current_pos (consoles s ! v)) 0x0700 0 cs = Inr (buf', pos')"
    "length buf' = 2000" "unat pos' < 2000" "page_of buf' pos' = q"
    using write_loop_page [OF assms(4-6)] by auto
  let ?s = "put_vc v ((consoles s ! v)\<lparr>current_pos := pos'\<rparr>) (s\<lparr>buffers := (buffers s)[b := buf']\<rparr>)"
  have "\<exists>s'. (if vc_ucb (consoles s ! v) then VCUpdateCallback ?s v else Inr ?s) = Inr s' \<and> buffers s' = buffers ?s \<and>
      consoles s' = consoles ?s"
    using assms(1) by (simp add: VCUpdateCallback_def vc_at_def put_vc_def Let_def)
  then obtain s' where s': "(if vc_ucb (consoles s ! v) then VCUpdateCallback ?s v else Inr ?s) = Inr s'"
    "buffers s' = buffers ?s" "consoles s' = consoles ?s"
    by blast
  have "vc_write s v cs = Inr (length cs, s')"
    using assms(1-3) w(1) s'(1) by (simp add: vc_write_def vc_at_def buffer_at_def Let_def)
  then show ?thesis
    using Some w s'(2,3) assms(1,3) by (simp add: put_vc_def)
qed

theorem console_write_refines_page_witness:
  "vc_write demo_system 0 [8] = Inl OutOfBounds"
proof -
  have d: "consoles demo_system ! 0 = demo_console" "buffers demo_system ! 1 = replicate 2000 0x0700"
    by (simp_all add: demo_system_def numeral_3_eq_3)
  have p: "page_text (page_of (replicate 2000 0x0700) 0) [8] = None"
    by (simp add: page_char_def erase_cell_def page_of_def)
  have c: "current_pos demo_console = 0" "vc_buffer demo_console = Some 1"
    by (simp_all add: demo_console_def)
  show ?thesis
    using console_write_refines_page [of 0 demo_system 1 "[8]"] p unfolding d c by (simp add: demo_system_def)
qed

text \<open>
  (\<open>physical-console.cpp\<close>, \<open>set_current_vc\<close>; \<open>vga-console.cpp\<close>, \<open>virtual_console_changed\<close>). Switching to a console shows what it contains and puts
  the cursor at its position; no console, the old one included, loses what it shows, and the buffers stay apart for the next switch.
\<close>

theorem console_switch_keeps_screens:
  assumes "switch_ok s" and "v < length (consoles s)"
  shows "\<exists>s'. set_current_vc s v = Inr s' \<and> switch_ok s' \<and> pc_current_vc s' = Some v \<and> old_vc s' = Some v \<and>
    length (consoles s') = length (consoles s) \<and> terminals s' = terminals s \<and>
    (\<forall>u < length (consoles s). screen_of s' u = screen_of s u \<and> current_pos (consoles s' ! u) = current_pos (consoles s ! u) \<and>
      vc_terminal (consoles s' ! u) = vc_terminal (consoles s ! u)) \<and>
    buffers s' ! video_ram s' = screen_of s v \<and>
    port_writes s' = port_writes s @ [(0x3d4, 0xf), (0x3d5, ucast (current_pos (consoles s ! v))),
      (0x3d4, 0xe), (0x3d5, ucast (drop_bit 8 (current_pos (consoles s ! v))))]"
proof -
  let ?s = "s\<lparr>pc_current_vc := Some v\<rparr>"
  have sc: "screen_of ?s u = screen_of s u" "own_buffer ?s u = own_buffer s u" for u
    by (simp_all add: screen_of_def own_buffer_def split: option.split)
  have ok: "switch_ok ?s"
    using assms(1) by (simp add: switch_ok_def sc)
  obtain s1 where s1: "(case old_vc ?s of
        Some ov \<Rightarrow> andthen (set_buffer ?s ov (backup_buffer ?s) False) (\<lambda>s.
          andthen (get_buffer s ov) (\<lambda>b. copy_screen s b (Some (video_ram s))))
      | None \<Rightarrow> Inr ?s) = Inr s1" "detached s1" "same_consoles ?s s1"
      "\<forall>v < length (consoles s). screen_of s1 v = screen_of ?s v"
    using save_old [OF ok] by auto
  have e: "pc_current_vc s1 = Some v" "length (consoles s1) = length (consoles s)" "terminals s1 = terminals s"
    "port_writes s1 = port_writes s" "video_ram s1 = video_ram s"
    "\<forall>u < length (consoles s). current_pos (consoles s1 ! u) = current_pos (consoles s ! u) \<and>
      vc_terminal (consoles s1 ! u) = vc_terminal (consoles s ! u)"
    using s1(3) by (simp_all add: same_consoles_def)
  have run: "set_current_vc s v = andthen (deref (pc_current_vc s1)) (\<lambda>cur.
    andthen (get_buffer s1 cur) (\<lambda>b.
    andthen (set_buffer (s1\<lparr>backup_buffer := b\<rparr>) cur (Some (video_ram s1)) True) (\<lambda>s.
    andthen (case backup_buffer s of
        Some _ \<Rightarrow> andthen (get_buffer s cur) (\<lambda>b. copy_screen s b (backup_buffer s))
      | None \<Rightarrow> Inr s) (\<lambda>s.
      VCUpdateCallback (s\<lparr>old_vc := Some cur\<rparr>) cur))))"
    unfolding set_current_vc_def virtual_console_changed_def s1(1) by simp
  show ?thesis
    unfolding run using show_new [OF s1(2) e(1)] assms(2) e(2-6) s1(4) sc by auto
qed

theorem console_switch_keeps_screens_witness:
  "\<exists>s s'. set_current_vc demo_system 0 = Inr s \<and> set_current_vc s 1 = Inr s' \<and> switch_ok s' \<and>
     pc_current_vc s' = Some 1 \<and> screen_of s' 0 = screen_of demo_system 0"
proof -
  have "switch_ok demo_system"
    by (auto simp: switch_ok_def own_buffer_def demo_system_def demo_console_def nth_Cons split: nat.splits)
  then obtain s where s: "set_current_vc demo_system 0 = Inr s" "switch_ok s" "length (consoles s) = 2"
    "screen_of s 0 = screen_of demo_system 0"
    using console_switch_keeps_screens [of demo_system 0] by (auto simp: demo_system_def)
  obtain s' where "set_current_vc s 1 = Inr s'" "switch_ok s'" "pc_current_vc s' = Some 1" "screen_of s' 0 = screen_of s 0"
    using console_switch_keeps_screens [OF s(2), of 1] s(3) by auto
  then show ?thesis
    using s(1,4) by (intro exI conjI) (assumption | simp)+
qed

text \<open>
  (\<open>keyboard.cpp\<close>, \<open>scancode_to_key\<close>). The bounds check is off by one: the scan code right after the last entry of the map,
  0x45, the one of the Num Lock key, is read outside the map; every other code gives a key, the ones above it \<open>UNKNOWN_KEY\<close>.
\<close>

theorem scancode_bounds:
  "(scancode_to_key c = Inl OutOfBounds \<longleftrightarrow> c AND NOT 0x80 = 0x45) \<and>
   (unat (c AND NOT 0x80) < 0x45 \<longrightarrow> scancode_to_key c = Inr (scancode_map ! unat (c AND NOT 0x80))) \<and>
   (0x45 < unat (c AND NOT 0x80) \<longrightarrow> scancode_to_key c = Inr UNKNOWN_KEY)"
proof -
  have l: "length scancode_map = 69"
    by (simp add: scancode_map_def)
  have e: "x = 0x45 \<longleftrightarrow> unat x = 69" for x :: u8
    by (simp add: word_unat_eq_iff)
  show ?thesis
    unfolding e by (auto simp: scancode_to_key_def l Let_def)
qed

theorem scancode_bounds_witness:
  "scancode_to_key 0x45 = Inl OutOfBounds \<and> scancode_to_key 0x1c = Inr KEY_RETURN"
  using scancode_bounds [of "0x45"] scancode_bounds [of "0x1c"] by (simp add: scancode_map_def)

end
