(* ===== verification/Syscalls.thy ===== *)
theory Syscalls
  imports Console Vfs Cmos_Rtc
begin

text \<open>
  Kernel objects, their handles, and the system calls (\<open>infos/kernel/om.cpp\<close>, \<open>infos/kernel/syscall.cpp\<close>, the system call table
  in \<open>infos/include/infos/kernel/syscall.h\<close>), over the scheduler, the virtual file system, the consoles and the clock. What a handle
  stands for is a \<open>void *\<close> in the source; here it remembers the class of the object it was made from, so that a cast to
  another class, which the source leaves undefined, is the fault \<open>Undefined\<close>. User memory a call reads or writes is passed as the bytes
  from the given address on. A call that puts the calling thread to sleep ends with \<open>Blocked\<close>.
\<close>

section \<open>Objects and handles\<close>

datatype kobject = FileObj nat | DirObj nat | ProcessObj nat | ThreadObj nat

record ObjectDescriptor =
  od_owner :: nat
  od_object :: kobject

record ObjectManager =
  next_handle :: u64
  objects :: "(u64, ObjectDescriptor) Map"

definition ObjectManager_new :: ObjectManager where
  "ObjectManager_new = \<lparr>next_handle = 1, objects = map_empty\<rparr>"

definition register_object :: "ObjectManager \<Rightarrow> nat \<Rightarrow> kobject \<Rightarrow> (u64 \<times> ObjectManager) result" where
  "register_object om owner obj =
    (let handle = next_handle om; om = om\<lparr>next_handle := next_handle om + 1\<rparr>
     in andthen (Map_add (objects om) handle \<lparr>od_owner = owner, od_object = obj\<rparr>) (\<lambda>m.
          Inr (handle, om\<lparr>objects := m\<rparr>)))"

definition get_object_secure :: "'a kernel \<Rightarrow> ObjectManager \<Rightarrow> nat \<Rightarrow> u64 \<Rightarrow> kobject option result" where
  "get_object_secure k om owner handle =
    (case try_get_value (objects om) handle of
       None \<Rightarrow> Inr None
     | Some obj \<Rightarrow>
         andthen (owner_of k (od_owner obj)) (\<lambda>p. andthen (owner_of k owner) (\<lambda>q.
           if p \<noteq> q then Inr None else Inr (Some (od_object obj)))))"

section \<open>The system\<close>

record 'a System =
  sys_kernel :: "'a kernel"
  sys_vfs :: Vfs
  sys_consoles :: ConsoleSystem
  sys_om :: ObjectManager
  sys_files :: "File list"
  sys_dirs :: "Directory list"
  sys_rtc :: CMOSRTC
  sys_tod :: TimeOfDay

text \<open>The clock chip, the fuel of a read from a tar file, and what the file systems get from outside.\<close>

record sys_env =
  env_fs :: fs_env
  env_chip :: cmos_chip
  env_read_fuel :: nat

datatype outcome = Ret u64 | Blocked

definition minus_one :: outcome where
  "minus_one = Ret (ucast (- 1 :: u32))"

definition KernelObject_Error :: outcome where
  "KernelObject_Error = Ret (- 1)"

definition current_thread :: "'a System \<Rightarrow> nat result" where
  "current_thread S = deref (arch_current (sys_kernel S))"

definition sys_register :: "'a System \<Rightarrow> kobject \<Rightarrow> (outcome \<times> 'a System) result" where
  "sys_register S obj =
    andthen (current_thread S) (\<lambda>t.
    andthen (register_object (sys_om S) t obj) (\<lambda>(h, om). Inr (Ret h, S\<lparr>sys_om := om\<rparr>)))"

definition sys_object :: "'a System \<Rightarrow> u64 \<Rightarrow> kobject option result" where
  "sys_object S h =
    andthen (current_thread S) (\<lambda>t. get_object_secure (sys_kernel S) (sys_om S) t h)"

text \<open>The casts of the source.\<close>

fun as_file :: "kobject \<Rightarrow> nat result" where
  "as_file (FileObj f) = Inr f"
| "as_file _ = Inl Undefined"

fun as_directory :: "kobject \<Rightarrow> nat result" where
  "as_directory (DirObj d) = Inr d"
| "as_directory _ = Inl Undefined"

fun as_process :: "kobject \<Rightarrow> nat result" where
  "as_process (ProcessObj p) = Inr p"
| "as_process _ = Inl Undefined"

fun as_thread :: "kobject \<Rightarrow> nat result" where
  "as_thread (ThreadObj t) = Inr t"
| "as_thread _ = Inl Undefined"

definition file_at :: "'a System \<Rightarrow> nat \<Rightarrow> File result" where
  "file_at S f = (if f < length (sys_files S) then Inr (sys_files S ! f) else Inl Undefined)"

definition dir_at :: "'a System \<Rightarrow> nat \<Rightarrow> Directory result" where
  "dir_at S d = (if d < length (sys_dirs S) then Inr (sys_dirs S ! d) else Inl Undefined)"

section \<open>Files\<close>

definition sys_open :: "sys_env \<Rightarrow> 'a System \<Rightarrow> bytes \<Rightarrow> (outcome \<times> 'a System) result" where
  "sys_open env S filename =
    andthen (String_cstr (Some filename)) (\<lambda>path.
    andthen (vfs_open (env_fs env) (sys_vfs S) path) (\<lambda>(f, v).
      let S = S\<lparr>sys_vfs := v\<rparr> in
      case f of
        None \<Rightarrow> Inr (KernelObject_Error, S)
      | Some file \<Rightarrow> sys_register (S\<lparr>sys_files := sys_files S @ [file]\<rparr>) (FileObj (length (sys_files S)))))"

text \<open>Every file class has an empty \<open>close\<close>.\<close>

definition sys_close :: "'a System \<Rightarrow> u64 \<Rightarrow> (outcome \<times> 'a System) result" where
  "sys_close S h =
    andthen (sys_object S h) (\<lambda>obj. case obj of
        None \<Rightarrow> Inr (minus_one, S)
      | Some ob \<Rightarrow> andthen (as_file ob) (\<lambda>f. andthen (file_at S f) (\<lambda>_. Inr (Ret 0, S))))"

definition u16_bytes :: "u16 \<Rightarrow> bytes" where
  "u16_bytes w = [ucast w, ucast (drop_bit 8 w)]"

definition u32_bytes :: "u32 \<Rightarrow> bytes" where
  "u32_bytes w = [ucast w, ucast (drop_bit 8 w), ucast (drop_bit 16 w), ucast (drop_bit 24 w)]"

text \<open>\<open>userspace_tod_buffer\<close>, six 16-bit fields.\<close>

definition tod_bytes :: "u16 \<Rightarrow> u16 \<Rightarrow> u16 \<Rightarrow> u16 \<Rightarrow> u16 \<Rightarrow> u16 \<Rightarrow> bytes" where
  "tod_bytes s mi h d mo y = concat (map u16_bytes [s, mi, h, d, mo, y])"

definition store :: "bytes \<Rightarrow> nat \<Rightarrow> bytes \<Rightarrow> bytes result" where
  "store buffer i bs =
    (if i + length bs \<le> length buffer then Inr (take i buffer @ bs @ drop (i + length bs) buffer) else Inl OutOfBounds)"

definition file_read ::
    "sys_env \<Rightarrow> 'a SchedulingAlgorithm \<Rightarrow> 'a System \<Rightarrow> nat \<Rightarrow> bytes \<Rightarrow> nat \<Rightarrow> (outcome \<times> bytes \<times> 'a System) result" where
  "file_read env A S f buffer sz =
    andthen (file_at S f) (\<lambda>file. case file of
        TarFile dv tf \<Rightarrow>
          andthen (tarfs_read (env_read_fuel env) (block_dev (env_fs env) dv) tf buffer (junk (env_fs env)) (of_nat sz))
            (\<lambda>(rc, buffer, tf). Inr (Ret (ucast rc), buffer, S\<lparr>sys_files := (sys_files S)[f := TarFile dv tf]\<rparr>))
      | TerminalFile t \<Rightarrow>
          andthen (terminal_read A (sys_consoles S) (sys_kernel S) t buffer 0 sz) (\<lambda>(r, buffer, cs, k).
            Inr (case r of Returned n \<Rightarrow> Ret (ucast (of_nat n :: u32)) | Waiting _ \<Rightarrow> Blocked,
                 buffer, S\<lparr>sys_consoles := cs, sys_kernel := k\<rparr>))
      | RTCFile \<Rightarrow>
          (case RTCFile_read (env_chip env) sz (sys_rtc S) of (n, tp, d) \<Rightarrow>
            andthen (case tp of
                None \<Rightarrow> Inr buffer
              | Some p \<Rightarrow> store buffer 0 (tod_bytes (seconds p) (minutes p) (hours p) (day_of_month p) (month p) (year p)))
              (\<lambda>buffer. Inr (Ret (of_nat n), buffer, S\<lparr>sys_rtc := d\<rparr>))))"

definition file_write :: "'a System \<Rightarrow> nat \<Rightarrow> bytes \<Rightarrow> (outcome \<times> 'a System) result" where
  "file_write S f buffer =
    andthen (file_at S f) (\<lambda>file. case file of
        TerminalFile t \<Rightarrow> andthen (terminal_write (sys_consoles S) t buffer) (\<lambda>(n, cs).
          Inr (Ret (ucast (of_nat n :: u32)), S\<lparr>sys_consoles := cs\<rparr>))
      | TarFile dv tf \<Rightarrow> Inr (Ret 0, S)
      | RTCFile \<Rightarrow> Inr (Ret 0, S))"

definition sys_read ::
    "sys_env \<Rightarrow> 'a SchedulingAlgorithm \<Rightarrow> 'a System \<Rightarrow> u64 \<Rightarrow> bytes \<Rightarrow> nat \<Rightarrow> (outcome \<times> bytes \<times> 'a System) result" where
  "sys_read env A S h buffer sz =
    andthen (sys_object S h) (\<lambda>obj. case obj of
        None \<Rightarrow> Inr (minus_one, buffer, S)
      | Some ob \<Rightarrow> andthen (as_file ob) (\<lambda>f. file_read env A S f buffer sz))"

definition sys_write :: "'a System \<Rightarrow> u64 \<Rightarrow> bytes \<Rightarrow> (outcome \<times> 'a System) result" where
  "sys_write S h buffer =
    andthen (sys_object S h) (\<lambda>obj. case obj of
        None \<Rightarrow> Inr (minus_one, S)
      | Some ob \<Rightarrow> andthen (as_file ob) (\<lambda>f. file_write S f buffer))"

section \<open>Directories\<close>

definition sys_opendir :: "sys_env \<Rightarrow> 'a System \<Rightarrow> bytes \<Rightarrow> (outcome \<times> 'a System) result" where
  "sys_opendir env S path =
    andthen (String_cstr (Some path)) (\<lambda>path.
    andthen (vfs_opendir (env_fs env) (sys_vfs S) path) (\<lambda>(d, v).
      let S = S\<lparr>sys_vfs := v\<rparr> in
      case d of
        None \<Rightarrow> Inr (KernelObject_Error, S)
      | Some dir \<Rightarrow> sys_register (S\<lparr>sys_dirs := sys_dirs S @ [dir]\<rparr>) (DirObj (length (sys_dirs S)))))"

fun directory_close :: "Directory \<Rightarrow> Directory" where
  "directory_close (SimpleDir d) = SimpleDir (sd_close d)"
| "directory_close (TarDir d) = TarDir d"

definition sys_closedir :: "'a System \<Rightarrow> u64 \<Rightarrow> (outcome \<times> 'a System) result" where
  "sys_closedir S h =
    andthen (sys_object S h) (\<lambda>obj. case obj of
        None \<Rightarrow> Inr (minus_one, S)
      | Some ob \<Rightarrow> andthen (as_directory ob) (\<lambda>d. andthen (dir_at S d) (\<lambda>dir.
          Inr (Ret 0, S\<lparr>sys_dirs := (sys_dirs S)[d := directory_close dir]\<rparr>))))"

fun directory_read_entry :: "Directory \<Rightarrow> (DirectoryEntry option \<times> Directory) result" where
  "directory_read_entry (SimpleDir d) = andthen (sd_read_entry d) (\<lambda>(e, d). Inr (e, SimpleDir d))"
| "directory_read_entry (TarDir d) = andthen (read_entry d) (\<lambda>(e, d). Inr (e, TarDir d))"

text \<open>\<open>user_de\<close>: the name in 64 bytes, then the size and the flags in 32 bits each.\<close>

definition store_entry :: "bytes \<Rightarrow> DirectoryEntry \<Rightarrow> bytes result" where
  "store_entry buffer e =
    andthen (strncpy buffer (c_str (string_assign String_empty (fst e))) 63) (\<lambda>(buffer, _).
    andthen (store buffer 68 (u32_bytes 0)) (\<lambda>buffer. store buffer 64 (u32_bytes (snd e))))"

definition sys_readdir :: "'a System \<Rightarrow> u64 \<Rightarrow> bytes \<Rightarrow> (outcome \<times> bytes \<times> 'a System) result" where
  "sys_readdir S h buffer =
    andthen (sys_object S h) (\<lambda>obj. case obj of
        None \<Rightarrow> Inr (Ret 0, buffer, S)
      | Some ob \<Rightarrow> andthen (as_directory ob) (\<lambda>d. andthen (dir_at S d) (\<lambda>dir.
          andthen (directory_read_entry dir) (\<lambda>(e, dir).
            let S = S\<lparr>sys_dirs := (sys_dirs S)[d := dir]\<rparr> in
            case e of
              None \<Rightarrow> Inr (Ret 0, buffer, S)
            | Some de \<Rightarrow> andthen (store_entry buffer de) (\<lambda>buffer. Inr (Ret 1, buffer, S))))))"

section \<open>Processes and threads\<close>

definition sys_exit :: "'a SchedulingAlgorithm \<Rightarrow> 'a System \<Rightarrow> (outcome \<times> 'a System) result" where
  "sys_exit A S =
    andthen (current_thread S) (\<lambda>t.
    andthen (owner_of (sys_kernel S) t) (\<lambda>p.
    andthen (terminate A (sys_kernel S) p) (\<lambda>(returned, k).
      Inr (if returned then Ret 0 else Blocked, S\<lparr>sys_kernel := k\<rparr>))))"

text \<open>
  One test of the condition of the waiting loop; a thread that has been woken comes back to the test. The argument tells which
  event it waits for and when it is done.
\<close>

definition wait_pass ::
    "'a SchedulingAlgorithm \<Rightarrow> 'a System \<Rightarrow> event \<Rightarrow> bool \<Rightarrow> (outcome \<times> 'a System) result" where
  "wait_pass A S ev finished =
    (if finished then Inr (Ret 0, S)
     else andthen (Event_wait A (sys_kernel S) ev) (\<lambda>(_, k). Inr (Blocked, S\<lparr>sys_kernel := k\<rparr>)))"

definition sys_wait_proc :: "'a SchedulingAlgorithm \<Rightarrow> 'a System \<Rightarrow> u64 \<Rightarrow> (outcome \<times> 'a System) result" where
  "sys_wait_proc A S h =
    andthen (sys_object S h) (\<lambda>obj. case obj of
        None \<Rightarrow> Inr (minus_one, S)
      | Some ob \<Rightarrow> andthen (as_process ob) (\<lambda>p.
          andthen (check (p < length (procs (sys_kernel S))) Undefined) (\<lambda>_.
            wait_pass A S (ProcessEvent p) (terminated (procs (sys_kernel S) ! p)))))"

definition sys_join_thread :: "'a SchedulingAlgorithm \<Rightarrow> 'a System \<Rightarrow> u64 \<Rightarrow> (outcome \<times> 'a System) result" where
  "sys_join_thread A S h =
    andthen (sys_object S h) (\<lambda>obj. case obj of
        None \<Rightarrow> Inr (minus_one, S)
      | Some ob \<Rightarrow> andthen (as_thread ob) (\<lambda>t.
          andthen (get_entity (sys_kernel S) t) (\<lambda>e.
            wait_pass A S (EntityEvent t) (ent_state e = STOPPED))))"

text \<open>The stack of a new thread: \<open>0x2000 * (unsigned int) h\<close> is computed in 32 bits. Mapping it belongs to \<open>Vma\<close>.\<close>

definition thread_stack_addr :: "u64 \<Rightarrow> u64" where
  "thread_stack_addr h = 0x7fff00000000 + ucast (0x2000 * (ucast h :: u32))"

definition sys_create_thread :: "'a SchedulingAlgorithm \<Rightarrow> 'a System \<Rightarrow> (outcome \<times> 'a System) result" where
  "sys_create_thread A S =
    andthen (current_thread S) (\<lambda>cur.
    andthen (owner_of (sys_kernel S) cur) (\<lambda>p.
    andthen (create_thread (sys_kernel S) p False) (\<lambda>(t, k).
    andthen (sys_register (S\<lparr>sys_kernel := k\<rparr>) (ThreadObj t)) (\<lambda>(r, S).
    andthen (thread_start A (sys_kernel S) t) (\<lambda>k. Inr (r, S\<lparr>sys_kernel := k\<rparr>))))))"

definition sys_stop_thread :: "'a SchedulingAlgorithm \<Rightarrow> 'a System \<Rightarrow> u64 \<Rightarrow> (outcome \<times> 'a System) result" where
  "sys_stop_thread A S h =
    andthen (if h = - 1 then andthen (current_thread S) (\<lambda>t. Inr (Some t))
             else andthen (sys_object S h) (\<lambda>obj. case obj of
                 None \<Rightarrow> Inr None
               | Some ob \<Rightarrow> andthen (as_thread ob) (\<lambda>t. Inr (Some t)))) (\<lambda>t. case t of
        None \<Rightarrow> Inr (minus_one, S)
      | Some t \<Rightarrow> andthen (thread_stop A (sys_kernel S) t) (\<lambda>(returned, k).
          Inr (if returned then Ret 0 else Blocked, S\<lparr>sys_kernel := k\<rparr>)))"

definition sys_get_tod :: "'a System \<Rightarrow> bytes \<Rightarrow> (outcome \<times> bytes \<times> 'a System) result" where
  "sys_get_tod S buffer =
    (let tod = sys_tod S
     in andthen (store buffer 0 (tod_bytes (tod_seconds tod) (tod_minutes tod) (tod_hours tod)
          (tod_day tod) (tod_month tod) (tod_year tod))) (\<lambda>buffer. Inr (Ret 0, buffer, S)))"

section \<open>The system call table\<close>

text \<open>A table of functions of any type \<open>'f\<close>; a null entry is \<open>None\<close>.\<close>

definition MAX_SYSCALLS :: nat where
  "MAX_SYSCALLS = 256"

definition SyscallManager_new :: "'f option list" where
  "SyscallManager_new = replicate MAX_SYSCALLS None"

definition RegisterSyscall :: "'f option list \<Rightarrow> int \<Rightarrow> 'f \<Rightarrow> 'f option list" where
  "RegisterSyscall syscall_table nr fn =
    (if nr < 0 \<or> nr \<ge> int MAX_SYSCALLS then syscall_table else syscall_table[nat nr := Some fn])"

definition InvokeSyscall :: "'f option list \<Rightarrow> ('f \<Rightarrow> 'r) \<Rightarrow> 'r \<Rightarrow> int \<Rightarrow> 'r result" where
  "InvokeSyscall syscall_table call failure nr =
    (if nr < 0 \<or> nr \<ge> int MAX_SYSCALLS then Inr failure
     else if nat nr < length syscall_table
     then (case syscall_table ! nat nr of None \<Rightarrow> Inr failure | Some fn \<Rightarrow> Inr (call fn))
     else Inl OutOfBounds)"

datatype syscall =
    Sys_nop | Sys_yield | Sys_exit | Sys_open | Sys_close | Sys_read | Sys_write | Sys_opendir | Sys_readdir | Sys_closedir
  | Sys_exec | Sys_wait_proc | Sys_create_thread | Sys_stop_thread | Sys_join_thread | Sys_usleep | Sys_get_tod

definition RegisterDefaultSyscalls :: "syscall option list \<Rightarrow> syscall option list" where
  "RegisterDefaultSyscalls mgr =
    (let mgr = RegisterSyscall mgr 0 Sys_nop; mgr = RegisterSyscall mgr 1 Sys_yield; mgr = RegisterSyscall mgr 2 Sys_exit;
         mgr = RegisterSyscall mgr 3 Sys_open; mgr = RegisterSyscall mgr 4 Sys_close;
         mgr = RegisterSyscall mgr 5 Sys_read; mgr = RegisterSyscall mgr 6 Sys_write;
         mgr = RegisterSyscall mgr 7 Sys_opendir; mgr = RegisterSyscall mgr 8 Sys_readdir;
         mgr = RegisterSyscall mgr 9 Sys_closedir; mgr = RegisterSyscall mgr 10 Sys_exec;
         mgr = RegisterSyscall mgr 11 Sys_wait_proc; mgr = RegisterSyscall mgr 12 Sys_create_thread;
         mgr = RegisterSyscall mgr 13 Sys_stop_thread; mgr = RegisterSyscall mgr 14 Sys_join_thread;
         mgr = RegisterSyscall mgr 15 Sys_usleep
     in RegisterSyscall mgr 16 Sys_get_tod)"

end
