(* ===== verification/Sched_Frame.thy ===== *)
theory Sched_Frame
  imports Sched
begin

text \<open>
  What the operations of the kernel leave alone: no operation takes a thread from its process, and none makes a number the current
  thread that is not a thread. Nothing is assumed of the state or of the scheduling algorithm.
\<close>

section \<open>What kernel operations keep\<close>

text \<open>Threads are only added; they are new numbers, each in the list of a process.\<close>

definition kext :: "'a kernel \<Rightarrow> 'a kernel \<Rightarrow> bool" where
  "kext k k' \<longleftrightarrow> length (procs k') = length (procs k) \<and> length (entities k) \<le> length (entities k') \<and>
    (\<forall>p < length (procs k). \<exists>ys. elems (threads (procs k' ! p)) = elems (threads (procs k ! p)) @ ys \<and>
       set ys \<subseteq> {length (entities k)..<length (entities k')}) \<and>
    (\<forall>t. length (entities k) \<le> t \<and> t < length (entities k') \<longrightarrow>
       (\<exists>p < length (procs k). t \<in> set (elems (threads (procs k' ! p))))) \<and>
    (\<forall>t. arch_current k' = Some t \<longrightarrow> arch_current k = Some t \<or> t < length (entities k'))"

definition kernel_ok :: "'a kernel \<Rightarrow> bool" where
  "kernel_ok k \<longleftrightarrow>
    (\<forall>t < length (entities k). \<exists>p < length (procs k). t \<in> set (elems (threads (procs k ! p)))) \<and>
    (\<forall>p < length (procs k). set (elems (threads (procs k ! p))) \<subseteq> {..<length (entities k)}) \<and>
    (\<forall>t. arch_current k = Some t \<longrightarrow> t < length (entities k))"

text \<open>Most operations leave the lists of threads as they are.\<close>

definition kframe :: "'a kernel \<Rightarrow> 'a kernel \<Rightarrow> bool" where
  "kframe k k' \<longleftrightarrow> map threads (procs k') = map threads (procs k) \<and> length (entities k') = length (entities k) \<and>
    (\<forall>t. arch_current k' = Some t \<longrightarrow> arch_current k = Some t \<or> t < length (entities k))"

lemma kframe_refl: "kframe k k"
  by (simp add: kframe_def)

lemma kframe_trans: "kframe k k' \<Longrightarrow> kframe k' k'' \<Longrightarrow> kframe k k''"
  by (auto simp: kframe_def)

lemma kframe_same:
  "procs k' = procs k \<Longrightarrow> length (entities k') = length (entities k) \<Longrightarrow> arch_current k' = arch_current k \<Longrightarrow> kframe k k'"
  by (simp add: kframe_def)

lemma map_threads_nth: "map threads ps = map threads qs \<Longrightarrow> p < length ps \<Longrightarrow> threads (ps ! p) = threads (qs ! p)"
  by (metis length_map nth_map)

lemma kext_threads:
  assumes "kext k k'" and "p < length (procs k)"
  obtains ys where "elems (threads (procs k' ! p)) = elems (threads (procs k ! p)) @ ys"
    "set ys \<subseteq> {length (entities k)..<length (entities k')}"
  using assms unfolding kext_def by metis

lemma kframe_kext:
  assumes "kframe k k'"
  shows "kext k k'"
proof -
  have l: "length (procs k') = length (procs k)"
    using assms by (metis kframe_def length_map)
  have "threads (procs k' ! p) = threads (procs k ! p)" if "p < length (procs k)" for p
    using assms that l map_threads_nth [of "procs k'" "procs k" p] by (simp add: kframe_def)
  with l assms show ?thesis
    by (auto simp: kext_def kframe_def)
qed

lemma kext_ok:
  assumes e: "kext k k'" and ok: "kernel_ok k"
  shows "kernel_ok k'"
  unfolding kernel_ok_def
proof (intro conjI allI impI)
  fix t
  assume t: "t < length (entities k')"
  show "\<exists>p < length (procs k'). t \<in> set (elems (threads (procs k' ! p)))"
  proof (cases "t < length (entities k)")
    case True
    then obtain p where p: "p < length (procs k)" "t \<in> set (elems (threads (procs k ! p)))"
      using ok by (auto simp: kernel_ok_def)
    moreover obtain ys where "elems (threads (procs k' ! p)) = elems (threads (procs k ! p)) @ ys"
      by (rule kext_threads [OF e p(1)])
    ultimately show ?thesis
      using e by (auto simp: kext_def)
  next
    case False
    then show ?thesis
      using e t by (auto simp: kext_def)
  qed
next
  fix p
  assume "p < length (procs k')"
  then have p: "p < length (procs k)"
    using e by (simp add: kext_def)
  obtain ys where "elems (threads (procs k' ! p)) = elems (threads (procs k ! p)) @ ys"
    "set ys \<subseteq> {length (entities k)..<length (entities k')}"
    by (rule kext_threads [OF e p])
  moreover have "set (elems (threads (procs k ! p))) \<subseteq> {..<length (entities k)}" "length (entities k) \<le> length (entities k')"
    using ok e p by (simp_all add: kernel_ok_def kext_def)
  ultimately show "set (elems (threads (procs k' ! p))) \<subseteq> {..<length (entities k')}"
    by fastforce
next
  fix t
  assume "arch_current k' = Some t"
  then have "arch_current k = Some t \<or> t < length (entities k')" "length (entities k) \<le> length (entities k')"
    using e by (auto simp: kext_def)
  then show "t < length (entities k')"
    using ok by (auto simp: kernel_ok_def)
qed

lemma find_upt_cong:
  "(\<And>p. p < n \<Longrightarrow> P p = Q p) \<Longrightarrow> find P [0..<n] = find Q [0..<n]"
  by (rule find_cong) auto

lemma owner_of_kext:
  assumes e: "kext k k'" and t: "t < length (entities k)"
  shows "owner_of k' t = owner_of k t"
proof -
  have "t \<in> set (elems (threads (procs k' ! p))) \<longleftrightarrow> t \<in> set (elems (threads (procs k ! p)))"
    if p: "p < length (procs k)" for p
  proof -
    obtain ys where "elems (threads (procs k' ! p)) = elems (threads (procs k ! p)) @ ys"
      "set ys \<subseteq> {length (entities k)..<length (entities k')}"
      by (rule kext_threads [OF e p])
    then show ?thesis
      using t by auto
  qed
  moreover have "length (procs k') = length (procs k)"
    using e by (simp add: kext_def)
  ultimately show ?thesis
    unfolding owner_of_def by (simp cong: find_upt_cong) (subst find_upt_cong [of "length (procs k)"], auto)
qed

lemma owner_of_ok:
  assumes "kernel_ok k" and "t < length (entities k)"
  shows "\<exists>p < length (procs k). owner_of k t = Inr p"
proof -
  obtain p where "p < length (procs k)" "t \<in> set (elems (threads (procs k ! p)))"
    using assms by (auto simp: kernel_ok_def)
  then have "find (\<lambda>p. t \<in> set (elems (threads (procs k ! p)))) [0..<length (procs k)] \<noteq> None"
    by (auto simp: find_None_iff)
  then obtain q where q: "find (\<lambda>p. t \<in> set (elems (threads (procs k ! p)))) [0..<length (procs k)] = Some q"
    by blast
  then have "q < length (procs k)"
    by (auto simp: find_Some_iff)
  with q show ?thesis
    by (simp add: owner_of_def)
qed

section \<open>Scheduler operations\<close>

lemma wake_iter_kframe:
  assumes "\<And>k w k'. wake_up k w = Inr k' \<Longrightarrow> kframe k k'" and "wake_iter wake_up ev k ws = Inr k'"
  shows "kframe k k'"
  using assms(2)
proof (induction ws arbitrary: k)
  case Nil
  then show ?case
    by (simp add: kframe_refl)
next
  case (Cons w ws)
  then obtain k1 where k1: "wake_up k w = Inr k1" "wake_iter wake_up ev k1 ws = Inr k'"
    by (auto simp: andthen_eq_Inr)
  show ?case
    by (rule kframe_trans [OF assms(1) [OF k1(1)] Cons.IH [OF k1(2)]])
qed

lemma wake_kframe:
  assumes "\<And>k w k'. wake_up k w = Inr k' \<Longrightarrow> kframe k k'" and "wake wake_up k ev = Inr k'"
  shows "kframe k k'"
proof -
  obtain k1 where k1: "wake_iter wake_up ev k (elems (waiters k ev)) = Inr k1"
    "k' = k1\<lparr>waiters := (waiters k1)(ev := list_clear (waiters k1 ev))\<rparr>"
    using assms(2) by (auto simp: wake_def andthen_eq_Inr)
  have "kframe k k1"
    by (rule wake_iter_kframe [OF _ k1(1)]) (rule assms(1))
  then show ?thesis
    using k1(2) by (simp add: kframe_def)
qed

lemma set_state_kframe: "set_state fuel A k e state = Inr k' \<Longrightarrow> kframe k k'"
proof (induction fuel arbitrary: k e state k')
  case (Suc fuel)
  obtain ent where ent: "get_entity k e = Inr ent" "(if ent_state ent = state then Inr k
      else andthen (runqueue_change A (algo k) e (ent_state ent) state) (\<lambda>a.
         wake (\<lambda>k w. set_state fuel A k w RUNNABLE)
           (upd_entity e (\<lambda>x. x\<lparr>ent_state := state\<rparr>) (k\<lparr>algo := a\<rparr>)) (EntityEvent e))) = Inr k'"
    using Suc.prems by (auto simp: andthen_eq_Inr)
  show ?case
  proof (cases "ent_state ent = state")
    case True
    then show ?thesis
      using ent by (simp add: kframe_refl)
  next
    case False
    then obtain a where a: "wake (\<lambda>k w. set_state fuel A k w RUNNABLE)
           (upd_entity e (\<lambda>x. x\<lparr>ent_state := state\<rparr>) (k\<lparr>algo := a\<rparr>)) (EntityEvent e) = Inr k'"
      using ent by (auto simp: andthen_eq_Inr)
    have "kframe (upd_entity e (\<lambda>x. x\<lparr>ent_state := state\<rparr>) (k\<lparr>algo := a\<rparr>)) k'"
      by (rule wake_kframe [OF _ a]) (rule Suc.IH)
    moreover have "kframe k (upd_entity e (\<lambda>x. x\<lparr>ent_state := state\<rparr>) (k\<lparr>algo := a\<rparr>))"
      by (rule kframe_same) (simp_all add: upd_entity_def)
    ultimately show ?thesis
      by (rule kframe_trans [rotated])
  qed
qed simp

lemma set_entity_state_kframe: "set_entity_state A k e state = Inr k' \<Longrightarrow> kframe k k'"
  by (simp add: set_entity_state_def set_state_kframe)

lemma Event_trigger_kframe: "Event_trigger A k ev = Inr k' \<Longrightarrow> kframe k k'"
  unfolding Event_trigger_def by (rule wake_kframe) (rule set_state_kframe)

lemma activate_kframe: "activate k e prev = Inr (b, k') \<Longrightarrow> kframe k k'"
  by (auto simp: activate_def andthen_eq_Inr get_entity_def kframe_def split: if_splits)

lemma switch_to_kframe: "switch_to k e = Inr k' \<Longrightarrow> kframe k k'"
  by (auto simp: switch_to_def andthen_eq_Inr kframe_refl split: if_splits)
    (force dest!: activate_kframe simp: kframe_def)+

lemma schedule_kframe:
  assumes "schedule A k = Inr k'"
  shows "kframe k k'"
proof (cases "active k")
  case True
  obtain p a where pa: "pick_next_entity A (\<lambda>e. cpu_runtime (entities k ! e)) (algo k) = Inr (p, a)"
    using assms True by (auto simp: schedule_def andthen_eq_Inr)
  then obtain k1 c where k1: "switch_to (k\<lparr>algo := a\<rparr>) (case p of None \<Rightarrow> idle_entity k | Some e \<Rightarrow> e) = Inr k1"
    "k' = upd_entity c (\<lambda>x. x\<lparr>exec_start_time := runtime k1\<rparr>) k1"
    using assms True by (auto simp: schedule_def andthen_eq_Inr)
  have "kframe k (k\<lparr>algo := a\<rparr>)" "kframe k1 k'"
    using k1(2) by (simp_all add: kframe_same upd_entity_def)
  then show ?thesis
    using switch_to_kframe [OF k1(1)] kframe_trans by blast
qed (use assms in \<open>simp add: schedule_def kframe_refl\<close>)

lemma thread_yield_kframe: "thread_yield A k t = Inr (b, k') \<Longrightarrow> kframe k k'"
  by (auto simp: thread_yield_def andthen_eq_Inr intro: schedule_kframe)

lemma yield_if_kframe:
  assumes "andthen (set_entity_state A k t state) (\<lambda>k'. if arch_current k' = Some t then thread_yield A k' t else Inr (True, k')) = Inr (b, k')"
  shows "kframe k k'"
proof -
  obtain k1 where k1: "set_entity_state A k t state = Inr k1"
    "(if arch_current k1 = Some t then thread_yield A k1 t else Inr (True, k1)) = Inr (b, k')"
    using assms by (auto simp: andthen_eq_Inr)
  have "kframe k1 k'"
    using k1(2) thread_yield_kframe kframe_refl by (auto split: if_splits)
  then show ?thesis
    using set_entity_state_kframe [OF k1(1)] kframe_trans by blast
qed

lemma thread_stop_kframe: "thread_stop A k t = Inr (b, k') \<Longrightarrow> kframe k k'"
  unfolding thread_stop_def by (rule yield_if_kframe)

lemma thread_sleep_kframe: "thread_sleep A k t = Inr (b, k') \<Longrightarrow> kframe k k'"
  unfolding thread_sleep_def by (rule yield_if_kframe)

lemma Event_wait_kframe:
  assumes "Event_wait A k ev = Inr (b, k')"
  shows "kframe k k'"
proof -
  obtain t where "thread_sleep A (k\<lparr>waiters := (waiters k)(ev := list_append (waiters k ev) t)\<rparr>) t = Inr (b, k')"
    using assms by (auto simp: Event_wait_def andthen_eq_Inr WakeQueue_sleep_def)
  from thread_sleep_kframe [OF this] show ?thesis
    by (simp add: kframe_def)
qed

lemma thread_start_kframe: "thread_start A k t = Inr k' \<Longrightarrow> kframe k k'"
  unfolding thread_start_def by (rule set_entity_state_kframe)

lemma stop_all_kframe: "stop_all A k ts = Inr (b, k') \<Longrightarrow> kframe k k'"
proof (induction ts arbitrary: k)
  case Nil
  then show ?case
    by (simp add: kframe_refl)
next
  case (Cons t ts)
  then obtain r k1 where k1: "thread_stop A k t = Inr (r, k1)"
    "(if r then stop_all A k1 ts else Inr (False, k1)) = Inr (b, k')"
    by (auto simp: andthen_eq_Inr)
  have "kframe k1 k'"
    using k1(2) Cons.IH [of k1] kframe_refl [of k1] by (auto split: if_splits)
  then show ?case
    by (rule kframe_trans [OF thread_stop_kframe [OF k1(1)]])
qed

lemma terminate_kframe:
  assumes "terminate A k p = Inr (b, k')"
  shows "kframe k k'"
proof -
  let ?k = "k\<lparr>procs := (procs k)[p := (procs k ! p)\<lparr>terminated := True\<rparr>]\<rparr>"
  obtain k1 where k1: "p < length (procs k)" "Event_trigger A ?k (ProcessEvent p) = Inr k1"
    "stop_all A k1 (elems (threads (procs k1 ! p))) = Inr (b, k')"
    using assms by (auto simp: terminate_def andthen_eq_Inr)
  have "map threads (procs ?k) = map threads (procs k)"
    using k1(1) by (simp add: map_update) (metis list_update_id nth_map length_map)
  then have "kframe k ?k"
    by (simp add: kframe_def)
  moreover have "kframe ?k k1"
    by (rule Event_trigger_kframe [OF k1(2)])
  moreover have "kframe k1 k'"
    by (rule stop_all_kframe [OF k1(3)])
  ultimately show ?thesis
    using kframe_trans by blast
qed

lemma update_accounting_kframe: "update_accounting k = Inr k' \<Longrightarrow> kframe k k'"
  by (auto simp: update_accounting_def andthen_eq_Inr Let_def kframe_def upd_entity_def split: option.splits)

lemma timer_tick_kframe:
  assumes "timer_tick A k = Inr k'"
  shows "kframe k k'"
proof -
  obtain k1 where k1: "update_accounting (k\<lparr>runtime := runtime k + 10000000\<rparr>) = Inr k1" "schedule A k1 = Inr k'"
    using assms by (auto simp: timer_tick_def andthen_eq_Inr)
  have "kframe k k1"
    using update_accounting_kframe [OF k1(1)] by (simp add: kframe_def)
  then show ?thesis
    using schedule_kframe [OF k1(2)] kframe_trans by blast
qed

lemma create_thread_kext:
  assumes "create_thread k p b = Inr (t, k')"
  shows "kext k k'" and "t = length (entities k)" and "t < length (entities k')"
proof -
  have p: "p < length (procs k)" and t: "t = length (entities k)" and len: "length (entities k') = Suc (length (entities k))"
    and ps: "procs k' = (procs k)[p := (procs k ! p)\<lparr>threads := list_append (threads (procs k ! p)) t\<rparr>]"
    and ac: "arch_current k' = arch_current k"
    using assms by (auto simp: create_thread_def andthen_eq_Inr Let_def)
  show "kext k k'"
    unfolding kext_def
  proof (intro conjI allI impI)
    fix q
    assume "q < length (procs k)"
    then show "\<exists>ys. elems (threads (procs k' ! q)) = elems (threads (procs k ! q)) @ ys \<and>
       set ys \<subseteq> {length (entities k)..<length (entities k')}"
      using p t len ps by (cases "q = p") auto
  next
    fix u
    assume "length (entities k) \<le> u \<and> u < length (entities k')"
    then show "\<exists>q < length (procs k). u \<in> set (elems (threads (procs k' ! q)))"
      using p t len ps by (intro exI [of _ p]) auto
  qed (use p len ps ac in auto)
  show "t = length (entities k)" "t < length (entities k')"
    using t len by simp_all
qed

lemma kext_kframe:
  assumes e: "kext k k'" and f: "kframe k' k''"
  shows "kext k k''"
proof -
  have l: "length (procs k'') = length (procs k)" "length (entities k'') = length (entities k')"
    using f e by (metis kframe_def kext_def length_map, simp add: kframe_def)
  have le: "length (procs k') = length (procs k)" "length (entities k) \<le> length (entities k')"
    using e by (simp_all add: kext_def)
  have same: "threads (procs k'' ! p) = threads (procs k' ! p)" if "p < length (procs k)" for p
    using f that l(1) map_threads_nth [of "procs k''" "procs k'" p] by (simp add: kframe_def)
  show ?thesis
    unfolding kext_def
  proof (intro conjI allI impI)
    fix p
    assume p: "p < length (procs k)"
    obtain ys where "elems (threads (procs k' ! p)) = elems (threads (procs k ! p)) @ ys"
      "set ys \<subseteq> {length (entities k)..<length (entities k')}"
      by (rule kext_threads [OF e p])
    then show "\<exists>ys. elems (threads (procs k'' ! p)) = elems (threads (procs k ! p)) @ ys \<and>
       set ys \<subseteq> {length (entities k)..<length (entities k'')}"
      using same [OF p] l(2) by simp
  next
    fix t
    assume "length (entities k) \<le> t \<and> t < length (entities k'')"
    then obtain p where "p < length (procs k)" "t \<in> set (elems (threads (procs k' ! p)))"
      using e l(2) by (auto simp: kext_def)
    then show "\<exists>p < length (procs k). t \<in> set (elems (threads (procs k'' ! p)))"
      using same by auto
  next
    fix t
    assume "arch_current k'' = Some t"
    then have "arch_current k' = Some t \<or> t < length (entities k')"
      using f by (auto simp: kframe_def)
    then show "arch_current k = Some t \<or> t < length (entities k'')"
      using e l(2) by (auto simp: kext_def)
  qed (use l le in simp_all)
qed

end
