(* ===== verification/Syscalls_Correct.thy ===== *)
theory Syscalls_Correct
  imports Syscalls Sched_Frame Util_Map_Correct Util_String_Correct
begin

text \<open>
  Handles. \<open>sys_run\<close> is a run of the system: system calls of whatever thread is current, timer ticks and key strokes in any
  order, with the log of the handles that were given out. Its invariant relates the object table to that log, and shows
  that a handle works for exactly the threads of the process it was given to, and always denotes an object of the class it was made for.
\<close>

section \<open>Console operations\<close>

lemma append_to_read_buffer_kframe:
  "append_to_read_buffer A s k t c = Inr (s', k') \<Longrightarrow> kframe k k'"
  by (auto simp: append_to_read_buffer_def andthen_eq_Inr dest: Event_trigger_kframe)

lemma vc_key_down_kframe: "vc_key_down A s k v key = Inr (s', k') \<Longrightarrow> kframe k k'"
  by (auto simp: vc_key_down_def andthen_eq_Inr kframe_refl split: if_splits option.splits
      dest: append_to_read_buffer_kframe)

lemma pc_key_down_kframe: "pc_key_down A s k key = Inr (s', k') \<Longrightarrow> kframe k k'"
  by (auto simp: pc_key_down_def andthen_eq_Inr kframe_refl Let_def split: if_splits option.splits
      dest: vc_key_down_kframe)

lemma handle_key_event_kframe: "handle_key_event A s k c = Inr (s', k') \<Longrightarrow> kframe k k'"
  by (auto simp: handle_key_event_def andthen_eq_Inr kframe_refl split: if_splits dest: pc_key_down_kframe)

lemma read_loop_kframe: "read_loop A k t tt buffer n sz = Inr (r, buffer', tt', k') \<Longrightarrow> kframe k k'"
proof (induction A k t tt buffer n sz rule: read_loop.induct)
  case (1 A k t tt buffer n sz)
  consider "\<not> n < sz" | "n < sz" "read_buffer_head tt = read_buffer_tail tt"
    | "n < sz" "read_buffer_head tt \<noteq> read_buffer_tail tt" by blast
  then show ?case
  proof cases
    case 1
    then show ?thesis
      using "1.prems" by (subst (asm) read_loop.simps) (simp add: kframe_refl)
  next
    case 2
    then show ?thesis
      using "1.prems" by (subst (asm) read_loop.simps) (auto simp: andthen_eq_Inr dest: Event_wait_kframe)
  next
    case 3
    then show ?thesis
      using "1.IH" "1.prems" by (subst (asm) (2) read_loop.simps) (auto simp: andthen_eq_Inr split: if_splits)
  qed
qed

lemma terminal_read_kframe: "terminal_read A s k t buffer n sz = Inr (r, buffer', s', k') \<Longrightarrow> kframe k k'"
  by (auto simp: terminal_read_def andthen_eq_Inr kframe_refl split: if_splits dest: read_loop_kframe)

section \<open>Requests and runs\<close>

datatype request =
    Open bytes | Close u64 | Read u64 bytes nat | Write u64 bytes | Opendir bytes | Readdir u64 bytes | Closedir u64
  | Exit | Wait_proc u64 | Create_thread | Stop_thread u64 | Join_thread u64 | Get_tod bytes

fun do_request ::
    "sys_env \<Rightarrow> 'a SchedulingAlgorithm \<Rightarrow> 'a System \<Rightarrow> request \<Rightarrow> (outcome \<times> 'a System) result" where
  "do_request env A S (Open path) = sys_open env S path"
| "do_request env A S (Close h) = sys_close S h"
| "do_request env A S (Read h buffer sz) = andthen (sys_read env A S h buffer sz) (\<lambda>(r, _, S). Inr (r, S))"
| "do_request env A S (Write h buffer) = sys_write S h buffer"
| "do_request env A S (Opendir path) = sys_opendir env S path"
| "do_request env A S (Readdir h buffer) = andthen (sys_readdir S h buffer) (\<lambda>(r, _, S). Inr (r, S))"
| "do_request env A S (Closedir h) = sys_closedir S h"
| "do_request env A S Exit = sys_exit A S"
| "do_request env A S (Wait_proc h) = sys_wait_proc A S h"
| "do_request env A S Create_thread = sys_create_thread A S"
| "do_request env A S (Stop_thread h) = sys_stop_thread A S h"
| "do_request env A S (Join_thread h) = sys_join_thread A S h"
| "do_request env A S (Get_tod buffer) = andthen (sys_get_tod S buffer) (\<lambda>(r, _, S). Inr (r, S))"

datatype object_kind = AFile | ADirectory | AProcess | AThread

fun kind_of_object :: "kobject \<Rightarrow> object_kind" where
  "kind_of_object (FileObj _) = AFile"
| "kind_of_object (DirObj _) = ADirectory"
| "kind_of_object (ProcessObj _) = AProcess"
| "kind_of_object (ThreadObj _) = AThread"

text \<open>What a successful request gives out.\<close>

fun handle_in :: "outcome \<Rightarrow> object_kind \<Rightarrow> (object_kind \<times> u64) option" where
  "handle_in (Ret h) kd = (if Ret h = KernelObject_Error then None else Some (kd, h))"
| "handle_in Blocked kd = None"

fun granted :: "request \<Rightarrow> outcome \<Rightarrow> (object_kind \<times> u64) option" where
  "granted (Open _) out = handle_in out AFile"
| "granted (Opendir _) out = handle_in out ADirectory"
| "granted Create_thread out = handle_in out AThread"
| "granted _ out = None"

type_synonym handle_log = "(nat \<times> object_kind \<times> u64) list"

inductive sys_run :: "sys_env \<Rightarrow> 'a SchedulingAlgorithm \<Rightarrow> 'a System \<Rightarrow> handle_log \<Rightarrow> bool" for env A where
  boot: "kernel_ok (sys_kernel S) \<Longrightarrow> sys_om S = ObjectManager_new \<Longrightarrow> sys_run env A S []"
| request: "sys_run env A S log \<Longrightarrow> current_thread S = Inr t \<Longrightarrow> do_request env A S r = Inr (out, S') \<Longrightarrow>
    granted r out = None \<Longrightarrow> sys_run env A S' log"
| grant: "sys_run env A S log \<Longrightarrow> current_thread S = Inr t \<Longrightarrow> do_request env A S r = Inr (out, S') \<Longrightarrow>
    granted r out = Some (kd, h) \<Longrightarrow> sys_run env A S' (log @ [(t, kd, h)])"
| tick: "sys_run env A S log \<Longrightarrow> timer_tick A (sys_kernel S) = Inr k \<Longrightarrow> sys_run env A (S\<lparr>sys_kernel := k\<rparr>) log"
| key: "sys_run env A S log \<Longrightarrow> handle_key_event A (sys_consoles S) (sys_kernel S) c = Inr (cs, k) \<Longrightarrow>
    sys_run env A (S\<lparr>sys_consoles := cs, sys_kernel := k\<rparr>) log"

section \<open>The invariant\<close>

fun object_ok :: "'a System \<Rightarrow> kobject \<Rightarrow> bool" where
  "object_ok S (FileObj f) \<longleftrightarrow> f < length (sys_files S)"
| "object_ok S (DirObj d) \<longleftrightarrow> d < length (sys_dirs S)"
| "object_ok S (ProcessObj p) \<longleftrightarrow> p < length (procs (sys_kernel S))"
| "object_ok S (ThreadObj t) \<longleftrightarrow> t < length (entities (sys_kernel S))"

definition handles :: "handle_log \<Rightarrow> u64 list" where
  "handles log = map (\<lambda>(t, kd, h). h) log"

definition numbered :: "nat \<Rightarrow> u64 list" where
  "numbered n = map of_nat [1..<n + 1]"

definition table_ok :: "'a System \<Rightarrow> handle_log \<Rightarrow> u64 \<Rightarrow> bool" where
  "table_ok S log h \<longleftrightarrow> (case try_get_value (objects (sys_om S)) h of
        None \<Rightarrow> h \<notin> set (handles log)
      | Some d \<Rightarrow> (od_owner d, kind_of_object (od_object d), h) \<in> set log \<and> object_ok S (od_object d))"

definition run_inv :: "'a System \<Rightarrow> handle_log \<Rightarrow> bool" where
  "run_inv S log \<longleftrightarrow> kernel_ok (sys_kernel S) \<and> map_ok (objects (sys_om S)) \<and>
    next_handle (sys_om S) = of_nat (length log + 1) \<and> handles log = numbered (length log) \<and>
    (\<forall>(t, kd, h) \<in> set log. t < length (entities (sys_kernel S))) \<and>
    (\<forall>h. table_ok S log h)"

text \<open>A call that gives out no handle.\<close>

definition quiet :: "'a System \<Rightarrow> 'a System \<Rightarrow> bool" where
  "quiet S S' \<longleftrightarrow> sys_om S' = sys_om S \<and> kext (sys_kernel S) (sys_kernel S') \<and>
    length (sys_files S) \<le> length (sys_files S') \<and> length (sys_dirs S) \<le> length (sys_dirs S')"

lemma kext_refl: "kext k k"
  by (rule kframe_kext [OF kframe_refl])

lemma quiet_refl: "quiet S S"
  by (simp add: quiet_def kext_refl)

lemma quiet_object_ok: "quiet S S' \<Longrightarrow> object_ok S ob \<Longrightarrow> object_ok S' ob"
  by (cases ob) (auto simp: quiet_def kext_def)

lemma quiet_inv:
  assumes q: "quiet S S'" and i: "run_inv S log"
  shows "run_inv S' log"
proof -
  have om: "sys_om S' = sys_om S" and k: "kext (sys_kernel S) (sys_kernel S')"
    using q by (simp_all add: quiet_def)
  have "kernel_ok (sys_kernel S')"
    using kext_ok [OF k] i by (simp add: run_inv_def)
  moreover have "length (entities (sys_kernel S)) \<le> length (entities (sys_kernel S'))"
    using k by (simp add: kext_def)
  moreover have "table_ok S' log h" for h
  proof -
    have "table_ok S log h"
      using i by (simp add: run_inv_def)
    then show ?thesis
      using quiet_object_ok [OF q] om by (simp add: table_ok_def split: option.splits)
  qed
  ultimately show ?thesis
    using i unfolding run_inv_def om by fastforce
qed

lemma unat_small_handle: "n < 2 ^ 64 \<Longrightarrow> unat (of_nat n :: u64) = n"
  by (simp add: unsigned_of_nat take_bit_nat_eq_self)

lemma numbered_Suc: "numbered (Suc n) = numbered n @ [of_nat (n + 1)]"
  by (simp add: numbered_def)

lemma distinct_numbered:
  assumes "n < 2 ^ 64 - 2"
  shows "distinct (numbered n)" and "of_nat (n + 1) \<notin> set (numbered n)"
proof -
  have "inj_on (of_nat :: nat \<Rightarrow> u64) {..n + 1}"
  proof (rule inj_onI)
    fix x y
    assume "x \<in> {..n + 1}" "y \<in> {..n + 1}" and e: "(of_nat x :: u64) = of_nat y"
    then have b: "x < 2 ^ 64" "y < 2 ^ 64"
      using assms by auto
    have "unat (of_nat x :: u64) = unat (of_nat y :: u64)"
      by (rule arg_cong [OF e])
    then show "x = y"
      unfolding unat_small_handle [OF b(1)] unat_small_handle [OF b(2)] .
  qed
  then have i: "inj_on (of_nat :: nat \<Rightarrow> u64) (set [1..<n + 1 + 1])"
    by (rule inj_on_subset) auto
  then have "distinct (numbered (Suc n))"
    unfolding numbered_def distinct_map by simp
  then show "distinct (numbered n)" "of_nat (n + 1) \<notin> set (numbered n)"
    by (simp_all add: numbered_Suc)
qed

lemma register_inv:
  assumes q: "quiet S S1" and i: "run_inv S log" and l: "length log < 2 ^ 64 - 2"
    and r: "sys_register S1 ob = Inr (out, S2)" and t: "current_thread S1 = Inr t" and ob: "object_ok S1 ob"
  shows "out = Ret (of_nat (length log + 1)) \<and> run_inv S2 (log @ [(t, kind_of_object ob, of_nat (length log + 1))])"
proof -
  have i1: "run_inv S1 log"
    by (rule quiet_inv [OF q i])
  let ?h = "of_nat (length log + 1) :: u64" and ?d = "\<lparr>od_owner = t, od_object = ob\<rparr>"
  have h: "next_handle (sys_om S1) = ?h" and ok: "map_ok (objects (sys_om S1))" and k: "kernel_ok (sys_kernel S1)"
    using i1 by (simp_all add: run_inv_def)
  obtain m where m: "Map_add (objects (sys_om S1)) ?h ?d = Inr m" "map_ok m"
    "\<forall>h'. try_get_value m h' = (if h' = ?h then Some ?d else try_get_value (objects (sys_om S1)) h')"
    using rb.add_law [OF ok] by blast
  let ?S2 = "S1\<lparr>sys_om := \<lparr>next_handle = ?h + 1, objects = m\<rparr>\<rparr>"
  have S2: "out = Ret ?h" "S2 = ?S2"
    using r t h m(1) by (auto simp: sys_register_def register_object_def Let_def)
  have tl: "t < length (entities (sys_kernel S1))"
    using t k by (auto simp: current_thread_def kernel_ok_def)
  have hs: "handles (log @ [(t, kind_of_object ob, ?h)]) = numbered (length log) @ [?h]"
    using i1 by (simp add: run_inv_def handles_def)
  have obj: "object_ok (S1\<lparr>sys_om := om\<rparr>) x = object_ok S1 x" for x om
    by (cases x) simp_all
  have "table_ok ?S2 (log @ [(t, kind_of_object ob, ?h)]) h'" for h'
  proof (cases "h' = ?h")
    case True
    then show ?thesis
      using m(3) ob by (simp add: table_ok_def obj)
  next
    case False
    have "table_ok S1 log h'"
      using i1 by (simp add: run_inv_def)
    then show ?thesis
      using False m(3) by (auto simp: table_ok_def handles_def obj split: option.splits)
  qed
  then have "\<forall>h'. table_ok ?S2 (log @ [(t, kind_of_object ob, ?h)]) h'"
    by blast
  moreover have "\<forall>(t', kd, h) \<in> set (log @ [(t, kind_of_object ob, ?h)]). t' < length (entities (sys_kernel ?S2))"
    using i1 tl by (auto simp: run_inv_def)
  ultimately have "run_inv ?S2 (log @ [(t, kind_of_object ob, ?h)])"
    using k m(2) hs unfolding run_inv_def by (simp add: numbered_Suc)
  then show ?thesis
    using S2 by simp
qed

section \<open>The calls\<close>

text \<open>A call that opens something either fails quietly or registers one object.\<close>

definition registers :: "'a System \<Rightarrow> object_kind \<Rightarrow> outcome \<Rightarrow> 'a System \<Rightarrow> bool" where
  "registers S kd out S' \<longleftrightarrow> (\<exists>S1 ob S2. quiet S S1 \<and> current_thread S1 = current_thread S \<and> object_ok S1 ob \<and>
    kind_of_object ob = kd \<and> sys_register S1 ob = Inr (out, S2) \<and> quiet S2 S')"

lemma sys_register_kernel: "sys_register S ob = Inr (out, S') \<Longrightarrow>
    sys_kernel S' = sys_kernel S \<and> sys_files S' = sys_files S \<and> sys_dirs S' = sys_dirs S"
  by (auto simp: sys_register_def andthen_eq_Inr)

lemma sys_open_effect:
  assumes "sys_open env S path = Inr (out, S')"
  shows "out = KernelObject_Error \<and> quiet S S' \<or> registers S AFile out S'"
proof -
  consider v where "out = KernelObject_Error" "S' = S\<lparr>sys_vfs := v\<rparr>"
    | v x where "sys_register (S\<lparr>sys_vfs := v, sys_files := sys_files S @ [x]\<rparr>) (FileObj (length (sys_files S))) = Inr (out, S')"
    using assms by (auto simp: sys_open_def andthen_eq_Inr Let_def split: option.splits)
  then show ?thesis
  proof cases
    case 1
    then show ?thesis
      by (simp add: quiet_def kext_refl)
  next
    case 2
    let ?S1 = "S\<lparr>sys_vfs := v, sys_files := sys_files S @ [x]\<rparr>"
    have "quiet S ?S1" "current_thread ?S1 = current_thread S" "object_ok ?S1 (FileObj (length (sys_files S)))"
      by (simp_all add: quiet_def kext_refl current_thread_def)
    then have "registers S AFile out S'"
      unfolding registers_def using 2 quiet_refl [of S'] kind_of_object.simps(1) by blast
    then show ?thesis ..
  qed
qed

lemma sys_opendir_effect:
  assumes "sys_opendir env S path = Inr (out, S')"
  shows "out = KernelObject_Error \<and> quiet S S' \<or> registers S ADirectory out S'"
proof -
  consider v where "out = KernelObject_Error" "S' = S\<lparr>sys_vfs := v\<rparr>"
    | v x where "sys_register (S\<lparr>sys_vfs := v, sys_dirs := sys_dirs S @ [x]\<rparr>) (DirObj (length (sys_dirs S))) = Inr (out, S')"
    using assms by (auto simp: sys_opendir_def andthen_eq_Inr Let_def split: option.splits)
  then show ?thesis
  proof cases
    case 1
    then show ?thesis
      by (simp add: quiet_def kext_refl)
  next
    case 2
    let ?S1 = "S\<lparr>sys_vfs := v, sys_dirs := sys_dirs S @ [x]\<rparr>"
    have "quiet S ?S1" "current_thread ?S1 = current_thread S" "object_ok ?S1 (DirObj (length (sys_dirs S)))"
      by (simp_all add: quiet_def kext_refl current_thread_def)
    then have "registers S ADirectory out S'"
      unfolding registers_def using 2 quiet_refl [of S'] kind_of_object.simps(2) by blast
    then show ?thesis ..
  qed
qed

lemma quiet_kernel: "kframe (sys_kernel S) k \<Longrightarrow> quiet S (S\<lparr>sys_kernel := k\<rparr>)"
  by (simp add: quiet_def kframe_kext)

lemma sys_create_thread_effect:
  assumes "sys_create_thread A S = Inr (out, S')"
  shows "registers S AThread out S'"
proof -
  obtain cur p t k S2 k' where c: "current_thread S = Inr cur" "create_thread (sys_kernel S) p False = Inr (t, k)"
    "sys_register (S\<lparr>sys_kernel := k\<rparr>) (ThreadObj t) = Inr (out, S2)" "thread_start A (sys_kernel S2) t = Inr k'"
    "S' = S2\<lparr>sys_kernel := k'\<rparr>"
    using assms by (auto simp: sys_create_thread_def andthen_eq_Inr)
  let ?S1 = "S\<lparr>sys_kernel := k\<rparr>"
  have e: "kext (sys_kernel S) k" "t < length (entities k)"
    using create_thread_kext [OF c(2)] by blast+
  have "arch_current k = arch_current (sys_kernel S)"
    using c(2) by (auto simp: create_thread_def andthen_eq_Inr Let_def)
  then have "quiet S ?S1" "current_thread ?S1 = current_thread S" "object_ok ?S1 (ThreadObj t)"
    using e by (simp_all add: quiet_def current_thread_def)
  moreover have "quiet S2 S'"
    unfolding c(5) by (rule quiet_kernel [OF thread_start_kframe [OF c(4)]])
  ultimately show ?thesis
    unfolding registers_def using c(3) kind_of_object.simps(4) by blast
qed

lemma file_read_quiet:
  assumes "file_read env A S f buffer sz = Inr (out, buffer', S')"
  shows "quiet S S'"
proof -
  obtain fl where f: "file_at S f = Inr fl"
    using assms by (auto simp: file_read_def andthen_eq_Inr)
  show ?thesis
  proof (cases fl)
    case (TerminalFile t)
    then obtain r cs k where "terminal_read A (sys_consoles S) (sys_kernel S) t buffer 0 sz = Inr (r, buffer', cs, k)"
      "S' = S\<lparr>sys_consoles := cs, sys_kernel := k\<rparr>"
      using assms f by (auto simp: file_read_def andthen_eq_Inr)
    then show ?thesis
      using kframe_kext [OF terminal_read_kframe [of A "sys_consoles S" "sys_kernel S" t buffer 0 sz r buffer' cs k]]
      by (simp add: quiet_def)
  next
    case RTCFile
    then show ?thesis
      using assms f by (auto simp: file_read_def andthen_eq_Inr quiet_def kext_refl split: prod.splits)
  next
    case (TarFile dv tf)
    then show ?thesis
      using assms f by (auto simp: file_read_def andthen_eq_Inr quiet_def kext_refl)
  qed
qed

lemma file_write_quiet:
  assumes "file_write S f buffer = Inr (out, S')"
  shows "quiet S S'"
proof -
  obtain fl where f: "file_at S f = Inr fl"
    using assms by (auto simp: file_write_def andthen_eq_Inr)
  then show ?thesis
    using assms by (cases fl) (auto simp: file_write_def andthen_eq_Inr quiet_def kext_refl)
qed

lemma wait_pass_quiet: "wait_pass A S ev b = Inr (out, S') \<Longrightarrow> quiet S S'"
  by (auto simp: wait_pass_def andthen_eq_Inr quiet_refl split: if_splits intro: quiet_kernel Event_wait_kframe)

lemma sys_close_quiet: "sys_close S h = Inr (out, S') \<Longrightarrow> S' = S"
  by (auto simp: sys_close_def andthen_eq_Inr split: option.splits)

lemma sys_read_quiet: "sys_read env A S h buffer sz = Inr (out, buffer', S') \<Longrightarrow> quiet S S'"
  by (auto simp: sys_read_def andthen_eq_Inr quiet_refl split: option.splits dest: file_read_quiet)

lemma sys_write_quiet: "sys_write S h buffer = Inr (out, S') \<Longrightarrow> quiet S S'"
  by (auto simp: sys_write_def andthen_eq_Inr quiet_refl split: option.splits dest: file_write_quiet)

lemma sys_closedir_quiet: "sys_closedir S h = Inr (out, S') \<Longrightarrow> quiet S S'"
  by (auto simp: sys_closedir_def andthen_eq_Inr quiet_def kext_refl split: option.splits)

lemma sys_readdir_quiet: "sys_readdir S h buffer = Inr (out, buffer', S') \<Longrightarrow> quiet S S'"
  by (auto simp: sys_readdir_def andthen_eq_Inr quiet_def kext_refl Let_def split: option.splits)

lemma sys_exit_quiet: "sys_exit A S = Inr (out, S') \<Longrightarrow> quiet S S'"
  by (auto simp: sys_exit_def andthen_eq_Inr intro: quiet_kernel terminate_kframe)

lemma sys_wait_proc_quiet: "sys_wait_proc A S h = Inr (out, S') \<Longrightarrow> quiet S S'"
  by (auto simp: sys_wait_proc_def andthen_eq_Inr quiet_refl split: option.splits dest: wait_pass_quiet)

lemma sys_join_thread_quiet: "sys_join_thread A S h = Inr (out, S') \<Longrightarrow> quiet S S'"
  by (auto simp: sys_join_thread_def andthen_eq_Inr quiet_refl split: option.splits dest: wait_pass_quiet)

lemma stop_quiet: "thread_stop A (sys_kernel S) t = Inr (b, k) \<Longrightarrow> quiet S (S\<lparr>sys_kernel := k\<rparr>)"
  by (rule quiet_kernel [OF thread_stop_kframe])

lemma sys_stop_thread_quiet: "sys_stop_thread A S h = Inr (out, S') \<Longrightarrow> quiet S S'"
  by (auto simp: sys_stop_thread_def andthen_eq_Inr quiet_refl split: option.splits if_splits dest: stop_quiet)

lemma sys_get_tod_quiet: "sys_get_tod S buffer = Inr (out, buffer', S') \<Longrightarrow> S' = S"
  by (auto simp: sys_get_tod_def andthen_eq_Inr Let_def)

lemmas quiet_calls = sys_read_quiet sys_write_quiet sys_closedir_quiet sys_readdir_quiet sys_exit_quiet
  sys_wait_proc_quiet sys_join_thread_quiet sys_stop_thread_quiet

lemma do_request_effect:
  assumes "do_request env A S r = Inr (out, S')"
  shows "quiet S S' \<and> granted r out = None \<or> (\<exists>kd. registers S kd out S' \<and> granted r out = handle_in out kd)"
proof (cases r)
  case (Open path)
  then show ?thesis
    using sys_open_effect [of env S path out S'] assms by (auto simp: KernelObject_Error_def)
next
  case (Opendir path)
  then show ?thesis
    using sys_opendir_effect [of env S path out S'] assms by (auto simp: KernelObject_Error_def)
next
  case Create_thread
  then show ?thesis
    using sys_create_thread_effect [of A S out S'] assms by auto
next
  case (Close h)
  then show ?thesis
    using sys_close_quiet [of S h out S'] assms quiet_refl by auto
next
  case (Get_tod buffer)
  then show ?thesis
    using assms quiet_refl by (auto simp: andthen_eq_Inr dest: sys_get_tod_quiet)
qed (use assms in \<open>auto simp: andthen_eq_Inr dest: quiet_calls\<close>)

lemma boot_inv:
  assumes "kernel_ok (sys_kernel S)" and "sys_om S = ObjectManager_new"
  shows "run_inv S []"
proof -
  have "map_ok (map_empty :: (u64, ObjectDescriptor) Map)"
    by (rule rb.ok_empty)
  then show ?thesis
    using assms by (simp add: run_inv_def ObjectManager_new_def table_ok_def handles_def numbered_def rb.get_empty)
qed

lemma handle_not_error:
  assumes "n < 2 ^ 64 - 2"
  shows "(of_nat (n + 1) :: u64) \<noteq> - 1"
proof
  assume e: "(of_nat (n + 1) :: u64) = - 1"
  have "unat (of_nat (n + 1) :: u64) = unat (- 1 :: u64)"
    by (rule arg_cong [OF e])
  moreover have "unat (of_nat (n + 1) :: u64) = n + 1"
    using assms by (intro unat_small_handle) simp
  moreover have "unat (- 1 :: u64) = 2 ^ 64 - 1"
    by (simp add: unsigned_minus_1_eq_mask mask_eq_exp_minus_1)
  ultimately show False
    using assms by linarith
qed

lemma request_inv:
  assumes i: "run_inv S log" and l: "length log < 2 ^ 64 - 2" and t: "current_thread S = Inr t"
    and r: "do_request env A S r = Inr (out, S')"
  shows "case granted r out of None \<Rightarrow> run_inv S' log
    | Some (kd, h) \<Rightarrow> h = of_nat (length log + 1) \<and> run_inv S' (log @ [(t, kd, h)])"
  using do_request_effect [OF r]
proof (elim disjE exE conjE)
  assume "quiet S S'" "granted r out = None"
  then show ?thesis
    using quiet_inv [OF _ i] by simp
next
  fix kd
  assume g: "registers S kd out S'" "granted r out = handle_in out kd"
  obtain S1 ob S2 where s: "quiet S S1" "current_thread S1 = current_thread S" "object_ok S1 ob"
    "kind_of_object ob = kd" "sys_register S1 ob = Inr (out, S2)" "quiet S2 S'"
    using g(1) unfolding registers_def by blast
  have o: "out = Ret (of_nat (length log + 1))" "run_inv S2 (log @ [(t, kd, of_nat (length log + 1))])"
    using register_inv [OF s(1) i l s(5) _ s(3)] t s(2,4) by auto
  have "granted r out = Some (kd, of_nat (length log + 1))"
    using g(2) o(1) handle_not_error [OF l] by (simp add: KernelObject_Error_def)
  then show ?thesis
    using quiet_inv [OF s(6) o(2)] by simp
qed

lemma sys_run_inv: "sys_run env A S log \<Longrightarrow> length log < 2 ^ 64 - 2 \<Longrightarrow> run_inv S log"
proof (induction rule: sys_run.induct)
  case (boot S)
  then show ?case
    by (intro boot_inv)
next
  case (request S log t r out S')
  then show ?case
    using request_inv [of S log t env A r out S'] by simp
next
  case (grant S log t r out S' kd h)
  then show ?case
    using request_inv [of S log t env A r out S'] by auto
next
  case (tick S log k)
  have "quiet S (S\<lparr>sys_kernel := k\<rparr>)"
    by (rule quiet_kernel [OF timer_tick_kframe [OF tick.hyps(2)]])
  then show ?case
    using quiet_inv tick.IH tick.prems by blast
next
  case (key S log c cs k)
  have "quiet S (S\<lparr>sys_consoles := cs, sys_kernel := k\<rparr>)"
    using kframe_kext [OF handle_key_event_kframe [OF key.hyps(2)]] by (simp add: quiet_def)
  then show ?case
    using quiet_inv key.IH key.prems by blast
qed

section \<open>Properties\<close>

lemma handle_lookup:
  assumes i: "run_inv S log" and u: "owner_of (sys_kernel S) u = Inr q"
  shows "(\<exists>ob. get_object_secure (sys_kernel S) (sys_om S) u h = Inr (Some ob) \<and> object_ok S ob \<and>
       (\<exists>t. (t, kind_of_object ob, h) \<in> set log \<and> owner_of (sys_kernel S) t = Inr q)) \<or>
    get_object_secure (sys_kernel S) (sys_om S) u h = Inr None \<and>
      (h \<notin> set (handles log) \<or> (\<exists>t kd p. (t, kd, h) \<in> set log \<and> owner_of (sys_kernel S) t = Inr p \<and> p \<noteq> q))"
proof -
  have tab: "table_ok S log h"
    using i by (simp add: run_inv_def)
  show ?thesis
  proof (cases "try_get_value (objects (sys_om S)) h")
    case None
    then show ?thesis
      using tab by (simp add: get_object_secure_def table_ok_def)
  next
    case (Some d)
    then have d: "(od_owner d, kind_of_object (od_object d), h) \<in> set log" "object_ok S (od_object d)"
      using tab by (simp_all add: table_ok_def)
    have "od_owner d < length (entities (sys_kernel S))" "kernel_ok (sys_kernel S)"
      using i d(1) by (auto simp: run_inv_def)
    then obtain p where p: "owner_of (sys_kernel S) (od_owner d) = Inr p"
      using owner_of_ok by blast
    show ?thesis
      using Some d p u by (cases "p = q") (auto simp: get_object_secure_def)
  qed
qed

text \<open>A handle stands in the log once.\<close>

lemma log_unique:
  assumes "run_inv S log" and "length log < 2 ^ 64 - 2" and "(t, kd, h) \<in> set log" and "(t', kd', h) \<in> set log"
  shows "t = t' \<and> kd = kd'"
proof -
  have "distinct (handles log)"
    using assms(1) distinct_numbered(1) [OF assms(2)] by (simp add: run_inv_def)
  then show ?thesis
    using assms(3,4) unfolding handles_def distinct_map inj_on_def by fastforce
qed


text \<open>A system with one process of two threads and a tmpfs root, in which the first thread opens the root directory.\<close>

definition demo_env :: sys_env where
  "demo_env = \<lparr>env_fs = \<lparr>block_dev = (\<lambda>_. \<lparr>block_size = 512, block_count = 0, read_block = (\<lambda>_. None)\<rparr>), block_class = 0,
       kind_of = (\<lambda>_. OtherDevice), tar_fuel = 1, junk = [], junk_word = 0\<rparr>,
     env_chip = \<lparr>data_port = (\<lambda>_ _. 0), address_port = 0\<rparr>, env_read_fuel = 1\<rparr>"

definition demo_boot :: "nat List System" where
  "demo_boot = \<lparr>
     sys_kernel = \<lparr>active = True, algo = List_new, current = Some 0, idle_entity = 0, arch_current = Some 0,
       entities = replicate 2 \<lparr>ent_state = RUNNABLE, cpu_runtime = 0, exec_start_time = 0\<rparr>, waiters = (\<lambda>_. List_new),
       procs = [\<lparr>terminated = False, kernel_process = False, threads = \<lparr>elems = [0, 1], lcount = 2\<rparr>, main_thread = 0\<rparr>],
       runtime = 0\<rparr>,
     sys_vfs = \<lparr>filesystems = List_new, root_vnode = Some 0,
       vnodes = [\<lparr>vn_parent = None, vn_pn = Some (TempFSNode 0), vn_children = map_empty\<rparr>],
       tmp_nodes = [\<lparr>tmp_name = string_of [], tmp_children = map_empty\<rparr>], tar_nodes = [],
       dev_manager = \<lparr>classes = [], device_heap = [], devices = map_empty\<rparr>\<rparr>,
     sys_consoles = \<lparr>terminals = [], consoles = [], buffers = [], pc_vcs = List_new, pc_current_vc = None,
       pc_alt_pressed = False, video_ram = 0, backup_buffer = None, old_vc = None, kbd_sink = False, port_writes = []\<rparr>,
     sys_om = ObjectManager_new, sys_files = [], sys_dirs = [], sys_rtc = CMOSRTC_new 0 True,
     sys_tod = \<lparr>tod_hours = 0, tod_minutes = 0, tod_seconds = 0, tod_day = 1, tod_month = 1, tod_year = 1970\<rparr>\<rparr>"

definition demo_opened :: "nat List System" where
  "demo_opened = demo_boot\<lparr>sys_dirs := [SimpleDir SimpleDirectory_new],
     sys_om := \<lparr>next_handle = 2, objects = \<lparr>map_root = MapNode BLACK 1 \<lparr>od_owner = 0, od_object = DirObj 0\<rparr> Null Null, map_count = 1\<rparr>\<rparr>\<rparr>"

lemma demo_opens: "sys_opendir demo_env demo_boot [47, 0] = Inr (Ret 1, demo_opened)"
  by (simp add: sys_opendir_def String_cstr_def strlen_def vfs_opendir_def lookup_node_def c_str_def slash_def vnode_at_def
      TempFSDirectory_new_def tmp_at_def SimpleDirectory_new_def sys_register_def current_thread_def register_object_def
      ObjectManager_new_def Map_add_def map_empty_def map_iterate_def demo_boot_def demo_env_def demo_opened_def Let_def)

lemma demo_run: "sys_run demo_env CompletelyFairScheduler demo_opened [(0, ADirectory, 1)]"
proof -
  have "kernel_ok (sys_kernel demo_boot)"
    by (auto simp: kernel_ok_def demo_boot_def less_2_cases_iff)
  then have "sys_run demo_env CompletelyFairScheduler demo_boot []"
    by (rule boot) (simp add: demo_boot_def)
  from grant [OF this, of 0 "Opendir [47, 0]" "Ret 1" demo_opened ADirectory 1] show ?thesis
    using demo_opens by (simp add: KernelObject_Error_def current_thread_def) (simp add: demo_boot_def)
qed

lemma demo_owners: "owner_of (sys_kernel demo_opened) 0 = Inr 0" "owner_of (sys_kernel demo_opened) 1 = Inr 0"
  by (simp_all add: owner_of_def demo_opened_def demo_boot_def)




text \<open>
  (\<open>syscall.cpp\<close>, \<open>sys_create_thread\<close>). The stacks of threads made with handles below 2^19 do not overlap, and each lies in the 4 GiB from
  0x7fff00000000 on; the 32-bit product makes the stacks of two handles that are a multiple of 2^19 apart the same.
\<close>

theorem thread_stacks_apart:
  "(unat h < 2 ^ 19 \<longrightarrow> unat h' < 2 ^ 19 \<longrightarrow> unat h < unat h' \<longrightarrow>
      unat (thread_stack_addr h) + 0x2000 \<le> unat (thread_stack_addr h')) \<and>
   0x7fff00000000 \<le> unat (thread_stack_addr h) \<and> unat (thread_stack_addr h) + 0x2000 \<le> 0x800000000000 \<and>
   thread_stack_addr (h + 2 ^ 19 * n) = thread_stack_addr h"
proof -
  have v: "unat (thread_stack_addr x) = 0x7fff00000000 + 0x2000 * (unat x mod 2 ^ 19)" for x
  proof -
    have "unat (0x2000 * (ucast x :: u32)) = (0x2000 * (unat x mod 2 ^ 32)) mod 2 ^ 32"
      by (simp add: unat_word_ariths unsigned_ucast_eq take_bit_eq_mod)
    also have "\<dots> = 0x2000 * (unat x mod 2 ^ 32 mod 2 ^ 19)"
      using mult_mod_right [of "0x2000" "unat x mod 2 ^ 32" "2 ^ 19 :: nat"] by simp
    also have "unat x mod 2 ^ 32 mod 2 ^ 19 = unat x mod 2 ^ 19"
      by (simp add: mod_mod_cancel)
    finally have p: "unat (0x2000 * (ucast x :: u32)) = 0x2000 * (unat x mod 2 ^ 19)" .
    moreover have "0x2000 * (unat x mod 2 ^ 19) < 2 ^ 32"
      by simp
    ultimately show ?thesis
      unfolding thread_stack_addr_def by (simp add: unat_word_ariths unsigned_ucast_eq take_bit_nat_eq_self)
  qed
  have e: "unat (h + 2 ^ 19 * n) mod 2 ^ 19 = unat h mod 2 ^ 19"
    by (simp add: unat_word_ariths mod_mod_cancel mod_simps)
  have b: "unat h mod 2 ^ 19 < 2 ^ 19"
    by simp
  show ?thesis
    unfolding word_unat_eq_iff v e using b by auto
qed

theorem thread_stacks_apart_witness:
  "unat (thread_stack_addr 3) + 0x2000 \<le> unat (thread_stack_addr 5) \<and> thread_stack_addr 0x80003 = thread_stack_addr 3"
  using thread_stacks_apart [of 3 5 1] by simp

text \<open>
  (\<open>syscall.cpp\<close>, \<open>InvokeSyscall\<close>, \<open>RegisterDefaultSyscalls\<close>). For every number, negative ones and those beyond the table included, a call invokes the function
  registered under it or returns the failure value; with the default table these are the numbers 0 to 16, each with its own function.
\<close>

theorem syscall_dispatch:
  "InvokeSyscall (RegisterDefaultSyscalls SyscallManager_new) call failure nr =
    Inr (if 0 \<le> nr \<and> nr < 17
      then call ([Sys_nop, Sys_yield, Sys_exit, Sys_open, Sys_close, Sys_read, Sys_write, Sys_opendir, Sys_readdir, Sys_closedir,
        Sys_exec, Sys_wait_proc, Sys_create_thread, Sys_stop_thread, Sys_join_thread, Sys_usleep, Sys_get_tod] ! nat nr)
      else failure)"
proof -
  let ?fs = "[Sys_nop, Sys_yield, Sys_exit, Sys_open, Sys_close, Sys_read, Sys_write, Sys_opendir, Sys_readdir, Sys_closedir,
        Sys_exec, Sys_wait_proc, Sys_create_thread, Sys_stop_thread, Sys_join_thread, Sys_usleep, Sys_get_tod]"
  have t: "RegisterDefaultSyscalls SyscallManager_new = map Some ?fs @ replicate 239 None"
    by code_simp
  have "(map Some ?fs @ replicate 239 None) ! nat nr = (if nr < 17 then Some (?fs ! nat nr) else None)" if "0 \<le> nr" "nr < 256"
    using that by (auto simp: nth_append nth_map simp del: nth_Cons_numeral list.map)
  then show ?thesis
    unfolding InvokeSyscall_def t MAX_SYSCALLS_def by (auto simp del: list.map)
qed

text \<open>
  (\<open>syscall.cpp\<close>, \<open>sys_readdir\<close>). A directory entry is delivered as the first 62 characters of its name with a terminator, its size and zero
  flags; nothing behind the 72 bytes of the entry, and nothing between the terminator and the size, is written.
\<close>

theorem readdir_entry:
  assumes "sys_object S h = Inr (Some (DirObj d))" and "d < length (sys_dirs S)"
    and "directory_read_entry (sys_dirs S ! d) = Inr (Some e, dir)" and "0 \<notin> set (chars (fst e))"
    and "string_ok (fst e)" and "72 \<le> length buffer" and "n = min 62 (length (chars (fst e)))"
  shows "sys_readdir S h buffer = Inr (Ret 1,
    take n (chars (fst e)) @ 0 # take (63 - n) (drop (Suc n) buffer) @ u32_bytes (snd e) @ [0, 0, 0, 0] @ drop 72 buffer,
    S\<lparr>sys_dirs := (sys_dirs S)[d := dir]\<rparr>)"
proof -
  let ?cs = "chars (fst e)" and ?b = "take n (chars (fst e)) @ 0 # drop (Suc n) buffer"
  have c: "c_str (string_assign String_empty (fst e)) = Some (?cs @ 0 # [])"
    by (simp add: c_str_def string_assign_def)
  have "strncpy buffer (c_str (string_assign String_empty (fst e))) 63 = Inr (?b, n)"
    unfolding c strncpy_def using strncpy_walk_nul [OF assms(4) refl, of "[]" buffer "[]" 63] assms(6,7) by simp
  moreover have l: "length ?b = length buffer" and n: "n \<le> 62"
    using assms(6,7) by simp_all
  moreover have "andthen (store b 68 (u32_bytes 0)) (\<lambda>b. store b 64 (u32_bytes z)) =
      Inr (take 64 b @ u32_bytes z @ [0, 0, 0, 0] @ drop 72 b)" if "72 \<le> length b" for b z
    using that by (simp add: store_def u32_bytes_def min_def)
  ultimately have "store_entry buffer e = Inr (take 64 ?b @ u32_bytes (snd e) @ [0, 0, 0, 0] @ drop 72 ?b)"
    unfolding store_entry_def using assms(6) by simp
  moreover have "take 64 ?b = take n ?cs @ 0 # take (63 - n) (drop (Suc n) buffer)"
    using n assms(7) by (simp add: take_Cons')
  moreover have "drop 72 ?b = drop 72 buffer"
    using n assms(7) by (simp add: drop_Cons')
  ultimately show ?thesis
    using assms(1-3) by (simp add: sys_readdir_def dir_at_def Let_def)
qed

theorem readdir_entry_witness:
  "\<exists>S'. sys_readdir (demo_opened\<lparr>sys_dirs := [SimpleDir (sd_add_entry SimpleDirectory_new (string_of [97], 5))]\<rparr>) 1 (replicate 72 9) =
     Inr (Ret 1, [97, 0] @ replicate 62 9 @ [5, 0, 0, 0, 0, 0, 0, 0], S')"
proof -
  let ?S = "demo_opened\<lparr>sys_dirs := [SimpleDir (sd_add_entry SimpleDirectory_new (string_of [97], 5))]\<rparr>"
  let ?e = "(String_copy (string_of [97]), 5 :: u32)"
  have o: "sys_object ?S 1 = Inr (Some (DirObj 0))"
    using demo_owners by (simp add: sys_object_def current_thread_def get_object_secure_def try_get_value_def demo_opened_def demo_boot_def)
  obtain dir where r: "directory_read_entry (sys_dirs ?S ! 0) = Inr (Some ?e, dir)"
    by (auto simp: sd_read_entry_def sd_add_entry_def SimpleDirectory_new_def list_append_def List_new_def list_at_def)
  have c: "chars (fst ?e) = [97]" "string_ok (fst ?e)"
    by (simp_all add: String_copy_def string_of_def chars_def string_ok_def)
  have u: "u32_bytes 5 = [5, 0, 0, 0]"
    by code_simp
  show ?thesis
    using readdir_entry [OF o _ r, of "replicate 72 9" 1] c by (simp add: u)
qed

end
