(* ===== verification/Cmdline.thy ===== *)
theory Cmdline
  imports Util_String_Correct
begin

text \<open>
  The kernel's command line (\<open>infos/util/cmdline.cpp\<close>): the line is cut at spaces, each setting is cut at the equals sign, and the function
  registered for the key is called with the value. The arrays \<open>setting\<close>, \<open>key\<close> and \<open>value\<close> are local and have no initial
  contents; their garbage is a parameter. The registrations, which the linker collects, are a list of names (or null) and functions. The
  result lists the calls in their order.
\<close>

section \<open>The parser\<close>

text \<open>The two inner loops of \<open>parse\<close> stop at the terminator, at the first character that is not a space, and at the next space.\<close>

fun skip_spaces :: "bytes \<Rightarrow> bytes result" where
  "skip_spaces [] = Inl OutOfBounds"
| "skip_spaces (c # cs) = (if c \<noteq> 0 \<and> c = 32 then skip_spaces cs else Inr (c # cs))"

fun copy_setting :: "bytes \<Rightarrow> nat \<Rightarrow> bytes \<Rightarrow> (bytes \<times> nat \<times> bytes) result" where
  "copy_setting setting i [] = Inl OutOfBounds"
| "copy_setting setting i (c # cs) =
    (if c \<noteq> 0 \<and> c \<noteq> 32 then andthen (put setting i c) (\<lambda>setting. copy_setting setting (Suc i) cs)
     else Inr (setting, i, c # cs))"

fun copy_key :: "bytes \<Rightarrow> nat \<Rightarrow> bytes \<Rightarrow> (bytes \<times> nat \<times> bytes) result" where
  "copy_key key i [] = Inl OutOfBounds"
| "copy_key key i (c # cs) =
    (if c \<noteq> 0 \<and> c \<noteq> 61 \<and> i < 63 then andthen (put key i c) (\<lambda>key. copy_key key (Suc i) cs)
     else Inr (key, i, c # cs))"

fun copy_value :: "bytes \<Rightarrow> nat \<Rightarrow> bytes \<Rightarrow> (bytes \<times> nat) result" where
  "copy_value val i [] = Inl OutOfBounds"
| "copy_value val i (c # cs) =
    (if c \<noteq> 0 \<and> i < 63 then
       if c = 61 then copy_value val i cs
       else andthen (put val i c) (\<lambda>val. copy_value val (Suc i) cs)
     else Inr (val, i))"

type_synonym 'f registration = "bytes option \<times> 'f"

fun find_registration :: "'f registration list \<Rightarrow> bytes \<Rightarrow> 'f option result" where
  "find_registration [] key = Inr None"
| "find_registration ((None, fn) # rgns) key = find_registration rgns key"
| "find_registration ((Some match, fn) # rgns) key =
    andthen (strncmp (Some match) (Some key) 256) (\<lambda>c.
      if c = 0 then Inr (Some fn) else find_registration rgns key)"

definition process_setting :: "'f registration list \<Rightarrow> bytes \<Rightarrow> bytes \<Rightarrow> ('f \<times> bytes) list result" where
  "process_setting rgns garbage setting =
    andthen (copy_key (take 64 garbage) 0 setting) (\<lambda>(key, i, setting).
    andthen (put key i 0) (\<lambda>key.
    andthen (copy_value (take 64 garbage) 0 setting) (\<lambda>(val, i).
    andthen (put val i 0) (\<lambda>val.
    andthen (find_registration rgns key) (\<lambda>reg. case reg of
        None \<Rightarrow> Inr []
      | Some fn \<Rightarrow> Inr [(fn, val)])))))"

text \<open>Every iteration consumes a character, so one more than the length of the line is enough fuel.\<close>

fun parse_loop :: "nat \<Rightarrow> 'f registration list \<Rightarrow> bytes \<Rightarrow> bytes \<Rightarrow> bytes \<Rightarrow> ('f \<times> bytes) list result" where
  "parse_loop 0 rgns garbage setting cmdline = Inl Diverges"
| "parse_loop (Suc fuel) rgns garbage setting cmdline =
    (case cmdline of
       [] \<Rightarrow> Inl OutOfBounds
     | c # cs \<Rightarrow>
         if c = 0 then Inr []
         else andthen (skip_spaces cmdline) (\<lambda>cmdline.
              andthen (copy_setting setting 0 cmdline) (\<lambda>(setting, i, cmdline).
              andthen (put setting i 0) (\<lambda>setting.
                if i = 0 then Inr []
                else andthen (process_setting rgns garbage setting) (\<lambda>calls.
                     andthen (parse_loop fuel rgns garbage setting cmdline) (\<lambda>rest. Inr (calls @ rest)))))))"

definition cmdline_parse :: "'f registration list \<Rightarrow> bytes \<Rightarrow> bytes \<Rightarrow> ('f \<times> bytes) list result" where
  "cmdline_parse rgns garbage cmdline = parse_loop (Suc (length cmdline)) rgns garbage (take 128 garbage) cmdline"

text \<open>The functions the kernel registers itself (\<open>kernel.cpp\<close>) copy the value into an array of 16 bytes.\<close>

definition boot_setting :: "bytes \<Rightarrow> bytes \<Rightarrow> bytes result" where
  "boot_setting buffer val = andthen (strncpy buffer (Some val) 15) (\<lambda>(buffer, _). Inr buffer)"

section \<open>What is copied\<close>

lemma put_at: "length d1 < length d \<Longrightarrow> d = d1 @ d2 \<Longrightarrow> put d (length d1) c = Inr (d1 @ c # tl d2)"
  by (cases d2) (auto simp: put_append)

lemma copy_setting_word:
  assumes "0 \<notin> set w" and "32 \<notin> set w" and "c = 0 \<or> c = 32" and "length w \<le> length d2"
  shows "copy_setting (d1 @ d2) (length d1) (w @ c # r) = Inr (d1 @ w @ drop (length w) d2, length d1 + length w, c # r)"
  using assms
proof (induction w arbitrary: d1 d2)
  case Nil
  then show ?case by auto
next
  case (Cons x w)
  then obtain y ys where d2: "d2 = y # ys"
    by (cases d2) auto
  have "copy_setting ((d1 @ [x]) @ ys) (length (d1 @ [x])) (w @ c # r) =
      Inr ((d1 @ [x]) @ w @ drop (length w) ys, length (d1 @ [x]) + length w, c # r)"
    using Cons.prems d2 by (intro Cons.IH) auto
  then show ?case
    using Cons.prems d2 by (simp add: put_append)
qed

text \<open>A setting with no room left: the array of 128 bytes is overrun.\<close>

lemma copy_setting_overrun:
  assumes "0 \<notin> set w" and "32 \<notin> set w" and "length d2 < length w"
  shows "copy_setting (d1 @ d2) (length d1) (w @ r) = Inl OutOfBounds"
  using assms
proof (induction w arbitrary: d1 d2)
  case (Cons x w)
  show ?case
  proof (cases d2)
    case Nil
    then show ?thesis
      using Cons.prems by (simp add: put_append)
  next
    case d2: (Cons y ys)
    have "copy_setting ((d1 @ [x]) @ ys) (length (d1 @ [x])) (w @ r) = Inl OutOfBounds"
      using Cons.prems d2 by (intro Cons.IH) auto
    then show ?thesis
      using Cons.prems d2 by (simp add: put_append)
  qed
qed simp

definition key_part :: "bytes \<Rightarrow> bytes" where
  "key_part w = take 63 (takeWhile (\<lambda>c. c \<noteq> 61) w)"

definition value_part :: "bytes \<Rightarrow> bytes" where
  "value_part w = take 63 (filter (\<lambda>c. c \<noteq> 61) (drop (length (key_part w)) w))"

lemma copy_key_word:
  assumes "0 \<notin> set w" and "length d1 + length d2 = 64" and "length d1 \<le> 63"
    and "k = take (63 - length d1) (takeWhile (\<lambda>c. c \<noteq> 61) w)"
  shows "copy_key (d1 @ d2) (length d1) (w @ 0 # r) =
    Inr (d1 @ k @ drop (length k) d2, length d1 + length k, drop (length k) w @ 0 # r)"
  using assms
proof (induction w arbitrary: d1 d2 k)
  case Nil
  then show ?case by simp
next
  case (Cons x w)
  show ?case
  proof (cases "x \<noteq> 61 \<and> length d1 < 63")
    case True
    then obtain y ys where d2: "d2 = y # ys"
      using Cons.prems(2) by (cases d2) auto
    obtain n where n: "63 - length d1 = Suc n" "63 - length (d1 @ [x]) = n"
      using True by (cases "63 - length d1") auto
    let ?k = "take n (takeWhile (\<lambda>c. c \<noteq> 61) w)"
    have "copy_key ((d1 @ [x]) @ ys) (length (d1 @ [x])) (w @ 0 # r) =
      Inr ((d1 @ [x]) @ ?k @ drop (length ?k) ys, length (d1 @ [x]) + length ?k, drop (length ?k) w @ 0 # r)"
      using Cons.prems d2 n True by (intro Cons.IH) auto
    moreover have "k = x # ?k"
      using Cons.prems(4) True n by simp
    ultimately show ?thesis
      using Cons.prems True d2 by (simp add: put_append)
  next
    case False
    then have "k = []"
      using Cons.prems(3,4) by auto
    then show ?thesis
      using False Cons.prems by auto
  qed
qed

lemma copy_value_word:
  assumes "0 \<notin> set w" and "length d1 + length d2 = 64" and "length d1 \<le> 63"
    and "v = take (63 - length d1) (filter (\<lambda>c. c \<noteq> 61) w)"
  shows "copy_value (d1 @ d2) (length d1) (w @ 0 # r) = Inr (d1 @ v @ drop (length v) d2, length d1 + length v)"
  using assms
proof (induction w arbitrary: d1 d2 v)
  case Nil
  then show ?case by simp
next
  case (Cons x w)
  consider "\<not> length d1 < 63" | "length d1 < 63" "x = 61" | "length d1 < 63" "x \<noteq> 61" by blast
  then show ?case
  proof cases
    case 1
    then have "v = []"
      using Cons.prems(4) by simp
    then show ?thesis
      using 1 Cons.prems by simp
  next
    case 2
    then show ?thesis
      using Cons.IH [of d1 d2 v] Cons.prems by auto
  next
    case 3
    then obtain y ys where d2: "d2 = y # ys"
      using Cons.prems(2) by (cases d2) auto
    obtain n where n: "63 - length d1 = Suc n" "63 - length (d1 @ [x]) = n"
      using 3 by (cases "63 - length d1") auto
    let ?v = "take n (filter (\<lambda>c. c \<noteq> 61) w)"
    have "copy_value ((d1 @ [x]) @ ys) (length (d1 @ [x])) (w @ 0 # r) =
      Inr ((d1 @ [x]) @ ?v @ drop (length ?v) ys, length (d1 @ [x]) + length ?v)"
      using Cons.prems d2 n 3 by (intro Cons.IH) auto
    moreover have "v = x # ?v"
      using Cons.prems(4) 3 n by simp
    ultimately show ?thesis
      using Cons.prems 3 d2 by (simp add: put_append)
  qed
qed


section \<open>A setting\<close>

text \<open>What the registrations say: the first one with the name.\<close>

fun registered :: "(bytes option \<times> 'f) list \<Rightarrow> bytes \<Rightarrow> 'f option" where
  "registered [] k = None"
| "registered ((m, f) # names) k = (if m = Some k then Some f else registered names k)"

text \<open>The array the linker lays out.\<close>

definition registrations :: "(bytes option \<times> 'f) list \<Rightarrow> 'f registration list" where
  "registrations names = map (\<lambda>(m, f). (map_option (\<lambda>x. x @ [0]) m, f)) names"

definition proper_names :: "(bytes option \<times> 'f) list \<Rightarrow> bool" where
  "proper_names names = list_all (\<lambda>(m, f). case m of None \<Rightarrow> True | Some x \<Rightarrow> 0 \<notin> set x) names"

lemma strncmp_nul:
  "0 \<notin> set xs \<Longrightarrow> 0 \<notin> set ys \<Longrightarrow> strncmp (Some (xs @ 0 # r)) (Some (ys @ 0 # r')) n =
    Inr (if length xs = length ys \<and> take n xs = take n ys then 0 else - 1)"
  using strncmp_walk_nul [of xs ys r r' n] by (simp add: strncmp_def)

lemma find_registration_registered:
  assumes "proper_names names" and "0 \<notin> set k" and "length k \<le> 63"
  shows "find_registration (registrations names) (k @ 0 # r) = Inr (registered names k)"
  using assms(1)
proof (induction names)
  case Nil
  then show ?case by (simp add: registrations_def)
next
  case (Cons a names)
  obtain m f where a: "a = (m, f)" by (cases a)
  have IH: "find_registration (registrations names) (k @ 0 # r) = Inr (registered names k)"
    using Cons by (simp add: proper_names_def)
  show ?case
  proof (cases m)
    case None
    then show ?thesis using IH a by (simp add: registrations_def)
  next
    case (Some x)
    have x: "0 \<notin> set x"
      using Cons.prems a Some by (simp add: proper_names_def)
    have tk: "take 256 k = k"
      using assms(3) by simp
    have same: "(length x = length k \<and> take 256 x = take 256 k) \<longleftrightarrow> x = k"
    proof
      assume e: "length x = length k \<and> take 256 x = take 256 k"
      then have "take 256 x = x" using assms(3) by (intro take_all) simp
      then show "x = k" using e tk by metis
    qed simp
    show ?thesis
      using strncmp_nul [of x k "[]" r 256] x assms(2) IH a Some same by (simp add: registrations_def)
  qed
qed

lemma put_end_of:
  assumes "length d1 = n" and "n < length (d1 @ d2)"
  shows "put (d1 @ d2) n c = Inr (d1 @ c # tl d2)"
proof -
  have "d2 \<noteq> []" using assms by auto
  then show ?thesis
    unfolding assms(1) [symmetric] put_append by simp
qed

lemma key_part_bounds: "length (key_part w) \<le> 63" "0 \<notin> set w \<Longrightarrow> 0 \<notin> set (key_part w)"
  by (auto simp: key_part_def dest!: in_set_takeD set_takeWhileD)

lemma value_part_bounds: "length (value_part w) \<le> 63" "0 \<notin> set w \<Longrightarrow> 0 \<notin> set (value_part w)"
  by (auto simp: value_part_def dest!: in_set_takeD in_set_dropD)

text \<open>The calls one setting makes: at most one, with the value in an array of 64 bytes.\<close>

definition setting_calls :: "(bytes option \<times> 'f) list \<Rightarrow> bytes \<Rightarrow> bytes \<Rightarrow> ('f \<times> bytes) list" where
  "setting_calls names garbage w =
    (case registered names (key_part w) of
       None \<Rightarrow> []
     | Some f \<Rightarrow> [(f, value_part w @ 0 # drop (Suc (length (value_part w))) (take 64 garbage))])"

lemma process_setting_word:
  assumes "proper_names names" and "0 \<notin> set w" and "64 \<le> length garbage"
  shows "process_setting (registrations names) garbage (w @ 0 # r) = Inr (setting_calls names garbage w)"
proof -
  let ?g = "take 64 garbage"
  let ?k = "key_part w" and ?v = "value_part w"
  have g: "length ?g = 64" using assms(3) by simp
  have key: "copy_key ?g 0 (w @ 0 # r) = Inr (?k @ drop (length ?k) ?g, length ?k, drop (length ?k) w @ 0 # r)"
    using copy_key_word [of w "[]" ?g ?k r] assms(2) g by (simp add: key_part_def)
  have putk: "put (?k @ drop (length ?k) ?g) (length ?k) 0 = Inr (?k @ 0 # tl (drop (length ?k) ?g))"
    using key_part_bounds(1) [of w] g by (intro put_end_of) auto
  have v: "copy_value ?g 0 (drop (length ?k) w @ 0 # r) = Inr (?v @ drop (length ?v) ?g, length ?v)"
    using copy_value_word [of "drop (length ?k) w" "[]" ?g ?v r] assms(2) g
    by (auto simp: value_part_def dest: in_set_dropD)
  have putv: "put (?v @ drop (length ?v) ?g) (length ?v) 0 = Inr (?v @ 0 # tl (drop (length ?v) ?g))"
    using value_part_bounds(1) [of w] g by (intro put_end_of) auto
  have find: "\<And>r'. find_registration (registrations names) (?k @ 0 # r') = Inr (registered names ?k)"
    using assms(1,2) key_part_bounds by (intro find_registration_registered) auto
  show ?thesis
    by (simp add: process_setting_def key putk v putv find setting_calls_def tl_drop drop_Suc split: option.split)
qed

section \<open>The line\<close>

text \<open>The words of a line, as a reference.\<close>

function words_of :: "bytes \<Rightarrow> bytes list" where
  "words_of line =
    (let rest = dropWhile (\<lambda>c. c = 32) line
     in if rest = [] then [] else takeWhile (\<lambda>c. c \<noteq> 32) rest # words_of (dropWhile (\<lambda>c. c \<noteq> 32) rest))"
  by pat_completeness auto

termination
proof (relation "measure length")
  fix line rest :: bytes
  assume r: "rest = dropWhile (\<lambda>c. c = 32) line" and ne: "rest \<noteq> []"
  obtain c cs where c: "rest = c # cs"
    using ne by (cases rest) auto
  have "c \<noteq> 32"
    using hd_dropWhile [of "\<lambda>c. c = 32" line] r c ne by (metis list.sel(1))
  then have "length (dropWhile (\<lambda>c. c \<noteq> 32) rest) \<le> length cs"
    using c length_dropWhile_le [of "\<lambda>c. c \<noteq> 32" cs] by simp
  also have "\<dots> < length line"
    using c r length_dropWhile_le [of "\<lambda>c. c = 32" line] by simp
  finally show "(dropWhile (\<lambda>c. c \<noteq> 32) rest, line) \<in> measure length" by simp
qed simp

declare words_of.simps [simp del]

lemma skip_spaces_line:
  "0 \<notin> set line \<Longrightarrow> skip_spaces (line @ 0 # r) = Inr (dropWhile (\<lambda>c. c = 32) line @ 0 # r)"
  by (induction line) auto


lemma copy_setting_line:
  assumes "0 \<notin> set line" and "length (takeWhile (\<lambda>c. c \<noteq> 32) line) \<le> length d"
  shows "copy_setting d 0 (line @ 0 # r) =
    (let w = takeWhile (\<lambda>c. c \<noteq> 32) line
     in Inr (w @ drop (length w) d, length w, dropWhile (\<lambda>c. c \<noteq> 32) line @ 0 # r))"
proof -
  let ?w = "takeWhile (\<lambda>c. c \<noteq> 32) line" and ?l = "dropWhile (\<lambda>c. c \<noteq> 32) line"
  have w: "0 \<notin> set ?w" "32 \<notin> set ?w"
    using assms(1) by (auto dest: set_takeWhileD)
  obtain c cs where c: "?l @ 0 # r = c # cs" "c = 0 \<or> c = 32"
  proof (cases ?l)
    case Nil
    then show ?thesis using that [of 0 r] by simp
  next
    case (Cons c cs)
    then have "hd ?l = 32"
      using hd_dropWhile [of "\<lambda>c. c \<noteq> 32" line] by simp
    then show ?thesis using that [of c "cs @ 0 # r"] Cons by simp
  qed
  have "copy_setting ([] @ d) (length ([] :: bytes)) (?w @ c # cs) =
      Inr ([] @ ?w @ drop (length ?w) d, length ([] :: bytes) + length ?w, c # cs)"
    by (rule copy_setting_word [OF w c(2) assms(2)])
  moreover have "?w @ c # cs = line @ 0 # r"
    unfolding c(1) [symmetric] append_assoc [symmetric] takeWhile_dropWhile_id ..
  ultimately show ?thesis
    using c(1) by (simp add: Let_def)
qed

lemma copy_setting_line_overrun:
  assumes "0 \<notin> set line" and "length d < length (takeWhile (\<lambda>c. c \<noteq> 32) line)"
  shows "copy_setting d 0 (line @ 0 # r) = Inl OutOfBounds"
proof -
  let ?w = "takeWhile (\<lambda>c. c \<noteq> 32) line" and ?l = "dropWhile (\<lambda>c. c \<noteq> 32) line"
  have w: "0 \<notin> set ?w" "32 \<notin> set ?w"
    using assms(1) by (auto dest: set_takeWhileD)
  have "copy_setting ([] @ d) (length ([] :: bytes)) (?w @ ?l @ 0 # r) = Inl OutOfBounds"
    by (rule copy_setting_overrun [OF w assms(2)])
  moreover have "?w @ ?l @ 0 # r = line @ 0 # r"
    unfolding append_assoc [symmetric] takeWhile_dropWhile_id ..
  ultimately show ?thesis by simp
qed

lemma words_of_step:
  assumes "dropWhile (\<lambda>c. c = 32) line = l" and "l \<noteq> []"
  shows "words_of line = takeWhile (\<lambda>c. c \<noteq> 32) l # words_of (dropWhile (\<lambda>c. c \<noteq> 32) l)"
    and "takeWhile (\<lambda>c. c \<noteq> 32) l \<noteq> []"
    and "length (dropWhile (\<lambda>c. c \<noteq> 32) l) < length line"
proof -
  show "words_of line = takeWhile (\<lambda>c. c \<noteq> 32) l # words_of (dropWhile (\<lambda>c. c \<noteq> 32) l)"
    by (subst words_of.simps) (simp add: assms Let_def)
  obtain c cs where c: "l = c # cs"
    using assms(2) by (cases l) auto
  have h: "c \<noteq> 32"
    using hd_dropWhile [of "\<lambda>c. c = 32" line] assms c by (metis list.sel(1))
  then show "takeWhile (\<lambda>c. c \<noteq> 32) l \<noteq> []"
    using c by simp
  have "length (dropWhile (\<lambda>c. c \<noteq> 32) l) \<le> length cs"
    using c h length_dropWhile_le [of "\<lambda>c. c \<noteq> 32" cs] by simp
  also have "\<dots> < length line"
    using c assms(1) length_dropWhile_le [of "\<lambda>c. c = 32" line] by simp
  finally show "length (dropWhile (\<lambda>c. c \<noteq> 32) l) < length line" .
qed

lemma words_of_blank: "dropWhile (\<lambda>c. c = 32) line = [] \<Longrightarrow> words_of line = []"
  by (subst words_of.simps) (simp add: Let_def)

lemma parse_loop_words:
  assumes "proper_names names" and "64 \<le> length garbage"
  shows "\<lbrakk>length line < fuel; 0 \<notin> set line; length setting = 128\<rbrakk> \<Longrightarrow>
    parse_loop fuel (registrations names) garbage setting (line @ 0 # r) =
      (if \<forall>w\<in>set (words_of line). length w < 128 then Inr (concat (map (setting_calls names garbage) (words_of line)))
       else Inl OutOfBounds)"
proof (induction fuel arbitrary: line setting)
  case (Suc fuel)
  let ?l = "dropWhile (\<lambda>c. c = 32) line"
  let ?w = "takeWhile (\<lambda>c. c \<noteq> 32) ?l" and ?rest = "dropWhile (\<lambda>c. c \<noteq> 32) ?l"
  have l0: "0 \<notin> set ?l"
    using Suc.prems(2) by (auto dest: set_dropWhileD)
  have w0: "0 \<notin> set ?w" and r0: "0 \<notin> set ?rest"
    using l0 by (auto dest: set_takeWhileD set_dropWhileD)
  have skip: "skip_spaces (line @ 0 # r) = Inr (?l @ 0 # r)"
    by (rule skip_spaces_line [OF Suc.prems(2)])
  consider "line = []" | "line \<noteq> []" "?l = []" | "line \<noteq> []" "?l \<noteq> []" by blast
  then show ?case
  proof cases
    case 1
    then show ?thesis using words_of_blank [of line] by simp
  next
    case 2
    then obtain c cs where line: "line = c # cs" by (cases line) auto
    have c: "c \<noteq> 0" using Suc.prems(2) line by auto
    have "copy_setting setting 0 (?l @ 0 # r) = Inr (setting, 0, [0] @ r)"
      unfolding 2(2) by simp
    moreover have "put setting 0 0 = Inr (setting[0 := 0])"
      using Suc.prems(3) by (simp add: put_def)
    ultimately show ?thesis
      using c skip words_of_blank [OF 2(2)] unfolding line by simp
  next
    case 3
    then obtain c cs where line: "line = c # cs" by (cases line) auto
    have c: "c \<noteq> 0" using Suc.prems(2) line by auto
    note ws = words_of_step [OF refl 3(2)]
    have len: "length ?rest < fuel" using ws(3) Suc.prems(1) by simp
    have unf: "parse_loop (Suc fuel) (registrations names) garbage setting (line @ 0 # r) =
        andthen (copy_setting setting 0 (?l @ 0 # r)) (\<lambda>(setting, i, cmdline).
              andthen (put setting i 0) (\<lambda>setting.
                if i = 0 then Inr []
                else andthen (process_setting (registrations names) garbage setting) (\<lambda>calls.
                     andthen (parse_loop fuel (registrations names) garbage setting cmdline) (\<lambda>rest. Inr (calls @ rest)))))"
      using c skip unfolding line by simp
    consider "length ?w < 128" | "length ?w = 128" | "128 < length ?w" by linarith
    then show ?thesis
    proof cases
      case a: 1
      have copy: "copy_setting setting 0 (?l @ 0 # r) = Inr (?w @ drop (length ?w) setting, length ?w, ?rest @ 0 # r)"
        using copy_setting_line [OF l0, of setting r] a Suc.prems(3) by (simp add: Let_def)
      let ?s = "?w @ 0 # tl (drop (length ?w) setting)"
      have p: "put (?w @ drop (length ?w) setting) (length ?w) 0 = Inr ?s"
        using a Suc.prems(3) by (intro put_end_of) auto
      have s: "length ?s = 128" using a Suc.prems(3) by simp
      note IH = Suc.IH [OF len r0 s]
      show ?thesis
        using ws(2) process_setting_word [OF assms(1) w0 assms(2), of "tl (drop (length ?w) setting)"] a
        unfolding unf copy andthen_Inr case_prod_conv p ws(1) IH by simp
    next
      case b: 2
      have copy: "copy_setting setting 0 (?l @ 0 # r) = Inr (?w, length ?w, ?rest @ 0 # r)"
        using copy_setting_line [OF l0, of setting r] b Suc.prems(3) by (simp add: Let_def)
      show ?thesis
        using b unfolding unf copy andthen_Inr case_prod_conv put_end ws(1) by simp
    next
      case c: 3
      have copy: "copy_setting setting 0 (?l @ 0 # r) = Inl OutOfBounds"
        using c Suc.prems(3) by (intro copy_setting_line_overrun [OF l0]) simp
      show ?thesis
        using c unfolding unf copy ws(1) by simp
    qed
  qed
qed simp

text \<open>
  C32 (\<open>cmdline.cpp\<close>, \<open>parse\<close>, \<open>process\<close>, \<open>find_registration\<close>). The parser
  cuts a terminated line at its spaces and calls, word by word and in order, the first function registered for the first
  63 characters before the equals sign, with the 63 first other characters that are not equals signs, terminated; words no
  function is registered for are ignored. It always returns for words of at most 127 characters, and runs past the array
  \<open>setting\<close> for a longer one.
\<close>

theorem cmdline_parse_words:
  assumes "proper_names names" and "0 \<notin> set line" and "128 \<le> length garbage"
  shows "cmdline_parse (registrations names) garbage (line @ 0 # r) =
    (if \<forall>w\<in>set (words_of line). length w < 128 then Inr (concat (map (setting_calls names garbage) (words_of line)))
     else Inl OutOfBounds)"
  unfolding cmdline_parse_def using assms by (intro parse_loop_words) auto

text \<open>The line \<open>a=b c d==e\<close> with the names \<open>a\<close> and \<open>d\<close> registered.\<close>

theorem cmdline_parse_words_witness:
  "\<exists>v1 v2. cmdline_parse (registrations [(None, 0), (Some [97], 1 :: nat), (Some [100], 2)]) (replicate 128 7)
      ([97, 61, 98, 32, 99, 32, 100, 61, 61, 101] @ 0 # []) = Inr [(1, 98 # 0 # v1), (2, 101 # 0 # v2)]"
  by (subst cmdline_parse_words)
    (simp_all add: proper_names_def words_of.simps Let_def setting_calls_def key_part_def value_part_def)

text \<open>
  (\<open>kernel.cpp\<close>, \<open>BootDevice\<close>, \<open>BootFSType\<close>, \<open>InitProgram\<close>). A boot setting keeps the first 14
  characters of the value and its terminator.
\<close>

theorem boot_setting_copies:
  assumes "0 \<notin> set v" and "length buffer = 16"
  shows "boot_setting buffer (v @ 0 # r) =
    (let k = min 14 (length v) in Inr (take k v @ 0 # drop (Suc k) buffer))"
  using strncpy_walk_nul [OF assms(1) refl, of "[]" buffer r 15] assms(2)
  by (simp add: boot_setting_def strncpy_def Let_def)

end
