(* ===== verification/File_Interface.thy ===== *)
theory File_Interface
  imports Tarfs
begin

text \<open>
  The interface of an open file (\<open>infos/include/infos/fs/file.h\<close>) as its clients see it: the operations as a record of
  functions on the file's state, and, as a locale, what a client that loads data relies on. Operations that fill a
  buffer get the buffer and return it.
\<close>

record 'f File_ops =
  f_read :: "'f \<Rightarrow> bytes \<Rightarrow> u64 \<Rightarrow> (u32 \<times> bytes \<times> 'f) result"
  f_pread :: "'f \<Rightarrow> bytes \<Rightarrow> u64 \<Rightarrow> u64 \<Rightarrow> (u32 \<times> bytes) result"
  f_seek :: "'f \<Rightarrow> u64 \<Rightarrow> SeekType \<Rightarrow> 'f result"

text \<open>
  A file with contents: a read inside the contents returns them and changes nothing but the position; a seek inside
  the contents moves there.
\<close>

locale readable_file =
  fixes F :: "'f File_ops" and valid :: "'f \<Rightarrow> bool" and content :: "'f \<Rightarrow> bytes" and pos :: "'f \<Rightarrow> nat"
  assumes content_bound: "valid f \<Longrightarrow> length (content f) < 2 ^ 32"
    and seek_inside: "valid f \<Longrightarrow> off < length (content f) \<Longrightarrow>
      \<exists>f'. f_seek F f (of_nat off) SeekAbsolute = Inr f' \<and> valid f' \<and> content f' = content f \<and> pos f' = off"
    and pread_inside: "valid f \<Longrightarrow> off < length (content f) \<Longrightarrow> off + sz \<le> length (content f) \<Longrightarrow> sz \<le> length buffer \<Longrightarrow>
      f_pread F f buffer (of_nat sz) (of_nat off) = Inr (of_nat sz, take sz (drop off (content f)) @ drop sz buffer)"
    and read_inside: "valid f \<Longrightarrow> pos f < length (content f) \<Longrightarrow> pos f + sz \<le> length (content f) \<Longrightarrow> sz \<le> length buffer \<Longrightarrow>
      \<exists>f'. f_read F f buffer (of_nat sz) = Inr (of_nat sz, take sz (drop (pos f) (content f)) @ drop sz buffer, f') \<and>
        valid f' \<and> content f' = content f"
begin

text \<open>Seeking to a place and reading there.\<close>

lemma seek_read:
  assumes "valid f" and "off < length (content f)" and "off + sz \<le> length (content f)" and "sz \<le> length buffer"
  shows "\<exists>f'. andthen (f_seek F f (of_nat off) SeekAbsolute) (\<lambda>f. f_read F f buffer (of_nat sz)) =
      Inr (of_nat sz, take sz (drop off (content f)) @ drop sz buffer, f') \<and> valid f' \<and> content f' = content f"
proof -
  obtain f1 where f1: "f_seek F f (of_nat off) SeekAbsolute = Inr f1" "valid f1" "content f1 = content f" "pos f1 = off"
    using seek_inside [OF assms(1,2)] by blast
  have "\<exists>f'. f_read F f1 buffer (of_nat sz) = Inr (of_nat sz, take sz (drop (pos f1) (content f1)) @ drop sz buffer, f') \<and>
        valid f' \<and> content f' = content f1"
    using f1 assms by (intro read_inside) simp_all
  then show ?thesis
    using f1 by auto
qed

end

end
