(* ===== verification/Ports.thy ===== *)
theory Ports
  imports Util_String
begin

text \<open>
  The processor's port instructions (\<open>infos/arch/x86/include/arch/x86/pio.h\<close>) and little-endian loads from byte
  arrays. The devices behind the ports are a parameter: a state \<open>'h\<close> that every port access and every wait may change.
\<close>

unbundle bit_operations_syntax

section \<open>Little-endian loads\<close>

text \<open>The fields of a packed structure, read from its bytes.\<close>

definition le16 :: "bytes \<Rightarrow> nat \<Rightarrow> u16" where
  "le16 b i = ucast (b ! i) OR push_bit 8 (ucast (b ! (i + 1)))"

definition le32 :: "bytes \<Rightarrow> nat \<Rightarrow> u32" where
  "le32 b i = ucast (le16 b i) OR push_bit 16 (ucast (le16 b (i + 2)))"

definition le64 :: "bytes \<Rightarrow> nat \<Rightarrow> u64" where
  "le64 b i = ucast (le32 b i) OR push_bit 32 (ucast (le32 b (i + 4)))"

lemma le_bytes:
  "ucast (le32 b i) = b ! i" "ucast (drop_bit 8 (le32 b i)) = b ! (i + 1)" "ucast (drop_bit 16 (le32 b i)) = b ! (i + 2)"
  "ucast (drop_bit 24 (le32 b i)) = b ! (i + 3)"
  by (rule bit_eqI; auto simp: le32_def le16_def bit_simps ac_simps numeral_3_eq_3 dest: bit_imp_le_length)+

section \<open>Port instructions\<close>

text \<open>\<open>io_delay\<close> is what passing time, in nanoseconds, does to the devices.\<close>

record 'h ports =
  io_in8 :: "u16 \<Rightarrow> 'h \<Rightarrow> u8 \<times> 'h"
  io_in16 :: "u16 \<Rightarrow> 'h \<Rightarrow> u16 \<times> 'h"
  io_in32 :: "u16 \<Rightarrow> 'h \<Rightarrow> u32 \<times> 'h"
  io_out8 :: "u16 \<Rightarrow> u8 \<Rightarrow> 'h \<Rightarrow> 'h"
  io_out32 :: "u16 \<Rightarrow> u32 \<Rightarrow> 'h \<Rightarrow> 'h"
  io_delay :: "u64 \<Rightarrow> 'h \<Rightarrow> 'h"

text \<open>The string instructions read a port repeatedly and store what they read in little-endian order.\<close>

primrec insw :: "'h ports \<Rightarrow> u16 \<Rightarrow> nat \<Rightarrow> 'h \<Rightarrow> bytes \<times> 'h" where
  "insw io port 0 h = ([], h)"
| "insw io port (Suc n) h =
    (let (w, h) = io_in16 io port h; (bs, h) = insw io port n h
     in (ucast w # ucast (drop_bit 8 w) # bs, h))"

primrec insl :: "'h ports \<Rightarrow> u16 \<Rightarrow> nat \<Rightarrow> 'h \<Rightarrow> bytes \<times> 'h" where
  "insl io port 0 h = ([], h)"
| "insl io port (Suc n) h =
    (let (w, h) = io_in32 io port h; (bs, h) = insl io port n h
     in (ucast w # ucast (drop_bit 8 w) # ucast (drop_bit 16 w) # ucast (drop_bit 24 w) # bs, h))"

lemma insw_length [simp]: "length (fst (insw io port n h)) = 2 * n"
  by (induction n arbitrary: h) (simp_all add: Let_def split: prod.splits, metis fst_conv)

lemma insl_length [simp]: "length (fst (insl io port n h)) = 4 * n"
  by (induction n arbitrary: h) (simp_all add: Let_def split: prod.splits, metis fst_conv)

text \<open>Storing bytes into an array from an index on.\<close>

definition store_bytes :: "bytes \<Rightarrow> nat \<Rightarrow> bytes \<Rightarrow> bytes result" where
  "store_bytes buffer i bs =
    (if i + length bs \<le> length buffer then Inr (take i buffer @ bs @ drop (i + length bs) buffer)
     else Inl OutOfBounds)"

end
