(* ===== verification/Exec.thy ===== *)
theory Exec
  imports Vma Sched File_Interface Vfs Ports
begin

text \<open>
  Loading a program: the thread objects and their initial contexts (\<open>infos/kernel/thread.cpp\<close>), process construction
  (\<open>infos/kernel/process.cpp\<close>), the ELF loader (\<open>infos/fs/exec/elf-loader.cpp\<close>) and \<open>Kernel::launch_process\<close>
  (\<open>infos/kernel/kernel.cpp\<close>). Memory is that of \<open>Vma\<close>; a thread's saved registers are words in its kernel stack there. The scheduler's view
  of the new process and thread is that of \<open>Sched\<close>. Files are used through \<open>File_Interface\<close>; the contents of local variables and fresh
  arrays before they are read into are a parameter, a function from positions to bytes.
\<close>

unbundle bit_operations_syntax

section \<open>Threads\<close>

text \<open>\<open>ThreadContext\<close> with the entry point, the privilege and \<open>_current_entry_argument\<close>.\<close>

record Thread =
  th_kernel_thread :: bool
  th_entry_point :: u64
  th_entry_argument :: nat
  th_native_context :: u64
  th_kernel_stack :: u64

definition KERNEL_STACK_ORDER :: int where "KERNEL_STACK_ORDER = 1"

definition KERNEL_STACK_SIZE :: u64 where
  "KERNEL_STACK_SIZE = push_bit (nat KERNEL_STACK_ORDER) 1 * 0x1000"

text \<open>The byte offsets of the fields of \<open>X86Context\<close> that the kernel sets.\<close>

definition ctx_rdi :: u64 where "ctx_rdi = 80"
definition ctx_rsi :: u64 where "ctx_rsi = 88"
definition ctx_rdx :: u64 where "ctx_rdx = 96"
definition ctx_rcx :: u64 where "ctx_rcx = 104"
definition ctx_rip :: u64 where "ctx_rip = 136"
definition ctx_cs :: u64 where "ctx_cs = 144"
definition ctx_rflags :: u64 where "ctx_rflags = 152"
definition ctx_rsp :: u64 where "ctx_rsp = 160"
definition ctx_ss :: u64 where "ctx_ss = 168"

definition store_word :: "(nat \<Rightarrow> u64) \<Rightarrow> u64 \<Rightarrow> u64 \<Rightarrow> nat \<Rightarrow> u64" where
  "store_word m va w = m(entry_at va 0 := w)"

definition load_word :: "(nat \<Rightarrow> u64) \<Rightarrow> u64 \<Rightarrow> u64" where
  "load_word m va = m (entry_at va 0)"

text \<open>\<open>*--stack = w\<close>, for each word in turn.\<close>

primrec push_words :: "u64 list \<Rightarrow> u64 \<Rightarrow> (nat \<Rightarrow> u64) \<Rightarrow> u64 \<times> (nat \<Rightarrow> u64)" where
  "push_words [] stack m = (stack, m)"
| "push_words (w # ws) stack m = push_words ws (stack - 8) (store_word m (stack - 8) w)"

definition initial_frame :: "bool \<Rightarrow> u64 \<Rightarrow> u64 list" where
  "initial_frame kernel_thread entry_point =
    [if kernel_thread then 0x10 else 0x23, 0, 0x202, if kernel_thread then 0x8 else 0x1b, entry_point, 0] @ replicate 16 0"

definition prepare_initial_stack :: "Thread \<Rightarrow> (nat \<Rightarrow> u64) \<Rightarrow> Thread \<times> (nat \<Rightarrow> u64)" where
  "prepare_initial_stack t m =
    (case push_words (initial_frame (th_kernel_thread t) (th_entry_point t)) (th_kernel_stack t) m of (stack, m) \<Rightarrow>
       (t\<lparr>th_native_context := stack\<rparr>, store_word m (stack + ctx_rsp) (th_kernel_stack t)))"

definition Thread_new ::
    "'a PageAllocatorAlgorithm \<Rightarrow> 'a vma \<Rightarrow> bool \<Rightarrow> u64 \<Rightarrow> (Thread \<times> 'a vma) result" where
  "Thread_new A vm kernel_thread entry_point =
    andthen (allocate_phys A vm KERNEL_STACK_ORDER) (\<lambda>(pgd, vm).
    andthen (pgd_to_vpa pgd) (\<lambda>va.
      case prepare_initial_stack \<lparr>th_kernel_thread = kernel_thread, th_entry_point = entry_point, th_entry_argument = 0,
          th_native_context = 0, th_kernel_stack = va + KERNEL_STACK_SIZE\<rparr> (mem vm) of (t, m) \<Rightarrow>
        Inr (t, vm\<lparr>mem := m\<rparr>)))"

definition add_entry_argument :: "Thread \<Rightarrow> (nat \<Rightarrow> u64) \<Rightarrow> u64 \<Rightarrow> Thread \<times> (nat \<Rightarrow> u64)" where
  "add_entry_argument t m arg =
    (let c = th_native_context t; next = t\<lparr>th_entry_argument := th_entry_argument t + 1\<rparr>
     in if th_entry_argument t = 0 then (next, store_word m (c + ctx_rdi) arg)
        else if th_entry_argument t = 1 then (next, store_word m (c + ctx_rsi) arg)
        else if th_entry_argument t = 2 then (next, store_word m (c + ctx_rdx) arg)
        else if th_entry_argument t = 3 then (next, store_word m (c + ctx_rcx) arg)
        else (t, m))"

text \<open>\<open>__align_up_page\<close>, and the page count of a size as the \<open>int\<close> the callee takes.\<close>

definition align_up_page :: "u64 \<Rightarrow> u64" where
  "align_up_page n = n + (if n mod 0x1000 = 0 then 0 else 0x1000 - n mod 0x1000)"

definition page_count :: "u64 \<Rightarrow> int" where
  "page_count n = sint (ucast (drop_bit 12 (align_up_page n)) :: u32)"

definition allocate_user_stack ::
    "'a PageAllocatorAlgorithm \<Rightarrow> 'a vma \<Rightarrow> Thread \<Rightarrow> u64 \<Rightarrow> u64 \<Rightarrow> 'a vma result" where
  "allocate_user_stack A vm t vaddr sz =
    andthen (allocate_virt A vm vaddr (page_count sz)) (\<lambda>(_, vm).
      Inr (vm\<lparr>mem := store_word (mem vm) (th_native_context t + ctx_rsp) (vaddr + sz)\<rparr>))"

section \<open>Processes\<close>

text \<open>
  A process in memory: its number in the scheduler, its VMA, and its main thread. \<open>template\<close> is the boot page table.
\<close>

record 'a Image =
  im_pid :: nat
  im_vma :: "'a vma"
  im_main :: Thread

definition Process_new ::
    "'a PageAllocatorAlgorithm \<Rightarrow> (nat \<Rightarrow> u64) option \<Rightarrow> 'a PageAllocator \<Rightarrow> (nat \<Rightarrow> u64) \<Rightarrow> 's kernel \<Rightarrow> bool \<Rightarrow> u64 \<Rightarrow>
      ('a Image \<times> 's kernel) result" where
  "Process_new A template pa m k kproc entry =
    andthen (VMA_new A pa m) (\<lambda>vm.
    andthen (install_default_kernel_mapping template vm) (\<lambda>vm.
    andthen (create_process k kproc) (\<lambda>(p, k).
    andthen (Thread_new A vm kproc entry) (\<lambda>(t, vm).
      Inr (\<lparr>im_pid = p, im_vma = vm, im_main = t\<rparr>, k)))))"

text \<open>The destructor: every thread must be stopped. The VMA's releases nothing.\<close>

definition Process_delete :: "'s kernel \<Rightarrow> nat \<Rightarrow> unit result" where
  "Process_delete k p =
    check (\<forall>t\<in>set (elems (threads (procs k ! p))). ent_state (entities k ! t) = STOPPED) AssertFail"

section \<open>ELF\<close>

definition MAGIC_NUMBER :: u32 where "MAGIC_NUMBER = 0x464c457f"

text \<open>The fields of \<open>ELF64Header\<close> the loader reads, of its 64 bytes.\<close>

record ELF64Header =
  magic_number :: u32
  eclass :: u8
  edata :: u8
  e_type :: u16
  machine :: u16
  e_version :: u32
  entry_point :: u64
  phoff :: u64
  phentsize :: u16
  phnum :: u16

definition elf_header :: "bytes \<Rightarrow> ELF64Header" where
  "elf_header b =
    \<lparr>magic_number = le32 b 0, eclass = b ! 4, edata = b ! 5, e_type = le16 b 16, machine = le16 b 18, e_version = le32 b 20,
     entry_point = le64 b 24, phoff = le64 b 32, phentsize = le16 b 54, phnum = le16 b 56\<rparr>"

text \<open>\<open>ELF64ProgramHeaderEntry\<close>, 56 bytes.\<close>

record ELF64ProgramHeaderEntry =
  p_type :: u32
  p_offset :: u64
  p_vaddr :: u64
  p_filesz :: u64
  p_memsz :: u64

definition program_header :: "bytes \<Rightarrow> ELF64ProgramHeaderEntry" where
  "program_header b =
    \<lparr>p_type = le32 b 0, p_offset = le64 b 8, p_vaddr = le64 b 16, p_filesz = le64 b 32, p_memsz = le64 b 40\<rparr>"

text \<open>The checks of \<open>load\<close>, in their order.\<close>

definition header_accepted :: "ELF64Header \<Rightarrow> bool" where
  "header_accepted eh \<longleftrightarrow>
    magic_number eh = MAGIC_NUMBER \<and> eclass eh = 2 \<and> edata eh = 1 \<and> e_type eh = 2 \<and> machine eh = 0x3e \<and>
    e_version eh = 1"

definition fresh :: "(nat \<Rightarrow> u8) \<Rightarrow> u64 \<Rightarrow> bytes" where
  "fresh garbage n = map garbage [0..<unat n]"

definition load_segment ::
    "'f File_ops \<Rightarrow> 'a PageAllocatorAlgorithm \<Rightarrow> (nat \<Rightarrow> u8) \<Rightarrow> 'f \<Rightarrow> ELF64ProgramHeaderEntry \<Rightarrow> 'a vma \<Rightarrow>
      'a vma result" where
  "load_segment F A garbage f ent vm =
    andthen (is_mapped vm (p_vaddr ent)) (\<lambda>mapped.
    andthen (if \<not> mapped then andthen (allocate_virt A vm (p_vaddr ent) (page_count (p_memsz ent))) (\<lambda>(_, vm). Inr vm)
             else Inr vm) (\<lambda>vm.
    andthen (f_pread F f (fresh garbage (p_filesz ent)) (p_filesz ent) (p_offset ent)) (\<lambda>(_, buffer).
    andthen (copy_to vm (p_vaddr ent) buffer) (\<lambda>(_, vm). Inr vm))))"

text \<open>The loop over the program headers; \<open>None\<close> is the return of a null pointer.\<close>

primrec load_headers ::
    "'f File_ops \<Rightarrow> 'a PageAllocatorAlgorithm \<Rightarrow> (nat \<Rightarrow> u8) \<Rightarrow> 'f \<Rightarrow> ELF64Header \<Rightarrow> nat \<Rightarrow> nat \<Rightarrow> 'a vma \<Rightarrow>
      (bool \<times> 'a vma) result" where
  "load_headers F A garbage f eh 0 i vm = Inr (True, vm)"
| "load_headers F A garbage f eh (Suc n) i vm =
    (let off = phoff eh + ucast (of_nat i * ucast (phentsize eh) :: u32)
     in andthen (f_pread F f (fresh garbage 56) 56 off) (\<lambda>(bytes, b).
          if sint bytes \<noteq> 56 then Inr (False, vm)
          else let ent = program_header b
               in andthen (if p_type ent = 1 then load_segment F A garbage f ent vm else Inr vm) (\<lambda>vm.
                    load_headers F A garbage f eh n (Suc i) vm)))"

text \<open>What \<open>load\<close> leaves: the process or none, the scheduler, and the memory and pages of the VMA that was built.\<close>

record ('a, 's) Loaded =
  ld_process :: "'a Image option"
  ld_kernel :: "'s kernel"
  ld_pages :: "'a PageAllocator"
  ld_mem :: "nat \<Rightarrow> u64"

definition entry_arguments ::
    "'a PageAllocatorAlgorithm \<Rightarrow> String \<Rightarrow> 'a Image \<Rightarrow> (bool \<times> 'a Image) result" where
  "entry_arguments A cmdline im =
    (if string_length cmdline > 0 then
       andthen (allocate_virt A (im_vma im) 0x102000 1) (\<lambda>(_, vm).
       andthen (copy_to vm 0x102000 (chars cmdline)) (\<lambda>(ok, vm).
         if \<not> ok then Inr (False, im\<lparr>im_vma := vm\<rparr>)
         else case add_entry_argument (im_main im) (mem vm) 0x102000 of (t, m) \<Rightarrow>
           Inr (True, im\<lparr>im_vma := vm\<lparr>mem := m\<rparr>, im_main := t\<rparr>)))
     else case add_entry_argument (im_main im) (mem (im_vma im)) 0 of (t, m) \<Rightarrow>
       Inr (True, im\<lparr>im_vma := (im_vma im)\<lparr>mem := m\<rparr>, im_main := t\<rparr>))"


definition ElfLoader_load ::
    "'f File_ops \<Rightarrow> 'a PageAllocatorAlgorithm \<Rightarrow> (nat \<Rightarrow> u64) option \<Rightarrow> (nat \<Rightarrow> u8) \<Rightarrow> 'f \<Rightarrow> String \<Rightarrow>
      'a PageAllocator \<Rightarrow> (nat \<Rightarrow> u64) \<Rightarrow> 's kernel \<Rightarrow> ('a, 's) Loaded result" where
  "ElfLoader_load F A template garbage f cmdline pa m k =
    andthen (f_seek F f 0 SeekAbsolute) (\<lambda>f.
    andthen (f_read F f (fresh garbage 64) 64) (\<lambda>(bytes, b, f).
      let eh = elf_header b
      in if sint bytes \<noteq> 64 \<or> \<not> header_accepted eh
         then Inr \<lparr>ld_process = None, ld_kernel = k, ld_pages = pa, ld_mem = m\<rparr>
         else
           andthen (Process_new A template pa m k False (entry_point eh)) (\<lambda>(im, k).
           andthen (load_headers F A garbage f eh (unat (phnum eh)) 0 (im_vma im)) (\<lambda>(ok, vm).
             if \<not> ok
             then andthen (Process_delete k (im_pid im)) (\<lambda>_.
                    Inr \<lparr>ld_process = None, ld_kernel = k, ld_pages = pgalloc vm, ld_mem = mem vm\<rparr>)
             else
               andthen (allocate_user_stack A vm (im_main im) 0x100000 0x2000) (\<lambda>vm.
               andthen (entry_arguments A cmdline (im\<lparr>im_vma := vm\<rparr>)) (\<lambda>(ok, im).
                 Inr \<lparr>ld_process = (if ok then Some im else None), ld_kernel = k,
                      ld_pages = pgalloc (im_vma im), ld_mem = mem (im_vma im)\<rparr>))))))"

text \<open>\<open>launch_process\<close>: \<open>img\<close> is what opening the path gave. The flag of the result is whether a process was started.\<close>

definition launch_process ::
    "'s SchedulingAlgorithm \<Rightarrow> 'f File_ops \<Rightarrow> 'a PageAllocatorAlgorithm \<Rightarrow> (nat \<Rightarrow> u64) option \<Rightarrow> (nat \<Rightarrow> u8) \<Rightarrow>
      'f option \<Rightarrow> String \<Rightarrow> 'a PageAllocator \<Rightarrow> (nat \<Rightarrow> u64) \<Rightarrow> 's kernel \<Rightarrow> ('a, 's) Loaded result" where
  "launch_process S F A template garbage img cmdline pa m k =
    (case img of
       None \<Rightarrow> Inr \<lparr>ld_process = None, ld_kernel = k, ld_pages = pa, ld_mem = m\<rparr>
     | Some f \<Rightarrow>
         andthen (f_read F f (fresh garbage 16) 16) (\<lambda>(_, eh, f).
           if eh ! 0 = 0x7f \<and> eh ! 1 = 69 \<and> eh ! 2 = 76 \<and> eh ! 3 = 70
           then andthen (ElfLoader_load F A template garbage f cmdline pa m k) (\<lambda>l.
                  case ld_process l of
                    None \<Rightarrow> Inr l
                  | Some np \<Rightarrow> andthen (process_start S (ld_kernel l) (im_pid np)) (\<lambda>k. Inr (l\<lparr>ld_kernel := k\<rparr>)))
           else Inr \<lparr>ld_process = None, ld_kernel = k, ld_pages = pa, ld_mem = m\<rparr>))"

end
