(* ===== verification/Internal_Driver.thy ===== *)
theory Internal_Driver
  imports File_Interface
begin

text \<open>
  The kernel's own TAR driver (\<open>infos/fs/internal-driver.cpp\<close>), whose names the source scrambles with macros. The header and the
  code that builds the tree are those of \<open>Tarfs\<close> under other names; its file class is not: \<open>ZZz\<close> reads each device block
  into an array of its own. As in \<open>Tarfs\<close> the block device is a parameter, and so are the contents of fresh arrays.
\<close>

section \<open>The tree\<close>

definition zmfj :: "bytes \<Rightarrow> u32 result" where
  "zmfj pza = octal2ui pza"

definition Zzza :: "nat \<Rightarrow> tarfs_heap \<Rightarrow> nat \<Rightarrow> bytes \<Rightarrow> u32 \<Rightarrow> tarfs_heap result" where
  "Zzza fuel fs ccc ccC cCc = BuildTreeRecursive fuel fs ccc ccC cCc"

definition ZzzA :: "nat \<Rightarrow> block_device \<Rightarrow> bytes \<Rightarrow> tarfs_heap \<Rightarrow> (ptr \<times> tarfs_heap) result" where
  "ZzzA fuel dev garbage fs = build_tree fuel dev garbage fs"

section \<open>Files\<close>

text \<open>\<open>xxc\<close> is the header block, \<open>xXc\<close> the first block of the contents, \<open>Xxc\<close> the position and \<open>XXc\<close> the size.\<close>

record ZZz =
  xxc :: bytes
  xXc :: u32
  Xxc :: u32
  XXc :: u32

definition ZZz_new :: "block_device \<Rightarrow> bytes \<Rightarrow> u32 \<Rightarrow> ZZz result" where
  "ZZz_new dev garbage ddD =
    andthen (read_blocks dev (take (block_size dev) garbage) (unat ddD)) (\<lambda>(_, h).
    andthen (zmfj (hdr_size h)) (\<lambda>n.
      Inr \<lparr>xxc = h, xXc = ddD + 1, Xxc = (if n = 0 then - 1 else 0), XXc = n\<rparr>))"

text \<open>
  The loop of \<open>pread\<close>: \<open>kNn\<close>, \<open>kNN\<close> and \<open>kkk\<close> are unsigned 32-bit numbers, the arguments of \<open>__min\<close> are converted to 64 bits. The fuel
  bounds the iterations.
\<close>

fun ZZz_loop ::
    "nat \<Rightarrow> block_device \<Rightarrow> u32 \<Rightarrow> bytes \<Rightarrow> bytes \<Rightarrow> u64 \<Rightarrow> u64 \<Rightarrow> u32 \<Rightarrow> (u32 \<times> bytes) result" where
  "ZZz_loop 0 dev start buffer Kkk KKK KvK kkk = Inl Diverges"
| "ZZz_loop (Suc fuel) dev start buffer Kkk KKK KvK kkk =
    (if \<not> ucast kkk < KKK then Inr (kkk, buffer)
     else
       let kKk = of_nat (block_size dev) :: u64
       in andthen (check (kKk \<noteq> 0) Undefined) (\<lambda>_.
          let kNn = ucast (KvK div kKk) :: u32;
              kNN = ucast (KvK mod kKk) :: u32
          in andthen (read_blocks dev Kkk (unat (start + kNn))) (\<lambda>(ok, Kkk).
            if \<not> ok then Inr (kkk, buffer)
            else
              let KKq = min64 (ucast (512 - kNN)) (KKK - ucast kkk)
              in andthen (memcpy_at buffer (unat kkk) Kkk (unat kNN) (unat KKq)) (\<lambda>buffer.
                   ZZz_loop fuel dev start buffer Kkk KKK (KvK + KKq) (kkk + ucast KKq)))))"

declare ZZz_loop.simps(2) [simp del]

definition ZZz_pread ::
    "nat \<Rightarrow> block_device \<Rightarrow> ZZz \<Rightarrow> bytes \<Rightarrow> bytes \<Rightarrow> u64 \<Rightarrow> u64 \<Rightarrow> (u32 \<times> bytes) result" where
  "ZZz_pread fuel dev f buffer garbage KKK KvK =
    (if KvK \<ge> ucast (XXc f) then Inr (0, buffer)
     else ZZz_loop fuel dev (xXc f) buffer (take (block_size dev) garbage) KKK KvK 0)"

definition ZZz_read ::
    "nat \<Rightarrow> block_device \<Rightarrow> ZZz \<Rightarrow> bytes \<Rightarrow> bytes \<Rightarrow> u64 \<Rightarrow> (u32 \<times> bytes \<times> ZZz) result" where
  "ZZz_read fuel dev f buffer garbage opp =
    andthen (ZZz_pread fuel dev f buffer garbage opp (ucast (Xxc f))) (\<lambda>(ijy, buffer).
      Inr (ijy, buffer, f\<lparr>Xxc := Xxc f + ijy\<rparr>))"

definition ZZz_seek :: "ZZz \<Rightarrow> u64 \<Rightarrow> SeekType \<Rightarrow> ZZz" where
  "ZZz_seek f a b =
    (let f = (case b of
           SeekAbsolute \<Rightarrow> f\<lparr>Xxc := ucast a\<rparr>
         | SeekRelative \<Rightarrow> f\<lparr>Xxc := Xxc f + ucast a\<rparr>)
     in if Xxc f \<ge> XXc f then f\<lparr>Xxc := XXc f - 1\<rparr> else f)"

definition ZZz_open :: "block_device \<Rightarrow> bytes \<Rightarrow> tarfs_heap \<Rightarrow> nat \<Rightarrow> ZZz option result" where
  "ZZz_open dev garbage fs p =
    andthen (node_at fs p) (\<lambda>n.
      if \<not> tn_has_block_offset n then Inr None
      else andthen (ZZz_new dev garbage (tn_block_offset n)) (\<lambda>f. Inr (Some f)))"

section \<open>What a read returns\<close>

text \<open>A device with blocks of 512 bytes, read as one array of bytes.\<close>

definition sector_device :: "block_device \<Rightarrow> bool" where
  "sector_device dev \<longleftrightarrow> block_size dev = 512 \<and>
     (\<forall>b d. read_block dev b = Some d \<longrightarrow> length d = 512)"

definition readable :: "block_device \<Rightarrow> nat \<Rightarrow> nat \<Rightarrow> bool" where
  "readable dev a n \<longleftrightarrow> (\<forall>i < n. read_block dev ((a + i) div 512) \<noteq> None)"

definition device_byte :: "block_device \<Rightarrow> nat \<Rightarrow> u8" where
  "device_byte dev a = (case read_block dev (a div 512) of None \<Rightarrow> 0 | Some d \<Rightarrow> d ! (a mod 512))"

definition device_bytes :: "block_device \<Rightarrow> nat \<Rightarrow> nat \<Rightarrow> bytes" where
  "device_bytes dev a n = map (\<lambda>i. device_byte dev (a + i)) [0..<n]"

lemma length_device_bytes [simp]: "length (device_bytes dev a n) = n"
  by (simp add: device_bytes_def)

lemma device_bytes_append:
  "device_bytes dev a (m + n) = device_bytes dev a m @ device_bytes dev (a + m) n"
  by (rule nth_equalityI) (auto simp: device_bytes_def nth_append add.assoc)

lemma device_bytes_block:
  assumes "read_block dev (a div 512) = Some d" and "length d = 512" and "a mod 512 + n \<le> 512"
  shows "take n (drop (a mod 512) d) = device_bytes dev a n"
proof (rule nth_equalityI)
  show "length (take n (drop (a mod 512) d)) = length (device_bytes dev a n)"
    using assms(2,3) by simp
next
  fix i
  assume "i < length (take n (drop (a mod 512) d))"
  then have i: "i < n" by simp
  have e: "a + i = (a mod 512 + i) + 512 * (a div 512)"
    by simp
  have l: "a mod 512 + i < 512"
    using i assms(3) by simp
  have "(a + i) div 512 = a div 512" "(a + i) mod 512 = a mod 512 + i"
    unfolding e div_mult_self2 [OF zero_neq_numeral [symmetric]] mod_mult_self2 using l by simp_all
  then show "take n (drop (a mod 512) d) ! i = device_bytes dev a n ! i"
    using i assms by (simp add: device_bytes_def device_byte_def)
qed

lemma readable_split: "readable dev a (m + n) \<longleftrightarrow> readable dev a m \<and> readable dev (a + m) n"
proof (intro iffI conjI)
  assume *: "readable dev a m \<and> readable dev (a + m) n"
  show "readable dev a (m + n)"
    unfolding readable_def
  proof (intro allI impI)
    fix i assume i: "i < m + n"
    show "read_block dev ((a + i) div 512) \<noteq> None"
    proof (cases "i < m")
      case True
      then show ?thesis using * by (simp add: readable_def)
    next
      case False
      then have "i - m < n" "a + i = a + m + (i - m)" using i by simp_all
      then show ?thesis using * unfolding readable_def by metis
    qed
  qed
qed (simp_all add: readable_def, metis add.assoc add_less_cancel_left)

lemma u32_u64: "unat (ucast (x :: u32) :: u64) = unat x"
proof -
  have "unat x < 2 ^ 64"
    using unsigned_less [of x, where 'a = nat] by simp
  then show ?thesis
    by (simp add: unsigned_ucast_eq take_bit_nat_eq_self)
qed

text \<open>
  One run of the loop: what is still wanted is read from the device bytes at the offset, whatever the first buffer holds.
\<close>

lemma ZZz_loop_reads:
  assumes dev: "sector_device dev"
  shows "\<lbrakk>sz < 2 ^ 32; k + n = sz; unat start * 512 + off + n < 2 ^ 41; n < fuel; length Kkk = 512;
      length buffer \<ge> sz; readable dev (unat start * 512 + off) n\<rbrakk> \<Longrightarrow>
    ZZz_loop fuel dev start buffer Kkk (of_nat sz) (of_nat off) (of_nat k) =
      Inr (of_nat sz, take k buffer @ device_bytes dev (unat start * 512 + off) n @ drop sz buffer)"
proof (induction fuel arbitrary: k n off buffer Kkk)
  case (Suc fuel)
  let ?a = "unat start * 512 + off"
  have u: "unat (of_nat k :: u32) = k" "unat (of_nat sz :: u64) = sz" "unat (of_nat off :: u64) = off"
    using Suc.prems(1-3) by (auto simp: unsigned_of_nat take_bit_nat_eq_self)
  have uk: "unat (ucast (of_nat k :: u32) :: u64) = k"
    using Suc.prems(1,2) by (simp add: unsigned_ucast_eq unsigned_of_nat take_bit_nat_eq_self)
  have bs: "block_size dev = 512" using dev by (simp add: sector_device_def)
  show ?case
  proof (cases "n = 0")
    case True
    then show ?thesis
      using Suc.prems(2) u uk by (subst ZZz_loop.simps) (simp add: word_less_nat_alt device_bytes_def)
  next
    case False
    have lt: "ucast (of_nat k :: u32) < (of_nat sz :: u64)"
      unfolding word_less_nat_alt uk u(2) using Suc.prems(2) False by simp
    obtain d where d: "read_block dev (?a div 512) = Some d" "length d = 512"
      using Suc.prems(7) False dev by (auto simp: readable_def sector_device_def dest!: spec [where x = 0])
    have blk: "unat (start + ucast ((of_nat off :: u64) div 512)) = ?a div 512"
    proof -
      have "unat (ucast ((of_nat off :: u64) div 512) :: u32) = off div 512"
        using Suc.prems(3) by (simp add: unsigned_ucast_eq unat_div u(3) take_bit_nat_eq_self)
      then show ?thesis
        using Suc.prems(3) by (simp add: unat_word_ariths(1))
    qed
    have knn: "unat (ucast ((of_nat off :: u64) mod 512) :: u32) = off mod 512"
      by (simp add: unsigned_ucast_eq unat_mod u(3) take_bit_nat_eq_self)
    have am: "?a mod 512 = off mod 512" by simp
    define m where "m = min (512 - off mod 512) n"
    have m: "0 < m" "m \<le> n" "off mod 512 + m \<le> 512"
      using False by (simp_all add: m_def)
    have room: "unat (ucast (512 - ucast ((of_nat off :: u64) mod 512) :: u32) :: u64) = 512 - off mod 512"
    proof -
      have le: "ucast ((of_nat off :: u64) mod 512) \<le> (512 :: u32)"
        unfolding word_le_nat_alt knn by simp
      have v: "unat (512 - ucast ((of_nat off :: u64) mod 512) :: u32) = 512 - off mod 512"
        unfolding unat_sub [OF le] knn by simp
      then show ?thesis
        by (simp add: u32_u64)
    qed
    have left: "unat ((of_nat sz :: u64) - ucast (of_nat k :: u32)) = n"
      using lt unat_sub [of "ucast (of_nat k :: u32)" "of_nat sz :: u64"] uk u(2) Suc.prems(2) by simp
    define q where "q = min64 (ucast (512 - ucast ((of_nat off :: u64) mod 512) :: u32)) ((of_nat sz :: u64) - ucast (of_nat k :: u32))"
    have q: "unat q = m"
      unfolding q_def min64_def m_def word_less_nat_alt room left if_distrib [of unat] min_def by simp
    have q': "q = of_nat m"
    proof -
      have "(of_nat (unat q) :: u64) = q" by simp
      then show ?thesis by (simp only: q)
    qed
    have rd: "read_blocks dev Kkk (unat (start + ucast ((of_nat off :: u64) div 512))) = Inr (True, d)"
      using d Suc.prems(5) by (simp add: read_blocks_def blk)
    have uq: "(ucast q :: u32) = of_nat m"
      unfolding q [symmetric] by simp
    have kb: "(of_nat (block_size dev) :: u64) = 512"
      by (simp add: bs)
    define buffer' where "buffer' = take k buffer @ device_bytes dev ?a m @ drop (k + m) buffer"
    have cp: "memcpy_at buffer k d (off mod 512) m = Inr buffer'"
      using m d device_bytes_block [OF d(1,2), of m] Suc.prems(2,6) am by (simp add: memcpy_at_def buffer'_def)
    have step: "ZZz_loop (Suc fuel) dev start buffer Kkk (of_nat sz) (of_nat off) (of_nat k) =
        ZZz_loop fuel dev start buffer' d (of_nat sz) (of_nat (off + m)) (of_nat (k + m))"
      unfolding ZZz_loop.simps(2) Let_def kb q_def [symmetric] using lt rd cp
      by (simp add: check_def q knn u(1) uq q' [symmetric])
    have "ZZz_loop fuel dev start buffer' d (of_nat sz) (of_nat (off + m)) (of_nat (k + m)) =
        Inr (of_nat sz, take (k + m) buffer' @ device_bytes dev (unat start * 512 + (off + m)) (n - m) @ drop sz buffer')"
    proof (rule Suc.IH)
      show "readable dev (unat start * 512 + (off + m)) (n - m)"
        using Suc.prems(7) readable_split [of dev ?a m "n - m"] m by (simp add: add.assoc)
      show "sz \<le> length buffer'"
        using Suc.prems(2,6) m by (simp add: buffer'_def)
    qed (use Suc.prems(1-5) m d(2) in auto)
    also have "take (k + m) buffer' = take k buffer @ device_bytes dev ?a m"
      using Suc.prems(2,6) by (simp add: buffer'_def)
    also have "drop sz buffer' = drop sz buffer"
      using Suc.prems(2,6) m by (simp add: buffer'_def)
    finally show ?thesis
      unfolding step using device_bytes_append [of dev ?a m "n - m"] m by (simp add: add.assoc)
  qed
qed simp


lemma internal_driver_pread_inside:
  assumes "sector_device dev" and "length garbage \<ge> 512" and "sz < 2 ^ 32" and "sz < fuel" and "off < unat (XXc f)"
    and "sz \<le> length buffer" and "unat (xXc f) * 512 + off + sz < 2 ^ 41" and "readable dev (unat (xXc f) * 512 + off) sz"
  shows "ZZz_pread fuel dev f buffer garbage (of_nat sz) (of_nat off) =
        Inr (of_nat sz, device_bytes dev (unat (xXc f) * 512 + off) sz @ drop sz buffer)"
proof -
  have "off < 2 ^ 64"
    using assms(5) unsigned_less [of "XXc f", where 'a = nat] by simp
  then have lt: "\<not> (of_nat off :: u64) \<ge> ucast (XXc f)"
    using assms(5) by (simp add: word_less_nat_alt unsigned_of_nat take_bit_nat_eq_self u32_u64 not_le)
  have "ZZz_loop fuel dev (xXc f) buffer (take 512 garbage) (of_nat sz) (of_nat off) (of_nat 0) =
      Inr (of_nat sz, take 0 buffer @ device_bytes dev (unat (xXc f) * 512 + off) sz @ drop sz buffer)"
    using assms by (intro ZZz_loop_reads) simp_all
  then show ?thesis
    using lt assms(1) by (simp add: ZZz_pread_def sector_device_def)
qed

text \<open>
  C33 (\<open>internal-driver.cpp\<close>, \<open>ZZz::pread\<close>). On a device with 512-byte blocks, a read that starts before the end of the
  file returns exactly the bytes of the device from there on, as many as were asked for: it stops neither at the end of the file nor at
  a block boundary. A read that starts at the end or behind it returns 0 and leaves the buffer alone.
\<close>

theorem internal_driver_pread:
  assumes "sector_device dev" and "length garbage \<ge> 512" and "sz < 2 ^ 32" and "sz < fuel" and "off < 2 ^ 64"
    and "sz \<le> length buffer"
  shows "(off \<ge> unat (XXc f) \<longrightarrow> ZZz_pread fuel dev f buffer garbage (of_nat sz) (of_nat off) = Inr (0, buffer)) \<and>
    (off < unat (XXc f) \<and> unat (xXc f) * 512 + off + sz < 2 ^ 41 \<and> readable dev (unat (xXc f) * 512 + off) sz \<longrightarrow>
      ZZz_pread fuel dev f buffer garbage (of_nat sz) (of_nat off) =
        Inr (of_nat sz, device_bytes dev (unat (xXc f) * 512 + off) sz @ drop sz buffer))"
proof -
  have le: "(of_nat off :: u64) \<ge> ucast (XXc f) \<longleftrightarrow> off \<ge> unat (XXc f)"
    using assms(5) by (simp add: word_le_nat_alt unsigned_of_nat take_bit_nat_eq_self u32_u64)
  show ?thesis
    using le internal_driver_pread_inside [OF assms(1-4), of off f buffer] assms(6) by (auto simp: ZZz_pread_def)
qed


text \<open>A file of 3 bytes in block 2 of a small device: reading 5 bytes from its second byte passes its end.\<close>

definition letters_device :: block_device where
  "letters_device = \<lparr>block_size = 512, block_count = 3, read_block = (\<lambda>b. Some (replicate 512 (of_nat b)))\<rparr>"

theorem internal_driver_pread_witness:
  "ZZz_pread 6 letters_device \<lparr>xxc = [], xXc = 2, Xxc = 0, XXc = 3\<rparr> [9, 9, 9, 9, 9, 9] (replicate 512 7) (of_nat 5) (of_nat 1) =
     Inr (of_nat 5, device_bytes letters_device 1025 5 @ [9])"
proof -
  have "sector_device letters_device" "readable letters_device 1025 5"
    by (simp_all add: sector_device_def readable_def letters_device_def)
  then show ?thesis
    using internal_driver_pread [of letters_device "replicate 512 7" 5 6 1 "[9, 9, 9, 9, 9, 9]" "\<lparr>xxc = [], xXc = 2, Xxc = 0, XXc = 3\<rparr>"]
    by simp
qed

section \<open>The file as a readable file\<close>

definition ZZz_file :: "block_device \<Rightarrow> bytes \<Rightarrow> ZZz File_ops" where
  "ZZz_file dev garbage =
    \<lparr>f_read = (\<lambda>f buffer sz. ZZz_read (Suc (unat sz)) dev f buffer garbage sz),
     f_pread = (\<lambda>f buffer sz off. ZZz_pread (Suc (unat sz)) dev f buffer garbage sz off),
     f_seek = (\<lambda>f off type. Inr (ZZz_seek f off type))\<rparr>"

definition ZZz_valid :: "block_device \<Rightarrow> bytes \<Rightarrow> ZZz \<Rightarrow> bool" where
  "ZZz_valid dev garbage f \<longleftrightarrow> sector_device dev \<and> length garbage \<ge> 512 \<and>
     unat (xXc f) * 512 + unat (XXc f) < 2 ^ 41 \<and> readable dev (unat (xXc f) * 512) (unat (XXc f))"

definition ZZz_content :: "block_device \<Rightarrow> ZZz \<Rightarrow> bytes" where
  "ZZz_content dev f = device_bytes dev (unat (xXc f) * 512) (unat (XXc f))"

definition ZZz_pos :: "ZZz \<Rightarrow> nat" where
  "ZZz_pos f = unat (Xxc f)"

lemma take_drop_device_bytes: "off + sz \<le> n \<Longrightarrow> take sz (drop off (device_bytes dev a n)) = device_bytes dev (a + off) sz"
  by (rule nth_equalityI) (auto simp: device_bytes_def add.assoc)

lemma ZZz_pread_inside:
  assumes v: "ZZz_valid dev garbage f" and off: "off < unat (XXc f)" "off + sz \<le> unat (XXc f)" and b: "sz \<le> length buffer"
  shows "ZZz_pread (Suc (unat (of_nat sz :: u64))) dev f buffer garbage (of_nat sz) (of_nat off) =
    Inr (of_nat sz, take sz (drop off (ZZz_content dev f)) @ drop sz buffer)"
proof -
  note V = v [unfolded ZZz_valid_def]
  have n: "unat (XXc f) < 2 ^ 32"
    using unsigned_less [of "XXc f", where 'a = nat] by simp
  have s: "unat (of_nat sz :: u64) = sz"
    using off n by (simp add: unsigned_of_nat take_bit_nat_eq_self)
  have r: "readable dev (unat (xXc f) * 512 + off) sz"
    unfolding readable_def
  proof (intro allI impI)
    fix i assume "i < sz"
    then have "off + i < unat (XXc f)" using off by simp
    then show "read_block dev ((unat (xXc f) * 512 + off + i) div 512) \<noteq> None"
      using V unfolding readable_def by (metis add.assoc)
  qed
  have "sz < 2 ^ 32" "off < 2 ^ 64" "sz < Suc sz" "unat (xXc f) * 512 + off + sz < 2 ^ 41"
    using off n V by simp_all
  then show ?thesis
    unfolding s ZZz_content_def take_drop_device_bytes [OF off(2)]
    using internal_driver_pread_inside [of dev garbage sz "Suc sz" off f buffer] V r off(1) b by blast
qed

interpretation driver_file: readable_file "ZZz_file dev garbage" "ZZz_valid dev garbage" "ZZz_content dev" ZZz_pos
  for dev garbage
proof unfold_locales
  fix f :: ZZz and off sz :: nat and buffer :: bytes
  have n: "unat (XXc f) < 2 ^ 32"
    using unsigned_less [of "XXc f", where 'a = nat] by simp
  show "length (ZZz_content dev f) < 2 ^ 32"
    using n by (simp add: ZZz_content_def)
  assume v: "ZZz_valid dev garbage f"
  {
    assume "off < length (ZZz_content dev f)"
    then have off: "off < unat (XXc f)" by (simp add: ZZz_content_def)
    have u: "unat (ucast (of_nat off :: u64) :: u32) = off"
      using off n by (simp add: unsigned_ucast_eq unsigned_of_nat take_bit_nat_eq_self)
    have "ZZz_seek f (of_nat off) SeekAbsolute = f\<lparr>Xxc := ucast (of_nat off :: u64)\<rparr>"
      using off u by (simp add: ZZz_seek_def Let_def word_le_nat_alt)
    then show "\<exists>f'. f_seek (ZZz_file dev garbage) f (of_nat off) SeekAbsolute = Inr f' \<and> ZZz_valid dev garbage f' \<and>
        ZZz_content dev f' = ZZz_content dev f \<and> ZZz_pos f' = off"
      using v u by (simp add: ZZz_file_def ZZz_valid_def ZZz_content_def ZZz_pos_def)
  }
  {
    assume "off < length (ZZz_content dev f)" "off + sz \<le> length (ZZz_content dev f)" "sz \<le> length buffer"
    then show "f_pread (ZZz_file dev garbage) f buffer (of_nat sz) (of_nat off) =
        Inr (of_nat sz, take sz (drop off (ZZz_content dev f)) @ drop sz buffer)"
      using ZZz_pread_inside [OF v, of off sz buffer] by (simp add: ZZz_file_def ZZz_content_def)
  }
  assume p: "ZZz_pos f < length (ZZz_content dev f)" "ZZz_pos f + sz \<le> length (ZZz_content dev f)" "sz \<le> length buffer"
  have c: "(ucast (Xxc f) :: u64) = of_nat (ZZz_pos f)"
    by (simp add: ZZz_pos_def)
  have "ZZz_pread (Suc (unat (of_nat sz :: u64))) dev f buffer garbage (of_nat sz) (of_nat (ZZz_pos f)) =
      Inr (of_nat sz, take sz (drop (ZZz_pos f) (ZZz_content dev f)) @ drop sz buffer)"
    using p by (intro ZZz_pread_inside [OF v]) (simp_all add: ZZz_content_def)
  then show "\<exists>f'. f_read (ZZz_file dev garbage) f buffer (of_nat sz) =
      Inr (of_nat sz, take sz (drop (ZZz_pos f) (ZZz_content dev f)) @ drop sz buffer, f') \<and>
      ZZz_valid dev garbage f' \<and> ZZz_content dev f' = ZZz_content dev f"
    using v unfolding ZZz_file_def File_ops.select_convs ZZz_read_def c
    by (simp add: ZZz_valid_def ZZz_content_def)
qed

end
