(* ===== verification/Exec_Steps.thy ===== *)
theory Exec_Steps
  imports Exec Vma_Props Internal_Driver
begin

text \<open>
  What loading a program does to memory: a block of pages mapped at an address is contiguous, zeroed, and disjoint from all data that
  was there; the loader's copies land where the program sees them; an accepted file becomes a process whose memory holds
  its segments. The file is any one that meets \<open>readable_file\<close>, the allocator the buddy allocator.
\<close>

unbundle bit_operations_syntax

section \<open>Addresses\<close>

lemma unat_of_nat64: "x < 2 ^ 64 \<Longrightarrow> unat (of_nat x :: u64) = x"
  by (simp add: unsigned_of_nat take_bit_nat_eq_self)

lemma vpn_of_nat: "vpn (of_nat x) = x div 4096 mod 2 ^ 36"
proof -
  have "take_bit 36 (drop_bit 12 (take_bit 64 x)) = take_bit 36 (drop_bit 12 x)"
    by (intro bit_eqI) (auto simp: bit_simps)
  then have "(x mod 2 ^ 64) div 4096 mod 2 ^ 36 = x div 4096 mod 2 ^ 36"
    by (simp add: take_bit_eq_mod drop_bit_eq_div)
  then show ?thesis
    by (simp add: vpn_def unsigned_of_nat take_bit_eq_mod)
qed

lemma plus_of_nat: "va + of_nat i = (of_nat (unat va + i) :: u64)"
  by simp

lemma vpn_plus: "vpn (va + of_nat i) = (vpn va + (unat va mod 4096 + i) div 4096) mod 2 ^ 36"
proof -
  have "(unat va + i) div 4096 = unat va div 4096 + (unat va mod 4096 + i) div 4096"
  proof -
    have "unat va + i = (unat va mod 4096 + i) + unat va div 4096 * 4096"
      by simp
    then show ?thesis
      by (metis div_mult_self3 zero_neq_numeral add.commute)
  qed
  then have "vpn (va + of_nat i) = (unat va div 4096 + (unat va mod 4096 + i) div 4096) mod 2 ^ 36"
    unfolding plus_of_nat vpn_of_nat by simp
  then show ?thesis
    by (simp add: vpn_def mod_simps)
qed

lemma vpn_plus_page: "vpn (va + of_nat i) = vpn (page_at va ((unat va mod 4096 + i) div 4096))"
  by (simp add: vpn_plus vpn_page_at)

lemma vma_owned_vpn: "vpn va = vpn va' \<Longrightarrow> vma_owned va \<longleftrightarrow> vma_owned va'"
  by (simp add: vma_owned_def indices_vpn)

lemma page_offset_of_nat: "page_offset (of_nat x) = of_nat (x mod 4096)"
proof -
  have "page_offset (of_nat x) = take_bit 12 (of_nat x)"
    by (simp add: page_offset_def take_bit_eq_mask mask_eq_exp_minus_1)
  also have "\<dots> = of_nat (take_bit 12 x)"
    by (simp add: take_bit_of_nat)
  finally show ?thesis
    by (simp add: take_bit_eq_mod)
qed

lemma frame_plus_offset: "b < 4096 \<Longrightarrow> pgd_to_pa f OR of_nat b = of_nat (4096 * f + b)"
proof -
  assume b: "b < 4096"
  have f: "pgd_to_pa f = of_nat (4096 * f)"
    by (simp add: pgd_to_pa_def pfn_to_pa_def push_bit_eq_mult mult.commute)
  have "(of_nat b :: u64) = take_bit 12 (of_nat b)"
    using b by (simp add: take_bit_of_nat take_bit_nat_eq_self)
  then have "bit (of_nat b :: u64) n \<Longrightarrow> n < 12" for n
    by (metis bit_take_bit_iff)
  then have "pgd_to_pa f AND of_nat b = 0"
    by (intro bit_eqI) (fastforce simp: bit_and_iff pgd_to_pa_def pfn_to_pa_def bit_push_bit_iff)
  then have "pgd_to_pa f OR of_nat b = pgd_to_pa f + of_nat b"
    by (simp add: disjunctive_add_eq_or)
  then show ?thesis
    by (simp add: f)
qed

lemma page_at_frame: "page_at (pgd_to_pa g) q = pgd_to_pa (g + q)"
  by (simp add: page_at_def pgd_to_pa_def pfn_to_pa_def push_bit_eq_mult algebra_simps)

text \<open>In a run of mapped pages, every byte is at the same distance from the first frame as from the first page.\<close>

lemma maps_run_byte:
  assumes run: "maps_run vm vm' n va (pgd_to_pa g)" and i: "unat va mod 4096 + i < 4096 * n"
    and o: "\<forall>i < n. vma_owned (page_at va i)"
  shows "get_mapping vm' (va + of_nat i) = Inr (Some (of_nat (4096 * g + unat va mod 4096 + i)))" "vma_owned (va + of_nat i)"
proof -
  let ?s = "unat va mod 4096 + i"
  let ?q = "?s div 4096"
  have q: "?q < n"
    using i by (simp add: less_mult_imp_div_less mult.commute)
  have v: "vpn (va + of_nat i) = vpn (page_at va ?q)"
    by (rule vpn_plus_page)
  show own: "vma_owned (va + of_nat i)"
    using vma_owned_vpn [OF v] o q by blast
  have off: "page_offset (va + of_nat i) = of_nat (?s mod 4096)"
    unfolding plus_of_nat page_offset_of_nat by (simp add: mod_simps)
  have "get_mapping vm' (va + of_nat i) = Inr (Some (get_base (page_at (pgd_to_pa g) ?q) OR page_offset (va + of_nat i)))"
    using run own q v unfolding maps_run_def by blast
  also have "get_base (page_at (pgd_to_pa g) ?q) OR page_offset (va + of_nat i) = of_nat (4096 * (g + ?q) + ?s mod 4096)"
    unfolding page_at_frame get_base_frame off by (rule frame_plus_offset) simp
  also have "4096 * (g + ?q) + ?s mod 4096 = 4096 * g + unat va mod 4096 + i"
    by (simp add: algebra_simps)
  finally show "get_mapping vm' (va + of_nat i) = Inr (Some (of_nat (4096 * g + unat va mod 4096 + i)))" .
qed

section \<open>Words and bytes of frames\<close>

lemma load_byte_entry: "load_byte m a = get_byte (entry m (a div 4096) (a mod 4096 div 8)) (a mod 8)"
proof -
  have "8 * (a div 8) = 4096 * (a div 4096) + 8 * (a mod 4096 div 8)"
  proof -
    have "a div 4096 = a div 8 div 512" "a mod 4096 div 8 = a div 8 mod 512"
      using mod_mult2_eq [of a 8 512] by (simp_all flip: div_mult2_eq)
    moreover have "8 * x = 4096 * (x div 512) + 8 * (x mod 512)" for x :: nat
      using mult_div_mod_eq [of 512 x] by linarith
    ultimately show ?thesis
      by metis
  qed
  then show ?thesis
    by (simp add: load_byte_def entry_def)
qed

lemma load_byte_cong:
  "\<forall>i < 512. entry m' (a div 4096) i = entry m (a div 4096) i \<Longrightarrow> load_byte m' a = load_byte m a"
  by (simp add: load_byte_entry less_mult_imp_div_less)

lemma load_byte_zero: "\<forall>i < 512. entry m (a div 4096) i = 0 \<Longrightarrow> load_byte m a = 0"
  by (simp add: load_byte_entry less_mult_imp_div_less get_byte_def)

lemma memcpy_elsewhere:
  "(\<forall>x. a \<le> x \<longrightarrow> x < a + length bs \<longrightarrow> x div 8 \<noteq> w) \<Longrightarrow> memcpy_to m a bs (8 * w) = m (8 * w)"
proof (induction bs arbitrary: m a)
  case (Cons b bs)
  have "a div 8 \<noteq> w"
    using Cons.prems by simp
  moreover have "memcpy_to (store_byte m a b) (Suc a) bs (8 * w) = store_byte m a b (8 * w)"
    using Cons.prems by (intro Cons.IH) auto
  ultimately show ?case
    by (simp add: store_byte_def)
qed simp

lemma memcpy_other_frame:
  assumes "4096 * g \<le> a" and "a + length bs \<le> 4096 * (g + n)" and "f \<notin> {g ..< g + n}" and "i < 512"
  shows "entry (memcpy_to m a bs) f i = entry m f i"
proof -
  have "x div 8 \<noteq> 512 * f + i" if x: "a \<le> x" "x < a + length bs" for x
  proof
    assume e: "x div 8 = 512 * f + i"
    have "x div 4096 = x div 8 div 512"
      by (simp flip: div_mult2_eq)
    also have "\<dots> = f"
      unfolding e using assms(4) by simp
    finally have "x div 4096 = f" .
    moreover have "g \<le> x div 4096"
      using x assms(1) by (simp add: less_eq_div_iff_mult_less_eq mult.commute)
    moreover have "x div 4096 < g + n"
      using x assms(2) by (simp add: div_less_iff_less_mult mult.commute)
    ultimately show False
      using assms(3) by simp
  qed
  then have "memcpy_to m a bs (8 * (512 * f + i)) = m (8 * (512 * f + i))"
    by (intro memcpy_elsewhere) blast
  then show ?thesis
    by (simp add: entry_def algebra_simps)
qed


section \<open>Steps of the loader\<close>

abbreviation data_of :: "'a vma \<Rightarrow> nat \<Rightarrow> nat \<Rightarrow> bool" where
  "data_of vm r f \<equiv> data_frame (types (pgalloc vm)) (mem vm) r f"

text \<open>
  A step keeps the page tables well formed, maps nothing anew outside the pages \<open>P\<close>, and changes no data frame
  that was there but those in \<open>H\<close>.
\<close>

definition vm_steps :: "buddy vma \<Rightarrow> buddy vma \<Rightarrow> nat \<Rightarrow> nat set \<Rightarrow> nat set \<Rightarrow> bool" where
  "vm_steps vm vm' r P H \<longleftrightarrow> bp.vm_inv vm' r \<and>
    (\<forall>va. vma_owned va \<longrightarrow> vpn va \<notin> P \<longrightarrow> get_mapping vm' va = get_mapping vm va) \<and>
    (\<forall>f. data_of vm r f \<longrightarrow> data_of vm' r f \<and> (f \<notin> H \<longrightarrow> (\<forall>i < 512. entry (mem vm') f i = entry (mem vm) f i)))"

lemma vm_stepsD:
  assumes "vm_steps vm vm' r P H"
  shows "bp.vm_inv vm' r"
    and "vma_owned va \<Longrightarrow> vpn va \<notin> P \<Longrightarrow> get_mapping vm' va = get_mapping vm va"
    and "data_of vm r f \<Longrightarrow> data_of vm' r f"
    and "data_of vm r f \<Longrightarrow> f \<notin> H \<Longrightarrow> i < 512 \<Longrightarrow> entry (mem vm') f i = entry (mem vm) f i"
  using assms unfolding vm_steps_def by blast+

lemma vm_steps_refl: "bp.vm_inv vm r \<Longrightarrow> vm_steps vm vm r P H"
  by (simp add: vm_steps_def)

lemma vm_steps_trans:
  assumes "vm_steps vm vm1 r P H" and "vm_steps vm1 vm2 r P' H'"
  shows "vm_steps vm vm2 r (P \<union> P') (H \<union> H')"
  using assms by (simp add: vm_steps_def)

text \<open>A range of addresses holds given bytes, in data frames outside \<open>H\<close>.\<close>

definition holds :: "buddy vma \<Rightarrow> nat \<Rightarrow> nat set \<Rightarrow> u64 \<Rightarrow> nat \<Rightarrow> (nat \<Rightarrow> u8) \<Rightarrow> bool" where
  "holds vm r H va n bs \<longleftrightarrow> (\<forall>i < n. vma_owned (va + of_nat i) \<and>
    (\<exists>pa. get_mapping vm (va + of_nat i) = Inr (Some pa) \<and> data_of vm r (unat pa div 4096) \<and> unat pa div 4096 \<notin> H \<and>
      load_byte (mem vm) (unat pa) = bs i))"

definition pages_of :: "u64 \<Rightarrow> nat \<Rightarrow> nat set" where
  "pages_of va n = (\<lambda>i. vpn (va + of_nat i)) ` {..<n}"

lemma holds_steps:
  assumes h: "holds vm r H va n bs" and s: "vm_steps vm vm' r P H'" and "H' \<subseteq> H" and "pages_of va n \<inter> P = {}"
  shows "holds vm' r H va n bs"
  unfolding holds_def
proof (intro allI impI conjI)
  fix i assume i: "i < n"
  then obtain pa where pa: "vma_owned (va + of_nat i)" "get_mapping vm (va + of_nat i) = Inr (Some pa)"
      "data_of vm r (unat pa div 4096)" "unat pa div 4096 \<notin> H" "load_byte (mem vm) (unat pa) = bs i"
    using h unfolding holds_def by blast
  then show "vma_owned (va + of_nat i)" by simp
  have "vpn (va + of_nat i) \<notin> P"
    using assms(4) i by (auto simp: pages_of_def)
  then have "get_mapping vm' (va + of_nat i) = Inr (Some pa)"
    using vm_stepsD(2) [OF s pa(1)] pa(2) by simp
  moreover have "load_byte (mem vm') (unat pa) = load_byte (mem vm) (unat pa)"
    using vm_stepsD(4) [OF s pa(3)] assms(3) pa(4) by (intro load_byte_cong) blast
  ultimately show "\<exists>pa. get_mapping vm' (va + of_nat i) = Inr (Some pa) \<and> data_of vm' r (unat pa div 4096) \<and>
      unat pa div 4096 \<notin> H \<and> load_byte (mem vm') (unat pa) = bs i"
    using vm_stepsD(3) [OF s pa(3)] pa by metis
qed

text \<open>Writing to data frames is such a step.\<close>

lemma data_write_steps:
  assumes inv: "bp.vm_inv vm r" and d: "\<forall>f \<in> H. data_of vm r f" and vm': "vm' = vm\<lparr>mem := m\<rparr>"
    and out: "\<And>f i. f \<notin> H \<Longrightarrow> i < 512 \<Longrightarrow> entry m f i = entry (mem vm) f i"
  shows "vm_steps vm vm' r {} H"
proof -
  have st: "same_tables 4 (mem vm) m r"
    unfolding same_tables_def
  proof (intro allI impI)
    fix p f and i :: nat
    assume "owned p" "tab (mem vm) r p = Some f" "i < 512"
    then have "f \<notin> H"
      using d by (auto simp: data_frame_def)
    then show "entry m f i = entry (mem vm) f i"
      using out \<open>i < 512\<close> by blast
  qed
  note tab = tab_cong [OF same_tables_weaken [OF st]]
  have pg: "pgalloc vm' = pgalloc vm" "mem vm' = m"
    by (simp_all add: vm')
  have ok: "tables_ok (types (pgalloc vm)) (mem vm) r"
    using inv by (simp add: bp.vm_inv_def)
  have "tables_ok (types (pgalloc vm)) m r"
    using bp.vm_inv_frame(2,3) [OF inv] by (intro tables_ok_cong [OF ok same_tables_weaken [OF st]]) blast
  then have inv': "bp.vm_inv vm' r"
    using inv by (simp add: bp.vm_inv_def vm')
  have "get_mapping vm' va = get_mapping vm va" if o: "vma_owned va" for va
  proof -
    obtain i j k l where ix: "va_table_indicies va = (i, j, k, l)"
      by (metis prod.collapse)
    note p = vma_owned_path [OF o ix]
    have "leaf (mem vm') r [i, j, k] l = leaf (mem vm) r [i, j, k] l"
      unfolding pg by (rule leaf_cong [OF st p])
    then show ?thesis
      unfolding bp.get_mapping_leaf [OF inv' ix p(1)] bp.get_mapping_leaf [OF inv ix p(1)] by simp
  qed
  then show ?thesis
    unfolding vm_steps_def using inv' out tab by (simp add: pg data_frame_def)
qed

section \<open>A block of pages\<close>

definition run_of :: "u64 \<Rightarrow> nat \<Rightarrow> nat set" where
  "run_of va n = (\<lambda>i. vpn (page_at va i)) ` {..<n}"

text \<open>The pages at an address are the frames from \<open>g\<close> on, which were no data before.\<close>

definition new_block :: "buddy vma \<Rightarrow> buddy vma \<Rightarrow> nat \<Rightarrow> u64 \<Rightarrow> nat \<Rightarrow> nat \<Rightarrow> bool" where
  "new_block vm vm' r va n g \<longleftrightarrow> vm_steps vm vm' r (run_of va n) {} \<and> g + n \<le> 2 ^ 20 \<and>
    (\<forall>f \<in> {g ..< g + n}. data_of vm' r f \<and> \<not> data_of vm r f) \<and>
    (\<forall>i. unat va mod 4096 + i < 4096 * n \<longrightarrow> vma_owned (va + of_nat i) \<and>
       get_mapping vm' (va + of_nat i) = Inr (Some (of_nat (4096 * g + unat va mod 4096 + i))))"

lemma new_blockD:
  assumes "new_block vm vm' r va n g"
  shows "vm_steps vm vm' r (run_of va n) {}" "g + n \<le> 2 ^ 20" "f \<in> {g ..< g + n} \<Longrightarrow> data_of vm' r f"
    "f \<in> {g ..< g + n} \<Longrightarrow> \<not> data_of vm r f"
    "unat va mod 4096 + i < 4096 * n \<Longrightarrow> vma_owned (va + of_nat i)"
    "unat va mod 4096 + i < 4096 * n \<Longrightarrow>
      get_mapping vm' (va + of_nat i) = Inr (Some (of_nat (4096 * g + unat va mod 4096 + i)))"
  using assms unfolding new_block_def by blast+

lemma allocate_block:
  assumes inv: "bp.vm_inv vm r" and n: "0 < n" "n \<le> 2 ^ 30" and k: "k = log2ceil (of_nat n)"
    and o: "\<forall>i < 2 ^ k. vma_owned (page_at va i)"
  shows "allocate_virt buddy_algorithm vm va (int n) = Inl NullDeref \<or>
    (\<exists>g vm'. allocate_virt buddy_algorithm vm va (int n) = Inr (True, vm') \<and> new_block vm vm' r va (2 ^ k) g \<and>
      (\<forall>f i. f \<in> {g ..< g + 2 ^ k} \<longrightarrow> i < 512 \<longrightarrow> entry (mem vm') f i = 0))"
  using allocate_virt_ok [OF inv n o [unfolded k] refl]
proof (elim disjE exE conjE)
  fix g vm'
  assume al: "allocate_virt buddy_algorithm vm va (int n) = Inr (True, vm')" and inv': "bp.vm_inv vm' r"
    and ty: "typed (types (pgalloc vm)) AVAILABLE g (2 ^ log2ceil (of_nat n))"
    and run: "maps_run vm vm' (2 ^ log2ceil (of_nat n)) va (pgd_to_pa g)" and gb: "g + 2 ^ log2ceil (of_nat n) \<le> 2 ^ 20"
    and kd: "keeps_data vm vm' r"
    and df: "\<forall>f. g \<le> f \<longrightarrow> f < g + 2 ^ log2ceil (of_nat n) \<longrightarrow> data_of vm' r f \<and> (\<forall>i < 512. entry (mem vm') f i = 0)"
  have steps: "vm_steps vm vm' r (run_of va (2 ^ k)) {}"
    unfolding vm_steps_def
  proof (intro conjI allI impI)
    fix va'
    assume "vma_owned va'" "vpn va' \<notin> run_of va (2 ^ k)"
    then have "vma_owned va'" "\<forall>i < 2 ^ log2ceil (of_nat n). vpn va' \<noteq> vpn (page_at va i)"
      by (auto simp: run_of_def k)
    then show "get_mapping vm' va' = get_mapping vm va'"
      using run unfolding maps_run_def by blast
  qed (use inv' kd in \<open>auto simp: keeps_data_def\<close>)
  have "\<not> data_of vm r f" if "f \<in> {g ..< g + 2 ^ k}" for f
    using ty that k by (auto simp: data_frame_def typed_def)
  then have "new_block vm vm' r va (2 ^ k) g"
    unfolding new_block_def using steps gb df maps_run_byte [OF run [folded k] _ o] k by auto
  then show ?thesis
    using al df k by auto
qed simp

text \<open>Copying into a fresh block puts the bytes where the program sees them; the rest of the block stays zero.\<close>

lemma copy_to_block:
  assumes nb: "new_block vm vm1 r va n g" and z: "\<And>f i. f \<in> {g ..< g + n} \<Longrightarrow> i < 512 \<Longrightarrow> entry (mem vm1) f i = 0"
    and H: "\<forall>f \<in> H. data_of vm r f" and len: "unat va mod 4096 + length bs \<le> 4096 * n" and n: "0 < n"
  shows "\<exists>vm2. copy_to vm1 va bs = Inr (True, vm2) \<and> vm_steps vm vm2 r (run_of va n) {} \<and>
    (\<forall>N. unat va mod 4096 + N \<le> 4096 * n \<longrightarrow> holds vm2 r H va N (\<lambda>i. if i < length bs then bs ! i else 0))"
proof -
  note B = new_blockD [OF nb]
  let ?a = "4096 * g + unat va mod 4096"
  have top: "4096 * (g + n) \<le> 2 ^ 32"
    using B(2) by simp
  have u: "unat (of_nat (?a + i) :: u64) = ?a + i" if "unat va mod 4096 + i < 4096 * n" for i
  proof -
    have "?a + i < 2 ^ 64"
      using that top by simp
    then show ?thesis
      by (rule unat_of_nat64)
  qed
  have o0: "unat va mod 4096 + 0 < 4096 * n"
    using n pos_mod_bound [of 4096 "int (unat va)"] by (simp add: order_less_le_trans [OF mod_less_divisor])
  have get: "get_mapping vm1 va = Inr (Some (of_nat ?a))"
    using B(6) [OF o0] by simp
  have pa: "(of_nat ?a :: u64) < PMEM_VA_SIZE"
    using u [OF o0] top o0 by (simp add: word_less_nat_alt PMEM_VA_SIZE_def PMEM_VA_END_def PMEM_VA_START_def)
  define vm2 where "vm2 = vm1\<lparr>mem := memcpy_to (mem vm1) ?a bs\<rparr>"
  have cp: "copy_to vm1 va bs = Inr (True, vm2)"
    using get pa u [OF o0] by (simp add: copy_to_def pa_to_vpa_def vm2_def)
  have fr: "4096 * g \<le> ?a" "?a + length bs \<le> 4096 * (g + n)"
    using len by simp_all
  have s12: "vm_steps vm1 vm2 r {} {g ..< g + n}"
    using B(3) memcpy_other_frame [OF fr] by (intro data_write_steps [OF vm_stepsD(1) [OF B(1)] _ vm2_def]) auto
  have steps: "vm_steps vm vm2 r (run_of va n) {}"
    using vm_steps_trans [OF B(1) s12] B(4) unfolding vm_steps_def by auto
  have "holds vm2 r H va N (\<lambda>i. if i < length bs then bs ! i else 0)" if N: "unat va mod 4096 + N \<le> 4096 * n" for N
    unfolding holds_def
  proof (intro allI impI conjI)
    fix i assume "i < N"
    then have i: "unat va mod 4096 + i < 4096 * n"
      using N by simp
    show "vma_owned (va + of_nat i)"
      by (rule B(5) [OF i])
    have "get_mapping vm2 (va + of_nat i) = Inr (Some (of_nat (?a + i)))"
      using vm_stepsD(2) [OF s12 B(5) [OF i]] B(6) [OF i] by simp
    moreover have f: "(?a + i) div 4096 \<in> {g ..< g + n}"
      using i by (auto simp: less_eq_div_iff_mult_less_eq div_less_iff_less_mult mult.commute)
    moreover have "data_of vm2 r ((?a + i) div 4096)"
      by (rule vm_stepsD(3) [OF s12 B(3) [OF f]])
    moreover have "(?a + i) div 4096 \<notin> H"
      using B(4) [OF f] H by blast
    moreover have "load_byte (mem vm1) (?a + i) = 0"
      using z [OF f] by (intro load_byte_zero) blast
    then have "load_byte (mem vm2) (?a + i) = (if i < length bs then bs ! i else 0)"
      by (simp add: vm2_def load_memcpy)
    ultimately show "\<exists>pa. get_mapping vm2 (va + of_nat i) = Inr (Some pa) \<and> data_of vm2 r (unat pa div 4096) \<and>
        unat pa div 4096 \<notin> H \<and> load_byte (mem vm2) (unat pa) = (if i < length bs then bs ! i else 0)"
      using u [OF i] by (intro exI [of _ "of_nat (?a + i)"]) (simp only: simp_thms)
  qed
  then show ?thesis
    using cp steps by blast
qed


section \<open>Segments\<close>

lemma page_count_pages:
  assumes "unat x \<le> 2 ^ 42"
  shows "page_count x = int ((unat x + 4095) div 4096)"
proof -
  let ?n = "(unat x + 4095) div 4096"
  have "unat (align_up_page x) = 4096 * ?n"
  proof (cases "unat x mod 4096 = 0")
    case True
    then have "x mod 0x1000 = 0"
      by (simp add: unat_eq_0 [symmetric] unat_mod)
    moreover obtain q where "unat x = 4096 * q"
      using True by blast
    ultimately show ?thesis
      by (simp add: align_up_page_def)
  next
    case False
    then have nz: "x mod 0x1000 \<noteq> 0"
      by (simp add: unat_eq_0 [symmetric] unat_mod)
    define q b where "q = unat x div 4096" and "b = unat x mod 4096"
    have x: "unat x = 4096 * q + b" "0 < b" "b < 4096"
      using False by (simp_all add: q_def b_def)
    have sub: "unat (0x1000 - x mod 0x1000) = 4096 - b"
    proof -
      have "x mod 0x1000 \<le> 0x1000"
        using x(3) by (simp add: word_le_nat_alt unat_mod b_def)
      then show ?thesis
        by (simp add: unat_sub unat_mod b_def)
    qed
    have "unat (align_up_page x) = 4096 * q + 4096"
      using nz sub x assms by (simp add: align_up_page_def unat_word_ariths(1))
    moreover have "?n = Suc q"
      using x by (intro div_nat_eqI) simp_all
    ultimately show ?thesis
      by simp
  qed
  then have d: "unat (drop_bit 12 (align_up_page x)) = ?n"
    by (simp add: drop_bit_eq_div unat_div)
  have n: "?n \<le> 2 ^ 30"
    using assms by simp
  have "sint (ucast (drop_bit 12 (align_up_page x)) :: u32) = signed_take_bit 31 (int ?n)"
  proof -
    have "(ucast (drop_bit 12 (align_up_page x)) :: u32) = of_nat ?n"
      unfolding d [symmetric] by simp
    then show ?thesis
      by (simp add: signed_of_nat)
  qed
  also have "\<dots> = int ?n"
    using n by (intro signed_take_bit_int_eq_self) simp_all
  finally show ?thesis
    by (simp add: page_count_def)
qed

definition seg_pages :: "ELF64ProgramHeaderEntry \<Rightarrow> nat" where
  "seg_pages e = (unat (p_memsz e) + 4095) div 4096"

definition seg_run :: "ELF64ProgramHeaderEntry \<Rightarrow> nat set" where
  "seg_run e = run_of (p_vaddr e) (2 ^ log2ceil (of_nat (seg_pages e)))"

definition seg_byte :: "bytes \<Rightarrow> ELF64ProgramHeaderEntry \<Rightarrow> nat \<Rightarrow> u8" where
  "seg_byte c e i = (if i < unat (p_filesz e) then c ! (unat (p_offset e) + i) else 0)"

text \<open>
  A segment the loader can place: its bytes are in the file, it is not larger than the pages mapped for it from its
  address on, and these belong to the program's part of the address space.
\<close>

definition loadable :: "bytes \<Rightarrow> ELF64ProgramHeaderEntry \<Rightarrow> bool" where
  "loadable c e \<longleftrightarrow> 0 < unat (p_memsz e) \<and> unat (p_memsz e) \<le> 2 ^ 42 \<and> p_filesz e \<le> p_memsz e \<and>
    unat (p_offset e) < length c \<and> unat (p_offset e) + unat (p_filesz e) \<le> length c \<and>
    unat (p_vaddr e) mod 4096 + unat (p_memsz e) \<le> 4096 * 2 ^ log2ceil (of_nat (seg_pages e)) \<and>
    (\<forall>i < 2 ^ log2ceil (of_nat (seg_pages e)). vma_owned (page_at (p_vaddr e) i))"

lemma seg_pages_bounds: "loadable c e \<Longrightarrow> 0 < seg_pages e \<and> seg_pages e \<le> 2 ^ 30"
proof -
  assume l: "loadable c e"
  then have "0 < unat (p_memsz e)" "unat (p_memsz e) \<le> 2 ^ 42"
    unfolding loadable_def by blast+
  then show ?thesis
    by (simp add: seg_pages_def div_greater_zero_iff)
qed

lemma fresh_length [simp]: "length (fresh garbage n) = unat n"
  by (simp add: fresh_def)

text \<open>Loading a segment at an address that is not mapped.\<close>

context readable_file
begin

lemma load_segment_ok:
  assumes v: "valid f" and inv: "bp.vm_inv vm r" and H: "\<forall>g \<in> H. data_of vm r g" and l: "loadable (content f) e"
    and un: "get_mapping vm (p_vaddr e) = Inr None"
  shows "load_segment F buddy_algorithm garbage f e vm = Inl NullDeref \<or>
    (\<exists>vm'. load_segment F buddy_algorithm garbage f e vm = Inr vm' \<and> vm_steps vm vm' r (seg_run e) {} \<and>
      holds vm' r H (p_vaddr e) (unat (p_memsz e)) (seg_byte (content f) e))"
proof -
  note L = l [unfolded loadable_def]
  note n = seg_pages_bounds [OF l]
  let ?k = "log2ceil (of_nat (seg_pages e))"
  have pc: "page_count (p_memsz e) = int (seg_pages e)"
    using L by (simp add: page_count_pages seg_pages_def)
  have im: "is_mapped vm (p_vaddr e) = Inr False"
    by (simp add: is_mapped_def un)
  let ?bs = "take (unat (p_filesz e)) (drop (unat (p_offset e)) (content f))"
  have rd: "f_pread F f (fresh garbage (p_filesz e)) (p_filesz e) (p_offset e) = Inr (of_nat (unat (p_filesz e)), ?bs)"
    using pread_inside [OF v, of "unat (p_offset e)" "unat (p_filesz e)" "fresh garbage (p_filesz e)"] L by simp
  have len: "length ?bs = unat (p_filesz e)"
  proof -
    have "unat (p_offset e) + unat (p_filesz e) \<le> length (content f)"
      using L by blast
    then show "length ?bs = unat (p_filesz e)"
      by simp
  qed
  have le: "unat (p_filesz e) \<le> unat (p_memsz e)"
    using L by (simp add: word_le_nat_alt)
  have o: "\<forall>i < 2 ^ ?k. vma_owned (page_at (p_vaddr e) i)"
    using L by blast
  note al = allocate_block [OF inv conjunct1 [OF n] conjunct2 [OF n] refl o]
  show ?thesis
    using al
  proof (elim disjE exE conjE)
    assume "allocate_virt buddy_algorithm vm (p_vaddr e) (int (seg_pages e)) = Inl NullDeref"
    then show ?thesis
      by (simp add: load_segment_def im pc)
  next
    fix g vm1
    assume al: "allocate_virt buddy_algorithm vm (p_vaddr e) (int (seg_pages e)) = Inr (True, vm1)"
      and nb: "new_block vm vm1 r (p_vaddr e) (2 ^ ?k) g"
      and z: "\<forall>f i. f \<in> {g ..< g + 2 ^ ?k} \<longrightarrow> i < 512 \<longrightarrow> entry (mem vm1) f i = 0"
    obtain vm2 where cp: "copy_to vm1 (p_vaddr e) ?bs = Inr (True, vm2)" and st: "vm_steps vm vm2 r (seg_run e) {}"
      and ho: "\<forall>N. unat (p_vaddr e) mod 4096 + N \<le> 4096 * 2 ^ ?k \<longrightarrow>
        holds vm2 r H (p_vaddr e) N (\<lambda>i. if i < length ?bs then ?bs ! i else 0)"
      using copy_to_block [OF nb _ H, of ?bs] z len le L unfolding seg_run_def by auto
    have "(\<lambda>i. if i < length ?bs then ?bs ! i else 0) = seg_byte (content f) e"
      using len by (auto simp: seg_byte_def fun_eq_iff)
    then have "holds vm2 r H (p_vaddr e) (unat (p_memsz e)) (seg_byte (content f) e)"
      using ho L by metis
    moreover have "load_segment F buddy_algorithm garbage f e vm = Inr vm2"
      by (simp add: load_segment_def im pc al rd cp)
    ultimately show ?thesis
      using st by blast
  qed
qed

end

section \<open>Program headers\<close>

text \<open>The program headers of a file, and the segments to load among them.\<close>

definition headers :: "bytes \<Rightarrow> ELF64Header \<Rightarrow> ELF64ProgramHeaderEntry list" where
  "headers c eh = map (\<lambda>i. program_header (take 56 (drop (unat (phoff eh) + i * unat (phentsize eh)) c))) [0..<unat (phnum eh)]"

definition segments :: "ELF64ProgramHeaderEntry list \<Rightarrow> ELF64ProgramHeaderEntry list" where
  "segments es = filter (\<lambda>e. p_type e = 1) es"

definition segs_run :: "ELF64ProgramHeaderEntry list \<Rightarrow> nat set" where
  "segs_run es = (\<Union>e \<in> set (segments es). seg_run e)"

definition holds_segs :: "buddy vma \<Rightarrow> nat \<Rightarrow> nat set \<Rightarrow> bytes \<Rightarrow> ELF64ProgramHeaderEntry list \<Rightarrow> bool" where
  "holds_segs vm r H c es \<longleftrightarrow>
    (\<forall>e \<in> set (segments es). holds vm r H (p_vaddr e) (unat (p_memsz e)) (seg_byte c e))"

text \<open>Segments that can be placed one after the other.\<close>

fun placeable :: "bytes \<Rightarrow> ELF64ProgramHeaderEntry list \<Rightarrow> bool" where
  "placeable c [] \<longleftrightarrow> True"
| "placeable c (e # es) \<longleftrightarrow> placeable c es \<and> (p_type e = 1 \<longrightarrow> loadable c e \<and> seg_run e \<inter> segs_run es = {})"

lemma segments_Cons: "segments (e # es) = (if p_type e = 1 then e # segments es else segments es)"
  by (simp add: segments_def)

lemma segs_run_Cons: "segs_run (e # es) = (if p_type e = 1 then seg_run e \<union> segs_run es else segs_run es)"
  by (simp add: segs_run_def segments_Cons)

lemma placeable_loadable: "placeable c es \<Longrightarrow> e \<in> set (segments es) \<Longrightarrow> loadable c e"
  by (induction es) (auto simp: segments_def split: if_splits)

lemma run_pages_of:
  assumes "unat va mod 4096 + n \<le> 4096 * m"
  shows "pages_of va n \<subseteq> run_of va m"
proof
  fix x assume "x \<in> pages_of va n"
  then obtain i where i: "i < n" "x = vpn (va + of_nat i)"
    by (auto simp: pages_of_def)
  have "(unat va mod 4096 + i) div 4096 < m"
    using i(1) assms by (simp add: div_less_iff_less_mult mult.commute)
  then show "x \<in> run_of va m"
    unfolding i(2) vpn_plus_page run_of_def by blast
qed

lemma seg_pages_of: "loadable c e \<Longrightarrow> pages_of (p_vaddr e) (unat (p_memsz e)) \<subseteq> seg_run e"
  unfolding seg_run_def by (rule run_pages_of) (simp add: loadable_def)

lemma seg_start:
  assumes "loadable c e"
  shows "vma_owned (p_vaddr e)" "vpn (p_vaddr e) \<in> seg_run e"
proof -
  have "(0 :: nat) < 2 ^ log2ceil (of_nat (seg_pages e))"
    by simp
  then show "vma_owned (p_vaddr e)"
    using assms unfolding loadable_def by (metis page_at_0)
  show "vpn (p_vaddr e) \<in> seg_run e"
    unfolding seg_run_def run_of_def by (rule image_eqI [of _ _ 0]) simp_all
qed

lemma holds_segs_steps:
  assumes "holds_segs vm r H c es" and "vm_steps vm vm' r P H'" and "H' \<subseteq> H" and "segs_run es \<inter> P = {}"
    and "placeable c es"
  shows "holds_segs vm' r H c es"
  unfolding holds_segs_def
proof
  fix e assume e: "e \<in> set (segments es)"
  have "pages_of (p_vaddr e) (unat (p_memsz e)) \<inter> P = {}"
    using seg_pages_of [OF placeable_loadable [OF assms(5) e]] assms(4) e by (auto simp: segs_run_def)
  then show "holds vm' r H (p_vaddr e) (unat (p_memsz e)) (seg_byte c e)"
    using assms(1-3) e by (intro holds_steps [OF _ assms(2,3)]) (simp_all add: holds_segs_def)
qed

text \<open>The loop as a walk over the headers.\<close>

lemma andthen_assoc: "andthen (andthen m f) g = andthen m (\<lambda>x. andthen (f x) g)"
  by (cases m) simp_all

primrec load_entries ::
    "'f File_ops \<Rightarrow> (nat \<Rightarrow> u8) \<Rightarrow> 'f \<Rightarrow> ELF64ProgramHeaderEntry list \<Rightarrow> buddy vma \<Rightarrow> buddy vma result" where
  "load_entries F garbage f [] vm = Inr vm"
| "load_entries F garbage f (e # es) vm =
    andthen (if p_type e = 1 then load_segment F buddy_algorithm garbage f e vm else Inr vm) (load_entries F garbage f es)"

lemma header_offset:
  assumes "i < 2 ^ 16" and "unat po + i * unat pe < 2 ^ 64"
  shows "po + ucast (of_nat i * ucast (pe :: u16) :: u32) = (of_nat (unat po + i * unat pe) :: u64)"
proof -
  have "unat pe < 2 ^ 16"
    using unsigned_less [of pe, where 'a = nat] by simp
  then have "i * unat pe < 2 ^ 16 * 2 ^ 16"
    using assms(1) by (intro mult_strict_mono) simp_all
  then have b: "i * unat pe < 2 ^ 32"
    by simp
  have "(of_nat i * ucast pe :: u32) = of_nat (i * unat pe)"
    by simp
  then have "unat (of_nat i * ucast pe :: u32) = i * unat pe"
    using b by (simp add: unsigned_of_nat take_bit_nat_eq_self del: of_nat_mult)
  then have "(ucast (of_nat i * ucast pe :: u32) :: u64) = of_nat (i * unat pe)"
    by (metis of_nat_unat)
  then show ?thesis
    by simp
qed

context readable_file
begin

lemma load_headers_entries:
  assumes v: "valid f" and b: "\<And>j. i \<le> j \<Longrightarrow> j < i + n \<Longrightarrow> unat (phoff eh) + j * unat (phentsize eh) + 56 \<le> length (content f)"
    and i: "i + n \<le> 2 ^ 16"
  shows "load_headers F buddy_algorithm garbage f eh n i vm =
    andthen (load_entries F garbage f
      (map (\<lambda>j. program_header (take 56 (drop (unat (phoff eh) + j * unat (phentsize eh)) (content f)))) [i..<i + n]) vm)
      (\<lambda>vm. Inr (True, vm))"
  using b i
proof (induction n arbitrary: i vm)
  case (Suc n)
  let ?o = "unat (phoff eh) + i * unat (phentsize eh)"
  have o: "?o + 56 \<le> length (content f)"
    using Suc.prems(1) [of i] by simp
  have "?o < 2 ^ 64"
    using o content_bound [OF v] by simp
  then have off: "phoff eh + ucast (of_nat i * ucast (phentsize eh) :: u32) = of_nat ?o"
    using Suc.prems(2) by (intro header_offset) simp_all
  have rd: "f_pread F f (fresh garbage 56) 56 (of_nat ?o) = Inr (56, take 56 (drop ?o (content f)))"
    using pread_inside [OF v, of ?o 56 "fresh garbage 56"] o by simp
  have IH: "load_headers F buddy_algorithm garbage f eh n (Suc i) vm =
    andthen (load_entries F garbage f
      (map (\<lambda>j. program_header (take 56 (drop (unat (phoff eh) + j * unat (phentsize eh)) (content f)))) [Suc i..<Suc i + n]) vm)
      (\<lambda>vm. Inr (True, vm))" for vm
    using Suc.prems by (intro Suc.IH) auto
  have up: "[i..<i + Suc n] = i # [Suc i..<Suc i + n]"
    by (simp add: upt_rec)
  have s56: "sint (56 :: u32) = 56"
    by simp
  show ?case
    unfolding up load_headers.simps Let_def off rd list.map load_entries.simps
    by (simp only: andthen_Inr case_prod_conv s56 simp_thms if_False ext [OF IH] andthen_assoc)
qed simp

lemma load_entries_ok:
  assumes v: "valid f"
  shows "\<lbrakk>bp.vm_inv vm r; \<forall>g \<in> H. data_of vm r g; placeable (content f) es;
      \<forall>e \<in> set (segments es). get_mapping vm (p_vaddr e) = Inr None\<rbrakk> \<Longrightarrow>
    load_entries F garbage f es vm = Inl NullDeref \<or>
    (\<exists>vm'. load_entries F garbage f es vm = Inr vm' \<and> vm_steps vm vm' r (segs_run es) {} \<and>
      holds_segs vm' r H (content f) es)"
proof (induction es arbitrary: vm)
  case Nil
  then show ?case
    by (simp add: vm_steps_refl holds_segs_def segments_def)
next
  case (Cons e es)
  have pl: "placeable (content f) es"
    using Cons.prems(3) by simp
  show ?case
  proof (cases "p_type e = 1")
    case False
    then show ?thesis
      using Cons.IH [OF Cons.prems(1,2) pl] Cons.prems(4) by (simp add: segments_Cons segs_run_Cons holds_segs_def)
  next
    case True
    then have l: "loadable (content f) e" and d: "seg_run e \<inter> segs_run es = {}"
      using Cons.prems(3) by simp_all
    have un: "get_mapping vm (p_vaddr e) = Inr None"
      using Cons.prems(4) True by (simp add: segments_Cons)
    show ?thesis
      using load_segment_ok [OF v Cons.prems(1,2) l un, of garbage]
    proof (elim disjE exE conjE)
      assume "load_segment F buddy_algorithm garbage f e vm = Inl NullDeref"
      then show ?thesis
        using True by simp
    next
      fix vm1
      assume e1: "load_segment F buddy_algorithm garbage f e vm = Inr vm1" and s1: "vm_steps vm vm1 r (seg_run e) {}"
        and h1: "holds vm1 r H (p_vaddr e) (unat (p_memsz e)) (seg_byte (content f) e)"
      have un1: "\<forall>e' \<in> set (segments es). get_mapping vm1 (p_vaddr e') = Inr None"
      proof
        fix e' assume e': "e' \<in> set (segments es)"
        note st = seg_start [OF placeable_loadable [OF pl e']]
        have "vpn (p_vaddr e') \<notin> seg_run e"
          using st(2) d e' by (auto simp: segs_run_def)
        then show "get_mapping vm1 (p_vaddr e') = Inr None"
          using vm_stepsD(2) [OF s1 st(1)] Cons.prems(4) e' True by (simp add: segments_Cons)
      qed
      have H1: "\<forall>g \<in> H. data_of vm1 r g"
        using Cons.prems(2) vm_stepsD(3) [OF s1] by blast
      show ?thesis
        using Cons.IH [OF vm_stepsD(1) [OF s1] H1 pl un1]
      proof (elim disjE exE conjE)
        assume "load_entries F garbage f es vm1 = Inl NullDeref"
        then show ?thesis
          using True e1 by simp
      next
        fix vm2
        assume e2: "load_entries F garbage f es vm1 = Inr vm2" and s2: "vm_steps vm1 vm2 r (segs_run es) {}"
          and h2: "holds_segs vm2 r H (content f) es"
        have "holds vm2 r H (p_vaddr e) (unat (p_memsz e)) (seg_byte (content f) e)"
          using seg_pages_of [OF l] d by (intro holds_steps [OF h1 s2]) auto
        then have "holds_segs vm2 r H (content f) (e # es)"
          using h2 True by (simp add: holds_segs_def segments_Cons)
        moreover have "vm_steps vm vm2 r (segs_run (e # es)) {}"
          using vm_steps_trans [OF s1 s2] True by (simp add: segs_run_Cons)
        ultimately show ?thesis
          using True e1 e2 by simp
      qed
    qed
  qed
qed

end

end
