(* ===== verification/Exec_Correct.thy ===== *)
theory Exec_Correct
  imports Exec_Steps
begin

text \<open>
  Loading a whole program: the process and its first thread, the segments of \<open>Exec_Steps\<close>, the user stack and the
  command line.
\<close>

unbundle bit_operations_syntax

section \<open>A new thread\<close>

lemma entry_at_frame_plus:
  assumes "h < 2 ^ 20" and "x \<le> 4096"
  shows "entry_at (frame_va h + of_nat x) 0 = 4096 * h + x"
proof -
  have "unat (pgd_to_pa h + of_nat x) = 4096 * h + x"
    using pgd_to_pa_nat [OF assms(1)] assms by (simp add: unat_word_ariths(1) unat_of_nat64)
  then show ?thesis
    by (simp add: entry_at_def frame_va_def)
qed

lemma frame_va_Suc: "frame_va (Suc g) = frame_va g + 4096"
  using page_at_frame [of g 1] by (simp add: frame_va_def page_at_def)

lemma push_words_frame:
  assumes "h < 2 ^ 20"
  shows "length ws \<le> n \<Longrightarrow> n \<le> 512 \<Longrightarrow>
    \<exists>m'. push_words ws (frame_va h + of_nat (8 * n)) m = (frame_va h + of_nat (8 * (n - length ws)), m') \<and>
      (\<forall>f i. i < 512 \<longrightarrow> entry m' f i = (if f = h \<and> n - length ws \<le> i \<and> i < n then ws ! (n - 1 - i) else entry m f i))"
proof (induction ws arbitrary: n m)
  case Nil
  then show ?case
    by auto
next
  case (Cons w ws)
  then obtain k where n: "n = Suc k"
    by (cases n) auto
  have top: "frame_va h + of_nat (8 * n) - 8 = frame_va h + of_nat (8 * k)"
    by (simp add: n)
  have at: "entry_at (frame_va h + of_nat (8 * k)) 0 = 4096 * h + 8 * k"
    using Cons.prems(2) n by (intro entry_at_frame_plus [OF assms]) simp
  obtain m' where m': "push_words ws (frame_va h + of_nat (8 * k)) (m(4096 * h + 8 * k := w)) =
        (frame_va h + of_nat (8 * (k - length ws)), m')"
      "\<And>f i. i < 512 \<Longrightarrow> entry m' f i = (if f = h \<and> k - length ws \<le> i \<and> i < k then ws ! (k - 1 - i)
        else entry (m(4096 * h + 8 * k := w)) f i)"
  proof -
    have "length ws \<le> k" "k \<le> 512"
      using Cons.prems n by simp_all
    from Cons.IH [OF this, of "m(4096 * h + 8 * k := w)"] show ?thesis
      using that by blast
  qed
  have k: "k < 512"
    using Cons.prems(2) n by simp
  have "entry m' f i = (if f = h \<and> n - length (w # ws) \<le> i \<and> i < n then (w # ws) ! (n - 1 - i) else entry m f i)"
    if i: "i < 512" for f i
    unfolding m'(2) [OF i] entry_upd [OF k i] n using Cons.prems(1) n
    by (cases "i = k") (auto simp: nth_Cons')
  moreover have "push_words (w # ws) (frame_va h + of_nat (8 * n)) m = (frame_va h + of_nat (8 * (n - length (w # ws))), m')"
    unfolding push_words.simps top store_word_def at m'(1) by (simp add: n)
  ultimately show ?case
    by blast
qed

text \<open>The context of a thread: the words of \<open>X86Context\<close> at the top of the last frame of its kernel stack.\<close>

definition context_at :: "Thread \<Rightarrow> nat \<Rightarrow> bool" where
  "context_at t h \<longleftrightarrow> h < 2 ^ 20 \<and> th_native_context t = frame_va h + of_nat (8 * 490)"

lemma context_word:
  assumes "context_at t h" and "k \<le> 21"
  shows "load_word m (th_native_context t + of_nat (8 * k)) = entry m h (490 + k)"
    and "store_word m (th_native_context t + of_nat (8 * k)) w = m(4096 * h + 8 * (490 + k) := w)"
proof -
  have "th_native_context t + of_nat (8 * k) = frame_va h + of_nat (8 * (490 + k))"
    using assms(1) by (simp add: context_at_def)
  then have "entry_at (th_native_context t + of_nat (8 * k)) 0 = 4096 * h + 8 * (490 + k)"
    using assms entry_at_frame_plus [of h "8 * (490 + k)"] by (simp only: context_at_def) simp
  then show "load_word m (th_native_context t + of_nat (8 * k)) = entry m h (490 + k)"
      "store_word m (th_native_context t + of_nat (8 * k)) w = m(4096 * h + 8 * (490 + k) := w)"
    by (simp_all add: load_word_def store_word_def entry_def)
qed

lemma context_fields:
  "ctx_rdi = of_nat (8 * 10)" "ctx_rip = of_nat (8 * 17)" "ctx_cs = of_nat (8 * 18)" "ctx_rflags = of_nat (8 * 19)"
  "ctx_rsp = of_nat (8 * 20)" "ctx_ss = of_nat (8 * 21)"
  by (simp_all add: ctx_rdi_def ctx_rip_def ctx_cs_def ctx_rflags_def ctx_rsp_def ctx_ss_def)

text \<open>A user thread that will start at an entry point, with the given stack pointer and first argument.\<close>

definition user_context :: "(nat \<Rightarrow> u64) \<Rightarrow> Thread \<Rightarrow> u64 \<Rightarrow> u64 \<Rightarrow> u64 \<Rightarrow> bool" where
  "user_context m t ep sp arg \<longleftrightarrow>
    load_word m (th_native_context t + ctx_rip) = ep \<and> load_word m (th_native_context t + ctx_cs) = 0x1b \<and>
    load_word m (th_native_context t + ctx_rflags) = 0x202 \<and> load_word m (th_native_context t + ctx_rsp) = sp \<and>
    load_word m (th_native_context t + ctx_ss) = 0x23 \<and> load_word m (th_native_context t + ctx_rdi) = arg"

lemma user_context_entries:
  assumes "context_at t h"
  shows "user_context m t ep sp arg \<longleftrightarrow> entry m h 507 = ep \<and> entry m h 508 = 0x1b \<and> entry m h 509 = 0x202 \<and>
    entry m h 510 = sp \<and> entry m h 511 = 0x23 \<and> entry m h 500 = arg"
  unfolding user_context_def context_fields using context_word(1) [OF assms, of 10] context_word(1) [OF assms, of 17]
    context_word(1) [OF assms, of 18] context_word(1) [OF assms, of 19] context_word(1) [OF assms, of 20]
    context_word(1) [OF assms, of 21] by simp

lemma initial_frame_words:
  "length (initial_frame k ep) = 22" "initial_frame False ep ! 0 = 0x23" "initial_frame False ep ! 2 = 0x202"
  "initial_frame False ep ! 3 = 0x1b" "initial_frame False ep ! 4 = ep" "initial_frame False ep ! 11 = 0"
  by (simp_all add: initial_frame_def)

lemma Thread_new_ok:
  assumes inv: "bp.vm_inv vm r"
  shows "Thread_new buddy_algorithm vm False ep = Inl NullDeref \<or>
    (\<exists>t h vm'. Thread_new buddy_algorithm vm False ep = Inr (t, vm') \<and> vm_steps vm vm' r {} {} \<and> data_of vm' r h \<and>
      context_at t h \<and> th_entry_argument t = 0 \<and> user_context (mem vm') t ep (frame_va (Suc h)) 0)"
proof -
  have k: "(1 :: nat) < 31" by simp
  show ?thesis
    using bp.allocate_phys_ok [OF inv k]
  proof (elim disjE exE conjE)
    assume "allocate_phys buddy_algorithm vm (int 1) = Inl NullDeref"
    then show ?thesis
      by (simp add: Thread_new_def KERNEL_STACK_ORDER_def)
  next
    fix g vm1
    assume al: "allocate_phys buddy_algorithm vm (int 1) = Inr (g, vm1)" and inv1: "bp.vm_inv vm1 r"
      and st: "same_tables 4 (mem vm) (mem vm1) r" and ty: "typed (types (pgalloc vm)) AVAILABLE g (2 ^ 1)"
      and gb: "g + 2 ^ 1 \<le> 2 ^ 20" and kd: "keeps_data vm vm1 r"
      and df: "\<forall>f. g \<le> f \<longrightarrow> f < g + 2 ^ 1 \<longrightarrow> data_of vm1 r f"
    let ?h = "Suc g"
    have h: "?h < 2 ^ 20" "g < 2 ^ 20"
      using gb by simp_all
    have ks: "frame_va g + KERNEL_STACK_SIZE = frame_va ?h + of_nat (8 * 512)"
      by (simp add: KERNEL_STACK_SIZE_def KERNEL_STACK_ORDER_def push_bit_eq_mult frame_va_Suc)
    have fs: "frame_va (Suc ?h) = frame_va ?h + of_nat (8 * 512)"
      by (simp add: frame_va_Suc)
    obtain m' where m': "push_words (initial_frame False ep) (frame_va ?h + of_nat (8 * 512)) (mem vm1) =
          (frame_va ?h + of_nat (8 * 490), m')"
        "\<And>f i. i < 512 \<Longrightarrow> entry m' f i = (if f = ?h \<and> 490 \<le> i then initial_frame False ep ! (511 - i) else entry (mem vm1) f i)"
      using push_words_frame [OF h(1), of "initial_frame False ep" 512 "mem vm1"] by (auto simp: initial_frame_words)
    define t where "t = \<lparr>th_kernel_thread = False, th_entry_point = ep, th_entry_argument = 0,
        th_native_context = frame_va ?h + of_nat (8 * 490), th_kernel_stack = frame_va (Suc ?h)\<rparr>"
    have c: "context_at t ?h"
      using h by (simp add: context_at_def t_def)
    define vm' where "vm' = vm1\<lparr>mem := m'(4096 * ?h + 8 * 510 := frame_va (Suc ?h))\<rparr>"
    have new: "Thread_new buddy_algorithm vm False ep = Inr (t, vm')"
    proof -
      have "pgd_to_vpa g = Inr (frame_va g)"
        by (simp add: pgd_to_vpa_def pa_to_vpa_frame [OF h(2)])
      moreover have "prepare_initial_stack \<lparr>th_kernel_thread = False, th_entry_point = ep, th_entry_argument = 0,
          th_native_context = 0, th_kernel_stack = frame_va ?h + of_nat (8 * 512)\<rparr> (mem vm1) =
          (t, m'(4096 * ?h + 8 * 510 := frame_va (Suc ?h)))"
        unfolding prepare_initial_stack_def Thread.select_convs m'(1) case_prod_conv context_fields
        using context_word(2) [OF c, of 20 m'] fs by (simp add: t_def)
      moreover have "KERNEL_STACK_ORDER = int 1"
        by (simp add: KERNEL_STACK_ORDER_def)
      ultimately show ?thesis
        unfolding Thread_new_def using al by (simp only: andthen_Inr case_prod_conv ks) (simp add: vm'_def)
    qed
    have en: "entry (mem vm') f i = (if f = ?h \<and> i = 510 then frame_va (Suc ?h)
        else if f = ?h \<and> 490 \<le> i then initial_frame False ep ! (511 - i) else entry (mem vm1) f i)" if "i < 512" for f i
      using entry_upd [of 510 i m' ?h _ f] m'(2) [OF that] that by (simp add: vm'_def)
    have s1: "vm_steps vm vm1 r {} {}"
      unfolding vm_steps_def
    proof (intro conjI allI impI)
      fix va assume o: "vma_owned va"
      obtain i j k l where ix: "va_table_indicies va = (i, j, k, l)"
        by (metis prod.collapse)
      note p = vma_owned_path [OF o ix]
      show "get_mapping vm1 va = get_mapping vm va"
        unfolding bp.get_mapping_leaf [OF inv1 ix p(1)] bp.get_mapping_leaf [OF inv ix p(1)] leaf_cong [OF st p] ..
    qed (use inv1 kd in \<open>auto simp: keeps_data_def\<close>)
    have s2: "vm_steps vm1 vm' r {} {?h}"
      using df en by (intro data_write_steps [OF inv1 _ vm'_def]) (auto simp: vm'_def)
    have "\<not> data_of vm r ?h"
      using ty by (auto simp: data_frame_def typed_def)
    then have "vm_steps vm vm' r {} {}"
      using vm_steps_trans [OF s1 s2] unfolding vm_steps_def by auto
    moreover have "data_of vm' r ?h"
      using vm_stepsD(3) [OF s2, of ?h] df by simp
    moreover have "user_context (mem vm') t ep (frame_va (Suc ?h)) 0"
      unfolding user_context_entries [OF c] using en initial_frame_words(2-) by simp
    ultimately show ?thesis
      using new c by (intro disjI2 exI [of _ t] exI [of _ ?h] exI [of _ vm']) (simp add: t_def)
  qed
qed


section \<open>A new process\<close>

text \<open>The two shared entries of the top-level table are outside the VMA's own tree.\<close>

lemma shared_entry_tab:
  assumes ok: "tables_ok ts m r"
    and out: "\<And>f i. i < 512 \<Longrightarrow> f \<noteq> r \<or> i \<notin> {0x100, 0x1ff} \<Longrightarrow> entry m' f i = entry m f i"
  shows "owned p \<Longrightarrow> tab m' r p = tab m r p"
proof (induction p rule: rev_induct)
  case (snoc i p)
  have o: "owned p" "i < 512" "length p < 3"
    using owned_snoc [OF snoc.prems] by simp_all
  show ?case
  proof (cases "tab m r p")
    case None
    then show ?thesis
      using snoc.IH [OF o(1)] by (simp add: tab_snoc)
  next
    case (Some f)
    have "f \<noteq> r \<or> i \<notin> {0x100, 0x1ff}"
    proof (cases "p = []")
      case True
      then show ?thesis
        using snoc.prems by (simp add: owned_def)
    next
      case False
      then show ?thesis
        using tables_okD(1) [OF ok o(1) owned_Nil, of f] Some by auto
    qed
    then have "child m' f i = child m f i"
      using out [OF o(2)] by (intro child_cong) blast
    then show ?thesis
      using snoc.IH [OF o(1)] Some by (simp add: tab_snoc)
  qed
qed simp

lemma shared_entry_steps:
  assumes inv: "bp.vm_inv vm r" and vm': "vm' = vm\<lparr>mem := m'\<rparr>"
    and out: "\<And>f i. i < 512 \<Longrightarrow> f \<noteq> r \<or> i \<notin> {0x100, 0x1ff} \<Longrightarrow> entry m' f i = entry (mem vm) f i"
  shows "vm_steps vm vm' r {} {}"
proof -
  have ok: "tables_ok (types (pgalloc vm)) (mem vm) r"
    using inv by (simp add: bp.vm_inv_def)
  have tab: "tab m' r p = tab (mem vm) r p" if "owned p" for p
    using shared_entry_tab [OF ok _ that, of m'] out by blast
  have own: "f \<noteq> r \<or> i \<notin> {0x100, 0x1ff}" if "owned (p @ [i])" "tab (mem vm) r p = Some f" for p f i
  proof (cases "p = []")
    case True
    then show ?thesis
      using that by (simp add: owned_def)
  next
    case False
    then show ?thesis
      using tables_okD(1) [OF ok conjunct1 [OF owned_snoc [OF that(1)]] owned_Nil, of f] that(2) by auto
  qed
  have "tables_ok (types (pgalloc vm)) m' r"
    unfolding tables_ok_def
  proof (intro conjI allI impI)
    fix p f i
    assume o: "owned (p @ [i])" and t: "tab m' r p = Some f"
    have i: "owned p" "i < 512"
      using owned_snoc [OF o] by simp_all
    have t0: "tab (mem vm) r p = Some f"
      using t tab [OF i(1)] by simp
    have "entry m' f i = entry (mem vm) f i"
      using out [OF i(2)] own [OF o t0] by blast
    then show "get_flag (entry m' f i) PRESENT \<longleftrightarrow> child m' f i \<noteq> None"
      using tables_okD(3) [OF ok o t0] child_cong [of m' f i "mem vm"] by simp
  qed (use tables_okD(1,2) [OF ok] tab in simp_all)
  then have inv': "bp.vm_inv vm' r"
    using inv by (simp add: bp.vm_inv_def vm')
  have "get_mapping vm' va = get_mapping vm va" if o: "vma_owned va" for va
  proof -
    obtain i j k l where ix: "va_table_indicies va = (i, j, k, l)"
      by (metis prod.collapse)
    note p = vma_owned_path [OF o ix]
    have "leaf m' r [i, j, k] l = leaf (mem vm) r [i, j, k] l"
    proof (cases "tab (mem vm) r [i, j, k]")
      case (Some f)
      then have "f \<noteq> r"
        using tables_okD(1) [OF ok p(1) owned_Nil, of f] by auto
      then show ?thesis
        using Some tab [OF p(1)] out [OF p(2)] by (simp add: leaf_def)
    qed (use tab [OF p(1)] in \<open>simp add: leaf_def\<close>)
    then show ?thesis
      unfolding bp.get_mapping_leaf [OF inv' ix p(1)] bp.get_mapping_leaf [OF inv ix p(1)] by (simp add: vm')
  qed
  moreover have "f \<noteq> r" if "data_of vm r f" for f
    using that owned_Nil unfolding data_frame_def by fastforce
  ultimately show ?thesis
    unfolding vm_steps_def using inv' out tab by (simp add: vm' data_frame_def)
qed

lemma install_steps:
  assumes inv: "bp.vm_inv vm r"
  shows "\<exists>vm'. install_default_kernel_mapping (Some t) vm = Inr vm' \<and> vm_steps vm vm' r {} {}"
proof -
  have r: "r < 2 ^ 20"
    using bp.vm_inv_frame(1) [OF inv owned_Nil] by simp
  have b: "pgt_virt_base vm = frame_va r"
    using inv by (simp add: bp.vm_inv_def)
  define m' where "m' = ((mem vm)(4096 * r + 8 * 0x1ff := t 0x1ff))(4096 * r + 8 * 0x100 := t 0x100)"
  have "vm_steps vm (vm\<lparr>mem := m'\<rparr>) r {} {}"
  proof (rule shared_entry_steps [OF inv refl])
    fix f i :: nat
    assume i: "i < 512" and n: "f \<noteq> r \<or> i \<notin> {0x100, 0x1ff}"
    have "entry m' f i = (if f = r \<and> i = 0x100 then t 0x100 else entry ((mem vm)(4096 * r + 8 * 0x1ff := t 0x1ff)) f i)"
      unfolding m'_def using i by (intro entry_upd) simp_all
    also have "entry ((mem vm)(4096 * r + 8 * 0x1ff := t 0x1ff)) f i = (if f = r \<and> i = 0x1ff then t 0x1ff else entry (mem vm) f i)"
      using i by (intro entry_upd) simp_all
    finally show "entry m' f i = entry (mem vm) f i"
      using n by auto
  qed
  moreover have "install_default_kernel_mapping (Some t) vm = Inr (vm\<lparr>mem := m'\<rparr>)"
    unfolding install_default_kernel_mapping_def option.case Let_def b entry_at_frame [OF r] m'_def by simp
  ultimately show ?thesis
    by blast
qed

lemma create_process_user: "\<exists>k'. create_process k False = Inr (length (procs k), k')"
  by (simp add: create_process_def create_thread_def Let_def check_def)

text \<open>An allocator with at least one free page, and page 0 in use.\<close>

definition pages_ready :: "buddy PageAllocator \<Rightarrow> bool" where
  "pages_ready pa \<longleftrightarrow> buddy_cinv (types pa) (alg pa) \<and> 0 < length (types pa) \<and> length (types pa) \<le> 2 ^ 20 \<and>
    types pa ! 0 \<noteq> AVAILABLE \<and> avail (types pa) \<noteq> {}"

lemma Process_new_ok:
  assumes pa: "pages_ready pa"
  shows "Process_new buddy_algorithm (Some t) pa m k False ep = Inl NullDeref \<or>
    (\<exists>im r h k'. Process_new buddy_algorithm (Some t) pa m k False ep = Inr (im, k') \<and>
      create_process k False = Inr (im_pid im, k') \<and> bp.vm_inv (im_vma im) r \<and> data_of (im_vma im) r h \<and>
      context_at (im_main im) h \<and> th_entry_argument (im_main im) = 0 \<and>
      user_context (mem (im_vma im)) (im_main im) ep (frame_va (Suc h)) 0 \<and>
      (\<forall>va. vma_owned va \<longrightarrow> get_mapping (im_vma im) va = Inr None))"
proof -
  note P = pa [unfolded pages_ready_def]
  obtain r vm where vm: "VMA_new buddy_algorithm pa m = Inr vm" "bp.vm_inv vm r"
      "\<forall>q l. owned q \<longrightarrow> length q = 3 \<longrightarrow> leaf (mem vm) r q l = 0"
  proof -
    have "buddy_cinv (types pa) (alg pa)" "0 < length (types pa)" "length (types pa) \<le> 2 ^ 20" "types pa ! 0 \<noteq> AVAILABLE"
        "avail (types pa) \<noteq> {}"
      using P by simp_all
    from bpc.VMA_new_ok [OF this, of m] show ?thesis
      using that by blast
  qed
  have none: "get_mapping vm va = Inr None" if o: "vma_owned va" for va
  proof -
    obtain i j k l where ix: "va_table_indicies va = (i, j, k, l)"
      by (metis prod.collapse)
    note p = vma_owned_path [OF o ix]
    show ?thesis
      unfolding bp.get_mapping_leaf [OF vm(2) ix p(1)] using vm(3) p(1) by simp
  qed
  obtain vm1 where vm1: "install_default_kernel_mapping (Some t) vm = Inr vm1" "vm_steps vm vm1 r {} {}"
    using install_steps [OF vm(2)] by blast
  obtain k' where k': "create_process k False = Inr (length (procs k), k')"
    using create_process_user by blast
  show ?thesis
    using Thread_new_ok [OF vm_stepsD(1) [OF vm1(2)], of ep]
  proof (elim disjE exE conjE)
    assume "Thread_new buddy_algorithm vm1 False ep = Inl NullDeref"
    then show ?thesis
      using vm(1) vm1(1) k' by (simp add: Process_new_def)
  next
    fix th h vm2
    assume th: "Thread_new buddy_algorithm vm1 False ep = Inr (th, vm2)" and s2: "vm_steps vm1 vm2 r {} {}"
      and d: "data_of vm2 r h" "context_at th h" "th_entry_argument th = 0" "user_context (mem vm2) th ep (frame_va (Suc h)) 0"
    have "get_mapping vm2 va = Inr None" if "vma_owned va" for va
      using vm_stepsD(2) [OF s2 that] vm_stepsD(2) [OF vm1(2) that] none [OF that] by simp
    moreover have "Process_new buddy_algorithm (Some t) pa m k False ep =
        Inr (\<lparr>im_pid = length (procs k), im_vma = vm2, im_main = th\<rparr>, k')"
      using vm(1) vm1(1) k' th by (simp add: Process_new_def)
    ultimately show ?thesis
      using vm_stepsD(1) [OF s2] d k'
      by (intro disjI2 exI [of _ "\<lparr>im_pid = length (procs k), im_vma = vm2, im_main = th\<rparr>"] exI [of _ r] exI [of _ h] exI [of _ k'])
        simp
  qed
qed


section \<open>The stack and the command line\<close>

lemma log2ceil_small [simp]: "log2ceil 1 = 0" "log2ceil 2 = 1"
proof -
  show "log2ceil 1 = 0"
    using log2ceil_bounds [of 1] by (cases "log2ceil 1") simp_all
  have "(2 :: nat) \<le> 2 ^ log2ceil 2" "(2 :: nat) ^ log2ceil 2 < 4"
    using log2ceil_bounds [of 2] by simp_all
  then show "log2ceil 2 = 1"
    by (cases "log2ceil 2"; cases "log2ceil 2 - 1") simp_all
qed

lemma low_pages:
  "i < 2 \<Longrightarrow> vma_owned (page_at 0x100000 i)" "i < 1 \<Longrightarrow> vma_owned (page_at 0x102000 i)"
  "run_of 0x100000 2 = {0x100, 0x101}" "run_of 0x102000 1 = {0x102}"
proof -
  have two: "{..<2 :: nat} = {0, 1}" "{..<1 :: nat} = {0}"
    by auto
  show "run_of 0x100000 2 = {0x100, 0x101}" "run_of 0x102000 1 = {0x102}"
    unfolding run_of_def two by (simp_all add: page_at_def vpn_def)
  show "vma_owned (page_at 0x100000 i)" if "i < 2"
    using that by (auto simp: less_2_cases_iff vma_owned_def indices_vpn page_at_def vpn_def)
  show "vma_owned (page_at 0x102000 i)" if "i < 1"
    using that by (auto simp: vma_owned_def indices_vpn vpn_def)
qed

lemma holds_mono: "holds vm r H va n bs \<Longrightarrow> H' \<subseteq> H \<Longrightarrow> holds vm r H' va n bs"
  unfolding holds_def by blast

text \<open>Writing one word of the context.\<close>

lemma context_write:
  assumes inv: "bp.vm_inv vm r" and d: "data_of vm r h" and c: "context_at t h" and k: "k \<le> 21"
    and vm': "vm' = vm\<lparr>mem := store_word (mem vm) (th_native_context t + of_nat (8 * k)) w\<rparr>"
  shows "vm_steps vm vm' r {} {h}"
    "i < 512 \<Longrightarrow> entry (mem vm') h i = (if i = 490 + k then w else entry (mem vm) h i)"
proof -
  have m: "vm' = vm\<lparr>mem := (mem vm)(4096 * h + 8 * (490 + k) := w)\<rparr>"
    unfolding vm' context_word(2) [OF c k] ..
  have en: "entry ((mem vm)(4096 * h + 8 * (490 + k) := w)) f i = (if f = h \<and> i = 490 + k then w else entry (mem vm) f i)"
    if "i < 512" for f i
    using k that by (intro entry_upd) simp_all
  show "vm_steps vm vm' r {} {h}"
    using d en by (intro data_write_steps [OF inv _ m]) auto
  show "i < 512 \<Longrightarrow> entry (mem vm') h i = (if i = 490 + k then w else entry (mem vm) h i)"
    using en by (simp add: m)
qed

lemma allocate_user_stack_ok:
  assumes inv: "bp.vm_inv vm r" and d: "data_of vm r h" and c: "context_at t h"
  shows "allocate_user_stack buddy_algorithm vm t 0x100000 0x2000 = Inl NullDeref \<or>
    (\<exists>vm'. allocate_user_stack buddy_algorithm vm t 0x100000 0x2000 = Inr vm' \<and>
      vm_steps vm vm' r {0x100, 0x101} {h} \<and> holds vm' r {h} 0x100000 0x2000 (\<lambda>_. 0) \<and>
      (\<forall>i < 512. entry (mem vm') h i = (if i = 510 then 0x102000 else entry (mem vm) h i)))"
proof -
  have pc: "page_count 0x2000 = int 2"
    by (simp add: page_count_pages)
  have k: "(2 :: nat) ^ log2ceil (of_nat 2) = 2"
    by simp
  have o: "\<forall>i < 2 ^ log2ceil (of_nat 2). vma_owned (page_at 0x100000 i)"
    unfolding k using low_pages(1) by blast
  have b: "0 < (2 :: nat)" "(2 :: nat) \<le> 2 ^ 30"
    by simp_all
  show ?thesis
    using allocate_block [OF inv b refl o] unfolding k
  proof (elim disjE exE conjE)
    assume "allocate_virt buddy_algorithm vm 0x100000 (int 2) = Inl NullDeref"
    then show ?thesis
      by (simp add: allocate_user_stack_def pc)
  next
    fix g vm1
    assume al: "allocate_virt buddy_algorithm vm 0x100000 (int 2) = Inr (True, vm1)" and nb: "new_block vm vm1 r 0x100000 2 g"
      and z: "\<forall>f i. f \<in> {g ..< g + 2} \<longrightarrow> i < 512 \<longrightarrow> entry (mem vm1) f i = 0"
    have z': "entry (mem vm1) f i = 0" if "f \<in> {g ..< g + 2}" "i < 512" for f i
      using z that by blast
    have Hd: "\<forall>f \<in> {h}. data_of vm r f"
      using d by simp
    have fit: "unat (0x100000 :: u64) mod 4096 + length ([] :: u8 list) \<le> 4096 * 2" "0 < (2 :: nat)"
      by simp_all
    obtain vm2 where cp: "copy_to vm1 0x100000 [] = Inr (True, vm2)" and s1: "vm_steps vm vm2 r (run_of 0x100000 2) {}"
      and ho: "\<forall>N. unat (0x100000 :: u64) mod 4096 + N \<le> 4096 * 2 \<longrightarrow>
        holds vm2 r {h} 0x100000 N (\<lambda>i. if i < length ([] :: u8 list) then [] ! i else 0)"
      using copy_to_block [OF nb z' Hd fit] by blast
    have "vm2 = vm1"
      using cp by (auto simp: copy_to_def andthen_eq_Inr split: option.splits)
    then have s: "vm_steps vm vm1 r {0x100, 0x101} {}" and h1: "holds vm1 r {h} 0x100000 0x2000 (\<lambda>_. 0)"
      using s1 ho low_pages(3) by simp_all
    define vm' where "vm' = vm1\<lparr>mem := store_word (mem vm1) (th_native_context t + of_nat (8 * 20)) 0x102000\<rparr>"
    have k20: "(20 :: nat) \<le> 21"
      by simp
    note w = context_write [OF vm_stepsD(1) [OF s] vm_stepsD(3) [OF s d] c k20 vm'_def]
    have al': "allocate_user_stack buddy_algorithm vm t 0x100000 0x2000 = Inr vm'"
      unfolding allocate_user_stack_def pc al andthen_Inr case_prod_conv vm'_def context_fields by simp
    moreover have "vm_steps vm vm' r {0x100, 0x101} {h}"
      using vm_steps_trans [OF s w(1)] by simp
    moreover have "holds vm' r {h} 0x100000 0x2000 (\<lambda>_. 0)"
      using holds_steps [OF h1 w(1)] by simp
    moreover have "entry (mem vm') h i = (if i = 510 then 0x102000 else entry (mem vm) h i)" if "i < 512" for i
      using w(2) [OF that] vm_stepsD(4) [OF s d _ that] by simp
    ultimately show ?thesis
      by blast
  qed
qed

definition arg_pages :: "bytes \<Rightarrow> nat set" where
  "arg_pages cs = (if cs = [] then {} else {0x102})"

definition arg_pointer :: "bytes \<Rightarrow> u64" where
  "arg_pointer cs = (if cs = [] then 0 else 0x102000)"

text \<open>The page of the command line: its characters, and a terminator if it is shorter than the page.\<close>

definition holds_args :: "buddy vma \<Rightarrow> nat \<Rightarrow> nat set \<Rightarrow> bytes \<Rightarrow> bool" where
  "holds_args vm r H cs \<longleftrightarrow> cs \<noteq> [] \<longrightarrow> holds vm r H 0x102000 4096 (\<lambda>i. if i < length cs then cs ! i else 0)"

lemma entry_arguments_ok:
  assumes inv: "bp.vm_inv (im_vma im) r" and d: "data_of (im_vma im) r h" and c: "context_at (im_main im) h"
    and a0: "th_entry_argument (im_main im) = 0" and len: "string_length cmdline = length (chars cmdline)" "length (chars cmdline) \<le> 4096"
  shows "entry_arguments buddy_algorithm cmdline im = Inl NullDeref \<or>
    (\<exists>im'. entry_arguments buddy_algorithm cmdline im = Inr (True, im') \<and>
      vm_steps (im_vma im) (im_vma im') r (arg_pages (chars cmdline)) {h} \<and> holds_args (im_vma im') r {h} (chars cmdline) \<and>
      context_at (im_main im') h \<and> im_pid im' = im_pid im \<and>
      (\<forall>i < 512. entry (mem (im_vma im')) h i = (if i = 500 then arg_pointer (chars cmdline) else entry (mem (im_vma im)) h i)))"
proof -
  let ?vm = "im_vma im" and ?t = "im_main im" and ?cs = "chars cmdline"
  let ?t' = "?t\<lparr>th_entry_argument := 1\<rparr>"
  have c': "context_at ?t' h"
    using c by (simp add: context_at_def)
  have add: "add_entry_argument ?t m arg = (?t', store_word m (th_native_context ?t + of_nat (8 * 10)) arg)" for m arg
    using a0 by (simp add: add_entry_argument_def Let_def context_fields)
  have k10: "(10 :: nat) \<le> 21"
    by simp
  show ?thesis
  proof (cases "?cs = []")
    case True
    define vm' where "vm' = ?vm\<lparr>mem := store_word (mem ?vm) (th_native_context ?t + of_nat (8 * 10)) 0\<rparr>"
    note w = context_write [OF inv d c k10 vm'_def]
    have "entry_arguments buddy_algorithm cmdline im = Inr (True, im\<lparr>im_vma := vm', im_main := ?t'\<rparr>)"
      using True len(1) by (simp add: entry_arguments_def add vm'_def)
    then show ?thesis
      using w c' True by (auto simp: arg_pages_def arg_pointer_def holds_args_def)
  next
    case False
    have k: "(2 :: nat) ^ log2ceil (of_nat 1) = 1"
      by simp
    have o: "\<forall>i < 2 ^ log2ceil (of_nat 1). vma_owned (page_at 0x102000 i)"
      unfolding k using low_pages(2) by blast
    have b: "0 < (1 :: nat)" "(1 :: nat) \<le> 2 ^ 30"
      by simp_all
    have pos: "0 < string_length cmdline"
      using False len(1) by simp
    show ?thesis
      using allocate_block [OF inv b refl o] unfolding k
    proof (elim disjE exE conjE)
      assume "allocate_virt buddy_algorithm ?vm 0x102000 (int 1) = Inl NullDeref"
      then show ?thesis
        using pos by (simp add: entry_arguments_def)
    next
      fix g vm1
      assume al: "allocate_virt buddy_algorithm ?vm 0x102000 (int 1) = Inr (True, vm1)" and nb: "new_block ?vm vm1 r 0x102000 1 g"
        and z: "\<forall>f i. f \<in> {g ..< g + 1} \<longrightarrow> i < 512 \<longrightarrow> entry (mem vm1) f i = 0"
      have z': "entry (mem vm1) f i = 0" if "f \<in> {g ..< g + 1}" "i < 512" for f i
        using z that by blast
      have Hd: "\<forall>f \<in> {h}. data_of ?vm r f"
        using d by simp
      have fit: "unat (0x102000 :: u64) mod 4096 + length ?cs \<le> 4096 * 1" "0 < (1 :: nat)"
        using len(2) by simp_all
      obtain vm2 where cp: "copy_to vm1 0x102000 ?cs = Inr (True, vm2)" and s: "vm_steps ?vm vm2 r (run_of 0x102000 1) {}"
        and ho: "\<forall>N. unat (0x102000 :: u64) mod 4096 + N \<le> 4096 * 1 \<longrightarrow>
          holds vm2 r {h} 0x102000 N (\<lambda>i. if i < length ?cs then ?cs ! i else 0)"
        using copy_to_block [OF nb z' Hd fit] by blast
      have h2: "holds vm2 r {h} 0x102000 4096 (\<lambda>i. if i < length ?cs then ?cs ! i else 0)"
        using ho by simp
      define vm' where "vm' = vm2\<lparr>mem := store_word (mem vm2) (th_native_context ?t + of_nat (8 * 10)) 0x102000\<rparr>"
      note w = context_write [OF vm_stepsD(1) [OF s] vm_stepsD(3) [OF s d] c k10 vm'_def]
      have "entry_arguments buddy_algorithm cmdline im = Inr (True, im\<lparr>im_vma := vm', im_main := ?t'\<rparr>)"
        using pos al cp by (simp add: entry_arguments_def add vm'_def)
      moreover have "vm_steps ?vm vm' r (arg_pages ?cs) {h}"
        using vm_steps_trans [OF s w(1)] False low_pages(4) by (simp add: arg_pages_def)
      moreover have "holds_args vm' r {h} ?cs"
        using holds_steps [OF h2 w(1)] by (simp add: holds_args_def)
      moreover have "entry (mem vm') h i = (if i = 500 then arg_pointer ?cs else entry (mem ?vm) h i)" if "i < 512" for i
        using w(2) [OF that] vm_stepsD(4) [OF s d _ that] False by (simp add: arg_pointer_def)
      ultimately show ?thesis
        using c' by (intro disjI2 exI [of _ "im\<lparr>im_vma := vm', im_main := ?t'\<rparr>"]) simp
    qed
  qed
qed


section \<open>Loading a program\<close>

text \<open>
  A file the loader accepts: a header it supports, all program headers inside the file, segments that can be placed one after the
  other, away from the pages of the stack and the command line.
\<close>

definition loadable_image :: "bytes \<Rightarrow> bool" where
  "loadable_image c \<longleftrightarrow> 64 \<le> length c \<and>
    (let eh = elf_header (take 64 c) in header_accepted eh \<and>
      (\<forall>j < unat (phnum eh). unat (phoff eh) + j * unat (phentsize eh) + 56 \<le> length c) \<and>
      placeable c (headers c eh) \<and> segs_run (headers c eh) \<inter> {0x100, 0x101, 0x102} = {})"

definition image_headers :: "bytes \<Rightarrow> ELF64ProgramHeaderEntry list" where
  "image_headers c = headers c (elf_header (take 64 c))"

lemma loadable_imageD:
  assumes "loadable_image c" and "eh = elf_header (take 64 c)"
  shows "64 \<le> length c" "header_accepted eh"
    "j < unat (phnum eh) \<Longrightarrow> unat (phoff eh) + j * unat (phentsize eh) + 56 \<le> length c"
    "placeable c (image_headers c)" "segs_run (image_headers c) \<inter> {0x100, 0x101, 0x102} = {}"
  using assms by (simp_all add: loadable_image_def image_headers_def Let_def)

text \<open>
  What a loaded process looks like: its thread starts at the entry point of the header with the stack below 0x102000 and the
  address of the command line, or null, as its argument; its memory holds the segments, the cleared stack, and the command line.
\<close>

definition process_loaded :: "bytes \<Rightarrow> bytes \<Rightarrow> buddy Image \<Rightarrow> bool" where
  "process_loaded c cs im \<longleftrightarrow> (\<exists>r. bp.vm_inv (im_vma im) r \<and>
    user_context (mem (im_vma im)) (im_main im) (entry_point (elf_header (take 64 c))) 0x102000 (arg_pointer cs) \<and>
    holds_segs (im_vma im) r {} c (image_headers c) \<and> holds (im_vma im) r {} 0x100000 0x2000 (\<lambda>_. 0) \<and>
    holds_args (im_vma im) r {} cs)"

lemma user_context_after:
  assumes "context_at t h" and "context_at t' h" and "user_context m t ep sp0 a0"
    and "\<And>i. i < 512 \<Longrightarrow> i \<noteq> 510 \<Longrightarrow> i \<noteq> 500 \<Longrightarrow> entry m' h i = entry m h i"
    and "entry m' h 510 = sp" and "entry m' h 500 = a"
  shows "user_context m' t' ep sp a"
  using assms(3-) unfolding user_context_entries [OF assms(1)] user_context_entries [OF assms(2)] by simp

context readable_file
begin

lemma load_headers_image:
  assumes v: "valid f" and l: "loadable_image (content f)" and eh: "eh = elf_header (take 64 (content f))"
  shows "load_headers F buddy_algorithm garbage f eh (unat (phnum eh)) 0 vm =
    andthen (load_entries F garbage f (image_headers (content f)) vm) (\<lambda>vm. Inr (True, vm))"
proof -
  note L = loadable_imageD [OF l eh]
  have n: "0 + unat (phnum eh) \<le> 2 ^ 16"
    using unsigned_less [of "phnum eh", where 'a = nat] by simp
  have b: "unat (phoff eh) + j * unat (phentsize eh) + 56 \<le> length (content f)" if "0 \<le> j" "j < 0 + unat (phnum eh)" for j
    using L(3) that(2) by simp
  show ?thesis
    using load_headers_entries [OF v b n, of garbage vm] by (simp add: image_headers_def headers_def eh)
qed

text \<open>The beginning of \<open>load\<close>: the header is read and accepted.\<close>

lemma load_start:
  assumes v: "valid f" and l: "loadable_image (content f)" and eh: "eh = elf_header (take 64 (content f))"
  shows "\<exists>f'. valid f' \<and> content f' = content f \<and> ElfLoader_load F buddy_algorithm template garbage f cmdline pa m k =
    andthen (Process_new buddy_algorithm template pa m k False (entry_point eh)) (\<lambda>(im, k).
    andthen (load_entries F garbage f' (image_headers (content f)) (im_vma im)) (\<lambda>vm.
    andthen (allocate_user_stack buddy_algorithm vm (im_main im) 0x100000 0x2000) (\<lambda>vm.
    andthen (entry_arguments buddy_algorithm cmdline (im\<lparr>im_vma := vm\<rparr>)) (\<lambda>(ok, im).
      Inr \<lparr>ld_process = (if ok then Some im else None), ld_kernel = k,
           ld_pages = pgalloc (im_vma im), ld_mem = mem (im_vma im)\<rparr>))))"
proof -
  note L = loadable_imageD [OF l eh]
  have c: "0 < length (content f)" "0 + 64 \<le> length (content f)" "64 \<le> length (fresh garbage 64)"
    using L(1) by (auto intro: less_le_trans [OF _ L(1)])
  obtain f1 where f1: "f_seek F f (of_nat 0) SeekAbsolute = Inr f1" "valid f1" "content f1 = content f" "pos f1 = 0"
    using seek_inside [OF v c(1)] by blast
  have p1: "pos f1 < length (content f1)" "pos f1 + 64 \<le> length (content f1)"
    using f1 c by simp_all
  obtain f2 where f2: "f_read F f1 (fresh garbage 64) (of_nat 64) =
        Inr (of_nat 64, take 64 (drop (pos f1) (content f1)) @ drop 64 (fresh garbage 64), f2)"
      "valid f2" "content f2 = content f1"
    using read_inside [OF f1(2) p1 c(3)] by blast
  have rd: "f_read F f1 (fresh garbage 64) 64 = Inr (64, take 64 (content f), f2)"
    using f2(1) f1(3,4) by simp
  have s64: "sint (64 :: u32) = 64"
    by simp
  have l2: "loadable_image (content f2)" and eh2: "eh = elf_header (take 64 (content f2))"
    using l eh f2(3) f1(3) by simp_all
  have f0: "f_seek F f 0 SeekAbsolute = Inr f1"
    using f1(1) by simp
  show ?thesis
    unfolding ElfLoader_load_def f0 andthen_Inr rd case_prod_conv Let_def s64 eh [symmetric]
    using f2 f1(3) L(2) load_headers_image [OF f2(2) l2 eh2, of garbage]
    by (intro exI [of _ f2]) (simp add: andthen_assoc case_prod_unfold)
qed

text \<open>Unless the machine runs out of memory, the process is loaded.\<close>

lemma load_ok:
  assumes v: "valid f" and l: "loadable_image (content f)" and pa: "pages_ready pa"
    and len: "string_length cmdline = length (chars cmdline)" "length (chars cmdline) \<le> 4096"
  shows "ElfLoader_load F buddy_algorithm (Some t) garbage f cmdline pa m k = Inl NullDeref \<or>
    (\<exists>ld im. ElfLoader_load F buddy_algorithm (Some t) garbage f cmdline pa m k = Inr ld \<and>
      ld_process ld = Some im \<and> process_loaded (content f) (chars cmdline) im \<and>
      create_process k False = Inr (im_pid im, ld_kernel ld) \<and> ld_pages ld = pgalloc (im_vma im) \<and> ld_mem ld = mem (im_vma im))"
proof -
  define eh where "eh = elf_header (take 64 (content f))"
  note L = loadable_imageD [OF l eh_def]
  let ?es = "image_headers (content f)" and ?cs = "chars cmdline"
  obtain f' where f': "valid f'" "content f' = content f" and start: "ElfLoader_load F buddy_algorithm (Some t) garbage f cmdline pa m k =
    andthen (Process_new buddy_algorithm (Some t) pa m k False (entry_point eh)) (\<lambda>(im, k).
    andthen (load_entries F garbage f' ?es (im_vma im)) (\<lambda>vm.
    andthen (allocate_user_stack buddy_algorithm vm (im_main im) 0x100000 0x2000) (\<lambda>vm.
    andthen (entry_arguments buddy_algorithm cmdline (im\<lparr>im_vma := vm\<rparr>)) (\<lambda>(ok, im).
      Inr \<lparr>ld_process = (if ok then Some im else None), ld_kernel = k,
           ld_pages = pgalloc (im_vma im), ld_mem = mem (im_vma im)\<rparr>))))"
    using load_start [OF v l eh_def] by blast
  show ?thesis
    using Process_new_ok [OF pa, of t m k "entry_point eh"]
  proof (elim disjE exE conjE)
    assume "Process_new buddy_algorithm (Some t) pa m k False (entry_point eh) = Inl NullDeref"
    then show ?thesis
      by (simp add: start)
  next
    fix im0 r h k'
    assume np: "Process_new buddy_algorithm (Some t) pa m k False (entry_point eh) = Inr (im0, k')"
      and cp: "create_process k False = Inr (im_pid im0, k')" and inv0: "bp.vm_inv (im_vma im0) r"
      and d0: "data_of (im_vma im0) r h" and c0: "context_at (im_main im0) h" and a0: "th_entry_argument (im_main im0) = 0"
      and u0: "user_context (mem (im_vma im0)) (im_main im0) (entry_point eh) (frame_va (Suc h)) 0"
      and none: "\<forall>va. vma_owned va \<longrightarrow> get_mapping (im_vma im0) va = Inr None"
    have pl: "placeable (content f') ?es"
      using L(4) f'(2) by simp
    have un: "\<forall>e \<in> set (segments ?es). get_mapping (im_vma im0) (p_vaddr e) = Inr None"
      using none seg_start(1) [OF placeable_loadable [OF pl]] by blast
    have Hd: "\<forall>g \<in> {h}. data_of (im_vma im0) r g"
      using d0 by simp
    show ?thesis
      using load_entries_ok [OF f'(1) inv0 Hd pl un, of garbage]
    proof (elim disjE exE conjE)
      assume "load_entries F garbage f' ?es (im_vma im0) = Inl NullDeref"
      then show ?thesis
        by (simp add: start np)
    next
      fix vm1
      assume e1: "load_entries F garbage f' ?es (im_vma im0) = Inr vm1" and s1: "vm_steps (im_vma im0) vm1 r (segs_run ?es) {}"
        and h1: "holds_segs vm1 r {h} (content f') ?es"
      note inv1 = vm_stepsD(1) [OF s1] and d1 = vm_stepsD(3) [OF s1 d0]
      show ?thesis
        using allocate_user_stack_ok [OF inv1 d1 c0]
      proof (elim disjE exE conjE)
        assume "allocate_user_stack buddy_algorithm vm1 (im_main im0) 0x100000 0x2000 = Inl NullDeref"
        then show ?thesis
          by (simp add: start np e1)
      next
        fix vm2
        assume e2: "allocate_user_stack buddy_algorithm vm1 (im_main im0) 0x100000 0x2000 = Inr vm2"
          and s2: "vm_steps vm1 vm2 r {0x100, 0x101} {h}" and st2: "holds vm2 r {h} 0x100000 0x2000 (\<lambda>_. 0)"
          and en2: "\<forall>i < 512. entry (mem vm2) h i = (if i = 510 then 0x102000 else entry (mem vm1) h i)"
        let ?im = "im0\<lparr>im_vma := vm2\<rparr>"
        have args: "entry_arguments buddy_algorithm cmdline ?im = Inl NullDeref \<or>
          (\<exists>im'. entry_arguments buddy_algorithm cmdline ?im = Inr (True, im') \<and>
            vm_steps (im_vma ?im) (im_vma im') r (arg_pages ?cs) {h} \<and> holds_args (im_vma im') r {h} ?cs \<and>
            context_at (im_main im') h \<and> im_pid im' = im_pid ?im \<and>
            (\<forall>i < 512. entry (mem (im_vma im')) h i = (if i = 500 then arg_pointer ?cs else entry (mem (im_vma ?im)) h i)))"
          using vm_stepsD(1) [OF s2] vm_stepsD(3) [OF s2 d1] c0 a0 len by (intro entry_arguments_ok) simp_all
        then show ?thesis
        proof (elim disjE exE conjE)
          assume "entry_arguments buddy_algorithm cmdline ?im = Inl NullDeref"
          then show ?thesis
            by (simp add: start np e1 e2)
        next
          fix im'
          assume e3: "entry_arguments buddy_algorithm cmdline ?im = Inr (True, im')"
            and s3: "vm_steps (im_vma ?im) (im_vma im') r (arg_pages ?cs) {h}" and ar: "holds_args (im_vma im') r {h} ?cs"
            and c3: "context_at (im_main im') h" and pid: "im_pid im' = im_pid ?im"
            and en3: "\<forall>i < 512. entry (mem (im_vma im')) h i = (if i = 500 then arg_pointer ?cs else entry (mem (im_vma ?im)) h i)"
          have s3': "vm_steps vm2 (im_vma im') r (arg_pages ?cs) {h}"
            using s3 by simp
          have ap: "arg_pages ?cs \<subseteq> {0x102}"
            by (simp add: arg_pages_def)
          have "holds_segs vm2 r {h} (content f') ?es"
            using L(5) by (intro holds_segs_steps [OF h1 s2 _ _ pl]) auto
          then have "holds_segs (im_vma im') r {h} (content f') ?es"
            using L(5) ap by (intro holds_segs_steps [OF _ s3' _ _ pl]) auto
          then have "holds_segs (im_vma im') r {} (content f) ?es"
            using holds_mono f'(2) unfolding holds_segs_def by fastforce
          moreover have "holds (im_vma im') r {} 0x100000 0x2000 (\<lambda>_. 0)"
          proof -
            have "pages_of 0x100000 0x2000 \<subseteq> {0x100, 0x101}"
              using run_pages_of [of "0x100000" "0x2000" 2] low_pages(3) by simp
            then have "holds (im_vma im') r {h} 0x100000 0x2000 (\<lambda>_. 0)"
              using ap by (intro holds_steps [OF st2 s3']) auto
            then show ?thesis
              by (rule holds_mono) simp
          qed
          moreover have "holds_args (im_vma im') r {} ?cs"
            using ar holds_mono [of "im_vma im'" r "{h}"] by (auto simp: holds_args_def)
          moreover have "user_context (mem (im_vma im')) (im_main im') (entry_point eh) 0x102000 (arg_pointer ?cs)"
          proof (rule user_context_after [OF c0 c3 u0])
            fix i :: nat
            assume "i < 512" "i \<noteq> 510" "i \<noteq> 500"
            then show "entry (mem (im_vma im')) h i = entry (mem (im_vma im0)) h i"
              using en2 en3 vm_stepsD(4) [OF s1 d0] by simp
          qed (use en2 en3 in simp_all)
          ultimately have "process_loaded (content f) ?cs im'"
            using vm_stepsD(1) [OF s3] unfolding process_loaded_def eh_def by blast
          then show ?thesis
            using pid cp by (simp add: start np e1 e2 e3)
        qed
      qed
    qed
  qed
qed

end

end
