(* ===== verification/Exec_Room.thy ===== *)
theory Exec_Room
  imports Exec_Correct
begin

text \<open>
  When loading cannot run out of memory: the number of free aligned blocks of one order falls by at most one per allocation
  of that order or a smaller one, so a count of the allocations bounds what an operation needs.
\<close>

section \<open>Free aligned blocks\<close>

definition free_blocks_of :: "PageDescriptorType list \<Rightarrow> nat \<Rightarrow> nat set" where
  "free_blocks_of ts k = {q. {q * 2 ^ k ..< q * 2 ^ k + 2 ^ k} \<subseteq> avail ts}"

definition room :: "buddy PageAllocator \<Rightarrow> nat \<Rightarrow> nat \<Rightarrow> bool" where
  "room pa k n \<longleftrightarrow> n \<le> card (free_blocks_of (types pa) k)"

lemma finite_free_blocks [simp]: "finite (free_blocks_of ts k)"
proof (rule finite_subset)
  show "free_blocks_of ts k \<subseteq> {..length ts}"
  proof
    fix q assume "q \<in> free_blocks_of ts k"
    then have "q * 2 ^ k \<in> avail ts"
      by (auto simp: free_blocks_of_def)
    then have "q * 2 ^ k < length ts"
      by (simp add: avail_def)
    moreover have "q * 1 \<le> q * 2 ^ k"
      by (rule mult_le_mono2) simp
    ultimately have "q < length ts"
      by linarith
    then show "q \<in> {..length ts}"
      by simp
  qed
qed simp

lemma room_alloc:
  assumes c: "buddy_cinv (types pa) (alg pa)" and jk: "j \<le> k" and k: "k < MAX_ORDER" and room: "room pa k (Suc n)"
  shows "\<exists>p pa'. PageAllocator_alloc_pages buddy_algorithm pa (int j) = Inr (p, pa') \<and> buddy_cinv (types pa') (alg pa') \<and>
    (\<forall>n. room pa k (Suc n) \<longrightarrow> room pa' k n)"
proof -
  have j: "j < MAX_ORDER" "j < 31"
    using jk k by (simp_all add: MAX_ORDER_def)
  have b: "buddy_inv (length (types pa)) (alg pa)" "free_set (length (types pa)) (alg pa) = avail (types pa)"
    using c by (simp_all add: buddy_cinv_def)
  have "free_blocks_of (types pa) k \<noteq> {}"
    using room by (auto simp: room_def)
  then obtain q where q: "{q * 2 ^ k ..< q * 2 ^ k + 2 ^ k} \<subseteq> avail (types pa)"
    by (auto simp: free_blocks_of_def)
  have le: "(2 :: nat) ^ j \<le> 2 ^ k"
    using jk by (intro power_increasing) simp_all
  have dvd: "(2 :: nat) ^ j dvd q * 2 ^ k"
    using jk by (intro dvd_mult) (rule le_imp_power_dvd)
  have sub: "{q * 2 ^ k ..< q * 2 ^ k + 2 ^ j} \<subseteq> free_set (length (types pa)) (alg pa)"
  proof -
    have "{q * 2 ^ k ..< q * 2 ^ k + 2 ^ j} \<subseteq> {q * 2 ^ k ..< q * 2 ^ k + 2 ^ k}"
      using le by (intro ivl_subset [THEN iffD2]) simp
    then show ?thesis
      unfolding b(2) using q by (rule subset_trans)
  qed
  have "\<exists>p s'. alg_alloc_pages buddy_algorithm (types pa) (alg pa) (int j) = Inr (Some p, s')"
    using buddy_alloc_complete [OF b(1) j(1) dvd sub] by simp
  then have ne: "PageAllocator_alloc_pages buddy_algorithm pa (int j) \<noteq> Inl NullDeref"
  proof (elim exE)
    fix p s'
    assume a: "alg_alloc_pages buddy_algorithm (types pa) (alg pa) (int j) = Inr (Some p, s')"
    then have "typed (types pa) AVAILABLE p (2 ^ j)"
      using bp.alloc_law [OF c j(2)] by (auto simp del: buddy_alg_simps)
    then show ?thesis
      using a j(2) by (simp add: PageAllocator_alloc_pages_def retype_typed del: buddy_alg_simps)
  qed
  then obtain p s' where al: "PageAllocator_alloc_pages buddy_algorithm pa (int j) =
        Inr (p, \<lparr>types = mark ALLOCATED p (2 ^ j) (types pa), alg = s'\<rparr>)" "buddy_shape p j"
      "buddy_cinv (mark ALLOCATED p (2 ^ j) (types pa)) s'"
    using bp.alloc_pages_cases [OF c j(2)] by blast
  have "2 ^ j dvd p"
    using al(2) by (simp add: buddy_shape_def is_correct_alignment_for_order_def)
  have "free_blocks_of (types pa) k - {p div 2 ^ k} \<subseteq> free_blocks_of (mark ALLOCATED p (2 ^ j) (types pa)) k"
  proof
    fix x assume x: "x \<in> free_blocks_of (types pa) k - {p div 2 ^ k}"
    have "y \<notin> {p ..< p + 2 ^ j}" if y: "y \<in> {x * 2 ^ k ..< x * 2 ^ k + 2 ^ k}" for y
    proof
      assume yp: "y \<in> {p ..< p + 2 ^ j}"
      have "y div 2 ^ j = p div 2 ^ j"
        using yp \<open>2 ^ j dvd p\<close> by (auto elim!: dvdE simp: mult.commute intro!: div_nat_eqI)
      moreover have "z div 2 ^ k = z div 2 ^ j div 2 ^ (k - j)" for z :: nat
        using jk by (simp flip: div_mult2_eq power_add)
      ultimately have "y div 2 ^ k = p div 2 ^ k"
        by simp
      moreover have "y div 2 ^ k = x"
        using y by (intro div_nat_eqI) (auto simp: mult.commute)
      ultimately show False
        using x by simp
    qed
    then show "x \<in> free_blocks_of (mark ALLOCATED p (2 ^ j) (types pa)) k"
      using x by (auto simp: free_blocks_of_def avail_mark_ALLOCATED)
  qed
  then have "card (free_blocks_of (types pa) k - {p div 2 ^ k}) \<le> card (free_blocks_of (mark ALLOCATED p (2 ^ j) (types pa)) k)"
    by (intro card_mono) simp_all
  then have "card (free_blocks_of (types pa) k) \<le> Suc (card (free_blocks_of (mark ALLOCATED p (2 ^ j) (types pa)) k))"
    by (simp add: card_Diff_singleton_if split: if_splits)
  then show ?thesis
    using al by (auto simp: room_def)
qed


section \<open>Operations that need few blocks\<close>

text \<open>
  An operation that starts with the pages \<open>pa\<close> takes at most \<open>m\<close> blocks of order \<open>k\<close>: with that much room it does not
  run out of memory, and what was free beyond them is free afterwards. \<open>sel\<close> finds the pages in the result.
\<close>

definition cheap :: "nat \<Rightarrow> nat \<Rightarrow> buddy PageAllocator \<Rightarrow> 'x result \<Rightarrow> ('x \<Rightarrow> buddy PageAllocator) \<Rightarrow> bool" where
  "cheap k m pa res sel \<longleftrightarrow> (buddy_cinv (types pa) (alg pa) \<and> room pa k m \<longrightarrow>
    res \<noteq> Inl NullDeref \<and>
    (\<forall>x. res = Inr x \<longrightarrow> buddy_cinv (types (sel x)) (alg (sel x)) \<and> (\<forall>n. room pa k (n + m) \<longrightarrow> room (sel x) k n)))"

lemma cheap_Inr: "sel x = pa \<Longrightarrow> cheap k 0 pa (Inr x) sel"
  by (simp add: cheap_def)

lemma cheap_andthen:
  assumes f: "cheap k m pa f sel" and g: "\<And>x. f = Inr x \<Longrightarrow> cheap k m' (sel x) (g x) sel'"
  shows "cheap k (m + m') pa (andthen f g) sel'"
  unfolding cheap_def
proof (intro impI, elim conjE)
  assume c: "buddy_cinv (types pa) (alg pa)" and r: "room pa k (m + m')"
  have rm: "room pa k m"
    using r by (simp add: room_def)
  show "andthen f g \<noteq> Inl NullDeref \<and> (\<forall>y. andthen f g = Inr y \<longrightarrow>
      buddy_cinv (types (sel' y)) (alg (sel' y)) \<and> (\<forall>n. room pa k (n + (m + m')) \<longrightarrow> room (sel' y) k n))"
  proof (cases f)
    case (Inl e)
    then show ?thesis
      using f c rm by (simp add: cheap_def)
  next
    case (Inr x)
    have cx: "buddy_cinv (types (sel x)) (alg (sel x))" and rx: "\<And>n. room pa k (n + m) \<Longrightarrow> room (sel x) k n"
      using f c rm Inr unfolding cheap_def by blast+
    have "room (sel x) k m'"
      using rx [of m'] r by (simp add: add.commute)
    then have gx: "g x \<noteq> Inl NullDeref" "\<And>y. g x = Inr y \<Longrightarrow> buddy_cinv (types (sel' y)) (alg (sel' y))"
        "\<And>y n. g x = Inr y \<Longrightarrow> room (sel x) k (n + m') \<Longrightarrow> room (sel' y) k n"
      using g [OF Inr] cx unfolding cheap_def by blast+
    have "room (sel' y) k n" if "g x = Inr y" "room pa k (n + (m + m'))" for y n
    proof -
      have "n + (m + m') = (n + m') + m"
        by simp
      then have "room (sel x) k (n + m')"
        using rx [of "n + m'"] that(2) by (simp only: ac_simps)
      then show ?thesis
        by (rule gx(3) [OF that(1)])
    qed
    then show ?thesis
      using gx Inr by simp
  qed
qed

lemma cheap_pair:
  assumes f: "cheap k m pa f (\<lambda>(v, vm). pgalloc vm)"
    and g: "\<And>v vm. f = Inr (v, vm) \<Longrightarrow> cheap k m' (pgalloc vm) (g v vm) sel'"
  shows "cheap k (m + m') pa (andthen f (\<lambda>(v, vm). g v vm)) sel'"
  using g by (intro cheap_andthen [OF f]) (auto split: prod.splits)

text \<open>Steps that do not allocate.\<close>

lemma cheap_pure: "f \<noteq> Inl NullDeref \<Longrightarrow> cheap k 0 pa f (\<lambda>_. pa)"
  by (cases f) (simp_all add: cheap_def)

lemma cheap_let:
  assumes "f \<noteq> Inl NullDeref" and "\<And>x. f = Inr x \<Longrightarrow> cheap k m pa (g x) sel"
  shows "cheap k m pa (andthen f g) sel"
  using cheap_andthen [OF cheap_pure [OF assms(1)], where g = g and m' = m and sel' = sel] assms(2) by simp

lemma pa_to_vpa_no_null: "pa_to_vpa pa \<noteq> Inl NullDeref"
  by (simp add: pa_to_vpa_def check_def)

lemma cheap_allocate_phys:
  assumes "j \<le> k" and "k < MAX_ORDER"
  shows "cheap k 1 (pgalloc vm) (allocate_phys buddy_algorithm vm (int j)) (\<lambda>(g, vm). pgalloc vm)"
  unfolding cheap_def
proof (intro impI, elim conjE)
  assume c: "buddy_cinv (types (pgalloc vm)) (alg (pgalloc vm))" and r: "room (pgalloc vm) k 1"
  obtain p pa' where al: "PageAllocator_alloc_pages buddy_algorithm (pgalloc vm) (int j) = Inr (p, pa')"
      "buddy_cinv (types pa') (alg pa')" "\<And>n. room (pgalloc vm) k (Suc n) \<Longrightarrow> room pa' k n"
    using room_alloc [OF c assms, of 0] r by auto
  show "allocate_phys buddy_algorithm vm (int j) \<noteq> Inl NullDeref \<and>
      (\<forall>x. allocate_phys buddy_algorithm vm (int j) = Inr x \<longrightarrow>
        buddy_cinv (types (case x of (g, vm) \<Rightarrow> pgalloc vm)) (alg (case x of (g, vm) \<Rightarrow> pgalloc vm)) \<and>
        (\<forall>n. room (pgalloc vm) k (n + 1) \<longrightarrow> room (case x of (g, vm) \<Rightarrow> pgalloc vm) k n))"
    using al pa_to_vpa_no_null [of "pgd_to_pa p"]
    by (auto simp: allocate_phys_def pgd_to_vpa_def andthen_def split: sum.splits)
qed

lemma cheap_ensure_table:
  assumes "k < MAX_ORDER"
  shows "cheap k 1 (pgalloc vm) (ensure_table buddy_algorithm vm a) (\<lambda>(v, vm). pgalloc vm)"
proof -
  have "cheap k 1 (pgalloc vm)
      (if get_base (mem vm a) = 0
       then andthen (allocate_phys buddy_algorithm vm 0) (\<lambda>(t, vm). Inr (vm\<lparr>mem := (mem vm)(a :=
                set_flag (set_flag (set_flag (set_base (mem vm a) (pgd_to_pa t)) PRESENT True) WRITABLE True) ALLOW_USER True)\<rparr>))
       else Inr vm) pgalloc"
  proof (cases "get_base (mem vm a) = 0")
    case True
    have "cheap k (1 + 0) (pgalloc vm) (andthen (allocate_phys buddy_algorithm vm (int 0)) (\<lambda>(t, vm). Inr (vm\<lparr>mem := (mem vm)(a :=
                set_flag (set_flag (set_flag (set_base (mem vm a) (pgd_to_pa t)) PRESENT True) WRITABLE True) ALLOW_USER True)\<rparr>))) pgalloc"
      by (rule cheap_andthen [OF cheap_allocate_phys [OF _ assms]]) (auto intro: cheap_Inr)
    then show ?thesis
      using True by simp
  qed (simp add: cheap_def room_def)
  note c = cheap_andthen [OF this, where m' = 0 and g = "\<lambda>vm. andthen (pa_to_vpa (get_base (mem vm a))) (\<lambda>va. Inr (va, vm))"
      and sel' = "\<lambda>(v, vm). pgalloc vm"]
  have "cheap k 0 (pgalloc vm) (andthen (pa_to_vpa (get_base (mem vm a))) (\<lambda>va. Inr (va, vm))) (\<lambda>(v, vm). pgalloc vm)" for vm :: "buddy vma"
    by (intro cheap_let pa_to_vpa_no_null cheap_Inr) simp
  then show ?thesis
    using c by (simp add: ensure_table_def)
qed

lemma cheap_insert_mapping:
  assumes "k < MAX_ORDER"
  shows "cheap k 3 (pgalloc vm) (insert_mapping buddy_algorithm vm va pa fl) pgalloc"
proof -
  obtain i j l n where ix: "va_table_indicies va = (i, j, l, n)"
    by (metis prod.collapse)
  note et = cheap_ensure_table [OF assms]
  have last: "cheap k 0 (pgalloc vm) (let a = entry_at pt n in Inr (vm\<lparr>mem := (mem vm)(a := leaf_entry (mem vm a) pa fl)\<rparr>)) pgalloc"
    for pt and vm :: "buddy vma"
    by (simp add: Let_def cheap_Inr)
  have third: "cheap k (1 + 0) (pgalloc vm) (andthen (ensure_table buddy_algorithm vm (entry_at pd l)) (\<lambda>(pt, vm).
      let a = entry_at pt n in Inr (vm\<lparr>mem := (mem vm)(a := leaf_entry (mem vm a) pa fl)\<rparr>))) pgalloc"
    for pd and vm :: "buddy vma"
    by (rule cheap_pair [OF et last])
  have second: "cheap k (1 + (1 + 0)) (pgalloc vm) (andthen (ensure_table buddy_algorithm vm (entry_at pdp j)) (\<lambda>(pd, vm).
      andthen (ensure_table buddy_algorithm vm (entry_at pd l)) (\<lambda>(pt, vm).
      let a = entry_at pt n in Inr (vm\<lparr>mem := (mem vm)(a := leaf_entry (mem vm a) pa fl)\<rparr>)))) pgalloc"
    for pdp and vm :: "buddy vma"
    by (rule cheap_pair [OF et third])
  have "cheap k (1 + (1 + (1 + 0))) (pgalloc vm) (insert_mapping buddy_algorithm vm va pa fl) pgalloc"
    unfolding insert_mapping_def ix prod.case
    by (rule cheap_pair [OF et second])
  then show ?thesis
    by (simp add: numeral_3_eq_3)
qed


lemma cheap_map_pages:
  assumes "k < MAX_ORDER"
  shows "cheap k (3 * n) (pgalloc vm) (map_pages buddy_algorithm n vm va pa) pgalloc"
proof (induction n arbitrary: vm va pa)
  case 0
  show ?case
    by (simp add: cheap_Inr)
next
  case (Suc n)
  have "cheap k (3 + 3 * n) (pgalloc vm) (map_pages buddy_algorithm (Suc n) vm va pa) pgalloc"
    unfolding map_pages.simps by (rule cheap_andthen [OF cheap_insert_mapping [OF assms] Suc.IH])
  then show ?case
    by simp
qed

lemma cheap_allocate_virt:
  assumes "0 < n" and "log2ceil (of_nat n) \<le> k" and "k < MAX_ORDER"
  shows "cheap k (1 + 3 * 2 ^ log2ceil (of_nat n)) (pgalloc vm) (allocate_virt buddy_algorithm vm va (int n)) (\<lambda>(b, vm). pgalloc vm)"
proof -
  let ?k = "log2ceil (of_nat n)"
  have last: "cheap k (3 * 2 ^ ?k + 0) (pgalloc vm)
      (andthen (map_pages buddy_algorithm (2 ^ ?k) vm va (pgd_to_pa pgd)) (\<lambda>vm. Inr (True, vm))) (\<lambda>(b, vm). pgalloc vm)"
    for pgd and vm :: "buddy vma"
    by (rule cheap_andthen [OF cheap_map_pages [OF assms(3)]]) (simp add: cheap_Inr)
  have "cheap k (1 + (3 * 2 ^ ?k + 0)) (pgalloc vm) (andthen (allocate_phys buddy_algorithm vm (int ?k)) (\<lambda>(pgd, vm).
      andthen (map_pages buddy_algorithm (2 ^ ?k) vm va (pgd_to_pa pgd)) (\<lambda>vm. Inr (True, vm)))) (\<lambda>(b, vm). pgalloc vm)"
    by (rule cheap_pair [OF cheap_allocate_phys [OF assms(2,3)] last])
  then show ?thesis
    using assms(1) by (simp add: allocate_virt_def Let_def)
qed

lemma get_mapping_no_null: "get_mapping vm va \<noteq> Inl NullDeref"
  using pa_to_vpa_no_null by (auto simp: get_mapping_def andthen_def Let_def split: prod.splits sum.splits)

lemma cheap_copy_to: "cheap k 0 (pgalloc vm) (copy_to vm va bs) (\<lambda>(b, vm). pgalloc vm)"
  unfolding copy_to_def
proof (intro cheap_let get_mapping_no_null)
  fix x
  show "cheap k 0 (pgalloc vm) (case x of None \<Rightarrow> Inr (False, vm) | Some pa \<Rightarrow> andthen (pa_to_vpa pa) (\<lambda>dest.
      Inr (True, vm\<lparr>mem := memcpy_to (mem vm) (unat (dest - PMEM_VA_START)) bs\<rparr>))) (\<lambda>(b, vm). pgalloc vm)"
    by (cases x) (auto intro!: cheap_let pa_to_vpa_no_null cheap_Inr)
qed

text \<open>The blocks a program needs.\<close>

definition seg_cost :: "ELF64ProgramHeaderEntry \<Rightarrow> nat" where
  "seg_cost e = 1 + 3 * 2 ^ log2ceil (of_nat (seg_pages e))"

definition image_cost :: "ELF64ProgramHeaderEntry list \<Rightarrow> nat" where
  "image_cost es = sum_list (map seg_cost (segments es))"

definition seg_order_le :: "nat \<Rightarrow> ELF64ProgramHeaderEntry list \<Rightarrow> bool" where
  "seg_order_le k es \<longleftrightarrow> (\<forall>e \<in> set (segments es). log2ceil (of_nat (seg_pages e)) \<le> k)"

context readable_file
begin

lemma cheap_load_segment:
  assumes v: "valid f" and l: "loadable (content f) e" and k: "log2ceil (of_nat (seg_pages e)) \<le> k" "k < MAX_ORDER"
  shows "cheap k (seg_cost e) (pgalloc vm) (load_segment F buddy_algorithm garbage f e vm) pgalloc"
proof -
  note L = l [unfolded loadable_def]
  have pc: "page_count (p_memsz e) = int (seg_pages e)"
    using L by (simp add: page_count_pages seg_pages_def)
  obtain n b where rd: "f_pread F f (fresh garbage (p_filesz e)) (p_filesz e) (p_offset e) = Inr (n, b)"
    using pread_inside [OF v, of "unat (p_offset e)" "unat (p_filesz e)" "fresh garbage (p_filesz e)"] L by simp
  have ca: "cheap k (seg_cost e) (pgalloc vm) (allocate_virt buddy_algorithm vm (p_vaddr e) (int (seg_pages e))) (\<lambda>(b, vm). pgalloc vm)"
    unfolding seg_cost_def using seg_pages_bounds [OF l] k by (intro cheap_allocate_virt) simp_all
  have copy: "cheap k 0 (pgalloc vm) (andthen (copy_to vm (p_vaddr e) b) (\<lambda>(_, vm). Inr vm)) pgalloc" for vm :: "buddy vma"
    using cheap_pair [OF cheap_copy_to, where m' = 0 and g = "\<lambda>_ vm. Inr vm" and sel' = pgalloc] by (simp add: cheap_Inr)
  have alloc: "cheap k (seg_cost e) (pgalloc vm) (if \<not> mapped then
      andthen (allocate_virt buddy_algorithm vm (p_vaddr e) (page_count (p_memsz e))) (\<lambda>(_, vm). Inr vm) else Inr vm) pgalloc" for mapped
  proof (cases mapped)
    case False
    then show ?thesis
      using cheap_pair [OF ca, where m' = 0 and g = "\<lambda>_ vm. Inr vm" and sel' = pgalloc] by (simp add: cheap_Inr pc)
  qed (simp add: cheap_def room_def)
  have "is_mapped vm (p_vaddr e) \<noteq> Inl NullDeref"
    using get_mapping_no_null [of vm "p_vaddr e"] by (auto simp: is_mapped_def andthen_def split: sum.splits)
  then have "cheap k (seg_cost e + 0) (pgalloc vm) (load_segment F buddy_algorithm garbage f e vm) pgalloc"
    unfolding load_segment_def rd andthen_Inr case_prod_conv
    by (rule cheap_let) (rule cheap_andthen [OF alloc copy])
  then show ?thesis
    by simp
qed

lemma cheap_load_entries:
  assumes v: "valid f" and k: "k < MAX_ORDER"
  shows "placeable (content f) es \<Longrightarrow> seg_order_le k es \<Longrightarrow>
    cheap k (image_cost es) (pgalloc vm) (load_entries F garbage f es vm) pgalloc"
proof (induction es arbitrary: vm)
  case Nil
  show ?case
    by (simp add: cheap_Inr image_cost_def segments_def)
next
  case (Cons e es)
  have pl: "placeable (content f) es" and kk: "seg_order_le k es"
    using Cons.prems by (auto simp: seg_order_le_def segments_Cons split: if_splits)
  show ?case
  proof (cases "p_type e = 1")
    case True
    have l: "loadable (content f) e" and o: "log2ceil (of_nat (seg_pages e)) \<le> k"
      using Cons.prems True by (simp_all add: seg_order_le_def segments_Cons)
    have "cheap k (seg_cost e + image_cost es) (pgalloc vm)
        (andthen (load_segment F buddy_algorithm garbage f e vm) (load_entries F garbage f es)) pgalloc"
      by (rule cheap_andthen [OF cheap_load_segment [OF v l o k] Cons.IH [OF pl kk]])
    then show ?thesis
      using True by (simp add: image_cost_def segments_Cons)
  next
    case False
    then show ?thesis
      using Cons.IH [OF pl kk] by (simp add: image_cost_def segments_Cons)
  qed
qed

end

lemma cheap_Process_new:
  assumes k: "1 \<le> k" "k < MAX_ORDER"
  shows "cheap k 2 pa (Process_new buddy_algorithm (Some t) pa m s False ep) (\<lambda>(im, s). pgalloc (im_vma im))"
proof -
  have vpa: "pgd_to_vpa g \<noteq> Inl NullDeref" for g
    by (simp add: pgd_to_vpa_def pa_to_vpa_no_null)
  have c0: "cheap k 1 pa (allocate_phys buddy_algorithm
      \<lparr>pgalloc = pa, mem = m, page_allocations = [], pgt_phys_base = 0, pgt_virt_base = 0\<rparr> 0) (\<lambda>(g, vm). pgalloc vm)"
    using cheap_allocate_phys [OF _ k(2), of 0 "\<lparr>pgalloc = pa, mem = m, page_allocations = [], pgt_phys_base = 0, pgt_virt_base = 0\<rparr>"]
    by simp
  have vma: "cheap k (1 + 0) pa (VMA_new buddy_algorithm pa m) pgalloc"
    unfolding VMA_new_def by (rule cheap_pair [OF c0]) (auto intro!: cheap_let vpa cheap_Inr)
  have th: "cheap k (1 + 0) (pgalloc vm) (Thread_new buddy_algorithm vm False ep) (\<lambda>(t, vm). pgalloc vm)" for vm :: "buddy vma"
  proof -
    have ko: "KERNEL_STACK_ORDER = int 1"
      by (simp add: KERNEL_STACK_ORDER_def)
    show ?thesis
      unfolding Thread_new_def ko
      by (rule cheap_pair [OF cheap_allocate_phys [OF k]]) (auto intro!: cheap_let vpa cheap_Inr split: prod.splits)
  qed
  obtain s' where s': "create_process s False = Inr (length (procs s), s')"
    using create_process_user by blast
  have tail: "cheap k (1 + 0) (pgalloc vm) (andthen (install_default_kernel_mapping (Some t) vm) (\<lambda>vm.
      andthen (create_process s False) (\<lambda>(p, k).
      andthen (Thread_new buddy_algorithm vm False ep) (\<lambda>(t, vm).
        Inr (\<lparr>im_pid = p, im_vma = vm, im_main = t\<rparr>, k))))) (\<lambda>(im, s). pgalloc (im_vma im))" for vm :: "buddy vma"
  proof (rule cheap_let)
    fix vm' assume i: "install_default_kernel_mapping (Some t) vm = Inr vm'"
    then have "pgalloc vm' = pgalloc vm"
      by (auto simp: install_default_kernel_mapping_def Let_def)
    moreover have "cheap k (1 + 0 + 0) (pgalloc vm') (andthen (Thread_new buddy_algorithm vm' False ep) (\<lambda>(t, vm).
        Inr (\<lparr>im_pid = length (procs s), im_vma = vm, im_main = t\<rparr>, s'))) (\<lambda>(im, s). pgalloc (im_vma im))"
      by (rule cheap_pair [OF th]) (simp add: cheap_Inr)
    ultimately show "cheap k (1 + 0) (pgalloc vm) (andthen (create_process s False) (\<lambda>(p, k).
      andthen (Thread_new buddy_algorithm vm' False ep) (\<lambda>(t, vm).
        Inr (\<lparr>im_pid = p, im_vma = vm, im_main = t\<rparr>, k)))) (\<lambda>(im, s). pgalloc (im_vma im))"
      by (simp add: s')
  qed (simp add: install_default_kernel_mapping_def Let_def)
  have "cheap k ((1 + 0) + (1 + 0)) pa (Process_new buddy_algorithm (Some t) pa m s False ep) (\<lambda>(im, s). pgalloc (im_vma im))"
    unfolding Process_new_def by (rule cheap_andthen [OF vma tail])
  then show ?thesis
    by (simp add: numeral_2_eq_2)
qed

lemma cheap_user_stack:
  assumes k: "1 \<le> k" "k < MAX_ORDER"
  shows "cheap k 7 (pgalloc vm) (allocate_user_stack buddy_algorithm vm t 0x100000 0x2000) pgalloc"
proof -
  have pc: "page_count 0x2000 = int 2"
    by (simp add: page_count_pages)
  have "cheap k (1 + 3 * 2 ^ log2ceil (of_nat 2)) (pgalloc vm) (allocate_virt buddy_algorithm vm 0x100000 (int 2)) (\<lambda>(b, vm). pgalloc vm)"
    using k by (intro cheap_allocate_virt) simp_all
  then have "cheap k 7 (pgalloc vm) (allocate_virt buddy_algorithm vm 0x100000 (int 2)) (\<lambda>(b, vm). pgalloc vm)"
    by simp
  from cheap_pair [OF this, where m' = 0 and sel' = pgalloc and
      g = "\<lambda>_ vm. Inr (vm\<lparr>mem := store_word (mem vm) (th_native_context t + ctx_rsp) (0x100000 + 0x2000)\<rparr>)"]
  show ?thesis
    unfolding allocate_user_stack_def pc by (simp add: cheap_Inr)
qed

lemma cheap_entry_arguments:
  assumes k: "1 \<le> k" "k < MAX_ORDER"
  shows "cheap k 4 (pgalloc (im_vma im)) (entry_arguments buddy_algorithm cmdline im) (\<lambda>(b, im). pgalloc (im_vma im))"
proof (cases "string_length cmdline > 0")
  case True
  have "cheap k (1 + 3 * 2 ^ log2ceil (of_nat 1)) (pgalloc (im_vma im)) (allocate_virt buddy_algorithm (im_vma im) 0x102000 (int 1)) (\<lambda>(b, vm). pgalloc vm)"
    using k by (intro cheap_allocate_virt) simp_all
  then have av: "cheap k 4 (pgalloc (im_vma im)) (allocate_virt buddy_algorithm (im_vma im) 0x102000 1) (\<lambda>(b, vm). pgalloc vm)"
    by simp
  have rest: "cheap k (0 + 0) (pgalloc vm) (andthen (copy_to vm 0x102000 (chars cmdline)) (\<lambda>(ok, vm).
         if \<not> ok then Inr (False, im\<lparr>im_vma := vm\<rparr>)
         else case add_entry_argument (im_main im) (mem vm) 0x102000 of (t, m) \<Rightarrow>
           Inr (True, im\<lparr>im_vma := vm\<lparr>mem := m\<rparr>, im_main := t\<rparr>))) (\<lambda>(b, im). pgalloc (im_vma im))" for vm :: "buddy vma"
    by (rule cheap_pair [OF cheap_copy_to]) (auto intro!: cheap_Inr split: prod.splits)
  have "cheap k (4 + (0 + 0)) (pgalloc (im_vma im)) (entry_arguments buddy_algorithm cmdline im) (\<lambda>(b, im). pgalloc (im_vma im))"
    using True unfolding entry_arguments_def by (simp only: if_True) (rule cheap_pair [OF av rest])
  then show ?thesis
    by simp
next
  case False
  then show ?thesis
    by (auto simp: entry_arguments_def cheap_def room_def split: prod.splits)
qed


section \<open>Loading a program that fits\<close>

definition enough_room :: "buddy PageAllocator \<Rightarrow> bytes \<Rightarrow> bool" where
  "enough_room pa c \<longleftrightarrow> (\<exists>k. 1 \<le> k \<and> k < MAX_ORDER \<and> seg_order_le k (image_headers c) \<and>
    room pa k (13 + image_cost (image_headers c)))"

context readable_file
begin

lemma load_no_null:
  assumes v: "valid f" and l: "loadable_image (content f)" and pa: "pages_ready pa" and room: "enough_room pa (content f)"
  shows "ElfLoader_load F buddy_algorithm (Some t) garbage f cmdline pa m s \<noteq> Inl NullDeref"
proof -
  define eh where "eh = elf_header (take 64 (content f))"
  let ?es = "image_headers (content f)"
  obtain k where k: "1 \<le> k" "k < MAX_ORDER" "seg_order_le k ?es" "room pa k (13 + image_cost ?es)"
    using room by (auto simp: enough_room_def)
  obtain f' where f': "valid f'" "content f' = content f" and start: "ElfLoader_load F buddy_algorithm (Some t) garbage f cmdline pa m s =
    andthen (Process_new buddy_algorithm (Some t) pa m s False (entry_point eh)) (\<lambda>(im, s).
    andthen (load_entries F garbage f' ?es (im_vma im)) (\<lambda>vm.
    andthen (allocate_user_stack buddy_algorithm vm (im_main im) 0x100000 0x2000) (\<lambda>vm.
    andthen (entry_arguments buddy_algorithm cmdline (im\<lparr>im_vma := vm\<rparr>)) (\<lambda>(ok, im).
      Inr \<lparr>ld_process = (if ok then Some im else None), ld_kernel = s,
           ld_pages = pgalloc (im_vma im), ld_mem = mem (im_vma im)\<rparr>))))"
    using load_start [OF v l eh_def] by blast
  have pl: "placeable (content f') ?es"
    using loadable_imageD(4) [OF l eh_def] f'(2) by simp
  have args: "cheap k (4 + 0) (pgalloc vm) (andthen (entry_arguments buddy_algorithm cmdline (im\<lparr>im_vma := vm\<rparr>)) (\<lambda>(ok, im).
      Inr \<lparr>ld_process = (if ok then Some im else None), ld_kernel = s',
           ld_pages = pgalloc (im_vma im), ld_mem = mem (im_vma im)\<rparr>)) ld_pages" for im s' vm
    using cheap_andthen [OF cheap_entry_arguments [OF k(1,2), of "im\<lparr>im_vma := vm\<rparr>" cmdline], where m' = 0 and sel' = ld_pages and
        g = "\<lambda>(ok, im). Inr \<lparr>ld_process = (if ok then Some im else None), ld_kernel = s',
           ld_pages = pgalloc (im_vma im), ld_mem = mem (im_vma im)\<rparr>"]
    by (simp add: cheap_Inr split: prod.splits)
  have rest: "cheap k (image_cost ?es + (7 + (4 + 0))) (pgalloc (im_vma im)) (andthen (load_entries F garbage f' ?es (im_vma im)) (\<lambda>vm.
    andthen (allocate_user_stack buddy_algorithm vm (im_main im) 0x100000 0x2000) (\<lambda>vm.
    andthen (entry_arguments buddy_algorithm cmdline (im\<lparr>im_vma := vm\<rparr>)) (\<lambda>(ok, im).
      Inr \<lparr>ld_process = (if ok then Some im else None), ld_kernel = s',
           ld_pages = pgalloc (im_vma im), ld_mem = mem (im_vma im)\<rparr>)))) ld_pages" for im s'
    by (rule cheap_andthen [OF cheap_load_entries [OF f'(1) k(2) pl k(3)]
          cheap_andthen [OF cheap_user_stack [OF k(1,2)] args]])
  have "cheap k (2 + (image_cost ?es + (7 + (4 + 0)))) pa (ElfLoader_load F buddy_algorithm (Some t) garbage f cmdline pa m s) ld_pages"
    unfolding start
  proof (rule cheap_andthen [OF cheap_Process_new [OF k(1,2)]])
    fix x
    show "cheap k (image_cost ?es + (7 + (4 + 0))) (case x of (im, s) \<Rightarrow> pgalloc (im_vma im)) ((\<lambda>(im, s).
        andthen (load_entries F garbage f' ?es (im_vma im)) (\<lambda>vm.
        andthen (allocate_user_stack buddy_algorithm vm (im_main im) 0x100000 0x2000) (\<lambda>vm.
        andthen (entry_arguments buddy_algorithm cmdline (im\<lparr>im_vma := vm\<rparr>)) (\<lambda>(ok, im).
          Inr \<lparr>ld_process = (if ok then Some im else None), ld_kernel = s,
               ld_pages = pgalloc (im_vma im), ld_mem = mem (im_vma im)\<rparr>)))) x) ld_pages"
      by (cases x) (simp only: prod.case rest)
  qed
  moreover have "2 + (image_cost ?es + (7 + (4 + 0))) = 13 + image_cost ?es"
    by simp
  moreover have "buddy_cinv (types pa) (alg pa)"
    using pa by (simp add: pages_ready_def)
  ultimately show ?thesis
    using k(4) unfolding cheap_def by metis
qed

lemma load_succeeds:
  assumes "valid f" and "loadable_image (content f)" and "pages_ready pa" and "enough_room pa (content f)"
    and "string_length cmdline = length (chars cmdline)" "length (chars cmdline) \<le> 4096"
  shows "\<exists>ld im. ElfLoader_load F buddy_algorithm (Some t) garbage f cmdline pa m k = Inr ld \<and>
      ld_process ld = Some im \<and> process_loaded (content f) (chars cmdline) im \<and>
      create_process k False = Inr (im_pid im, ld_kernel ld) \<and> ld_pages ld = pgalloc (im_vma im) \<and> ld_mem ld = mem (im_vma im)"
  using load_ok [OF assms(1-3,5,6), of t garbage m k] load_no_null [OF assms(1-4), of t garbage cmdline m k] by blast

text \<open>A header the loader does not support, on a file long enough to have one, changes nothing.\<close>

lemma load_rejects:
  assumes v: "valid f" and len: "64 \<le> length (content f)" and bad: "\<not> header_accepted (elf_header (take 64 (content f)))"
  shows "ElfLoader_load F A template garbage f cmdline pa m k =
    Inr \<lparr>ld_process = None, ld_kernel = k, ld_pages = pa, ld_mem = m\<rparr>"
proof -
  have c: "0 < length (content f)" "0 + 64 \<le> length (content f)" "64 \<le> length (fresh garbage 64)"
    using len by (auto intro: less_le_trans [OF _ len])
  obtain f' where f': "andthen (f_seek F f (of_nat 0) SeekAbsolute) (\<lambda>f. f_read F f (fresh garbage 64) (of_nat 64)) =
      Inr (of_nat 64, take 64 (drop 0 (content f)) @ drop 64 (fresh garbage 64), f')"
    using seek_read [OF v c] by blast
  then have rd: "andthen (f_seek F f 0 SeekAbsolute) (\<lambda>f. f_read F f (fresh garbage 64) 64) = Inr (64, take 64 (content f), f')"
    by simp
  show ?thesis
    unfolding ElfLoader_load_def andthen_assoc [symmetric] rd using bad by (simp add: Let_def)
qed

end

text \<open>
  C34 (\<open>elf-loader.cpp\<close>, \<open>ElfLoader::load\<close>, with \<open>process.cpp\<close>, \<open>thread.cpp\<close>, \<open>vma.cpp\<close>, \<open>page-allocator.cpp\<close>, \<open>buddy.cpp\<close> and the
  file of \<open>internal-driver.cpp\<close>). Loading an acceptable ELF file, with enough free blocks of pages, returns a process whose thread
  starts in user mode at the entry point, with the stack pointer at 0x102000 and the address of the command line, or null, as its
  argument, and whose memory holds every segment byte by byte, zeros in the rest of each segment and in the stack, and the
  command line with a terminator. A file with an unsupported header gives no process and changes nothing.
\<close>

theorem elf_load_correct:
  assumes "ZZz_valid dev blk f" and "c = ZZz_content dev f" and "pages_ready pa"
    and "string_length cmdline = length (chars cmdline)" and "length (chars cmdline) < 4096"
  shows "(loadable_image c \<and> enough_room pa c \<longrightarrow>
      (\<exists>ld im. ElfLoader_load (ZZz_file dev blk) buddy_algorithm (Some t) garbage f cmdline pa m k = Inr ld \<and>
        ld_process ld = Some im \<and> process_loaded c (chars cmdline) im \<and>
        create_process k False = Inr (im_pid im, ld_kernel ld) \<and> ld_pages ld = pgalloc (im_vma im) \<and> ld_mem ld = mem (im_vma im))) \<and>
    (64 \<le> length c \<and> \<not> header_accepted (elf_header (take 64 c)) \<longrightarrow>
      ElfLoader_load (ZZz_file dev blk) buddy_algorithm (Some t) garbage f cmdline pa m k =
        Inr \<lparr>ld_process = None, ld_kernel = k, ld_pages = pa, ld_mem = m\<rparr>)"
proof (intro conjI impI)
  have le: "length (chars cmdline) \<le> 4096"
    using assms(5) by simp
  assume "loadable_image c \<and> enough_room pa c"
  then show "\<exists>ld im. ElfLoader_load (ZZz_file dev blk) buddy_algorithm (Some t) garbage f cmdline pa m k = Inr ld \<and>
      ld_process ld = Some im \<and> process_loaded c (chars cmdline) im \<and>
      create_process k False = Inr (im_pid im, ld_kernel ld) \<and> ld_pages ld = pgalloc (im_vma im) \<and> ld_mem ld = mem (im_vma im)"
    unfolding assms(2) using driver_file.load_succeeds [OF assms(1) _ assms(3) _ assms(4) le, of t garbage m k] by blast
next
  assume "64 \<le> length c \<and> \<not> header_accepted (elf_header (take 64 c))"
  then show "ElfLoader_load (ZZz_file dev blk) buddy_algorithm (Some t) garbage f cmdline pa m k =
      Inr \<lparr>ld_process = None, ld_kernel = k, ld_pages = pa, ld_mem = m\<rparr>"
    unfolding assms(2) using driver_file.load_rejects [OF assms(1)] by blast
qed


section \<open>A program on a small machine\<close>

text \<open>A machine like that of \<open>Page_Props\<close> with 64 pages.\<close>

definition exec_machine :: MemoryManager where
  "exec_machine = add_physical_memory MemoryManager_init 0 64 NORMAL"

lemma exec_setup:
  "setup_page_descriptors A exec_machine small_layout s = Inr (Some \<lparr>types = replicate 64 INVALID, alg = alg_bzero A s\<rparr>)"
proof -
  have "kva_to_pa (HEAP_START small_layout) = Inr 0xF000" by code_simp
  moreover have "lookup_phys_block exec_machine 0xF000 =
    Some \<lparr>base_address = 0, base_pfn = 0, nr_pages = 64, mem_type = NORMAL\<rparr>" by code_simp
  moreover have "unat (last_pfn exec_machine + 1) = 64" by code_simp
  ultimately show ?thesis by (simp add: setup_page_descriptors_def)
qed

lemma exec_marked:
  "andthen (mark_present (phys_mem_blocks exec_machine) (replicate 64 INVALID)) (mark_kernel small_layout) =
     Inr (RESERVED # replicate 6 ALLOCATED @ replicate 2 RESERVED @ replicate 6 AVAILABLE @ RESERVED # replicate 48 AVAILABLE)"
  by code_simp

lemma exec_pages:
  "\<exists>pa. PageAllocator_init buddy_algorithm exec_machine small_layout (BuddyPageAllocator (\<lambda>_. None)) = Inr (True, pa) \<and>
     pages_ready pa \<and> {16..63} \<subseteq> avail (types pa)"
proof -
  let ?ts = "RESERVED # replicate 6 ALLOCATED @ replicate 2 RESERVED @ replicate 6 AVAILABLE @ RESERVED # replicate 48 AVAILABLE"
  have sub: "{16..63} \<subseteq> avail ?ts"
  proof
    fix p :: nat assume "p \<in> {16..63}"
    then have p: "16 \<le> p" "p - 16 < 48" "p < 64"
      by auto
    have "?ts = (RESERVED # replicate 6 ALLOCATED @ replicate 2 RESERVED @ replicate 6 AVAILABLE @ [RESERVED]) @ replicate 48 AVAILABLE"
      by simp
    then have "?ts ! p = replicate 48 AVAILABLE ! (p - 16)"
      using p(1) by (simp only: nth_append) simp
    then show "p \<in> avail ?ts"
      using p by (simp add: avail_def)
  qed
  moreover have "length ?ts = 64" "?ts ! 0 = RESERVED" by simp_all
  moreover have "\<not> do_self_test small_layout" by (simp add: small_layout_def)
  moreover have "avail ?ts \<noteq> {}"
    using sub by auto
  ultimately show ?thesis
    using bp.init_ok [OF exec_setup] exec_marked by (fastforce simp: pages_ready_def)
qed

text \<open>An ELF file of 123 bytes with one segment of 16 bytes, 3 of them in the file.\<close>

definition hello_elf :: bytes where
  "hello_elf = [0x7f, 0x45, 0x4c, 0x46, 2, 1, 1, 0, 0, 0, 0, 0, 0, 0, 0, 0, 2, 0, 0x3e, 0, 1, 0, 0, 0, 0, 0, 0x40, 0, 0, 0, 0, 0,
     0x40, 0, 0, 0, 0, 0, 0, 0, 0, 0, 0, 0, 0, 0, 0, 0, 0, 0, 0, 0, 0x40, 0, 0x38, 0, 1, 0, 0, 0, 0, 0, 0, 0] @
    [1, 0, 0, 0, 5, 0, 0, 0, 0x78, 0, 0, 0, 0, 0, 0, 0, 0, 0, 0x40, 0, 0, 0, 0, 0, 0, 0, 0x40, 0, 0, 0, 0, 0, 3, 0, 0, 0, 0, 0, 0, 0,
     16, 0, 0, 0, 0, 0, 0, 0, 0, 0x10, 0, 0, 0, 0, 0, 0] @ [0xeb, 0xfe, 0x90]"

definition hello_device :: block_device where
  "hello_device = \<lparr>block_size = 512, block_count = 2, read_block = (\<lambda>b. Some (hello_elf @ replicate 389 0))\<rparr>"

definition hello_file :: ZZz where
  "hello_file = \<lparr>xxc = [], xXc = 1, Xxc = 0, XXc = 123\<rparr>"

lemma hello_content: "ZZz_content hello_device hello_file = hello_elf"
  by code_simp

lemma hello_header:
  "elf_header (take 64 hello_elf) =
    \<lparr>magic_number = 0x464c457f, eclass = 2, edata = 1, e_type = 2, machine = 0x3e, e_version = 1, entry_point = 0x400000,
     phoff = 64, phentsize = 56, phnum = 1\<rparr>"
  by code_simp

lemma hello_headers:
  "image_headers hello_elf = [\<lparr>p_type = 1, p_offset = 120, p_vaddr = 0x400000, p_filesz = 3, p_memsz = 16\<rparr>]"
  by code_simp


lemma hello_loadable: "loadable_image hello_elf"
proof -
  have len: "length hello_elf = 123"
    by (simp add: hello_elf_def)
  have seg: "seg_run \<lparr>p_type = 1, p_offset = 120, p_vaddr = 0x400000, p_filesz = 3, p_memsz = 16\<rparr> = {0x400}"
  proof -
    show ?thesis
      by (simp add: seg_run_def run_of_def seg_pages_def lessThan_Suc) (simp add: vpn_def)
  qed
  have own: "vma_owned 0x400000"
    by (rule vma_owned_example)
  have "headers hello_elf (elf_header (take 64 hello_elf)) = [\<lparr>p_type = 1, p_offset = 120, p_vaddr = 0x400000, p_filesz = 3, p_memsz = 16\<rparr>]"
    using hello_headers by (simp add: image_headers_def)
  then show ?thesis
    using own by (simp add: loadable_image_def Let_def len hello_header header_accepted_def MAGIC_NUMBER_def loadable_def
        segs_run_def segments_def seg seg_pages_def)
qed

lemma hello_valid: "ZZz_valid hello_device (replicate 512 0) hello_file"
proof -
  have "length (hello_elf @ replicate 389 0) = 512"
    by (simp add: hello_elf_def)
  then have "sector_device hello_device"
    by (simp add: sector_device_def hello_device_def)
  moreover have "readable hello_device 512 123"
    by (simp add: readable_def hello_device_def)
  ultimately show ?thesis
    by (simp add: ZZz_valid_def hello_file_def)
qed

lemma hello_room:
  assumes "{16..63} \<subseteq> avail (types pa)"
  shows "enough_room pa hello_elf"
proof -
  have "{8..31} \<subseteq> free_blocks_of (types pa) 1"
    using assms by (auto simp: free_blocks_of_def)
  then have "card {8..31 :: nat} \<le> card (free_blocks_of (types pa) 1)"
    by (intro card_mono) simp_all
  then have "room pa 1 17"
    by (simp add: room_def)
  moreover have "image_cost (image_headers hello_elf) = 4"
    by (simp add: hello_headers image_cost_def segments_def seg_cost_def seg_pages_def)
  moreover have "seg_order_le 1 (image_headers hello_elf)"
    by (simp add: hello_headers seg_order_le_def segments_def seg_pages_def)
  ultimately show ?thesis
    unfolding enough_room_def by (intro exI [of _ 1]) (simp add: MAX_ORDER_def)
qed

theorem elf_load_correct_witness:
  "\<exists>pa ld im. PageAllocator_init buddy_algorithm exec_machine small_layout (BuddyPageAllocator (\<lambda>_. None)) = Inr (True, pa) \<and>
    ElfLoader_load (ZZz_file hello_device (replicate 512 0)) buddy_algorithm (Some (\<lambda>_. 0)) (\<lambda>_. 7) hello_file (string_of [120])
      pa (\<lambda>_. 9) (\<lparr>active = False, algo = (), current = None, idle_entity = 0, arch_current = None, entities = [],
        waiters = (\<lambda>_. List_new), procs = [], runtime = 0\<rparr>) = Inr ld \<and>
    ld_process ld = Some im \<and> process_loaded hello_elf [120] im"
proof -
  obtain pa where pa: "PageAllocator_init buddy_algorithm exec_machine small_layout (BuddyPageAllocator (\<lambda>_. None)) = Inr (True, pa)"
      "pages_ready pa" "{16..63} \<subseteq> avail (types pa)"
    using exec_pages by blast
  have "string_length (string_of [120]) = length (chars (string_of [120]))" "length (chars (string_of [120])) < 4096"
    and c: "chars (string_of [120]) = [120]"
    by (simp_all add: string_length_def string_of_def chars_def)
  from elf_load_correct [OF hello_valid hello_content [symmetric] pa(2) this(1,2), of "\<lambda>_. 0" "\<lambda>_. 7" "\<lambda>_. 9"]
  show ?thesis
    using pa(1) hello_loadable hello_room [OF pa(3)] unfolding c by blast
qed

text \<open>
  (\<open>kernel.cpp\<close>, \<open>launch_process\<close>). Launching such a file, not yet read from, loads it and starts its first thread.
\<close>

context readable_file
begin

lemma launch_loads:
  assumes v: "valid f" "pos f = 0" and l: "loadable_image (content f)" and pa: "pages_ready pa" "enough_room pa (content f)"
    and len: "string_length cmdline = length (chars cmdline)" "length (chars cmdline) \<le> 4096"
  shows "\<exists>ld im. process_loaded (content f) (chars cmdline) im \<and> ld_process ld = Some im \<and>
    create_process k False = Inr (im_pid im, ld_kernel ld) \<and>
    launch_process S F buddy_algorithm (Some t) garbage (Some f) cmdline pa m k =
      andthen (process_start S (ld_kernel ld) (im_pid im)) (\<lambda>k. Inr (ld\<lparr>ld_kernel := k\<rparr>))"
proof -
  note L = loadable_imageD [OF l refl]
  have c: "pos f < length (content f)" "pos f + 16 \<le> length (content f)" "16 \<le> length (fresh garbage 16)"
    using L(1) v(2) by (auto intro: less_le_trans [OF _ L(1)])
  obtain f' where "f_read F f (fresh garbage 16) (of_nat 16) =
      Inr (of_nat 16, take 16 (drop (pos f) (content f)) @ drop 16 (fresh garbage 16), f')" and f': "valid f'" "content f' = content f"
    using read_inside [OF v(1) c] by blast
  then have rd: "f_read F f (fresh garbage 16) 16 = Inr (16, take 16 (content f), f')"
    using v(2) by simp
  have mg: "le32 (take 64 (content f)) 0 = 0x464c457f"
    using L(2) by (simp add: header_accepted_def elf_header_def MAGIC_NUMBER_def)
  have ev: "(ucast (0x464c457f :: u32) :: u8) = 0x7f" "(ucast (drop_bit 8 (0x464c457f :: u32)) :: u8) = 69"
      "(ucast (drop_bit 16 (0x464c457f :: u32)) :: u8) = 76" "(ucast (drop_bit 24 (0x464c457f :: u32)) :: u8) = 70"
    by simp_all
  have t: "take 16 (content f) ! i = take 64 (content f) ! i" if "i < 16" for i
    using that by simp
  have i16: "(0 :: nat) < 16" "(1 :: nat) < 16" "(2 :: nat) < 16" "(3 :: nat) < 16"
    by simp_all
  note h = le_bytes [of "take 64 (content f)" 0, unfolded mg add_0 ev, folded i16 [THEN t], symmetric]
  obtain ld im where ld: "ElfLoader_load F buddy_algorithm (Some t) garbage f' cmdline pa m k = Inr ld" "ld_process ld = Some im"
      "process_loaded (content f) (chars cmdline) im" "create_process k False = Inr (im_pid im, ld_kernel ld)"
    using load_succeeds [of f' pa cmdline t garbage m k] f' l pa len by auto
  have "launch_process S F buddy_algorithm (Some t) garbage (Some f) cmdline pa m k =
      andthen (process_start S (ld_kernel ld) (im_pid im)) (\<lambda>k. Inr (ld\<lparr>ld_kernel := k\<rparr>))"
    unfolding launch_process_def option.case rd andthen_Inr case_prod_conv using h ld(1,2) by simp
  then show ?thesis
    using ld by blast
qed

end

end
