(* ===== verification/Ata.thy ===== *)
theory Ata
  imports Ports Devices Locks
begin

text \<open>
  The ATA driver: the controller (\<open>infos/drivers/ata/ata-controller.cpp\<close>) and the drives on its two channels
  (\<open>infos/drivers/ata/ata-device.cpp\<close>). The hardware is the port space of \<open>Ports\<close>. An object is its fields; \<open>ata_system\<close>
  holds the devices' state, the device manager, the controller and the drive and partition objects
  by their position in the device manager's heap. Fuel bounds the loops that wait for a drive. Logging is left out.
\<close>

unbundle bit_operations_syntax

section \<open>Registers\<close>

abbreviation "ATA_SR_BSY \<equiv> 0x80 :: u8"
abbreviation "ATA_SR_DF \<equiv> 0x20 :: u8"
abbreviation "ATA_SR_DRQ \<equiv> 0x08 :: u8"
abbreviation "ATA_SR_ERR \<equiv> 0x01 :: u8"

abbreviation "ATA_CMD_READ_PIO_EXT \<equiv> 0x24 :: u8"
abbreviation "ATA_CMD_WRITE_PIO_EXT \<equiv> 0x34 :: u8"
abbreviation "ATA_CMD_IDENTIFY \<equiv> 0xEC :: u8"

abbreviation "ATA_REG_DATA \<equiv> 0x00 :: int"
abbreviation "ATA_REG_SECCOUNT0 \<equiv> 0x02 :: int"
abbreviation "ATA_REG_LBA0 \<equiv> 0x03 :: int"
abbreviation "ATA_REG_LBA1 \<equiv> 0x04 :: int"
abbreviation "ATA_REG_LBA2 \<equiv> 0x05 :: int"
abbreviation "ATA_REG_HDDEVSEL \<equiv> 0x06 :: int"
abbreviation "ATA_REG_COMMAND \<equiv> 0x07 :: int"
abbreviation "ATA_REG_STATUS \<equiv> 0x07 :: int"
abbreviation "ATA_REG_SECCOUNT1 \<equiv> 0x08 :: int"
abbreviation "ATA_REG_LBA3 \<equiv> 0x09 :: int"
abbreviation "ATA_REG_LBA4 \<equiv> 0x0A :: int"
abbreviation "ATA_REG_LBA5 \<equiv> 0x0B :: int"
abbreviation "ATA_REG_CONTROL \<equiv> 0x0C :: int"

record ChannelRegisters =
  cr_base :: u16
  cr_ctrl :: u16
  cr_bmide :: u16
  cr_nIEN :: u8

record ATAController =
  channels :: "ChannelRegisters list"
  channel_mtx :: "Mutex list"

definition channel_at :: "ATAController \<Rightarrow> nat \<Rightarrow> ChannelRegisters result" where
  "channel_at c i = (if i < length (channels c) then Inr (channels c ! i) else Inl OutOfBounds)"

definition port_or_base_address :: "u32 \<Rightarrow> u16 \<Rightarrow> u16" where
  "port_or_base_address v p = (if v = 0 then p else ucast (v AND NOT 3))"

text \<open>\<open>bar\<close> is the configuration's array of five base addresses, \<open>garbage\<close> the owners the mutexes start with.\<close>

definition ATAController_new :: "u32 list \<Rightarrow> ptr \<Rightarrow> ATAController" where
  "ATAController_new bar garbage =
    \<lparr>channels =
       [\<lparr>cr_base = port_or_base_address (bar ! 0) 0x1F0, cr_ctrl = port_or_base_address (bar ! 1) 0x3F6,
         cr_bmide = ucast (bar ! 4 AND NOT 3), cr_nIEN = 2\<rparr>,
        \<lparr>cr_base = port_or_base_address (bar ! 2) 0x170, cr_ctrl = port_or_base_address (bar ! 3) 0x376,
         cr_bmide = ucast ((bar ! 4 AND NOT 3) + 8), cr_nIEN = 2\<rparr>],
     channel_mtx = [Mutex_new garbage, Mutex_new garbage]\<rparr>"

text \<open>The port a register is behind; the ladder is the same in the three operations. The shadowed registers share ports with others and are selected by the control register.\<close>

definition register_port :: "ChannelRegisters \<Rightarrow> int \<Rightarrow> u16 option" where
  "register_port r reg =
    (if reg < 0x08 then Some (cr_base r + of_int (reg - 0x00))
     else if reg < 0x0C then Some (cr_base r + of_int (reg - 0x06))
     else if reg < 0x0E then Some (cr_ctrl r + of_int (reg - 0x0A))
     else if reg < 0x16 then Some (cr_bmide r + of_int (reg - 0x0E))
     else None)"

definition shadowed :: "int \<Rightarrow> bool" where
  "shadowed reg \<longleftrightarrow> reg > 0x07 \<and> reg < 0x0C"

function ata_write :: "'h ports \<Rightarrow> ChannelRegisters \<Rightarrow> int \<Rightarrow> u8 \<Rightarrow> 'h \<Rightarrow> 'h" where
  "ata_write io r reg data h =
    (let h1 = (if shadowed reg then ata_write io r ATA_REG_CONTROL (0x80 OR cr_nIEN r) h else h);
         h2 = (case register_port r reg of Some p \<Rightarrow> io_out8 io p data h1 | None \<Rightarrow> h1)
     in if shadowed reg then ata_write io r ATA_REG_CONTROL (cr_nIEN r) h2 else h2)"
  by pat_completeness auto
termination
  by (relation "measure (\<lambda>(io, r, reg, data, h). if shadowed reg then 1 else 0)") (auto simp: shadowed_def)

declare ata_write.simps [simp del]

definition ata_read :: "'h ports \<Rightarrow> ChannelRegisters \<Rightarrow> int \<Rightarrow> 'h \<Rightarrow> u8 \<times> 'h" where
  "ata_read io r reg h =
    (let h1 = (if shadowed reg then ata_write io r ATA_REG_CONTROL (0x80 OR cr_nIEN r) h else h);
         (result, h2) = (case register_port r reg of Some p \<Rightarrow> io_in8 io p h1 | None \<Rightarrow> (0, h1))
     in (result, if shadowed reg then ata_write io r ATA_REG_CONTROL (cr_nIEN r) h2 else h2))"

definition ata_read_buffer ::
    "'h ports \<Rightarrow> ChannelRegisters \<Rightarrow> int \<Rightarrow> bytes \<Rightarrow> nat \<Rightarrow> 'h \<Rightarrow> (bytes \<times> 'h) result" where
  "ata_read_buffer io r reg buffer n h =
    (let h1 = (if shadowed reg then ata_write io r ATA_REG_CONTROL (0x80 OR cr_nIEN r) h else h);
         (bs, h2) = (case register_port r reg of Some p \<Rightarrow> insl io p (n div 4) h1 | None \<Rightarrow> ([], h1))
     in andthen (store_bytes buffer 0 bs) (\<lambda>buffer.
       Inr (buffer, if shadowed reg then ata_write io r ATA_REG_CONTROL (cr_nIEN r) h2 else h2)))"

fun wait_not_busy :: "nat \<Rightarrow> 'h ports \<Rightarrow> ChannelRegisters \<Rightarrow> 'h \<Rightarrow> 'h result" where
  "wait_not_busy 0 io r h = Inl Diverges"
| "wait_not_busy (Suc fuel) io r h =
    (let (status, h) = ata_read io r ATA_REG_STATUS h
     in if status AND ATA_SR_BSY \<noteq> 0 then wait_not_busy fuel io r h else Inr h)"

definition ata_poll :: "nat \<Rightarrow> 'h ports \<Rightarrow> ChannelRegisters \<Rightarrow> bool \<Rightarrow> 'h \<Rightarrow> (nat \<times> 'h) result" where
  "ata_poll fuel io r error_check h =
    andthen (wait_not_busy fuel io r (io_delay io 400 h)) (\<lambda>h.
      if error_check then
        let (status, h) = ata_read io r ATA_REG_STATUS h
        in if status AND ATA_SR_ERR \<noteq> 0 then Inr (2, h)
           else if status AND ATA_SR_DF \<noteq> 0 then Inr (1, h)
           else if status AND ATA_SR_DRQ = 0 then Inr (3, h)
           else Inr (0, h)
      else Inr (0, h))"

section \<open>Drives\<close>

record ATADevice =
  ad_channel :: nat
  ad_drive :: nat
  ad_signature :: u32
  ad_caps :: u32
  ad_cmdsets :: u32
  ad_size :: u32
  ad_partitions :: "nat list"

text \<open>The four numbers are not set by the constructor; \<open>g\<close> is what they hold.\<close>

definition ATADevice_new :: "u32 \<Rightarrow> nat \<Rightarrow> nat \<Rightarrow> ATADevice" where
  "ATADevice_new g channel drive =
    \<lparr>ad_channel = channel mod 2, ad_drive = drive mod 2, ad_signature = g, ad_caps = g, ad_cmdsets = g, ad_size = g,
     ad_partitions = []\<rparr>"

definition ata_block_count :: "ATADevice \<Rightarrow> u64" where
  "ata_block_count d = ucast (ad_size d)"

definition ata_block_size :: "ATADevice \<Rightarrow> u64" where
  "ata_block_size d = 512"

text \<open>The writes that set up a transfer and issue its command. \<open>direction\<close> is true for a write.\<close>

definition program_transfer ::
    "'h ports \<Rightarrow> ChannelRegisters \<Rightarrow> nat \<Rightarrow> bool \<Rightarrow> u64 \<Rightarrow> u64 \<Rightarrow> 'h \<Rightarrow> 'h" where
  "program_transfer io r drive direction lba nr_blocks h =
    (let h = ata_write io r ATA_REG_HDDEVSEL (0xE0 OR push_bit 4 (of_nat drive)) h;
         h = ata_write io r ATA_REG_SECCOUNT1 0 h;
         h = ata_write io r ATA_REG_LBA3 (ucast (drop_bit 24 lba AND 0xff)) h;
         h = ata_write io r ATA_REG_LBA4 (ucast (drop_bit 32 lba AND 0xff)) h;
         h = ata_write io r ATA_REG_LBA5 (ucast (drop_bit 40 lba AND 0xff)) h;
         h = ata_write io r ATA_REG_SECCOUNT0 (ucast nr_blocks) h;
         h = ata_write io r ATA_REG_LBA0 (ucast (drop_bit 0 lba AND 0xff)) h;
         h = ata_write io r ATA_REG_LBA1 (ucast (drop_bit 8 lba AND 0xff)) h;
         h = ata_write io r ATA_REG_LBA2 (ucast (drop_bit 16 lba AND 0xff)) h
     in ata_write io r ATA_REG_COMMAND (if direction then ATA_CMD_WRITE_PIO_EXT else ATA_CMD_READ_PIO_EXT) h)"

text \<open>The loop over the blocks, \<open>n\<close> of them to go, with \<open>p\<close> as an index into the buffer.\<close>

primrec read_loop ::
    "nat \<Rightarrow> 'h ports \<Rightarrow> ChannelRegisters \<Rightarrow> nat \<Rightarrow> bytes \<Rightarrow> nat \<Rightarrow> 'h \<Rightarrow> (bool \<times> bytes \<times> 'h) result" where
  "read_loop fuel io r 0 buffer p h = Inr (True, buffer, h)"
| "read_loop fuel io r (Suc n) buffer p h =
    andthen (ata_poll fuel io r True h) (\<lambda>(code, h).
      if code \<noteq> 0 then Inr (False, buffer, h)
      else
        let (bs, h) = insw io (cr_base r) (512 div 2) h
        in andthen (store_bytes buffer p bs) (\<lambda>buffer. read_loop fuel io r n buffer (p + 512) h))"

definition transfer_unlocked ::
    "nat \<Rightarrow> 'h ports \<Rightarrow> ChannelRegisters \<Rightarrow> nat \<Rightarrow> bool \<Rightarrow> u64 \<Rightarrow> bytes \<Rightarrow> u64 \<Rightarrow> 'h \<Rightarrow> (bool \<times> bytes \<times> 'h) result" where
  "transfer_unlocked fuel io r drive direction lba buffer nr_blocks h =
    andthen (wait_not_busy fuel io r h) (\<lambda>h.
      let h = program_transfer io r drive direction lba nr_blocks h
      in if direction then Inr (True, buffer, h)
         else read_loop fuel io r (unat nr_blocks) buffer 0 h)"

text \<open>
  The channel's mutex is held while the transfer runs and released on every return. A lock that is already
  held never becomes free when no other thread runs.
\<close>

definition lock_channel :: "ATAController \<Rightarrow> nat \<Rightarrow> nat \<Rightarrow> ATAController result" where
  "lock_channel c i t =
    (if i < length (channel_mtx c) then
       let (was_locked, m) = test_and_set (channel_mtx c ! i)
       in if was_locked then Inl Diverges else Inr (c\<lparr>channel_mtx := (channel_mtx c)[i := set_owner m t]\<rparr>)
     else Inl OutOfBounds)"

definition unlock_channel :: "ATAController \<Rightarrow> nat \<Rightarrow> ATAController" where
  "unlock_channel c i = c\<lparr>channel_mtx := (channel_mtx c)[i := Mutex_unlock (channel_mtx c ! i)]\<rparr>"

definition transfer ::
    "nat \<Rightarrow> 'h ports \<Rightarrow> nat \<Rightarrow> ATADevice \<Rightarrow> bool \<Rightarrow> u64 \<Rightarrow> bytes \<Rightarrow> u64 \<Rightarrow> ATAController \<Rightarrow> 'h \<Rightarrow>
      (bool \<times> bytes \<times> ATAController \<times> 'h) result" where
  "transfer fuel io t d direction lba buffer nr_blocks c h =
    andthen (lock_channel c (ad_channel d) t) (\<lambda>c.
    andthen (channel_at c (ad_channel d)) (\<lambda>r.
    andthen (transfer_unlocked fuel io r (ad_drive d) direction lba buffer nr_blocks h) (\<lambda>(ok, buffer, h).
      Inr (ok, buffer, unlock_channel c (ad_channel d), h))))"

definition ata_read_blocks ::
    "nat \<Rightarrow> 'h ports \<Rightarrow> nat \<Rightarrow> ATADevice \<Rightarrow> bytes \<Rightarrow> u64 \<Rightarrow> u64 \<Rightarrow> ATAController \<Rightarrow> 'h \<Rightarrow>
      (bool \<times> bytes \<times> ATAController \<times> 'h) result" where
  "ata_read_blocks fuel io t d buffer offset n c h = transfer fuel io t d False offset buffer n c h"

definition ata_write_blocks ::
    "nat \<Rightarrow> 'h ports \<Rightarrow> nat \<Rightarrow> ATADevice \<Rightarrow> bytes \<Rightarrow> u64 \<Rightarrow> u64 \<Rightarrow> ATAController \<Rightarrow> 'h \<Rightarrow>
      (bool \<times> bytes \<times> ATAController \<times> 'h) result" where
  "ata_write_blocks fuel io t d buffer offset n c h = transfer fuel io t d True offset buffer n c h"

section \<open>Finding drives and their partitions\<close>

text \<open>
  The classes are positions in the device manager's list; \<open>uninit\<close> is what the digit array of \<open>ToString\<close> and fresh
  objects hold. A partition object is the position of its device, its first block and its number of blocks.
\<close>

record ata_env =
  env_fuel :: nat
  env_thread :: nat
  env_ata_class :: nat
  env_partition_class :: nat
  env_digits :: bytes
  env_word :: u32

record 'h ata_system =
  as_hw :: 'h
  as_ctrl :: ATAController
  as_dm :: DeviceManager
  as_drives :: "nat \<rightharpoonup> ATADevice"
  as_parts :: "nat \<rightharpoonup> nat \<times> u64 \<times> u64"

definition new_device :: "DeviceManager \<Rightarrow> nat \<Rightarrow> nat \<times> DeviceManager" where
  "new_device dm cls =
    (length (device_heap dm), dm\<lparr>device_heap := device_heap dm @ [\<lparr>dev_name = String_empty, dev_class = cls\<rparr>]\<rparr>)"

text \<open>
  Registration up to the call of \<open>init\<close>, which is the last thing \<open>register_device\<close> does; \<open>Device::init\<close>
  succeeds and does nothing.
\<close>

definition register_named :: "ata_env \<Rightarrow> nat \<Rightarrow> 'h ata_system \<Rightarrow> 'h ata_system result" where
  "register_named env d s =
    andthen (register_device (\<lambda>_ dm. Inr (True, dm)) (env_digits env) (as_dm s) d) (\<lambda>(_, dm).
      Inr (s\<lparr>as_dm := dm\<rparr>))"

definition drive_at :: "'h ata_system \<Rightarrow> nat \<Rightarrow> ATADevice result" where
  "drive_at s d = (case as_drives s d of Some dev \<Rightarrow> Inr dev | None \<Rightarrow> Inl Undefined)"

definition drive_read_blocks ::
    "ata_env \<Rightarrow> 'h ports \<Rightarrow> nat \<Rightarrow> bytes \<Rightarrow> u64 \<Rightarrow> u64 \<Rightarrow> 'h ata_system \<Rightarrow> (bool \<times> bytes \<times> 'h ata_system) result" where
  "drive_read_blocks env io d buffer offset n s =
    andthen (drive_at s d) (\<lambda>dev.
    andthen (ata_read_blocks (env_fuel env) io (env_thread env) dev buffer offset n (as_ctrl s) (as_hw s)) (\<lambda>(ok, buffer, c, h).
      Inr (ok, buffer, s\<lparr>as_ctrl := c, as_hw := h\<rparr>)))"

definition partition_read_blocks ::
    "ata_env \<Rightarrow> 'h ports \<Rightarrow> nat \<Rightarrow> bytes \<Rightarrow> u64 \<Rightarrow> u64 \<Rightarrow> 'h ata_system \<Rightarrow> (bool \<times> bytes \<times> 'h ata_system) result" where
  "partition_read_blocks env io p buffer offset n s =
    (case as_parts s p of
       None \<Rightarrow> Inl Undefined
     | Some (d, start, _) \<Rightarrow> drive_read_blocks env io d buffer (start + offset) n s)"

text \<open>\<open>pte_\<close> are the fields of the entries of the partition table, 16 bytes each from \<open>0x1be\<close> on.\<close>

definition pte_offset :: "nat \<Rightarrow> nat" where "pte_offset i = 0x1be + 16 * i"

definition pte_type :: "bytes \<Rightarrow> nat \<Rightarrow> u8" where "pte_type table i = table ! (pte_offset i + 4)"

definition pte_lba :: "bytes \<Rightarrow> nat \<Rightarrow> u32" where "pte_lba table i = le32 table (pte_offset i + 8)"

definition pte_sectors :: "bytes \<Rightarrow> nat \<Rightarrow> u32" where "pte_sectors table i = le32 table (pte_offset i + 12)"

definition letter_p :: String where "letter_p = string_of [112]"

definition create_partition :: "ata_env \<Rightarrow> nat \<Rightarrow> bytes \<Rightarrow> 'h ata_system \<Rightarrow> nat \<Rightarrow> 'h ata_system result" where
  "create_partition env d table s i =
    (if pte_type table i = 0 then Inr s
     else
       case new_device (as_dm s) (env_partition_class env) of (p, dm) \<Rightarrow>
       andthen (drive_at s d) (\<lambda>dev.
       let s = s\<lparr>as_dm := dm,
                 as_parts := (as_parts s)(p \<mapsto> (d, ucast (pte_lba table i), ucast (pte_sectors table i))),
                 as_drives := (as_drives s)(d \<mapsto> dev\<lparr>ad_partitions := ad_partitions dev @ [p]\<rparr>)\<rparr>
       in andthen (register_named env p s) (\<lambda>s.
          andthen (get_name (as_dm s) d) (\<lambda>name.
          andthen (ToString (env_digits env) (of_nat i)) (\<lambda>num.
          andthen (add_device_alias (as_dm s) (string_append (string_append name letter_p) num) p) (\<lambda>(_, dm).
            Inr (s\<lparr>as_dm := dm\<rparr>)))))))"

definition create_partitions :: "ata_env \<Rightarrow> nat \<Rightarrow> bytes \<Rightarrow> 'h ata_system \<Rightarrow> (bool \<times> 'h ata_system) result" where
  "create_partitions env d table s =
    andthen (fold_result (create_partition env d table) s [0..<4]) (\<lambda>s. Inr (True, s))"

text \<open>\<open>buffer\<close> is the fresh array of 512 bytes.\<close>

definition check_for_partitions ::
    "ata_env \<Rightarrow> 'h ports \<Rightarrow> nat \<Rightarrow> bytes \<Rightarrow> 'h ata_system \<Rightarrow> (bool \<times> 'h ata_system) result" where
  "check_for_partitions env io d buffer s =
    andthen (drive_read_blocks env io d buffer 0 1 s) (\<lambda>(ok, buffer, s).
      if \<not> ok then Inr (False, s)
      else if buffer ! 0x1fe = 0x55 \<and> buffer ! 0x1ff = 0xaa then create_partitions env d buffer s
      else Inr (True, s))"

text \<open>The identification of a drive: the numbers taken from its 512 bytes.\<close>

definition identify :: "bytes \<Rightarrow> ATADevice \<Rightarrow> ATADevice" where
  "identify buffer dev =
    (let dev = dev\<lparr>ad_signature := ucast (le16 buffer 0), ad_caps := ucast (le16 buffer 98), ad_cmdsets := le32 buffer 164\<rparr>
     in if ad_cmdsets dev AND push_bit 26 1 \<noteq> 0 then dev\<lparr>ad_size := le32 buffer 200\<rparr>
        else dev\<lparr>ad_size := le32 buffer 120\<rparr>)"

text \<open>The model name shown in the log: the bytes of each pair exchanged, then cut after the last that is not a space.\<close>

primrec swap_pairs :: "bytes \<Rightarrow> nat \<Rightarrow> bytes" where
  "swap_pairs buffer 0 = []"
| "swap_pairs buffer (Suc k) = swap_pairs buffer k @ [buffer ! (54 + 2 * k + 1), buffer ! (54 + 2 * k)]"

fun trim_model :: "bytes \<Rightarrow> nat \<Rightarrow> bytes" where
  "trim_model model 0 = model"
| "trim_model model (Suc i) =
    (let model = model[Suc i := 0] in if model ! i \<noteq> 32 then model else trim_model model i)"

definition model_name :: "bytes \<Rightarrow> u8 \<Rightarrow> bytes" where
  "model_name buffer g = trim_model (swap_pairs buffer 20 @ [g]) 40"

definition ata_device_init ::
    "ata_env \<Rightarrow> 'h ports \<Rightarrow> nat \<Rightarrow> bytes \<Rightarrow> 'h ata_system \<Rightarrow> (bool \<times> 'h ata_system) result" where
  "ata_device_init env io d buffer s =
    andthen (drive_at s d) (\<lambda>dev.
    andthen (channel_at (as_ctrl s) (ad_channel dev)) (\<lambda>r.
    andthen (ata_read_buffer io r ATA_REG_DATA buffer (128 * 4) (as_hw s)) (\<lambda>(ident, h).
      let dev = identify ident dev; s = s\<lparr>as_hw := h, as_drives := (as_drives s)(d \<mapsto> dev)\<rparr>
      in if ad_caps dev AND 0x200 = 0 then Inr (False, s)
         else check_for_partitions env io d buffer s)))"

section \<open>The controller\<close>

fun probe_wait :: "nat \<Rightarrow> 'h ports \<Rightarrow> ChannelRegisters \<Rightarrow> 'h \<Rightarrow> (bool \<times> 'h) result" where
  "probe_wait 0 io r h = Inl Diverges"
| "probe_wait (Suc fuel) io r h =
    (let (status, h) = ata_read io r ATA_REG_STATUS h
     in if status AND ATA_SR_ERR \<noteq> 0 then Inr (False, h)
        else if status AND ATA_SR_BSY = 0 \<and> status AND ATA_SR_DRQ \<noteq> 0 then Inr (True, h)
        else probe_wait fuel io r h)"

definition probe_device ::
    "ata_env \<Rightarrow> 'h ports \<Rightarrow> bytes \<Rightarrow> nat \<Rightarrow> nat \<Rightarrow> 'h ata_system \<Rightarrow> (bool \<times> 'h ata_system) result" where
  "probe_device env io buffer channel device s =
    andthen (channel_at (as_ctrl s) channel) (\<lambda>r.
      let h = ata_write io r ATA_REG_HDDEVSEL (0xa0 OR push_bit 4 (of_nat device)) (as_hw s);
          h = io_delay io 1000000 h;
          h = ata_write io r ATA_REG_COMMAND ATA_CMD_IDENTIFY h;
          h = io_delay io 1000000 h;
          (status, h) = ata_read io r ATA_REG_STATUS h
      in if status = 0 then Inr (True, s\<lparr>as_hw := h\<rparr>)
         else andthen (probe_wait (env_fuel env) io r h) (\<lambda>(ready, h).
           if \<not> ready then Inr (False, s\<lparr>as_hw := h\<rparr>)
           else
             case new_device (as_dm s) (env_ata_class env) of (d, dm) \<Rightarrow>
             let s = s\<lparr>as_hw := h, as_dm := dm,
                       as_drives := (as_drives s)(d \<mapsto> ATADevice_new (env_word env) channel device)\<rparr>
             in andthen (register_named env d s) (\<lambda>s.
                andthen (ata_device_init env io d buffer s) (\<lambda>(ok, s).
                  if \<not> ok then Inr (False, s) else Inr (True, s)))))"

text \<open>The results of the probes are gathered but not returned.\<close>

definition probe_channel ::
    "ata_env \<Rightarrow> 'h ports \<Rightarrow> bytes \<Rightarrow> nat \<Rightarrow> 'h ata_system \<Rightarrow> (bool \<times> 'h ata_system) result" where
  "probe_channel env io buffer channel s =
    andthen (fold_result (\<lambda>(success, s) slave.
        andthen (probe_device env io buffer channel slave s) (\<lambda>(ok, s). Inr (success \<and> ok, s))) (True, s) [0..<2])
      (\<lambda>(success, s). Inr (True, s))"

definition ata_controller_init ::
    "ata_env \<Rightarrow> 'h ports \<Rightarrow> bytes \<Rightarrow> 'h ata_system \<Rightarrow> (bool \<times> 'h ata_system) result" where
  "ata_controller_init env io buffer s =
    andthen (channel_at (as_ctrl s) 0) (\<lambda>r0.
    andthen (channel_at (as_ctrl s) 1) (\<lambda>r1.
      let (_, h) = ata_read io r0 ATA_REG_STATUS (as_hw s);
          h = ata_write io r0 ATA_REG_CONTROL 2 h;
          h = ata_write io r1 ATA_REG_CONTROL 2 h
      in fold_result (\<lambda>(success, s) channel.
           andthen (probe_channel env io buffer channel s) (\<lambda>(ok, s). Inr (success \<and> ok, s)))
           (True, s\<lparr>as_hw := h\<rparr>) [0..<2]))"

end
