(* ===== verification/Block_Interface.thy ===== *)
theory Block_Interface
  imports Tarfs
begin

text \<open>
  The interface of a block device (\<open>infos/include/infos/drivers/block/block-device.h\<close>) as its clients see it: a locale
  for what a file system relies on, and the device of the TAR file system it stands for. Reading may wait for
  hardware, so an operation takes fuel and its results are those it settles at.
\<close>

section \<open>Loops that end\<close>

text \<open>\<open>settles f x\<close>: with enough fuel \<open>f\<close> returns \<open>x\<close>.\<close>

definition settles :: "(nat \<Rightarrow> 'a result) \<Rightarrow> 'a \<Rightarrow> bool" where
  "settles f x \<longleftrightarrow> (\<exists>F. \<forall>fuel\<ge>F. f fuel = Inr x)"

lemma settles_const [intro]: "f = (\<lambda>_. Inr x) \<Longrightarrow> settles f x"
  by (auto simp: settles_def)

lemma settles_andthen:
  assumes "settles f x" and "settles (\<lambda>fuel. g fuel x) y"
  shows "settles (\<lambda>fuel. andthen (f fuel) (g fuel)) y"
proof -
  obtain F G where "\<forall>fuel\<ge>F. f fuel = Inr x" "\<forall>fuel\<ge>G. g fuel x = Inr y"
    using assms by (auto simp: settles_def)
  then have "\<forall>fuel\<ge>max F G. andthen (f fuel) (g fuel) = Inr y"
    by simp
  then show ?thesis
    unfolding settles_def by blast
qed

lemma settles_Suc:
  assumes "settles (\<lambda>fuel. f (Suc fuel)) x"
  shows "settles f x"
proof -
  obtain F where F: "\<forall>fuel\<ge>F. f (Suc fuel) = Inr x"
    using assms by (auto simp: settles_def)
  have "f fuel = Inr x" if "Suc F \<le> fuel" for fuel
    using F that by (cases fuel) auto
  then show ?thesis
    unfolding settles_def by blast
qed

section \<open>Block devices with contents\<close>

text \<open>The device of the TAR file system whose blocks are those of an image.\<close>

definition image_device :: "bytes \<Rightarrow> block_device" where
  "image_device img =
    \<lparr>block_size = 512, block_count = length img div 512,
     read_block = (\<lambda>k. if 512 * (k + 1) \<le> length img then Some (take 512 (drop (512 * k) img)) else None)\<rparr>"

locale block_reader =
  fixes read :: "nat \<Rightarrow> 's \<Rightarrow> bytes \<Rightarrow> u64 \<Rightarrow> u64 \<Rightarrow> (bool \<times> bytes \<times> 's) result"
    and valid :: "'s \<Rightarrow> bool" and content :: "'s \<Rightarrow> bytes"
  assumes read_inside: "valid s \<Longrightarrow> 0 < n \<Longrightarrow> n < 256 \<Longrightarrow> 512 * (k + n) \<le> length (content s) \<Longrightarrow> 512 * n \<le> length buffer \<Longrightarrow>
      \<exists>s'. settles (\<lambda>fuel. read fuel s buffer (of_nat k) (of_nat n))
        (True, take (512 * n) (drop (512 * k) (content s)) @ drop (512 * n) buffer, s') \<and> valid s' \<and> content s' = content s"
begin

text \<open>One block at a time, the device is the image's.\<close>

lemma read_as_image:
  assumes "valid s" and "read_blocks (image_device (content s)) buffer k = Inr (True, data)"
  shows "\<exists>s'. settles (\<lambda>fuel. read fuel s buffer (of_nat k) 1) (True, data, s') \<and> valid s' \<and> content s' = content s"
proof -
  have in_range: "512 * (k + 1) \<le> length (content s)" "512 * 1 \<le> length buffer"
    and data: "data = take (512 * 1) (drop (512 * k) (content s)) @ drop (512 * 1) buffer"
    using assms(2) by (auto simp: read_blocks_def image_device_def split: if_splits)
  show ?thesis
    using read_inside [OF assms(1) zero_less_one _ in_range] unfolding data by simp
qed

text \<open>Blocks read one after the other, each into a fresh buffer, are consecutive parts of the image.\<close>

primrec read_each :: "nat \<Rightarrow> nat \<Rightarrow> nat \<Rightarrow> bytes \<Rightarrow> 's \<Rightarrow> (bytes \<times> 's) result" where
  "read_each fuel k 0 buffer s = Inr ([], s)"
| "read_each fuel k (Suc n) buffer s =
    andthen (read fuel s buffer (of_nat k) 1) (\<lambda>(ok, data, s).
    andthen (check ok Undefined) (\<lambda>_.
    andthen (read_each fuel (Suc k) n buffer s) (\<lambda>(rest, s). Inr (data @ rest, s))))"

lemma read_each_settles:
  assumes "valid s" and "512 * (k + n) \<le> length (content s)" and "length buffer = 512"
  shows "\<exists>s'. settles (\<lambda>fuel. read_each fuel k n buffer s) (take (512 * n) (drop (512 * k) (content s)), s') \<and>
    valid s' \<and> content s' = content s"
  using assms(1,2)
proof (induction n arbitrary: k s)
  case 0
  then show ?case
    by (intro exI [of _ s]) (simp add: settles_def)
next
  case (Suc n)
  obtain s1 where s1: "settles (\<lambda>fuel. read fuel s buffer (of_nat k) 1) (True, take 512 (drop (512 * k) (content s)), s1)"
      "valid s1" "content s1 = content s"
    using read_inside [OF Suc.prems(1), of 1 k buffer] Suc.prems(2) assms(3) by auto
  obtain s2 where s2: "settles (\<lambda>fuel. read_each fuel (Suc k) n buffer s1) (take (512 * n) (drop (512 * Suc k) (content s1)), s2)"
      "valid s2" "content s2 = content s1"
    using Suc.IH [OF s1(2), of "Suc k"] Suc.prems(2) s1(3) by auto
  have "settles (\<lambda>fuel. read_each fuel k (Suc n) buffer s)
      (take 512 (drop (512 * k) (content s)) @ take (512 * n) (drop (512 * Suc k) (content s1)), s2)"
    unfolding read_each.simps
    by (rule settles_andthen [OF s1(1)], simp, rule settles_andthen [OF s2(1)], simp add: settles_def)
  moreover have "take 512 (drop (512 * k) (content s)) @ take (512 * n) (drop (512 * Suc k) (content s1)) =
      take (512 * Suc n) (drop (512 * k) (content s))"
    by (simp add: s1(3) take_add ac_simps)
  ultimately show ?case
    using s2(2,3) s1(3) by auto
qed

end

end
