(* ===== verification/Ata_Drive.thy ===== *)
theory Ata_Drive
  imports Ata Block_Interface
begin

text \<open>
  What the driver relies on in an ATA drive, stated of the ports as hypotheses, and the transfers proved against it. The
  state of a channel is abstracted to the registers of its command block (each keeps its last two values), the words of the current command not yet read,
  the number of status reads that will still find the channel busy, and the contents of its two drives.
\<close>

unbundle bit_operations_syntax

section \<open>Words and bytes\<close>

fun words_of :: "bytes \<Rightarrow> u16 list" where
  "words_of (a # b # bs) = (ucast a OR push_bit 8 (ucast b)) # words_of bs"
| "words_of _ = []"

primrec bytes_of :: "u16 list \<Rightarrow> bytes" where
  "bytes_of [] = []"
| "bytes_of (w # ws) = ucast w # ucast (drop_bit 8 w) # bytes_of ws"

lemma word_of_two_bytes:
  fixes a b :: u8
  shows "ucast (ucast a OR push_bit 8 (ucast b) :: u16) = a" "ucast (drop_bit 8 (ucast a OR push_bit 8 (ucast b) :: u16)) = b"
  by (rule bit_eqI; auto simp: bit_simps dest: bit_imp_le_length)+

lemma bytes_of_words [simp]: "even (length bs) \<Longrightarrow> bytes_of (words_of bs) = bs"
  by (induction bs rule: words_of.induct) (simp_all add: word_of_two_bytes del: drop_bit_or)

lemma length_words_of [simp]: "length (words_of bs) = length bs div 2"
  by (induction bs rule: words_of.induct) simp_all

lemma length_bytes_of [simp]: "length (bytes_of ws) = 2 * length ws"
  by (induction ws) simp_all

lemma bytes_of_append [simp]: "bytes_of (a @ b) = bytes_of a @ bytes_of b"
  by (induction a) simp_all

section \<open>The abstract channel\<close>

record ata_disk =
  dk_device :: u8
  dk_count :: "u8 \<times> u8"
  dk_low :: "u8 \<times> u8"
  dk_mid :: "u8 \<times> u8"
  dk_high :: "u8 \<times> u8"
  dk_pending :: "u16 list"
  dk_busy :: nat
  dk_media :: "nat \<Rightarrow> bytes"

definition push_reg :: "u8 \<Rightarrow> u8 \<times> u8 \<Rightarrow> u8 \<times> u8" where
  "push_reg v r = (v, fst r)"

definition dk_lba :: "ata_disk \<Rightarrow> nat" where
  "dk_lba k = unat (fst (dk_low k)) + 2 ^ 8 * unat (fst (dk_mid k)) + 2 ^ 16 * unat (fst (dk_high k)) +
    2 ^ 24 * unat (snd (dk_low k)) + 2 ^ 32 * unat (snd (dk_mid k)) + 2 ^ 40 * unat (snd (dk_high k))"

definition dk_sectors :: "ata_disk \<Rightarrow> nat" where
  "dk_sectors k =
    (let n = unat (fst (dk_count k)) + 2 ^ 8 * unat (snd (dk_count k)) in if n = 0 then 2 ^ 16 else n)"

definition dk_selected :: "ata_disk \<Rightarrow> nat" where
  "dk_selected k = (if bit (dk_device k) 4 then 1 else 0)"

definition media_range :: "ata_disk \<Rightarrow> nat \<Rightarrow> nat \<Rightarrow> nat \<Rightarrow> bytes" where
  "media_range k drive lba n = take (512 * n) (drop (512 * lba) (dk_media k drive))"

definition dk_idle :: "ata_disk \<Rightarrow> bool" where
  "dk_idle k \<longleftrightarrow> dk_pending k = [] \<and> dk_busy k = 0"

text \<open>
  The registers of the command block accept writes while no command is running. The control register and waiting
  change none of them. The read command, in LBA mode and inside the medium, makes the words of the sectors pending. A status read finds
  the channel busy, and less so afterwards, or not busy, and then \<open>DRQ\<close> says whether words are pending. The data port
  yields the pending words; between sectors the drive may be busy again.
\<close>

definition command_block_law :: "'h ports \<Rightarrow> ChannelRegisters \<Rightarrow> ('h \<Rightarrow> ata_disk) \<Rightarrow> bool" where
  "command_block_law io r view \<longleftrightarrow> (\<forall>h v. dk_idle (view h) \<longrightarrow>
    view (io_out8 io (cr_base r + 2) v h) = (view h)\<lparr>dk_count := push_reg v (dk_count (view h))\<rparr> \<and>
    view (io_out8 io (cr_base r + 3) v h) = (view h)\<lparr>dk_low := push_reg v (dk_low (view h))\<rparr> \<and>
    view (io_out8 io (cr_base r + 4) v h) = (view h)\<lparr>dk_mid := push_reg v (dk_mid (view h))\<rparr> \<and>
    view (io_out8 io (cr_base r + 5) v h) = (view h)\<lparr>dk_high := push_reg v (dk_high (view h))\<rparr> \<and>
    view (io_out8 io (cr_base r + 6) v h) = (view h)\<lparr>dk_device := v\<rparr>)"

definition control_law :: "'h ports \<Rightarrow> ChannelRegisters \<Rightarrow> ('h \<Rightarrow> ata_disk) \<Rightarrow> bool" where
  "control_law io r view \<longleftrightarrow> (\<forall>h v. v AND 4 = 0 \<longrightarrow> view (io_out8 io (cr_ctrl r + 2) v h) = view h)"

definition delay_law :: "'h ports \<Rightarrow> ('h \<Rightarrow> ata_disk) \<Rightarrow> bool" where
  "delay_law io view \<longleftrightarrow> (\<forall>h t. \<exists>b. view (io_delay io t h) = (view h)\<lparr>dk_busy := b\<rparr>)"

definition read_command_law :: "'h ports \<Rightarrow> ChannelRegisters \<Rightarrow> ('h \<Rightarrow> ata_disk) \<Rightarrow> bool" where
  "read_command_law io r view \<longleftrightarrow> (\<forall>h. let k = view h in
    dk_idle k \<and> bit (dk_device k) 6 \<and> 512 * (dk_lba k + dk_sectors k) \<le> length (dk_media k (dk_selected k)) \<longrightarrow>
    (\<exists>b. view (io_out8 io (cr_base r + 7) ATA_CMD_READ_PIO_EXT h) =
      k\<lparr>dk_pending := words_of (media_range k (dk_selected k) (dk_lba k) (dk_sectors k)), dk_busy := b\<rparr>))"

definition status_law :: "'h ports \<Rightarrow> ChannelRegisters \<Rightarrow> ('h \<Rightarrow> ata_disk) \<Rightarrow> bool" where
  "status_law io r view \<longleftrightarrow> (\<forall>h v h'. io_in8 io (cr_base r + 7) h = (v, h') \<longrightarrow>
    (if 0 < dk_busy (view h) then v AND ATA_SR_BSY \<noteq> 0 \<and> (\<exists>b<dk_busy (view h). view h' = (view h)\<lparr>dk_busy := b\<rparr>)
     else view h' = view h \<and> v AND ATA_SR_BSY = 0 \<and> v AND ATA_SR_ERR = 0 \<and> v AND ATA_SR_DF = 0 \<and>
       (v AND ATA_SR_DRQ = 0 \<longleftrightarrow> dk_pending (view h) = [])))"

definition data_law :: "'h ports \<Rightarrow> ChannelRegisters \<Rightarrow> ('h \<Rightarrow> ata_disk) \<Rightarrow> bool" where
  "data_law io r view \<longleftrightarrow> (\<forall>h w ws. dk_pending (view h) = w # ws \<longrightarrow> dk_busy (view h) = 0 \<longrightarrow>
    (\<exists>h' b. io_in16 io (cr_base r) h = (w, h') \<and> view h' = (view h)\<lparr>dk_pending := ws, dk_busy := b\<rparr> \<and>
      (length ws mod 256 \<noteq> 0 \<longrightarrow> b = 0)))"

definition drive_laws :: "'h ports \<Rightarrow> ChannelRegisters \<Rightarrow> ('h \<Rightarrow> ata_disk) \<Rightarrow> bool" where
  "drive_laws io r view \<longleftrightarrow> command_block_law io r view \<and> control_law io r view \<and> delay_law io view \<and>
    read_command_law io r view \<and> status_law io r view \<and> data_law io r view"

section \<open>Register accesses\<close>

lemma ata_write_plain:
  "\<not> shadowed reg \<Longrightarrow> ata_write io r reg v h = (case register_port r reg of Some p \<Rightarrow> io_out8 io p v h | None \<Rightarrow> h)"
  by (simp add: ata_write.simps)

lemma ata_write_control: "ata_write io r ATA_REG_CONTROL v h = io_out8 io (cr_ctrl r + 2) v h"
  by (simp add: ata_write_plain shadowed_def register_port_def)

text \<open>A shadowed register: its high-order copy is selected, written and deselected.\<close>

lemma ata_write_shadowed:
  "shadowed reg \<Longrightarrow> ata_write io r reg v h =
    io_out8 io (cr_ctrl r + 2) (cr_nIEN r)
      (io_out8 io (cr_base r + of_int (reg - 6)) v (io_out8 io (cr_ctrl r + 2) (0x80 OR cr_nIEN r) h))"
  by (subst ata_write.simps) (simp add: ata_write_control, simp add: shadowed_def register_port_def)

lemma ata_read_status: "ata_read io r ATA_REG_STATUS h = io_in8 io (cr_base r + 7) h"
  by (simp add: ata_read_def shadowed_def register_port_def split: prod.splits)

text \<open>The constructor leaves the reset bit of \<open>nIEN\<close> clear.\<close>

definition no_reset :: "ChannelRegisters \<Rightarrow> bool" where
  "no_reset r \<longleftrightarrow> cr_nIEN r AND 4 = 0"

lemma no_reset_control: "no_reset r \<Longrightarrow> (0x80 OR cr_nIEN r) AND 4 = 0"
  by (simp add: no_reset_def bit.conj_disj_distrib2)

lemma view_control: "drive_laws io r view \<Longrightarrow> v AND 4 = 0 \<Longrightarrow> view (io_out8 io (cr_ctrl r + 2) v h) = view h"
  by (simp add: drive_laws_def control_law_def)

lemma view_command_block:
  assumes "drive_laws io r view" and "dk_idle (view h)"
  shows "view (io_out8 io (cr_base r + 2) v h) = (view h)\<lparr>dk_count := push_reg v (dk_count (view h))\<rparr>"
    "view (io_out8 io (cr_base r + 3) v h) = (view h)\<lparr>dk_low := push_reg v (dk_low (view h))\<rparr>"
    "view (io_out8 io (cr_base r + 4) v h) = (view h)\<lparr>dk_mid := push_reg v (dk_mid (view h))\<rparr>"
    "view (io_out8 io (cr_base r + 5) v h) = (view h)\<lparr>dk_high := push_reg v (dk_high (view h))\<rparr>"
    "view (io_out8 io (cr_base r + 6) v h) = (view h)\<lparr>dk_device := v\<rparr>"
  using assms by (simp_all add: drive_laws_def command_block_law_def)

lemma view_write:
  assumes "drive_laws io r view" and "no_reset r" and "dk_idle (view h)"
  shows "view (ata_write io r ATA_REG_SECCOUNT0 v h) = (view h)\<lparr>dk_count := push_reg v (dk_count (view h))\<rparr>"
    "view (ata_write io r ATA_REG_SECCOUNT1 v h) = (view h)\<lparr>dk_count := push_reg v (dk_count (view h))\<rparr>"
    "view (ata_write io r ATA_REG_LBA0 v h) = (view h)\<lparr>dk_low := push_reg v (dk_low (view h))\<rparr>"
    "view (ata_write io r ATA_REG_LBA3 v h) = (view h)\<lparr>dk_low := push_reg v (dk_low (view h))\<rparr>"
    "view (ata_write io r ATA_REG_LBA1 v h) = (view h)\<lparr>dk_mid := push_reg v (dk_mid (view h))\<rparr>"
    "view (ata_write io r ATA_REG_LBA4 v h) = (view h)\<lparr>dk_mid := push_reg v (dk_mid (view h))\<rparr>"
    "view (ata_write io r ATA_REG_LBA2 v h) = (view h)\<lparr>dk_high := push_reg v (dk_high (view h))\<rparr>"
    "view (ata_write io r ATA_REG_LBA5 v h) = (view h)\<lparr>dk_high := push_reg v (dk_high (view h))\<rparr>"
    "view (ata_write io r ATA_REG_HDDEVSEL v h) = (view h)\<lparr>dk_device := v\<rparr>"
  using assms no_reset_control [OF assms(2)]
  by (simp_all add: ata_write_plain ata_write_shadowed shadowed_def register_port_def view_control view_command_block
        no_reset_def)

text \<open>The same as steps from a known idle state to the next.\<close>

definition at_idle :: "('h \<Rightarrow> ata_disk) \<Rightarrow> 'h \<Rightarrow> ata_disk \<Rightarrow> bool" where
  "at_idle view h k \<longleftrightarrow> view h = k \<and> dk_idle k"

lemma at_idle_write:
  assumes "drive_laws io r view" and "no_reset r" and "at_idle view h k"
  shows "at_idle view (ata_write io r ATA_REG_HDDEVSEL v h) (k\<lparr>dk_device := v\<rparr>)"
    "at_idle view (ata_write io r ATA_REG_SECCOUNT1 v h) (k\<lparr>dk_count := push_reg v (dk_count k)\<rparr>)"
    "at_idle view (ata_write io r ATA_REG_LBA3 v h) (k\<lparr>dk_low := push_reg v (dk_low k)\<rparr>)"
    "at_idle view (ata_write io r ATA_REG_LBA4 v h) (k\<lparr>dk_mid := push_reg v (dk_mid k)\<rparr>)"
    "at_idle view (ata_write io r ATA_REG_LBA5 v h) (k\<lparr>dk_high := push_reg v (dk_high k)\<rparr>)"
    "at_idle view (ata_write io r ATA_REG_SECCOUNT0 v h) (k\<lparr>dk_count := push_reg v (dk_count k)\<rparr>)"
    "at_idle view (ata_write io r ATA_REG_LBA0 v h) (k\<lparr>dk_low := push_reg v (dk_low k)\<rparr>)"
    "at_idle view (ata_write io r ATA_REG_LBA1 v h) (k\<lparr>dk_mid := push_reg v (dk_mid k)\<rparr>)"
    "at_idle view (ata_write io r ATA_REG_LBA2 v h) (k\<lparr>dk_high := push_reg v (dk_high k)\<rparr>)"
  using assms view_write [OF assms(1,2), of h v] by (auto simp: at_idle_def dk_idle_def)

text \<open>The writes of a transfer put the whole address, the count and the drive into the command block.\<close>

definition programmed :: "nat \<Rightarrow> u64 \<Rightarrow> u64 \<Rightarrow> ata_disk \<Rightarrow> ata_disk" where
  "programmed drive lba n k =
    k\<lparr>dk_device := 0xE0 OR push_bit 4 (of_nat drive), dk_count := (ucast n, 0),
      dk_low := (ucast lba, ucast (drop_bit 24 lba)), dk_mid := (ucast (drop_bit 8 lba), ucast (drop_bit 32 lba)),
      dk_high := (ucast (drop_bit 16 lba), ucast (drop_bit 40 lba))\<rparr>"

lemma ucast_low_byte: "(ucast (x AND 0xff) :: u8) = ucast (x :: u64)"
proof -
  have "x AND 0xff = take_bit 8 x"
    by (simp add: take_bit_eq_mask mask_eq_exp_minus_1)
  then have "bit (ucast (x AND 0xff) :: u8) i = bit (ucast x :: u8) i" for i
    by (auto simp: bit_ucast_iff bit_take_bit_iff)
  then show ?thesis
    by (intro bit_eqI) simp
qed

lemma programmed_fields [simp]:
  "dk_device (programmed drive lba n k) = 0xE0 OR push_bit 4 (of_nat drive)"
  "dk_count (programmed drive lba n k) = (ucast n, 0)"
  "dk_low (programmed drive lba n k) = (ucast lba, ucast (drop_bit 24 lba))"
  "dk_mid (programmed drive lba n k) = (ucast (drop_bit 8 lba), ucast (drop_bit 32 lba))"
  "dk_high (programmed drive lba n k) = (ucast (drop_bit 16 lba), ucast (drop_bit 40 lba))"
  "dk_media (programmed drive lba n k) = dk_media k"
  "dk_idle (programmed drive lba n k) = dk_idle k"
  by (simp_all add: programmed_def dk_idle_def)

lemma program_transfer_view:
  assumes "drive_laws io r view" and "no_reset r" and "dk_idle (view h)"
  shows "\<exists>h1. view h1 = programmed drive lba n (view h) \<and>
    program_transfer io r drive direction lba n h =
      ata_write io r ATA_REG_COMMAND (if direction then ATA_CMD_WRITE_PIO_EXT else ATA_CMD_READ_PIO_EXT) h1"
proof -
  note s = at_idle_write [OF assms(1,2)]
  have "at_idle view h (view h)"
    using assms(3) by (simp add: at_idle_def)
  note written = s(9) [OF s(8) [OF s(7) [OF s(6) [OF s(5) [OF s(4) [OF s(3) [OF s(2) [OF s(1) [OF this]]]]]]]]]
  show ?thesis
    unfolding program_transfer_def Let_def
    by (rule exI, rule conjI [OF _ refl], rule trans [OF conjunct1 [OF written [unfolded at_idle_def]]])
      (simp add: programmed_def push_reg_def ucast_low_byte)
qed

section \<open>The address survives the registers\<close>

lemma byte_of_nat: "unat (ucast (drop_bit k (of_nat n :: u64)) :: u8) = n div 2 ^ k mod 2 ^ 8" if "n < 2 ^ 64"
proof -
  have "unat (drop_bit k (of_nat n :: u64)) = n div 2 ^ k"
    using that by (simp only: unat_drop_bit_eq) (simp add: unat_of_nat drop_bit_eq_div [of k n] take_bit_eq_mod)
  then show ?thesis
    by (simp only: unsigned_ucast_eq) (simp add: take_bit_eq_mod)
qed

lemma low_byte_of_nat: "unat (ucast (of_nat n :: u64) :: u8) = n mod 2 ^ 8" if "n < 2 ^ 64"
  using byte_of_nat [OF that, of 0] by simp

lemma six_bytes:
  fixes n :: nat
  assumes "n < 2 ^ 48"
  shows "n mod 2 ^ 8 + 2 ^ 8 * (n div 2 ^ 8 mod 2 ^ 8) + 2 ^ 16 * (n div 2 ^ 16 mod 2 ^ 8) +
    2 ^ 24 * (n div 2 ^ 24 mod 2 ^ 8) + 2 ^ 32 * (n div 2 ^ 32 mod 2 ^ 8) + 2 ^ 40 * (n div 2 ^ 40 mod 2 ^ 8) = n"
proof -
  have step: "n mod 2 ^ k + 2 ^ k * (n div 2 ^ k mod 2 ^ 8) = n mod 2 ^ (k + 8)" for k :: nat
    by (simp add: power_add mod_mult2_eq mult.commute)
  have "n mod 2 ^ 48 = n"
    using assms by simp
  then show ?thesis
    using step [of 8] step [of 16] step [of 24] step [of 32] step [of 40] by simp
qed

lemma programmed_lba:
  assumes "lba < 2 ^ 48"
  shows "dk_lba (programmed drive (of_nat lba) n k) = lba"
proof -
  have "lba < 2 ^ 64"
    using assms by simp
  then show ?thesis
    by (simp only: dk_lba_def programmed_fields fst_conv snd_conv byte_of_nat low_byte_of_nat six_bytes [OF assms])
qed

lemma programmed_sectors:
  assumes "n < 2 ^ 64"
  shows "dk_sectors (programmed drive lba (of_nat n) k) = (if n mod 256 = 0 then 2 ^ 16 else n mod 256)"
  using assms by (simp add: dk_sectors_def low_byte_of_nat)

lemma device_select:
  "drive < 2 \<Longrightarrow> bit (0xE0 OR push_bit 4 (of_nat drive) :: u8) 4 = (drive = 1)"
  "drive < 2 \<Longrightarrow> bit (0xE0 OR push_bit 4 (of_nat drive) :: u8) 6"
  by (auto simp: less_2_cases_iff bit_simps)

lemma programmed_selects:
  assumes "drive < 2"
  shows "dk_selected (programmed drive lba n k) = drive" "bit (dk_device (programmed drive lba n k)) 6"
  using assms device_select [OF assms] by (auto simp: dk_selected_def)

section \<open>Waiting and reading\<close>

lemma view_status_busy:
  assumes "drive_laws io r view" and "ata_read io r ATA_REG_STATUS h = (v, h')" and "0 < dk_busy (view h)"
  shows "v AND ATA_SR_BSY \<noteq> 0 \<and> (\<exists>b<dk_busy (view h). view h' = (view h)\<lparr>dk_busy := b\<rparr>)"
  using assms by (simp add: ata_read_status drive_laws_def status_law_def)

lemma view_status_free:
  assumes "drive_laws io r view" and "ata_read io r ATA_REG_STATUS h = (v, h')" and "dk_busy (view h) = 0"
  shows "view h' = view h" "v AND ATA_SR_BSY = 0" "v AND ATA_SR_ERR = 0" "v AND ATA_SR_DF = 0"
    "v AND ATA_SR_DRQ = 0 \<longleftrightarrow> dk_pending (view h) = []"
  using assms by (simp_all add: ata_read_status drive_laws_def status_law_def)

lemma wait_settles:
  assumes "drive_laws io r view"
  shows "\<exists>h'. settles (\<lambda>fuel. wait_not_busy fuel io r h) h' \<and> view h' = (view h)\<lparr>dk_busy := 0\<rparr>"
proof (induction "dk_busy (view h)" arbitrary: h rule: less_induct)
  case less
  obtain v h1 where v: "ata_read io r ATA_REG_STATUS h = (v, h1)"
    by fastforce
  show ?case
  proof (cases "dk_busy (view h) = 0")
    case True
    have "settles (\<lambda>fuel. wait_not_busy fuel io r h) h1"
      by (rule settles_Suc, rule settles_const) (use view_status_free(2) [OF assms v True] v in simp)
    then show ?thesis
      using view_status_free(1) [OF assms v True] True by auto
  next
    case False
    then obtain b where b: "v AND ATA_SR_BSY \<noteq> 0" "b < dk_busy (view h)" "view h1 = (view h)\<lparr>dk_busy := b\<rparr>"
      using view_status_busy [OF assms v] by auto
    then obtain h' where h': "settles (\<lambda>fuel. wait_not_busy fuel io r h1) h'" "view h' = (view h1)\<lparr>dk_busy := 0\<rparr>"
      using less [of h1] by auto
    have "settles (\<lambda>fuel. wait_not_busy fuel io r h) h'"
      by (rule settles_Suc) (use h'(1) b(1) v in simp)
    then show ?thesis
      using h'(2) b(3) by auto
  qed
qed

lemma poll_settles:
  assumes "drive_laws io r view"
  shows "\<exists>h'. settles (\<lambda>fuel. ata_poll fuel io r True h) (if dk_pending (view h) = [] then 3 else 0, h') \<and>
    view h' = (view h)\<lparr>dk_busy := 0\<rparr>"
proof -
  obtain b where b: "view (io_delay io 400 h) = (view h)\<lparr>dk_busy := b\<rparr>"
    using assms by (auto simp: drive_laws_def delay_law_def)
  obtain h1 where h1: "settles (\<lambda>fuel. wait_not_busy fuel io r (io_delay io 400 h)) h1"
      "view h1 = (view (io_delay io 400 h))\<lparr>dk_busy := 0\<rparr>"
    using wait_settles [OF assms] by blast
  obtain v h2 where v: "ata_read io r ATA_REG_STATUS h1 = (v, h2)"
    by fastforce
  have free: "dk_busy (view h1) = 0"
    by (simp add: h1(2))
  have "settles (\<lambda>fuel. ata_poll fuel io r True h) (if dk_pending (view h) = [] then 3 else 0, h2)"
    unfolding ata_poll_def
    by (rule settles_andthen [OF h1(1)], rule settles_const)
      (use view_status_free [OF assms v free] v h1(2) b in simp)
  then show ?thesis
    using view_status_free(1) [OF assms v free] h1(2) b by auto
qed

text \<open>The data port yields a sector's words; \<open>n\<close> counts those still to come.\<close>

lemma view_insw:
  assumes "drive_laws io r view" and "dk_pending (view h) = ws @ rest" and "length ws \<le> 256" and "length rest mod 256 = 0"
    and "dk_busy (view h) = 0"
  shows "\<exists>h' b. insw io (cr_base r) (length ws) h = (bytes_of ws, h') \<and> view h' = (view h)\<lparr>dk_pending := rest, dk_busy := b\<rparr>"
  using assms(2,3,5)
proof (induction ws arbitrary: h)
  case Nil
  then show ?case
    by (intro exI [of _ h] exI [of _ 0]) simp
next
  case (Cons w ws)
  obtain h1 b where h1: "io_in16 io (cr_base r) h = (w, h1)"
      "view h1 = (view h)\<lparr>dk_pending := ws @ rest, dk_busy := b\<rparr>" "length (ws @ rest) mod 256 \<noteq> 0 \<longrightarrow> b = 0"
    using assms(1) Cons.prems(1,3) unfolding drive_laws_def data_law_def by (metis append_Cons)
  show ?case
  proof (cases "ws = []")
    case True
    then show ?thesis
      using h1 by auto
  next
    case False
    have "length (ws @ rest) mod 256 = length ws mod 256"
      using assms(4) by (simp add: mod_add_eq [symmetric])
    then have "b = 0"
      using h1(3) Cons.prems(2) False by simp
    then obtain h' b' where "insw io (cr_base r) (length ws) h1 = (bytes_of ws, h')"
        "view h' = (view h1)\<lparr>dk_pending := rest, dk_busy := b'\<rparr>"
      using Cons.IH [of h1] Cons.prems(2) h1(2) by auto
    then show ?thesis
      using h1(1,2) by auto
  qed
qed

text \<open>The loop over the blocks stores the pending words; it stops early when there are none left.\<close>

lemma read_block_settles:
  assumes "drive_laws io r view" and "dk_pending (view h) = ws @ rest" and "length ws = 256" and "length rest mod 256 = 0"
    and "p + 512 \<le> length buffer"
  shows "\<exists>h2 b. view h2 = (view h)\<lparr>dk_pending := rest, dk_busy := b\<rparr> \<and> (\<forall>n res.
      settles (\<lambda>fuel. read_loop fuel io r n (take p buffer @ bytes_of ws @ drop (p + 512) buffer) (p + 512) h2) res \<longrightarrow>
      settles (\<lambda>fuel. read_loop fuel io r (Suc n) buffer p h) res)"
proof -
  have ne: "dk_pending (view h) \<noteq> []"
    using assms(2,3) by auto
  obtain h1 where h1: "settles (\<lambda>fuel. ata_poll fuel io r True h) (0, h1)" "view h1 = (view h)\<lparr>dk_busy := 0\<rparr>"
    using poll_settles [OF assms(1), of h] ne by auto
  have "dk_pending (view h1) = ws @ rest" "dk_busy (view h1) = 0"
    using h1(2) assms(2) by simp_all
  then obtain h2 b where h2: "insw io (cr_base r) 256 h1 = (bytes_of ws, h2)" "view h2 = (view h)\<lparr>dk_pending := rest, dk_busy := b\<rparr>"
    using view_insw [OF assms(1), of h1 ws rest] assms(3,4) h1(2) by auto
  have "settles (\<lambda>fuel. read_loop fuel io r (Suc n) buffer p h) res"
    if "settles (\<lambda>fuel. read_loop fuel io r n (take p buffer @ bytes_of ws @ drop (p + 512) buffer) (p + 512) h2) res" for n res
    unfolding read_loop.simps
    by (rule settles_andthen [OF h1(1)]) (use h2(1) assms(3,5) that in \<open>simp add: store_bytes_def\<close>)
  then show ?thesis
    using h2(2) by blast
qed

lemma read_loop_settles:
  assumes "drive_laws io r view" and "dk_pending (view h) = ws" and "length ws = 256 * n" and "p + 512 * n \<le> length buffer"
  shows "\<exists>h' b. settles (\<lambda>fuel. read_loop fuel io r (n + extra) buffer p h)
      (extra = 0, take p buffer @ bytes_of ws @ drop (p + 512 * n) buffer, h') \<and>
    view h' = (view h)\<lparr>dk_pending := [], dk_busy := b\<rparr>"
  using assms(2-)
proof (induction n arbitrary: h ws p buffer)
  case 0
  show ?case
  proof (cases extra)
    case 0
    have "settles (\<lambda>fuel. read_loop fuel io r 0 buffer p h) (True, buffer, h)"
      by (rule settles_const) simp
    then show ?thesis
      using 0 "0.prems" by (intro exI [of _ h] exI [of _ "dk_busy (view h)"]) simp
  next
    case (Suc m)
    have ws: "ws = []" "dk_pending (view h) = []"
      using "0.prems" by simp_all
    obtain h1 where h1: "settles (\<lambda>fuel. ata_poll fuel io r True h) (3, h1)" "view h1 = (view h)\<lparr>dk_busy := 0\<rparr>"
      using poll_settles [OF assms(1), of h] ws by auto
    have "settles (\<lambda>fuel. read_loop fuel io r (Suc m) buffer p h) (False, buffer, h1)"
      unfolding read_loop.simps by (rule settles_andthen [OF h1(1)], rule settles_const) simp
    then show ?thesis
      using h1(2) ws Suc by (intro exI [of _ h1] exI [of _ 0]) simp
  qed
next
  case (Suc n)
  let ?B = "take p buffer @ bytes_of (take 256 ws) @ drop (p + 512) buffer"
  have len: "length (drop 256 ws) = 256 * n" "length (take 256 ws) = 256" "p + 512 \<le> length buffer"
    "p + 512 + 512 * n \<le> length ?B"
    using Suc.prems by simp_all
  obtain h2 b where h2: "view h2 = (view h)\<lparr>dk_pending := drop 256 ws, dk_busy := b\<rparr>"
    and rest: "\<And>m res. settles (\<lambda>fuel. read_loop fuel io r m ?B (p + 512) h2) res \<Longrightarrow>
      settles (\<lambda>fuel. read_loop fuel io r (Suc m) buffer p h) res"
    using read_block_settles [OF assms(1), of h "take 256 ws" "drop 256 ws" p buffer] Suc.prems(1) len(1-3) by auto
  have pend: "dk_pending (view h2) = drop 256 ws"
    by (simp add: h2)
  obtain h' b' where h': "settles (\<lambda>fuel. read_loop fuel io r (n + extra) ?B (p + 512) h2)
        (extra = 0, take (p + 512) ?B @ bytes_of (drop 256 ws) @ drop (p + 512 + 512 * n) ?B, h')"
      "view h' = (view h2)\<lparr>dk_pending := [], dk_busy := b'\<rparr>"
    using Suc.IH [OF pend len(1) len(4)] by blast
  have "bytes_of (take 256 ws) @ bytes_of (drop 256 ws) = bytes_of ws"
    by (simp add: bytes_of_append [symmetric] del: bytes_of_append)
  then have "take (p + 512) ?B @ bytes_of (drop 256 ws) @ drop (p + 512 + 512 * n) ?B =
      take p buffer @ bytes_of ws @ drop (p + 512 * Suc n) buffer"
    using len(2,3) by (simp add: ac_simps)
  then show ?case
    using rest [OF h'(1)] h'(2) h2 by auto
qed

section \<open>A drive that obeys the hypotheses\<close>

text \<open>A channel at the legacy ports whose state is the abstract one; it is busy twice after a command and once between sectors.\<close>

definition sample_ports :: "ata_disk ports" where
  "sample_ports =
    \<lparr>io_in8 = (\<lambda>p k. if p = 0x1F7 then
        (if dk_busy k = 0 then (if dk_pending k = [] then 0x40 else 0x48, k) else (0x80, k\<lparr>dk_busy := dk_busy k - 1\<rparr>))
        else (0, k)),
     io_in16 = (\<lambda>p k. case dk_pending k of [] \<Rightarrow> (0, k)
        | w # ws \<Rightarrow> (w, k\<lparr>dk_pending := ws, dk_busy := if length ws mod 256 = 0 then 1 else 0\<rparr>)),
     io_in32 = (\<lambda>p k. (0, k)),
     io_out8 = (\<lambda>p v k.
        if p = 0x1F2 then k\<lparr>dk_count := push_reg v (dk_count k)\<rparr>
        else if p = 0x1F3 then k\<lparr>dk_low := push_reg v (dk_low k)\<rparr>
        else if p = 0x1F4 then k\<lparr>dk_mid := push_reg v (dk_mid k)\<rparr>
        else if p = 0x1F5 then k\<lparr>dk_high := push_reg v (dk_high k)\<rparr>
        else if p = 0x1F6 then k\<lparr>dk_device := v\<rparr>
        else if p = 0x1F7 then
          k\<lparr>dk_pending := words_of (media_range k (dk_selected k) (dk_lba k) (dk_sectors k)), dk_busy := 2\<rparr>
        else k),
     io_out32 = (\<lambda>p v k. k),
     io_delay = (\<lambda>t k. k)\<rparr>"

lemma sample_laws:
  assumes "cr_base r = 0x1F0" and "cr_ctrl r = 0x3F6"
  shows "drive_laws sample_ports r id"
proof -
  have "\<exists>b. k = k\<lparr>dk_busy := b\<rparr>" for k :: ata_disk
    by (rule exI [of _ "dk_busy k"]) simp
  then have "delay_law sample_ports id"
    by (simp add: delay_law_def sample_ports_def)
  moreover have "status_law sample_ports r id"
    unfolding status_law_def using assms(1)
    by (auto simp: sample_ports_def split: if_splits intro!: exI [of _ "dk_busy h - 1" for h])
  moreover have "command_block_law sample_ports r id" "control_law sample_ports r id"
    using assms by (simp_all add: command_block_law_def control_law_def sample_ports_def)
  moreover have "data_law sample_ports r id"
    by (auto simp: data_law_def sample_ports_def)
  moreover have "read_command_law sample_ports r id"
    unfolding read_command_law_def Let_def using assms(1) by (auto simp: sample_ports_def)
  ultimately show ?thesis
    by (simp add: drive_laws_def)
qed

end
