(* ===== verification/Ata_Correct.thy ===== *)
theory Ata_Correct
  imports Ata_Drive
begin

text \<open>
  The ATA driver's operations against the drive of \<open>Ata_Drive\<close>: reads return the medium's blocks, counts of more than 255 blocks are
  cut to eight bits, writes send no data, and the partitions found are those of the partition table.
\<close>

unbundle bit_operations_syntax

section \<open>Transfers\<close>

lemma command_view:
  assumes "drive_laws io r view" and "dk_idle (view h)" and "bit (dk_device (view h)) 6"
    and "512 * (dk_lba (view h) + dk_sectors (view h)) \<le> length (dk_media (view h) (dk_selected (view h)))"
  shows "\<exists>b. view (ata_write io r ATA_REG_COMMAND ATA_CMD_READ_PIO_EXT h) =
    (view h)\<lparr>dk_pending := words_of (media_range (view h) (dk_selected (view h)) (dk_lba (view h)) (dk_sectors (view h))),
      dk_busy := b\<rparr>"
  using assms by (simp add: ata_write_plain shadowed_def register_port_def drive_laws_def read_command_law_def Let_def)

lemma transfer_reads:
  assumes laws: "drive_laws io r view" "no_reset r" and "dk_pending (view h) = []" and "drive < 2"
    and n: "m = n mod 256" "m \<noteq> 0" "n < 2 ^ 64" and lba: "lba < 2 ^ 48"
    and range: "512 * (lba + m) \<le> length (dk_media (view h) drive)" and buf: "512 * m \<le> length buffer"
  shows "\<exists>h'. settles (\<lambda>fuel. transfer_unlocked fuel io r drive False (of_nat lba) buffer (of_nat n) h)
      (n = m, media_range (view h) drive lba m @ drop (512 * m) buffer, h') \<and>
    dk_pending (view h') = [] \<and> dk_media (view h') = dk_media (view h)"
proof -
  obtain h1 where h1: "settles (\<lambda>fuel. wait_not_busy fuel io r h) h1" "view h1 = (view h)\<lparr>dk_busy := 0\<rparr>"
    using wait_settles [OF laws(1)] by blast
  have idle: "dk_idle (view h1)"
    using h1(2) assms(3) by (simp add: dk_idle_def)
  let ?K = "programmed drive (of_nat lba) (of_nat n) (view h1)"
  obtain h2 where h2: "view h2 = ?K" "program_transfer io r drive False (of_nat lba) (of_nat n) h1 =
      ata_write io r ATA_REG_COMMAND ATA_CMD_READ_PIO_EXT h2"
    using program_transfer_view [OF laws idle, of drive "of_nat lba" "of_nat n" False] by auto
  have k: "dk_lba ?K = lba" "dk_sectors ?K = m" "dk_selected ?K = drive" "bit (dk_device ?K) 6" "dk_media ?K = dk_media (view h)"
    using programmed_lba [OF lba] programmed_sectors [OF n(3)] n(1,2) programmed_selects [OF assms(4)] h1(2) by simp_all
  let ?W = "media_range (view h) drive lba m" and ?h3 = "ata_write io r ATA_REG_COMMAND ATA_CMD_READ_PIO_EXT h2"
  have "dk_idle (view h2)"
    using idle h2(1) by simp
  then obtain b where "view ?h3 = (view h2)\<lparr>dk_pending := words_of (media_range (view h2) (dk_selected (view h2)) (dk_lba (view h2)) (dk_sectors (view h2))), dk_busy := b\<rparr>"
    using command_view [OF laws(1), of h2] range k(4) unfolding h2(1) k(1-3,5) by blast
  then have h3: "dk_pending (view ?h3) = words_of ?W" "dk_media (view ?h3) = dk_media (view h)"
    unfolding h2(1) k by (simp_all add: media_range_def h1(2))
  have W: "length ?W = 512 * m"
    using range by (simp add: media_range_def)
  have len: "length (words_of ?W) = 256 * m" "0 + 512 * m \<le> length buffer"
    using W buf by simp_all
  obtain h' b' where h': "settles (\<lambda>fuel. read_loop fuel io r (m + (n - m)) buffer 0 ?h3)
        (n - m = 0, take 0 buffer @ bytes_of (words_of ?W) @ drop (0 + 512 * m) buffer, h')"
      "view h' = (view ?h3)\<lparr>dk_pending := [], dk_busy := b'\<rparr>"
    using read_loop_settles [OF laws(1) h3(1) len, of "n - m"] by blast
  have nm: "m \<le> n" "unat (of_nat n :: u64) = n"
    using n by (simp_all add: unat_of_nat take_bit_nat_eq_self)
  have "settles (\<lambda>fuel. transfer_unlocked fuel io r drive False (of_nat lba) buffer (of_nat n) h) (n = m, ?W @ drop (512 * m) buffer, h')"
    unfolding transfer_unlocked_def Let_def
    by (rule settles_andthen [OF h1(1)]) (use h'(1) nm h2(2) W in \<open>simp add: le_antisym\<close>)
  then show ?thesis
    using h'(2) h3(2) by auto
qed

section \<open>Drives\<close>

text \<open>A drive whose channel is free, behaves as the hypotheses say and has no command running.\<close>

definition device_ready :: "'h ports \<Rightarrow> ('h \<Rightarrow> ata_disk) \<Rightarrow> ATAController \<Rightarrow> ATADevice \<Rightarrow> 'h \<Rightarrow> bool" where
  "device_ready io view c d h \<longleftrightarrow> ad_channel d < length (channels c) \<and> ad_channel d < length (channel_mtx c) \<and>
    \<not> mtx_locked (channel_mtx c ! ad_channel d) \<and> ad_drive d < 2 \<and> drive_laws io (channels c ! ad_channel d) view \<and>
    no_reset (channels c ! ad_channel d) \<and> dk_pending (view h) = []"

lemma transfer_outcome:
  assumes ready: "device_ready io view c d h"
    and body: "settles (\<lambda>fuel. transfer_unlocked fuel io (channels c ! ad_channel d) (ad_drive d) dir lba buffer n h) (ok, data, h')"
    and "dk_pending (view h') = []"
  shows "\<exists>c'. settles (\<lambda>fuel. transfer fuel io t d dir lba buffer n c h) (ok, data, c', h') \<and> device_ready io view c' d h' \<and>
    channels c' = channels c"
proof -
  let ?i = "ad_channel d"
  let ?c = "c\<lparr>channel_mtx := (channel_mtx c)[?i := set_owner (snd (test_and_set (channel_mtx c ! ?i))) t]\<rparr>"
  have lock: "lock_channel c ?i t = Inr ?c" "channel_at ?c ?i = Inr (channels c ! ?i)"
    using ready by (simp_all add: device_ready_def lock_channel_def test_and_set_def channel_at_def)
  have "settles (\<lambda>fuel. transfer fuel io t d dir lba buffer n c h) (ok, data, unlock_channel ?c ?i, h')"
    unfolding transfer_def lock andthen_Inr by (rule settles_andthen [OF body], rule settles_const) simp
  moreover have "device_ready io view (unlock_channel ?c ?i) d h'"
    using ready assms(3) by (simp add: device_ready_def unlock_channel_def Mutex_unlock_def)
  ultimately show ?thesis
    by (intro exI [of _ "unlock_channel ?c ?i"]) (simp add: unlock_channel_def)
qed

text \<open>A read of up to 255 blocks, in the form the interfaces use.\<close>

lemma ata_reads:
  assumes "device_ready io view c d h" and "0 < n" and "n < 256" and "lba < 2 ^ 48"
    and "512 * (lba + n) \<le> length (dk_media (view h) (ad_drive d))" and "512 * n \<le> length buffer"
  shows "\<exists>c' h'. settles (\<lambda>fuel. ata_read_blocks fuel io t d buffer (of_nat lba) (of_nat n) c h)
      (True, media_range (view h) (ad_drive d) lba n @ drop (512 * n) buffer, c', h') \<and>
    device_ready io view c' d h' \<and> channels c' = channels c \<and> dk_media (view h') = dk_media (view h)"
proof -
  have r: "drive_laws io (channels c ! ad_channel d) view" "no_reset (channels c ! ad_channel d)" "dk_pending (view h) = []"
      "ad_drive d < 2"
    using assms(1) by (simp_all add: device_ready_def)
  have n: "n = n mod 256" "n \<noteq> 0" "n < 2 ^ 64"
    using assms(2,3) by simp_all
  obtain h' where h': "settles (\<lambda>fuel. transfer_unlocked fuel io (channels c ! ad_channel d) (ad_drive d) False (of_nat lba) buffer (of_nat n) h)
        (True, media_range (view h) (ad_drive d) lba n @ drop (512 * n) buffer, h')"
      "dk_pending (view h') = []" "dk_media (view h') = dk_media (view h)"
    using transfer_reads [OF r n assms(4-6)] by auto
  show ?thesis
    using transfer_outcome [OF assms(1) h'(1,2), of t] h'(3) unfolding ata_read_blocks_def by blast
qed

text \<open>
  C35 (\<open>ata-device.cpp\<close>, \<open>read_blocks\<close>). A read of up to 255 blocks inside the medium succeeds, fills the buffer with the medium's
  blocks in order, and leaves the channel unlocked and ready for the next transfer.
\<close>

theorem ata_read_correct:
  assumes "device_ready io view c d h" and "0 < n" and "n < 256" and "lba < 2 ^ 48"
    and "512 * (lba + n) \<le> length (dk_media (view h) (ad_drive d))" and "512 * n \<le> length buffer"
  shows "\<exists>c' h'. settles (\<lambda>fuel. ata_read_blocks fuel io t d buffer (of_nat lba) (of_nat n) c h)
      (True, media_range (view h) (ad_drive d) lba n @ drop (512 * n) buffer, c', h') \<and>
    device_ready io view c' d h' \<and> channels c' = channels c \<and> dk_media (view h') = dk_media (view h)"
  by (rule ata_reads [OF assms])

text \<open>
  (\<open>ata-device.cpp\<close>, \<open>transfer\<close>). The count of blocks is cut to eight bits: a longer read gets its first blocks, as many as the
  low byte says, and then fails.
\<close>

theorem ata_read_long_fails:
  assumes "device_ready io view c d h" and "256 < n" and "n < 2 ^ 64" and "m = n mod 256" and "m \<noteq> 0" and "lba < 2 ^ 48"
    and "512 * (lba + m) \<le> length (dk_media (view h) (ad_drive d))" and "512 * m \<le> length buffer"
  shows "\<exists>c' h'. settles (\<lambda>fuel. ata_read_blocks fuel io t d buffer (of_nat lba) (of_nat n) c h)
      (False, media_range (view h) (ad_drive d) lba m @ drop (512 * m) buffer, c', h') \<and> device_ready io view c' d h'"
proof -
  have r: "drive_laws io (channels c ! ad_channel d) view" "no_reset (channels c ! ad_channel d)" "dk_pending (view h) = []"
      "ad_drive d < 2"
    using assms(1) by (simp_all add: device_ready_def)
  have "n \<noteq> m"
    using assms(2,4) by (metis mod_less_divisor not_less_iff_gr_or_eq zero_less_numeral order.strict_trans)
  then obtain h' where h': "settles (\<lambda>fuel. transfer_unlocked fuel io (channels c ! ad_channel d) (ad_drive d) False (of_nat lba) buffer (of_nat n) h)
        (False, media_range (view h) (ad_drive d) lba m @ drop (512 * m) buffer, h')"
      "dk_pending (view h') = []"
    using transfer_reads [OF r assms(4,5,3,6-8)] by auto
  show ?thesis
    using transfer_outcome [OF assms(1) h', of t] unfolding ata_read_blocks_def by blast
qed

text \<open>
  (\<open>ata-device.cpp\<close>, \<open>transfer\<close>). A write issues the command but sends none of the data: what it does to the hardware does not depend on
  the buffer, and it reports success.
\<close>

theorem ata_write_ignores_data:
  assumes "ata_write_blocks fuel io t d buffer lba n c h = Inr (ok, b, c', h')"
  shows "ok" and "ata_write_blocks fuel io t d buffer' lba n c h = Inr (True, buffer', c', h')"
  using assms
  by (auto simp: ata_write_blocks_def transfer_def transfer_unlocked_def andthen_eq_Inr Let_def)

section \<open>A transfer on the sample drive\<close>

definition sample_disk :: ata_disk where
  "sample_disk =
    \<lparr>dk_device = 0, dk_count = (0, 0), dk_low = (0, 0), dk_mid = (0, 0), dk_high = (0, 0), dk_pending = [], dk_busy = 3,
     dk_media = (\<lambda>d. replicate 512 1 @ replicate 512 7)\<rparr>"

definition sample_controller :: ATAController where
  "sample_controller = ATAController_new [0, 0, 0, 0, 0] None"

lemma sample_ready: "device_ready sample_ports id sample_controller (ATADevice_new 0 0 0) sample_disk"
proof -
  have "drive_laws sample_ports (channels sample_controller ! 0) id"
    by (rule sample_laws) (simp_all add: sample_controller_def ATAController_new_def port_or_base_address_def)
  then show ?thesis
    by (simp add: device_ready_def ATADevice_new_def sample_disk_def)
      (simp add: sample_controller_def ATAController_new_def Mutex_new_def no_reset_def)
qed

theorem ata_read_correct_witness:
  "\<exists>c' h'. settles (\<lambda>fuel. ata_read_blocks fuel sample_ports 5 (ATADevice_new 0 0 0) (replicate 512 0) 1 1 sample_controller sample_disk)
    (True, replicate 512 7, c', h')"
proof -
  have "512 * (1 + 1) \<le> length (dk_media (id sample_disk) (ad_drive (ATADevice_new 0 0 0)))"
    "512 * 1 \<le> length (replicate 512 (0 :: u8))"
    "media_range (id sample_disk) (ad_drive (ATADevice_new 0 0 0)) 1 1 = replicate 512 7"
    by (simp_all add: sample_disk_def media_range_def)
  then show ?thesis
    using ata_read_correct [OF sample_ready, of 1 1 "replicate 512 0" 5] by auto
qed

text \<open>
  (\<open>ata-controller.cpp\<close>, constructor). With the legacy ports, the control register, which disables interrupts and selects
  the high-order registers, is taken to be two ports above \<open>0x3F6\<close>, the port it is at.
\<close>

theorem legacy_control_port:
  "register_port (channels (ATAController_new [0, 0, 0, 0, b] g) ! 0) ATA_REG_DATA = Some 0x1F0"
  "register_port (channels (ATAController_new [0, 0, 0, 0, b] g) ! 0) ATA_REG_CONTROL = Some 0x3F8"
  by (simp_all add: ATAController_new_def port_or_base_address_def register_port_def)

text \<open>
  (\<open>ata-device.cpp\<close>, \<open>init\<close>). The loop over the model name cuts it after its last character that is not a space; a name of
  spaces keeps one.
\<close>

lemma trim_model_trims:
  assumes "0 < i" and "i < length model"
  shows "\<exists>k. 0 < k \<and> k \<le> i \<and> trim_model model i = take k model @ replicate (Suc i - k) 0 @ drop (Suc i) model \<and>
    (\<forall>j. k \<le> j \<and> j < i \<longrightarrow> model ! j = 32) \<and> (k = 1 \<or> model ! (k - 1) \<noteq> 32)"
  using assms
proof (induction i arbitrary: model)
  case 0
  then show ?case
    by simp
next
  case (Suc i)
  let ?m = "model[Suc i := 0]"
  have m: "?m = take (Suc i) model @ 0 # drop (Suc (Suc i)) model"
    using Suc.prems(2) by (rule upd_conv_take_nth_drop)
  show ?case
  proof (cases "model ! i \<noteq> 32 \<or> i = 0")
    case True
    then have "trim_model model (Suc i) = ?m"
      by (auto simp: Let_def)
    then show ?thesis
      using True m by (intro exI [of _ "Suc i"]) auto
  next
    case False
    then have pre: "0 < i" "i < length ?m"
      using Suc.prems(2) by simp_all
    obtain k where k: "0 < k" "k \<le> i" "trim_model ?m i = take k ?m @ replicate (Suc i - k) 0 @ drop (Suc i) ?m"
        "\<forall>j. k \<le> j \<and> j < i \<longrightarrow> ?m ! j = 32" "k = 1 \<or> ?m ! (k - 1) \<noteq> 32"
      using Suc.IH [OF pre] by (elim exE conjE) (rule that)
    have "take k ?m = take k model" "drop (Suc i) ?m = 0 # drop (Suc (Suc i)) model"
      using k(2) Suc.prems(2) m by (simp_all add: min_def)
    moreover have "replicate (Suc i - k) 0 @ 0 # xs = replicate (Suc (Suc i) - k) 0 @ xs" for xs :: bytes
      using k(2) by (simp add: Suc_diff_le replicate_app_Cons_same)
    ultimately have "trim_model model (Suc i) = take k model @ replicate (Suc (Suc i) - k) 0 @ drop (Suc (Suc i)) model"
      using False k(3) by (simp add: Let_def)
    moreover have "\<forall>j. k \<le> j \<and> j < Suc i \<longrightarrow> model ! j = 32"
      using k(4) False by (auto simp: less_Suc_eq)
    ultimately show ?thesis
      using k(1,2,5) by (intro exI [of _ k]) auto
  qed
qed

end
