(* ===== verification/Ata_System.thy ===== *)
theory Ata_System
  imports Ata_Correct Devices_Correct
begin

text \<open>
  The drives and partitions as block devices: both provide the interface of \<open>Block_Interface\<close>, so that the TAR file system's
  device is a partition of an ATA drive. What scanning a partition table creates.
\<close>

unbundle bit_operations_syntax

section \<open>Drives and partitions provide blocks\<close>

text \<open>The state of a client is the ports, what they are taken for, and the system.\<close>

type_synonym 'h ata_client = "'h ports \<times> ('h \<Rightarrow> ata_disk) \<times> 'h ata_system"

definition on_client ::
    "('h ports \<Rightarrow> 'h ata_system \<Rightarrow> (bool \<times> bytes \<times> 'h ata_system) result) \<Rightarrow> 'h ata_client \<Rightarrow>
      (bool \<times> bytes \<times> 'h ata_client) result" where
  "on_client f st = (case st of (io, view, s) \<Rightarrow> andthen (f io s) (\<lambda>(ok, data, s). Inr (ok, data, (io, view, s))))"

definition drive_client :: "ata_env \<Rightarrow> nat \<Rightarrow> nat \<Rightarrow> 'h ata_client \<Rightarrow> bytes \<Rightarrow> u64 \<Rightarrow> u64 \<Rightarrow> (bool \<times> bytes \<times> 'h ata_client) result" where
  "drive_client env d fuel st buffer offset n =
    on_client (\<lambda>io. drive_read_blocks (env\<lparr>env_fuel := fuel\<rparr>) io d buffer offset n) st"

definition partition_client :: "ata_env \<Rightarrow> nat \<Rightarrow> nat \<Rightarrow> 'h ata_client \<Rightarrow> bytes \<Rightarrow> u64 \<Rightarrow> u64 \<Rightarrow> (bool \<times> bytes \<times> 'h ata_client) result" where
  "partition_client env p fuel st buffer offset n =
    on_client (\<lambda>io. partition_read_blocks (env\<lparr>env_fuel := fuel\<rparr>) io p buffer offset n) st"

definition drive_content :: "nat \<Rightarrow> 'h ata_client \<Rightarrow> bytes" where
  "drive_content d st = (case st of (io, view, s) \<Rightarrow>
    (case as_drives s d of Some dev \<Rightarrow> dk_media (view (as_hw s)) (ad_drive dev) | None \<Rightarrow> []))"

definition drive_valid :: "nat \<Rightarrow> 'h ata_client \<Rightarrow> bool" where
  "drive_valid d st \<longleftrightarrow> (case st of (io, view, s) \<Rightarrow>
    (\<exists>dev. as_drives s d = Some dev \<and> device_ready io view (as_ctrl s) dev (as_hw s)) \<and>
    length (drive_content d st) \<le> 512 * 2 ^ 48)"

lemma drive_reads:
  assumes "drive_valid d st" and "0 < n" and "n < 256" and "512 * (k + n) \<le> length (drive_content d st)"
    and "512 * n \<le> length buffer"
  shows "\<exists>st'. settles (\<lambda>fuel. drive_client env d fuel st buffer (of_nat k) (of_nat n))
      (True, take (512 * n) (drop (512 * k) (drive_content d st)) @ drop (512 * n) buffer, st') \<and>
    drive_valid d st' \<and> drive_content d st' = drive_content d st \<and>
    fst st' = fst st \<and> fst (snd st') = fst (snd st) \<and> as_parts (snd (snd st')) = as_parts (snd (snd st))"
proof -
  obtain io view s where st: "st = (io, view, s)"
    by (metis prod.exhaust)
  obtain dev where dev: "as_drives s d = Some dev" "device_ready io view (as_ctrl s) dev (as_hw s)"
    and bound: "length (drive_content d st) \<le> 512 * 2 ^ 48"
    using assms(1) st by (auto simp: drive_valid_def)
  have content: "drive_content d st = dk_media (view (as_hw s)) (ad_drive dev)"
    using dev(1) st by (simp add: drive_content_def)
  have "k < 2 ^ 48"
    using assms(2,4) bound by simp
  then obtain c' h' where r: "settles (\<lambda>fuel. ata_read_blocks fuel io (env_thread env) dev buffer (of_nat k) (of_nat n) (as_ctrl s) (as_hw s))
        (True, media_range (view (as_hw s)) (ad_drive dev) k n @ drop (512 * n) buffer, c', h')"
      "device_ready io view c' dev h'" "dk_media (view h') = dk_media (view (as_hw s))"
    using ata_reads [OF dev(2) assms(2,3), of k buffer "env_thread env"] assms(4,5) content by auto
  let ?st = "(io, view, s\<lparr>as_ctrl := c', as_hw := h'\<rparr>)"
  have "settles (\<lambda>fuel. drive_client env d fuel st buffer (of_nat k) (of_nat n))
      (True, media_range (view (as_hw s)) (ad_drive dev) k n @ drop (512 * n) buffer, ?st)"
    by (simp add: drive_client_def on_client_def st drive_read_blocks_def drive_at_def dev(1),
        rule settles_andthen, rule settles_andthen [OF r(1)]) (rule settles_const, simp)+
  moreover have "drive_content d ?st = drive_content d st"
    using dev(1) r(3) content by (simp add: drive_content_def)
  moreover from this have "drive_valid d ?st"
    using dev(1) r(2) bound by (simp add: drive_valid_def)
  ultimately show ?thesis
    by (intro exI [of _ ?st]) (simp add: st content [unfolded st] media_range_def)
qed

interpretation ata_drive: block_reader "drive_client env d" "drive_valid d" "drive_content d" for env d
  using drive_reads by unfold_locales blast

definition partition_content :: "nat \<Rightarrow> 'h ata_client \<Rightarrow> bytes" where
  "partition_content p st = (case as_parts (snd (snd st)) p of
     Some (d, start, n) \<Rightarrow> take (512 * unat n) (drop (512 * unat start) (drive_content d st))
   | None \<Rightarrow> [])"

definition partition_valid :: "nat \<Rightarrow> 'h ata_client \<Rightarrow> bool" where
  "partition_valid p st \<longleftrightarrow> (\<exists>d start n. as_parts (snd (snd st)) p = Some (d, start, n) \<and> drive_valid d st \<and>
    512 * (unat start + unat n) \<le> length (drive_content d st))"

lemma partition_as_drive:
  assumes "as_parts (snd (snd st)) p = Some (d, start, n)"
  shows "partition_client env p fuel st buffer offset m = drive_client env d fuel st buffer (start + offset) m"
  using assms by (cases st) (simp add: partition_client_def drive_client_def on_client_def partition_read_blocks_def)

lemma partition_reads:
  assumes "partition_valid p st" and "0 < m" and "m < 256" and "512 * (k + m) \<le> length (partition_content p st)"
    and "512 * m \<le> length buffer"
  shows "\<exists>st'. settles (\<lambda>fuel. partition_client env p fuel st buffer (of_nat k) (of_nat m))
      (True, take (512 * m) (drop (512 * k) (partition_content p st)) @ drop (512 * m) buffer, st') \<and>
    partition_valid p st' \<and> partition_content p st' = partition_content p st"
proof -
  obtain d start n where p: "as_parts (snd (snd st)) p = Some (d, start, n)" and d: "drive_valid d st"
    and fits: "512 * (unat start + unat n) \<le> length (drive_content d st)"
    using assms(1) by (auto simp: partition_valid_def)
  have content: "partition_content p st = take (512 * unat n) (drop (512 * unat start) (drive_content d st))"
    by (simp add: partition_content_def p)
  have km: "k + m \<le> unat n"
    using assms(4) fits by (simp add: content)
  then have "512 * (unat start + k + m) \<le> length (drive_content d st)"
    using fits by simp
  from drive_reads [OF d assms(2,3) this assms(5), of env]
  obtain st' where st': "settles (\<lambda>fuel. drive_client env d fuel st buffer (of_nat (unat start + k)) (of_nat m))
        (True, take (512 * m) (drop (512 * (unat start + k)) (drive_content d st)) @ drop (512 * m) buffer, st')"
      "drive_valid d st'" "drive_content d st' = drive_content d st" "as_parts (snd (snd st')) = as_parts (snd (snd st))"
    by blast
  have "take (512 * m) (drop (512 * k) (partition_content p st)) = take (512 * m) (drop (512 * (unat start + k)) (drive_content d st))"
    using km by (simp add: content drop_take min_def algebra_simps)
  moreover have "partition_content p st' = partition_content p st"
    using st'(3,4) by (simp add: partition_content_def p)
  moreover have "partition_valid p st'"
    using p st'(2-4) fits by (auto simp: partition_valid_def)
  ultimately show ?thesis
    using st'(1) by (intro exI [of _ st']) (simp add: partition_as_drive [OF p])
qed

interpretation ata_partition: block_reader "partition_client env p" "partition_valid p" "partition_content p" for env p
  using partition_reads by unfold_locales blast

section \<open>Scanning a partition table\<close>

text \<open>What scanning needs of the device manager; \<open>nm\<close> is the name of the class of partitions.\<close>

definition scan_ready :: "ata_env \<Rightarrow> DeviceManager \<Rightarrow> bool" where
  "scan_ready env dm \<longleftrightarrow> map_ok (devices dm) \<and> env_partition_class env < length (classes dm) \<and>
    length (env_digits env) = 16 \<and> 0 \<in> set (dc_name (classes dm ! env_partition_class env))"

lemma terminated_split: "0 \<in> set xs \<Longrightarrow> \<exists>nm r. xs = nm @ (0 :: u8) # r \<and> 0 \<notin> set nm"
  using split_list_first by fastforce

lemma register_named_ok:
  assumes "scan_ready env (as_dm s)" and "p < length (device_heap (as_dm s))"
    and "dev_class (device_heap (as_dm s) ! p) = env_partition_class env"
  shows "\<exists>dm. register_named env p s = Inr (s\<lparr>as_dm := dm\<rparr>) \<and> scan_ready env dm \<and>
    length (device_heap dm) = length (device_heap (as_dm s))"
proof -
  let ?dm = "as_dm s" and ?c = "env_partition_class env"
  obtain nm r where nm: "dc_name (classes ?dm ! ?c) = nm @ 0 # r" "0 \<notin> set nm"
    using terminated_split assms(1) unfolding scan_ready_def by blast
  have pre: "map_ok (devices ?dm)" "?c = dev_class (device_heap ?dm ! p)" "?c < length (classes ?dm)" "length (env_digits env) = 16"
    using assms by (simp_all add: scan_ready_def)
  obtain name m' where m: "map_ok m'" and reg: "\<And>init. register_device init (env_digits env) ?dm p = init p
      (?dm\<lparr>classes := (classes ?dm)[?c := (classes ?dm ! ?c)\<lparr>dc_instance := dc_instance (classes ?dm ! ?c) + 1\<rparr>],
          device_heap := (device_heap ?dm)[p := (device_heap ?dm ! p)\<lparr>dev_name := name\<rparr>], devices := m'\<rparr>)"
    using register_device_steps [OF pre(1) assms(2) pre(2,3) nm pre(4)] by blast
  show ?thesis
    unfolding register_named_def reg using m pre nm(1) by (auto simp: scan_ready_def)
qed

lemma alias_ok:
  assumes "scan_ready env dm"
  shows "\<exists>dm'. add_device_alias dm name p = Inr (True, dm') \<and> scan_ready env dm' \<and> device_heap dm' = device_heap dm \<and>
    try_get_device_by_name dm' name = Some p"
proof -
  obtain m' where m': "Map_add (devices dm) (fst (get_hash name)) p = Inr m'" "map_ok m'"
      "\<forall>k. try_get_value m' k = (if k = fst (get_hash name) then Some p else try_get_value (devices dm) k)"
    using Map_add_law [of "devices dm" "fst (get_hash name)" p] assms unfolding scan_ready_def by auto
  then show ?thesis
    using assms by (intro exI [of _ "dm\<lparr>devices := m'\<rparr>"]) (simp add: add_device_alias_def scan_ready_def try_get_device_by_name_def)
qed

text \<open>The object an entry of the table gets.\<close>

definition entry_object :: "nat \<Rightarrow> bytes \<Rightarrow> nat \<Rightarrow> nat \<times> u64 \<times> u64" where
  "entry_object d table i = (d, ucast (pte_lba table i), ucast (pte_sectors table i))"

lemma create_partition_step:
  assumes "scan_ready env (as_dm s)" and "d < length (device_heap (as_dm s))" and "as_drives s d = Some dev"
    and "pte_type table i \<noteq> 0"
  shows "\<exists>dm. create_partition env d table s i =
      Inr (s\<lparr>as_dm := dm, as_parts := (as_parts s)(length (device_heap (as_dm s)) \<mapsto> entry_object d table i),
             as_drives := (as_drives s)(d \<mapsto> dev\<lparr>ad_partitions := ad_partitions dev @ [length (device_heap (as_dm s))]\<rparr>)\<rparr>) \<and>
    scan_ready env dm \<and> length (device_heap dm) = Suc (length (device_heap (as_dm s)))"
proof -
  let ?n = "length (device_heap (as_dm s))" and ?cls = "env_partition_class env"
  let ?dm0 = "(as_dm s)\<lparr>device_heap := device_heap (as_dm s) @ [\<lparr>dev_name = String_empty, dev_class = ?cls\<rparr>]\<rparr>"
  let ?s = "s\<lparr>as_dm := ?dm0, as_parts := (as_parts s)(?n \<mapsto> entry_object d table i),
             as_drives := (as_drives s)(d \<mapsto> dev\<lparr>ad_partitions := ad_partitions dev @ [?n]\<rparr>)\<rparr>"
  have "scan_ready env (as_dm ?s)" "?n < length (device_heap (as_dm ?s))" "dev_class (device_heap (as_dm ?s) ! ?n) = ?cls"
    using assms(1) by (simp_all add: scan_ready_def)
  then obtain dm1 where dm1: "register_named env ?n ?s = Inr (?s\<lparr>as_dm := dm1\<rparr>)" "scan_ready env dm1"
      "length (device_heap dm1) = Suc ?n"
    using register_named_ok [of env ?s ?n] by auto
  obtain ds where ds: "ToString (env_digits env) (of_nat i) = Inr (string_of ds)"
    using ToString_digits [of "env_digits env" "of_nat i"] assms(1) by (auto simp: scan_ready_def)
  have name: "get_name dm1 d = Inr (dev_name (device_heap dm1 ! d))"
    using assms(2) dm1(3) by (simp add: get_name_def device_at_def)
  obtain dm2 where dm2: "add_device_alias dm1 (string_append (string_append (dev_name (device_heap dm1 ! d)) letter_p) (string_of ds)) ?n = Inr (True, dm2)"
      "scan_ready env dm2" "device_heap dm2 = device_heap dm1"
    using alias_ok [OF dm1(2)] by blast
  have "create_partition env d table s i = Inr (?s\<lparr>as_dm := dm2\<rparr>)"
    using assms(3,4) dm1(1) dm2(1) ds name
    by (simp add: create_partition_def new_device_def drive_at_def entry_object_def Let_def)
  then show ?thesis
    using dm2(2,3) dm1(3) by (intro exI [of _ dm2]) simp
qed

lemma create_partitions_fold:
  fixes table :: bytes
  assumes "scan_ready env (as_dm s)" and "d < length (device_heap (as_dm s))" and "as_drives s d = Some dev"
  defines "found xs \<equiv> filter (\<lambda>i. pte_type table i \<noteq> 0) xs" and "n \<equiv> length (device_heap (as_dm s))"
  shows "\<exists>dm. fold_result (create_partition env d table) s xs =
      Inr (s\<lparr>as_dm := dm, as_parts := (as_parts s)([n..<n + length (found xs)] [\<mapsto>] map (entry_object d table) (found xs)),
             as_drives := (as_drives s)(d \<mapsto> dev\<lparr>ad_partitions := ad_partitions dev @ [n..<n + length (found xs)]\<rparr>)\<rparr>) \<and>
    scan_ready env dm"
  using assms(1-3) unfolding n_def
proof (induction xs arbitrary: s dev)
  case Nil
  then show ?case
    by (intro exI [of _ "as_dm s"]) (simp add: found_def fun_upd_idem)
next
  case (Cons i xs)
  let ?n = "length (device_heap (as_dm s))"
  show ?case
  proof (cases "pte_type table i = 0")
    case True
    then show ?thesis
      using Cons.IH [OF Cons.prems] by (simp add: found_def create_partition_def)
  next
    case False
    obtain dm where dm: "create_partition env d table s i =
        Inr (s\<lparr>as_dm := dm, as_parts := (as_parts s)(?n \<mapsto> entry_object d table i),
             as_drives := (as_drives s)(d \<mapsto> dev\<lparr>ad_partitions := ad_partitions dev @ [?n]\<rparr>)\<rparr>)" (is "_ = Inr ?s")
      and inv: "scan_ready env dm" "length (device_heap dm) = Suc ?n"
      using create_partition_step [OF Cons.prems False] by blast
    have "scan_ready env (as_dm ?s)" "d < length (device_heap (as_dm ?s))"
      "as_drives ?s d = Some (dev\<lparr>ad_partitions := ad_partitions dev @ [?n]\<rparr>)"
      using inv Cons.prems(2) by simp_all
    note IH = Cons.IH [OF this]
    let ?dev = "dev\<lparr>ad_partitions := ad_partitions dev @ [?n]\<rparr>"
    have len: "length (device_heap (as_dm ?s)) = Suc ?n"
      using inv(2) by simp
    obtain dm' where dm': "fold_result (create_partition env d table) ?s xs = Inr (?s\<lparr>as_dm := dm',
          as_parts := (as_parts ?s)([Suc ?n..<Suc ?n + length (found xs)] [\<mapsto>] map (entry_object d table) (found xs)),
          as_drives := (as_drives ?s)(d \<mapsto> ?dev
            \<lparr>ad_partitions := ad_partitions ?dev @ [Suc ?n..<Suc ?n + length (found xs)]\<rparr>)\<rparr>)" "scan_ready env dm'"
      using IH unfolding len by blast
    have found: "found (i # xs) = i # found xs" and upt: "[?n..<Suc (?n + l)] = ?n # [Suc ?n..<Suc (?n + l)]" for l
      using False by (simp_all add: found_def upt_conv_Cons del: upt_Suc)
    have once: "(\<lambda>x. if x = a then A else if x = a then B else f x) = (\<lambda>x. if x = a then A else f x)"
      for a :: nat and A B :: "ATADevice option" and f
      by auto
    show ?thesis
      using dm' dm unfolding found by (intro exI [of _ dm']) (simp add: upt once fun_upd_def del: upt_Suc)
  qed
qed

text \<open>
  C37 (\<open>ata-device.cpp\<close>, \<open>create_partitions\<close>). Scanning a table creates, in the order of the table, one partition of the drive for each of its
  four entries whose type is not zero, with the first block and the number of blocks of the entry, and changes no other drive or partition.
\<close>

theorem create_partitions_correct:
  assumes "scan_ready env (as_dm s)" and "d < length (device_heap (as_dm s))" and "as_drives s d = Some dev"
    and "found = filter (\<lambda>i. pte_type table i \<noteq> 0) [0..<4]" and "new = [length (device_heap (as_dm s))..<length (device_heap (as_dm s)) + length found]"
  shows "\<exists>dm. create_partitions env d table s =
      Inr (True, s\<lparr>as_dm := dm, as_parts := (as_parts s)(new [\<mapsto>] map (entry_object d table) found),
             as_drives := (as_drives s)(d \<mapsto> dev\<lparr>ad_partitions := ad_partitions dev @ new\<rparr>)\<rparr>) \<and>
    scan_ready env dm"
  using create_partitions_fold [OF assms(1-3), of table "[0..<4]"] unfolding create_partitions_def assms(4,5) by force


section \<open>A disk with a partition\<close>

definition sample_system :: "ata_disk ata_system" where
  "sample_system =
    \<lparr>as_hw = sample_disk, as_ctrl = sample_controller, as_dm = two_devices,
     as_drives = [0 \<mapsto> ATADevice_new 0 0 0], as_parts = [1 \<mapsto> (0, 1, 1)]\<rparr>"

definition sample_env :: ata_env where
  "sample_env = \<lparr>env_fuel = 0, env_thread = 5, env_ata_class = 1, env_partition_class = 1, env_digits = replicate 16 0, env_word = 0\<rparr>"

lemma sample_drive: "drive_content 0 (sample_ports, id, sample_system) = replicate 512 1 @ replicate 512 7"
    "drive_valid 0 (sample_ports, id, sample_system)"
  using sample_ready by (simp_all add: drive_valid_def drive_content_def sample_system_def) (simp_all add: sample_disk_def)


text \<open>A table with one entry in use, the second, at block 3 with 5 blocks.\<close>

definition sample_table :: bytes where
  "sample_table = (replicate 512 0)[0x1d2 := 0x83, 0x1d6 := 3, 0x1da := 5]"

lemma sample_table_entries:
  "pte_type sample_table 0 = 0" "pte_type sample_table 1 = 0x83" "pte_type sample_table 2 = 0" "pte_type sample_table 3 = 0"
  "entry_object 0 sample_table 1 = (0, 3, 5)"
  by (simp_all add: pte_type_def pte_offset_def sample_table_def entry_object_def pte_lba_def pte_sectors_def le32_def le16_def
      nth_list_update)

theorem create_partitions_correct_witness:
  "\<exists>s'. create_partitions sample_env 0 sample_table sample_system = Inr (True, s') \<and> as_parts s' 2 = Some (0, 3, 5)"
proof -
  have ready: "scan_ready sample_env (as_dm sample_system)"
    using two_devices_ok by (simp add: scan_ready_def manager_ok_def sample_system_def sample_env_def)
      (simp add: two_devices_def)
  have dev: "0 < length (device_heap (as_dm sample_system))" "as_drives sample_system 0 = Some (ATADevice_new 0 0 0)"
    and n: "length (device_heap (as_dm sample_system)) = 2"
    by (simp_all add: sample_system_def two_devices_def)
  have used: "[1] = filter (\<lambda>i. pte_type sample_table i \<noteq> 0) [0..<4]"
  proof -
    have "[0..<4] = [0, 1, 2, 3 :: nat]"
      by (simp add: upt_rec)
    then show ?thesis
      by (simp only: filter.simps sample_table_entries) simp
  qed
  have new: "[2] = [length (device_heap (as_dm sample_system))..<length (device_heap (as_dm sample_system)) + length [1 :: nat]]"
    by (simp add: n)
  obtain dm where "create_partitions sample_env 0 sample_table sample_system =
      Inr (True, sample_system\<lparr>as_dm := dm, as_parts := (as_parts sample_system)([2] [\<mapsto>] map (entry_object 0 sample_table) [1]),
        as_drives := (as_drives sample_system)(0 \<mapsto> (ATADevice_new 0 0 0)
          \<lparr>ad_partitions := ad_partitions (ATADevice_new 0 0 0) @ [2]\<rparr>)\<rparr>)"
    using create_partitions_correct [OF ready dev used new] by blast
  then show ?thesis
    using sample_table_entries(5) by simp
qed

end
