(* ===== verification/Pci.thy ===== *)
theory Pci
  imports Ata
begin

text \<open>
  The PCI bus (\<open>infos/drivers/pci/pci-bus.cpp\<close>, \<open>pci-device.cpp\<close>) and the drivers of its devices: bridges (\<open>bridge.cpp\<close>), mass storage
  (\<open>storage.cpp\<close>), display and network controllers. Probing registers the devices it finds; a bridge probes the
  bus behind it, an IDE controller starts the ATA driver of \<open>Ata\<close>. Fuel bounds the depth of bridges.
\<close>

unbundle bit_operations_syntax

section \<open>Configuration space\<close>

abbreviation "PCI_REG_VENDOR \<equiv> 0x00 :: u8"
abbreviation "PCI_REG_INFO \<equiv> 0x08 :: u8"
abbreviation "PCI_REG_CONFIG \<equiv> 0x0C :: u8"
abbreviation "PCI_REG_BUSINFO \<equiv> 0x18 :: u8"
abbreviation "PCI_REG_BAR0 \<equiv> 0x10 :: u8"
abbreviation "PCI_REG_BAR1 \<equiv> 0x14 :: u8"
abbreviation "PCI_REG_BAR2 \<equiv> 0x18 :: u8"
abbreviation "PCI_REG_BAR3 \<equiv> 0x1c :: u8"
abbreviation "PCI_REG_BAR4 \<equiv> 0x20 :: u8"
abbreviation "PCI_REG_IRQ \<equiv> 0x3c :: u8"

definition PCI_CONFIG_VALUE :: "u32 \<Rightarrow> nat \<Rightarrow> nat \<Rightarrow> u32" where
  "PCI_CONFIG_VALUE v shift sz = drop_bit shift v AND (push_bit sz 1 - 1)"

definition PCI_CONFIG_VENDOR :: "u32 \<Rightarrow> u32" where "PCI_CONFIG_VENDOR v = PCI_CONFIG_VALUE v 0 16"
definition PCI_CONFIG_CLASS :: "u32 \<Rightarrow> u32" where "PCI_CONFIG_CLASS v = PCI_CONFIG_VALUE v 24 8"
definition PCI_CONFIG_SUBCLASS :: "u32 \<Rightarrow> u32" where "PCI_CONFIG_SUBCLASS v = PCI_CONFIG_VALUE v 16 8"
definition PCI_CONFIG_HDRTYPE :: "u32 \<Rightarrow> u32" where "PCI_CONFIG_HDRTYPE v = PCI_CONFIG_VALUE v 16 8"
definition PCI_CONFIG_SECONDARY_BUS :: "u32 \<Rightarrow> u32" where "PCI_CONFIG_SECONDARY_BUS v = PCI_CONFIG_VALUE v 8 8"

definition pci_address :: "u32 \<Rightarrow> u8 \<Rightarrow> u8 \<Rightarrow> u8 \<Rightarrow> u32" where
  "pci_address bus slot func reg =
    0x80000000 OR push_bit 16 bus OR push_bit 11 (ucast slot) OR push_bit 8 (ucast func) OR (ucast reg AND NOT 3)"

definition read_config :: "'h ports \<Rightarrow> u32 \<Rightarrow> u8 \<Rightarrow> u8 \<Rightarrow> u8 \<Rightarrow> 'h \<Rightarrow> u32 \<times> 'h" where
  "read_config io bus slot func reg h = io_in32 io 0xcfc (io_out32 io 0xcf8 (pci_address bus slot func reg) h)"

definition write_config :: "'h ports \<Rightarrow> u32 \<Rightarrow> u8 \<Rightarrow> u8 \<Rightarrow> u8 \<Rightarrow> u32 \<Rightarrow> 'h \<Rightarrow> 'h" where
  "write_config io bus slot func reg v h = io_out32 io 0xcfc v (io_out32 io 0xcf8 (pci_address bus slot func reg) h)"

section \<open>Devices\<close>

datatype pci_kind = Bridge | Display | Network | Storage

record PCIDevice =
  pd_kind :: pci_kind
  pd_bus :: u32
  pd_slot :: u32
  pd_func :: u32

text \<open>The objects of one IDE controller; \<open>pe_buffer\<close> is what fresh arrays of 512 bytes hold.\<close>

record ata_objects =
  ao_ctrl :: ATAController
  ao_drives :: "nat \<rightharpoonup> ATADevice"
  ao_parts :: "nat \<rightharpoonup> nat \<times> u64 \<times> u64"

record pci_env =
  pe_ata :: ata_env
  pe_pci_class :: nat
  pe_storage_class :: nat
  pe_controller_class :: nat
  pe_buffer :: bytes
  pe_owner :: ptr

record 'h pci_system =
  ps_hw :: 'h
  ps_dm :: DeviceManager
  ps_devices :: "nat \<rightharpoonup> PCIDevice"
  ps_ata :: "ata_objects list"

definition device_read_config :: "'h ports \<Rightarrow> PCIDevice \<Rightarrow> u8 \<Rightarrow> 'h pci_system \<Rightarrow> u32 \<times> 'h pci_system" where
  "device_read_config io pd reg s =
    (let (v, h) = read_config io (pd_bus pd) (ucast (pd_slot pd)) (ucast (pd_func pd)) reg (ps_hw s) in (v, s\<lparr>ps_hw := h\<rparr>))"

definition device_write_config :: "'h ports \<Rightarrow> PCIDevice \<Rightarrow> u8 \<Rightarrow> u32 \<Rightarrow> 'h pci_system \<Rightarrow> 'h pci_system" where
  "device_write_config io pd reg v s =
    s\<lparr>ps_hw := write_config io (pd_bus pd) (ucast (pd_slot pd)) (ucast (pd_func pd)) reg v (ps_hw s)\<rparr>"

definition pci_class :: "'h ports \<Rightarrow> PCIDevice \<Rightarrow> 'h pci_system \<Rightarrow> u32 \<times> 'h pci_system" where
  "pci_class io pd s = (let (v, s) = device_read_config io pd 0x08 s in (drop_bit 24 v AND 0xff, s))"

definition pci_subclass :: "'h ports \<Rightarrow> PCIDevice \<Rightarrow> 'h pci_system \<Rightarrow> u32 \<times> 'h pci_system" where
  "pci_subclass io pd s = (let (v, s) = device_read_config io pd PCI_REG_INFO s in (PCI_CONFIG_SUBCLASS v, s))"

text \<open>Registration up to the call of \<open>init\<close>, as in \<open>Ata.register_named\<close>.\<close>

definition pci_register :: "pci_env \<Rightarrow> nat \<Rightarrow> 'h pci_system \<Rightarrow> 'h pci_system result" where
  "pci_register env d s =
    andthen (register_device (\<lambda>_ dm. Inr (True, dm)) (env_digits (pe_ata env)) (ps_dm s) d) (\<lambda>(_, dm).
      Inr (s\<lparr>ps_dm := dm\<rparr>))"

section \<open>Storage controllers\<close>

text \<open>Registering the ATA controller runs its \<open>init\<close>, which finds the drives. It is given no interrupt line.\<close>

definition attach_controller :: "pci_env \<Rightarrow> 'h ports \<Rightarrow> u32 list \<Rightarrow> 'h pci_system \<Rightarrow> (bool \<times> 'h pci_system) result" where
  "attach_controller env io bar s =
    (case new_device (ps_dm s) (pe_controller_class env) of (d, dm) \<Rightarrow>
     andthen (pci_register env d (s\<lparr>ps_dm := dm\<rparr>)) (\<lambda>s.
     andthen (ata_controller_init (pe_ata env) io (pe_buffer env)
         \<lparr>as_hw = ps_hw s, as_ctrl = ATAController_new bar (pe_owner env), as_dm = ps_dm s, as_drives = Map.empty,
          as_parts = Map.empty\<rparr>) (\<lambda>(ok, a).
       Inr (ok, s\<lparr>ps_hw := as_hw a, ps_dm := as_dm a,
                  ps_ata := ps_ata s @ [\<lparr>ao_ctrl = as_ctrl a, ao_drives = as_drives a, ao_parts = as_parts a\<rparr>]\<rparr>))))"

definition init_ide_controller :: "pci_env \<Rightarrow> 'h ports \<Rightarrow> PCIDevice \<Rightarrow> 'h pci_system \<Rightarrow> (bool \<times> 'h pci_system) result" where
  "init_ide_controller env io pd s =
    (let (old_config, s) = device_read_config io pd PCI_REG_IRQ s;
         new_config = (old_config AND NOT 0xFF) OR 0xFE;
         s = device_write_config io pd PCI_REG_IRQ new_config s;
         (read_back, s) = device_read_config io pd PCI_REG_IRQ s
     in if read_back AND 0xFF = 0xFE then
          let new_config = (old_config AND NOT 0xFF) OR 0;
              s = device_write_config io pd PCI_REG_IRQ new_config s;
              (bar0, s) = device_read_config io pd PCI_REG_BAR0 s;
              (bar1, s) = device_read_config io pd PCI_REG_BAR1 s;
              (bar2, s) = device_read_config io pd PCI_REG_BAR2 s;
              (bar3, s) = device_read_config io pd PCI_REG_BAR3 s;
              (bar4, s) = device_read_config io pd PCI_REG_BAR4 s
          in attach_controller env io [bar0, bar1, bar2, bar3, bar4] s
        else Inr (False, s))"

text \<open>The subclass is read again for the message about an unsupported one. The SATA driver does nothing.\<close>

definition storage_init :: "pci_env \<Rightarrow> 'h ports \<Rightarrow> PCIDevice \<Rightarrow> 'h pci_system \<Rightarrow> (bool \<times> 'h pci_system) result" where
  "storage_init env io pd s =
    (let (sub, s) = pci_subclass io pd s
     in if sub = 1 then init_ide_controller env io pd s
        else if sub = 6 then Inr (True, s)
        else Inr (False, snd (pci_subclass io pd s)))"

section \<open>Bridges and probing\<close>

text \<open>\<open>probe\<close> is the probe of the bus behind a bridge.\<close>

definition bridge_init ::
    "(u32 \<Rightarrow> 'h pci_system \<Rightarrow> (bool \<times> 'h pci_system) result) \<Rightarrow> 'h ports \<Rightarrow> PCIDevice \<Rightarrow> 'h pci_system \<Rightarrow>
      (bool \<times> 'h pci_system) result" where
  "bridge_init probe io pd s =
    (let (sub, s) = pci_subclass io pd s
     in if sub = 4 then
          let (cfg, s) = device_read_config io pd PCI_REG_CONFIG s; header_type = PCI_CONFIG_HDRTYPE cfg
          in if header_type \<noteq> 0x01 \<and> header_type \<noteq> 0x81 then Inr (False, s)
             else
               let (info, s) = device_read_config io pd PCI_REG_BUSINFO s; (_, s) = pci_subclass io pd s
               in probe (PCI_CONFIG_SECONDARY_BUS info) s
        else Inr (True, snd (pci_subclass io pd s)))"

definition pci_device_init ::
    "(u32 \<Rightarrow> 'h pci_system \<Rightarrow> (bool \<times> 'h pci_system) result) \<Rightarrow> pci_env \<Rightarrow> 'h ports \<Rightarrow> PCIDevice \<Rightarrow> 'h pci_system \<Rightarrow>
      (bool \<times> 'h pci_system) result" where
  "pci_device_init probe env io pd s =
    (case pd_kind pd of
       Bridge \<Rightarrow> bridge_init probe io pd s
     | Storage \<Rightarrow> storage_init env io pd s
     | Display \<Rightarrow> Inr (True, s)
     | Network \<Rightarrow> Inr (True, s))"

definition kind_of_class :: "u32 \<Rightarrow> pci_kind option" where
  "kind_of_class c =
    (if c = 6 then Some Bridge else if c = 3 then Some Display else if c = 2 then Some Network
     else if c = 1 then Some Storage else None)"

definition probe_func ::
    "(u32 \<Rightarrow> 'h pci_system \<Rightarrow> (bool \<times> 'h pci_system) result) \<Rightarrow> pci_env \<Rightarrow> 'h ports \<Rightarrow> u32 \<Rightarrow> u32 \<Rightarrow> u32 \<Rightarrow> 'h pci_system \<Rightarrow>
      (bool \<times> 'h pci_system) result" where
  "probe_func probe env io bus slot func s =
    (let (device_vendor, h) = read_config io bus (ucast slot) (ucast func) PCI_REG_VENDOR (ps_hw s); s = s\<lparr>ps_hw := h\<rparr>
     in if PCI_CONFIG_VENDOR device_vendor = 0xffff then Inr (True, s)
        else
          let (device_info, h) = read_config io bus (ucast slot) (ucast func) PCI_REG_INFO (ps_hw s); s = s\<lparr>ps_hw := h\<rparr>
          in case kind_of_class (PCI_CONFIG_CLASS device_info) of
               None \<Rightarrow> Inr (True, s)
             | Some kind \<Rightarrow>
                 let pd = \<lparr>pd_kind = kind, pd_bus = bus, pd_slot = slot, pd_func = func\<rparr>;
                     cls = (if kind = Storage then pe_storage_class env else pe_pci_class env)
                 in case new_device (ps_dm s) cls of (d, dm) \<Rightarrow>
                    andthen (pci_register env d (s\<lparr>ps_dm := dm, ps_devices := (ps_devices s)(d \<mapsto> pd)\<rparr>)) (\<lambda>s.
                    andthen (pci_device_init probe env io pd s) (\<lambda>(ok, s).
                      if \<not> ok then Inr (False, s) else Inr (True, s))))"

text \<open>The functions from 1 on, until one fails.\<close>

fun probe_funcs ::
    "(u32 \<Rightarrow> 'h pci_system \<Rightarrow> (bool \<times> 'h pci_system) result) \<Rightarrow> pci_env \<Rightarrow> 'h ports \<Rightarrow> u32 \<Rightarrow> u32 \<Rightarrow> nat list \<Rightarrow> 'h pci_system \<Rightarrow>
      (bool \<times> 'h pci_system) result" where
  "probe_funcs probe env io bus slot [] s = Inr (True, s)"
| "probe_funcs probe env io bus slot (func # fs) s =
    andthen (probe_func probe env io bus slot (of_nat func) s) (\<lambda>(ok, s).
      if \<not> ok then Inr (False, s) else probe_funcs probe env io bus slot fs s)"

definition probe_slot ::
    "(u32 \<Rightarrow> 'h pci_system \<Rightarrow> (bool \<times> 'h pci_system) result) \<Rightarrow> pci_env \<Rightarrow> 'h ports \<Rightarrow> u32 \<Rightarrow> nat \<Rightarrow> 'h pci_system \<Rightarrow>
      (bool \<times> 'h pci_system) result" where
  "probe_slot probe env io bus slot s =
    andthen (probe_func probe env io bus (of_nat slot) 0 s) (\<lambda>(ok, s).
      if \<not> ok then Inr (False, s)
      else
        let (device_cfg, h) = read_config io bus (of_nat slot) 0 PCI_REG_CONFIG (ps_hw s); s = s\<lparr>ps_hw := h\<rparr>
        in if PCI_CONFIG_HDRTYPE device_cfg AND 0x80 \<noteq> 0 then probe_funcs probe env io bus (of_nat slot) [1..<8] s
           else Inr (True, s))"

definition probe_slots ::
    "(u32 \<Rightarrow> 'h pci_system \<Rightarrow> (bool \<times> 'h pci_system) result) \<Rightarrow> pci_env \<Rightarrow> 'h ports \<Rightarrow> u32 \<Rightarrow> nat list \<Rightarrow> 'h pci_system \<Rightarrow>
      (bool \<times> 'h pci_system) result" where
  "probe_slots probe env io bus slots s =
    fold_result (\<lambda>(success, s) slot.
      andthen (probe_slot probe env io bus slot s) (\<lambda>(ok, s). Inr (success \<and> ok, s))) (True, s) slots"

fun pci_probe :: "nat \<Rightarrow> pci_env \<Rightarrow> 'h ports \<Rightarrow> u32 \<Rightarrow> 'h pci_system \<Rightarrow> (bool \<times> 'h pci_system) result" where
  "pci_probe 0 env io bus s = Inl Diverges"
| "pci_probe (Suc depth) env io bus s = probe_slots (pci_probe depth env io) env io bus [0..<32] s"

end
