(* ===== verification/Pci_Correct.thy ===== *)
theory Pci_Correct
  imports Pci Devices_Correct
begin

text \<open>
  Configuration addresses, and what probing a bus registers. The hardware hypothesis is that configuration space is what a function
  \<open>cfg\<close> of the address says.
\<close>

unbundle bit_operations_syntax

section \<open>Addresses\<close>

lemma and_low_bits: "x AND 0xff = take_bit 8 x" "x AND 0x1f = take_bit 5 x" "x AND 7 = take_bit 3 x"
  "x AND NOT 3 = x XOR take_bit 2 x" for x :: u32
proof -
  show "x AND 0xff = take_bit 8 x" "x AND 0x1f = take_bit 5 x" "x AND 7 = take_bit 3 x"
    by (simp_all add: take_bit_eq_mask mask_eq_exp_minus_1)
  have "(3 :: u32) = mask 2"
    by (simp add: mask_eq_exp_minus_1)
  then have "x AND NOT 3 = x AND NOT (mask 2)"
    by simp
  also have "\<dots> = x XOR take_bit 2 x"
    by (rule bit_eqI) (auto simp: bit_and_iff bit_not_iff bit_mask_iff bit_xor_iff bit_take_bit_iff)
  finally show "x AND NOT 3 = x XOR take_bit 2 x" .
qed

lemma bit_top: "bit (0x80000000 :: u32) i \<longleftrightarrow> i = 31"
proof -
  have "(0x80000000 :: u32) = push_bit 31 1"
    by simp
  then show ?thesis
    by (simp only: bit_push_bit_iff) (auto simp: bit_1_iff)
qed

lemma bit_pci_address:
  "bit (pci_address bus slot func reg) i \<longleftrightarrow> i < 32 \<and>
    (i = 31 \<or> 16 \<le> i \<and> bit bus (i - 16) \<or> 11 \<le> i \<and> bit slot (i - 11) \<or> 8 \<le> i \<and> bit func (i - 8) \<or> 2 \<le> i \<and> bit reg i)"
proof (cases "i < 32")
  case True
  have "(bit reg i \<and> i < 32) \<noteq> (i < 2 \<and> bit reg i \<and> i < 32) \<longleftrightarrow> 2 \<le> i \<and> bit reg i"
    using True by linarith
  then show ?thesis
    using True unfolding pci_address_def and_low_bits
    by (simp add: bit_or_iff bit_top bit_push_bit_iff bit_ucast_iff bit_xor_iff bit_take_bit_iff del: bit_numeral_word_iff)
      (auto dest: bit_imp_le_length)
next
  case False
  then have "\<not> bit (pci_address bus slot func reg) i"
    using bit_imp_le_length [of "pci_address bus slot func reg" i] by auto
  then show ?thesis
    using False by simp
qed

text \<open>
  (\<open>pci-bus.cpp\<close>, \<open>read_config\<close>). The address of a register keeps the bus, the slot, the function and the aligned register
  apart, as long as each is in its range.
\<close>

theorem pci_address_fields:
  fixes bus :: u32 and slot func reg :: u8
  assumes "take_bit 8 bus = bus" and "take_bit 5 slot = slot" and "take_bit 3 func = func"
  shows "drop_bit 16 (pci_address bus slot func reg) AND 0xff = bus \<and>
    drop_bit 11 (pci_address bus slot func reg) AND 0x1f = ucast slot \<and>
    drop_bit 8 (pci_address bus slot func reg) AND 7 = ucast func \<and>
    pci_address bus slot func reg AND 0xff = ucast reg AND NOT 3 \<and>
    bit (pci_address bus slot func reg) 31"
proof -
  have b: "bit bus i \<Longrightarrow> i < 8" and s: "bit slot i \<Longrightarrow> i < 5" and f: "bit func i \<Longrightarrow> i < 3" for i
    using assms by (metis bit_take_bit_iff)+
  have "drop_bit 16 (pci_address bus slot func reg) AND 0xff = bus"
    unfolding and_low_bits by (rule bit_eqI) (auto simp: bit_take_bit_iff bit_drop_bit_eq bit_pci_address dest: b s f bit_imp_le_length)
  moreover have "drop_bit 11 (pci_address bus slot func reg) AND 0x1f = ucast slot"
    unfolding and_low_bits by (rule bit_eqI)
      (auto simp: bit_take_bit_iff bit_drop_bit_eq bit_pci_address bit_ucast_iff dest: b s f bit_imp_le_length)
  moreover have "drop_bit 8 (pci_address bus slot func reg) AND 7 = ucast func"
    unfolding and_low_bits by (rule bit_eqI)
      (auto simp: bit_take_bit_iff bit_drop_bit_eq bit_pci_address bit_ucast_iff dest: b s f bit_imp_le_length)
  moreover have "pci_address bus slot func reg AND 0xff = ucast reg AND NOT 3"
    unfolding and_low_bits by (rule bit_eqI)
      (auto simp: bit_take_bit_iff bit_pci_address bit_ucast_iff bit_xor_iff dest: b s f bit_imp_le_length)
  moreover have "bit (pci_address bus slot func reg) 31"
    by (simp add: bit_pci_address)
  ultimately show ?thesis
    by blast
qed

theorem pci_address_fields_witness:
  "drop_bit 11 (pci_address 3 17 2 0x3c) AND 0x1f = ucast (17 :: u8)"
proof -
  have "take_bit 8 (3 :: u32) = 3" "take_bit 5 (17 :: u8) = 17" "take_bit 3 (2 :: u8) = 2"
    by (simp_all add: take_bit_eq_mod)
  then show ?thesis
    using pci_address_fields [where bus = 3 and slot = 17 and func = 2 and reg = "0x3c"] by blast
qed

section \<open>Probing\<close>

definition config_law :: "'h ports \<Rightarrow> (u32 \<Rightarrow> u32) \<Rightarrow> bool" where
  "config_law io cfg \<longleftrightarrow> (\<forall>h a. fst (io_in32 io 0xcfc (io_out32 io 0xcf8 a h)) = cfg a)"

lemma read_config_law:
  "config_law io cfg \<Longrightarrow> \<exists>h'. read_config io bus slot func reg h = (cfg (pci_address bus slot func reg), h')"
  by (intro exI [of _ "snd (read_config io bus slot func reg h)"] prod_eqI) (simp_all add: config_law_def read_config_def)

text \<open>The driver a function of a slot gets, and the functions of a slot that are looked at.\<close>

definition function_kind :: "(u32 \<Rightarrow> u32) \<Rightarrow> u32 \<Rightarrow> u32 \<Rightarrow> u32 \<Rightarrow> pci_kind option" where
  "function_kind cfg bus slot func =
    (if PCI_CONFIG_VENDOR (cfg (pci_address bus (ucast slot) (ucast func) PCI_REG_VENDOR)) = 0xffff then None
     else kind_of_class (PCI_CONFIG_CLASS (cfg (pci_address bus (ucast slot) (ucast func) PCI_REG_INFO))))"

definition slot_functions :: "(u32 \<Rightarrow> u32) \<Rightarrow> u32 \<Rightarrow> nat \<Rightarrow> nat list" where
  "slot_functions cfg bus slot =
    0 # (if PCI_CONFIG_HDRTYPE (cfg (pci_address bus (of_nat slot) 0 PCI_REG_CONFIG)) AND 0x80 \<noteq> 0 then [1..<8] else [])"

definition function_objects :: "(u32 \<Rightarrow> u32) \<Rightarrow> u32 \<Rightarrow> nat \<Rightarrow> nat \<Rightarrow> PCIDevice list" where
  "function_objects cfg bus slot func =
    (case function_kind cfg bus (of_nat slot) (of_nat func) of
       None \<Rightarrow> []
     | Some kind \<Rightarrow> [\<lparr>pd_kind = kind, pd_bus = bus, pd_slot = of_nat slot, pd_func = of_nat func\<rparr>])"

definition slot_objects :: "(u32 \<Rightarrow> u32) \<Rightarrow> u32 \<Rightarrow> nat \<Rightarrow> PCIDevice list" where
  "slot_objects cfg bus slot = concat (map (function_objects cfg bus slot) (slot_functions cfg bus slot))"

text \<open>A bus whose devices need no more of the hardware.\<close>

definition leaf_bus :: "(u32 \<Rightarrow> u32) \<Rightarrow> u32 \<Rightarrow> bool" where
  "leaf_bus cfg bus \<longleftrightarrow> (\<forall>slot func. function_kind cfg bus slot func \<in> {None, Some Display, Some Network})"

definition pci_ready :: "pci_env \<Rightarrow> DeviceManager \<Rightarrow> bool" where
  "pci_ready env dm \<longleftrightarrow> map_ok (devices dm) \<and> pe_pci_class env < length (classes dm) \<and>
    length (env_digits (pe_ata env)) = 16 \<and> 0 \<in> set (dc_name (classes dm ! pe_pci_class env))"

text \<open>Registering objects one after the other: they get the next positions of the heap.\<close>

definition registers :: "pci_env \<Rightarrow> 'h pci_system \<Rightarrow> PCIDevice list \<Rightarrow> 'h pci_system \<Rightarrow> bool" where
  "registers env s os s' \<longleftrightarrow> ps_ata s' = ps_ata s \<and> pci_ready env (ps_dm s') \<and>
    length (device_heap (ps_dm s')) = length (device_heap (ps_dm s)) + length os \<and>
    ps_devices s' = ps_devices s ++ map_of (zip [length (device_heap (ps_dm s))..<length (device_heap (ps_dm s)) + length os] os)"

lemma registers_hw: "registers env (s\<lparr>ps_hw := h\<rparr>) os s' = registers env s os s'"
  by (simp add: registers_def)

lemma registers_none: "pci_ready env (ps_dm s) \<Longrightarrow> registers env s [] (s\<lparr>ps_hw := h\<rparr>)"
  by (simp add: registers_def)

lemma registers_trans:
  assumes "registers env s a s'" and "registers env s' b s''"
  shows "registers env s (a @ b) s''"
proof -
  let ?n = "length (device_heap (ps_dm s))"
  have z: "zip [?n..<?n + length (a @ b)] (a @ b) = zip [?n..<?n + length a] a @ zip [?n + length a..<?n + length a + length b] b"
    using upt_add_eq_append [of ?n "?n + length a" "length b"] by (simp add: add.assoc [symmetric])
  have "dom (map_of (zip [?n..<?n + length a] a)) \<inter> dom (map_of (zip [?n + length a..<?n + length a + length b] b)) = {}"
    by auto
  then have "ps_devices s ++ map_of (zip [?n..<?n + length a] a) ++ map_of (zip [?n + length a..<?n + length a + length b] b) =
      ps_devices s ++ map_of (zip [?n..<?n + length (a @ b)] (a @ b))"
    unfolding z map_of_append by (metis map_add_assoc map_add_comm)
  then show ?thesis
    using assms by (simp add: registers_def add.assoc)
qed

lemma register_ok:
  assumes "pci_ready env (ps_dm s)" and "new_device (ps_dm s) (pe_pci_class env) = (d, dm)"
  shows "\<exists>dm'. pci_register env d (s\<lparr>ps_dm := dm, ps_devices := (ps_devices s)(d \<mapsto> pd)\<rparr>) =
      Inr (s\<lparr>ps_dm := dm', ps_devices := (ps_devices s)(d \<mapsto> pd)\<rparr>) \<and>
    registers env s [pd] (s\<lparr>ps_dm := dm', ps_devices := (ps_devices s)(d \<mapsto> pd)\<rparr>)"
proof -
  let ?c = "pe_pci_class env"
  have d: "d = length (device_heap (ps_dm s))" "dm = (ps_dm s)\<lparr>device_heap := device_heap (ps_dm s) @ [\<lparr>dev_name = String_empty, dev_class = ?c\<rparr>]\<rparr>"
    using assms(2) by (simp_all add: new_device_def)
  have "0 \<in> set (dc_name (classes dm ! ?c))"
    using assms(1) d(2) by (simp add: pci_ready_def)
  then obtain nm r where nm: "dc_name (classes dm ! ?c) = nm @ 0 # r" "0 \<notin> set nm"
    using split_list_first by fastforce
  have pre: "map_ok (devices dm)" "d < length (device_heap dm)" "?c = dev_class (device_heap dm ! d)" "?c < length (classes dm)"
      "length (env_digits (pe_ata env)) = 16"
    using assms(1) d by (simp_all add: pci_ready_def)
  obtain name m' where m: "map_ok m'" and reg: "\<And>init. register_device init (env_digits (pe_ata env)) dm d = init d
      (dm\<lparr>classes := (classes dm)[?c := (classes dm ! ?c)\<lparr>dc_instance := dc_instance (classes dm ! ?c) + 1\<rparr>],
          device_heap := (device_heap dm)[d := (device_heap dm ! d)\<lparr>dev_name := name\<rparr>], devices := m'\<rparr>)"
    using register_device_steps [OF pre(1-4) nm pre(5)] by blast
  define dm' where "dm' = dm\<lparr>classes := (classes dm)[?c := (classes dm ! ?c)\<lparr>dc_instance := dc_instance (classes dm ! ?c) + 1\<rparr>],
          device_heap := (device_heap dm)[d := (device_heap dm ! d)\<lparr>dev_name := name\<rparr>], devices := m'\<rparr>"
  have "pci_ready env dm'" "length (device_heap dm') = Suc (length (device_heap (ps_dm s)))"
    using m pre(4,5) nm(1) d(2) by (simp_all add: pci_ready_def dm'_def)
  moreover have "register_device (\<lambda>_ dm. Inr (True, dm)) (env_digits (pe_ata env)) dm d = Inr (True, dm')"
    by (simp add: reg dm'_def)
  ultimately show ?thesis
    unfolding d(1) by (intro exI [of _ dm']) (simp add: pci_register_def registers_def)
qed

lemma probe_func_registers:
  assumes "config_law io cfg" and "leaf_bus cfg bus" and "pci_ready env (ps_dm s)"
  shows "\<exists>s'. probe_func probe env io bus (of_nat slot) (of_nat func) s = Inr (True, s') \<and>
    registers env s (function_objects cfg bus slot func) s'"
proof -
  let ?sl = "of_nat slot :: u32" and ?f = "of_nat func :: u32"
  obtain h1 where h1: "read_config io bus (ucast ?sl) (ucast ?f) PCI_REG_VENDOR (ps_hw s) =
      (cfg (pci_address bus (ucast ?sl) (ucast ?f) PCI_REG_VENDOR), h1)"
    using read_config_law [OF assms(1)] by blast
  obtain h2 where h2: "read_config io bus (ucast ?sl) (ucast ?f) PCI_REG_INFO h1 =
      (cfg (pci_address bus (ucast ?sl) (ucast ?f) PCI_REG_INFO), h2)"
    using read_config_law [OF assms(1)] by blast
  show ?thesis
  proof (cases "function_kind cfg bus ?sl ?f")
    case None
    then have "\<exists>h. probe_func probe env io bus ?sl ?f s = Inr (True, s\<lparr>ps_hw := h\<rparr>)"
      using h1 h2 by (auto simp: probe_func_def function_kind_def Let_def simp del: word_of_nat_eq_0_iff split: if_splits)
    then show ?thesis
      using registers_none [OF assms(3)] None by (auto simp: function_objects_def)
  next
    case (Some kind)
    then have kind: "kind = Display \<or> kind = Network"
      using assms(2) unfolding leaf_bus_def by (metis insertE option.distinct(1) option.inject singletonD)
    let ?pd = "\<lparr>pd_kind = kind, pd_bus = bus, pd_slot = ?sl, pd_func = ?f\<rparr>" and ?s = "s\<lparr>ps_hw := h2\<rparr>"
    obtain d dm where nd: "new_device (ps_dm ?s) (pe_pci_class env) = (d, dm)"
      by fastforce
    have ready: "pci_ready env (ps_dm ?s)"
      using assms(3) by simp
    obtain s' where s': "pci_register env d (?s\<lparr>ps_dm := dm, ps_devices := (ps_devices ?s)(d \<mapsto> ?pd)\<rparr>) = Inr s'"
        "registers env ?s [?pd] s'"
      using register_ok [OF ready nd, of ?pd] by blast
    have "PCI_CONFIG_VENDOR (cfg (pci_address bus (ucast ?sl) (ucast ?f) PCI_REG_VENDOR)) \<noteq> 0xffff"
      "kind_of_class (PCI_CONFIG_CLASS (cfg (pci_address bus (ucast ?sl) (ucast ?f) PCI_REG_INFO))) = Some kind"
      using Some by (auto simp: function_kind_def split: if_splits)
    then have "probe_func probe env io bus ?sl ?f s = Inr (True, s')"
      using h1 h2 nd s'(1) kind by (auto simp: probe_func_def pci_device_init_def Let_def)
    moreover have "function_objects cfg bus slot func = [?pd]"
      using Some by (simp add: function_objects_def)
    ultimately show ?thesis
      using s'(2) by (simp add: registers_hw)
  qed
qed

text \<open>The probes of a list of functions, of a slot and of a list of slots.\<close>

lemma probe_funcs_registers:
  assumes "config_law io cfg" and "leaf_bus cfg bus" and "pci_ready env (ps_dm s)"
  shows "\<exists>s'. probe_funcs probe env io bus (of_nat slot) fs s = Inr (True, s') \<and>
    registers env s (concat (map (function_objects cfg bus slot) fs)) s'"
  using assms(3)
proof (induction fs arbitrary: s)
  case Nil
  then show ?case
    using registers_none [OF Nil, of "ps_hw s"] by auto
next
  case (Cons func fs)
  obtain s1 where s1: "probe_func probe env io bus (of_nat slot) (of_nat func) s = Inr (True, s1)"
      "registers env s (function_objects cfg bus slot func) s1"
    using probe_func_registers [OF assms(1,2) Cons.prems] by blast
  moreover from this obtain s2 where "probe_funcs probe env io bus (of_nat slot) fs s1 = Inr (True, s2)"
      "registers env s1 (concat (map (function_objects cfg bus slot) fs)) s2"
    using Cons.IH [of s1] by (auto simp: registers_def)
  ultimately show ?case
    using registers_trans [OF s1(2)] by auto
qed

lemma probe_slot_registers:
  assumes "config_law io cfg" and "leaf_bus cfg bus" and "pci_ready env (ps_dm s)"
  shows "\<exists>s'. probe_slot probe env io bus slot s = Inr (True, s') \<and> registers env s (slot_objects cfg bus slot) s'"
proof -
  obtain s1 where s1: "probe_func probe env io bus (of_nat slot) 0 s = Inr (True, s1)"
      "registers env s (function_objects cfg bus slot 0) s1"
    using probe_func_registers [OF assms, of probe slot 0] by auto
  obtain h where h: "read_config io bus (of_nat slot) 0 PCI_REG_CONFIG (ps_hw s1) =
      (cfg (pci_address bus (of_nat slot) 0 PCI_REG_CONFIG), h)"
    using read_config_law [OF assms(1)] by blast
  let ?multi = "PCI_CONFIG_HDRTYPE (cfg (pci_address bus (of_nat slot) 0 PCI_REG_CONFIG)) AND 0x80 \<noteq> 0"
  have "pci_ready env (ps_dm (s1\<lparr>ps_hw := h\<rparr>))"
    using s1(2) by (simp add: registers_def)
  then obtain s2 where s2: "probe_funcs probe env io bus (of_nat slot) [1..<8] (s1\<lparr>ps_hw := h\<rparr>) = Inr (True, s2)"
      "registers env (s1\<lparr>ps_hw := h\<rparr>) (concat (map (function_objects cfg bus slot) [1..<8])) s2"
    using probe_funcs_registers [OF assms(1,2)] by blast
  show ?thesis
  proof (cases ?multi)
    case True
    then have "probe_slot probe env io bus slot s = Inr (True, s2)"
      using s1(1) h s2(1) by (simp add: probe_slot_def del: upt_Suc)
    moreover have "slot_objects cfg bus slot = function_objects cfg bus slot 0 @ concat (map (function_objects cfg bus slot) [1..<8])"
      using True by (simp add: slot_objects_def slot_functions_def del: upt_Suc)
    ultimately show ?thesis
      using registers_trans [OF s1(2), of _ s2] s2(2) by (simp add: registers_hw)
  next
    case False
    then have "probe_slot probe env io bus slot s = Inr (True, s1\<lparr>ps_hw := h\<rparr>)"
      using s1(1) h by (simp add: probe_slot_def)
    moreover have "slot_objects cfg bus slot = function_objects cfg bus slot 0"
      using False by (simp add: slot_objects_def slot_functions_def)
    ultimately show ?thesis
      using s1(2) by (simp add: registers_def)
  qed
qed

lemma probe_slots_registers:
  assumes "config_law io cfg" and "leaf_bus cfg bus" and "pci_ready env (ps_dm s)"
  shows "\<exists>s'. probe_slots probe env io bus slots s = Inr (True, s') \<and>
    registers env s (concat (map (slot_objects cfg bus) slots)) s'"
  using assms(3) unfolding probe_slots_def
proof (induction slots arbitrary: s)
  case Nil
  then show ?case
    using registers_none [OF Nil, of "ps_hw s"] by auto
next
  case (Cons slot slots)
  obtain s1 where s1: "probe_slot probe env io bus slot s = Inr (True, s1)" "registers env s (slot_objects cfg bus slot) s1"
    using probe_slot_registers [OF assms(1,2) Cons.prems] by blast
  moreover have "pci_ready env (ps_dm s1)"
    using s1(2) by (simp add: registers_def)
  ultimately show ?case
    using Cons.IH [of s1] registers_trans [OF s1(2)] by auto
qed


text \<open>
  (\<open>pci-bus.cpp\<close>, \<open>probe_slot\<close>). Reading an absent slot yields ones, and with it the bit for several functions: all eight functions of every empty slot are probed.
\<close>

theorem empty_slot_probes_all:
  assumes "cfg (pci_address bus (of_nat slot) 0 PCI_REG_CONFIG) = 0xffffffff"
  shows "slot_functions cfg bus slot = [0, 1, 2, 3, 4, 5, 6, 7]"
  using assms by (simp add: slot_functions_def PCI_CONFIG_HDRTYPE_def PCI_CONFIG_VALUE_def upt_rec)

section \<open>A bus with a display controller\<close>

text \<open>The hardware is the address last written.\<close>

definition vga_config :: "u32 \<Rightarrow> u32" where
  "vga_config a = (if a AND NOT 0xff = 0x80001000 then (if a = 0x80001008 then 0x03000000 else 0x00001234) else 0xffffffff)"

definition vga_ports :: "u32 ports" where
  "vga_ports = \<lparr>io_in8 = (\<lambda>p h. (0, h)), io_in16 = (\<lambda>p h. (0, h)), io_in32 = (\<lambda>p h. (vga_config h, h)), io_out8 = (\<lambda>p v h. h),
    io_out32 = (\<lambda>p v h. v), io_delay = (\<lambda>t h. h)\<rparr>"

lemma vga_leaf: "leaf_bus vga_config 0"
proof -
  have "kind_of_class (PCI_CONFIG_CLASS x) \<in> {None, Some Display}" if "x = 0x03000000 \<or> x = 0x00001234 \<or> x = 0xffffffff" for x
    using that by (elim disjE) (simp_all add: kind_of_class_def PCI_CONFIG_CLASS_def PCI_CONFIG_VALUE_def)
  moreover have "vga_config a = 0x03000000 \<or> vga_config a = 0x00001234 \<or> vga_config a = 0xffffffff" for a
    by (simp add: vga_config_def)
  ultimately have "kind_of_class (PCI_CONFIG_CLASS (vga_config a)) \<in> {None, Some Display}" for a
    by blast
  then show ?thesis
    by (simp add: leaf_bus_def function_kind_def) blast
qed

definition vga_env :: pci_env where
  "vga_env = \<lparr>pe_ata = \<lparr>env_fuel = 0, env_thread = 0, env_ata_class = 1, env_partition_class = 1, env_digits = replicate 16 0, env_word = 0\<rparr>,
    pe_pci_class = 1, pe_storage_class = 1, pe_controller_class = 1, pe_buffer = [], pe_owner = None\<rparr>"


end
