(* ===== verification/Descriptors.thy ===== *)
theory Descriptors
  imports Prelude
begin

text \<open>
  The descriptor tables of the processor (\<open>infos/arch/x86/dt.cpp\<close>, \<open>infos/include/arch/x86/dt.h\<close>): segment, task state and gate
  descriptors as packed bit fields, the global and the interrupt descriptor table. Bits no initialiser sets
  hold what they held before, a parameter.
\<close>

unbundle bit_operations_syntax

section \<open>Bit fields\<close>

text \<open>\<open>field off width v\<close>: the value \<open>v\<close>, cut to its width, at its offset in the packed structure.\<close>

definition field :: "nat \<Rightarrow> nat \<Rightarrow> u64 \<Rightarrow> u64" where
  "field off width v = push_bit off (take_bit width v)"

definition bits_at :: "nat \<Rightarrow> nat \<Rightarrow> u64 \<Rightarrow> u64" where
  "bits_at off width w = take_bit width (drop_bit off w)"

definition CodeSegmentDescriptor :: "u8 \<Rightarrow> u64" where
  "CodeSegmentDescriptor dpl =
    field 0 32 0 OR field 32 8 0 OR field 40 1 0 OR field 41 1 1 OR field 42 1 0 OR field 43 1 1 OR field 44 1 1 OR
    field 45 2 (ucast dpl) OR field 47 1 1 OR field 48 4 0 OR field 52 1 0 OR field 53 1 1 OR field 54 1 0 OR
    field 55 1 0 OR field 56 8 0"

definition DataSegmentDescriptor :: "u8 \<Rightarrow> u64" where
  "DataSegmentDescriptor dpl =
    field 0 16 0 OR field 16 16 0 OR field 32 8 0 OR field 40 1 0 OR field 41 1 1 OR field 42 1 0 OR field 43 1 0 OR
    field 44 1 1 OR field 45 2 (ucast dpl) OR field 47 1 1 OR field 48 4 0 OR field 52 1 0 OR field 53 1 0 OR
    field 54 1 1 OR field 55 1 0 OR field 56 8 0"

definition TSSDescriptor :: "u32 \<Rightarrow> u64 \<Rightarrow> u64 \<Rightarrow> u64 \<times> u64" where
  "TSSDescriptor reserved ptr sz =
    (field 0 16 (sz AND 0xffff) OR field 16 16 (ptr AND 0xffff) OR field 32 8 (drop_bit 16 ptr AND 0xff) OR
     field 40 4 9 OR field 44 1 0 OR field 45 2 0 OR field 47 1 1 OR field 48 4 (drop_bit 16 sz AND 0xf) OR
     field 52 1 0 OR field 53 1 0 OR field 54 1 1 OR field 55 1 0 OR field 56 8 (drop_bit 24 ptr AND 0xff),
     field 0 32 (drop_bit 32 ptr) OR field 32 32 (ucast reserved))"

definition InterruptGateDescriptor :: "u32 \<Rightarrow> u64 \<Rightarrow> u16 \<Rightarrow> u8 \<Rightarrow> u64 \<times> u64" where
  "InterruptGateDescriptor reserved offset seg dpl =
    (field 0 16 (offset AND 0xffff) OR field 16 16 (ucast seg) OR field 32 3 0 OR field 35 10 0x1c0 OR
     field 45 2 (ucast dpl) OR field 47 1 1 OR field 48 16 (drop_bit 16 offset AND 0xffff),
     field 0 32 (drop_bit 32 offset AND 0xffffffff) OR field 32 32 (ucast reserved))"

text \<open>Here \<open>ist\<close> has two bits, so the bit fields take 15 bits and the sixteenth is padding.\<close>

definition TrapGateDescriptor :: "u32 \<Rightarrow> bool \<Rightarrow> u64 \<Rightarrow> u16 \<Rightarrow> u8 \<Rightarrow> u64 \<times> u64" where
  "TrapGateDescriptor reserved pad offset seg dpl =
    (field 0 16 (offset AND 0xffff) OR field 16 16 (ucast seg) OR field 32 2 0 OR field 34 10 0x1e0 OR
     field 44 2 (ucast dpl) OR field 46 1 1 OR field 47 1 (of_bool pad) OR field 48 16 (drop_bit 16 offset AND 0xffff),
     field 0 32 (drop_bit 32 offset AND 0xffffffff) OR field 32 32 (ucast reserved))"

section \<open>The global descriptor table\<close>

definition MAX_NR_GDT_ENTRIES :: nat where "MAX_NR_GDT_ENTRIES = 16"

record GDT =
  gdt_current :: u8
  gdt_entries :: "u64 list"

definition gdt_erase :: "GDT \<Rightarrow> GDT" where
  "gdt_erase g = g\<lparr>gdt_current := 0\<rparr>"

definition gdt_push :: "u64 \<Rightarrow> GDT \<Rightarrow> GDT" where
  "gdt_push v g = g\<lparr>gdt_entries := (gdt_entries g)[unat (gdt_current g) := v], gdt_current := gdt_current g + 1\<rparr>"

definition gdt_add :: "u64 \<Rightarrow> GDT \<Rightarrow> bool \<times> GDT" where
  "gdt_add v g = (if unat (gdt_current g) \<ge> MAX_NR_GDT_ENTRIES then (False, g) else (True, gdt_push v g))"

definition add_null :: "GDT \<Rightarrow> bool \<times> GDT" where
  "add_null g = gdt_add 0 g"

definition add_code_segment :: "u8 \<Rightarrow> GDT \<Rightarrow> bool \<times> GDT" where
  "add_code_segment dpl g = gdt_add (CodeSegmentDescriptor dpl) g"

definition add_data_segment :: "u8 \<Rightarrow> GDT \<Rightarrow> bool \<times> GDT" where
  "add_data_segment dpl g = gdt_add (DataSegmentDescriptor dpl) g"

definition add_tss :: "u32 \<Rightarrow> u64 \<Rightarrow> u64 \<Rightarrow> GDT \<Rightarrow> bool \<times> GDT" where
  "add_tss reserved ptr sz g =
    (if unat (gdt_current g) \<ge> MAX_NR_GDT_ENTRIES - 1 then (False, g)
     else let (low, high) = TSSDescriptor reserved ptr sz in (True, gdt_push high (gdt_push low g)))"

text \<open>Reloading yields the limit given to the processor.\<close>

definition gdt_reload :: "GDT \<Rightarrow> u16" where
  "gdt_reload g = ucast (gdt_current g) * 8"

definition gdt_init :: "u32 \<Rightarrow> u64 \<Rightarrow> GDT \<Rightarrow> (bool \<times> GDT) \<times> u16 option" where
  "gdt_init reserved tss g =
    (let g = gdt_erase g; (ok, g) = add_null g
     in if \<not> ok then ((False, g), None) else
     let (ok, g) = add_code_segment 0 g
     in if \<not> ok then ((False, g), None) else
     let (ok, g) = add_data_segment 0 g
     in if \<not> ok then ((False, g), None) else
     let (ok, g) = add_code_segment 3 g
     in if \<not> ok then ((False, g), None) else
     let (ok, g) = add_data_segment 3 g
     in if \<not> ok then ((False, g), None) else
     let (ok, g) = add_tss reserved tss 208 g
     in if \<not> ok then ((False, g), None) else ((True, g), Some (gdt_reload g)))"

section \<open>The interrupt descriptor table\<close>

definition MAX_NR_IDT_ENTRIES :: int where "MAX_NR_IDT_ENTRIES = 256"

record IDT =
  idt_max_index :: u8
  idt_entries :: "(u64 \<times> u64) list"

text \<open>Reloading yields the limit given to the processor.\<close>

definition idt_reload :: "IDT \<Rightarrow> u16" where
  "idt_reload t = ucast ((ucast (idt_max_index t) + 1 :: u32) * 16)"

definition idt_init :: "IDT \<Rightarrow> IDT \<times> u16" where
  "idt_init t =
    (let t = t\<lparr>idt_entries := map (\<lambda>_. (0, 0)) (idt_entries t), idt_max_index := 0\<rparr> in (t, idt_reload t))"

definition idt_store :: "int \<Rightarrow> u64 \<times> u64 \<Rightarrow> IDT \<Rightarrow> (bool \<times> IDT) result" where
  "idt_store index e t =
    (if index \<ge> MAX_NR_IDT_ENTRIES then Inr (False, t)
     else if index < 0 then Inl OutOfBounds
     else
       let t = t\<lparr>idt_entries := (idt_entries t)[nat index := e]\<rparr>
       in Inr (True, if index > uint (idt_max_index t) then t\<lparr>idt_max_index := of_int index\<rparr> else t))"

definition register_interrupt_gate :: "u32 \<Rightarrow> int \<Rightarrow> u64 \<Rightarrow> u16 \<Rightarrow> u8 \<Rightarrow> IDT \<Rightarrow> (bool \<times> IDT) result" where
  "register_interrupt_gate reserved index addr seg dpl t = idt_store index (InterruptGateDescriptor reserved addr seg dpl) t"

definition register_trap_gate :: "u32 \<Rightarrow> bool \<Rightarrow> int \<Rightarrow> u64 \<Rightarrow> u16 \<Rightarrow> u8 \<Rightarrow> IDT \<Rightarrow> (bool \<times> IDT) result" where
  "register_trap_gate reserved pad index addr seg dpl t = idt_store index (TrapGateDescriptor reserved pad addr seg dpl) t"

section \<open>The task state segment\<close>

text \<open>The stack's address is stored at the fourth byte, across the first two words.\<close>

definition set_kernel_stack :: "u64 \<Rightarrow> u64 list \<Rightarrow> u64 list" where
  "set_kernel_stack stack t = t[0 := take_bit 32 (t ! 0) OR push_bit 32 stack,
    1 := drop_bit 32 stack OR push_bit 32 (drop_bit 32 (t ! 1))]"

definition tss_init :: "u16 \<Rightarrow> u64 list \<Rightarrow> bool \<times> u64 list \<times> u16" where
  "tss_init sel t = (True, set_kernel_stack 0 t, sel)"

section \<open>What the processor reads\<close>

text \<open>The fields of a gate by their places in the processor's format: the handler's address, the code segment, type, privilege and presence.\<close>

record gate =
  gate_offset :: u64
  gate_segment :: u64
  gate_type :: u64
  gate_dpl :: u64
  gate_present :: bool

definition decode_gate :: "u64 \<times> u64 \<Rightarrow> gate" where
  "decode_gate e = (case e of (low, high) \<Rightarrow>
    \<lparr>gate_offset = bits_at 0 16 low OR push_bit 16 (bits_at 48 16 low) OR push_bit 32 (bits_at 0 32 high),
     gate_segment = bits_at 16 16 low, gate_type = bits_at 40 4 low, gate_dpl = bits_at 45 2 low, gate_present = (bits_at 47 1 low \<noteq> 0)\<rparr>)"

definition decode_base :: "u64 \<times> u64 \<Rightarrow> u64" where
  "decode_base e = (case e of (low, high) \<Rightarrow>
    bits_at 16 16 low OR push_bit 16 (bits_at 32 8 low) OR push_bit 24 (bits_at 56 8 low) OR push_bit 32 (bits_at 0 32 high))"

section \<open>Reading packed fields\<close>

lemma bit_field: "bit (field off width v) i \<longleftrightarrow> off \<le> i \<and> i < 64 \<and> i - off < width \<and> bit v (i - off)"
  by (auto simp: field_def bit_push_bit_iff bit_take_bit_iff)

lemma bit_bits_at: "bit (bits_at off width w) i \<longleftrightarrow> i < width \<and> bit w (off + i)"
  by (auto simp: bits_at_def bit_drop_bit_eq bit_take_bit_iff)

lemma bits_at_or: "bits_at off width (a OR b) = bits_at off width a OR bits_at off width b"
  by (simp add: bits_at_def)

lemma bits_at_inside:
  "off' \<le> off \<Longrightarrow> off + width \<le> off' + width' \<Longrightarrow> off' + width' \<le> 64 \<Longrightarrow>
    bits_at off width (field off' width' v) = take_bit width (drop_bit (off - off') v)"
  by (rule bit_eqI) (auto simp: bit_bits_at bit_field bit_take_bit_iff bit_drop_bit_eq)

lemma bits_at_outside:
  "off + width \<le> off' \<or> off' + width' \<le> off \<Longrightarrow> bits_at off width (field off' width' v) = 0"
  by (rule bit_eqI) (auto simp: bit_bits_at bit_field)

lemma and_masks:
  "x AND 0xffff = take_bit 16 x" "x AND 0xff = take_bit 8 x" "x AND 0xf = take_bit 4 x" "x AND 0xffffffff = take_bit 32 x"
  for x :: u64
  by (simp_all add: take_bit_eq_mask mask_eq_exp_minus_1)

lemmas read_field = bits_at_or bits_at_inside bits_at_outside and_masks take_bit_take_bit

lemma join_offset:
  "take_bit 16 a OR push_bit 16 (take_bit 16 (drop_bit 16 a)) OR push_bit 32 (take_bit 32 (drop_bit 32 a)) = a" for a :: u64
proof (rule bit_word_eqI)
  fix i :: nat
  assume "i < LENGTH(64)"
  then show "bit (take_bit 16 a OR push_bit 16 (take_bit 16 (drop_bit 16 a)) OR push_bit 32 (take_bit 32 (drop_bit 32 a))) i = bit a i"
    by (cases "i < 32") (auto simp: bit_or_iff bit_take_bit_iff bit_push_bit_iff bit_drop_bit_eq not_less)
qed

lemma join_base:
  "take_bit 16 a OR push_bit 16 (take_bit 8 (drop_bit 16 a)) OR push_bit 24 (take_bit 8 (drop_bit 24 a)) OR
    push_bit 32 (take_bit 32 (drop_bit 32 a)) = a" for a :: u64
proof (rule bit_word_eqI)
  fix i :: nat
  assume "i < LENGTH(64)"
  then show "bit (take_bit 16 a OR push_bit 16 (take_bit 8 (drop_bit 16 a)) OR push_bit 24 (take_bit 8 (drop_bit 24 a)) OR
      push_bit 32 (take_bit 32 (drop_bit 32 a))) i = bit a i"
    by (cases "i < 24"; cases "i < 32") (auto simp: bit_or_iff bit_take_bit_iff bit_push_bit_iff bit_drop_bit_eq not_less)
qed

lemma byte_field: "take_bit 2 (ucast d :: u64) = ucast (take_bit 2 d)" for d :: u8
  by (rule bit_eqI) (auto simp: bit_take_bit_iff bit_ucast_iff dest: bit_imp_le_length)

lemma decode_interrupt_gate:
  "decode_gate (InterruptGateDescriptor reserved addr seg dpl) =
    \<lparr>gate_offset = addr, gate_segment = ucast seg, gate_type = 0xE, gate_dpl = ucast (take_bit 2 dpl), gate_present = True\<rparr>"
proof -
  have "take_bit 16 (ucast seg :: u64) = ucast seg"
    by (rule bit_eqI) (auto simp: bit_take_bit_iff bit_ucast_iff dest: bit_imp_le_length)
  then show ?thesis
    using join_offset [of addr]
    by (simp add: decode_gate_def InterruptGateDescriptor_def read_field byte_field)
qed

lemma decode_TSS: "decode_base (TSSDescriptor reserved ptr sz) = ptr"
  using join_base [of ptr] by (simp add: decode_base_def TSSDescriptor_def read_field)

section \<open>Properties\<close>

definition idt_ok :: "IDT \<Rightarrow> bool" where
  "idt_ok t \<longleftrightarrow> length (idt_entries t) = 256"

text \<open>
  (\<open>dt.cpp\<close>, \<open>register_interrupt_gate\<close>). Registering a gate at an index below 256 makes the processor read there a present interrupt gate with
  exactly the address, segment and privilege level given, changes no other entry, and after a reload the limit covers the entry.
\<close>

theorem interrupt_gate_registered:
  assumes "idt_ok t" and "0 \<le> index" and "index < 256"
  shows "\<exists>t'. register_interrupt_gate reserved index addr seg dpl t = Inr (True, t') \<and> idt_ok t' \<and>
    decode_gate (idt_entries t' ! nat index) =
      \<lparr>gate_offset = addr, gate_segment = ucast seg, gate_type = 0xE, gate_dpl = ucast (take_bit 2 dpl), gate_present = True\<rparr> \<and>
    (\<forall>j. j \<noteq> nat index \<longrightarrow> idt_entries t' ! j = idt_entries t ! j) \<and> idt_max_index t \<le> idt_max_index t' \<and>
    index * 16 + 15 < uint (idt_reload t')"
proof -
  let ?e = "InterruptGateDescriptor reserved addr seg dpl"
  let ?t = "t\<lparr>idt_entries := (idt_entries t)[nat index := ?e]\<rparr>"
  let ?t' = "if index > uint (idt_max_index t) then ?t\<lparr>idt_max_index := of_int index\<rparr> else ?t"
  have max: "index \<le> uint (idt_max_index ?t')" "idt_max_index t \<le> idt_max_index ?t'"
    using assms(2,3) by (auto simp: word_le_def uint_word_of_int)
  have m: "uint (idt_max_index ?t') < 256"
    using uint_lt2p [of "idt_max_index ?t'"] by simp
  have "uint (idt_reload ?t') = (uint (idt_max_index ?t') + 1) * 16"
    using m by (simp add: idt_reload_def uint_word_ariths take_bit_int_eq_self unsigned_ucast_eq)
  moreover have "register_interrupt_gate reserved index addr seg dpl t = Inr (True, ?t')"
    using assms(2,3) by (simp add: register_interrupt_gate_def idt_store_def MAX_NR_IDT_ENTRIES_def Let_def)
  moreover have "idt_entries ?t' = (idt_entries t)[nat index := ?e]"
    by simp
  ultimately show ?thesis
    using assms max decode_interrupt_gate by (intro exI [of _ ?t']) (simp add: idt_ok_def)
qed

text \<open>
  (\<open>dt.h\<close>, \<open>TrapGateDescriptor\<close>). The presence bit of a trap gate is the padding bit: a gate whose padding is zero is not present.
\<close>

theorem trap_gate_not_present:
  "gate_present (decode_gate (TrapGateDescriptor reserved pad addr seg dpl)) = pad"
  by (simp add: decode_gate_def TrapGateDescriptor_def read_field)

text \<open>
  (\<open>dt.cpp\<close>, \<open>GDT::init\<close>). Initialisation fills the table with the null descriptor, code and data segments for the kernel and for the user, and the
  task state, at the selectors the kernel uses; the limit covers the seven entries.
\<close>

theorem gdt_init_correct:
  assumes "length (gdt_entries g) = 16"
  shows "\<exists>g'. gdt_init reserved tss g = ((True, g'), Some 56) \<and>
    take 5 (gdt_entries g') = [0, 0x00209a0000000000, 0x0040920000000000, 0x0020fa0000000000, 0x0040f20000000000] \<and>
    decode_base (gdt_entries g' ! 5, gdt_entries g' ! 6) = tss \<and> length (gdt_entries g') = 16"
proof -
  obtain a b c d e f h r where g: "gdt_entries g = a # b # c # d # e # f # h # r" "length r = 9"
    using assms by (auto simp: length_Suc_conv eval_nat_numeral)
  have segs: "CodeSegmentDescriptor 0 = 0x00209a0000000000" "DataSegmentDescriptor 0 = 0x0040920000000000"
    "CodeSegmentDescriptor 3 = 0x0020fa0000000000" "DataSegmentDescriptor 3 = 0x0040f20000000000"
    by (simp_all add: CodeSegmentDescriptor_def DataSegmentDescriptor_def field_def take_bit_eq_mask mask_eq_exp_minus_1)
  obtain lo hi where t: "TSSDescriptor reserved tss 208 = (lo, hi)"
    by fastforce
  then have "decode_base (lo, hi) = tss"
    using decode_TSS [of reserved tss 208] by simp
  then show ?thesis
    using g t by (simp add: gdt_init_def gdt_erase_def add_null_def add_code_segment_def add_data_segment_def add_tss_def gdt_add_def
        gdt_push_def MAX_NR_GDT_ENTRIES_def segs gdt_reload_def Let_def)
qed

text \<open>The processor's stack pointer for the kernel's privilege level: the eight bytes from the fourth on.\<close>

definition tss_rsp0 :: "u64 list \<Rightarrow> u64" where
  "tss_rsp0 t = drop_bit 32 (t ! 0) OR push_bit 32 (t ! 1)"

text \<open>
  (\<open>dt.cpp\<close>, \<open>TSS::set_kernel_stack\<close>). After setting the kernel stack the processor finds it in the task state; the bytes before and after it,
  and every other word, are as they were.
\<close>

theorem kernel_stack_set:
  assumes "length t = 26"
  shows "tss_rsp0 (set_kernel_stack stack t) = stack"
    and "take_bit 32 (set_kernel_stack stack t ! 0) = take_bit 32 (t ! 0)"
    and "drop_bit 32 (set_kernel_stack stack t ! 1) = drop_bit 32 (t ! 1)"
    and "1 < i \<Longrightarrow> set_kernel_stack stack t ! i = t ! i"
proof -
  have new: "set_kernel_stack stack t ! 0 = take_bit 32 (t ! 0) OR push_bit 32 stack"
    "set_kernel_stack stack t ! 1 = drop_bit 32 stack OR push_bit 32 (drop_bit 32 (t ! 1))"
    using assms by (simp_all add: set_kernel_stack_def)
  note bits = bit_or_iff bit_take_bit_iff bit_push_bit_iff bit_drop_bit_eq
  show "tss_rsp0 (set_kernel_stack stack t) = stack"
  proof (rule bit_word_eqI)
    fix i :: nat
    assume "i < LENGTH(64)"
    then show "bit (tss_rsp0 (set_kernel_stack stack t)) i = bit stack i"
      unfolding tss_rsp0_def new by (cases "i < 32") (auto simp: bits not_less)
  qed
  show "take_bit 32 (set_kernel_stack stack t ! 0) = take_bit 32 (t ! 0)"
    unfolding new by (rule bit_word_eqI) (auto simp: bits)
  show "drop_bit 32 (set_kernel_stack stack t ! 1) = drop_bit 32 (t ! 1)"
    unfolding new by (rule bit_word_eqI) (auto simp: bits dest: bit_imp_le_length)
  show "1 < i \<Longrightarrow> set_kernel_stack stack t ! i = t ! i"
    by (simp add: set_kernel_stack_def)
qed

end
