(* ===== verification/Interrupts.thy ===== *)
theory Interrupts
  imports Descriptors Ports
begin

text \<open>
  Interrupts: the interrupt objects and their manager (\<open>infos/arch/x86/irq.cpp\<close>, \<open>infos/kernel/irq.cpp\<close>), the two interrupt controllers
  (\<open>infos/drivers/irq/ioapic.cpp\<close>, \<open>lapic.cpp\<close>) and the timers (\<open>infos/drivers/timer/pit.cpp\<close>, \<open>lapic-timer.cpp\<close>). Handlers
  are of a type \<open>'f\<close>; an interrupt's outcome is the list of what happens. The controllers' registers are reads and writes
  of 32-bit words at positions from their base, on a hardware state \<open>'h\<close>.
\<close>

unbundle bit_operations_syntax

section \<open>Interrupt objects\<close>

datatype lvt = LVT_Timer | LVT_PMU | LVT_LINT0 | LVT_LINT1 | LVT_Error

datatype irq_kind = ExceptionIRQ | SoftwareIRQ | IOAPICIRQ | LAPICIRQ lvt

record 'f IRQ =
  irq_kind :: irq_kind
  irq_nr :: u32
  irq_handler :: "'f option"
  irq_priv :: ptr

definition IRQ_new :: "irq_kind \<Rightarrow> 'f IRQ" where
  "IRQ_new kind = \<lparr>irq_kind = kind, irq_nr = 0, irq_handler = None, irq_priv = None\<rparr>"

text \<open>What handling an interrupt does: the call of a handler with its object and private data, the end-of-interrupt write, or the end of the system.\<close>

datatype 'f irq_event = Called 'f nat ptr | Eoi | Aborted | NobodyCared

record 'f irq_system =
  irq_heap :: "'f IRQ list"
  irq_descriptors :: "ptr list"
  irq_idt :: IDT

definition irq_at :: "'f irq_system \<Rightarrow> nat \<Rightarrow> 'f IRQ result" where
  "irq_at s p = (if p < length (irq_heap s) then Inr (irq_heap s ! p) else Inl Undefined)"

definition irq_upd :: "'f irq_system \<Rightarrow> nat \<Rightarrow> ('f IRQ \<Rightarrow> 'f IRQ) \<Rightarrow> 'f irq_system result" where
  "irq_upd s p f = andthen (irq_at s p) (\<lambda>q. Inr (s\<lparr>irq_heap := (irq_heap s)[p := f q]\<rparr>))"

definition irq_assign :: "'f irq_system \<Rightarrow> nat \<Rightarrow> u32 \<Rightarrow> 'f irq_system result" where
  "irq_assign s p nr = irq_upd s p (\<lambda>q. q\<lparr>irq_nr := nr\<rparr>)"

definition irq_attach :: "'f irq_system \<Rightarrow> nat \<Rightarrow> 'f \<Rightarrow> ptr \<Rightarrow> 'f irq_system result" where
  "irq_attach s p handler priv = irq_upd s p (\<lambda>q. q\<lparr>irq_handler := Some handler, irq_priv := priv\<rparr>)"

definition invoke :: "'f IRQ \<Rightarrow> nat \<Rightarrow> bool \<times> 'f irq_event list" where
  "invoke q p = (case irq_handler q of Some f \<Rightarrow> (True, [Called f p (irq_priv q)]) | None \<Rightarrow> (False, []))"

definition irq_handle :: "'f IRQ \<Rightarrow> nat \<Rightarrow> 'f irq_event list" where
  "irq_handle q p =
    (let (ok, calls) = invoke q p
     in case irq_kind q of
          ExceptionIRQ \<Rightarrow> if ok then calls else [Aborted]
        | SoftwareIRQ \<Rightarrow> if ok then calls else [Aborted]
        | IOAPICIRQ \<Rightarrow> calls @ [Eoi]
        | LAPICIRQ _ \<Rightarrow> if ok then calls @ [Eoi] else [Aborted])"

section \<open>The interrupt manager\<close>

abbreviation "IRQ_TRAP \<equiv> (3 :: nat)"
abbreviation "IRQ_USER_SYSCALL \<equiv> (0x81 :: nat)"

definition MAX_IRQS :: nat where "MAX_IRQS = 256"

definition connect :: "'f irq_system \<Rightarrow> nat \<Rightarrow> nat \<Rightarrow> 'f irq_system result" where
  "connect s i p = irq_assign (s\<lparr>irq_descriptors := (irq_descriptors s)[i := Some p]\<rparr>) p (of_nat i)"

definition irq_new :: "irq_kind \<Rightarrow> 'f irq_system \<Rightarrow> nat \<times> 'f irq_system" where
  "irq_new kind s = (length (irq_heap s), s\<lparr>irq_heap := irq_heap s @ [IRQ_new kind]\<rparr>)"

text \<open>\<open>entry i\<close> is the address of the i-th entry point, \<open>g\<close> what the unset halves of gates hold.\<close>

definition set_gate :: "(nat \<Rightarrow> u64) \<Rightarrow> u32 \<Rightarrow> u8 \<Rightarrow> 'f irq_system \<Rightarrow> nat \<Rightarrow> 'f irq_system result" where
  "set_gate entry g dpl s i =
    andthen (register_interrupt_gate g (int i) (entry i) 0x08 dpl (irq_idt s)) (\<lambda>(_, t). Inr (s\<lparr>irq_idt := t\<rparr>))"

definition new_exception :: "'f irq_system \<Rightarrow> nat \<Rightarrow> 'f irq_system result" where
  "new_exception s i = (case irq_new ExceptionIRQ s of (p, s) \<Rightarrow> connect s i p)"

definition irq_manager_init :: "(nat \<Rightarrow> u64) \<Rightarrow> u32 \<Rightarrow> 'f irq_system \<Rightarrow> (bool \<times> 'f irq_system) result" where
  "irq_manager_init entry g s =
    andthen (fold_result (set_gate entry g 0) s [0..<256]) (\<lambda>s.
    andthen (set_gate entry g 3 s IRQ_TRAP) (\<lambda>s.
    andthen (set_gate entry g 3 s IRQ_USER_SYSCALL) (\<lambda>s.
    andthen (fold_result new_exception s [0..<32]) (\<lambda>s. Inr (True, s)))))"

definition install_handler :: "irq_kind \<Rightarrow> u8 \<Rightarrow> 'f \<Rightarrow> ptr \<Rightarrow> 'f irq_system \<Rightarrow> (bool \<times> 'f irq_system) result" where
  "install_handler kind nr handler priv s =
    (if unat nr \<ge> MAX_IRQS then Inr (False, s)
     else
       andthen (case irq_descriptors s ! unat nr of
           None \<Rightarrow> (case irq_new kind s of (p, s) \<Rightarrow> connect s (unat nr) p)
         | Some _ \<Rightarrow> Inr s) (\<lambda>s.
       andthen (deref (irq_descriptors s ! unat nr)) (\<lambda>p.
       andthen (irq_attach s p handler priv) (\<lambda>s. Inr (True, s)))))"

definition install_exception_handler :: "u8 \<Rightarrow> 'f \<Rightarrow> ptr \<Rightarrow> 'f irq_system \<Rightarrow> (bool \<times> 'f irq_system) result" where
  "install_exception_handler = install_handler ExceptionIRQ"

definition install_software_handler :: "u8 \<Rightarrow> 'f \<Rightarrow> ptr \<Rightarrow> 'f irq_system \<Rightarrow> (bool \<times> 'f irq_system) result" where
  "install_software_handler = install_handler SoftwareIRQ"

text \<open>The search for a free vector among a list of candidates.\<close>

fun attach_from :: "nat list \<Rightarrow> nat \<Rightarrow> 'f irq_system \<Rightarrow> (bool \<times> 'f irq_system) result" where
  "attach_from [] p s = Inr (False, s)"
| "attach_from (i # is) p s =
    (if irq_descriptors s ! i = None then andthen (connect s i p) (\<lambda>s. Inr (True, s)) else attach_from is p s)"

definition attach_irq :: "ptr \<Rightarrow> 'f irq_system \<Rightarrow> (bool \<times> 'f irq_system) result" where
  "attach_irq irq s = (case irq of None \<Rightarrow> Inr (False, s) | Some p \<Rightarrow> attach_from [0x20..<0x100] p s)"

definition handle_raw_irq :: "'f irq_system \<Rightarrow> u32 \<Rightarrow> 'f irq_event list result" where
  "handle_raw_irq s nr =
    andthen (check (unat nr < MAX_IRQS) AssertFail) (\<lambda>_.
      case irq_descriptors s ! unat nr of
        None \<Rightarrow> Inr [NobodyCared]
      | Some p \<Rightarrow> andthen (irq_at s p) (\<lambda>q. Inr (irq_handle q p)))"

section \<open>The local controller\<close>

record 'h mmio =
  mm_read :: "nat \<Rightarrow> 'h \<Rightarrow> u32 \<times> 'h"
  mm_write :: "nat \<Rightarrow> u32 \<Rightarrow> 'h \<Rightarrow> 'h"

abbreviation "LAPIC_ID \<equiv> (0x0020 :: nat)"
abbreviation "LAPIC_VER \<equiv> (0x0030 :: nat)"
abbreviation "LAPIC_TPR \<equiv> (0x0080 :: nat)"
abbreviation "LAPIC_EOI \<equiv> (0x00B0 :: nat)"
abbreviation "LAPIC_SVR \<equiv> (0x00F0 :: nat)"
abbreviation "LAPIC_ESR \<equiv> (0x0280 :: nat)"
abbreviation "LAPIC_ICRLO \<equiv> (0x0300 :: nat)"
abbreviation "LAPIC_ICRHI \<equiv> (0x0310 :: nat)"
abbreviation "LAPIC_TIMER \<equiv> (0x0320 :: nat)"
abbreviation "LAPIC_PCINT \<equiv> (0x0340 :: nat)"
abbreviation "LAPIC_LINT0 \<equiv> (0x0350 :: nat)"
abbreviation "LAPIC_LINT1 \<equiv> (0x0360 :: nat)"
abbreviation "LAPIC_ERROR \<equiv> (0x0370 :: nat)"
abbreviation "LAPIC_TICR \<equiv> (0x0380 :: nat)"
abbreviation "LAPIC_TCCR \<equiv> (0x0390 :: nat)"
abbreviation "LAPIC_TDCR \<equiv> (0x03E0 :: nat)"

abbreviation "LAPIC_MASKED \<equiv> (0x00010000 :: u32)"
abbreviation "LAPIC_PERIODIC \<equiv> (0x00020000 :: u32)"
abbreviation "LAPIC_DELIVS \<equiv> (0x00001000 :: u32)"

definition lapic_write :: "'h mmio \<Rightarrow> nat \<Rightarrow> u32 \<Rightarrow> 'h \<Rightarrow> 'h" where
  "lapic_write io reg v h = snd (mm_read io (LAPIC_ID div 4) (mm_write io (reg div 4) v h))"

definition lapic_read :: "'h mmio \<Rightarrow> nat \<Rightarrow> 'h \<Rightarrow> u32 \<times> 'h" where
  "lapic_read io reg h = mm_read io (reg div 4) h"

definition set_flag :: "'h mmio \<Rightarrow> nat \<Rightarrow> u32 \<Rightarrow> 'h \<Rightarrow> 'h" where
  "set_flag io reg v h = (let (oldval, h) = lapic_read io reg h in lapic_write io reg (oldval OR v) h)"

definition clear_flag :: "'h mmio \<Rightarrow> nat \<Rightarrow> u32 \<Rightarrow> 'h \<Rightarrow> 'h" where
  "clear_flag io reg v h = (let (oldval, h) = lapic_read io reg h in lapic_write io reg (oldval AND NOT v) h)"

fun lvt_register :: "lvt \<Rightarrow> nat" where
  "lvt_register LVT_Timer = LAPIC_TIMER"
| "lvt_register LVT_PMU = LAPIC_PCINT"
| "lvt_register LVT_LINT0 = LAPIC_LINT0"
| "lvt_register LVT_LINT1 = LAPIC_LINT1"
| "lvt_register LVT_Error = LAPIC_ERROR"

definition mask_interrupts :: "'h mmio \<Rightarrow> lvt \<Rightarrow> 'h \<Rightarrow> 'h" where
  "mask_interrupts io l h = set_flag io (lvt_register l) LAPIC_MASKED h"

definition unmask_interrupts :: "'h mmio \<Rightarrow> lvt \<Rightarrow> 'h \<Rightarrow> 'h" where
  "unmask_interrupts io l h = clear_flag io (lvt_register l) LAPIC_MASKED h"

definition lapic_eoi :: "'h mmio \<Rightarrow> 'h \<Rightarrow> 'h" where
  "lapic_eoi io h = lapic_write io LAPIC_EOI 0 h"

definition set_timer_irq :: "'h mmio \<Rightarrow> u8 \<Rightarrow> 'h \<Rightarrow> 'h" where
  "set_timer_irq io irq h =
    (let (v, h) = lapic_read io LAPIC_TIMER h in lapic_write io LAPIC_TIMER ((v AND NOT 0xff) OR ucast irq) h)"

definition set_timer_divide :: "'h mmio \<Rightarrow> u8 \<Rightarrow> 'h \<Rightarrow> 'h" where
  "set_timer_divide io v h = lapic_write io LAPIC_TDCR (ucast v) h"

definition set_timer_initial_count :: "'h mmio \<Rightarrow> u32 \<Rightarrow> 'h \<Rightarrow> 'h" where
  "set_timer_initial_count io v h = lapic_write io LAPIC_TICR v h"

definition get_timer_current_count :: "'h mmio \<Rightarrow> 'h \<Rightarrow> u32 \<times> 'h" where
  "get_timer_current_count io h = lapic_read io LAPIC_TCCR h"

definition set_timer_one_shot :: "'h mmio \<Rightarrow> 'h \<Rightarrow> 'h" where
  "set_timer_one_shot io h = clear_flag io LAPIC_TIMER LAPIC_PERIODIC h"

definition set_timer_periodic :: "'h mmio \<Rightarrow> 'h \<Rightarrow> 'h" where
  "set_timer_periodic io h = set_flag io LAPIC_TIMER LAPIC_PERIODIC h"

fun wait_delivered :: "nat \<Rightarrow> 'h mmio \<Rightarrow> 'h \<Rightarrow> 'h result" where
  "wait_delivered 0 io h = Inl Diverges"
| "wait_delivered (Suc fuel) io h =
    (let (v, h) = lapic_read io LAPIC_ICRLO h in if v AND LAPIC_DELIVS \<noteq> 0 then wait_delivered fuel io h else Inr h)"

text \<open>\<open>BCAST | INIT | LEVEL\<close> is \<open>0x88500\<close>.\<close>

definition lapic_setup :: "nat \<Rightarrow> 'h mmio \<Rightarrow> 'h \<Rightarrow> 'h result" where
  "lapic_setup fuel io h =
    (let h = lapic_write io LAPIC_SVR 0x1ff h;
         h = lapic_write io LAPIC_TIMER LAPIC_MASKED h;
         h = lapic_write io LAPIC_LINT0 LAPIC_MASKED h;
         h = lapic_write io LAPIC_LINT1 LAPIC_MASKED h;
         h = lapic_write io LAPIC_ERROR LAPIC_MASKED h;
         (ver, h) = lapic_read io LAPIC_VER h;
         h = (if drop_bit 16 ver AND 0xFF \<ge> 4 then lapic_write io LAPIC_PCINT LAPIC_MASKED h else h);
         h = lapic_write io LAPIC_ESR 0 h;
         h = lapic_write io LAPIC_ESR 0 h;
         h = lapic_write io LAPIC_EOI 0 h;
         h = lapic_write io LAPIC_ICRHI 0 h;
         h = lapic_write io LAPIC_ICRLO 0x88500 h
     in andthen (wait_delivered fuel io h) (\<lambda>h. Inr (lapic_write io LAPIC_TPR 0 h)))"

text \<open>The result has the position of the timer's interrupt object.\<close>

definition lapic_init :: "nat \<Rightarrow> 'h mmio \<Rightarrow> 'f irq_system \<Rightarrow> 'h \<Rightarrow> (bool \<times> nat \<times> 'f irq_system \<times> 'h) result" where
  "lapic_init fuel io s h =
    andthen (lapic_setup fuel io h) (\<lambda>h.
      case irq_new (LAPICIRQ LVT_Timer) s of (p, s) \<Rightarrow>
      andthen (attach_irq (Some p) s) (\<lambda>(ok, s).
        if \<not> ok then Inr (False, p, s, h)
        else andthen (irq_at s p) (\<lambda>q. Inr (True, p, s, set_timer_irq io (ucast (irq_nr q)) h))))"

section \<open>The controller of device lines\<close>

definition ioapic_write :: "'h mmio \<Rightarrow> u32 \<Rightarrow> u32 \<Rightarrow> 'h \<Rightarrow> 'h" where
  "ioapic_write io reg v h = mm_write io 4 v (mm_write io 0 reg h)"

definition ioapic_read :: "'h mmio \<Rightarrow> u32 \<Rightarrow> 'h \<Rightarrow> u32 \<times> 'h" where
  "ioapic_read io reg h = mm_read io 4 (mm_write io 0 reg h)"

text \<open>The entry's bit fields fill 17 bits; \<open>destination\<close> is the byte after them. \<open>high\<close> is not a name of any of them.\<close>

record RedirectionEntry =
  re_vector :: u8
  re_delivery_mode :: u8
  re_destination_mode :: bool
  re_delivery_status :: bool
  re_pin_polarity :: bool
  re_remote_irr :: bool
  re_trigger_mode :: bool
  re_mask :: bool
  re_destination :: u8
  re_high :: u64

definition re_low :: "RedirectionEntry \<Rightarrow> u64" where
  "re_low e =
    field 0 8 (ucast (re_vector e)) OR field 8 3 (ucast (re_delivery_mode e)) OR field 11 1 (of_bool (re_destination_mode e)) OR
    field 12 1 (of_bool (re_delivery_status e)) OR field 13 1 (of_bool (re_pin_polarity e)) OR
    field 14 1 (of_bool (re_remote_irr e)) OR field 15 1 (of_bool (re_trigger_mode e)) OR field 16 1 (of_bool (re_mask e)) OR
    field 24 8 (ucast (re_destination e))"

definition re_blank :: RedirectionEntry where
  "re_blank = \<lparr>re_vector = 0, re_delivery_mode = 0, re_destination_mode = False, re_delivery_status = False,
    re_pin_polarity = False, re_remote_irr = False, re_trigger_mode = False, re_mask = False, re_destination = 0, re_high = 0\<rparr>"

definition store_redir_entry :: "'h mmio \<Rightarrow> u8 \<Rightarrow> u8 \<Rightarrow> RedirectionEntry \<Rightarrow> 'h \<Rightarrow> 'h result" where
  "store_redir_entry io nr_irqs irq_index e h =
    andthen (check (irq_index < nr_irqs) AssertFail) (\<lambda>_.
      let configuration_register = 0x10 + irq_index * 2 :: u8;
          h = ioapic_write io (ucast configuration_register) (ucast (re_low e)) h
      in Inr (ioapic_write io (ucast configuration_register + 1) (ucast (re_high e)) h))"

text \<open>The identification register is read for the log.\<close>

definition ioapic_init :: "'h mmio \<Rightarrow> 'h \<Rightarrow> (bool \<times> u8 \<times> 'h) result" where
  "ioapic_init io h =
    (let (ver, h) = ioapic_read io 1 h; nr_irqs = ucast (drop_bit 16 ver) :: u8; (_, h) = ioapic_read io 0 h
     in andthen (fold_result (\<lambda>h i. store_redir_entry io nr_irqs (of_nat i) re_blank h) h [0..<unat nr_irqs]) (\<lambda>h.
       Inr (True, nr_irqs, h)))"

definition request_physical_irq ::
    "'h mmio \<Rightarrow> u8 \<Rightarrow> ptr \<Rightarrow> u32 \<Rightarrow> 'f irq_system \<Rightarrow> 'h \<Rightarrow> (ptr \<times> 'f irq_system \<times> 'h) result" where
  "request_physical_irq io nr_irqs lapic phys_irq_nr s h =
    (if lapic = None then Inr (None, s, h)
     else if phys_irq_nr \<ge> ucast nr_irqs then Inr (None, s, h)
     else
       case irq_new IOAPICIRQ s of (p, s) \<Rightarrow>
       andthen (attach_irq (Some p) s) (\<lambda>(ok, s).
         if \<not> ok then Inr (None, s, h)
         else
           andthen (irq_at s p) (\<lambda>q.
           andthen (store_redir_entry io nr_irqs (ucast phys_irq_nr) (re_blank\<lparr>re_vector := ucast (irq_nr q)\<rparr>) h) (\<lambda>h.
             Inr (Some p, s, h)))))"

section \<open>Timers\<close>

definition pit_start :: "'h ports \<Rightarrow> 'h \<Rightarrow> 'h" where
  "pit_start io h =
    (let (data, h) = io_in8 io 0x61 h; data = data AND 0xfe; h = io_out8 io 0x61 data h; data = data OR 1
     in io_out8 io 0x61 data h)"

definition pit_expired :: "'h ports \<Rightarrow> 'h \<Rightarrow> bool \<times> 'h" where
  "pit_expired io h = (let (expired, h) = io_in8 io 0x61 h in (\<not> (expired AND 0x20 \<noteq> 0), h))"

definition pit_init_oneshot :: "'h ports \<Rightarrow> u64 \<Rightarrow> 'h \<Rightarrow> 'h" where
  "pit_init_oneshot io period h =
    (let (data, h) = io_in8 io 0x61 h; data = (data AND 0xfd) OR 1; h = io_out8 io 0x61 data h;
         h = io_out8 io 0x43 0xb2 h;
         h = io_out8 io 0x42 (ucast period) h
     in io_out8 io 0x42 (ucast (drop_bit 8 period)) h)"

definition lapic_timer_start :: "'h mmio \<Rightarrow> 'h \<Rightarrow> 'h" where
  "lapic_timer_start mm h = unmask_interrupts mm LVT_Timer h"

definition lapic_timer_stop :: "'h mmio \<Rightarrow> 'h \<Rightarrow> 'h" where
  "lapic_timer_stop mm h = mask_interrupts mm LVT_Timer h"

definition lapic_timer_reset :: "'h mmio \<Rightarrow> 'h \<Rightarrow> 'h" where
  "lapic_timer_reset mm h = set_timer_initial_count mm 0 (mask_interrupts mm LVT_Timer h)"

definition lapic_timer_oneshot :: "'h mmio \<Rightarrow> u64 \<Rightarrow> 'h \<Rightarrow> 'h" where
  "lapic_timer_oneshot mm period h = set_timer_initial_count mm (ucast period) (set_timer_one_shot mm (lapic_timer_reset mm h))"

definition lapic_timer_periodic :: "'h mmio \<Rightarrow> u64 \<Rightarrow> 'h \<Rightarrow> 'h" where
  "lapic_timer_periodic mm period h = set_timer_initial_count mm (ucast period) (set_timer_periodic mm (lapic_timer_reset mm h))"

definition lapic_timer_count :: "'h mmio \<Rightarrow> 'h \<Rightarrow> u64 \<times> 'h" where
  "lapic_timer_count mm h = (let (v, h) = get_timer_current_count mm h in (ucast v, h))"

fun wait_expired :: "nat \<Rightarrow> 'h ports \<Rightarrow> 'h \<Rightarrow> 'h result" where
  "wait_expired 0 io h = Inl Diverges"
| "wait_expired (Suc fuel) io h =
    (let (expired, h) = pit_expired io h in if expired then Inr h else wait_expired fuel io h)"

definition CALIBRATION_TICKS :: u16 where
  "CALIBRATION_TICKS = of_int (1193180 * 10 div 1000)"

text \<open>\<open>ticks_per_period\<close> has 32 bits, and so has its product with 100.\<close>

definition timer_frequency :: "u64 \<Rightarrow> u64" where
  "timer_frequency count =
    (let ticks_per_period = ucast (0xffffffff - count) :: u32; ticks_per_period = push_bit 4 ticks_per_period
     in ucast (ticks_per_period * 100))"

definition lapic_timer_calibrate :: "nat \<Rightarrow> 'h ports \<Rightarrow> 'h mmio \<Rightarrow> 'h \<Rightarrow> (u64 \<times> 'h) result" where
  "lapic_timer_calibrate fuel io mm h =
    (let h = lapic_timer_oneshot mm 0xffffffff h;
         h = pit_init_oneshot io (ucast CALIBRATION_TICKS) h;
         h = pit_start io h;
         h = lapic_timer_start mm h
     in andthen (wait_expired fuel io h) (\<lambda>h.
       let h = lapic_timer_stop mm h; (c, h) = lapic_timer_count mm h in Inr (timer_frequency c, h)))"

text \<open>\<open>init\<close>, once the local controller and the reference timer are found; \<open>handler\<close> is the handler of the tick.\<close>

definition lapic_timer_init ::
    "nat \<Rightarrow> 'h ports \<Rightarrow> 'h mmio \<Rightarrow> nat \<Rightarrow> 'f \<Rightarrow> nat \<Rightarrow> 'f irq_system \<Rightarrow> 'h \<Rightarrow> (u64 \<times> 'f irq_system \<times> 'h) result" where
  "lapic_timer_init fuel io mm irq handler this s h =
    andthen (irq_attach s irq handler (Some this)) (\<lambda>s.
      let h = set_timer_divide mm 3 h; h = set_timer_initial_count mm 1 h
      in andthen (lapic_timer_calibrate fuel io mm h) (\<lambda>(freq, h). Inr (freq, s, h)))"

text \<open>The period the boot code programs, from the measured frequency.\<close>

definition timer_period :: "u64 \<Rightarrow> u64" where
  "timer_period freq = drop_bit 4 freq div 100"

end
