(* ===== verification/Interrupts_Correct.thy ===== *)
theory Interrupts_Correct
  imports Interrupts
begin

text \<open>
  The interrupt manager keeps every vector connected to the object that carries its number, dispatches an interrupt to
  the handler attached last, and lets user mode raise two vectors only; a device line requested from the controller arrives at its object.
\<close>

unbundle bit_operations_syntax

section \<open>Vectors\<close>

definition vectors_ok :: "'f irq_system \<Rightarrow> bool" where
  "vectors_ok s \<longleftrightarrow> length (irq_descriptors s) = 256 \<and> (\<forall>i<256. \<forall>p. irq_descriptors s ! i = Some p \<longrightarrow>
    p < length (irq_heap s) \<and> irq_nr (irq_heap s ! p) = of_nat i)"

definition unconnected :: "'f irq_system \<Rightarrow> nat \<Rightarrow> bool" where
  "unconnected s p \<longleftrightarrow> p < length (irq_heap s) \<and> (\<forall>i<256. irq_descriptors s ! i \<noteq> Some p)"

lemma word_vector: "i < 256 \<Longrightarrow> j < 256 \<Longrightarrow> (of_nat i :: u32) = of_nat j \<longleftrightarrow> i = j"
  by (simp add: of_nat_eq_iff word_of_nat_eq_iff take_bit_nat_eq_self)

lemma unat_vector: "i < 256 \<Longrightarrow> unat (of_nat i :: u32) = i"
  by (simp add: unat_of_nat take_bit_nat_eq_self)

lemma vectors_distinct:
  assumes "vectors_ok s" and "i < 256" "j < 256" and "irq_descriptors s ! i = Some p" and "irq_descriptors s ! j = Some p"
  shows "i = j"
  using assms word_vector [of i j] unfolding vectors_ok_def by metis

text \<open>Connecting an object to a vector.\<close>

definition connected :: "'f irq_system \<Rightarrow> nat \<Rightarrow> nat \<Rightarrow> 'f irq_system" where
  "connected s i p = s\<lparr>irq_descriptors := (irq_descriptors s)[i := Some p], irq_heap := (irq_heap s)[p := (irq_heap s ! p)\<lparr>irq_nr := of_nat i\<rparr>]\<rparr>"

lemma connect_eq: "p < length (irq_heap s) \<Longrightarrow> connect s i p = Inr (connected s i p)"
  by (simp add: connect_def irq_assign_def irq_upd_def irq_at_def connected_def)

lemma connected_ok:
  assumes "vectors_ok s" and "unconnected s p" and "i < 256"
  shows "vectors_ok (connected s i p)"
  using assms by (auto simp: vectors_ok_def unconnected_def connected_def nth_list_update)

lemma irq_new_ok:
  assumes "vectors_ok s" and "irq_new kind s = (p, s')"
  shows "vectors_ok s'" "unconnected s' p" "irq_heap s' ! p = IRQ_new kind" "irq_descriptors s' = irq_descriptors s"
    "irq_idt s' = irq_idt s" "irq_heap s' = irq_heap s @ [IRQ_new kind]" "p = length (irq_heap s)"
  using assms by (auto simp: irq_new_def vectors_ok_def unconnected_def nth_append)

lemma attach_from_eq:
  assumes "p < length (irq_heap s)"
  shows "attach_from is p s = (case find (\<lambda>i. irq_descriptors s ! i = None) is of
    Some i \<Rightarrow> Inr (True, connected s i p) | None \<Rightarrow> Inr (False, s))"
  by (induction "is") (simp_all add: connect_eq [OF assms])

lemma find_app: "find P (xs @ ys) = (case find P xs of None \<Rightarrow> find P ys | Some x \<Rightarrow> Some x)"
  by (induction xs) auto

lemma find_upt_least:
  "find P [a..<b] = Some i \<longleftrightarrow> a \<le> i \<and> i < b \<and> P i \<and> (\<forall>j. a \<le> j \<and> j < i \<longrightarrow> \<not> P j)"
proof (induction b)
  case 0
  then show ?case
    by simp
next
  case (Suc b)
  show ?case
  proof (cases "a \<le> b")
    case True
    have "find P [a..<Suc b] = (case find P [a..<b] of None \<Rightarrow> (if P b then Some b else None) | Some x \<Rightarrow> Some x)"
      using True by (simp add: upt_Suc find_app split: option.split)
    moreover have "find P [a..<b] = None \<longleftrightarrow> (\<forall>j. a \<le> j \<and> j < b \<longrightarrow> \<not> P j)"
      by (auto simp: find_None_iff)
    ultimately show ?thesis
      using Suc True by (auto split: option.splits simp: less_Suc_eq)
  qed auto
qed

text \<open>The search gives the least free vector, or refuses.\<close>

lemma attach_from_least:
  assumes "p < length (irq_heap s)"
  shows "(\<exists>i. a \<le> i \<and> i < b \<and> irq_descriptors s ! i = None \<and> (\<forall>j. a \<le> j \<and> j < i \<longrightarrow> irq_descriptors s ! j \<noteq> None) \<and>
      attach_from [a..<b] p s = Inr (True, connected s i p)) \<or>
    (\<forall>i. a \<le> i \<and> i < b \<longrightarrow> irq_descriptors s ! i \<noteq> None) \<and> attach_from [a..<b] p s = Inr (False, s)"
proof (cases "find (\<lambda>i. irq_descriptors s ! i = None) [a..<b]")
  case None
  then have "\<forall>i. a \<le> i \<and> i < b \<longrightarrow> irq_descriptors s ! i \<noteq> None"
    by (auto simp: find_None_iff)
  then show ?thesis
    using attach_from_eq [OF assms, of "[a..<b]"] None by simp
next
  case (Some i)
  then show ?thesis
    using attach_from_eq [OF assms, of "[a..<b]"] Some [unfolded find_upt_least] by auto
qed

lemma attach_irq_least:
  assumes "unconnected s p"
  shows "(\<exists>i. 0x20 \<le> i \<and> i < 0x100 \<and> irq_descriptors s ! i = None \<and> (\<forall>j. 0x20 \<le> j \<and> j < i \<longrightarrow> irq_descriptors s ! j \<noteq> None) \<and>
      attach_irq (Some p) s = Inr (True, connected s i p)) \<or>
    (\<forall>i. 0x20 \<le> i \<and> i < 0x100 \<longrightarrow> irq_descriptors s ! i \<noteq> None) \<and> attach_irq (Some p) s = Inr (False, s)"
  unfolding attach_irq_def option.case using assms by (intro attach_from_least) (simp add: unconnected_def)

section \<open>Dispatch\<close>

lemma raw_irq_connected:
  assumes "vectors_ok s" and "i < 256"
  shows "handle_raw_irq s (of_nat i) =
    Inr (case irq_descriptors s ! i of None \<Rightarrow> [NobodyCared] | Some p \<Rightarrow> irq_handle (irq_heap s ! p) p)"
  using assms unat_vector [OF assms(2)]
  by (auto simp: handle_raw_irq_def MAX_IRQS_def irq_at_def vectors_ok_def split: option.splits)

definition attached :: "'f irq_system \<Rightarrow> nat \<Rightarrow> 'f \<Rightarrow> ptr \<Rightarrow> 'f irq_system" where
  "attached s p f priv = s\<lparr>irq_heap := (irq_heap s)[p := (irq_heap s ! p)\<lparr>irq_handler := Some f, irq_priv := priv\<rparr>]\<rparr>"

lemma irq_attach_eq: "p < length (irq_heap s) \<Longrightarrow> irq_attach s p f priv = Inr (attached s p f priv)"
  by (simp add: irq_attach_def irq_upd_def irq_at_def attached_def)

lemma attached_ok: "vectors_ok s \<Longrightarrow> vectors_ok (attached s p f priv)"
proof -
  have "irq_nr ((irq_heap s)[p := (irq_heap s ! p)\<lparr>irq_handler := Some f, irq_priv := priv\<rparr>] ! q) = irq_nr (irq_heap s ! q)" for q
    by (cases "q = p"; cases "p < length (irq_heap s)") (auto simp: list_update_beyond)
  then show "vectors_ok s \<Longrightarrow> vectors_ok (attached s p f priv)"
    unfolding vectors_ok_def attached_def by simp
qed

lemma handled_events:
  "irq_handler q = Some f \<Longrightarrow> irq_handle q p =
    Called f p (irq_priv q) # (case irq_kind q of IOAPICIRQ \<Rightarrow> [Eoi] | LAPICIRQ _ \<Rightarrow> [Eoi] | _ \<Rightarrow> [])"
  by (simp add: irq_handle_def invoke_def split: irq_kind.splits)

text \<open>
  (\<open>irq.cpp\<close>). Installing a handler for a vector makes an interrupt with that number call it, with the object's private data, and leaves what every
  other vector does alone; the vectors stay well connected.
\<close>

theorem install_handler_dispatch:
  assumes "vectors_ok s" and "\<forall>p. irq_descriptors s ! unat nr = Some p \<longrightarrow> irq_kind (irq_heap s ! p) = kind" and
    "kind = ExceptionIRQ \<or> kind = SoftwareIRQ"
  shows "\<exists>s' p. install_handler kind nr f priv s = Inr (True, s') \<and> vectors_ok s' \<and>
    handle_raw_irq s' (ucast nr) = Inr [Called f p priv] \<and>
    (\<forall>j<256. j \<noteq> unat nr \<longrightarrow> handle_raw_irq s' (of_nat j) = handle_raw_irq s (of_nat j))"
proof -
  let ?i = "unat nr"
  have i: "?i < 256"
    using unsigned_less [of nr] by simp
  have "\<exists>s1 p. (case irq_descriptors s ! ?i of None \<Rightarrow> (case irq_new kind s of (p, s) \<Rightarrow> connect s ?i p) | Some _ \<Rightarrow> Inr s) = Inr s1 \<and>
      vectors_ok s1 \<and> irq_descriptors s1 ! ?i = Some p \<and> irq_kind (irq_heap s1 ! p) = kind \<and>
      (\<forall>j<256. j \<noteq> ?i \<longrightarrow> irq_descriptors s1 ! j = irq_descriptors s ! j) \<and>
      (\<forall>j<256. j \<noteq> ?i \<longrightarrow> (\<forall>q. irq_descriptors s ! j = Some q \<longrightarrow> irq_heap s1 ! q = irq_heap s ! q))"
  proof (cases "irq_descriptors s ! ?i")
    case None
    obtain p s0 where n: "irq_new kind s = (p, s0)"
      by fastforce
    note new = irq_new_ok [OF assms(1) n]
    have "p < length (irq_heap s0)"
      using new(2) by (simp add: unconnected_def)
    then have "connect s0 ?i p = Inr (connected s0 ?i p)"
      by (rule connect_eq)
    moreover have "vectors_ok (connected s0 ?i p)"
      by (rule connected_ok [OF new(1,2) i])
    moreover have "irq_heap (connected s0 ?i p) ! q = irq_heap s ! q" if "j < 256" "irq_descriptors s ! j = Some q" for j q
      using that assms(1) new(6,7) by (auto simp: vectors_ok_def connected_def nth_append)
    moreover have "length (irq_descriptors s) = 256"
      using assms(1) by (simp add: vectors_ok_def)
    ultimately show ?thesis
      using None n new(4,6,7) i
      by (intro exI [of _ "connected s0 ?i p"] exI [of _ p]) (auto simp: connected_def nth_list_update IRQ_new_def nth_append)
  next
    case (Some p)
    then show ?thesis
      using assms by auto
  qed
  then obtain s1 p where s1: "(case irq_descriptors s ! ?i of None \<Rightarrow> (case irq_new kind s of (p, s) \<Rightarrow> connect s ?i p) | Some _ \<Rightarrow> Inr s) = Inr s1"
      "vectors_ok s1" "irq_descriptors s1 ! ?i = Some p" "irq_kind (irq_heap s1 ! p) = kind"
    and others: "\<And>j. j < 256 \<Longrightarrow> j \<noteq> ?i \<Longrightarrow> irq_descriptors s1 ! j = irq_descriptors s ! j"
      "\<And>j q. j < 256 \<Longrightarrow> j \<noteq> ?i \<Longrightarrow> irq_descriptors s ! j = Some q \<Longrightarrow> irq_heap s1 ! q = irq_heap s ! q"
    by blast
  have p: "p < length (irq_heap s1)"
    using s1(2,3) i by (auto simp: vectors_ok_def)
  let ?s = "attached s1 p f priv"
  have ok: "vectors_ok ?s"
    by (rule attached_ok [OF s1(2)])
  have "install_handler kind nr f priv s = Inr (True, ?s)"
    using i s1(1,3) irq_attach_eq [OF p, of f priv] by (simp add: install_handler_def MAX_IRQS_def)
  moreover have "(ucast nr :: u32) = of_nat ?i"
    by simp
  moreover have "handle_raw_irq ?s (of_nat ?i) = Inr [Called f p priv]"
    using raw_irq_connected [OF ok i] s1(3,4) p assms(3) by (auto simp: attached_def handled_events)
  moreover have "handle_raw_irq ?s (of_nat j) = handle_raw_irq s (of_nat j)" if j: "j < 256" "j \<noteq> ?i" for j
  proof -
    have "q \<noteq> p" if "irq_descriptors s1 ! j = Some q" for q
      using vectors_distinct [OF s1(2) j(1) i] that s1(3) j(2) by auto
    then show ?thesis
      using raw_irq_connected [OF ok j(1)] raw_irq_connected [OF assms(1) j(1)] others [OF j]
      by (auto simp: attached_def split: option.splits)
  qed
  ultimately show ?thesis
    using ok by auto
qed

section \<open>Initialisation\<close>

definition gate_for :: "(nat \<Rightarrow> u64) \<Rightarrow> u64 \<Rightarrow> nat \<Rightarrow> gate" where
  "gate_for entry dpl i = \<lparr>gate_offset = entry i, gate_segment = 8, gate_type = 0xE, gate_dpl = dpl, gate_present = True\<rparr>"

lemma set_gate_eq:
  assumes "length (idt_entries (irq_idt s)) = 256" and "i < 256" and "take_bit 2 dpl = dpl"
  shows "\<exists>t. set_gate entry g dpl s i = Inr (s\<lparr>irq_idt := t\<rparr>) \<and> length (idt_entries t) = 256 \<and>
    decode_gate (idt_entries t ! i) = gate_for entry (ucast dpl) i \<and> (\<forall>j. j \<noteq> i \<longrightarrow> idt_entries t ! j = idt_entries (irq_idt s) ! j)"
proof -
  let ?e = "InterruptGateDescriptor g (entry i) 8 dpl"
  let ?t = "(irq_idt s)\<lparr>idt_entries := (idt_entries (irq_idt s))[i := ?e]\<rparr>"
  let ?t' = "if int i > uint (idt_max_index (irq_idt s)) then ?t\<lparr>idt_max_index := of_int (int i)\<rparr> else ?t"
  have "decode_gate ?e = gate_for entry (ucast dpl) i"
    using assms(3) decode_interrupt_gate [of g "entry i" 8 dpl] by (simp add: gate_for_def)
  then show ?thesis
    using assms(1,2) by (intro exI [of _ ?t']) (simp add: set_gate_def register_interrupt_gate_def idt_store_def MAX_NR_IDT_ENTRIES_def Let_def)
qed

lemma fold_result_append: "fold_result f s (xs @ ys) = andthen (fold_result f s xs) (\<lambda>s. fold_result f s ys)"
  by (induction xs arbitrary: s) (simp_all add: andthen_def split: sum.splits)

lemma set_gates:
  assumes "length (idt_entries (irq_idt s)) = 256" and "n \<le> 256"
  shows "\<exists>t. fold_result (set_gate entry g 0) s [0..<n] = Inr (s\<lparr>irq_idt := t\<rparr>) \<and> length (idt_entries t) = 256 \<and>
    (\<forall>i<n. decode_gate (idt_entries t ! i) = gate_for entry 0 i)"
  using assms(2)
proof (induction n)
  case 0
  then show ?case
    using assms(1) by (intro exI [of _ "irq_idt s"]) simp
next
  case (Suc n)
  then obtain t where t: "fold_result (set_gate entry g 0) s [0..<n] = Inr (s\<lparr>irq_idt := t\<rparr>)" "length (idt_entries t) = 256"
      "\<forall>i<n. decode_gate (idt_entries t ! i) = gate_for entry 0 i"
    by auto
  obtain u where u: "set_gate entry g 0 (s\<lparr>irq_idt := t\<rparr>) n = Inr (s\<lparr>irq_idt := u\<rparr>)" "length (idt_entries u) = 256"
      "decode_gate (idt_entries u ! n) = gate_for entry 0 n" "\<forall>j. j \<noteq> n \<longrightarrow> idt_entries u ! j = idt_entries t ! j"
    using set_gate_eq [of "s\<lparr>irq_idt := t\<rparr>" n 0 entry g] t(2) Suc.prems by auto
  then show ?case
    using t by (intro exI [of _ u]) (auto simp: fold_result_append less_Suc_eq)
qed

definition is_exception :: "'f irq_system \<Rightarrow> nat \<Rightarrow> bool" where
  "is_exception s i \<longleftrightarrow> (\<exists>p. irq_descriptors s ! i = Some p \<and> irq_heap s ! p = (IRQ_new ExceptionIRQ)\<lparr>irq_nr := of_nat i\<rparr>)"

lemma new_exceptions:
  assumes "vectors_ok s" and "n \<le> 256"
  shows "\<exists>s'. fold_result new_exception s [0..<n] = Inr s' \<and> vectors_ok s' \<and> irq_idt s' = irq_idt s \<and>
    (\<forall>i<n. is_exception s' i) \<and> (\<forall>i. n \<le> i \<longrightarrow> irq_descriptors s' ! i = irq_descriptors s ! i)"
  using assms(2)
proof (induction n)
  case 0
  then show ?case
    using assms(1) by simp
next
  case (Suc n)
  then obtain r where r: "fold_result new_exception s [0..<n] = Inr r" "vectors_ok r" "irq_idt r = irq_idt s"
      "\<forall>i<n. is_exception r i" "\<forall>i. n \<le> i \<longrightarrow> irq_descriptors r ! i = irq_descriptors s ! i"
    by auto
  obtain p q where n: "irq_new ExceptionIRQ r = (p, q)"
    by fastforce
  note new = irq_new_ok [OF r(2) n]
  let ?s = "connected q n p"
  have "new_exception r n = Inr ?s"
    using n connect_eq [of p q n] new(2) by (simp add: new_exception_def unconnected_def)
  moreover have "vectors_ok ?s"
    using Suc.prems by (intro connected_ok new) simp
  moreover have "is_exception ?s i" if i: "i < n" for i
  proof -
    obtain k where k: "irq_descriptors r ! i = Some k" "irq_heap r ! k = (IRQ_new ExceptionIRQ)\<lparr>irq_nr := of_nat i\<rparr>"
      using r(4) [rule_format, OF i] unfolding is_exception_def by blast
    moreover have "i < 256"
      using i Suc.prems by simp
    ultimately have "k < p"
      using r(2) new(7) unfolding vectors_ok_def by blast
    then show ?thesis
      using k new(4,6,7) i by (auto simp: is_exception_def connected_def nth_append)
  qed
  moreover have "is_exception ?s n"
    using new(3,4,6,7) r(2) Suc.prems by (simp add: is_exception_def connected_def vectors_ok_def)
  ultimately show ?case
    using r new(4,5) by (intro exI [of _ ?s]) (auto simp: fold_result_append less_Suc_eq connected_def)
qed


text \<open>The empty manager of the kernel's start.\<close>

definition irq_start :: "'f irq_system" where
  "irq_start = \<lparr>irq_heap = [], irq_descriptors = replicate 256 None, irq_idt = \<lparr>idt_max_index = 0, idt_entries = replicate 256 (0, 0)\<rparr>\<rparr>"

lemma irq_start_ok: "vectors_ok irq_start" "idt_ok (irq_idt irq_start)"
  by (simp_all add: irq_start_def vectors_ok_def idt_ok_def)


section \<open>Device lines\<close>

text \<open>
  The controller's indirect registers: selecting one changes none, reading changes none, and a redirection register holds the
  vector written to it. \<open>regs h r\<close> is the content of register \<open>r\<close>.
\<close>

definition ioapic_law :: "'h mmio \<Rightarrow> ('h \<Rightarrow> u32 \<Rightarrow> u32) \<Rightarrow> bool" where
  "ioapic_law io regs \<longleftrightarrow>
    (\<forall>h r. regs (mm_write io 0 r h) = regs h \<and> regs (snd (mm_read io 4 h)) = regs h \<and> fst (mm_read io 4 (mm_write io 0 r h)) = regs h r) \<and>
    (\<forall>h r v. 0x10 \<le> r \<longrightarrow> v < 256 \<longrightarrow> regs (mm_write io 4 v (mm_write io 0 r h)) = (regs h)(r := v))"

definition line_low :: "u32 \<Rightarrow> u32" where "line_low n = 0x10 + 2 * n"
definition line_high :: "u32 \<Rightarrow> u32" where "line_high n = 0x11 + 2 * n"

lemma line_registers:
  assumes "n < nr_irqs" and "nr_irqs \<le> 120"
  shows "ucast (0x10 + n * 2 :: u8) = line_low (ucast n)" "ucast (0x10 + n * 2 :: u8) + 1 = line_high (ucast n)"
    "0x10 \<le> line_low (ucast n)" "0x10 \<le> line_high (ucast n)"
proof -
  have n: "uint n < 120"
    using assms by (simp add: word_less_def word_le_def)
  have "uint (0x10 + n * 2) = 16 + 2 * uint n" "uint (line_low (ucast n)) = 16 + 2 * uint n" "uint (line_high (ucast n)) = 17 + 2 * uint n"
    using n by (simp_all add: line_low_def line_high_def uint_word_ariths unsigned_ucast_eq take_bit_int_eq_self)
  then show "ucast (0x10 + n * 2 :: u8) = line_low (ucast n)" "0x10 \<le> line_low (ucast n)" "0x10 \<le> line_high (ucast n)"
    using n by (simp_all add: word_uint_eq_iff unsigned_ucast_eq take_bit_int_eq_self word_le_def)
  then show "ucast (0x10 + n * 2 :: u8) + 1 = line_high (ucast n)"
    by (simp add: line_low_def line_high_def)
qed

lemma re_low_vector: "re_low (re_blank\<lparr>re_vector := v\<rparr>) = ucast v"
proof -
  have "take_bit 8 (ucast v :: u64) = ucast v"
    by (rule bit_eqI) (auto simp: bit_take_bit_iff bit_ucast_iff dest: bit_imp_le_length)
  then show ?thesis
    by (simp add: re_low_def re_blank_def field_def)
qed

lemma byte_wide: "uint (ucast v :: u32) = uint v" "uint (ucast v :: u64) = uint v" for v :: u8
  using uint_lt2p [of v] by (simp_all add: unsigned_ucast_eq take_bit_int_eq_self)

lemma vector_low: "(ucast (re_low (re_blank\<lparr>re_vector := v\<rparr>)) :: u32) = ucast v"
  using uint_lt2p [of v] by (simp add: re_low_vector unsigned_ucast_eq [of "ucast v :: u64"] byte_wide word_uint_eq_iff [where 'a = 32] take_bit_int_eq_self)

text \<open>Storing an entry with a vector sets the line's two registers and no other.\<close>

lemma store_vector:
  assumes "ioapic_law io regs" and "n < nr_irqs" and "nr_irqs \<le> 120"
  shows "\<exists>h'. store_redir_entry io nr_irqs n (re_blank\<lparr>re_vector := v\<rparr>) h = Inr h' \<and>
    regs h' = (regs h)(line_low (ucast n) := ucast v, line_high (ucast n) := 0)"
proof -
  have "(ucast v :: u32) < 256"
    using uint_lt2p [of v] by (simp add: word_less_def unsigned_ucast_eq take_bit_int_eq_self)
  then show ?thesis
    using assms(1) line_registers [OF assms(2,3)] unfolding ioapic_law_def
    by (simp add: store_redir_entry_def assms(2) ioapic_write_def Let_def vector_low) (simp add: re_blank_def)
qed

lemma vector_byte: "i < 256 \<Longrightarrow> (ucast (ucast (of_nat i :: u32) :: u8) :: u32) = of_nat i"
  by (simp add: unsigned_ucast_eq take_bit_of_nat take_bit_nat_eq_self)

text \<open>
  C40 (\<open>ioapic.cpp\<close>, \<open>irq.cpp\<close>). Requesting a device line that exists, while a vector is free, gives an interrupt object and programs the line, unmasked, with a vector that was
  free: the number the line then raises is dispatched to the handler attached to the object, followed by the end of interrupt. No other line's registers and no other vector changes.
\<close>

theorem device_line_delivered:
  assumes "ioapic_law io regs" and "vectors_ok s" and "nr_irqs \<le> 120" and "n < nr_irqs" and "\<exists>i. 32 \<le> i \<and> i < 256 \<and> irq_descriptors s ! i = None"
  shows "\<exists>p s' h' i. request_physical_irq io nr_irqs (Some lapic) (ucast n) s h = Inr (Some p, s', h') \<and> vectors_ok s' \<and>
    32 \<le> i \<and> i < 256 \<and> irq_descriptors s ! i = None \<and> irq_descriptors s' = (irq_descriptors s)[i := Some p] \<and>
    regs h' = (regs h)(line_low (ucast n) := of_nat i, line_high (ucast n) := 0) \<and>
    (\<forall>f priv. \<exists>t. irq_attach s' p f priv = Inr t \<and> handle_raw_irq t (of_nat i) = Inr [Called f p priv, Eoi])"
proof -
  obtain p s0 where new0: "irq_new IOAPICIRQ s = (p, s0)"
    by fastforce
  note new = irq_new_ok [OF assms(2) new0]
  obtain i where i: "32 \<le> i" "i < 256" "irq_descriptors s ! i = None" "attach_irq (Some p) s0 = Inr (True, connected s0 i p)"
    using attach_irq_least [OF new(2)] assms(5) new(4) by auto
  let ?s = "connected s0 i p"
  have p: "p < length (irq_heap ?s)" "irq_heap ?s ! p = (IRQ_new IOAPICIRQ)\<lparr>irq_nr := of_nat i\<rparr>" "irq_descriptors ?s ! i = Some p"
    using new(2,3,4) assms(2) i(2) by (simp_all add: connected_def unconnected_def vectors_ok_def)
  have ok: "vectors_ok ?s"
    by (rule connected_ok [OF new(1,2) i(2)])
  obtain h' where h': "store_redir_entry io nr_irqs n (re_blank\<lparr>re_vector := ucast (of_nat i :: u32)\<rparr>) h = Inr h'"
      "regs h' = (regs h)(line_low (ucast n) := of_nat i, line_high (ucast n) := 0)"
    using store_vector [OF assms(1,4,3), of "ucast (of_nat i :: u32)" h] vector_byte [OF i(2)] by auto
  have "(ucast n :: u32) < ucast nr_irqs" "(ucast (ucast n :: u32) :: u8) = n"
    using assms(4) uint_lt2p [of n]
    by (simp_all add: word_less_def byte_wide word_uint_eq_iff [where 'a = 8] unsigned_ucast_eq [of "ucast n :: u32"] take_bit_int_eq_self)
  then have "request_physical_irq io nr_irqs (Some lapic) (ucast n) s h = Inr (Some p, ?s, h')"
    using new0 i(4) p h'(1) by (simp add: request_physical_irq_def irq_at_def)
  moreover have "irq_attach ?s p f priv = Inr (attached ?s p f priv) \<and>
      handle_raw_irq (attached ?s p f priv) (of_nat i) = Inr [Called f p priv, Eoi]" for f priv
    using irq_attach_eq [OF p(1), of f priv] raw_irq_connected [OF attached_ok [OF ok, of p f priv] i(2)] p
    by (simp add: attached_def handled_events IRQ_new_def)
  ultimately show ?thesis
    using ok i(1-3) h'(2) new(4) by (intro exI [of _ p] exI [of _ ?s] exI [of _ h'] exI [of _ i]) (auto simp: connected_def)
qed

text \<open>A register file: the selected register and the contents.\<close>

definition demo_ioapic :: "(u32 \<times> (u32 \<Rightarrow> u32)) mmio" where
  "demo_ioapic = \<lparr>mm_read = (\<lambda>pos (sel, r). (if pos = 4 then r sel else 0, (sel, r))),
    mm_write = (\<lambda>pos v (sel, r). if pos = 0 then (v, r) else (sel, r(sel := v)))\<rparr>"

theorem device_line_delivered_witness:
  "\<exists>p s' h' i. request_physical_irq demo_ioapic 23 (Some 0) (ucast (1 :: u8)) (irq_start :: nat irq_system) (0, \<lambda>_. 0) = Inr (Some p, s', h') \<and>
    vectors_ok s' \<and> 32 \<le> i \<and> i < 256 \<and> irq_descriptors (irq_start :: nat irq_system) ! i = None \<and>
    irq_descriptors s' = (irq_descriptors (irq_start :: nat irq_system))[i := Some p] \<and>
    snd h' = (snd (0 :: u32, \<lambda>_. 0))(line_low (ucast (1 :: u8)) := of_nat i, line_high (ucast (1 :: u8)) := 0) \<and>
    (\<forall>f priv. \<exists>t. irq_attach s' p f priv = Inr t \<and> handle_raw_irq t (of_nat i) = Inr [Called f p priv, Eoi])"
  by (rule device_line_delivered [where regs = snd])
    (auto simp: ioapic_law_def demo_ioapic_def irq_start_ok irq_start_def vectors_ok_def word_less_def word_le_def split: prod.splits
      intro!: exI [of _ 32])

lemma blank_vector: "re_blank = re_blank\<lparr>re_vector := 0\<rparr>"
  by (simp add: re_blank_def)

lemma byte_of_word: "ucast (ucast w :: u8) = w AND 0xff" for w :: u32
proof -
  have "w AND 0xff = take_bit 8 w"
    by (simp add: take_bit_eq_mask mask_eq_exp_minus_1)
  then show ?thesis
    by (simp add: unsigned_ucast_eq)
qed

lemma byte_nat: "unat w < 256" for w :: u8
  using unsigned_less [of w] by simp

lemma blank_lines:
  assumes "ioapic_law io regs" and "nr_irqs \<le> 120" and "k \<le> unat nr_irqs"
  shows "\<exists>h'. fold_result (\<lambda>h i. store_redir_entry io nr_irqs (of_nat i) re_blank h) h [0..<k] = Inr h' \<and>
    (\<forall>n :: u8. unat n < k \<longrightarrow> regs h' (line_low (ucast n)) = 0 \<and> regs h' (line_high (ucast n)) = 0)"
  using assms(3)
proof (induction k)
  case 0
  then show ?case
    by simp
next
  case (Suc k)
  then obtain r where r: "fold_result (\<lambda>h i. store_redir_entry io nr_irqs (of_nat i) re_blank h) h [0..<k] = Inr r"
      "\<forall>n :: u8. unat n < k \<longrightarrow> regs r (line_low (ucast n)) = 0 \<and> regs r (line_high (ucast n)) = 0"
    by auto
  have k: "unat (of_nat k :: u8) = k"
    using Suc.prems byte_nat [of nr_irqs] by (simp add: unat_of_nat take_bit_nat_eq_self)
  then have less: "(of_nat k :: u8) < nr_irqs"
    using Suc.prems by (simp add: word_less_nat_alt)
  obtain h' where h': "store_redir_entry io nr_irqs (of_nat k) re_blank r = Inr h'"
      "regs h' = (regs r)(line_low (ucast (of_nat k :: u8)) := 0, line_high (ucast (of_nat k :: u8)) := 0)"
    using store_vector [OF assms(1) less assms(2), of 0 r] blank_vector by auto
  have "regs h' (line_low (ucast n)) = 0 \<and> regs h' (line_high (ucast n)) = 0" if n: "unat n < Suc k" for n :: u8
  proof (cases "unat n = k")
    case True
    then have "n = of_nat k"
      using k by (simp add: word_unat_eq_iff)
    then show ?thesis
      using h'(2) by simp
  next
    case False
    then have "unat n < k"
      using n by simp
    then show ?thesis
      using r(2) h'(2) by simp
  qed
  then show ?case
    using r(1) h'(1) by (auto simp: fold_result_append)
qed

text \<open>
  (\<open>ioapic.cpp\<close>, \<open>IOAPIC::init\<close>). After initialisation the redirection entry of every line the driver knows is zero: vector 0, not masked.
\<close>

theorem ioapic_init_lines:
  assumes "ioapic_law io regs" and "drop_bit 16 (regs h 1) AND 0xff \<le> 120"
  shows "\<exists>nr_irqs h'. ioapic_init io h = Inr (True, nr_irqs, h') \<and> ucast nr_irqs = drop_bit 16 (regs h 1) AND 0xff \<and>
    (\<forall>n<nr_irqs. regs h' (line_low (ucast n)) = 0 \<and> regs h' (line_high (ucast n)) = 0)"
proof -
  let ?n = "ucast (drop_bit 16 (regs h 1)) :: u8"
  obtain v h1 where 1: "ioapic_read io 1 h = (v, h1)"
    by fastforce
  obtain w h2 where 2: "ioapic_read io 0 h1 = (w, h2)"
    by fastforce
  have v: "v = regs h 1"
    using assms(1) 1 by (auto simp: ioapic_law_def ioapic_read_def dest: arg_cong [where f = fst])
  have n: "ucast ?n = drop_bit 16 (regs h 1) AND 0xff"
    by (rule byte_of_word)
  have le: "?n \<le> 120"
    using assms(2) unfolding n [symmetric] by (simp add: word_le_def byte_wide)
  obtain h' where h': "fold_result (\<lambda>h i. store_redir_entry io ?n (of_nat i) re_blank h) h2 [0..<unat ?n] = Inr h'"
      "\<forall>n :: u8. unat n < unat ?n \<longrightarrow> regs h' (line_low (ucast n)) = 0 \<and> regs h' (line_high (ucast n)) = 0"
    using blank_lines [OF assms(1) le order_refl, of h2] by auto
  have "ioapic_init io h = Inr (True, ?n, h')"
    using h'(1) by (simp add: ioapic_init_def 1 2 v)
  then show ?thesis
    using h'(2) n by (intro exI [of _ ?n] exI [of _ h']) (simp add: word_less_nat_alt)
qed

section \<open>Timers\<close>

lemma uint_wide: "uint (ucast v :: u64) = uint v" for v :: u32
  using uint_lt2p [of v] by (simp add: unsigned_ucast_eq take_bit_int_eq_self)

lemma wide_word: "take_bit 64 v = v" for v :: u32
  by (rule bit_eqI) (auto simp: bit_take_bit_iff dest: bit_imp_le_length)

text \<open>
  (\<open>lapic-timer.cpp\<close>, \<open>devices.cpp\<close>). The period programmed from the calibration's frequency is the number of ticks the calibration counted, while that
  number times 1600 fits in 32 bits; from there on it is not.
\<close>

theorem timer_period_calibrated:
  "timer_period (timer_frequency (0xffffffff - ucast e)) = ucast e \<longleftrightarrow> e < 2684355" for e :: u32
proof -
  define n where "n = uint e"
  have n: "0 \<le> n" "n < 2 ^ 32"
    using uint_lt2p [of e] by (simp_all add: n_def)
  have "(ucast (ucast e :: u64) :: u32) = e"
    by (simp add: unsigned_ucast_eq wide_word)
  then have "timer_frequency (0xffffffff - ucast e) = ucast (push_bit 4 e * 100)"
    by (simp add: timer_frequency_def)
  moreover have "uint (push_bit 4 e * 100) = n * 1600 mod 2 ^ 32"
    by (simp add: uint_word_ariths n_def take_bit_eq_mod push_bit_eq_mult unsigned_push_bit_eq mult.commute)
  ultimately have t: "uint (timer_period (timer_frequency (0xffffffff - ucast e))) = n * 1600 mod 2 ^ 32 div 16 div 100"
    by (simp add: timer_period_def uint_div uint_wide drop_bit_eq_div)
  have "n * 1600 mod 2 ^ 32 div 16 div 100 = n \<longleftrightarrow> n < 2684355"
  proof (cases "n < 2684355")
    case True
    then show ?thesis
      using n(1) by simp
  next
    case False
    have "n * 1600 mod 2 ^ 32 < 4294967296"
      by simp
    then show ?thesis
      using False by linarith
  qed
  then show ?thesis
    using t by (simp add: word_uint_eq_iff [where 'a = 64] uint_wide n_def word_less_def)
qed

end
