(* ===== verification/Spec2Isabelle.thy ===== *)
theory Spec2Isabelle
  imports Page_Props Util_Map_Correct Sched_Props Cmos_Rtc_Props Util_String_Correct Vma_Props Vfs_Props Printf_Correct Locks Console_Correct Syscalls_Correct Cmdline Exec_Room Ata_System Pci_Correct Interrupts_Correct
begin

text \<open>
  Verification development for InfOS (\<open>src/infos\<close>) and its coursework modules (\<open>src/coursework\<close>).

  InfOS is a small x86-64 kernel. Physical memory is handed out by a page allocator with an exchangeable
  algorithm (the buddy allocator of the coursework, or a simple one); virtual memory areas build page tables from its
  pages; processes own threads, which a scheduler with exchangeable algorithms runs and events put to sleep and wake; a device
  manager names devices, a virtual file system mounts file systems over them, one of them a TAR archive on a block device; keyboard,
  consoles and terminals carry input and output. Containers, strings, formatted printing and locks are
  the kernel's own. The model follows this division: one theory, or one theory for the model and one or
  two for its properties, per part.

  Conventions. A fault of the C++ code (failed assertion, null dereference, access outside an array, undefined operation, endless
  loop) is a value: operations return \<open>fault + 'a\<close> (\<open>Prelude\<close>). Machine integers are words of their
  width. Objects that are shared live in lists, pointers to them are positions, the null pointer is \<open>None\<close>. What
  is outside the sources (devices' registers and blocks, uninitialised memory, linker symbols) is a parameter.

  Theories, with the sources they model:

  \<^item> \<open>Prelude\<close>: faults and results, pointer chains, generic lemmas.
  \<^item> \<open>Buddy\<close> (\<open>coursework/buddy.cpp\<close>): free lists over \<open>next_free\<close> pointers. \<open>Buddy_Lists\<close> has the effect of
    each list operation, \<open>Buddy_Blocks\<close> reads the lists as a set of blocks, \<open>Buddy_Correct\<close> has the
    invariant and merging, \<open>Buddy_Contract\<close> the contract of the public operations.
  \<^item> \<open>Phys_Mem\<close> (\<open>mm/mm.cpp\<close>, \<open>define.h\<close>), \<open>Page_Alloc\<close> (\<open>mm/page-allocator.cpp\<close>, the simple allocator): \<open>Page_Alloc_Correct\<close> states
    the contract of an algorithm as the locale \<open>page_algorithm\<close>, interpreted on both allocators; \<open>Page_Selftest\<close> runs the
    self test; \<open>Page_Props\<close> has the properties.
  \<^item> \<open>Vma\<close> (\<open>mm/vma.cpp\<close>): page tables as words in physical memory; \<open>Vma_Correct\<close> shows what a walk finds after
    an insertion, over \<open>page_algorithm\<close> and its extension \<open>complete_page_algorithm\<close>; \<open>Vma_Props\<close>.
  \<^item> \<open>Util_List\<close>, \<open>Util_Map\<close> (\<open>util/list.h\<close>, \<open>util/map.h\<close>): list with its counter, red-black tree as a zipper;
    \<open>Util_Map_Correct\<close> has the colour and order invariants and the locale \<open>keyed_map\<close>. \<open>Core_List\<close> (the list pasted into
    \<open>coursework/sched-rr.cpp\<close>): pointer rings; \<open>Core_List_Correct\<close> refines them to lists.
  \<^item> \<open>Sched\<close> (\<open>kernel/sched.cpp\<close>, \<open>thread.cpp\<close>, \<open>process.cpp\<close>, \<open>util/event.cpp\<close>, \<open>wakequeue.cpp\<close>, the three algorithms): \<open>Sched_Correct\<close>
    states what the scheduler needs of an algorithm as the locale \<open>sched_algorithm\<close> and the invariant of reachable
    kernels; \<open>Sched_Props\<close> interprets it on all three algorithms.
  \<^item> \<open>Locks\<close> (\<open>util/lock.cpp\<close>): interleaved steps of threads at a mutex, nested interrupt locks.
  \<^item> \<open>Cmos_Rtc\<close> (\<open>coursework/cmos-rtc.cpp\<close>, \<open>drivers/timer/rtc.cpp\<close>, the time of day in \<open>kernel/kernel.cpp\<close>) and \<open>Cmos_Rtc_Props\<close>.
  \<^item> \<open>Util_String\<close> (\<open>util/string.cpp\<close>, \<open>string.h\<close>) and \<open>Util_String_Correct\<close>; \<open>Printf\<close> (\<open>util/printf.cpp\<close>) and
    \<open>Printf_Correct\<close>, which gives the text a format produces and its cut to the buffer.
  \<^item> \<open>Devices\<close> (\<open>drivers/device.h\<close>, \<open>kernel/device-manager.cpp\<close>, partitions) and \<open>Devices_Correct\<close>.
  \<^item> \<open>Tarfs\<close> (\<open>coursework/tarfs.cpp\<close>): headers, tree, files, directories; \<open>Tree_Walk\<close> has the trees both file system
    theories use; \<open>Tarfs_Correct\<close> shows that a mounted tree is the map from paths the archive describes.
  \<^item> \<open>Vfs\<close> (\<open>fs/vfs.cpp\<close>, \<open>vfs-node.cpp\<close> and the file systems below): \<open>Vfs_Correct\<close>, \<open>Vfs_Props\<close> show that lookup with its
    cache of virtual nodes finds what the physical trees contain.
  \<^item> \<open>Console\<close> (\<open>drivers/input\<close>, \<open>drivers/console\<close>, \<open>drivers/terminal\<close>, \<open>drivers/video\<close>): from scan codes to terminal input, from
    written bytes to the screen; \<open>Console_Correct\<close>.
  \<^item> \<open>Syscalls\<close> (\<open>kernel/om.cpp\<close>, \<open>kernel/syscall.cpp\<close>): handles and the system calls over scheduler, file system, consoles
    and clock; \<open>Sched_Frame\<close> has what kernel operations leave alone; \<open>Syscalls_Correct\<close> has runs of the system with the log of
    handles and their isolation between processes.
  \<^item> \<open>Cmdline\<close> (\<open>util/cmdline.cpp\<close>, the boot settings of \<open>kernel/kernel.cpp\<close>): the parser against the words of a line.
  \<^item> \<open>File_Interface\<close> (\<open>fs/file.h\<close>): open files as a record of operations, and the locale \<open>readable_file\<close> a loader relies on;
    \<open>Internal_Driver\<close> (\<open>fs/internal-driver.cpp\<close>) interprets it on the kernel's own TAR files.
  \<^item> \<open>Exec\<close> (\<open>fs/exec/elf-loader.cpp\<close>, thread contexts in \<open>kernel/thread.cpp\<close>, \<open>launch_process\<close>): \<open>Exec_Steps\<close> has what mapping and copying
    do to data frames and the segments, \<open>Exec_Correct\<close> the process, stack and command line, \<open>Exec_Room\<close> counts free blocks and
    shows that a load that fits succeeds.
  \<^item> \<open>Ports\<close> (\<open>arch/x86/pio.h\<close>): port instructions over a parameter for the hardware. \<open>Ata\<close> (\<open>drivers/ata\<close>): register access, transfers,
    identification, probing and partition tables. \<open>Block_Interface\<close> has the locale \<open>block_reader\<close>, what a file system relies on in a block
    device; \<open>Ata_Drive\<close> states the protocol of a drive as hypotheses on the ports and proves waiting, programming and reading
    against it; \<open>Ata_Correct\<close> has the transfers; \<open>Ata_System\<close> interprets the locale on drives and on partitions and has the scan of a table.
  \<^item> \<open>Pci\<close> (\<open>drivers/pci\<close>): configuration space, probing, bridges and storage controllers, which start \<open>Ata\<close>; \<open>Pci_Correct\<close>.
  \<^item> \<open>Descriptors\<close> (\<open>arch/x86/dt.cpp\<close>): packed descriptors, the global and the interrupt table, and what the processor reads in them.
    \<open>Interrupts\<close> (\<open>arch/x86/irq.cpp\<close>, \<open>drivers/irq\<close>, \<open>drivers/timer\<close>): vectors and their objects, the two controllers, calibration of
    the timer; \<open>Interrupts_Correct\<close> follows an interrupt from the line to the handler.

  Fuel. Walks over a list of n pages take n + 2 steps; nested wake-ups \<open>length entities + 2\<close>; walks round a ring
  \<open>fresh + 1\<close>; \<open>split\<close> one more than the length of the string (513 for a header name); the header loop of tarfs one more than the
  number of headers; the class hierarchy one more than the number of classes; path lookup the length of
  the path; the format loop one more than the length of the format; the parser of the
  command line one more than the length of the line; a read of the TAR driver one more than the bytes asked for. A loop that
  waits for an ATA drive is as long as the drive is busy: its results hold for all fuel from some value on (\<open>settles\<close>). The fuel of a PCI
  probe bounds the nesting of bridges. Running out is the fault \<open>Diverges\<close>, and the
  properties show that it does not happen, or, for \<open>split\<close> with \<open>remove_empty\<close>, that it always does.

  Not modelled: the rest of the x86 layer (\<open>arch/x86\<close>: interrupt entry code, ACPI and multiboot parsing, context switch), the allocator of heap objects (\<open>mm/dlmalloc.cpp\<close>, a third-party file), logging,
  the programs in \<open>infos-user\<close>, the parts of the coursework library that no module uses.
\<close>

end
